(* ===== verification/Duck_Prelude.thy ===== *)
theory Duck_Prelude
  imports Main "HOL-Library.Word" "HOL-Library.Monad_Syntax"
begin

text \<open>
  Shared vocabulary of the development: machine integers, panics, error numbers,
  checked indexing, and the ordered map that stands for the kernel's \<open>BTreeMap\<close>s,
  with its interface as a locale.

  \<^item> Machine integers keep their width: \<open>usize\<close> is \<^typ>\<open>64 word\<close>. The kernel is
    built with \<^verbatim>\<open>--release\<close> (\<^verbatim>\<open>os/Makefile\<close>), so \<open>+\<close>, \<open>-\<close> and \<open>*\<close> wrap.
  \<^item> A Rust panic (a failed \<^verbatim>\<open>assert!\<close>, \<^verbatim>\<open>unwrap\<close> of \<^verbatim>\<open>None\<close>, an index out of
    range, \<^verbatim>\<open>todo!()\<close>) is the value \<^term>\<open>None\<close> of an \<open>option\<close> result. Code that
    cannot panic returns its value directly.
  \<^item> \<^verbatim>\<open>OSResult<T>\<close> is the sum \<open>errno + 'a\<close>; an early return with \<^verbatim>\<open>Err\<close> is \<^term>\<open>Inl\<close>.
  \<^item> Mutation is explicit state passing.
\<close>

unbundle bit_operations_syntax

section \<open>Machine integers and results\<close>

type_synonym u8 = "8 word"
type_synonym u16 = "16 word"
type_synonym u32 = "32 word"
type_synonym u64 = "64 word"
type_synonym usize = "64 word"
type_synonym isize = "64 word"

lemma unat_u64 [simp]: "unat (w :: u64) < 2 ^ 64"
  using unsigned_less [of w] by simp

lemma take_bit_unat_u64 [simp]: "take_bit 64 (unat (w :: u64)) = unat w"
  by (rule take_bit_nat_eq_self) (rule unat_u64)

text \<open>The error numbers the kernel constructs, with their discriminants.\<close>

datatype errno =
    EPERM | ENOENT | EBADF | ENOMEM | EACCES | EFAULT | EBUSY
  | EEXIST | ENOTDIR | EISDIR | EINVAL | ERANGE | ENOTEMPTY

fun errno_code :: "errno \<Rightarrow> nat" where
  "errno_code EPERM = 1"
| "errno_code ENOENT = 2"
| "errno_code EBADF = 9"
| "errno_code ENOMEM = 12"
| "errno_code EACCES = 13"
| "errno_code EFAULT = 14"
| "errno_code EBUSY = 16"
| "errno_code EEXIST = 17"
| "errno_code ENOTDIR = 20"
| "errno_code EISDIR = 21"
| "errno_code EINVAL = 22"
| "errno_code ERANGE = 34"
| "errno_code ENOTEMPTY = 39"

type_synonym 'a os_result = "errno + 'a"

definition rassert :: "bool \<Rightarrow> unit option" where
  "rassert b = (if b then Some () else None)"

definition nth_opt :: "'a list \<Rightarrow> nat \<Rightarrow> 'a option" where
  "nth_opt xs i = (if i < length xs then Some (xs ! i) else None)"

text \<open>\<open>foldM f xs s\<close> is a \<^verbatim>\<open>for\<close> loop over \<open>xs\<close> whose body updates \<open>s\<close> and may panic.\<close>

fun foldM :: "('a \<Rightarrow> 's \<Rightarrow> 's option) \<Rightarrow> 'a list \<Rightarrow> 's \<Rightarrow> 's option" where
  "foldM f [] s = Some s"
| "foldM f (x # xs) s = Option.bind (f x s) (foldM f xs)"

named_theorems panic_simps \<open>unfolding of checked operations and of the panic monad\<close>
named_theorems duck_defs \<open>definitions of small model functions\<close>

lemma rassert_simps [simp]:
  "rassert True = Some ()"
  "rassert False = None"
  by (simp_all add: rassert_def)

lemma rassert_Some [panic_simps]: "rassert b = Some u \<longleftrightarrow> b"
  by (cases b) simp_all

lemma rassert_bind_Some [panic_simps]:
  "Option.bind (rassert b) f = Some y \<longleftrightarrow> b \<and> f () = Some y"
  by (cases b) simp_all

lemma rassert_bind_None [panic_simps]:
  "Option.bind (rassert b) f = None \<longleftrightarrow> (b \<longrightarrow> f () = None)"
  by (cases b) simp_all

lemma nth_opt_Some [panic_simps]:
  "nth_opt xs i = Some y \<longleftrightarrow> i < length xs \<and> y = xs ! i"
  by (auto simp: nth_opt_def)

lemma nth_opt_None [panic_simps]: "nth_opt xs i = None \<longleftrightarrow> length xs \<le> i"
  by (auto simp: nth_opt_def)

lemma nth_opt_nth [simp]: "i < length xs \<Longrightarrow> nth_opt xs i = Some (xs ! i)"
  by (simp add: nth_opt_def)

lemmas [panic_simps] = bind_eq_Some_conv bind_eq_None_conv

lemma foldM_append: "foldM f (xs @ ys) s = Option.bind (foldM f xs s) (foldM f ys)"
  by (induction xs arbitrary: s) (auto split: Option.bind_split)

lemma foldM_invariant:
  assumes "foldM f xs s = Some t" and "P s"
    and "\<And>x s t. x \<in> set xs \<Longrightarrow> P s \<Longrightarrow> f x s = Some t \<Longrightarrow> P t"
  shows "P t"
  using assms
proof (induction xs arbitrary: s)
  case Nil
  then show ?case by simp
next
  case (Cons x xs)
  from Cons.prems(1) obtain u where u: "f x s = Some u" and t: "foldM f xs u = Some t"
    by (auto simp: panic_simps)
  have "P u" using Cons.prems(2,3) u by auto
  with t show ?case using Cons.IH Cons.prems(3) by auto
qed

text \<open>
  A loop over \<open>xs\<close> returns when its body does in every state that satisfies the loop
  invariant, and the invariant, indexed by the number of iterations done, holds at its end.
\<close>

lemma foldM_upt:
  assumes "a \<le> b" and "P a s"
    and step: "\<And>i s. a \<le> i \<Longrightarrow> i < b \<Longrightarrow> P i s \<Longrightarrow> \<exists>t. f i s = Some t \<and> P (Suc i) t"
  shows "\<exists>t. foldM f [a..<b] s = Some t \<and> P b t"
  using assms(1,2,3)
proof (induction "b - a" arbitrary: a s)
  case 0
  then show ?case by simp
next
  case (Suc n)
  then have ab: "a < b" by simp
  with Suc.prems(2,3) obtain u where u: "f a s = Some u" "P (Suc a) u"
    by blast
  have "\<exists>t. foldM f [Suc a..<b] u = Some t \<and> P b t"
  proof (rule Suc.hyps(1))
    show "n = b - Suc a" using Suc.hyps(2) by simp
    show "Suc a \<le> b" using ab by simp
    show "P (Suc a) u" by (rule u(2))
    show "\<And>i s. Suc a \<le> i \<Longrightarrow> i < b \<Longrightarrow> P i s \<Longrightarrow> \<exists>t. f i s = Some t \<and> P (Suc i) t"
      using Suc.prems(3) by simp
  qed
  with u ab show ?case by (simp add: upt_conv_Cons)
qed

text \<open>The same for any list, with the invariant indexed by the elements visited so far.\<close>

lemma foldM_done:
  assumes "P [] s"
    and step: "\<And>ys x zs s. xs = ys @ x # zs \<Longrightarrow> P ys s \<Longrightarrow> \<exists>t. f x s = Some t \<and> P (ys @ [x]) t"
  shows "\<exists>t. foldM f xs s = Some t \<and> P xs t"
proof -
  have "\<exists>t. foldM f zs s = Some t \<and> P xs t" if "xs = ys @ zs" "P ys s" for ys zs s
    using that
  proof (induction zs arbitrary: ys s)
    case Nil
    then show ?case by simp
  next
    case (Cons x zs)
    then obtain u where u: "f x s = Some u" "P (ys @ [x]) u" using step by blast
    show ?case using Cons.IH [of "ys @ [x]" u] Cons.prems(1) u by simp
  qed
  from this [of "[]" xs s] show ?thesis using assms(1) by simp
qed

section \<open>Little-endian numbers\<close>

fun le_nat :: "u8 list \<Rightarrow> nat" where
  "le_nat [] = 0"
| "le_nat (b # bs) = unat b + 256 * le_nat bs"

definition le_word :: "u8 list \<Rightarrow> 'a::len word" where
  "le_word bs = word_of_nat (le_nat bs)"

fun le_bytes :: "nat \<Rightarrow> nat \<Rightarrow> u8 list" where
  "le_bytes 0 v = []"
| "le_bytes (Suc n) v = word_of_nat v # le_bytes n (v div 256)"

lemma length_le_bytes [simp]: "length (le_bytes n v) = n"
  by (induction n arbitrary: v) simp_all

lemma le_nat_bytes [simp]: "le_nat (le_bytes n v) = v mod 256 ^ n"
proof (induction n arbitrary: v)
  case (Suc n)
  have "unat (word_of_nat v :: u8) = v mod 256" by (simp add: unat_of_nat take_bit_eq_mod)
  then show ?case using Suc by (simp add: mod_mult2_eq)
qed simp

lemma le_word_bytes: "le_word (le_bytes 4 (unat v)) = (v :: u32)"
proof -
  have "unat v < 256 ^ 4" using unsigned_less [of v] by simp
  then show ?thesis by (simp add: le_word_def)
qed

section \<open>Ordered maps\<close>

text \<open>
  A \<^verbatim>\<open>BTreeMap\<close> is the list of its entries in increasing order of the keys, the order in
  which its iterators visit them.
\<close>

type_synonym ('k, 'v) btree_map = "('k \<times> 'v) list"

fun bt_insert :: "'k::linorder \<Rightarrow> 'v \<Rightarrow> ('k, 'v) btree_map \<Rightarrow> ('k, 'v) btree_map" where
  "bt_insert k v [] = [(k, v)]"
| "bt_insert k v ((k', v') # m) =
     (if k < k' then (k, v) # (k', v') # m
      else if k = k' then (k, v) # m
      else (k', v') # bt_insert k v m)"

definition bt_remove :: "'k \<Rightarrow> ('k, 'v) btree_map \<Rightarrow> ('k, 'v) btree_map" where
  "bt_remove k m = filter (\<lambda>(k', _). k' \<noteq> k) m"

definition bt_get :: "('k, 'v) btree_map \<Rightarrow> 'k \<Rightarrow> 'v option" where
  "bt_get m = map_of m"

definition bt_keys :: "('k, 'v) btree_map \<Rightarrow> 'k list" where
  "bt_keys m = map fst m"

definition bt_wf :: "('k::linorder, 'v) btree_map \<Rightarrow> bool" where
  "bt_wf m \<longleftrightarrow> sorted_wrt (<) (map fst m)"

text \<open>What the clients of a map rely on.\<close>

locale ordered_map =
  fixes empty :: "'m"
    and insert :: "'k::linorder \<Rightarrow> 'v \<Rightarrow> 'm \<Rightarrow> 'm"
    and remove :: "'k \<Rightarrow> 'm \<Rightarrow> 'm"
    and get :: "'m \<Rightarrow> 'k \<Rightarrow> 'v option"
    and keys :: "'m \<Rightarrow> 'k list"
    and invar :: "'m \<Rightarrow> bool"
  assumes get_empty: "get empty k = None"
    and get_insert: "invar m \<Longrightarrow> get (insert k v m) k' = (if k' = k then Some v else get m k')"
    and get_remove: "invar m \<Longrightarrow> get (remove k m) k' = (if k' = k then None else get m k')"
    and keys_get: "invar m \<Longrightarrow> set (keys m) = dom (get m)"
    and keys_sorted: "invar m \<Longrightarrow> sorted_wrt (<) (keys m)"
    and invar_empty: "invar empty"
    and invar_insert: "invar m \<Longrightarrow> invar (insert k v m)"
    and invar_remove: "invar m \<Longrightarrow> invar (remove k m)"
begin

lemma keys_insert: "invar m \<Longrightarrow> set (keys (insert k v m)) = Set.insert k (set (keys m))"
  by (auto simp: keys_get invar_insert get_insert dom_def)

lemma keys_remove: "invar m \<Longrightarrow> set (keys (remove k m)) = set (keys m) - {k}"
  by (auto simp: keys_get invar_remove get_remove dom_def)

lemma remove_insert_get:
  "invar m \<Longrightarrow> get m k = None \<Longrightarrow> get (remove k (insert k v m)) = get m"
  by (auto simp: fun_eq_iff get_remove get_insert invar_insert)

lemma keys_distinct: "invar m \<Longrightarrow> distinct (keys m)"
  using keys_sorted strict_sorted_iff by blast

end

lemma fst_set_bt_insert: "fst ` set (bt_insert k v m) = insert k (fst ` set m)"
  by (induction k v m rule: bt_insert.induct) auto

lemma bt_get_insert [simp]:
  "bt_wf m \<Longrightarrow> bt_get (bt_insert k v m) k' = (if k' = k then Some v else bt_get m k')"
proof (induction k v m rule: bt_insert.induct)
  case (1 k v)
  then show ?case by (simp add: bt_get_def)
next
  case (2 k v k'' v'' m)
  then show ?case by (auto simp: bt_get_def bt_wf_def split: if_splits)
qed

lemma bt_get_remove [simp]: "bt_get (bt_remove k m) k' = (if k' = k then None else bt_get m k')"
  by (induction m) (auto simp: bt_get_def bt_remove_def)

lemma bt_wf_insert [simp]: "bt_wf m \<Longrightarrow> bt_wf (bt_insert k v m)"
  by (induction k v m rule: bt_insert.induct) (auto simp: bt_wf_def fst_set_bt_insert)

lemma sorted_wrt_filter_fst:
  "sorted_wrt (<) (map fst m) \<Longrightarrow> sorted_wrt (<) (map fst (filter P m))"
  by (induction m) auto

lemma bt_wf_remove [simp]: "bt_wf m \<Longrightarrow> bt_wf (bt_remove k m)"
  unfolding bt_wf_def bt_remove_def by (rule sorted_wrt_filter_fst)

lemma bt_wf_Nil [simp]: "bt_wf []"
  by (simp add: bt_wf_def)

lemma set_bt_keys: "set (bt_keys m) = dom (bt_get m)"
  by (simp add: bt_keys_def bt_get_def dom_map_of_conv_image_fst)

lemma bt_wf_distinct: "bt_wf m \<Longrightarrow> distinct (map fst m)"
  by (simp add: bt_wf_def strict_sorted_iff)

lemma bt_get_iff: "bt_wf m \<Longrightarrow> bt_get m k = Some v \<longleftrightarrow> (k, v) \<in> set m"
  by (simp add: bt_get_def bt_wf_distinct)

interpretation bt: ordered_map "[]" bt_insert bt_remove bt_get bt_keys bt_wf
  by unfold_locales (simp_all add: set_bt_keys, simp_all add: bt_get_def bt_keys_def bt_wf_def)

end
