(* ===== verification/Hart_Env.thy ===== *)
theory Hart_Env
  imports Duck_Prelude
begin

text \<open>
  The permission of the kernel to access user pages (\<^verbatim>\<open>process/hart/env.rs\<close>): the \<^verbatim>\<open>SUM\<close> bit of the status register of a hart, with a
  counter for nested uses. A \<^verbatim>\<open>SumGuard\<close> turns it on where it is created and off where its scope ends.

  The lemmas show that guards do not nest: the test of the register compares a bit mask with one and never holds, so that the end of
  the inner guard takes the permission away from the rest of the outer scope.
\<close>

record hart_env =
  sum_status :: usize
  sstatus_reg :: usize

definition SUM_BIT :: usize where "SUM_BIT = push_bit 18 1"

definition env_empty :: "usize \<Rightarrow> hart_env" where
  "env_empty reg = \<lparr>sum_status = 0, sstatus_reg = reg\<rparr>"

definition set_sum :: "hart_env \<Rightarrow> hart_env" where
  "set_sum e = e\<lparr>sstatus_reg := sstatus_reg e OR SUM_BIT\<rparr>"

definition clear_sum :: "hart_env \<Rightarrow> hart_env" where
  "clear_sum e = e\<lparr>sstatus_reg := sstatus_reg e AND NOT SUM_BIT\<rparr>"

definition read_sum :: "hart_env \<Rightarrow> bool" where
  "read_sum e \<longleftrightarrow> sstatus_reg e AND push_bit 18 1 = 1"

definition sum_on :: "hart_env \<Rightarrow> hart_env" where
  "sum_on e =
     (let e1 = (if sum_status e = 0 then set_sum e
                else if \<not> read_sum e then set_sum (e\<lparr>sum_status := 0\<rparr>)
                else e) in
      e1\<lparr>sum_status := sum_status e1 + 1\<rparr>)"

definition sum_off :: "hart_env \<Rightarrow> hart_env" where
  "sum_off e =
     (let e1 = (if sum_status e = 1 then clear_sum e else e) in
      e1\<lparr>sum_status := sum_status e1 - 1\<rparr>)"

text \<open>A guard around a part of the kernel.\<close>

definition with_sum_guard :: "(hart_env \<Rightarrow> hart_env) \<Rightarrow> hart_env \<Rightarrow> hart_env" where
  "with_sum_guard body e = sum_off (body (sum_on e))"

definition user_access :: "hart_env \<Rightarrow> bool" where
  "user_access e \<longleftrightarrow> bit (sstatus_reg e) 18"

lemma read_sum_False: "\<not> read_sum e"
proof
  assume "read_sum e"
  then have "bit (sstatus_reg e AND push_bit 18 1) 0 = bit (1 :: usize) 0" by (simp only: read_sum_def)
  then show False by (simp add: bit_simps)
qed

lemma sum_on_eq: "sum_on e = (set_sum e)\<lparr>sum_status := 1\<rparr>"
  by (simp add: sum_on_def read_sum_False set_sum_def Let_def)

lemma access_set [simp]: "user_access (set_sum e)" "\<not> user_access (clear_sum e)" "user_access (e\<lparr>sum_status := n\<rparr>) = user_access e"
  by (simp_all add: user_access_def set_sum_def clear_sum_def SUM_BIT_def bit_simps)

lemma sum_off_on: "sum_off (sum_on e) = (clear_sum e)\<lparr>sum_status := 0\<rparr>"
proof -
  have "(sstatus_reg e OR SUM_BIT) AND NOT SUM_BIT = sstatus_reg e AND NOT SUM_BIT" by (rule bit_word_eqI) (auto simp: bit_simps)
  then show ?thesis by (simp add: sum_on_eq sum_off_def set_sum_def clear_sum_def)
qed

text \<open>
  C39: inside a guard the kernel may access user memory; after a nested guard it may not any more, although the outer guard still
  lives, and the counter is then 0, so that the end of the outer guard wraps it to the largest number.
\<close>

theorem nested_guard_drops_access:
  "user_access (sum_on e) \<and> \<not> user_access (with_sum_guard id (sum_on e)) \<and> sum_status (with_sum_guard id (sum_on e)) = 0 \<and>
   sum_status (with_sum_guard (with_sum_guard id) e) = - 1"
  by (simp add: sum_on_eq with_sum_guard_def sum_off_on [unfolded sum_on_eq]) (simp add: sum_off_def set_sum_def clear_sum_def)

end
