(* ===== verification/Address.thy ===== *)
theory Address
  imports Duck_Prelude
begin

text \<open>
  The address constants (\<^verbatim>\<open>config/mm.rs\<close>) and the address arithmetic (\<^verbatim>\<open>mm/address.rs\<close>):
  conversions between virtual and physical addresses and page numbers, alignment, and
  the three indices of an Sv39 virtual address. The functions that assert their argument's
  range return \<^term>\<open>None\<close> when the assertion fails.

  The lemmas show that the kernel's linear map is a bijection between the physical range and
  its window, that alignment brackets an address by the page boundaries around it, and
  that a user page number is determined by its three indices.
\<close>

section \<open>Constants\<close>

definition PHY_TO_VIRT_OFFSET :: usize where "PHY_TO_VIRT_OFFSET = 0xffffffff00000000"
definition PAGE_SIZE_BITS :: nat where "PAGE_SIZE_BITS = 12"
definition PAGE_SIZE :: usize where "PAGE_SIZE = 0x1000"
definition SV39_VPN_1 :: nat where "SV39_VPN_1 = 12"
definition SV39_VPN_2 :: nat where "SV39_VPN_2 = 21"
definition SV39_VPN_3 :: nat where "SV39_VPN_3 = 30"
definition MEMORY_END :: usize where "MEMORY_END = 0x88000000"
definition PADDR_HIGH :: usize where "PADDR_HIGH = 0x88000000"
definition PADDR_LOW :: usize where "PADDR_LOW = 0x80200000"
definition VADDR_HIGH :: usize where "VADDR_HIGH = 0x88000000 + PHY_TO_VIRT_OFFSET"
definition VADDR_LOW :: usize where "VADDR_LOW = 0x80200000 + PHY_TO_VIRT_OFFSET"
definition LOW_LIMIT :: usize where "LOW_LIMIT = 0"
definition USER_UPPER_LIMIT :: usize where "USER_UPPER_LIMIT = 0xffffffff"
definition USER_STACK_SIZE :: usize where "USER_STACK_SIZE = 0x800000"
definition USER_STACK_TOP :: usize where "USER_STACK_TOP = 0xfffff000"
definition VIRTIO0 :: usize where "VIRTIO0 = 0x10001000 + PHY_TO_VIRT_OFFSET"
definition KERNEL_PTE_POS :: nat where "KERNEL_PTE_POS = 510"
definition KERNEL_MMIO_PTE_POS :: nat where "KERNEL_MMIO_PTE_POS = 508"
definition MMAP_TOP :: usize where "MMAP_TOP = 0xff5ff000"
definition MMAP_BOTTOM :: usize where "MMAP_BOTTOM = 0xfe5ff000"
definition DL_INTERP_OFFSET :: usize where "DL_INTERP_OFFSET = 0x80000000"

lemmas mm_consts =
  PHY_TO_VIRT_OFFSET_def PAGE_SIZE_BITS_def PAGE_SIZE_def SV39_VPN_1_def SV39_VPN_2_def
  SV39_VPN_3_def MEMORY_END_def PADDR_HIGH_def PADDR_LOW_def VADDR_HIGH_def VADDR_LOW_def
  LOW_LIMIT_def USER_UPPER_LIMIT_def VIRTIO0_def

section \<open>Conversions\<close>

definition vaddr_is_align :: "usize \<Rightarrow> bool" where
  "vaddr_is_align vaddr \<longleftrightarrow> vaddr AND (PAGE_SIZE - 1) = 0"

definition kernel_va :: "usize \<Rightarrow> bool" where
  "kernel_va vaddr \<longleftrightarrow>
     (VADDR_LOW \<le> vaddr \<and> vaddr \<le> VADDR_HIGH) \<or> (VIRTIO0 \<le> vaddr \<and> vaddr \<le> VIRTIO0 + 0x4000)"

definition check_kernel_va :: "usize \<Rightarrow> unit option" where
  "check_kernel_va vaddr = rassert (kernel_va vaddr)"

definition user_va :: "usize \<Rightarrow> bool" where
  "user_va vaddr \<longleftrightarrow>
     (VADDR_LOW \<le> vaddr \<and> vaddr \<le> VADDR_HIGH) \<or> (VIRTIO0 \<le> vaddr \<and> vaddr \<le> VIRTIO0 + 0x4000) \<or>
     (LOW_LIMIT \<le> vaddr \<and> vaddr \<le> USER_UPPER_LIMIT)"

definition check_user_va :: "usize \<Rightarrow> unit option" where
  "check_user_va vaddr = rassert (user_va vaddr)"

definition phys_ok :: "usize \<Rightarrow> bool" where
  "phys_ok paddr \<longleftrightarrow> PADDR_LOW \<le> paddr \<and> paddr \<le> PADDR_HIGH"

definition phys_to_virt :: "usize \<Rightarrow> usize option" where
  "phys_to_virt paddr = do { rassert (phys_ok paddr); Some (paddr OR PHY_TO_VIRT_OFFSET) }"

definition phys_to_ppn :: "usize \<Rightarrow> usize option" where
  "phys_to_ppn paddr = do { rassert (phys_ok paddr); Some (drop_bit PAGE_SIZE_BITS paddr) }"

definition phys_to_ppn_next :: "usize \<Rightarrow> usize option" where
  "phys_to_ppn_next paddr = do { rassert (phys_ok paddr); Some (drop_bit PAGE_SIZE_BITS paddr + 1) }"

definition virt_to_phys :: "usize \<Rightarrow> usize option" where
  "virt_to_phys vaddr = do { check_kernel_va vaddr; Some (vaddr - PHY_TO_VIRT_OFFSET) }"

definition virt_to_vpn :: "usize \<Rightarrow> usize option" where
  "virt_to_vpn vaddr = do { check_user_va vaddr; Some (drop_bit PAGE_SIZE_BITS vaddr) }"

definition virt_to_next_vpn :: "usize \<Rightarrow> usize option" where
  "virt_to_next_vpn vaddr = do { check_user_va vaddr; Some (drop_bit PAGE_SIZE_BITS vaddr + 1) }"

definition align_down :: "usize \<Rightarrow> usize option" where
  "align_down vaddr = do { check_user_va vaddr; Some (vaddr AND NOT (PAGE_SIZE - 1)) }"

definition align_up :: "usize \<Rightarrow> usize option" where
  "align_up vaddr = do { check_user_va vaddr; Some ((vaddr + PAGE_SIZE - 1) AND NOT (PAGE_SIZE - 1)) }"

definition vpn_to_virt :: "usize \<Rightarrow> usize option" where
  "vpn_to_virt vpn = do { check_user_va (push_bit PAGE_SIZE_BITS vpn); Some (push_bit PAGE_SIZE_BITS vpn) }"

definition ppn_to_phys :: "usize \<Rightarrow> usize" where
  "ppn_to_phys ppn = push_bit PAGE_SIZE_BITS ppn"

definition vaddr_offset :: "usize \<Rightarrow> usize option" where
  "vaddr_offset vaddr = do { check_user_va vaddr; Some (vaddr AND (PAGE_SIZE - 1)) }"

definition vaddr_to_pte_vpn :: "usize \<Rightarrow> (usize \<times> usize \<times> usize) option" where
  "vaddr_to_pte_vpn vaddr =
     do { check_user_va vaddr;
          Some (drop_bit SV39_VPN_3 vaddr AND 0x1ff, drop_bit SV39_VPN_2 vaddr AND 0x1ff,
                drop_bit SV39_VPN_1 vaddr AND 0x1ff) }"

section \<open>Arithmetic of the conversions\<close>

lemma and_low_12: "v AND 0xfff = (take_bit 12 v :: usize)"
  by (simp add: take_bit_eq_mask mask_eq_exp_minus_1)

lemma and_not_low_12: "v AND - 0x1000 = (push_bit 12 (drop_bit 12 v) :: usize)"
proof -
  have "(- 0x1000 :: usize) = NOT (mask 12)" by (simp add: mask_eq_exp_minus_1)
  then have "v AND - 0x1000 = v AND NOT (mask 12)" by (simp only:)
  also have "\<dots> = push_bit 12 (drop_bit 12 v)" by (rule bit_word_eqI) (auto simp: bit_simps)
  finally show ?thesis .
qed

lemma and_low_9: "v AND 0x1ff = (take_bit 9 v :: usize)"
  by (simp add: take_bit_eq_mask mask_eq_exp_minus_1)

lemma unat_take_12: "unat (take_bit 12 v :: usize) = unat v mod 4096"
  unfolding unsigned_take_bit_eq by (simp add: take_bit_eq_mod)

lemma unat_drop_12: "unat (drop_bit 12 v :: usize) = unat v div 4096"
  unfolding unsigned_drop_bit_eq by (simp add: drop_bit_eq_div)

lemma unat_push_drop_12: "unat (push_bit 12 (drop_bit 12 v) :: usize) = unat v div 4096 * 4096"
proof -
  have "unat v div 4096 * 4096 \<le> unat v" by simp
  also have "\<dots> < 2 ^ 64" by (rule unat_u64)
  finally have "unat v div 4096 * 4096 < 2 ^ 64" .
  moreover have "unat (push_bit 12 (drop_bit 12 v)) = unat v div 4096 * 4096 mod 2 ^ 64"
    unfolding unsigned_push_bit_eq unat_drop_12 by (simp add: take_bit_eq_mod push_bit_eq_mult)
  ultimately show ?thesis by (simp only: mod_less)
qed

lemma unat_push_12:
  assumes "unat p < 2 ^ 52" shows "unat (push_bit 12 p :: usize) = unat p * 4096"
  unfolding unsigned_push_bit_eq using assms by (simp add: take_bit_eq_mod push_bit_eq_mult)

lemma user_va_low: "user_va v \<longleftrightarrow> kernel_va v \<or> unat v < 2 ^ 32"
proof -
  have "v \<le> 0xffffffff \<longleftrightarrow> unat v < 2 ^ 32" by (auto simp: word_le_nat_alt)
  then show ?thesis by (auto simp: user_va_def kernel_va_def mm_consts)
qed

text \<open>The linear map of the kernel.\<close>

lemma phys_ok_unat: "phys_ok p \<longleftrightarrow> 0x80200000 \<le> unat p \<and> unat p \<le> 0x88000000"
  by (simp add: phys_ok_def mm_consts word_le_nat_alt)

lemma unat_less_bit:
  assumes "unat (p :: usize) < 2 ^ m" and "m \<le> n" shows "\<not> bit p n"
proof -
  have "unat (take_bit m p) = unat p"
    unfolding unsigned_take_bit_eq using assms(1) by (simp add: take_bit_eq_mod)
  then have "take_bit m p = p" by (simp only: word_unat_eq_iff)
  then show ?thesis using assms(2) by (metis bit_take_bit_iff not_less)
qed

lemma bit_offset: "bit PHY_TO_VIRT_OFFSET n \<longleftrightarrow> 32 \<le> n \<and> n < 64"
proof -
  have "PHY_TO_VIRT_OFFSET = push_bit 32 (mask 32)"
    by (simp add: mm_consts mask_eq_exp_minus_1 push_bit_eq_mult)
  then have "bit PHY_TO_VIRT_OFFSET n \<longleftrightarrow> bit (push_bit 32 (mask 32) :: usize) n" by (simp only:)
  then show ?thesis by (auto simp: bit_simps)
qed

lemma or_offset_eq_add:
  assumes "unat (p :: usize) < 2 ^ 32"
  shows "p OR PHY_TO_VIRT_OFFSET = p + PHY_TO_VIRT_OFFSET"
proof -
  have "p AND PHY_TO_VIRT_OFFSET = 0"
    by (intro bit_word_eqI) (auto simp: bit_simps bit_offset dest: unat_less_bit [OF assms])
  then show ?thesis using word_plus_and_or [of p PHY_TO_VIRT_OFFSET] by simp
qed

lemma phys_to_virt_eq: "phys_to_virt p = (if phys_ok p then Some (p + PHY_TO_VIRT_OFFSET) else None)"
  by (auto simp: phys_to_virt_def phys_ok_unat intro!: or_offset_eq_add)

lemma vaddr_window_iff:
  "VADDR_LOW \<le> v \<and> v \<le> VADDR_HIGH \<longleftrightarrow> phys_ok (v - PHY_TO_VIRT_OFFSET)"
proof -
  obtain p where v: "v = p + PHY_TO_VIRT_OFFSET" by (metis diff_add_cancel)
  show ?thesis unfolding v by (simp add: phys_ok_def mm_consts word_le_nat_alt) (unat_arith; simp)
qed

lemma kernel_va_offset:
  assumes "kernel_va v" obtains p where "v = p OR PHY_TO_VIRT_OFFSET" "unat p < 2 ^ 32"
proof -
  define p where "p = v - PHY_TO_VIRT_OFFSET"
  then have v: "v = p + PHY_TO_VIRT_OFFSET" by simp
  have "unat p < 2 ^ 32" using assms unfolding v kernel_va_def mm_consts by unat_arith
  then show ?thesis using that or_offset_eq_add v by metis
qed

text \<open>Every address that passes the range check is a canonical Sv39 address.\<close>

lemma user_va_canonical:
  assumes "user_va v" "38 \<le> n" "n < 64" shows "bit v n = bit v 38"
proof -
  consider "unat v < 2 ^ 32" | "kernel_va v" using assms(1) user_va_low by blast
  then show ?thesis
  proof cases
    case 1
    then show ?thesis using unat_less_bit [OF 1] assms(2) by simp
  next
    case 2
    obtain p where "v = p OR PHY_TO_VIRT_OFFSET" using kernel_va_offset [OF 2] .
    then show ?thesis using assms(2,3) by (simp add: bit_simps bit_offset)
  qed
qed

lemma user_va_bound: "user_va v \<Longrightarrow> unat v \<le> 0xffffffff88000000"
  unfolding user_va_def mm_consts by (auto simp: word_le_nat_alt)

lemma user_va_page:
  assumes "user_va v" shows "user_va (push_bit 12 (drop_bit 12 v))"
proof -
  let ?d = "unat v div 4096 * 4096"
  have *: "c \<le> unat v \<longleftrightarrow> c \<le> ?d" if "c mod 4096 = 0" for c
  proof -
    from that obtain q where "c = q * 4096" by (metis dvd_def mod_eq_0_iff_dvd mult.commute)
    then show ?thesis by (simp add: less_eq_div_iff_mult_less_eq)
  qed
  have "?d \<le> unat v" by simp
  then show ?thesis
    using assms * [of "0xffffffff80200000"] * [of "0xffffffff10001000"]
    unfolding user_va_def mm_consts by (auto simp: word_le_nat_alt unat_push_drop_12)
qed

lemma align_down_eq: "user_va v \<Longrightarrow> align_down v = Some (push_bit 12 (drop_bit 12 v))"
  by (simp add: align_down_def check_user_va_def PAGE_SIZE_def and_not_low_12)

lemma align_up_eq: "user_va v \<Longrightarrow> align_up v = Some (push_bit 12 (drop_bit 12 (v + 0xfff)))"
  by (simp add: align_up_def check_user_va_def PAGE_SIZE_def and_not_low_12 add.commute)

lemma unat_add_page: "user_va v \<Longrightarrow> unat (v + 0xfff) = unat v + 4095"
  using user_va_bound [of v] by (simp add: unat_word_ariths)

lemma pte_vpn_eq:
  "user_va v \<Longrightarrow> vaddr_to_pte_vpn v =
     Some (take_bit 9 (drop_bit 30 v), take_bit 9 (drop_bit 21 v), take_bit 9 (drop_bit 12 v))"
  by (simp only: vaddr_to_pte_vpn_def check_user_va_def rassert_simps bind.bind_lunit
      SV39_VPN_1_def SV39_VPN_2_def SV39_VPN_3_def and_low_9)

lemma page_bracket:
  fixes n :: nat
  shows "n div 4096 * 4096 \<le> n" "n \<le> (n + 4095) div 4096 * 4096" "n - n div 4096 * 4096 < 4096"
    "(n + 4095) div 4096 * 4096 - n < 4096"
    "n mod 4096 = 0 \<longleftrightarrow> n div 4096 * 4096 = n \<and> (n + 4095) div 4096 * 4096 = n"
proof -
  have d: "n div 4096 * 4096 + n mod 4096 = n" and u: "(n + 4095) div 4096 * 4096 + (n + 4095) mod 4096 = n + 4095"
    by (rule div_mult_mod_eq)+
  have m: "n mod 4096 < 4096" "(n + 4095) mod 4096 < 4096" by simp_all
  show "n div 4096 * 4096 \<le> n" by simp
  show up: "n \<le> (n + 4095) div 4096 * 4096" using u m by linarith
  show "n - n div 4096 * 4096 < 4096" using d m by linarith
  show "(n + 4095) div 4096 * 4096 - n < 4096" using u m by linarith
  have "(n + 4095) div 4096 * 4096 = n" if "n mod 4096 = 0"
  proof -
    from that obtain q where "n = q * 4096" by (metis dvd_def mod_eq_0_iff_dvd mult.commute)
    then show ?thesis by simp
  qed
  then show "n mod 4096 = 0 \<longleftrightarrow> n div 4096 * 4096 = n \<and> (n + 4095) div 4096 * 4096 = n"
    using d by (metis add_left_cancel add_0_right)
qed

lemma indices_page_iff:
  assumes "user_va v" "user_va w"
  shows "take_bit 9 (drop_bit 30 v) = take_bit 9 (drop_bit 30 w) \<and>
    take_bit 9 (drop_bit 21 v) = take_bit 9 (drop_bit 21 w) \<and>
    take_bit 9 (drop_bit 12 v) = take_bit 9 (drop_bit 12 w) \<longleftrightarrow> drop_bit 12 v = drop_bit 12 w"
    (is "?l \<longleftrightarrow> ?r")
proof
  assume l: ?l
  have low: "bit v (k + i) = bit w (k + i)"
    if "i < 9" "take_bit 9 (drop_bit k v) = take_bit 9 (drop_bit k w)" for k i
  proof -
    have "bit (take_bit 9 (drop_bit k v)) i = bit (take_bit 9 (drop_bit k w)) i"
      using that(2) by (simp only:)
    then show ?thesis using that(1) by (simp only: bit_take_bit_iff bit_drop_bit_eq o_apply simp_thms)
  qed
  have below: "bit v n = bit w n" if n: "12 \<le> n" "n < 39" for n
  proof -
    consider "n - 12 < 9" | "21 \<le> n" "n - 21 < 9" | "30 \<le> n" "n - 30 < 9" using n by arith
    then show ?thesis
      by cases (use low [of "n - 12" 12] low [of "n - 21" 21] low [of "n - 30" 30] l n(1) in auto)
  qed
  have all: "bit v n = bit w n" if "12 \<le> n" for n
  proof -
    consider "n < 39" | "39 \<le> n" "n < 64" | "64 \<le> n" by linarith
    then show ?thesis
    proof cases
      case 1
      with that show ?thesis by (rule below)
    next
      case 2
      then show ?thesis
        using user_va_canonical [OF assms(1), of n] user_va_canonical [OF assms(2), of n] below [of 38] by simp
    next
      case 3
      then show ?thesis using bit_imp_le_length [of v n] bit_imp_le_length [of w n] by auto
    qed
  qed
  show ?r by (rule bit_word_eqI) (simp only: bit_drop_bit_eq o_apply all le_add1)
next
  assume r: ?r
  have "drop_bit (k + 12) v = drop_bit (k + 12) w" for k
    using arg_cong [OF r, of "drop_bit k"] by (simp only: drop_bit_drop_bit)
  from this [of 18] this [of 9] r show ?l by (simp only: numeral_plus_numeral add_num_simps simp_thms)
qed

section \<open>Properties\<close>

text \<open>the kernel's linear map is a bijection between the physical range and its window.\<close>

theorem linear_map_bijection:
  "phys_to_virt p = Some v \<longleftrightarrow> VADDR_LOW \<le> v \<and> v \<le> VADDR_HIGH \<and> virt_to_phys v = Some p"
proof -
  have "kernel_va v" if "VADDR_LOW \<le> v" "v \<le> VADDR_HIGH" using that by (simp add: kernel_va_def)
  then show ?thesis
    using vaddr_window_iff [of v]
    by (auto simp: phys_to_virt_eq virt_to_phys_def check_kernel_va_def rassert_def
        split: if_splits) 
qed

text \<open>
  C40: rounding an address down and up gives the page boundaries around it, without
  wrapping, and both are the address itself exactly when it is aligned.
\<close>

theorem align_brackets:
  assumes "user_va v"
  shows "\<exists>d u. align_down v = Some d \<and> align_up v = Some u \<and>
    vaddr_is_align d \<and> vaddr_is_align u \<and> d \<le> v \<and> v \<le> u \<and>
    unat v - unat d < 4096 \<and> unat u - unat v < 4096 \<and> (vaddr_is_align v \<longleftrightarrow> d = v \<and> u = v)"
proof -
  let ?d = "push_bit 12 (drop_bit 12 v)" and ?u = "push_bit 12 (drop_bit 12 (v + 0xfff))"
  have al: "vaddr_is_align w \<longleftrightarrow> unat w mod 4096 = 0" for w
    using unat_take_12 [of w] by (simp add: vaddr_is_align_def PAGE_SIZE_def and_low_12 word_unat_eq_iff)
  note un = unat_push_drop_12 unat_add_page [OF assms]
  have "unat ?d \<le> unat v" "unat v \<le> unat ?u" "unat v - unat ?d < 4096" "unat ?u - unat v < 4096"
    "unat v mod 4096 = 0 \<longleftrightarrow> unat ?d = unat v \<and> unat ?u = unat v"
    unfolding un by (rule page_bracket)+
  moreover have "vaddr_is_align ?d" "vaddr_is_align ?u" by (simp_all add: al un)
  ultimately show ?thesis
    using assms by (intro exI [of _ ?d] exI [of _ ?u]) (simp add: align_down_eq align_up_eq al word_le_nat_alt word_unat_eq_iff)
qed

theorem align_brackets_witness:
  "user_va 0x12345 \<and> (\<exists>d u. align_down 0x12345 = Some d \<and> align_up 0x12345 = Some u \<and>
    vaddr_is_align d \<and> vaddr_is_align u \<and> d \<le> 0x12345 \<and> 0x12345 \<le> u \<and>
    unat (0x12345 :: usize) - unat d < 4096 \<and> unat u - unat (0x12345 :: usize) < 4096 \<and>
    (vaddr_is_align 0x12345 \<longleftrightarrow> d = 0x12345 \<and> u = 0x12345))"
proof -
  have "user_va 0x12345" by (simp add: user_va_def mm_consts)
  then show ?thesis using align_brackets [of "0x12345"] by blast
qed

text \<open>
  an address is its page's base plus its offset, and the base is the address rounded down.
\<close>

theorem page_offset_split:
  assumes "user_va v"
  shows "\<exists>n b off. virt_to_vpn v = Some n \<and> vpn_to_virt n = Some b \<and> vaddr_offset v = Some off \<and>
    align_down v = Some b \<and> b + off = v \<and> b OR off = v \<and> off < PAGE_SIZE"
proof -
  let ?b = "push_bit 12 (drop_bit 12 v)"
  have "?b OR take_bit 12 v = v" by (rule bit_word_eqI) (auto simp: bit_simps)
  moreover have "?b AND take_bit 12 v = 0" by (rule bit_word_eqI) (auto simp: bit_simps)
  then have "?b + take_bit 12 v = ?b OR take_bit 12 v"
    using word_plus_and_or [of ?b "take_bit 12 v"] by simp
  moreover have "take_bit 12 v < PAGE_SIZE" by (simp add: word_less_nat_alt unat_take_12 mm_consts)
  ultimately show ?thesis using assms user_va_page [OF assms] align_down_eq [OF assms]
    by (simp add: virt_to_vpn_def vpn_to_virt_def vaddr_offset_def check_user_va_def PAGE_SIZE_BITS_def
        PAGE_SIZE_def and_low_12)
qed

theorem page_offset_split_witness:
  "user_va 0x12345 \<and> (\<exists>n b off. virt_to_vpn 0x12345 = Some n \<and> vpn_to_virt n = Some b \<and>
    vaddr_offset 0x12345 = Some off \<and> align_down 0x12345 = Some b \<and> b + off = 0x12345 \<and>
    b OR off = 0x12345 \<and> off < PAGE_SIZE)"
proof -
  have "user_va 0x12345" by (simp add: user_va_def mm_consts)
  then show ?thesis using page_offset_split [of "0x12345"] by blast
qed

text \<open>
  the three page-table indices of an address determine its page, for all addresses that
  pass the range check, kernel and user together.
\<close>

theorem pte_indices_determine_page:
  assumes "user_va v" "user_va w"
  shows "vaddr_to_pte_vpn v = vaddr_to_pte_vpn w \<longleftrightarrow> virt_to_vpn v = virt_to_vpn w"
proof -
  have "vaddr_to_pte_vpn v = vaddr_to_pte_vpn w \<longleftrightarrow> drop_bit 12 v = drop_bit 12 w"
    by (simp only: pte_vpn_eq assms option.inject prod.inject indices_page_iff [OF assms])
  then show ?thesis
    using assms by (simp add: virt_to_vpn_def check_user_va_def PAGE_SIZE_BITS_def)
qed

theorem pte_indices_determine_page_witness:
  "user_va 0x12345 \<and> user_va 0xffffffff80201000 \<and>
   (vaddr_to_pte_vpn 0x12345 = vaddr_to_pte_vpn 0xffffffff80201000 \<longleftrightarrow>
    virt_to_vpn 0x12345 = virt_to_vpn 0xffffffff80201000)"
proof -
  have "user_va 0x12345" "user_va 0xffffffff80201000" by (simp_all add: user_va_def mm_consts)
  then show ?thesis using pte_indices_determine_page by blast
qed

end
