(* ===== verification/Bitmap_Alloc.thy ===== *)
theory Bitmap_Alloc
  imports Duck_Prelude
begin

text \<open>
  The bitmap allocator (\<^verbatim>\<open>dependency/bitmap-allocator-main/src/lib.rs\<close>) behind the frame
  allocator (level 5, 16M bits), the pid allocator (level 2, 4K bits) and the file
  descriptor allocator (level 1, 256 bits): a 16-ary segment tree over 16-bit leaves.
  A set bit is available. \<^verbatim>\<open>BitAllocCascade16<T>\<close> is the node; the type parameter \<^verbatim>\<open>T\<close>,
  which fixes \<^verbatim>\<open>T::CAP\<close>, is the level argument of the functions.

  The lemmas show that a tree refines the set of its available bits: \<open>alloc\<close> takes the
  least one, \<open>dealloc\<close>, \<open>insert\<close> and \<open>remove\<close> are the set operations,
  \<open>alloc_contiguous\<close> returns a run of available bits exactly when there is an aligned one,
  and none of them panics inside its precondition. The locale \<open>bit_allocator\<close> is the
  contract the three clients use.
\<close>

section \<open>Bit fields of 16-bit words\<close>

text \<open>The operations of the \<^verbatim>\<open>bit_field\<close> crate on \<^verbatim>\<open>u16\<close>, with their assertions.\<close>

definition trailing_zeros :: "u16 \<Rightarrow> nat" where
  "trailing_zeros b = (case List.find (bit b) [0..<16] of Some i \<Rightarrow> i | None \<Rightarrow> 16)"

definition bf_get_bit :: "u16 \<Rightarrow> nat \<Rightarrow> bool option" where
  "bf_get_bit b i = do { rassert (i < 16); Some (b AND push_bit i 1 \<noteq> 0) }"

definition bf_set_bit :: "nat \<Rightarrow> bool \<Rightarrow> u16 \<Rightarrow> u16 option" where
  "bf_set_bit i v b =
     do { rassert (i < 16);
          Some (if v then b OR push_bit i 1 else b AND NOT (push_bit i 1)) }"

definition bf_get_bits :: "nat \<Rightarrow> nat \<Rightarrow> u16 \<Rightarrow> u16 option" where
  "bf_get_bits s e b =
     do { rassert (s < 16); rassert (e \<le> 16); rassert (s < e);
          Some (drop_bit s (drop_bit (16 - e) (push_bit (16 - e) b))) }"

definition bf_set_bits :: "nat \<Rightarrow> nat \<Rightarrow> u16 \<Rightarrow> u16 \<Rightarrow> u16 option" where
  "bf_set_bits s e v b =
     do { rassert (s < 16); rassert (e \<le> 16); rassert (s < e);
          rassert (drop_bit (16 - (e - s)) (push_bit (16 - (e - s)) v) = v);
          let bitmask = NOT (push_bit s (drop_bit s (drop_bit (16 - e) (push_bit (16 - e) (NOT 0)))));
          Some ((b AND bitmask) OR push_bit s v) }"

section \<open>The segment tree\<close>

datatype bitalloc =
    BitAlloc16 u16
  | BitAllocCascade16 (bitset: u16) (sub: "bitalloc list")

primrec ba_cap :: "nat \<Rightarrow> nat" where
  "ba_cap 0 = 16"
| "ba_cap (Suc d) = ba_cap d * 16"

primrec ba_default :: "nat \<Rightarrow> bitalloc" where
  "ba_default 0 = BitAlloc16 0"
| "ba_default (Suc d) = BitAllocCascade16 0 (replicate 16 (ba_default d))"

fun ba_is_empty :: "bitalloc \<Rightarrow> bool" where
  "ba_is_empty (BitAlloc16 b) = (b = 0)"
| "ba_is_empty (BitAllocCascade16 b _) = (b = 0)"

text \<open>A leaf at a node's level (or the converse) is ruled out by the types in the code.\<close>

fun ba_alloc :: "nat \<Rightarrow> bitalloc \<Rightarrow> (bitalloc \<times> nat option) option" where
  "ba_alloc 0 (BitAlloc16 b) =
     (let i = trailing_zeros b in
      if i < ba_cap 0 then do { b' \<leftarrow> bf_set_bit i False b; Some (BitAlloc16 b', Some i) }
      else Some (BitAlloc16 b, None))"
| "ba_alloc (Suc d) (BitAllocCascade16 b ts) =
     (if b \<noteq> 0 then
        (let i = trailing_zeros b in
         do { t \<leftarrow> nth_opt ts i;
              (t', r) \<leftarrow> ba_alloc d t;
              k \<leftarrow> r;
              b' \<leftarrow> bf_set_bit i (\<not> ba_is_empty t') b;
              Some (BitAllocCascade16 b' (ts[i := t']), Some (k + i * ba_cap d)) })
      else Some (BitAllocCascade16 b ts, None))"
| "ba_alloc _ _ = None"

fun ba_test :: "nat \<Rightarrow> bitalloc \<Rightarrow> nat \<Rightarrow> bool option" where
  "ba_test 0 (BitAlloc16 b) k = bf_get_bit b k"
| "ba_test (Suc d) (BitAllocCascade16 b ts) k =
     do { t \<leftarrow> nth_opt ts (k div ba_cap d); ba_test d t (k mod ba_cap d) }"
| "ba_test _ _ _ = None"

fun ba_dealloc :: "nat \<Rightarrow> bitalloc \<Rightarrow> nat \<Rightarrow> bitalloc option" where
  "ba_dealloc 0 (BitAlloc16 b) k =
     do { r \<leftarrow> ba_test 0 (BitAlloc16 b) k; rassert (\<not> r);
          b' \<leftarrow> bf_set_bit k True b; Some (BitAlloc16 b') }"
| "ba_dealloc (Suc d) (BitAllocCascade16 b ts) k =
     (let i = k div ba_cap d in
      do { t \<leftarrow> nth_opt ts i;
           t' \<leftarrow> ba_dealloc d t (k mod ba_cap d);
           b' \<leftarrow> bf_set_bit i True b;
           Some (BitAllocCascade16 b' (ts[i := t'])) })"
| "ba_dealloc _ _ _ = None"

text \<open>
  \<^verbatim>\<open>for_range\<close>: with \<open>e = 0\<close> the bound \<^verbatim>\<open>(end - 1) / T::CAP\<close> wraps and the loop indexes
  past \<^verbatim>\<open>sub[15]\<close>, a panic.
\<close>

definition for_range ::
  "nat \<Rightarrow> (bitalloc \<Rightarrow> nat \<Rightarrow> nat \<Rightarrow> bitalloc option) \<Rightarrow> bitalloc \<Rightarrow> nat \<Rightarrow> nat \<Rightarrow> bitalloc option" where
  "for_range c f t s e =
     do { rassert (s \<le> e); rassert (e \<le> c * 16); rassert (e \<noteq> 0);
          (b, ts) \<leftarrow> (case t of BitAllocCascade16 b ts \<Rightarrow> Some (b, ts) | _ \<Rightarrow> None);
          (b', ts') \<leftarrow> foldM (\<lambda>i (b, ts).
              do { let begin = (if s div c = i then s mod c else 0);
                   let end = (if e div c = i then e mod c else c);
                   t \<leftarrow> nth_opt ts i;
                   t' \<leftarrow> f t begin end;
                   b' \<leftarrow> bf_set_bit i (\<not> ba_is_empty t') b;
                   Some (b', ts[i := t']) })
            [s div c..<Suc ((e - 1) div c)] (b, ts);
          Some (BitAllocCascade16 b' ts') }"

definition leaf_insert :: "bitalloc \<Rightarrow> nat \<Rightarrow> nat \<Rightarrow> bitalloc option" where
  "leaf_insert t s e = (case t of
     BitAlloc16 b \<Rightarrow> do { v \<leftarrow> bf_get_bits s e 0xffff; b' \<leftarrow> bf_set_bits s e v b; Some (BitAlloc16 b') }
   | _ \<Rightarrow> None)"

definition leaf_remove :: "bitalloc \<Rightarrow> nat \<Rightarrow> nat \<Rightarrow> bitalloc option" where
  "leaf_remove t s e = (case t of
     BitAlloc16 b \<Rightarrow> do { b' \<leftarrow> bf_set_bits s e 0 b; Some (BitAlloc16 b') }
   | _ \<Rightarrow> None)"

primrec ba_insert :: "nat \<Rightarrow> bitalloc \<Rightarrow> nat \<Rightarrow> nat \<Rightarrow> bitalloc option" where
  "ba_insert 0 = leaf_insert"
| "ba_insert (Suc d) = for_range (ba_cap d) (ba_insert d)"

primrec ba_remove :: "nat \<Rightarrow> bitalloc \<Rightarrow> nat \<Rightarrow> nat \<Rightarrow> bitalloc option" where
  "ba_remove 0 = leaf_remove"
| "ba_remove (Suc d) = for_range (ba_cap d) (ba_remove d)"

text \<open>The first available bit at or after \<open>k\<close>. The node's bits select the children to search.\<close>

fun find_map :: "('a \<Rightarrow> 'b option) \<Rightarrow> 'a list \<Rightarrow> 'b option" where
  "find_map f [] = None"
| "find_map f (x # xs) = (case f x of Some y \<Rightarrow> Some y | None \<Rightarrow> find_map f xs)"

fun ba_next :: "nat \<Rightarrow> bitalloc \<Rightarrow> nat \<Rightarrow> nat option" where
  "ba_next 0 (BitAlloc16 b) k = List.find (bit b) [k..<16]"
| "ba_next (Suc d) (BitAllocCascade16 b ts) k =
     (let idx = k div ba_cap d in
      find_map (\<lambda>i. if bit b i
                    then map_option (\<lambda>x. x + ba_cap d * i)
                           (ba_next d (ts ! i) (if i = idx then k - ba_cap d * idx else 0))
                    else None) [idx..<16])"
| "ba_next _ _ _ = None"

text \<open>
  The search loop of \<^verbatim>\<open>find_contiguous\<close> on the state \<open>(base, offset)\<close>. Its two assertions
  cannot fail when \<open>ba_next\<close> returns an index at or after its argument, and the outer option is
  their panic.
\<close>

function find_contiguous_loop ::
  "(nat \<Rightarrow> nat option) \<Rightarrow> nat \<Rightarrow> nat \<Rightarrow> nat \<Rightarrow> nat \<Rightarrow> nat \<Rightarrow> nat option option" where
  "find_contiguous_loop nxt capacity sz a base offset =
     (if offset < capacity then
        (case nxt offset of
           None \<Rightarrow> Some None
         | Some n \<Rightarrow>
             if n \<noteq> offset then
               (if offset < n then
                  (let base' = push_bit a (drop_bit a (n - 1) + 1)
                   in find_contiguous_loop nxt capacity sz a base' base')
                else None)
             else if Suc offset - base = sz then Some (Some base)
             else find_contiguous_loop nxt capacity sz a base (Suc offset))
      else Some None)"
  by pat_completeness auto
termination
proof (relation "measure (\<lambda>(nxt, capacity, sz, a, base, offset). capacity - offset)", goal_cases)
  case 1
  then show ?case by simp
next
  case (2 nxt capacity sz a base offset n base')
  have "n - 1 < 2 ^ a * ((n - 1) div 2 ^ a + 1)"
    using dividend_less_times_div [of "2 ^ a" "n - 1"] by simp
  with 2 show ?case by (simp add: push_bit_eq_mult drop_bit_eq_div mult.commute)
next
  case 3
  then show ?case by simp
qed

declare find_contiguous_loop.simps [simp del]

definition find_contiguous :: "nat \<Rightarrow> bitalloc \<Rightarrow> nat \<Rightarrow> nat \<Rightarrow> nat \<Rightarrow> nat option option" where
  "find_contiguous d t capacity sz align_log2 =
     (if capacity < push_bit align_log2 1 \<or> ba_is_empty t then Some None
      else find_contiguous_loop (ba_next d t) capacity sz align_log2 0 0)"

definition ba_alloc_contiguous ::
  "nat \<Rightarrow> bitalloc \<Rightarrow> nat \<Rightarrow> nat \<Rightarrow> (bitalloc \<times> nat option) option" where
  "ba_alloc_contiguous d t sz align_log2 =
     do { r \<leftarrow> find_contiguous d t (ba_cap d) sz align_log2;
          case r of
            Some base \<Rightarrow> do { t' \<leftarrow> ba_remove d t base (base + sz); Some (t', Some base) }
          | None \<Rightarrow> Some (t, None) }"

section \<open>Abstraction and well-formedness\<close>

text \<open>The set of available bits, and the invariant that a node's bit says whether a child has any.\<close>

fun avail :: "nat \<Rightarrow> bitalloc \<Rightarrow> nat set" where
  "avail 0 (BitAlloc16 b) = {i. i < 16 \<and> bit b i}"
| "avail (Suc d) (BitAllocCascade16 b ts) =
     {k. k < ba_cap (Suc d) \<and> k mod ba_cap d \<in> avail d (ts ! (k div ba_cap d))}"
| "avail _ _ = {}"

fun ba_wf :: "nat \<Rightarrow> bitalloc \<Rightarrow> bool" where
  "ba_wf 0 (BitAlloc16 b) = True"
| "ba_wf (Suc d) (BitAllocCascade16 b ts) =
     (length ts = 16 \<and> (\<forall>i<16. ba_wf d (ts ! i) \<and> (bit b i \<longleftrightarrow> \<not> ba_is_empty (ts ! i))))"
| "ba_wf _ _ = False"

lemma ba_cap_pos [simp]: "0 < ba_cap d"
  by (induction d) simp_all

lemma ba_cap_eq: "ba_cap d = 16 ^ Suc d"
  by (induction d) simp_all

lemma ba_wf_0E:
  assumes "ba_wf 0 t" obtains b where "t = BitAlloc16 b"
  using assms by (cases t) auto

lemma avail_bound: "avail d t \<subseteq> {..<ba_cap d}"
  by (cases "(d, t)" rule: avail.cases) auto

lemma finite_avail [simp]: "finite (avail d t)"
  using avail_bound finite_subset by blast

lemma u16_eq_0_iff: "b = (0 :: u16) \<longleftrightarrow> (\<forall>i<16. \<not> bit b i)"
  by (auto intro!: bit_word_eqI)

lemma cap_index:
  assumes "i < 16" and "x < ba_cap d"
  shows "x + i * ba_cap d < ba_cap (Suc d)" "(x + i * ba_cap d) mod ba_cap d = x"
    "(x + i * ba_cap d) div ba_cap d = i"
proof -
  have "x + i * ba_cap d < Suc i * ba_cap d" using assms(2) by simp
  also have "\<dots> \<le> 16 * ba_cap d" using assms(1) by (intro mult_le_mono1) simp
  finally show "x + i * ba_cap d < ba_cap (Suc d)" by (simp add: mult.commute)
qed (use assms(2) in simp_all)

lemma index_eq_iff: "x < ba_cap d \<Longrightarrow> k = x + i * ba_cap d \<longleftrightarrow> k div ba_cap d = i \<and> k mod ba_cap d = x"
  by (auto simp: mod_div_mult_eq)

lemma avail_node_iff:
  "k \<in> avail (Suc d) (BitAllocCascade16 b ts) \<longleftrightarrow>
     k < ba_cap (Suc d) \<and> k mod ba_cap d \<in> avail d (ts ! (k div ba_cap d))"
  by simp

lemma div_cap_less: "k < ba_cap (Suc d) \<Longrightarrow> k div ba_cap d < 16"
  by (simp add: div_less_iff_less_mult mult.commute)

lemma avail_nodeI: "i < 16 \<Longrightarrow> x \<in> avail d (ts ! i) \<Longrightarrow>
    x + i * ba_cap d \<in> avail (Suc d) (BitAllocCascade16 b ts)"
  using avail_bound [of d "ts ! i"] by (auto simp: cap_index simp del: ba_cap.simps)

text \<open>A tree has no available bit exactly when its top word is zero.\<close>

lemma ba_is_empty_iff: "ba_wf d t \<Longrightarrow> ba_is_empty t \<longleftrightarrow> avail d t = {}"
proof (induction d arbitrary: t)
  case 0
  then show ?case by (auto elim!: ba_wf_0E simp: u16_eq_0_iff)
next
  case (Suc d)
  from Suc.prems obtain b ts where t: "t = BitAllocCascade16 b ts" and "length ts = 16"
    and wf: "\<And>i. i < 16 \<Longrightarrow> ba_wf d (ts ! i)"
    and bits: "\<And>i. i < 16 \<Longrightarrow> bit b i \<longleftrightarrow> \<not> ba_is_empty (ts ! i)"
    by (cases t) auto
  have "b = 0 \<longleftrightarrow> (\<forall>i<16. avail d (ts ! i) = {})"
    using wf bits Suc.IH by (simp add: u16_eq_0_iff)
  also have "\<dots> \<longleftrightarrow> avail (Suc d) t = {}"
  proof
    assume "\<forall>i<16. avail d (ts ! i) = {}"
    then show "avail (Suc d) t = {}" using div_cap_less t by fastforce
  next
    assume "avail (Suc d) t = {}"
    then show "\<forall>i<16. avail d (ts ! i) = {}" using avail_nodeI t by blast
  qed
  finally show ?case by (simp add: t)
qed

lemma ba_default_empty: "ba_is_empty (ba_default d)"
  by (cases d) simp_all

lemma ba_default_wf [simp]: "ba_wf d (ba_default d)"
  by (induction d) (simp_all add: ba_default_empty)

lemma ba_default_avail [simp]: "avail d (ba_default d) = {}"
  using ba_is_empty_iff ba_default_empty ba_default_wf by blast

text \<open>Replacing child \<open>i\<close> and setting its bit keeps a node well-formed.\<close>

lemma bf_set_bit_Some:
  "i < 16 \<Longrightarrow> \<exists>b'. bf_set_bit i v b = Some b' \<and> (\<forall>j. bit b' j \<longleftrightarrow> (if j = i then v else bit b j))"
  by (auto simp: bf_set_bit_def bit_simps dest: bit_imp_le_length)

lemma node_update:
  assumes wf: "ba_wf (Suc d) (BitAllocCascade16 b ts)" and "i < 16" and "ba_wf d t'"
    and b': "\<And>j. bit b' j \<longleftrightarrow> (if j = i then \<not> ba_is_empty t' else bit b j)"
  shows "ba_wf (Suc d) (BitAllocCascade16 b' (ts[i := t']))"
    and "avail (Suc d) (BitAllocCascade16 b' (ts[i := t'])) =
      {k. k < ba_cap (Suc d) \<and> (if k div ba_cap d = i then k mod ba_cap d \<in> avail d t'
           else k \<in> avail (Suc d) (BitAllocCascade16 b ts))}"
proof -
  from wf have len: "length ts = 16" by simp
  show "ba_wf (Suc d) (BitAllocCascade16 b' (ts[i := t']))"
    using assms len by (auto simp: nth_list_update)
  show "avail (Suc d) (BitAllocCascade16 b' (ts[i := t'])) =
      {k. k < ba_cap (Suc d) \<and> (if k div ba_cap d = i then k mod ba_cap d \<in> avail d t'
           else k \<in> avail (Suc d) (BitAllocCascade16 b ts))}"
    using len \<open>i < 16\<close> by (auto simp: nth_list_update)
qed

section \<open>Allocation takes the least available bit\<close>

lemma trailing_zeros_least:
  assumes "b \<noteq> 0"
  shows "trailing_zeros b < 16" "bit b (trailing_zeros b)" "\<And>j. j < trailing_zeros b \<Longrightarrow> \<not> bit b j"
proof -
  from assms obtain i where "i < 16" "bit b i" using u16_eq_0_iff by blast
  then have "List.find (bit b) [0..<16] \<noteq> None" by (auto simp: find_None_iff)
  then obtain k where k: "List.find (bit b) [0..<16] = Some k" by blast
  then have tz: "trailing_zeros b = k" by (simp add: trailing_zeros_def)
  from k obtain n where n: "n < 16" "bit b ([0..<16] ! n)" "k = [0..<16] ! n"
     "\<forall>j<n. \<not> bit b ([0..<16] ! j)"
    by (auto simp: find_Some_iff simp del: upt_Suc)
  then have "k = n" by simp
  with n tz show "trailing_zeros b < 16" "bit b (trailing_zeros b)"
    "\<And>j. j < trailing_zeros b \<Longrightarrow> \<not> bit b j" by auto
qed

lemma trailing_zeros_0 [simp]: "trailing_zeros 0 = 16"
  by (simp add: trailing_zeros_def find_None_iff [THEN iffD2])

lemma ba_alloc_spec:
  "ba_wf d t \<Longrightarrow>
     (avail d t = {} \<longrightarrow> ba_alloc d t = Some (t, None)) \<and>
     (avail d t \<noteq> {} \<longrightarrow> (\<exists>t'. ba_alloc d t = Some (t', Some (Min (avail d t))) \<and> ba_wf d t' \<and>
        avail d t' = avail d t - {Min (avail d t)}))"
proof (induction d arbitrary: t)
  case 0
  then obtain b where t: "t = BitAlloc16 b" by (rule ba_wf_0E)
  show ?case
  proof (cases "b = 0")
    case True
    then show ?thesis by (simp add: t)
  next
    case False
    note tz = trailing_zeros_least [OF False]
    have min: "Min (avail 0 t) = trailing_zeros b"
      using tz by (intro Min_eqI) (auto simp: t not_less [symmetric])
    obtain b' where b': "bf_set_bit (trailing_zeros b) False b = Some b'"
      "\<And>j. bit b' j \<longleftrightarrow> (if j = trailing_zeros b then False else bit b j)"
      using bf_set_bit_Some tz(1) by metis
    have "avail 0 (BitAlloc16 b') = avail 0 t - {trailing_zeros b}"
      using b'(2) by (auto simp: t)
    moreover have "avail 0 t \<noteq> {}" using tz t by auto
    ultimately show ?thesis using tz(1) b'(1) by (simp add: t [symmetric] min) (simp add: t)
  qed
next
  case (Suc d)
  from Suc.prems obtain b ts where t: "t = BitAllocCascade16 b ts" and len: "length ts = 16"
    and wf: "\<And>i. i < 16 \<Longrightarrow> ba_wf d (ts ! i)"
    and bits: "\<And>i. i < 16 \<Longrightarrow> bit b i \<longleftrightarrow> \<not> ba_is_empty (ts ! i)"
    by (cases t) auto
  show ?case
  proof (cases "b = 0")
    case True
    with Suc.prems show ?thesis using ba_is_empty_iff [OF Suc.prems] by (simp add: t)
  next
    case False
    let ?i = "trailing_zeros b"
    note tz = trailing_zeros_least [OF False]
    have wfi: "ba_wf d (ts ! ?i)" and ne: "avail d (ts ! ?i) \<noteq> {}"
      using wf tz bits ba_is_empty_iff by blast+
    define m where "m = Min (avail d (ts ! ?i))"
    have m: "m \<in> avail d (ts ! ?i)" using ne by (simp add: m_def)
    then have mcap: "m < ba_cap d" using avail_bound by blast
    obtain t' where t': "ba_alloc d (ts ! ?i) = Some (t', Some m)" "ba_wf d t'"
      "avail d t' = avail d (ts ! ?i) - {m}"
      using Suc.IH [OF wfi] ne m_def by blast
    obtain b' where b': "bf_set_bit ?i (\<not> ba_is_empty t') b = Some b'"
      "\<And>j. bit b' j \<longleftrightarrow> (if j = ?i then \<not> ba_is_empty t' else bit b j)"
      using bf_set_bit_Some tz(1) by metis
    note upd = node_update [OF Suc.prems [unfolded t] tz(1) t'(2) b'(2)]
    have min: "Min (avail (Suc d) t) = m + ?i * ba_cap d"
    proof (rule Min_eqI)
      show "m + ?i * ba_cap d \<in> avail (Suc d) t"
        unfolding t by (rule avail_nodeI [OF tz(1) m])
    next
      fix y assume "y \<in> avail (Suc d) t"
      then have y: "y div ba_cap d < 16" "y mod ba_cap d \<in> avail d (ts ! (y div ba_cap d))"
        using div_cap_less t by auto
      then have "bit b (y div ba_cap d)"
        using bits ba_is_empty_iff wf by (metis empty_iff)
      then have le: "?i \<le> y div ba_cap d" using tz(3) not_less by blast
      have "m + ?i * ba_cap d \<le> y mod ba_cap d + y div ba_cap d * ba_cap d"
      proof (cases "?i = y div ba_cap d")
        case True
        with y(2) have "m \<le> y mod ba_cap d" by (simp add: m_def)
        then show ?thesis unfolding True by (rule add_le_mono1)
      next
        case False
        with le have "Suc ?i \<le> y div ba_cap d" by simp
        then have "Suc ?i * ba_cap d \<le> y div ba_cap d * ba_cap d" by (rule mult_le_mono1)
        moreover have "m + ?i * ba_cap d < Suc ?i * ba_cap d" using mcap by simp
        ultimately show ?thesis by linarith
      qed
      then show "m + ?i * ba_cap d \<le> y" by (simp add: mult.commute)
    qed simp
    have "avail (Suc d) (BitAllocCascade16 b' (ts[?i := t'])) = avail (Suc d) t - {m + ?i * ba_cap d}"
      unfolding upd(2) t set_eq_iff avail_node_iff
      by (auto simp: t'(3) index_eq_iff [OF mcap] simp del: ba_cap.simps)
    moreover have "ba_alloc (Suc d) t = Some (BitAllocCascade16 b' (ts[?i := t']), Some (m + ?i * ba_cap d))"
      using False tz(1) len t'(1) b'(1) by (simp add: t Let_def)
    moreover have "avail (Suc d) t \<noteq> {}"
      using ba_is_empty_iff [OF Suc.prems] False by (simp add: t)
    ultimately show ?thesis using upd(1) min by simp
  qed
qed

section \<open>Testing and freeing single bits\<close>

lemma bf_get_bit_eq: "bf_get_bit b i = (if i < 16 then Some (bit b i) else None)"
  using bit_iff_and_push_bit_not_eq_0 [of b i] by (simp add: bf_get_bit_def)

lemma ba_test_spec:
  "ba_wf d t \<Longrightarrow> ba_test d t k = (if k < ba_cap d then Some (k \<in> avail d t) else None)"
proof (induction d arbitrary: t k)
  case 0
  then show ?case by (auto elim!: ba_wf_0E simp: bf_get_bit_eq)
next
  case (Suc d)
  from Suc.prems obtain b ts where t: "t = BitAllocCascade16 b ts" and len: "length ts = 16"
    and wf: "\<And>i. i < 16 \<Longrightarrow> ba_wf d (ts ! i)" by (cases t) auto
  have "k div ba_cap d < 16 \<longleftrightarrow> k < ba_cap (Suc d)"
    by (simp add: div_less_iff_less_mult mult.commute)
  then show ?case using len wf Suc.IH
    by (cases "k div ba_cap d < 16") (simp_all add: t nth_opt_def del: ba_cap.simps)
qed

text \<open>Freeing an available bit panics (the leaf's assertion), freeing any other one makes it available.\<close>

lemma ba_dealloc_spec:
  assumes "ba_wf d t" "k < ba_cap d" "k \<notin> avail d t"
  shows "\<exists>t'. ba_dealloc d t k = Some t' \<and> ba_wf d t' \<and> avail d t' = insert k (avail d t)"
  using assms
proof (induction d arbitrary: t k)
  case 0
  then obtain b where t: "t = BitAlloc16 b" by (auto elim: ba_wf_0E)
  obtain b' where "bf_set_bit k True b = Some b'" "\<And>j. bit b' j \<longleftrightarrow> (if j = k then True else bit b j)"
    using bf_set_bit_Some 0 by (metis ba_cap.simps(1))
  with 0 show ?case by (auto simp: t bf_get_bit_eq)
next
  case (Suc d)
  let ?i = "k div ba_cap d" and ?k = "k mod ba_cap d"
  from Suc.prems obtain b ts where t: "t = BitAllocCascade16 b ts" and len: "length ts = 16"
    and wf: "\<And>i. i < 16 \<Longrightarrow> ba_wf d (ts ! i)" by (cases t) auto
  have i: "?i < 16" using div_cap_less Suc.prems(2) by blast
  have "?k \<notin> avail d (ts ! ?i)" using Suc.prems t by auto
  then obtain t' where t': "ba_dealloc d (ts ! ?i) ?k = Some t'" "ba_wf d t'"
    "avail d t' = insert ?k (avail d (ts ! ?i))"
    using Suc.IH wf i by (metis ba_cap_pos mod_less_divisor)
  then have "\<not> ba_is_empty t'" using ba_is_empty_iff by blast
  then obtain b' where b': "bf_set_bit ?i True b = Some b'"
    "\<And>j. bit b' j \<longleftrightarrow> (if j = ?i then \<not> ba_is_empty t' else bit b j)"
    using bf_set_bit_Some i by metis
  note upd = node_update [OF Suc.prems(1) [unfolded t] i t'(2) b'(2)]
  have "x = k \<longleftrightarrow> x div ba_cap d = ?i \<and> x mod ba_cap d = ?k" for x
    by (metis div_mult_mod_eq)
  then have "avail (Suc d) (BitAllocCascade16 b' (ts[?i := t'])) = insert k (avail (Suc d) t)"
    unfolding upd(2) t set_eq_iff avail_node_iff using Suc.prems(2)
    by (auto simp: t'(3) simp del: ba_cap.simps) metis
  with upd(1) t'(1) b'(1) i len show ?case by (simp add: t Let_def)
qed

lemma ba_dealloc_available:
  "ba_wf d t \<Longrightarrow> k \<in> avail d t \<Longrightarrow> ba_dealloc d t k = None"
proof (induction d arbitrary: t k)
  case 0
  then show ?case by (auto elim!: ba_wf_0E simp: bf_get_bit_eq)
next
  case (Suc d)
  from Suc.prems obtain b ts where t: "t = BitAllocCascade16 b ts" and len: "length ts = 16"
    and wf: "\<And>i. i < 16 \<Longrightarrow> ba_wf d (ts ! i)" by (cases t) auto
  have i: "k div ba_cap d < 16" and "k mod ba_cap d \<in> avail d (ts ! (k div ba_cap d))"
    using div_cap_less Suc.prems(2) t by auto
  then have "ba_dealloc d (ts ! (k div ba_cap d)) (k mod ba_cap d) = None"
    using Suc.IH wf by blast
  with i len show ?case by (simp add: t Let_def)
qed

section \<open>Ranges\<close>

lemma bit_range_mask:
  "s < e \<Longrightarrow> e \<le> 16 \<Longrightarrow>
    bit (push_bit s (drop_bit s (drop_bit (16 - e) (push_bit (16 - e) (NOT 0 :: u16))))) n \<longleftrightarrow> s \<le> n \<and> n < e"
  by (auto simp: bit_simps)

lemma bf_set_bits_spec:
  assumes "s < e" "e \<le> 16" and v: "\<And>n. bit v n \<Longrightarrow> n < e - s"
  shows "\<exists>b'. bf_set_bits s e v b = Some b' \<and>
    (\<forall>n. bit b' n \<longleftrightarrow> (if s \<le> n \<and> n < e then bit v (n - s) else bit b n))"
proof -
  define m where "m = push_bit s (drop_bit s (drop_bit (16 - e) (push_bit (16 - e) (NOT 0 :: u16))))"
  have m: "bit m n \<longleftrightarrow> s \<le> n \<and> n < e" for n
    unfolding m_def using bit_range_mask assms(1,2) by blast
  have fits: "drop_bit (16 - (e - s)) (push_bit (16 - (e - s)) v) = v"
    by (rule bit_word_eqI) (use assms(1,2) in \<open>auto simp: bit_simps dest: v\<close>)
  have "bit ((b AND NOT m) OR push_bit s v) n \<longleftrightarrow>
      (if s \<le> n \<and> n < e then bit v (n - s) else bit b n)" for n
    using v [of "n - s"] assms(2) bit_imp_le_length [of b n]
    by (auto simp: bit_simps m)
  moreover have "bf_set_bits s e v b = Some ((b AND NOT m) OR push_bit s v)"
    using assms(1,2) fits by (simp add: bf_set_bits_def m_def Let_def)
  ultimately show ?thesis by blast
qed

lemma leaf_insert_spec:
  assumes "s < e" "e \<le> 16"
  shows "\<exists>b'. leaf_insert (BitAlloc16 b) s e = Some (BitAlloc16 b') \<and>
    avail 0 (BitAlloc16 b') = avail 0 (BitAlloc16 b) \<union> {s..<e}"
proof -
  define v where "v = drop_bit s (drop_bit (16 - e) (push_bit (16 - e) (- 1 :: u16)))"
  have ff: "(0xffff :: u16) = - 1" by simp
  have v: "bit v n \<longleftrightarrow> n < e - s" for n
    using assms by (auto simp: v_def bit_simps)
  have get: "bf_get_bits s e 0xffff = Some v"
    unfolding bf_get_bits_def ff v_def using assms by simp
  obtain b' where b': "bf_set_bits s e v b = Some b'"
    "\<And>n. bit b' n \<longleftrightarrow> (if s \<le> n \<and> n < e then bit v (n - s) else bit b n)"
    using bf_set_bits_spec [OF assms, of v b] v by blast
  have "avail 0 (BitAlloc16 b') = avail 0 (BitAlloc16 b) \<union> {s..<e}"
    using assms by (auto simp: b'(2) v)
  moreover have "leaf_insert (BitAlloc16 b) s e = Some (BitAlloc16 b')"
    unfolding leaf_insert_def by (simp only: bitalloc.case get b'(1) Option.bind.bind_lunit)
  ultimately show ?thesis by blast
qed

lemma leaf_remove_spec:
  assumes "s < e" "e \<le> 16"
  shows "\<exists>b'. leaf_remove (BitAlloc16 b) s e = Some (BitAlloc16 b') \<and>
    avail 0 (BitAlloc16 b') = avail 0 (BitAlloc16 b) - {s..<e}"
proof -
  obtain b' where b': "bf_set_bits s e 0 b = Some b'"
    "\<And>n. bit b' n \<longleftrightarrow> (if s \<le> n \<and> n < e then bit (0 :: u16) (n - s) else bit b n)"
    using bf_set_bits_spec [OF assms, of 0 b] by auto
  have "avail 0 (BitAlloc16 b') = avail 0 (BitAlloc16 b) - {s..<e}"
    by (auto simp: b'(2))
  moreover have "leaf_remove (BitAlloc16 b) s e = Some (BitAlloc16 b')"
    by (simp add: leaf_remove_def b'(1))
  ultimately show ?thesis by blast
qed

text \<open>
  One loop for both range operations: if the child operation \<open>f\<close> maps a child's available
  set by \<open>g\<close> on the part of the range that falls in the child, the node operation does so on
  the whole range.
\<close>

definition range_op ::
  "(nat set \<Rightarrow> nat set \<Rightarrow> nat set) \<Rightarrow> nat \<Rightarrow> (bitalloc \<Rightarrow> nat \<Rightarrow> nat \<Rightarrow> bitalloc option) \<Rightarrow> bool" where
  "range_op g d f \<longleftrightarrow> (\<forall>t s e. ba_wf d t \<and> s < e \<and> e \<le> ba_cap d \<longrightarrow>
     (\<exists>t'. f t s e = Some t' \<and> ba_wf d t' \<and> avail d t' = g (avail d t) {s..<e}))"

lemma range_opD:
  assumes "range_op g d f" "ba_wf d t" "s < e" "e \<le> ba_cap d"
  obtains t' where "f t s e = Some t'" "ba_wf d t'" "avail d t' = g (avail d t) {s..<e}"
  using assms unfolding range_op_def by blast

text \<open>The part of \<open>{s..<e}\<close> that falls in child \<open>i\<close>, as \<^verbatim>\<open>for_range\<close> computes it.\<close>

lemma child_range:
  fixes s e c i x :: nat
  assumes "0 < c" "s < e" "s div c \<le> i" "i \<le> (e - 1) div c"
  defines "lo \<equiv> if s div c = i then s mod c else 0" and "hi \<equiv> if e div c = i then e mod c else c"
  shows "lo < hi" "hi \<le> c" "x < c \<Longrightarrow> lo \<le> x \<and> x < hi \<longleftrightarrow> s \<le> x + i * c \<and> x + i * c < e"
proof -
  have "(e - 1) div c \<le> e div c" by (rule div_le_mono) simp
  with assms(4) have hi: "i = e div c \<or> i < e div c" by linarith
  have lo_eq: "lo \<le> x \<longleftrightarrow> s \<le> x + i * c" if "x < c" for x
  proof (cases "s div c = i")
    case True
    then have s: "s mod c + i * c = s" by (metis mod_div_mult_eq)
    have "lo \<le> x \<longleftrightarrow> s mod c + i * c \<le> x + i * c" using True by (simp add: lo_def)
    then show ?thesis by (simp only: s)
  next
    case False
    with assms(3) have "Suc (s div c) \<le> i" by simp
    then have "Suc (s div c) * c \<le> i * c" by (rule mult_le_mono1)
    moreover have "s < Suc (s div c) * c"
      using assms(1) dividend_less_div_times [of c s] by simp
    ultimately show ?thesis using False by (simp add: lo_def)
  qed
  have hi_eq: "x < hi \<longleftrightarrow> x + i * c < e" if "x < c" for x
  proof (cases "e div c = i")
    case True
    then have e: "e mod c + i * c = e" by (metis mod_div_mult_eq)
    have "x < hi \<longleftrightarrow> x + i * c < e mod c + i * c" using True by (simp add: hi_def)
    then show ?thesis by (simp only: e)
  next
    case False
    with hi have "Suc i \<le> e div c" by simp
    then have "Suc i * c \<le> e div c * c" by (rule mult_le_mono1)
    moreover have "e div c * c \<le> e" by simp
    ultimately have "Suc i * c \<le> e" by (rule le_trans)
    then show ?thesis using False that by (simp add: hi_def)
  qed
  show "hi \<le> c" using assms(1) by (simp add: hi_def less_imp_le)
  show "x < c \<Longrightarrow> lo \<le> x \<and> x < hi \<longleftrightarrow> s \<le> x + i * c \<and> x + i * c < e"
    using lo_eq hi_eq by blast
  have "lo < c" using assms(1) by (simp add: lo_def)
  moreover have "lo + i * c < e"
  proof (cases "s div c = i")
    case True
    then have "lo + i * c = s" using mod_div_mult_eq [of s c] by (simp add: lo_def)
    with assms(2) show ?thesis by simp
  next
    case False
    have "i * c \<le> (e - 1) div c * c" using assms(4) by (rule mult_le_mono1)
    also have "\<dots> \<le> e - 1" by simp
    finally show ?thesis using False assms(2) by (simp add: lo_def)
  qed
  ultimately show "lo < hi" using hi_eq by blast
qed

lemma for_range_spec:
  assumes f: "range_op g d f"
    and g: "\<And>A B x. x \<in> g A B \<longleftrightarrow> p (x \<in> A) (x \<in> B)" and p: "\<And>a. p a False = a"
  shows "range_op g (Suc d) (for_range (ba_cap d) f)"
  unfolding range_op_def
proof (intro allI impI, elim conjE)
  fix t s e assume wf: "ba_wf (Suc d) t" and se: "s < e" and e: "e \<le> ba_cap (Suc d)"
  let ?c = "ba_cap d"
  from wf obtain b ts where t: "t = BitAllocCascade16 b ts" by (cases t) auto
  define body where "body = (\<lambda>i (b, ts).
      do { let begin = (if s div ?c = i then s mod ?c else 0);
           let end = (if e div ?c = i then e mod ?c else ?c);
           t \<leftarrow> nth_opt ts i;
           t' \<leftarrow> f t begin end;
           b' \<leftarrow> bf_set_bit i (\<not> ba_is_empty t') b;
           Some (b', ts[i := t']) })"
  define I where "I = (\<lambda>j (b', ts'). ba_wf (Suc d) (BitAllocCascade16 b' ts') \<and>
      (\<forall>k < ba_cap (Suc d). k \<in> avail (Suc d) (BitAllocCascade16 b' ts') \<longleftrightarrow>
         p (k \<in> avail (Suc d) t) (k \<in> {s..<e} \<and> k div ?c < j)))"
  have "\<exists>st. foldM body [s div ?c..<Suc ((e - 1) div ?c)] (b, ts) = Some st \<and> I (Suc ((e - 1) div ?c)) st"
  proof (rule foldM_upt)
    show "s div ?c \<le> Suc ((e - 1) div ?c)" using se by (intro le_SucI div_le_mono) simp
    have "s div ?c \<le> k div ?c" if "s \<le> k" for k using that by (rule div_le_mono)
    then have none: "(k \<in> {s..<e} \<and> k div ?c < s div ?c) = False" for k
      by (meson atLeastLessThan_iff not_less)
    show "I (s div ?c) (b, ts)"
      unfolding I_def prod.case none p using wf by (simp only: t simp_thms)
  next
    fix i st assume i: "s div ?c \<le> i" "i < Suc ((e - 1) div ?c)" and st: "I i st"
    obtain b1 ts1 where [simp]: "st = (b1, ts1)" by fastforce
    let ?n = "BitAllocCascade16 b1 ts1"
    define lo where "lo = (if s div ?c = i then s mod ?c else 0)"
    define hi where "hi = (if e div ?c = i then e mod ?c else ?c)"
    note cr = child_range [of ?c s e i, folded lo_def hi_def, OF ba_cap_pos se i(1)]
    have ile: "i \<le> (e - 1) div ?c" using i(2) by simp
    have "e - 1 < ba_cap (Suc d)" using se e by simp
    then have i16: "i < 16" using ile div_cap_less le_less_trans by blast
    from st have wf1: "ba_wf (Suc d) ?n"
      and av1: "\<And>k. k < ba_cap (Suc d) \<Longrightarrow> k \<in> avail (Suc d) ?n \<longleftrightarrow>
          p (k \<in> avail (Suc d) t) (k \<in> {s..<e} \<and> k div ?c < i)"
      by (auto simp: I_def)
    from wf1 i16 have "ba_wf d (ts1 ! i)" "length ts1 = 16" by auto
    then obtain t' where t': "f (ts1 ! i) lo hi = Some t'" "ba_wf d t'"
      "avail d t' = g (avail d (ts1 ! i)) {lo..<hi}"
      using range_opD [OF f] cr(1,2) ile by metis
    obtain b' where b': "bf_set_bit i (\<not> ba_is_empty t') b1 = Some b'"
      "\<And>j. bit b' j \<longleftrightarrow> (if j = i then \<not> ba_is_empty t' else bit b1 j)"
      using bf_set_bit_Some i16 by metis
    note upd = node_update [OF wf1 i16 t'(2) b'(2)]
    have "k \<in> avail (Suc d) (BitAllocCascade16 b' (ts1[i := t'])) \<longleftrightarrow>
         p (k \<in> avail (Suc d) t) (k \<in> {s..<e} \<and> k div ?c < Suc i)" if k: "k < ba_cap (Suc d)" for k
    proof (cases "k div ?c = i")
      case True
      have "k mod ?c + i * ?c = k" using True by (metis mod_div_mult_eq)
      moreover have "k mod ?c < ?c" by simp
      ultimately have "k mod ?c \<in> {lo..<hi} \<longleftrightarrow> k \<in> {s..<e}"
        using cr(3) [OF ile, of "k mod ?c"] by simp
      moreover have "k mod ?c \<in> avail d (ts1 ! i) \<longleftrightarrow> k \<in> avail (Suc d) t"
        using av1 [OF k] True k p by simp
      ultimately show ?thesis unfolding upd(2) using True k by (simp add: t'(3) g)
    next
      case False
      then show ?thesis unfolding upd(2) using k av1 [OF k] by (auto simp: less_Suc_eq)
    qed
    then have "I (Suc i) (b', ts1[i := t'])" using upd(1) by (simp add: I_def)
    moreover have "body i st = Some (b', ts1[i := t'])"
      using t'(1) b'(1) \<open>length ts1 = 16\<close> i16 unfolding body_def lo_def hi_def by simp
    ultimately show "\<exists>st'. body i st = Some st' \<and> I (Suc i) st'" by blast
  qed
  then obtain b' ts' where run: "foldM body [s div ?c..<Suc ((e - 1) div ?c)] (b, ts) = Some (b', ts')"
    and end_inv: "I (Suc ((e - 1) div ?c)) (b', ts')" by auto
  have last: "k div ?c < Suc ((e - 1) div ?c)" if "k < e" for k
    using div_le_mono [of k "e - 1" ?c] that by linarith
  have "avail (Suc d) (BitAllocCascade16 b' ts') = g (avail (Suc d) t) {s..<e}"
  proof (rule set_eqI)
    fix k show "k \<in> avail (Suc d) (BitAllocCascade16 b' ts') \<longleftrightarrow> k \<in> g (avail (Suc d) t) {s..<e}"
    proof (cases "k < ba_cap (Suc d)")
      case True
      have in_range: "(k \<in> {s..<e} \<and> k div ?c < Suc ((e - 1) div ?c)) = (k \<in> {s..<e})"
        using last [of k] by auto
      from end_inv have "\<forall>k < ba_cap (Suc d). k \<in> avail (Suc d) (BitAllocCascade16 b' ts') \<longleftrightarrow>
          p (k \<in> avail (Suc d) t) (k \<in> {s..<e} \<and> k div ?c < Suc ((e - 1) div ?c))"
        unfolding I_def prod.case by (rule conjunct2)
      from this [rule_format, OF True] show ?thesis unfolding in_range g .
    next
      case False
      then have "k \<notin> avail (Suc d) t" "k \<notin> avail (Suc d) (BitAllocCascade16 b' ts')" "k \<notin> {s..<e}"
        using e avail_bound lessThan_iff by (blast, blast, auto)
      then show ?thesis by (simp only: g p)
    qed
  qed
  moreover have "for_range ?c f t s e = Some (BitAllocCascade16 b' ts')"
    using run se e unfolding for_range_def body_def [symmetric] t by simp
  ultimately show "\<exists>t'. for_range ?c f t s e = Some t' \<and> ba_wf (Suc d) t' \<and>
      avail (Suc d) t' = g (avail (Suc d) t) {s..<e}"
    using end_inv by (auto simp: I_def)
qed

lemma ba_insert_range_op: "range_op (\<union>) d (ba_insert d)"
proof (induction d)
  case 0
  show ?case unfolding range_op_def
    by (auto elim!: ba_wf_0E) (use leaf_insert_spec in fastforce)
next
  case (Suc d)
  then show ?case using for_range_spec [of "(\<union>)" d _ "(\<or>)"] by simp
qed

lemma ba_remove_range_op: "range_op (-) d (ba_remove d)"
proof (induction d)
  case 0
  show ?case unfolding range_op_def
    by (auto elim!: ba_wf_0E) (use leaf_remove_spec in fastforce)
next
  case (Suc d)
  then show ?case using for_range_spec [of "(-)" d _ "\<lambda>a b. a \<and> \<not> b"] by simp
qed

section \<open>Contiguous allocation\<close>

lemma find_map_Some:
  "find_map f xs = Some y \<longleftrightarrow>
     (\<exists>i < length xs. f (xs ! i) = Some y \<and> (\<forall>j < i. f (xs ! j) = None))"
proof (induction xs)
  case Nil
  then show ?case by simp
next
  case (Cons x xs)
  show ?case
  proof (cases "f x")
    case None
    then show ?thesis using Cons.IH by (simp add: Ex_less_Suc2 All_less_Suc2)
  next
    case (Some z)
    have "i = 0" if "\<forall>j<i. f ((x # xs) ! j) = None" for i
      using that Some by (cases i) auto
    then show ?thesis using Some by force
  qed
qed

lemma find_map_None: "find_map f xs = None \<longleftrightarrow> (\<forall>x \<in> set xs. f x = None)"
  by (induction xs) (auto split: option.splits)

text \<open>\<open>ba_next\<close> returns the least available bit at or after its argument.\<close>

definition least_from :: "nat set \<Rightarrow> nat \<Rightarrow> nat option \<Rightarrow> bool" where
  "least_from A k r \<longleftrightarrow> (case r of
     None \<Rightarrow> \<forall>j \<in> A. j < k
   | Some n \<Rightarrow> n \<in> A \<and> k \<le> n \<and> (\<forall>j \<in> A. k \<le> j \<longrightarrow> n \<le> j))"

lemma find_upt_least: "least_from {i. i < n \<and> P i} k (List.find P [k..<n])"
proof (cases "List.find P [k..<n]")
  case None
  then have "\<not> P j" if "k \<le> j" "j < n" for j using that by (auto simp: find_None_iff)
  with None show ?thesis by (auto simp: least_from_def not_le [symmetric])
next
  case (Some m)
  then obtain i where i: "i < n - k" "P (k + i)" "m = k + i" "\<forall>j<i. \<not> P (k + j)"
    by (auto simp: find_Some_iff)
  have "m \<le> j" if "P j" "k \<le> j" for j
    using i(3,4) that by (metis le_add_diff_inverse not_less nat_add_left_cancel_less)
  with i Some show ?thesis by (auto simp: least_from_def)
qed

text \<open>
  The children of a node are searched in order, each from its part of the bound: the first
  answer of a child is the least of the node.
\<close>

lemma find_map_upt:
  "find_map f [a..<n] = Some y \<Longrightarrow> \<exists>i. a \<le> i \<and> i < n \<and> f i = Some y \<and> (\<forall>j. a \<le> j \<and> j < i \<longrightarrow> f j = None)"
proof -
  assume "find_map f [a..<n] = Some y"
  then obtain m where m: "m < n - a" "f (a + m) = Some y" "\<forall>j<m. f (a + j) = None"
    by (auto simp: find_map_Some)
  then have "f j = None" if "a \<le> j" "j < a + m" for j
    using that by (metis le_add_diff_inverse nat_add_left_cancel_less)
  with m show ?thesis by (intro exI [of _ "a + m"]) auto
qed

lemma least_from_children:
  fixes k c n :: nat and A :: "nat \<Rightarrow> nat set"
  assumes c: "0 < c"
    and A: "\<And>i. A i \<subseteq> {..<c}"
    and f: "\<And>i. k div c \<le> i \<Longrightarrow> i < n \<Longrightarrow> least_from (A i) (if i = k div c then k mod c else 0) (f i)"
  shows "least_from {j. j < c * n \<and> j mod c \<in> A (j div c)} k
    (find_map (\<lambda>i. map_option (\<lambda>x. x + c * i) (f i)) [k div c..<n])"
    (is "least_from ?S k ?r")
proof -
  have below: "\<exists>y. f (j div c) = Some y \<and> y + c * (j div c) \<le> j"
    if j: "j \<in> ?S" "k \<le> j" for j
  proof -
    have i: "k div c \<le> j div c" "j div c < n" "j mod c \<in> A (j div c)"
      using j c by (auto intro: div_le_mono simp: div_less_iff_less_mult mult.commute)
    have ge: "(if j div c = k div c then k mod c else 0) \<le> j mod c"
    proof (cases "j div c = k div c")
      case True
      have "k mod c + k div c * c \<le> j mod c + j div c * c" using j(2) by (simp only: mod_div_mult_eq)
      then have "k mod c + k div c * c \<le> j mod c + k div c * c" by (simp only: True)
      with True show ?thesis by (simp only: if_True add_le_cancel_right refl)
    qed simp
    from f [OF i(1,2)] i(3) ge obtain y where "f (j div c) = Some y" "y \<le> j mod c"
      by (cases "f (j div c)") (auto simp: least_from_def)
    moreover have "j mod c + c * (j div c) = j" by simp
    ultimately show ?thesis by (metis add_le_mono1)
  qed
  show ?thesis
  proof (cases ?r)
    case None
    then have "f i = None" if "k div c \<le> i" "i < n" for i using that by (auto simp: find_map_None)
    moreover have "k div c \<le> j div c" "j div c < n" if "j \<in> ?S" "k \<le> j" for j
      using that c by (auto intro: div_le_mono simp: div_less_iff_less_mult mult.commute)
    ultimately have "\<not> k \<le> j" if "j \<in> ?S" for j using below that by fastforce
    then show ?thesis unfolding None by (auto simp: least_from_def not_le)
  next
    case (Some m)
    then obtain i y where i: "k div c \<le> i" "i < n" "f i = Some y" "m = y + c * i"
      and first: "\<And>i'. k div c \<le> i' \<Longrightarrow> i' < i \<Longrightarrow> f i' = None"
      by (auto dest!: find_map_upt)
    from f [OF i(1,2)] i(3) have y: "y \<in> A i" "(if i = k div c then k mod c else 0) \<le> y"
      and min: "\<And>x. x \<in> A i \<Longrightarrow> (if i = k div c then k mod c else 0) \<le> x \<Longrightarrow> y \<le> x"
      by (auto simp: least_from_def)
    have yc: "y < c" using y(1) A by blast
    have "m < c * Suc i" using yc i(4) by simp
    also have "\<dots> \<le> c * n" using i(2) by (intro mult_le_mono2) simp
    finally have mS: "m \<in> ?S" using i(4) yc y(1) by simp
    have km: "k \<le> m"
    proof (cases "i = k div c")
      case True
      then have "k mod c + c * (k div c) \<le> y + c * i" using y(2) by (simp only: if_True refl add_le_cancel_right)
      then show ?thesis by (simp only: mod_mult_div_eq i(4))
    next
      case False
      then have "k < c * i" using i(1) c by (metis div_less_iff_less_mult le_neq_implies_less mult.commute)
      then show ?thesis using i(4) by simp
    qed
    have "m \<le> j" if j: "j \<in> ?S" "k \<le> j" for j
    proof -
      obtain z where z: "f (j div c) = Some z" "z + c * (j div c) \<le> j" using below [OF j] by blast
      have ij: "i \<le> j div c" using first z(1) div_le_mono [OF j(2), of c] by (metis not_le option.distinct(1))
      show ?thesis
      proof (cases "i = j div c")
        case True
        then show ?thesis using z i(3,4) by simp
      next
        case False
        then have "c * Suc i \<le> c * (j div c)" using ij by (intro mult_le_mono2) simp
        also have "\<dots> \<le> j" by simp
        finally show ?thesis using yc i(4) by simp
      qed
    qed
    with mS km show ?thesis unfolding Some by (auto simp: least_from_def)
  qed
qed

lemma ba_next_spec: "ba_wf d t \<Longrightarrow> least_from (avail d t) k (ba_next d t k)"
proof (induction d arbitrary: t k)
  case 0
  then show ?case by (auto elim!: ba_wf_0E simp: find_upt_least)
next
  case (Suc d)
  then obtain b ts where t: "t = BitAllocCascade16 b ts" by (cases t) auto
  let ?c = "ba_cap d"
  let ?f = "\<lambda>i. if bit b i then ba_next d (ts ! i) (if i = k div ?c then k mod ?c else 0) else None"
  have f: "least_from (avail d (ts ! i)) (if i = k div ?c then k mod ?c else 0) (?f i)"
    if "i < 16" for i
  proof (cases "bit b i")
    case True
    then show ?thesis using Suc.IH Suc.prems that t by simp
  next
    case False
    then have "ba_wf d (ts ! i)" "ba_is_empty (ts ! i)" using Suc.prems that t by auto
    then have "avail d (ts ! i) = {}" using ba_is_empty_iff by blast
    with False show ?thesis by (simp add: least_from_def)
  qed
  have "least_from {j. j < ?c * 16 \<and> j mod ?c \<in> avail d (ts ! (j div ?c))} k
      (find_map (\<lambda>i. map_option (\<lambda>x. x + ?c * i) (?f i)) [k div ?c..<16])"
    by (rule least_from_children) (use avail_bound f in auto)
  moreover have "ba_next (Suc d) t k = find_map (\<lambda>i. map_option (\<lambda>x. x + ?c * i) (?f i)) [k div ?c..<16]"
    unfolding t ba_next.simps Let_def
    by (intro arg_cong2 [where f = find_map] refl ext) (simp add: minus_mult_div_eq_mod)
  ultimately show ?case by (simp add: t)
qed

text \<open>
  The search for a contiguous run. \<open>run A a sz b\<close>: \<open>b\<close> is aligned and the \<open>sz\<close> bits
  from \<open>b\<close> are in \<open>A\<close>. The loop keeps that the bits between \<open>base\<close> and \<open>offset\<close> are in \<open>A\<close>,
  and that no run starts before \<open>base\<close>.
\<close>

definition run :: "nat set \<Rightarrow> nat \<Rightarrow> nat \<Rightarrow> nat \<Rightarrow> bool" where
  "run A a sz b \<longleftrightarrow> 2 ^ a dvd b \<and> {b..<b + sz} \<subseteq> A"

lemma next_aligned:
  fixes n a :: nat
  assumes "0 < n"
  defines "b \<equiv> push_bit a (drop_bit a (n - 1) + 1)"
  shows "2 ^ a dvd b" "n \<le> b" "\<And>x. 2 ^ a dvd x \<Longrightarrow> x < b \<Longrightarrow> x < n"
proof -
  have b: "b = 2 ^ a * ((n - 1) div 2 ^ a + 1)"
    by (simp add: b_def push_bit_eq_mult drop_bit_eq_div mult.commute)
  show "2 ^ a dvd b" by (simp add: b)
  show "n \<le> b" using dividend_less_times_div [of "2 ^ a" "n - 1"] assms(1) by (simp add: b)
  fix x assume "2 ^ a dvd x" "x < b"
  then obtain q where q: "x = 2 ^ a * q" and "2 ^ a * q < 2 ^ a * ((n - 1) div 2 ^ a + 1)"
    using b by blast
  then have "q < (n - 1) div 2 ^ a + 1" by (simp only: nat_mult_less_cancel1 zero_less_power zero_less_numeral)
  then have "q \<le> (n - 1) div 2 ^ a" by simp
  then have "x \<le> 2 ^ a * ((n - 1) div 2 ^ a)" using q by simp
  also have "\<dots> \<le> n - 1" by simp
  finally show "x < n" using assms(1) by simp
qed

definition first_run :: "nat set \<Rightarrow> nat \<Rightarrow> nat \<Rightarrow> nat option \<Rightarrow> bool" where
  "first_run A a sz r \<longleftrightarrow> (case r of
     None \<Rightarrow> \<forall>b. \<not> run A a sz b
   | Some b \<Rightarrow> run A a sz b \<and> (\<forall>b'. run A a sz b' \<longrightarrow> b \<le> b'))"

lemma run_past:
  assumes "run A a sz b" "0 < sz" "offset \<notin> A" "base \<le> b" "offset - base < sz"
  shows "offset < b"
proof (rule ccontr)
  assume "\<not> offset < b"
  then have "offset \<in> {b..<b + sz}" using assms(4,5) by simp
  then show False using assms(1,3) by (auto simp: run_def)
qed

lemma find_contiguous_loop_spec:
  assumes "\<And>k. least_from A k (nxt k)" and "A \<subseteq> {..<capacity}" and "0 < sz"
    and "2 ^ a dvd base" "base \<le> offset" "offset - base < sz" "{base..<offset} \<subseteq> A"
      "\<And>b. run A a sz b \<Longrightarrow> base \<le> b"
  shows "\<exists>r. find_contiguous_loop nxt capacity sz a base offset = Some r \<and> first_run A a sz r"
  using assms
proof (induction nxt capacity sz a base offset rule: find_contiguous_loop.induct)
  case (1 nxt capacity sz a base offset)
  note inv = 1(3-)
  note unfold = find_contiguous_loop.simps [of nxt capacity sz a base offset]
  have no_run: "\<not> run A a sz b" if "\<forall>j \<in> A. j < offset" for b
  proof
    assume r: "run A a sz b"
    then have "offset < b" using run_past inv that by blast
    moreover have "b \<in> A" using r \<open>0 < sz\<close> by (auto simp: run_def)
    ultimately show False using that by auto
  qed
  consider (out) "capacity \<le> offset" | (none) "offset < capacity" "nxt offset = None"
    | (skip) n where "offset < capacity" "nxt offset = Some n" "n \<noteq> offset"
    | (hit) "offset < capacity" "nxt offset = Some offset"
    by (metis not_less option.exhaust)
  then show ?case
  proof cases
    case out
    then have "\<forall>j \<in> A. j < offset" using inv(2) by auto
    then show ?thesis using no_run out unfold by (auto simp: first_run_def)
  next
    case none
    then have "\<forall>j \<in> A. j < offset" using inv(1) [of offset] by (simp add: least_from_def)
    then show ?thesis using no_run none unfold by (auto simp: first_run_def)
  next
    case (skip n)
    define base' where "base' = push_bit a (drop_bit a (n - 1) + 1)"
    have n: "offset < n" "\<And>j. j \<in> A \<Longrightarrow> offset \<le> j \<Longrightarrow> n \<le> j"
      using inv(1) [of offset] skip by (auto simp: least_from_def)
    have al: "2 ^ a dvd base'" "\<And>x. 2 ^ a dvd x \<Longrightarrow> x < base' \<Longrightarrow> x < n"
      using next_aligned [of n a] n(1) unfolding base'_def by auto
    have "offset \<notin> A" using n by fastforce
    have "base' \<le> b" if r: "run A a sz b" for b
    proof (rule ccontr)
      assume "\<not> base' \<le> b"
      then have "b < n" using al(2) r by (simp add: run_def)
      moreover have "offset < b" using run_past [OF r] inv(3,6,8) r \<open>offset \<notin> A\<close> by blast
      moreover have "b \<in> A" using r inv(3) by (auto simp: run_def)
      ultimately show False using n(2) by fastforce
    qed
    then have "\<exists>r. find_contiguous_loop nxt capacity sz a base' base' = Some r \<and> first_run A a sz r"
      using inv skip n(1) al(1) by (intro 1(1) [OF skip(1,2,3) n(1) base'_def]) auto
    then show ?thesis using skip n(1) unfolding unfold by (simp add: base'_def Let_def)
  next
    case hit
    have off: "offset \<in> A" using inv(1) [of offset] hit by (simp add: least_from_def)
    have more: "{base..<Suc offset} \<subseteq> A" using off inv(7) by (auto simp: less_Suc_eq)
    show ?thesis
    proof (cases "Suc offset - base = sz")
      case True
      then have "base + sz = Suc offset" using inv(5) by simp
      then have "run A a sz base" using more inv(4) by (simp add: run_def)
      then show ?thesis using hit True inv(8) unfolding unfold by (auto simp: first_run_def)
    next
      case False
      then have "\<exists>r. find_contiguous_loop nxt capacity sz a base (Suc offset) = Some r \<and> first_run A a sz r"
        using inv hit more by (intro 1(2) [OF hit(1,2)]) auto
      then show ?thesis using hit False unfolding unfold by simp
    qed
  qed
qed

lemma find_contiguous_spec:
  assumes wf: "ba_wf d t" and sz: "0 < sz" and al: "2 ^ a \<le> ba_cap d"
  shows "\<exists>r. find_contiguous d t (ba_cap d) sz a = Some r \<and> first_run (avail d t) a sz r"
proof (cases "ba_is_empty t")
  case True
  then have "avail d t = {}" using ba_is_empty_iff wf by blast
  then show ?thesis using True sz by (auto simp: find_contiguous_def first_run_def run_def)
next
  case False
  have "\<exists>r. find_contiguous_loop (ba_next d t) (ba_cap d) sz a 0 0 = Some r \<and> first_run (avail d t) a sz r"
    by (rule find_contiguous_loop_spec) (use ba_next_spec wf avail_bound sz in auto)
  then show ?thesis using False al by (auto simp: find_contiguous_def)
qed

lemma ba_alloc_contiguous_spec:
  assumes wf: "ba_wf d t" and sz: "0 < sz" and al: "2 ^ a \<le> ba_cap d"
  shows "\<exists>t' r. ba_alloc_contiguous d t sz a = Some (t', r) \<and> ba_wf d t' \<and> first_run (avail d t) a sz r \<and>
    avail d t' = (case r of None \<Rightarrow> avail d t | Some b \<Rightarrow> avail d t - {b..<b + sz})"
proof -
  obtain r where r: "find_contiguous d t (ba_cap d) sz a = Some r" "first_run (avail d t) a sz r"
    using find_contiguous_spec [OF assms] by blast
  show ?thesis
  proof (cases r)
    case None
    with r wf show ?thesis by (simp add: ba_alloc_contiguous_def)
  next
    case (Some b)
    then have "{b..<b + sz} \<subseteq> avail d t" using r(2) by (simp add: first_run_def run_def)
    then have "b + sz - 1 \<in> avail d t" using sz by auto
    then have "b + sz \<le> ba_cap d" using avail_bound [of d t] by fastforce
    then obtain t' where "ba_remove d t b (b + sz) = Some t'" "ba_wf d t'"
        "avail d t' = avail d t - {b..<b + sz}"
      using range_opD [OF ba_remove_range_op wf] sz by (metis less_add_same_cancel1)
    with r Some show ?thesis by (simp add: ba_alloc_contiguous_def)
  qed
qed

section \<open>The contract of the allocators\<close>

text \<open>
  What the frame, pid and descriptor allocators rely on. \<open>tst\<close> tells whether a bit is available.
\<close>

locale bit_allocator =
  fixes cap :: nat
    and alloc :: "'t \<Rightarrow> ('t \<times> nat option) option"
    and dealloc :: "'t \<Rightarrow> nat \<Rightarrow> 't option"
    and insert :: "'t \<Rightarrow> nat \<Rightarrow> nat \<Rightarrow> 't option"
    and tst :: "'t \<Rightarrow> nat \<Rightarrow> bool option"
    and av :: "'t \<Rightarrow> nat set"
    and invar :: "'t \<Rightarrow> bool"
  assumes av_bound: "invar t \<Longrightarrow> av t \<subseteq> {..<cap}"
    and alloc_spec: "invar t \<Longrightarrow> \<exists>t'. invar t' \<and>
      (if av t = {} then alloc t = Some (t', None) \<and> av t' = {}
       else alloc t = Some (t', Some (Min (av t))) \<and> av t' = av t - {Min (av t)})"
    and dealloc_spec: "invar t \<Longrightarrow> k < cap \<Longrightarrow> k \<notin> av t \<Longrightarrow>
      \<exists>t'. dealloc t k = Some t' \<and> invar t' \<and> av t' = Set.insert k (av t)"
    and dealloc_panic: "invar t \<Longrightarrow> k \<in> av t \<Longrightarrow> dealloc t k = None"
    and insert_spec: "invar t \<Longrightarrow> s < e \<Longrightarrow> e \<le> cap \<Longrightarrow>
      \<exists>t'. insert t s e = Some t' \<and> invar t' \<and> av t' = av t \<union> {s..<e}"
    and tst_spec: "invar t \<Longrightarrow> tst t k = (if k < cap then Some (k \<in> av t) else None)"
begin

lemma finite_av: "invar t \<Longrightarrow> finite (av t)"
  using av_bound finite_subset by blast

lemma alloc_Some:
  assumes "invar t" and "alloc t = Some (t', Some k)"
  shows "invar t'" "k \<in> av t" "k < cap" "av t' = av t - {k}" "\<And>j. j \<in> av t \<Longrightarrow> k \<le> j"
proof -
  have ne: "av t \<noteq> {}" and k: "k = Min (av t)" and "invar t'" "av t' = av t - {k}"
    using alloc_spec [OF assms(1)] assms(2) by (auto split: if_splits)
  then show "invar t'" "av t' = av t - {k}" by auto
  show "k \<in> av t" using k ne finite_av [OF assms(1)] by simp
  then show "k < cap" using av_bound [OF assms(1)] by blast
  show "\<And>j. j \<in> av t \<Longrightarrow> k \<le> j" using k finite_av [OF assms(1)] by simp
qed

lemma alloc_None:
  assumes "invar t" and "alloc t = Some (t', None)"
  shows "invar t'" "av t = {}" "av t' = {}"
  using alloc_spec [OF assms(1)] assms(2) by (auto split: if_splits)

lemma alloc_returns: "invar t \<Longrightarrow> \<exists>t' r. alloc t = Some (t', r)"
  using alloc_spec by (metis (full_types))

lemma alloc_ne:
  assumes "invar t" and "av t \<noteq> {}"
  shows "\<exists>t'. alloc t = Some (t', Some (Min (av t))) \<and> invar t' \<and> av t' = av t - {Min (av t)}"
  using alloc_spec [OF assms(1)] assms(2) by auto

text \<open>Giving back the bit just allocated restores the set of available bits.\<close>

lemma alloc_dealloc:
  assumes "invar t" and "alloc t = Some (t', Some k)"
  shows "\<exists>t''. dealloc t' k = Some t'' \<and> invar t'' \<and> av t'' = av t"
proof -
  note a = alloc_Some [OF assms]
  have "k \<notin> av t'" using a(4) by simp
  then obtain t'' where "dealloc t' k = Some t''" "invar t''" "av t'' = Set.insert k (av t')"
    using dealloc_spec [OF a(1,3)] by blast
  then show ?thesis using a(2,4) by auto
qed

end

interpretation ba: bit_allocator "ba_cap d" "ba_alloc d" "ba_dealloc d" "ba_insert d" "ba_test d"
    "avail d" "ba_wf d" for d
proof unfold_locales
  fix t assume wf: "ba_wf d t"
  show "avail d t \<subseteq> {..<ba_cap d}" by (rule avail_bound)
  show "\<exists>t'. ba_wf d t' \<and>
      (if avail d t = {} then ba_alloc d t = Some (t', None) \<and> avail d t' = {}
       else ba_alloc d t = Some (t', Some (Min (avail d t))) \<and> avail d t' = avail d t - {Min (avail d t)})"
    using ba_alloc_spec [OF wf] wf by auto
  show "ba_test d t k = (if k < ba_cap d then Some (k \<in> avail d t) else None)" for k
    using wf by (rule ba_test_spec)
  show "\<exists>t'. ba_insert d t s e = Some t' \<and> ba_wf d t' \<and> avail d t' = avail d t \<union> {s..<e}"
    if "s < e" "e \<le> ba_cap d" for s e
    using range_opD [OF ba_insert_range_op wf that] by blast
qed (use ba_dealloc_spec ba_dealloc_available in auto)

section \<open>Properties\<close>

lemma avail_leaf: "avail 0 (BitAlloc16 b) = set (filter (bit b) [0..<16])"
  by auto

text \<open>
  C1: on a well-formed allocator of any level, \<open>alloc\<close> returns the least available bit and makes exactly
  it unavailable, or returns nothing when no bit is available; giving the bit back restores the
  set, and giving back an available bit panics.
\<close>

theorem alloc_refines_set:
  assumes "ba_wf d t"
  shows "(avail d t = {} \<longrightarrow> ba_alloc d t = Some (t, None)) \<and>
    (avail d t \<noteq> {} \<longrightarrow> (\<exists>t' t''. ba_alloc d t = Some (t', Some (Min (avail d t))) \<and> ba_wf d t' \<and>
       avail d t' = avail d t - {Min (avail d t)} \<and>
       ba_dealloc d t' (Min (avail d t)) = Some t'' \<and> ba_wf d t'' \<and> avail d t'' = avail d t)) \<and>
    (\<forall>k \<in> avail d t. ba_dealloc d t k = None)"
proof -
  have "\<exists>t' t''. ba_alloc d t = Some (t', Some (Min (avail d t))) \<and> ba_wf d t' \<and>
      avail d t' = avail d t - {Min (avail d t)} \<and>
      ba_dealloc d t' (Min (avail d t)) = Some t'' \<and> ba_wf d t'' \<and> avail d t'' = avail d t" if ne: "avail d t \<noteq> {}"
  proof -
    obtain t' where t': "ba_alloc d t = Some (t', Some (Min (avail d t)))" "ba_wf d t'"
      "avail d t' = avail d t - {Min (avail d t)}" using ba.alloc_ne [OF assms ne] by blast
    then obtain t'' where "ba_dealloc d t' (Min (avail d t)) = Some t''" "ba_wf d t''" "avail d t'' = avail d t"
      using ba.alloc_dealloc [OF assms t'(1)] by blast
    with t' show ?thesis by blast
  qed
  then show ?thesis using ba_alloc_spec [OF assms] ba.dealloc_panic [OF assms] by simp
qed

theorem alloc_refines_set_witness:
  "ba_wf 0 (BitAlloc16 0x30) \<and> avail 0 (BitAlloc16 0x30) = {4, 5} \<and>
   (\<exists>t'. ba_alloc 0 (BitAlloc16 0x30) = Some (t', Some 4) \<and> avail 0 t' = {5})"
proof -
  have a: "avail 0 (BitAlloc16 0x30) = {4, 5}" unfolding avail_leaf by code_simp
  then have "Min (avail 0 (BitAlloc16 0x30)) = 4" by simp
  moreover have "{4, 5} - {4} = {5 :: nat}" by auto
  ultimately show ?thesis
    using alloc_refines_set [of 0 "BitAlloc16 0x30"] unfolding a by auto
qed

text \<open>
  \<open>insert\<close> and \<open>remove\<close> of a range are union and difference with the range, on every level, and
  \<open>test\<close> reads the set; a range past the capacity panics.
\<close>

theorem ranges_refine_set:
  assumes "ba_wf d t" and "s < e" and "e \<le> ba_cap d"
  shows "(\<exists>t'. ba_insert d t s e = Some t' \<and> ba_wf d t' \<and> avail d t' = avail d t \<union> {s..<e} \<and>
      (\<forall>k. ba_test d t' k = (if k < ba_cap d then Some (k \<in> avail d t \<union> {s..<e}) else None))) \<and>
    (\<exists>t'. ba_remove d t s e = Some t' \<and> ba_wf d t' \<and> avail d t' = avail d t - {s..<e})"
proof -
  obtain t' where t': "ba_insert d t s e = Some t'" "ba_wf d t'" "avail d t' = avail d t \<union> {s..<e}"
    using ba.insert_spec [OF assms] by blast
  then have "ba_test d t' k = (if k < ba_cap d then Some (k \<in> avail d t \<union> {s..<e}) else None)" for k
    using ba.tst_spec [OF t'(2)] by simp
  moreover obtain t2 where "ba_remove d t s e = Some t2" "ba_wf d t2" "avail d t2 = avail d t - {s..<e}"
    using range_opD [OF ba_remove_range_op assms] by blast
  ultimately show ?thesis using t' by blast
qed

theorem ranges_refine_set_witness:
  "ba_wf 1 (ba_default 1) \<and> (10 :: nat) < 40 \<and> 40 \<le> ba_cap 1 \<and>
   (\<exists>t'. ba_insert 1 (ba_default 1) 10 40 = Some t' \<and> avail 1 t' = {10..<40})"
  using ranges_refine_set [of 1 "ba_default 1" 10 40] ba_default_avail [of 1] ba_default_wf [of 1]
  by (auto simp: ba_cap_eq)

text \<open>
  C26: \<open>alloc_contiguous\<close> always returns; it finds a run exactly when an aligned run of available bits
  of the size exists, finds the first one, and makes exactly it unavailable.
\<close>

theorem alloc_contiguous_first_fit:
  assumes "ba_wf d t" and "0 < sz" and "2 ^ a \<le> ba_cap d"
  shows "\<exists>t' r. ba_alloc_contiguous d t sz a = Some (t', r) \<and> ba_wf d t' \<and>
    (case r of
       None \<Rightarrow> avail d t' = avail d t \<and> \<not> (\<exists>b. 2 ^ a dvd b \<and> {b..<b + sz} \<subseteq> avail d t)
     | Some b \<Rightarrow> avail d t' = avail d t - {b..<b + sz} \<and> 2 ^ a dvd b \<and> {b..<b + sz} \<subseteq> avail d t \<and>
         (\<forall>b'. 2 ^ a dvd b' \<and> {b'..<b' + sz} \<subseteq> avail d t \<longrightarrow> b \<le> b'))"
proof -
  obtain t' r where "ba_alloc_contiguous d t sz a = Some (t', r)" "ba_wf d t'" "first_run (avail d t) a sz r"
    "avail d t' = (case r of None \<Rightarrow> avail d t | Some b \<Rightarrow> avail d t - {b..<b + sz})"
    using ba_alloc_contiguous_spec [OF assms] by blast
  then show ?thesis
    by (intro exI [of _ t'] exI [of _ r]) (simp add: first_run_def run_def split: option.splits)
qed

theorem alloc_contiguous_first_fit_witness:
  "ba_wf 0 (BitAlloc16 0x76) \<and> (0 :: nat) < 2 \<and> 2 ^ 1 \<le> ba_cap 0 \<and>
   (\<exists>t'. ba_alloc_contiguous 0 (BitAlloc16 0x76) 2 1 = Some (t', Some 4) \<and> ba_wf 0 t' \<and>
      avail 0 t' = avail 0 (BitAlloc16 0x76) - {4..<6})"
proof -
  have "map_option snd (ba_alloc_contiguous 0 (BitAlloc16 0x76) 2 1) = Some (Some 4)" by code_simp
  then show ?thesis using alloc_contiguous_first_fit [of 0 "BitAlloc16 0x76" 2 1] by auto
qed

end
