(* ===== verification/Frame_Alloc.thy ===== *)
theory Frame_Alloc
  imports Address Bitmap_Alloc
begin

text \<open>
  Physical memory and the frame allocator (\<^verbatim>\<open>mm/allocator/frame.rs\<close>, and the slices of
  \<^verbatim>\<open>mm/address.rs\<close>). Memory is a function from page numbers to pages of 512 words; the
  kernel reaches a page through its linear map, so a slice at a page-aligned physical
  address is the number of that page. The allocator is the level-5 bitmap (16M frames).
  Dropping a \<^verbatim>\<open>FrameTracker\<close> is \<open>dealloc_frame\<close>.

  The lemmas show that an allocated frame is zeroed, that it was free and no longer is, that
  nothing else of memory changes, and that freeing a free frame panics. The locale
  \<open>frame_source\<close> states this as the contract the page tables and pages rely on.
\<close>

text \<open>An index of a word of a page: \<^verbatim>\<open>&mut [PageTableEntry]\<close> of length 512.\<close>

type_synonym page_idx = "9 word"

record kmem =
  phys :: "usize \<Rightarrow> page_idx \<Rightarrow> u64"
  falloc :: bitalloc

definition frame_level :: nat where "frame_level = 5"

text \<open>\<^verbatim>\<open>pte_array\<close> and \<^verbatim>\<open>byte_array\<close>: the page at a page-aligned physical address.\<close>

definition pte_array :: "usize \<Rightarrow> usize option" where
  "pte_array paddr =
     do { rassert (phys_ok paddr); phys_to_virt paddr; Some (drop_bit PAGE_SIZE_BITS paddr) }"

definition byte_array :: "usize \<Rightarrow> usize option" where
  "byte_array paddr =
     do { rassert (phys_ok paddr); phys_to_virt paddr; Some (drop_bit PAGE_SIZE_BITS paddr) }"

definition frame_tracker_new :: "usize \<Rightarrow> 'z kmem_scheme \<Rightarrow> 'z kmem_scheme option" where
  "frame_tracker_new ppn k =
     do { p \<leftarrow> byte_array (ppn_to_phys ppn); Some (k\<lparr>phys := (phys k)(p := \<lambda>_. 0)\<rparr>) }"

definition init_frame_allocator :: "usize \<Rightarrow> 'z kmem_scheme \<Rightarrow> 'z kmem_scheme option" where
  "init_frame_allocator ekernel k =
     do { pa \<leftarrow> virt_to_phys ekernel;
          start_ppn \<leftarrow> phys_to_ppn_next pa;
          end_ppn \<leftarrow> phys_to_ppn MEMORY_END;
          t \<leftarrow> ba_insert frame_level (falloc k) (unat start_ppn) (unat end_ppn);
          Some (k\<lparr>falloc := t\<rparr>) }"

definition alloc_frame :: "'z kmem_scheme \<Rightarrow> ('z kmem_scheme \<times> usize option) option" where
  "alloc_frame k =
     do { (t, r) \<leftarrow> ba_alloc frame_level (falloc k);
          case r of
            None \<Rightarrow> Some (k\<lparr>falloc := t\<rparr>, None)
          | Some n \<Rightarrow> do { k' \<leftarrow> frame_tracker_new (of_nat n) (k\<lparr>falloc := t\<rparr>);
                           Some (k', Some (of_nat n)) } }"

definition alloc_contiguous_frame ::
  "nat \<Rightarrow> 'z kmem_scheme \<Rightarrow> ('z kmem_scheme \<times> usize list) option" where
  "alloc_contiguous_frame num k =
     do { (t, r) \<leftarrow> ba_alloc_contiguous frame_level (falloc k) num 0;
          case r of
            None \<Rightarrow> Some (k\<lparr>falloc := t\<rparr>, [])
          | Some ppn_start \<Rightarrow>
              foldM (\<lambda>n (k, frames).
                  do { k' \<leftarrow> frame_tracker_new (of_nat n) k; Some (k', frames @ [of_nat n]) })
                [ppn_start..<ppn_start + num] (k\<lparr>falloc := t\<rparr>, []) }"

definition dealloc_frame :: "usize \<Rightarrow> 'z kmem_scheme \<Rightarrow> 'z kmem_scheme option" where
  "dealloc_frame ppn k =
     do { t \<leftarrow> ba_dealloc frame_level (falloc k) (unat ppn); Some (k\<lparr>falloc := t\<rparr>) }"

section \<open>Free frames\<close>

definition free_frames :: "'z kmem_scheme \<Rightarrow> usize set" where
  "free_frames k = {p. unat p \<in> avail frame_level (falloc k)}"

definition frame_ppn :: "usize \<Rightarrow> bool" where
  "frame_ppn p \<longleftrightarrow> 0x80200 \<le> unat p \<and> unat p < 0x88000"

definition frames_wf :: "'z kmem_scheme \<Rightarrow> bool" where
  "frames_wf k \<longleftrightarrow> ba_wf frame_level (falloc k) \<and> avail frame_level (falloc k) \<subseteq> {0x80200..<0x88000}"

lemma cap_frame_level: "ba_cap frame_level = 0x1000000"
  by (simp add: frame_level_def ba_cap_eq)

lemma frame_ppn_phys:
  assumes "frame_ppn p"
  shows "phys_ok (ppn_to_phys p)" "drop_bit 12 (ppn_to_phys p) = p" "vaddr_is_align (ppn_to_phys p)"
proof -
  have lt: "unat p < 2 ^ 52" using assms by (simp add: frame_ppn_def)
  have un: "unat (ppn_to_phys p) = unat p * 4096"
    using unat_push_12 [OF lt] by (simp add: ppn_to_phys_def PAGE_SIZE_BITS_def)
  show "phys_ok (ppn_to_phys p)" using assms by (simp add: phys_ok_unat un frame_ppn_def)
  show "drop_bit 12 (ppn_to_phys p) = p" by (simp add: word_unat_eq_iff unat_drop_12 un)
  show "vaddr_is_align (ppn_to_phys p)"
    using unat_take_12 [of "ppn_to_phys p"]
    by (simp add: vaddr_is_align_def PAGE_SIZE_def and_low_12 word_unat_eq_iff un)
qed

lemma byte_array_ppn: "frame_ppn p \<Longrightarrow> byte_array (ppn_to_phys p) = Some p"
  using frame_ppn_phys [of p] by (simp add: byte_array_def phys_to_virt_eq PAGE_SIZE_BITS_def)

lemma pte_array_ppn: "frame_ppn p \<Longrightarrow> pte_array (ppn_to_phys p) = Some p"
  using frame_ppn_phys [of p] by (simp add: pte_array_def phys_to_virt_eq PAGE_SIZE_BITS_def)

lemma unat_of_nat_frame: "n < 0x88000 \<Longrightarrow> unat (of_nat n :: usize) = n"
  by (simp add: unat_of_nat)

lemma free_frame_ppn: "frames_wf k \<Longrightarrow> p \<in> free_frames k \<Longrightarrow> frame_ppn p"
  by (auto simp: free_frames_def frames_wf_def frame_ppn_def)

lemma free_frames_empty_iff: "frames_wf k \<Longrightarrow> free_frames k = {} \<longleftrightarrow> avail frame_level (falloc k) = {}"
proof
  assume wf: "frames_wf k" and e: "free_frames k = {}"
  have "False" if "n \<in> avail frame_level (falloc k)" for n
  proof -
    have "n < 0x88000" using wf that by (auto simp: frames_wf_def)
    then have "of_nat n \<in> free_frames k" using that by (simp add: free_frames_def unat_of_nat_frame)
    then show False using e by simp
  qed
  then show "avail frame_level (falloc k) = {}" by blast
qed (simp add: free_frames_def)

lemma alloc_frame_Some:
  assumes wf: "frames_wf k" and ne: "free_frames k \<noteq> {}"
  shows "\<exists>k' p. alloc_frame k = Some (k', Some p) \<and> frames_wf k' \<and> p \<in> free_frames k \<and>
    free_frames k' = free_frames k - {p} \<and> phys k' = (phys k)(p := \<lambda>_. 0) \<and>
    (\<forall>q \<in> free_frames k. p \<le> q) \<and> kmem.more k' = kmem.more k"
proof -
  let ?A = "avail frame_level (falloc k)" and ?n = "Min (avail frame_level (falloc k))"
  have bwf: "ba_wf frame_level (falloc k)" and sub: "?A \<subseteq> {0x80200..<0x88000}"
    using wf by (auto simp: frames_wf_def)
  have ne': "?A \<noteq> {}" using ne free_frames_empty_iff [OF wf] by blast
  obtain t where t: "ba_alloc frame_level (falloc k) = Some (t, Some ?n)" "ba_wf frame_level t"
    "avail frame_level t = ?A - {?n}"
    using ba.alloc_ne [OF bwf ne'] by blast
  have nA: "?n \<in> ?A" by (rule Min_in [OF finite_avail ne'])
  define p :: usize where "p = of_nat ?n"
  have "?n < 0x88000" using nA sub by auto
  then have up: "unat p = ?n" by (simp add: p_def unat_of_nat_frame)
  have pfree: "p \<in> free_frames k" using nA by (simp add: free_frames_def up)
  define k' where "k' = k\<lparr>falloc := t, phys := (phys k)(p := \<lambda>_. 0)\<rparr>"
  have "frame_tracker_new p (k\<lparr>falloc := t\<rparr>) = Some k'"
    using byte_array_ppn free_frame_ppn [OF wf pfree] by (simp add: frame_tracker_new_def k'_def)
  then have "alloc_frame k = Some (k', Some p)" using t(1) by (simp add: alloc_frame_def p_def)
  moreover have "?A - {?n} \<subseteq> {0x80200..<0x88000}" using sub by blast
  then have "frames_wf k'" using t(2) by (simp add: frames_wf_def k'_def t(3))
  moreover have "free_frames k' = free_frames k - {p}"
    unfolding free_frames_def k'_def by (simp add: t(3) flip: up word_unat_eq_iff) blast
  moreover have "\<forall>q \<in> free_frames k. p \<le> q"
    unfolding free_frames_def word_le_nat_alt up by simp
  moreover have "phys k' = (phys k)(p := \<lambda>_. 0)" "kmem.more k' = kmem.more k" by (simp_all add: k'_def)
  ultimately show ?thesis using pfree by blast
qed

lemma alloc_frame_None:
  assumes wf: "frames_wf k" and e: "free_frames k = {}"
  shows "\<exists>k'. alloc_frame k = Some (k', None) \<and> frames_wf k' \<and> free_frames k' = {} \<and> phys k' = phys k"
proof -
  have "ba_wf frame_level (falloc k)" "avail frame_level (falloc k) = {}"
    using wf e free_frames_empty_iff by (auto simp: frames_wf_def)
  then obtain t where "ba_alloc frame_level (falloc k) = Some (t, None)" "ba_wf frame_level t"
    "avail frame_level t = {}"
    using ba.alloc_spec [of frame_level "falloc k"] by auto
  then show ?thesis by (simp add: alloc_frame_def frames_wf_def free_frames_def)
qed

lemma dealloc_frame_Some:
  assumes wf: "frames_wf k" and p: "frame_ppn p" "p \<notin> free_frames k"
  shows "\<exists>k'. dealloc_frame p k = Some k' \<and> frames_wf k' \<and> free_frames k' = insert p (free_frames k) \<and>
    phys k' = phys k \<and> kmem.more k' = kmem.more k"
proof -
  have "unat p < ba_cap frame_level" using p(1) by (simp add: cap_frame_level frame_ppn_def)
  moreover have "unat p \<notin> avail frame_level (falloc k)" using p(2) by (simp add: free_frames_def)
  ultimately obtain t where "ba_dealloc frame_level (falloc k) (unat p) = Some t" "ba_wf frame_level t"
    "avail frame_level t = insert (unat p) (avail frame_level (falloc k))"
    using ba.dealloc_spec wf unfolding frames_wf_def by blast
  then show ?thesis using wf p(1)
    by (auto simp: dealloc_frame_def frames_wf_def free_frames_def word_unat_eq_iff frame_ppn_def)
qed

lemma dealloc_frame_free: "frames_wf k \<Longrightarrow> p \<in> free_frames k \<Longrightarrow> dealloc_frame p k = None"
  using ba.dealloc_panic [of frame_level "falloc k"]
  by (simp add: dealloc_frame_def frames_wf_def free_frames_def)

section \<open>The contract of the allocator\<close>

text \<open>
  A source of frames: allocation takes a free frame, zeroes it and touches nothing else, freeing
  gives it back, and a frame that is free cannot be freed again.
\<close>

locale frame_source =
  fixes alloc :: "'s \<Rightarrow> ('s \<times> 'f option) option"
    and free :: "'f \<Rightarrow> 's \<Rightarrow> 's option"
    and avl :: "'s \<Rightarrow> 'f set"
    and content :: "'s \<Rightarrow> 'f \<Rightarrow> 'c"
    and zero :: 'c
    and ok :: "'f \<Rightarrow> bool"
    and invar :: "'s \<Rightarrow> bool"
  assumes alloc_some: "invar s \<Longrightarrow> avl s \<noteq> {} \<Longrightarrow>
      \<exists>s' f. alloc s = Some (s', Some f) \<and> invar s' \<and> f \<in> avl s \<and> avl s' = avl s - {f} \<and>
        content s' = (content s)(f := zero)"
    and alloc_none: "invar s \<Longrightarrow> avl s = {} \<Longrightarrow>
      \<exists>s'. alloc s = Some (s', None) \<and> invar s' \<and> avl s' = {} \<and> content s' = content s"
    and free_some: "invar s \<Longrightarrow> ok f \<Longrightarrow> f \<notin> avl s \<Longrightarrow>
      \<exists>s'. free f s = Some s' \<and> invar s' \<and> avl s' = insert f (avl s) \<and> content s' = content s"
    and free_panic: "invar s \<Longrightarrow> f \<in> avl s \<Longrightarrow> free f s = None"
    and avl_ok: "invar s \<Longrightarrow> f \<in> avl s \<Longrightarrow> ok f"
begin

lemma alloc_SomeD:
  assumes "invar s" and "alloc s = Some (s', Some f)"
  shows "invar s'" "f \<in> avl s" "ok f" "avl s' = avl s - {f}" "content s' = (content s)(f := zero)"
proof -
  have "avl s \<noteq> {}" using assms alloc_none [OF assms(1)] by force
  then have *: "invar s' \<and> f \<in> avl s \<and> avl s' = avl s - {f} \<and> content s' = (content s)(f := zero)"
    using alloc_some [OF assms(1)] assms(2) by force
  then show "invar s'" "f \<in> avl s" "avl s' = avl s - {f}" "content s' = (content s)(f := zero)" by auto
  then show "ok f" using avl_ok [OF assms(1)] by blast
qed

text \<open>Two frames held at the same time are different.\<close>

lemma alloc_twice_distinct:
  assumes "invar s" "alloc s = Some (s1, Some f)" "alloc s1 = Some (s2, Some g)"
  shows "f \<noteq> g" "avl s2 = avl s - {f, g}"
  using alloc_SomeD [OF assms(1,2)] alloc_SomeD [OF _ assms(3)] by auto

text \<open>A frame given back can be given back only once.\<close>

lemma double_free_panics:
  assumes "invar s" "ok f" "f \<notin> avl s" "free f s = Some s'"
  shows "free f s' = None"
  using free_some [OF assms(1-3)] assms(4) free_panic by auto

lemma alloc_free_avl:
  assumes "invar s" "alloc s = Some (s1, Some f)"
  shows "\<exists>s2. free f s1 = Some s2 \<and> invar s2 \<and> avl s2 = avl s"
proof -
  note a = alloc_SomeD [OF assms]
  have "f \<notin> avl s1" using a(4) by simp
  then obtain s2 where "free f s1 = Some s2" "invar s2" "avl s2 = insert f (avl s1)"
    using free_some [OF a(1,3)] by blast
  then show ?thesis using a(2,4) by auto
qed

end

interpretation fr: frame_source alloc_frame dealloc_frame free_frames phys "\<lambda>_. 0" frame_ppn frames_wf
proof unfold_locales
  fix s :: "'z kmem_scheme" assume wf: "frames_wf s"
  show "\<exists>s' f. alloc_frame s = Some (s', Some f) \<and> frames_wf s' \<and> f \<in> free_frames s \<and>
      free_frames s' = free_frames s - {f} \<and> phys s' = (phys s)(f := \<lambda>_. 0)" if "free_frames s \<noteq> {}"
    using alloc_frame_Some [OF wf that] by blast
  show "\<exists>s'. alloc_frame s = Some (s', None) \<and> frames_wf s' \<and> free_frames s' = {} \<and> phys s' = phys s"
    if "free_frames s = {}" using alloc_frame_None [OF wf that] .
  fix p
  show "dealloc_frame p s = None" if "p \<in> free_frames s" using dealloc_frame_free [OF wf that] .
  show "frame_ppn p" if "p \<in> free_frames s" using free_frame_ppn [OF wf that] .
  show "\<exists>s'. dealloc_frame p s = Some s' \<and> frames_wf s' \<and> free_frames s' = insert p (free_frames s) \<and>
      phys s' = phys s" if "frame_ppn p" "p \<notin> free_frames s" using dealloc_frame_Some [OF wf that] by blast
qed

lemma alloc_frame_more:
  assumes "frames_wf k" "alloc_frame k = Some (k', Some f)" shows "kmem.more k' = kmem.more k"
proof -
  have "free_frames k \<noteq> {}" using fr.alloc_SomeD(2) [OF assms] by blast
  then show ?thesis using alloc_frame_Some [OF assms(1)] assms(2) by auto
qed

section \<open>Boot\<close>

lemma init_frame_allocator_spec:
  assumes lo: "VADDR_LOW \<le> ekernel" and hi: "ekernel < VADDR_HIGH - PAGE_SIZE"
    and fresh: "falloc k = ba_default frame_level"
  shows "\<exists>k'. init_frame_allocator ekernel k = Some k' \<and> frames_wf k' \<and> phys k' = phys k \<and>
    free_frames k' = {p. unat (ekernel - PHY_TO_VIRT_OFFSET) div 4096 < unat p \<and> unat p < 0x88000}"
proof -
  define pa where "pa = ekernel - PHY_TO_VIRT_OFFSET"
  have ek: "ekernel = pa + PHY_TO_VIRT_OFFSET" by (simp add: pa_def)
  have le: "ekernel \<le> VADDR_HIGH" using hi by (simp add: mm_consts word_le_nat_alt word_less_nat_alt)
  have pok: "phys_ok pa" using vaddr_window_iff [of ekernel] lo le by (simp add: pa_def)
  have ltpa: "unat pa < 0x87fff000"
    using lo hi unfolding ek mm_consts by unat_arith
  let ?s = "drop_bit 12 pa + 1" and ?n = "unat pa div 4096"
  have n: "0x80200 \<le> ?n" "Suc ?n < 0x88000" using ltpa pok by (simp_all add: phys_ok_unat) 
  have us: "unat ?s = Suc ?n"
    using n(2) unat_drop_12 [of pa] by (simp add: unat_word_ariths)
  have ue: "unat (drop_bit 12 MEMORY_END) = 0x88000" by (simp add: MEMORY_END_def unat_drop_12)
  have vp: "virt_to_phys ekernel = Some pa"
    using lo le by (simp add: virt_to_phys_def check_kernel_va_def kernel_va_def pa_def)
  have end_ok: "phys_ok MEMORY_END" by (simp add: phys_ok_def mm_consts)
  obtain t where t: "ba_insert frame_level (falloc k) (Suc ?n) 0x88000 = Some t" "ba_wf frame_level t"
    "avail frame_level t = {} \<union> {Suc ?n..<0x88000}"
    using ba.insert_spec [of frame_level "ba_default frame_level" "Suc ?n" "0x88000"] n(2)
    by (auto simp: cap_frame_level fresh)
  have "init_frame_allocator ekernel k = Some (k\<lparr>falloc := t\<rparr>)"
    using vp pok end_ok t(1) us ue
    by (simp add: init_frame_allocator_def phys_to_ppn_next_def phys_to_ppn_def PAGE_SIZE_BITS_def)
  moreover have "frames_wf (k\<lparr>falloc := t\<rparr>)" using t n(1) by (auto simp: frames_wf_def)
  moreover have "free_frames (k\<lparr>falloc := t\<rparr>) = {p. ?n < unat p \<and> unat p < 0x88000}"
    using t(3) by (auto simp: free_frames_def)
  ultimately show ?thesis by (simp add: pa_def)
qed

text \<open>A memory right after boot, for a kernel image that ends at page \<^verbatim>\<open>0x802ff\<close>.\<close>

definition boot_mem :: kmem where
  "boot_mem = the (init_frame_allocator 0xffffffff802ff000
     \<lparr>phys = \<lambda>_ _. 0, falloc = ba_default frame_level\<rparr>)"

lemma boot_mem_wf:
  "frames_wf boot_mem" "free_frames boot_mem = {p. 0x802ff < unat p \<and> unat p < 0x88000}"
proof -
  obtain k' where "init_frame_allocator 0xffffffff802ff000 \<lparr>phys = \<lambda>_ _. 0, falloc = ba_default frame_level\<rparr> = Some k'"
    "frames_wf k'" "free_frames k' = {p. unat (0xffffffff802ff000 - PHY_TO_VIRT_OFFSET) div 4096 < unat p \<and> unat p < 0x88000}"
    using init_frame_allocator_spec [of "0xffffffff802ff000"
        "\<lparr>phys = \<lambda>_ _. 0, falloc = ba_default frame_level\<rparr> :: kmem"]
    by (auto simp: mm_consts)
  then show "frames_wf boot_mem" "free_frames boot_mem = {p. 0x802ff < unat p \<and> unat p < 0x88000}"
    by (simp_all add: boot_mem_def mm_consts)
qed

section \<open>Properties\<close>

text \<open>
  at boot the allocator holds exactly the frames between the end of the kernel image and the
  end of memory.
\<close>

theorem boot_free_frames:
  assumes "VADDR_LOW \<le> ekernel" and "ekernel < VADDR_HIGH - PAGE_SIZE"
    and "falloc k = ba_default frame_level"
  shows "\<exists>k'. init_frame_allocator ekernel k = Some k' \<and> frames_wf k' \<and>
    free_frames k' = {p. unat (ekernel - PHY_TO_VIRT_OFFSET) div 4096 < unat p \<and> unat p < 0x88000}"
  using init_frame_allocator_spec [OF assms] by blast

theorem boot_free_frames_witness:
  "\<exists>k'. init_frame_allocator 0xffffffff802ff000 \<lparr>phys = \<lambda>_ _. 0, falloc = ba_default frame_level\<rparr> = Some k' \<and>
    frames_wf k' \<and> free_frames k' = {p. 0x802ff < unat p \<and> unat p < 0x88000}"
  using boot_free_frames [of "0xffffffff802ff000" "\<lparr>phys = \<lambda>_ _. 0, falloc = ba_default frame_level\<rparr>"]
  by (auto simp: mm_consts)

text \<open>
  C28: while a frame is free, \<open>alloc_frame\<close> returns the lowest one, zeroed, and changes nothing else
  of memory; the frame cannot be handed out again until it is freed, freeing it restores the set of
  free frames, and a second free panics.
\<close>

theorem alloc_frame_exclusive:
  assumes "frames_wf k" and "free_frames k \<noteq> {}"
  shows "\<exists>k' p. alloc_frame k = Some (k', Some p) \<and> p \<in> free_frames k \<and> (\<forall>q \<in> free_frames k. p \<le> q) \<and>
    phys k' = (phys k)(p := \<lambda>_. 0) \<and> free_frames k' = free_frames k - {p} \<and> frames_wf k' \<and>
    (\<exists>k''. dealloc_frame p k' = Some k'' \<and> free_frames k'' = free_frames k \<and> dealloc_frame p k'' = None)"
proof -
  obtain k' p where al: "alloc_frame k = Some (k', Some p)" "frames_wf k'" "p \<in> free_frames k"
    "free_frames k' = free_frames k - {p}" "phys k' = (phys k)(p := \<lambda>_. 0)" "\<forall>q \<in> free_frames k. p \<le> q"
    using alloc_frame_Some [OF assms] by blast
  obtain k'' where fr: "dealloc_frame p k' = Some k''" "frames_wf k''" "free_frames k'' = free_frames k"
    using fr.alloc_free_avl [OF assms(1) al(1)] by blast
  then have "dealloc_frame p k'' = None" using dealloc_frame_free al(3) by blast
  with al fr show ?thesis by blast
qed

theorem alloc_frame_exclusive_witness:
  "frames_wf boot_mem \<and> free_frames boot_mem \<noteq> {} \<and>
   (\<exists>k' p. alloc_frame boot_mem = Some (k', Some p) \<and> p = 0x80300 \<and>
     free_frames k' = free_frames boot_mem - {p} \<and>
     (\<exists>k''. dealloc_frame p k' = Some k'' \<and> dealloc_frame p k'' = None))"
proof -
  have first: "0x80300 \<in> free_frames boot_mem" by (simp add: boot_mem_wf)
  then obtain k' p where p: "alloc_frame boot_mem = Some (k', Some p)" "p \<in> free_frames boot_mem"
    "\<forall>q \<in> free_frames boot_mem. p \<le> q" "free_frames k' = free_frames boot_mem - {p}"
    "\<exists>k''. dealloc_frame p k' = Some k'' \<and> dealloc_frame p k'' = None"
    using alloc_frame_exclusive [OF boot_mem_wf(1)] by blast
  have "p \<le> 0x80300" using p(3) first by blast
  then have "unat p \<le> 0x80300" "0x802ff < unat p" using p(2) by (auto simp: boot_mem_wf word_le_nat_alt)
  then have "unat p = unat (0x80300 :: usize)" by simp
  then have "p = 0x80300" by (simp only: word_unat_eq_iff)
  with p first show ?thesis using boot_mem_wf(1) by blast
qed

end
