(* ===== verification/Type_Cast.thy ===== *)
theory Type_Cast
  imports Duck_Prelude
begin

text \<open>
  The permission types of \<^verbatim>\<open>mm/type_cast.rs\<close> and their conversions. A \<^verbatim>\<open>bitflags\<close> value is
  the word of its bits; \<open>contains\<close> is the inclusion of bits, so a flag declared as zero
  (\<^verbatim>\<open>PROT_NONE\<close>) is contained in every value.
\<close>

definition contains :: "'a::len word \<Rightarrow> 'a word \<Rightarrow> bool" where
  "contains v f \<longleftrightarrow> v AND f = f"

text \<open>\<^verbatim>\<open>from_bits\<close> refuses undeclared bits; \<^verbatim>\<open>from_bits_truncate\<close> drops them.\<close>

definition from_bits :: "'a::len word \<Rightarrow> 'a word \<Rightarrow> 'a word option" where
  "from_bits declared v = (if v AND NOT declared = 0 then Some v else None)"

type_synonym map_permission = u8
type_synonym mmap_prot = u32
type_synonym mmap_flags = u32
type_synonym pte_flags = u16
type_synonym page_permission = u8

definition MP_R :: map_permission where "MP_R = 1"
definition MP_W :: map_permission where "MP_W = 2"
definition MP_X :: map_permission where "MP_X = 4"
definition MP_U :: map_permission where "MP_U = 8"

definition PROT_NONE :: mmap_prot where "PROT_NONE = 0"
definition PROT_READ :: mmap_prot where "PROT_READ = 1"
definition PROT_WRITE :: mmap_prot where "PROT_WRITE = 2"
definition PROT_EXEC :: mmap_prot where "PROT_EXEC = 4"

definition MAP_SHARED :: mmap_flags where "MAP_SHARED = 1"
definition MAP_PRIVATE :: mmap_flags where "MAP_PRIVATE = 2"
definition MAP_FIXED :: mmap_flags where "MAP_FIXED = 0x10"
definition MAP_ANONYMOUS :: mmap_flags where "MAP_ANONYMOUS = 0x20"
definition MAP_STACK :: mmap_flags where "MAP_STACK = 0x20000"

definition PTE_V :: pte_flags where "PTE_V = 1"
definition PTE_R :: pte_flags where "PTE_R = 2"
definition PTE_W :: pte_flags where "PTE_W = 4"
definition PTE_X :: pte_flags where "PTE_X = 8"
definition PTE_U :: pte_flags where "PTE_U = 0x10"
definition PTE_G :: pte_flags where "PTE_G = 0x20"
definition PTE_A :: pte_flags where "PTE_A = 0x40"
definition PTE_D :: pte_flags where "PTE_D = 0x80"
definition PTE_COW :: pte_flags where "PTE_COW = 0x100"

definition PP_R :: page_permission where "PP_R = 2"
definition PP_W :: page_permission where "PP_W = 4"
definition PP_X :: page_permission where "PP_X = 8"
definition PP_U :: page_permission where "PP_U = 0x10"

lemmas map_perm_defs = MP_R_def MP_W_def MP_X_def MP_U_def
lemmas prot_defs = PROT_NONE_def PROT_READ_def PROT_WRITE_def PROT_EXEC_def
lemmas pte_flag_defs = PTE_V_def PTE_R_def PTE_W_def PTE_X_def PTE_U_def PTE_G_def PTE_A_def
  PTE_D_def PTE_COW_def
lemmas page_perm_defs = PP_R_def PP_W_def PP_X_def PP_U_def

definition add_if :: "bool \<Rightarrow> 'a::len word \<Rightarrow> 'a word \<Rightarrow> 'a word" where
  "add_if c f v = (if c then v OR f else v)"

definition page_permission_of_map :: "map_permission \<Rightarrow> page_permission" where
  "page_permission_of_map flags =
     add_if (contains flags MP_U) PP_U (add_if (contains flags MP_X) PP_X
       (add_if (contains flags MP_W) PP_W (add_if (contains flags MP_R) PP_R 0)))"

definition pte_flags_of_map :: "map_permission \<Rightarrow> pte_flags" where
  "pte_flags_of_map v =
     add_if (contains v MP_U) PTE_U (add_if (contains v MP_X) PTE_X
       (add_if (contains v MP_W) PTE_W (add_if (contains v MP_R) PTE_R 0)))"

definition map_permission_of_prot :: "mmap_prot \<Rightarrow> map_permission" where
  "map_permission_of_prot v =
     add_if (\<not> contains v PROT_NONE) MP_U (add_if (contains v PROT_READ) MP_R
       (add_if (contains v PROT_WRITE) MP_W (add_if (contains v PROT_EXEC) MP_X 0)))"

definition pte_flags_of_page :: "page_permission \<Rightarrow> pte_flags" where
  "pte_flags_of_page v =
     add_if (contains v PP_U) PTE_U (add_if (contains v PP_X) PTE_X
       (add_if (contains v PP_W) PTE_W (add_if (contains v PP_R) PTE_R 0)))"

section \<open>Flags as sets of bits\<close>

lemma contains_zero [simp]: "contains v 0"
  by (simp add: contains_def)

lemma contains_exp: "n < LENGTH('a) \<Longrightarrow> contains v (push_bit n 1 :: 'a::len word) \<longleftrightarrow> bit v n"
proof
  assume "contains v (push_bit n 1)" and "n < LENGTH('a)"
  then have "bit (v AND push_bit n 1) n \<longleftrightarrow> bit (push_bit n (1 :: 'a word)) n" by (simp only: contains_def)
  then show "bit v n" using \<open>n < LENGTH('a)\<close> by (simp add: bit_simps)
next
  assume "bit v n"
  then show "contains v (push_bit n 1)"
    unfolding contains_def by (intro bit_word_eqI) (auto simp: bit_simps)
qed

lemma contains_or: "contains v (f OR g) \<longleftrightarrow> contains v f \<and> contains v g"
  unfolding contains_def by (simp add: bit_eq_iff bit_simps) blast

lemma map_perm_bits:
  "contains v MP_R \<longleftrightarrow> bit v 0" "contains v MP_W \<longleftrightarrow> bit v 1"
  "contains v MP_X \<longleftrightarrow> bit v 2" "contains v MP_U \<longleftrightarrow> bit v 3"
  using contains_exp [of 0 v] contains_exp [of 1 v] contains_exp [of 2 v] contains_exp [of 3 v]
  by (simp_all add: map_perm_defs push_bit_eq_mult)

lemma page_perm_bits:
  "contains v PP_R \<longleftrightarrow> bit v 1" "contains v PP_W \<longleftrightarrow> bit v 2"
  "contains v PP_X \<longleftrightarrow> bit v 3" "contains v PP_U \<longleftrightarrow> bit v 4"
  using contains_exp [of 1 v] contains_exp [of 2 v] contains_exp [of 3 v] contains_exp [of 4 v]
  by (simp_all add: page_perm_defs push_bit_eq_mult)

lemma pte_flag_bits:
  "contains v PTE_V \<longleftrightarrow> bit v 0" "contains v PTE_R \<longleftrightarrow> bit v 1" "contains v PTE_W \<longleftrightarrow> bit v 2"
  "contains v PTE_X \<longleftrightarrow> bit v 3" "contains v PTE_U \<longleftrightarrow> bit v 4" "contains v PTE_COW \<longleftrightarrow> bit v 8"
  using contains_exp [of 0 v] contains_exp [of 1 v] contains_exp [of 2 v] contains_exp [of 3 v]
    contains_exp [of 4 v] contains_exp [of 8 v]
  by (simp_all add: pte_flag_defs push_bit_eq_mult)

text \<open>
  the page-table flags of a mapping's permission are the same whether they are
  computed directly or through the area's page permission, and hold exactly its R, W, X and U.
\<close>

theorem pte_flags_of_map_via_page:
  "pte_flags_of_page (page_permission_of_map v) = pte_flags_of_map v \<and>
   (contains (pte_flags_of_map v) PTE_R \<longleftrightarrow> contains v MP_R) \<and>
   (contains (pte_flags_of_map v) PTE_W \<longleftrightarrow> contains v MP_W) \<and>
   (contains (pte_flags_of_map v) PTE_X \<longleftrightarrow> contains v MP_X) \<and>
   (contains (pte_flags_of_map v) PTE_U \<longleftrightarrow> contains v MP_U) \<and>
   \<not> contains (pte_flags_of_map v) PTE_V"
  unfolding pte_flags_of_map_def pte_flags_of_page_def page_permission_of_map_def
  by (cases "contains v MP_R"; cases "contains v MP_W"; cases "contains v MP_X"; cases "contains v MP_U")
    (simp_all add: add_if_def, simp_all add: contains_def page_perm_defs pte_flag_defs)

text \<open>
  a protection argument never grants user access to the mapping: \<^verbatim>\<open>PROT_NONE\<close> is zero
  and so contained in every value. The read, write and execute bits are translated.
\<close>

theorem prot_never_grants_user:
  "\<not> contains (map_permission_of_prot v) MP_U \<and>
   (contains (map_permission_of_prot v) MP_R \<longleftrightarrow> contains v PROT_READ) \<and>
   (contains (map_permission_of_prot v) MP_W \<longleftrightarrow> contains v PROT_WRITE) \<and>
   (contains (map_permission_of_prot v) MP_X \<longleftrightarrow> contains v PROT_EXEC)"
  unfolding map_permission_of_prot_def PROT_NONE_def
  by (cases "contains v PROT_READ"; cases "contains v PROT_WRITE"; cases "contains v PROT_EXEC")
    (simp_all add: add_if_def, simp_all add: contains_def map_perm_defs)

end
