(* ===== verification/Page_Table.thy ===== *)
theory Page_Table
  imports Frame_Alloc Type_Cast
begin

text \<open>
  The Sv39 page table (\<^verbatim>\<open>mm/page_table.rs\<close>). A page-table entry is a word of physical
  memory; a mutable reference to an entry is its location, the page and the index in it.
  The functions walk and change the memory of \<^theory_text>\<open>Frame_Alloc\<close>.

  The lemmas show that a well-formed table, in which no two paths lead to the same page, is a
  partial map from page numbers to entries (\<open>pt_view\<close>): \<open>map_one\<close> adds one entry,
  \<open>unmap\<close> removes one, \<open>modify_flags\<close> changes the permission bits of one, and every other
  page keeps its entry; no operation touches a page that is not a table.
\<close>

section \<open>Entries\<close>

definition pte_new :: "usize \<Rightarrow> pte_flags \<Rightarrow> u64" where
  "pte_new ppn flags = push_bit 10 ppn OR ucast flags"

definition pte_empty :: u64 where "pte_empty = 0"

text \<open>All nine low bits are declared flags, so \<^verbatim>\<open>from_bits(..).unwrap()\<close> does not panic.\<close>

definition pte_flags :: "u64 \<Rightarrow> pte_flags" where
  "pte_flags pte = ucast (pte AND (push_bit 9 1 - 1))"

definition pte_ppn :: "u64 \<Rightarrow> usize" where
  "pte_ppn pte = drop_bit 10 pte AND (push_bit 44 1 - 1)"

definition pte_is_valid :: "u64 \<Rightarrow> bool" where "pte_is_valid pte = contains (pte_flags pte) PTE_V"
definition pte_is_writable :: "u64 \<Rightarrow> bool" where "pte_is_writable pte = contains (pte_flags pte) PTE_W"
definition pte_is_readable :: "u64 \<Rightarrow> bool" where "pte_is_readable pte = contains (pte_flags pte) PTE_R"
definition pte_is_executable :: "u64 \<Rightarrow> bool" where "pte_is_executable pte = contains (pte_flags pte) PTE_X"
definition pte_is_user :: "u64 \<Rightarrow> bool" where "pte_is_user pte = contains (pte_flags pte) PTE_U"

definition pte_set_flags :: "pte_flags \<Rightarrow> u64 \<Rightarrow> u64" where
  "pte_set_flags flags pte = push_bit 10 (pte_ppn pte) OR ucast flags"

section \<open>Tables\<close>

record page_table =
  root_paddr :: usize
  frames :: "usize list"

type_synonym pte_loc = "usize \<times> page_idx"

definition set_word :: "pte_loc \<Rightarrow> u64 \<Rightarrow> 'z kmem_scheme \<Rightarrow> 'z kmem_scheme" where
  "set_word l v k = k\<lparr>phys := (phys k)(fst l := (phys k (fst l))(snd l := v))\<rparr>"

definition get_word :: "'z kmem_scheme \<Rightarrow> pte_loc \<Rightarrow> u64" where
  "get_word k l = phys k (fst l) (snd l)"

definition page_table_new :: "'z kmem_scheme \<Rightarrow> ('z kmem_scheme \<times> page_table) option" where
  "page_table_new k =
     do { (k', r) \<leftarrow> alloc_frame k; frame \<leftarrow> r;
          Some (k', \<lparr>root_paddr = ppn_to_phys frame, frames = [frame]\<rparr>) }"

definition page_table_new_user ::
  "usize \<Rightarrow> 'z kmem_scheme \<Rightarrow> ('z kmem_scheme \<times> page_table) option" where
  "page_table_new_user kernel_root_paddr k =
     do { (k1, r) \<leftarrow> alloc_frame k; frame \<leftarrow> r;
          up \<leftarrow> pte_array (ppn_to_phys frame);
          kp \<leftarrow> pte_array kernel_root_paddr;
          let k2 = set_word (up, of_nat KERNEL_PTE_POS) (get_word k1 (kp, of_nat KERNEL_PTE_POS)) k1;
          let k3 = set_word (up, of_nat KERNEL_MMIO_PTE_POS) (get_word k2 (kp, of_nat KERNEL_MMIO_PTE_POS)) k2;
          Some (k3, \<lparr>root_paddr = ppn_to_phys frame, frames = [frame]\<rparr>) }"

definition root_ppn :: "page_table \<Rightarrow> usize option" where
  "root_ppn pt = phys_to_ppn (root_paddr pt)"

definition token :: "page_table \<Rightarrow> usize option" where
  "token pt = do { p \<leftarrow> root_ppn pt; Some (push_bit 60 8 OR p) }"

text \<open>\<^verbatim>\<open>activate\<close> writes the token to \<^verbatim>\<open>satp\<close>; the result is the value of the register.\<close>

definition activate :: "page_table \<Rightarrow> usize option" where
  "activate pt = token pt"

text \<open>The two walks. The list holds the indices of the levels still to visit.\<close>

fun find_pte_loop :: "'z kmem_scheme \<Rightarrow> usize \<Rightarrow> page_idx list \<Rightarrow> pte_loc option option" where
  "find_pte_loop k pa [] = None"
| "find_pte_loop k pa (i # is) =
     do { p \<leftarrow> pte_array pa;
          let pte = get_word k (p, i);
          if \<not> pte_is_valid pte then Some None
          else if is = [] then Some (Some (p, i))
          else find_pte_loop k (ppn_to_phys (pte_ppn pte)) is }"

definition find_pte :: "'z kmem_scheme \<Rightarrow> page_table \<Rightarrow> usize \<Rightarrow> pte_loc option option" where
  "find_pte k pt vaddr =
     do { (i2, i1, i0) \<leftarrow> vaddr_to_pte_vpn vaddr;
          find_pte_loop k (root_paddr pt) [ucast i2, ucast i1, ucast i0] }"

fun find_pte_create_loop ::
  "'z kmem_scheme \<Rightarrow> usize list \<Rightarrow> usize \<Rightarrow> page_idx list \<Rightarrow> ('z kmem_scheme \<times> usize list \<times> pte_loc) option" where
  "find_pte_create_loop k fs pa [] = None"
| "find_pte_create_loop k fs pa (i # is) =
     do { p \<leftarrow> pte_array pa;
          if is = [] then Some (k, fs, (p, i))
          else
            let pte = get_word k (p, i) in
            if \<not> pte_is_valid pte then
              do { (k1, r) \<leftarrow> alloc_frame k; frame \<leftarrow> r;
                   let pte' = pte_new frame PTE_V;
                   find_pte_create_loop (set_word (p, i) pte' k1) (fs @ [frame]) (ppn_to_phys (pte_ppn pte')) is }
            else find_pte_create_loop k fs (ppn_to_phys (pte_ppn pte)) is }"

definition find_pte_create ::
  "'z kmem_scheme \<Rightarrow> page_table \<Rightarrow> usize \<Rightarrow> ('z kmem_scheme \<times> page_table \<times> pte_loc) option" where
  "find_pte_create k pt vaddr =
     do { (i2, i1, i0) \<leftarrow> vaddr_to_pte_vpn vaddr;
          (k', fs, l) \<leftarrow> find_pte_create_loop k (frames pt) (root_paddr pt) [ucast i2, ucast i1, ucast i0];
          Some (k', pt\<lparr>frames := fs\<rparr>, l) }"

definition map_one ::
  "usize \<Rightarrow> usize \<Rightarrow> pte_flags \<Rightarrow> 'z kmem_scheme \<Rightarrow> page_table \<Rightarrow> ('z kmem_scheme \<times> page_table) option" where
  "map_one vpn ppn flags k pt =
     do { va \<leftarrow> vpn_to_virt vpn;
          (k', pt', l) \<leftarrow> find_pte_create k pt va;
          rassert (\<not> pte_is_valid (get_word k' l));
          Some (set_word l (pte_new ppn (flags OR PTE_A OR PTE_D OR PTE_V)) k', pt') }"

definition unmap :: "usize \<Rightarrow> 'z kmem_scheme \<Rightarrow> page_table \<Rightarrow> 'z kmem_scheme option" where
  "unmap vpn k pt =
     do { va \<leftarrow> vpn_to_virt vpn;
          r \<leftarrow> find_pte k pt va;
          case r of
            Some l \<Rightarrow> do { rassert (pte_is_valid (get_word k l)); Some (set_word l pte_empty k) }
          | None \<Rightarrow> Some k }"

definition translate_va_to_pte :: "'z kmem_scheme \<Rightarrow> page_table \<Rightarrow> usize \<Rightarrow> pte_loc option option" where
  "translate_va_to_pte k pt vaddr = find_pte k pt vaddr"

definition translate_va_to_pa :: "'z kmem_scheme \<Rightarrow> page_table \<Rightarrow> usize \<Rightarrow> usize option" where
  "translate_va_to_pa k pt vaddr =
     do { off \<leftarrow> vaddr_offset vaddr;
          r \<leftarrow> translate_va_to_pte k pt vaddr;
          l \<leftarrow> r;
          rassert (pte_is_valid (get_word k l));
          Some (ppn_to_phys (pte_ppn (get_word k l)) + off) }"

text \<open>Only the bits R, W, X and U change.\<close>

definition pte_copy_bits :: "pte_flags \<Rightarrow> u64 \<Rightarrow> u64" where
  "pte_copy_bits flags pte =
     fold (\<lambda>i pte. if bit flags i then pte OR push_bit i 1 else pte AND NOT (push_bit i 1)) [1..<5] pte"

definition modify_flags :: "usize \<Rightarrow> pte_flags \<Rightarrow> 'z kmem_scheme \<Rightarrow> page_table \<Rightarrow> 'z kmem_scheme option" where
  "modify_flags vpn flags k pt =
     do { va \<leftarrow> vpn_to_virt vpn;
          r \<leftarrow> translate_va_to_pte k pt va;
          l \<leftarrow> r;
          Some (set_word l (pte_copy_bits flags (get_word k l)) k) }"

section \<open>Encoding of entries\<close>

lemma bit_pte_flags: "bit (pte_flags pte) n \<longleftrightarrow> n < 9 \<and> bit pte n"
proof -
  have "(push_bit 9 1 - 1 :: u64) = mask 9" by (simp add: mask_eq_exp_minus_1 push_bit_eq_mult)
  then have "pte_flags pte = ucast (take_bit 9 pte)" by (simp only: pte_flags_def take_bit_eq_mask)
  then show ?thesis by (auto simp: bit_simps)
qed

lemma bit_pte_ppn: "bit (pte_ppn pte) n \<longleftrightarrow> n < 44 \<and> bit pte (10 + n)"
proof -
  have "(push_bit 44 1 - 1 :: u64) = mask 44" by (simp add: mask_eq_exp_minus_1 push_bit_eq_mult)
  then have "pte_ppn pte = take_bit 44 (drop_bit 10 pte)" by (simp only: pte_ppn_def take_bit_eq_mask)
  then show ?thesis by (auto simp: bit_simps)
qed

lemma bit_pte_new: "bit (pte_new ppn flags) n \<longleftrightarrow> (10 \<le> n \<and> n < 64 \<and> bit ppn (n - 10)) \<or> bit flags n"
proof -
  have "bit flags n \<Longrightarrow> n < 64" using bit_imp_le_length [of flags n] by simp
  then show ?thesis by (auto simp: pte_new_def bit_simps)
qed

definition pte_flags_ok :: "pte_flags \<Rightarrow> bool" where
  "pte_flags_ok flags \<longleftrightarrow> take_bit 9 flags = flags"

lemma pte_flags_ok_bit: "pte_flags_ok flags \<Longrightarrow> bit flags n \<Longrightarrow> n < 9"
  unfolding pte_flags_ok_def by (metis bit_take_bit_iff)

lemma pte_is_valid_bit: "pte_is_valid pte \<longleftrightarrow> bit pte 0"
  by (simp add: pte_is_valid_def pte_flag_bits bit_pte_flags)

lemma pte_flags_new: "pte_flags_ok flags \<Longrightarrow> pte_flags (pte_new ppn flags) = flags"
  by (rule bit_word_eqI) (auto simp: bit_pte_flags bit_pte_new dest: pte_flags_ok_bit)

lemma pte_ppn_new:
  assumes "unat ppn < 2 ^ 44" "pte_flags_ok flags"
  shows "pte_ppn (pte_new ppn flags) = ppn"
proof (rule bit_word_eqI)
  fix n assume "n < LENGTH(64)"
  have "\<not> bit flags (10 + n)" using pte_flags_ok_bit [OF assms(2), of "10 + n"] by auto
  moreover have "bit ppn n \<Longrightarrow> n < 44" using unat_less_bit [OF assms(1)] by (meson not_less)
  ultimately show "bit (pte_ppn (pte_new ppn flags)) n \<longleftrightarrow> bit ppn n"
    by (auto simp: bit_pte_ppn bit_pte_new)
qed

lemma pte_flags_ok_V: "pte_flags_ok PTE_V"
  by (simp add: pte_flags_ok_def PTE_V_def)

lemma pte_flags_ok_or: "pte_flags_ok f \<Longrightarrow> pte_flags_ok g \<Longrightarrow> pte_flags_ok (f OR g)"
  by (simp add: pte_flags_ok_def)

lemma pte_valid_new: "bit flags 0 \<Longrightarrow> pte_is_valid (pte_new ppn flags)"
  by (simp add: pte_is_valid_bit bit_pte_new)

lemma pte_new_V: "frame_ppn f \<Longrightarrow> pte_is_valid (pte_new f PTE_V) \<and> pte_ppn (pte_new f PTE_V) = f"
  using pte_ppn_new [OF _ pte_flags_ok_V, of f] pte_valid_new [of PTE_V f]
  by (simp add: frame_ppn_def PTE_V_def)

lemma pte_valid_zero [simp]: "\<not> pte_is_valid 0"
  by (simp add: pte_is_valid_bit)

lemma bit_pte_copy_bits:
  "bit (pte_copy_bits flags pte) n \<longleftrightarrow> (if 1 \<le> n \<and> n \<le> 4 then bit flags n else bit pte n)"
proof -
  have upt: "[1..<5] = [1, 2, 3, 4 :: nat]" by (simp add: upt_rec)
  have set_one: "bit (if b then w OR push_bit i 1 else w AND NOT (push_bit i 1)) n \<longleftrightarrow>
      (if n = i then b else bit w n)" if "i < 64" for b i and w :: u64
    using that by (auto simp: bit_simps dest: bit_imp_le_length)
  show ?thesis unfolding pte_copy_bits_def upt by (auto simp: set_one)
qed

section \<open>The tree of tables\<close>

text \<open>The page reached from \<open>r\<close> through valid entries at the given indices.\<close>

fun tbl :: "'z kmem_scheme \<Rightarrow> usize \<Rightarrow> page_idx list \<Rightarrow> usize option" where
  "tbl k r [] = Some r"
| "tbl k r (i # is) = (if pte_is_valid (phys k r i) then tbl k (pte_ppn (phys k r i)) is else None)"

definition pt_root :: "page_table \<Rightarrow> usize" where
  "pt_root pt = drop_bit 12 (root_paddr pt)"

text \<open>
  A table is well-formed when its tables are frames in use and every one of them is reached
  by one path only.
\<close>

definition pt_wf :: "'z kmem_scheme \<Rightarrow> page_table \<Rightarrow> bool" where
  "pt_wf k pt \<longleftrightarrow>
     root_paddr pt = ppn_to_phys (pt_root pt) \<and>
     (\<forall>path p. length path \<le> 2 \<longrightarrow> tbl k (pt_root pt) path = Some p \<longrightarrow>
        frame_ppn p \<and> p \<notin> free_frames k) \<and>
     (\<forall>path path' p. length path \<le> 2 \<longrightarrow> length path' \<le> 2 \<longrightarrow>
        tbl k (pt_root pt) path = Some p \<longrightarrow> tbl k (pt_root pt) path' = Some p \<longrightarrow> path = path') \<and>
     distinct (frames pt) \<and> (\<forall>f \<in> set (frames pt). frame_ppn f \<and> f \<notin> free_frames k)"

definition pt_tables :: "'z kmem_scheme \<Rightarrow> page_table \<Rightarrow> usize set" where
  "pt_tables k pt = {p. \<exists>path. length path \<le> 2 \<and> tbl k (pt_root pt) path = Some p}"

text \<open>The indices of a page, the location of its entry, and the entry.\<close>

definition va_path :: "usize \<Rightarrow> page_idx list" where
  "va_path va = [ucast (drop_bit 30 va), ucast (drop_bit 21 va), ucast (drop_bit 12 va)]"

definition leaf_loc :: "'z kmem_scheme \<Rightarrow> page_table \<Rightarrow> usize \<Rightarrow> pte_loc option" where
  "leaf_loc k pt va = map_option (\<lambda>p. (p, va_path va ! 2)) (tbl k (pt_root pt) (take 2 (va_path va)))"

definition pt_view :: "'z kmem_scheme \<Rightarrow> page_table \<Rightarrow> usize \<Rightarrow> u64 option" where
  "pt_view k pt vpn = (case leaf_loc k pt (push_bit 12 vpn) of
     None \<Rightarrow> None
   | Some l \<Rightarrow> if pte_is_valid (get_word k l) then Some (get_word k l) else None)"

definition vpn_ok :: "usize \<Rightarrow> bool" where
  "vpn_ok vpn \<longleftrightarrow> user_va (push_bit 12 vpn) \<and> drop_bit 12 (push_bit 12 vpn) = vpn"

lemma tbl_snoc:
  "tbl k r (path @ [i]) = Option.bind (tbl k r path)
     (\<lambda>q. if pte_is_valid (phys k q i) then Some (pte_ppn (phys k q i)) else None)"
  by (induction path arbitrary: r) simp_all

lemma get_set_word [simp]:
  "phys (set_word l v k) p i = (if (p, i) = l then v else phys k p i)"
  "get_word (set_word l v k) l' = (if l' = l then v else get_word k l')"
  "free_frames (set_word l v k) = free_frames k"
  "falloc (set_word l v k) = falloc k"
  "kmem.more (set_word l v k) = kmem.more k"
  by (cases l; auto simp: set_word_def get_word_def free_frames_def)+

lemma frames_wf_set_word [simp]: "frames_wf (set_word l v k) = frames_wf k"
  by (simp add: frames_wf_def)

lemma phys_set_word_other: "p \<noteq> fst l \<Longrightarrow> phys (set_word l v k) p = phys k p"
  by (simp add: set_word_def)

lemma phys_set_word_outside: "fst l \<in> T \<Longrightarrow> x \<notin> T \<Longrightarrow> phys (set_word l v k) x = phys k x"
  by (rule phys_set_word_other) auto

lemma ucast_take_9: "(ucast (take_bit 9 v :: usize) :: page_idx) = ucast v"
  by (rule bit_word_eqI) (auto simp: bit_simps)

lemma find_pte_path: "user_va va \<Longrightarrow> find_pte k pt va = find_pte_loop k (root_paddr pt) (va_path va)"
  by (simp add: find_pte_def pte_vpn_eq va_path_def ucast_take_9 del: find_pte_loop.simps)

lemma va_path_inj:
  assumes "user_va v" "user_va w"
  shows "va_path v = va_path w \<longleftrightarrow> drop_bit 12 v = drop_bit 12 w"
proof -
  have "(ucast (a :: usize) :: page_idx) = ucast b \<longleftrightarrow> take_bit 9 a = take_bit 9 b" for a b
  proof -
    have "(ucast (ucast a :: page_idx) :: usize) = take_bit 9 a" for a
      by (rule bit_word_eqI) (auto simp: bit_simps)
    then show ?thesis by (metis ucast_take_9)
  qed
  then show ?thesis unfolding va_path_def list.inject indices_page_iff [OF assms, symmetric] by blast
qed

lemma pt_wfD:
  assumes "pt_wf k pt"
  shows "root_paddr pt = ppn_to_phys (pt_root pt)"
    and "\<And>path p. length path \<le> 2 \<Longrightarrow> tbl k (pt_root pt) path = Some p \<Longrightarrow> frame_ppn p"
    and "\<And>path p. length path \<le> 2 \<Longrightarrow> tbl k (pt_root pt) path = Some p \<Longrightarrow> p \<notin> free_frames k"
    and "\<And>path path' p. length path \<le> 2 \<Longrightarrow> length path' \<le> 2 \<Longrightarrow>
        tbl k (pt_root pt) path = Some p \<Longrightarrow> tbl k (pt_root pt) path' = Some p \<Longrightarrow> path = path'"
    and "distinct (frames pt)"
    and "\<And>f. f \<in> set (frames pt) \<Longrightarrow> frame_ppn f" "\<And>f. f \<in> set (frames pt) \<Longrightarrow> f \<notin> free_frames k"
  using assms unfolding pt_wf_def by blast+

text \<open>A walk follows the tables.\<close>

lemma find_pte_loop_path:
  assumes "frame_ppn r"
    and "\<And>ps p. length ps < length is \<Longrightarrow> tbl k r ps = Some p \<Longrightarrow> frame_ppn p"
    and "is \<noteq> []"
  shows "find_pte_loop k (ppn_to_phys r) is =
    Some (case tbl k r (butlast is) of None \<Rightarrow> None
      | Some p \<Rightarrow> if pte_is_valid (phys k p (last is)) then Some (p, last is) else None)"
  using assms
proof (induction "is" arbitrary: r)
  case Nil
  then show ?case by simp
next
  case (Cons i js)
  show ?case
  proof (cases "js = [] \<or> \<not> pte_is_valid (phys k r i)")
    case True
    then show ?thesis using pte_array_ppn [OF Cons.prems(1)] by (auto simp: get_word_def)
  next
    case False
    let ?r = "pte_ppn (phys k r i)"
    have next_ok: "frame_ppn p" if "length ps < length js" "tbl k ?r ps = Some p" for ps p
      using Cons.prems(2) [of "i # ps" p] that False by simp
    have "frame_ppn ?r" using next_ok [of "[]"] False by simp
    then have "find_pte_loop k (ppn_to_phys ?r) js =
      Some (case tbl k ?r (butlast js) of None \<Rightarrow> None
        | Some p \<Rightarrow> if pte_is_valid (phys k p (last js)) then Some (p, last js) else None)"
      using Cons.IH next_ok False by blast
    moreover have ends: "last (i # js) = last js" "butlast (i # js) = i # butlast js" using False by auto
    ultimately show ?thesis
      unfolding ends using pte_array_ppn [OF Cons.prems(1)] False by (simp add: get_word_def)
  qed
qed

lemma find_pte_eq:
  assumes wf: "pt_wf k pt" and va: "user_va va"
  shows "find_pte k pt va = Some (case leaf_loc k pt va of None \<Rightarrow> None
    | Some l \<Rightarrow> if pte_is_valid (get_word k l) then Some l else None)"
proof -
  have path: "va_path va \<noteq> []" "butlast (va_path va) = take 2 (va_path va)" "last (va_path va) = va_path va ! 2"
    "length (va_path va) = 3" by (simp_all add: va_path_def)
  have root: "tbl k (pt_root pt) [] = Some (pt_root pt)" by simp
  have "find_pte k pt va = find_pte_loop k (ppn_to_phys (pt_root pt)) (va_path va)"
    by (simp only: find_pte_path [OF va] pt_wfD(1) [OF wf, symmetric])
  also have "\<dots> = Some (case tbl k (pt_root pt) (butlast (va_path va)) of None \<Rightarrow> None
      | Some p \<Rightarrow> if pte_is_valid (phys k p (last (va_path va))) then Some (p, last (va_path va)) else None)"
  proof (rule find_pte_loop_path)
    show "frame_ppn (pt_root pt)" using pt_wfD(2) [OF wf _ root] by simp
    show "frame_ppn p" if "length ps < length (va_path va)" "tbl k (pt_root pt) ps = Some p" for ps p
      using pt_wfD(2) [OF wf _ that(2)] that(1) path(4) by simp
  qed (rule path(1))
  finally show ?thesis unfolding path leaf_loc_def get_word_def
    by (cases "tbl k (pt_root pt) (take 2 (va_path va))") simp_all
qed

text \<open>Linking a zeroed frame at a free entry of an inner table adds one path and no mapping.\<close>

lemma tbl_link:
  assumes wf: "pt_wf k pt" and fwf: "frames_wf k" and al: "alloc_frame k = Some (k1, Some f)"
    and p: "tbl k (pt_root pt) ps = Some p" "length ps < 2" and inv: "\<not> pte_is_valid (phys k p i)"
    and len: "length path \<le> 2"
  shows "tbl (set_word (p, i) (pte_new f PTE_V) k1) (pt_root pt) path =
    (if path = ps @ [i] then Some f else tbl k (pt_root pt) path)"
  using len
proof (induction path rule: rev_induct)
  case Nil
  then show ?case by simp
next
  case (snoc j xs)
  note a = fr.alloc_SomeD [OF fwf al]
  let ?k = "set_word (p, i) (pte_new f PTE_V) k1" and ?r = "pt_root pt"
  have pf: "p \<noteq> f" using pt_wfD(3) [OF wf _ p(1)] p(2) a(2) by auto
  have none: "tbl k ?r (ps @ [i]) = None" using p(1) inv by (simp add: tbl_snoc)
  have IH: "tbl ?k ?r xs = (if xs = ps @ [i] then Some f else tbl k ?r xs)" using snoc by simp
  show ?case
  proof (cases "xs = ps @ [i]")
    case True
    then have "tbl k ?r (xs @ [j]) = None" using none tbl_snoc [of k ?r xs j] by simp
    moreover have "phys ?k f j = 0" using pf a(5) by simp
    then have "tbl ?k ?r (xs @ [j]) = None" using IH True tbl_snoc [of ?k ?r xs j] by simp
    ultimately show ?thesis using True by simp
  next
    case False
    show ?thesis
    proof (cases "tbl k ?r xs")
      case None
      moreover have "xs \<noteq> ps" using None p(1) by auto
      ultimately show ?thesis using IH False by (simp add: tbl_snoc)
    next
      case (Some q)
      have qf: "q \<noteq> f" using pt_wfD(3) [OF wf _ Some] snoc.prems a(2) by auto
      have qp: "q = p \<longleftrightarrow> xs = ps"
        using pt_wfD(4) [OF wf, of xs ps p] snoc.prems p Some by auto
      have ph: "phys ?k q j = (if xs = ps \<and> j = i then pte_new f PTE_V else phys k q j)"
        using qp qf a(5) by simp
      have "tbl ?k ?r (xs @ [j]) = (if pte_is_valid (phys ?k q j) then Some (pte_ppn (phys ?k q j)) else None)"
        using Some False IH tbl_snoc [of ?k ?r xs j] by simp
      then show ?thesis unfolding ph
        using Some pte_new_V [OF a(3)] tbl_snoc [of k ?r xs j] by simp
    qed
  qed
qed

lemma root_in_use: "pt_wf k pt \<Longrightarrow> frame_ppn (pt_root pt) \<and> pt_root pt \<notin> free_frames k"
  using pt_wfD(2,3) [of k pt "[]"] by simp

lemma link_step:
  assumes wf: "pt_wf k pt" and fwf: "frames_wf k" and al: "alloc_frame k = Some (k1, Some f)"
    and p: "tbl k (pt_root pt) ps = Some p" "length ps < 2" and inv: "\<not> pte_is_valid (phys k p i)"
  defines "k' \<equiv> set_word (p, i) (pte_new f PTE_V) k1"
  shows "pt_wf k' (pt\<lparr>frames := frames pt @ [f]\<rparr>)" "frames_wf k'"
    "pt_view k' pt = pt_view k pt" "free_frames k' = free_frames k - {f}"
    "\<And>q. q \<notin> free_frames k \<Longrightarrow> q \<notin> pt_tables k pt \<Longrightarrow> phys k' q = phys k q"
proof -
  note a = fr.alloc_SomeD [OF fwf al]
  note t = tbl_link [OF wf fwf al p inv, folded k'_def]
  let ?r = "pt_root pt"
  have root [simp]: "pt_root (pt\<lparr>frames := x\<rparr>) = ?r" for x by (simp add: pt_root_def)
  show free: "free_frames k' = free_frames k - {f}" using a(4) by (simp add: k'_def)
  show "frames_wf k'" using a(1) by (simp add: k'_def)
  have fresh: "tbl k ?r path \<noteq> Some f" if "length path \<le> 2" for path
    using pt_wfD(3) [OF wf that] a(2) by blast
  show "pt_wf k' (pt\<lparr>frames := frames pt @ [f]\<rparr>)"
    unfolding pt_wf_def root
  proof (intro conjI allI impI)
    fix path path' :: "page_idx list" and q assume len: "length path \<le> 2" "length path' \<le> 2"
    assume q: "tbl k' ?r path = Some q"
    show "frame_ppn q" "q \<notin> free_frames k'"
      using q t [OF len(1)] pt_wfD(2,3) [OF wf len(1), of q] a(3) free by (auto split: if_splits)
    show "path = path'" if "tbl k' ?r path' = Some q"
      using that q t [OF len(1)] t [OF len(2)] pt_wfD(4) [OF wf len] fresh [OF len(1)] fresh [OF len(2)]
      by (auto split: if_splits)
  next
    show "distinct (frames (pt\<lparr>frames := frames pt @ [f]\<rparr>))"
      using pt_wfD(5,7) [OF wf] a(2) by auto
    show "\<forall>g \<in> set (frames (pt\<lparr>frames := frames pt @ [f]\<rparr>)). frame_ppn g \<and> g \<notin> free_frames k'"
      using pt_wfD(6,7) [OF wf] a(3) free by auto
  qed (use pt_wfD(1) [OF wf] in simp)
  show "pt_view k' pt = pt_view k pt"
  proof
    fix vpn
    let ?path = "va_path (push_bit 12 vpn)"
    have len: "length (take 2 ?path) = 2" by (simp add: va_path_def)
    have ne: "take 2 ?path \<noteq> ps" using p(2) len by auto
    show "pt_view k' pt vpn = pt_view k pt vpn"
    proof (cases "take 2 ?path = ps @ [i]")
      case True
      then have "tbl k ?r (take 2 ?path) = None" using p(1) inv by (simp add: tbl_snoc)
      moreover have "p \<noteq> f" using fresh [of ps] p by auto
      then have "phys k' f = (\<lambda>_. 0)" using a(5) by (simp add: k'_def phys_set_word_other)
      ultimately show ?thesis using True t [of "ps @ [i]"] p(2) by (simp add: pt_view_def leaf_loc_def get_word_def)
    next
      case False
      then have same: "tbl k' ?r (take 2 ?path) = tbl k ?r (take 2 ?path)" using t len by simp
      show ?thesis
      proof (cases "tbl k ?r (take 2 ?path)")
        case None
        then show ?thesis using same by (simp add: pt_view_def leaf_loc_def)
      next
        case (Some q)
        have "q \<noteq> p" using pt_wfD(4) [OF wf, of "take 2 ?path" ps] Some p len ne by auto
        moreover have "q \<noteq> f" using fresh [of "take 2 ?path"] Some len by auto
        ultimately have "phys k' q = phys k q" using a(5) by (simp add: k'_def phys_set_word_other)
        then show ?thesis using same Some by (simp add: pt_view_def leaf_loc_def get_word_def)
      qed
    qed
  qed
  fix q assume "q \<notin> free_frames k" "q \<notin> pt_tables k pt"
  then have "q \<noteq> p" "q \<noteq> f" using p a(2) by (auto simp: pt_tables_def)
  then show "phys k' q = phys k q" using a(5) by (simp add: k'_def phys_set_word_other)
qed

text \<open>Writing an entry of a last-level table changes one mapping and no path.\<close>

lemma leaf_write:
  assumes wf: "pt_wf k pt" and l: "leaf_loc k pt va = Some l"
  shows "pt_wf (set_word l v k) pt"
    "user_va va \<Longrightarrow> vpn_ok vpn \<Longrightarrow> pt_view (set_word l v k) pt vpn =
      (if vpn = drop_bit 12 va then (if pte_is_valid v then Some v else None) else pt_view k pt vpn)"
    "fst l \<in> pt_tables k pt"
    "length path \<le> 2 \<Longrightarrow> tbl (set_word l v k) (pt_root pt) path = tbl k (pt_root pt) path"
proof -
  let ?r = "pt_root pt"
  from l obtain p where p: "tbl k ?r (take 2 (va_path va)) = Some p" "l = (p, va_path va ! 2)"
    by (auto simp: leaf_loc_def)
  have len2: "length (take 2 (va_path w)) = 2" for w by (simp add: va_path_def)
  have t: "tbl (set_word l v k) ?r path = tbl k ?r path" if "length path \<le> 2" for path
    using that
  proof (induction path rule: rev_induct)
    case (snoc j xs)
    have "q \<noteq> p" if "tbl k ?r xs = Some q" for q
      using pt_wfD(4) [OF wf, of xs "take 2 (va_path va)"] that p(1) snoc.prems len2 [of va] by auto
    then show ?case using snoc by (simp add: tbl_snoc p(2) cong: bind_option_cong_code) (cases "tbl k ?r xs"; simp add: phys_set_word_other)
  qed simp
  show "length path \<le> 2 \<Longrightarrow> tbl (set_word l v k) ?r path = tbl k ?r path" by (rule t)
  show "fst l \<in> pt_tables k pt" using p len2 [of va] unfolding pt_tables_def
    by (auto intro!: exI [of _ "take 2 (va_path va)"])
  show "pt_wf (set_word l v k) pt" using wf unfolding pt_wf_def by (simp add: t)
  assume va: "user_va va" and vpn: "vpn_ok vpn"
  let ?w = "push_bit 12 vpn"
  have same: "vpn = drop_bit 12 va \<longleftrightarrow> va_path ?w = va_path va"
    using va_path_inj [of ?w va] va vpn by (simp add: vpn_ok_def)
  have split: "va_path w = take 2 (va_path w) @ [va_path w ! 2]" for w by (simp add: va_path_def)
  have at: "(q, va_path ?w ! 2) = l \<longleftrightarrow> vpn = drop_bit 12 va" if "tbl k ?r (take 2 (va_path ?w)) = Some q" for q
  proof
    assume "(q, va_path ?w ! 2) = l"
    then have "take 2 (va_path ?w) = take 2 (va_path va)" "va_path ?w ! 2 = va_path va ! 2"
      using pt_wfD(4) [OF wf, of "take 2 (va_path ?w)" "take 2 (va_path va)"] that p len2 by auto
    then show "vpn = drop_bit 12 va" using same split by metis
  next
    assume "vpn = drop_bit 12 va"
    then show "(q, va_path ?w ! 2) = l" using same that p by simp
  qed
  have tt: "tbl (set_word l v k) ?r (take 2 (va_path ?w)) = tbl k ?r (take 2 (va_path ?w))"
    using t len2 by simp
  show "pt_view (set_word l v k) pt vpn =
      (if vpn = drop_bit 12 va then (if pte_is_valid v then Some v else None) else pt_view k pt vpn)"
  proof (cases "tbl k ?r (take 2 (va_path ?w))")
    case None
    then have "vpn \<noteq> drop_bit 12 va" using p(1) same by auto
    with None show ?thesis by (simp add: pt_view_def leaf_loc_def tt)
  next
    case (Some q)
    let ?l = "(q, va_path ?w ! 2)"
    have views: "pt_view (set_word l v k) pt vpn = (if pte_is_valid (get_word (set_word l v k) ?l)
        then Some (get_word (set_word l v k) ?l) else None)"
      "pt_view k pt vpn = (if pte_is_valid (get_word k ?l) then Some (get_word k ?l) else None)"
      using Some by (simp_all add: pt_view_def leaf_loc_def tt)
    have "get_word (set_word l v k) ?l = (if vpn = drop_bit 12 va then v else get_word k ?l)"
      by (simp only: get_set_word at [OF Some])
    then show ?thesis unfolding views by (simp split del: if_split) auto
  qed
qed

text \<open>\<open>find_pte_create\<close> returns the location of the page's entry, linking tables as needed.\<close>

lemma create_loop_path:
  assumes "pt_wf k pt" "frames_wf k" "tbl k (pt_root pt) ps = Some p"
    and "length ps + length is = 3" "is \<noteq> []" and "length is - 1 \<le> card (free_frames k)"
  shows "\<exists>k' fs q. find_pte_create_loop k (frames pt) (ppn_to_phys p) is = Some (k', fs, (q, last is)) \<and>
    pt_wf k' (pt\<lparr>frames := fs\<rparr>) \<and> frames_wf k' \<and> pt_view k' pt = pt_view k pt \<and>
    tbl k' (pt_root pt) (ps @ butlast is) = Some q \<and> free_frames k' \<subseteq> free_frames k \<and>
    card (free_frames k) \<le> card (free_frames k') + (length is - 1) \<and>
    set fs \<subseteq> set (frames pt) \<union> free_frames k \<and>
    pt_tables k' pt \<subseteq> pt_tables k pt \<union> free_frames k \<and> kmem.more k' = kmem.more k \<and>
    (\<forall>x. x \<notin> free_frames k \<longrightarrow> x \<notin> pt_tables k pt \<longrightarrow> phys k' x = phys k x)"
  using assms
proof (induction "is" arbitrary: k pt ps p)
  case Nil
  then show ?case by simp
next
  case (Cons i js)
  note prems = Cons.prems
  have pa: "pte_array (ppn_to_phys p) = Some p"
    using pte_array_ppn pt_wfD(2) [OF prems(1) _ prems(3)] prems(4) by simp
  show ?case
  proof (cases "js = []")
    case True
    then show ?thesis using prems pa by (intro exI [of _ k] exI [of _ "frames pt"] exI [of _ p]) auto
  next
    case False
    then have len: "length ps < 2" "length (ps @ [i]) + length js = 3" using prems(4) by (cases js; auto)+
    have last: "last (i # js) = last js" "ps @ butlast (i # js) = (ps @ [i]) @ butlast js" using False by auto
    show ?thesis
    proof (cases "pte_is_valid (phys k p i)")
      case True
      have "tbl k (pt_root pt) (ps @ [i]) = Some (pte_ppn (phys k p i))"
        using prems(3) True by (simp add: tbl_snoc)
      moreover have "length js - 1 \<le> card (free_frames k)" using prems(6) by simp
      ultimately obtain k' fs q where
        run: "find_pte_create_loop k (frames pt) (ppn_to_phys (pte_ppn (phys k p i))) js = Some (k', fs, (q, last js))"
        and post: "pt_wf k' (pt\<lparr>frames := fs\<rparr>)" "frames_wf k'" "pt_view k' pt = pt_view k pt"
          "tbl k' (pt_root pt) ((ps @ [i]) @ butlast js) = Some q" "free_frames k' \<subseteq> free_frames k"
          "card (free_frames k) \<le> card (free_frames k') + (length js - 1)"
          "set fs \<subseteq> set (frames pt) \<union> free_frames k" "pt_tables k' pt \<subseteq> pt_tables k pt \<union> free_frames k"
          "kmem.more k' = kmem.more k" "\<forall>x. x \<notin> free_frames k \<longrightarrow> x \<notin> pt_tables k pt \<longrightarrow> phys k' x = phys k x"
        using Cons.IH [OF prems(1,2) _ len(2) False] by blast
      have "find_pte_create_loop k (frames pt) (ppn_to_phys p) (i # js) = Some (k', fs, (q, last js))"
        using run pa False True by (simp add: get_word_def)
      moreover have "card (free_frames k) \<le> card (free_frames k') + (length (i # js) - 1)" using post(6) by simp
      ultimately show ?thesis unfolding last using post by blast
    next
      case inv: False
      have "free_frames k \<noteq> {}" using prems(6) False by (cases js) auto
      then obtain k1 f where al: "alloc_frame k = Some (k1, Some f)" using fr.alloc_some [OF prems(2)] by blast
      note a = fr.alloc_SomeD [OF prems(2) al]
      define k2 where "k2 = set_word (p, i) (pte_new f PTE_V) k1"
      define pt2 where "pt2 = pt\<lparr>frames := frames pt @ [f]\<rparr>"
      note ls = link_step [OF prems(1,2) al prems(3) len(1) inv, folded k2_def pt2_def]
      have root: "pt_root pt2 = pt_root pt" by (simp add: pt_root_def pt2_def)
      have f: "tbl k2 (pt_root pt2) (ps @ [i]) = Some f"
        using tbl_link [OF prems(1,2) al prems(3) len(1) inv, of "ps @ [i]"] len(1) by (simp add: k2_def root)
      have "length js - 1 \<le> card (free_frames k2)"
        using prems(6) a(2) ls(4) by (simp add: card_Diff_singleton)
      from Cons.IH [OF ls(1,2) f len(2) False this] obtain k' fs q where
        run: "find_pte_create_loop k2 (frames pt2) (ppn_to_phys f) js = Some (k', fs, (q, last js))"
        and post: "pt_wf k' (pt2\<lparr>frames := fs\<rparr>)" "frames_wf k'" "pt_view k' pt2 = pt_view k2 pt2"
          "tbl k' (pt_root pt2) ((ps @ [i]) @ butlast js) = Some q" "free_frames k' \<subseteq> free_frames k2"
          "set fs \<subseteq> set (frames pt2) \<union> free_frames k2" "pt_tables k' pt2 \<subseteq> pt_tables k2 pt2 \<union> free_frames k2"
          "\<forall>x. x \<notin> free_frames k2 \<longrightarrow> x \<notin> pt_tables k2 pt2 \<longrightarrow> phys k' x = phys k2 x"
          "kmem.more k' = kmem.more k2" "card (free_frames k2) \<le> card (free_frames k') + (length js - 1)"
        by blast
      have "card (free_frames k) = Suc (card (free_frames k2))"
        using ls(4) a(2) by (metis card_Suc_Diff1 finite)
      then have room: "card (free_frames k) \<le> card (free_frames k') + (length (i # js) - 1)"
        using post(10) False by (cases js) auto
      have more: "kmem.more k' = kmem.more k"
        using post(9) alloc_frame_more [OF prems(2) al] by (simp add: k2_def)
      have view: "pt_view k' pt2 = pt_view k' pt" "pt_view k2 pt2 = pt_view k2 pt"
        by (simp_all add: pt_view_def leaf_loc_def root fun_eq_iff)
      have tabs: "pt_tables k2 pt2 \<subseteq> insert f (pt_tables k pt)"
        using tbl_link [OF prems(1,2) al prems(3) len(1) inv]
        by (auto simp: pt_tables_def k2_def root split: if_splits)
      have "find_pte_create_loop k (frames pt) (ppn_to_phys p) (i # js) = Some (k', fs, (q, last js))"
        using run pa False inv al pte_new_V [OF a(3)] by (simp add: get_word_def k2_def pt2_def)
      moreover have "\<forall>x. x \<notin> free_frames k \<longrightarrow> x \<notin> pt_tables k pt \<longrightarrow> phys k' x = phys k x"
        using post(8) tabs ls(4,5) a(2) by (metis Diff_iff insertE subsetD)
      moreover have "pt_tables k' pt = pt_tables k' pt2" by (simp add: pt_tables_def root)
      then have "pt_tables k' pt \<subseteq> pt_tables k pt \<union> free_frames k"
        using post(7) tabs a(2) ls(4) by blast
      moreover have "set fs \<subseteq> set (frames pt) \<union> free_frames k"
        using post(6) a(2) ls(4) by (auto simp: pt2_def)
      ultimately show ?thesis
        unfolding last using post ls(3,4) view root more room by (simp add: pt2_def) blast
    qed
  qed
qed

lemma vpn_to_virt_ok: "vpn_ok vpn \<Longrightarrow> vpn_to_virt vpn = Some (push_bit 12 vpn)"
  by (simp add: vpn_ok_def vpn_to_virt_def check_user_va_def PAGE_SIZE_BITS_def)

lemma vpn_okD: "vpn_ok vpn \<Longrightarrow> user_va (push_bit 12 vpn)" "vpn_ok vpn \<Longrightarrow> drop_bit 12 (push_bit 12 vpn) = vpn"
  by (simp_all add: vpn_ok_def)

lemma pt_view_leaf:
  "pt_view k pt vpn = Some e \<longleftrightarrow>
     (\<exists>l. leaf_loc k pt (push_bit 12 vpn) = Some l \<and> get_word k l = e \<and> pte_is_valid e)"
  by (auto simp: pt_view_def split: option.splits)

lemma pt_view_None:
  "pt_view k pt vpn = None \<longleftrightarrow> (\<forall>l. leaf_loc k pt (push_bit 12 vpn) = Some l \<longrightarrow> \<not> pte_is_valid (get_word k l))"
  by (auto simp: pt_view_def split: option.splits)

lemma find_pte_view:
  assumes wf: "pt_wf k pt" and vpn: "vpn_ok vpn"
  shows "find_pte k pt (push_bit 12 vpn) = Some (case pt_view k pt vpn of None \<Rightarrow> None
    | Some _ \<Rightarrow> leaf_loc k pt (push_bit 12 vpn))"
  unfolding find_pte_eq [OF wf vpn_okD(1) [OF vpn]]
  by (auto simp: pt_view_def split: option.splits)

text \<open>The page numbers whose entries agree in two states.\<close>

lemma map_one_spec:
  assumes wf: "pt_wf k pt" "frames_wf k" and vpn: "vpn_ok vpn" and free: "2 \<le> card (free_frames k)"
    and none: "pt_view k pt vpn = None"
  shows "\<exists>k' pt'. map_one vpn ppn flags k pt = Some (k', pt') \<and> pt_wf k' pt' \<and> frames_wf k' \<and>
    (\<forall>v. vpn_ok v \<longrightarrow> pt_view k' pt' v =
       (if v = vpn then Some (pte_new ppn (flags OR PTE_A OR PTE_D OR PTE_V)) else pt_view k pt v)) \<and>
    free_frames k' \<subseteq> free_frames k \<and> root_paddr pt' = root_paddr pt \<and>
    set (frames pt') \<subseteq> set (frames pt) \<union> free_frames k \<and> pt_tables k' pt' \<subseteq> pt_tables k pt \<union> free_frames k \<and>
    kmem.more k' = kmem.more k \<and> card (free_frames k) \<le> card (free_frames k') + 2 \<and>
    (\<forall>x. x \<notin> free_frames k \<longrightarrow> x \<notin> pt_tables k pt \<longrightarrow> phys k' x = phys k x)"
proof -
  let ?va = "push_bit 12 vpn" and ?e = "pte_new ppn (flags OR PTE_A OR PTE_D OR PTE_V)"
  have len: "length (va_path ?va) = 3" "va_path ?va \<noteq> []" "last (va_path ?va) = va_path ?va ! 2"
    "butlast (va_path ?va) = take 2 (va_path ?va)" by (simp_all add: va_path_def)
  have root: "tbl k (pt_root pt) [] = Some (pt_root pt)" by simp
  from create_loop_path [OF wf root _ len(2)] len(1) free obtain k1 fs q where
    run: "find_pte_create_loop k (frames pt) (root_paddr pt) (va_path ?va) = Some (k1, fs, (q, va_path ?va ! 2))"
    and wf1: "pt_wf k1 (pt\<lparr>frames := fs\<rparr>)" "frames_wf k1" and view: "pt_view k1 pt = pt_view k pt"
    and q: "tbl k1 (pt_root pt) (take 2 (va_path ?va)) = Some q"
    and rest: "free_frames k1 \<subseteq> free_frames k" "set fs \<subseteq> set (frames pt) \<union> free_frames k"
      "\<forall>x. x \<notin> free_frames k \<longrightarrow> x \<notin> pt_tables k pt \<longrightarrow> phys k1 x = phys k x"
      "pt_tables k1 pt \<subseteq> pt_tables k pt \<union> free_frames k" "kmem.more k1 = kmem.more k"
      "card (free_frames k) \<le> card (free_frames k1) + 2"
    unfolding pt_wfD(1) [OF wf(1), symmetric] len by force
  let ?pt = "pt\<lparr>frames := fs\<rparr>" and ?l = "(q, va_path ?va ! 2)"
  have upd: "leaf_loc k1 ?pt = leaf_loc k1 pt" "pt_view k1 ?pt = pt_view k1 pt"
    by (simp_all add: leaf_loc_def pt_view_def pt_root_def fun_eq_iff)
  have l: "leaf_loc k1 ?pt ?va = Some ?l" using q unfolding upd by (simp add: leaf_loc_def)
  have "\<not> pte_is_valid (get_word k1 ?l)" using none view l upd pt_view_None [of k1 pt vpn] by simp
  moreover have "find_pte_create k pt ?va = Some (k1, ?pt, ?l)"
    using run vpn_okD(1) [OF vpn]
    by (simp add: find_pte_create_def pte_vpn_eq va_path_def ucast_take_9 del: find_pte_create_loop.simps)
  ultimately have "map_one vpn ppn flags k pt = Some (set_word ?l ?e k1, ?pt)"
    by (simp add: map_one_def vpn_to_virt_ok [OF vpn])
  moreover have "pte_is_valid ?e" by (simp add: pte_valid_new bit_simps PTE_V_def)
  then have "pt_view (set_word ?l ?e k1) ?pt v = (if v = vpn then Some ?e else pt_view k pt v)" if "vpn_ok v" for v
    using leaf_write(2) [OF wf1(1) l vpn_okD(1) [OF vpn] that] vpn_okD(2) [OF vpn] view upd by simp
  moreover have "phys (set_word ?l ?e k1) x = phys k x" if "x \<notin> free_frames k" "x \<notin> pt_tables k pt" for x
  proof -
    have "q \<in> pt_tables k1 pt" using q len(1) by (auto simp: pt_tables_def intro!: exI [of _ "take 2 (va_path ?va)"])
    then have "q \<noteq> x" using rest(4) that by blast
    then show ?thesis using rest(3) that by (simp add: phys_set_word_other)
  qed
  moreover have "pt_tables (set_word ?l ?e k1) ?pt = pt_tables k1 pt"
    using leaf_write(4) [OF wf1(1) l] by (auto simp: pt_tables_def pt_root_def)
  ultimately show ?thesis using leaf_write(1) [OF wf1(1) l] wf1(2) rest by simp
qed

lemma unmap_spec:
  assumes wf: "pt_wf k pt" "frames_wf k" and vpn: "vpn_ok vpn"
  shows "\<exists>k'. unmap vpn k pt = Some k' \<and> pt_wf k' pt \<and> frames_wf k' \<and>
    (\<forall>v. vpn_ok v \<longrightarrow> pt_view k' pt v = (if v = vpn then None else pt_view k pt v)) \<and>
    free_frames k' = free_frames k \<and> pt_tables k' pt = pt_tables k pt \<and> kmem.more k' = kmem.more k \<and>
    (\<forall>x. x \<notin> pt_tables k pt \<longrightarrow> phys k' x = phys k x)"
proof (cases "pt_view k pt vpn")
  case None
  then show ?thesis using find_pte_view [OF wf(1) vpn] wf by (auto simp: unmap_def vpn_to_virt_ok [OF vpn])
next
  case (Some e)
  then obtain l where l: "leaf_loc k pt (push_bit 12 vpn) = Some l" "get_word k l = e" "pte_is_valid e"
    by (auto simp: pt_view_leaf)
  note w = leaf_write(1,2,4) [OF wf(1) l(1), where v = "pte_empty"] leaf_write(3) [OF wf(1) l(1)]
  have "unmap vpn k pt = Some (set_word l pte_empty k)"
    using find_pte_view [OF wf(1) vpn] Some l by (simp add: unmap_def vpn_to_virt_ok [OF vpn])
  moreover have "pt_tables (set_word l pte_empty k) pt = pt_tables k pt"
    using w(3) by (auto simp: pt_tables_def)
  moreover have "pt_view (set_word l pte_empty k) pt v = (if v = vpn then None else pt_view k pt v)" if "vpn_ok v" for v
    using w(2) [OF vpn_okD(1) [OF vpn] that] vpn_okD(2) [OF vpn] by (simp add: pte_empty_def)
  ultimately show ?thesis using w(1) phys_set_word_outside [OF w(4)] wf(2) by auto
qed

lemma pte_valid_copy_bits: "pte_is_valid (pte_copy_bits flags e) = pte_is_valid e"
  by (simp add: pte_is_valid_bit bit_pte_copy_bits)

lemma modify_flags_spec:
  assumes wf: "pt_wf k pt" "frames_wf k" and vpn: "vpn_ok vpn" and e: "pt_view k pt vpn = Some e"
  shows "\<exists>k'. modify_flags vpn flags k pt = Some k' \<and> pt_wf k' pt \<and> frames_wf k' \<and>
    (\<forall>v. vpn_ok v \<longrightarrow> pt_view k' pt v = (if v = vpn then Some (pte_copy_bits flags e) else pt_view k pt v)) \<and>
    free_frames k' = free_frames k \<and> pt_tables k' pt = pt_tables k pt \<and> kmem.more k' = kmem.more k \<and>
    (\<forall>x. x \<notin> pt_tables k pt \<longrightarrow> phys k' x = phys k x)"
proof -
  from e obtain l where l: "leaf_loc k pt (push_bit 12 vpn) = Some l" "get_word k l = e" "pte_is_valid e"
    by (auto simp: pt_view_leaf)
  let ?v = "pte_copy_bits flags e"
  note w = leaf_write(1,2,4) [OF wf(1) l(1), where v = "?v"] leaf_write(3) [OF wf(1) l(1)]
  have "modify_flags vpn flags k pt = Some (set_word l ?v k)"
    using find_pte_view [OF wf(1) vpn] e l
    by (simp add: modify_flags_def vpn_to_virt_ok [OF vpn] translate_va_to_pte_def)
  moreover have "pt_tables (set_word l ?v k) pt = pt_tables k pt"
    using w(3) by (auto simp: pt_tables_def)
  moreover have "pt_view (set_word l ?v k) pt v = (if v = vpn then Some ?v else pt_view k pt v)" if "vpn_ok v" for v
    using w(2) [OF vpn_okD(1) [OF vpn] that] vpn_okD(2) [OF vpn] l(3) by (simp add: pte_valid_copy_bits)
  ultimately show ?thesis using w(1) phys_set_word_outside [OF w(4)] wf(2) by auto
qed

lemma modify_flags_unmapped:
  assumes "pt_wf k pt" "vpn_ok vpn" "pt_view k pt vpn = None"
  shows "modify_flags vpn flags k pt = None"
  using find_pte_view [OF assms(1,2)] assms(3)
  by (simp add: modify_flags_def vpn_to_virt_ok [OF assms(2)] translate_va_to_pte_def)

lemma va_path_page: "va_path (push_bit 12 (drop_bit 12 va)) = va_path va"
  unfolding va_path_def by (intro arg_cong2 [where f = Cons] refl bit_word_eqI) (auto simp: bit_simps)

lemma user_va_vpn_ok: "user_va va \<Longrightarrow> vpn_ok (drop_bit 12 va)"
  using user_va_page [of va] unfolding vpn_ok_def
  by (intro conjI bit_word_eqI) (use bit_imp_le_length [of va] in \<open>force simp: bit_simps\<close>)+

lemma translate_va_to_pa_view:
  assumes wf: "pt_wf k pt" and va: "user_va va"
  shows "translate_va_to_pa k pt va = map_option (\<lambda>e. ppn_to_phys (pte_ppn e) + take_bit 12 va)
    (pt_view k pt (drop_bit 12 va))"
proof -
  have leaf: "leaf_loc k pt (push_bit 12 (drop_bit 12 va)) = leaf_loc k pt va"
    by (simp add: leaf_loc_def va_path_page)
  show ?thesis
    using find_pte_eq [OF wf va] va
    by (auto simp: translate_va_to_pa_def translate_va_to_pte_def vaddr_offset_def check_user_va_def
        PAGE_SIZE_def and_low_12 pt_view_def leaf split: option.splits if_splits)
qed

text \<open>Changing memory outside the tables, without freeing one, changes nothing of the map.\<close>

lemma tbl_cong:
  assumes "\<And>p. p \<in> pt_tables k pt \<Longrightarrow> phys k' p = phys k p" and "length path \<le> 2"
  shows "tbl k' (pt_root pt) path = tbl k (pt_root pt) path"
  using assms(2)
proof (induction path rule: rev_induct)
  case (snoc j xs)
  show ?case
  proof (cases "tbl k (pt_root pt) xs")
    case None
    then show ?thesis using snoc by (simp add: tbl_snoc)
  next
    case (Some q)
    then have "q \<in> pt_tables k pt" using snoc.prems by (auto simp: pt_tables_def intro!: exI [of _ xs])
    then show ?thesis using Some snoc assms(1) by (simp add: tbl_snoc)
  qed
qed simp

lemma pt_cong:
  assumes "\<And>p. p \<in> pt_tables k pt \<Longrightarrow> phys k' p = phys k p"
  shows "pt_view k' pt = pt_view k pt" "pt_tables k' pt = pt_tables k pt"
    "pt_wf k pt \<Longrightarrow> free_frames k' \<inter> (pt_tables k pt \<union> set (frames pt)) = {} \<Longrightarrow> pt_wf k' pt"
proof -
  note t = tbl_cong [of k pt k', OF assms]
  show tabs: "pt_tables k' pt = pt_tables k pt" using t by (auto simp: pt_tables_def)
  show "pt_view k' pt = pt_view k pt"
  proof
    fix vpn
    let ?path = "take 2 (va_path (push_bit 12 vpn))"
    have "length ?path \<le> 2" by simp
    then have "q \<in> pt_tables k pt" if "tbl k (pt_root pt) ?path = Some q" for q
      using that unfolding pt_tables_def by blast
    then show "pt_view k' pt vpn = pt_view k pt vpn"
      using t [of ?path] assms
      by (cases "tbl k (pt_root pt) ?path") (auto simp: pt_view_def leaf_loc_def get_word_def)
  qed
  assume wf: "pt_wf k pt" and free: "free_frames k' \<inter> (pt_tables k pt \<union> set (frames pt)) = {}"
  have "p \<notin> free_frames k'" if "length path \<le> 2" "tbl k (pt_root pt) path = Some p" for path p
    using free that by (auto simp: pt_tables_def)
  moreover have "f \<notin> free_frames k'" if "f \<in> set (frames pt)" for f using free that by blast
  ultimately show "pt_wf k' pt"
    using wf t unfolding pt_wf_def by simp
qed

lemma alloc_frame_pt:
  assumes wf: "pt_wf k pt" "frames_wf k" and al: "alloc_frame k = Some (k', Some f)"
  shows "pt_wf k' pt" "pt_view k' pt = pt_view k pt" "pt_tables k' pt = pt_tables k pt" "f \<notin> pt_tables k pt"
proof -
  note a = fr.alloc_SomeD [OF wf(2) al]
  have tabs: "p \<notin> free_frames k" if "p \<in> pt_tables k pt" for p
    using that pt_wfD(3) [OF wf(1)] by (auto simp: pt_tables_def)
  then show "f \<notin> pt_tables k pt" using a(2) by blast
  then have same: "phys k' p = phys k p" if "p \<in> pt_tables k pt" for p using a(5) that by auto
  show "pt_view k' pt = pt_view k pt" using same by (rule pt_cong(1))
  show "pt_tables k' pt = pt_tables k pt" using same by (rule pt_cong(2))
  have "free_frames k' \<inter> (pt_tables k pt \<union> set (frames pt)) = {}"
    using tabs pt_wfD(7) [OF wf(1)] a(4) by blast
  with same wf(1) show "pt_wf k' pt" by (rule pt_cong(3))
qed

lemma page_table_new_spec:
  assumes wf: "frames_wf k" and ne: "free_frames k \<noteq> {}"
  shows "\<exists>k' pt. page_table_new k = Some (k', pt) \<and> pt_wf k' pt \<and> frames_wf k' \<and> (\<forall>v. pt_view k' pt v = None) \<and>
    pt_root pt \<in> free_frames k \<and> free_frames k' = free_frames k - {pt_root pt} \<and> frames pt = [pt_root pt] \<and>
    (\<forall>x. x \<noteq> pt_root pt \<longrightarrow> phys k' x = phys k x)"
proof -
  obtain k' f where al: "alloc_frame k = Some (k', Some f)" using fr.alloc_some [OF wf ne] by blast
  note a = fr.alloc_SomeD [OF wf al]
  define pt where "pt = \<lparr>root_paddr = ppn_to_phys f, frames = [f]\<rparr>"
  have root: "pt_root pt = f" using frame_ppn_phys(2) [OF a(3)] by (simp add: pt_root_def pt_def)
  have t: "tbl k' f path = (if path = [] then Some f else None)" for path
    using a(5) by (cases path) auto
  have "pt_wf k' pt" unfolding pt_wf_def root
  proof (intro conjI allI impI)
    fix path path' :: "page_idx list" and q
    assume "tbl k' f path = Some q"
    then show "frame_ppn q" "q \<notin> free_frames k'" using a(3,4) t [of path] by (auto split: if_splits)
    assume "tbl k' f path' = Some q"
    with \<open>tbl k' f path = Some q\<close> show "path = path'" using t [of path] t [of path'] by (auto split: if_splits)
  qed (use a(3,4) in \<open>simp_all add: pt_def\<close>)
  moreover have "pt_view k' pt v = None" for v
  proof -
    have "tbl k' f (take 2 (va_path (push_bit 12 v))) = None" by (simp only: t) (simp add: va_path_def)
    then show ?thesis by (simp only: pt_view_def leaf_loc_def root option.map option.case)
  qed
  moreover have "page_table_new k = Some (k', pt)" using al by (simp add: page_table_new_def pt_def)
  moreover have "frames pt = [pt_root pt]" unfolding root by (simp add: pt_def)
  ultimately show ?thesis using a(1,2,4,5) root by simp
qed

text \<open>
  A user table holds a fresh root whose entries 508 and 510 are those of the kernel's root: it maps
  what the kernel's table maps there and nothing else.
\<close>

definition kernel_idx :: "page_idx \<Rightarrow> bool" where
  "kernel_idx i \<longleftrightarrow> i = of_nat KERNEL_PTE_POS \<or> i = of_nat KERNEL_MMIO_PTE_POS"

lemma page_table_new_user_spec:
  assumes wf: "frames_wf k" "pt_wf k kt" and ne: "free_frames k \<noteq> {}"
  shows "\<exists>k' pt. page_table_new_user (root_paddr kt) k = Some (k', pt) \<and> pt_wf k' pt \<and> frames_wf k' \<and>
    (\<forall>v. pt_view k' pt v =
       (if kernel_idx (va_path (push_bit 12 v) ! 0) then pt_view k kt v else None)) \<and>
    pt_wf k' kt \<and> pt_view k' kt = pt_view k kt \<and>
    pt_root pt \<in> free_frames k \<and> free_frames k' = free_frames k - {pt_root pt} \<and> frames pt = [pt_root pt] \<and>
    (\<forall>x. x \<noteq> pt_root pt \<longrightarrow> phys k' x = phys k x)"
proof -
  obtain k1 f where al: "alloc_frame k = Some (k1, Some f)" using fr.alloc_some [OF wf(1) ne] by blast
  note a = fr.alloc_SomeD [OF wf(1) al]
  note kt = alloc_frame_pt [OF wf(2,1) al]
  let ?r = "pt_root kt"
  define pt where "pt = \<lparr>root_paddr = ppn_to_phys f, frames = [f]\<rparr>"
  define k2 where "k2 = set_word (f, of_nat KERNEL_PTE_POS) (get_word k1 (?r, of_nat KERNEL_PTE_POS)) k1"
  define k3 where "k3 = set_word (f, of_nat KERNEL_MMIO_PTE_POS) (get_word k2 (?r, of_nat KERNEL_MMIO_PTE_POS)) k2"
  have "?r \<in> pt_tables k kt" unfolding pt_tables_def by (auto intro: exI [of _ "[]"])
  then have rf: "?r \<noteq> f" using kt(4) by auto
  have run: "page_table_new_user (root_paddr kt) k = Some (k3, pt)"
    using al pte_array_ppn [OF a(3)] pte_array_ppn [of ?r] root_in_use [OF wf(2)] pt_wfD(1) [OF wf(2)]
    by (simp add: page_table_new_user_def k2_def k3_def pt_def)
  have root: "pt_root pt = f" using frame_ppn_phys(2) [OF a(3)] by (simp add: pt_root_def pt_def)
  have out: "phys k3 x = phys k x" if "x \<noteq> f" for x
    using that a(5) by (simp add: k3_def k2_def phys_set_word_other)
  have pos: "(of_nat KERNEL_PTE_POS :: page_idx) \<noteq> of_nat KERNEL_MMIO_PTE_POS"
    by (simp add: KERNEL_PTE_POS_def KERNEL_MMIO_PTE_POS_def)
  have top: "phys k3 f i = (if kernel_idx i then phys k ?r i else 0)" for i
    using rf a(5) pos by (auto simp: k3_def k2_def get_word_def kernel_idx_def)
  have free: "free_frames k3 = free_frames k - {f}" using a(4) by (simp add: k3_def k2_def)
  have same: "phys k3 p = phys k p" if "p \<in> pt_tables k kt" for p
    using out that kt(4) by metis
  have wfk: "pt_wf k3 kt"
  proof (rule pt_cong(3) [OF same wf(2)])
    have "p \<notin> free_frames k" if "p \<in> pt_tables k kt" for p
      using that pt_wfD(3) [OF wf(2)] by (auto simp: pt_tables_def)
    then show "free_frames k3 \<inter> (pt_tables k kt \<union> set (frames kt)) = {}"
      using free pt_wfD(7) [OF wf(2)] by blast
  qed
  have t: "tbl k3 f path = (if path = [] then Some f
      else if kernel_idx (hd path) then tbl k ?r path else None)" if "length path \<le> 2" for path
  proof (cases path)
    case (Cons i js)
    have "tbl k3 ?r path = tbl k ?r path" using same that by (rule tbl_cong)
    moreover have "tbl k3 ?r path = tbl k3 f path" if "kernel_idx i"
      using that Cons top [of i] out [OF rf] by simp
    ultimately show ?thesis using Cons top [of i] by auto
  qed simp
  have fresh: "tbl k ?r path \<noteq> Some f" if "length path \<le> 2" for path
    using kt(4) that by (auto simp: pt_tables_def)
  have wfp: "pt_wf k3 pt" unfolding pt_wf_def root
  proof (intro conjI allI impI)
    fix path path' :: "page_idx list" and q
    assume len: "length path \<le> 2" "length path' \<le> 2" and q: "tbl k3 f path = Some q"
    show "frame_ppn q" "q \<notin> free_frames k3"
      using q t [OF len(1)] a(3) free pt_wfD(2,3) [OF wf(2) len(1), of q] by (auto split: if_splits)
    show "path = path'" if "tbl k3 f path' = Some q"
      using that q t [OF len(1)] t [OF len(2)] fresh [OF len(1)] fresh [OF len(2)]
        pt_wfD(4) [OF wf(2) len] by (auto split: if_splits)
  qed (use a(3) free in \<open>simp_all add: pt_def\<close>)
  have view: "pt_view k3 pt v = (if kernel_idx (va_path (push_bit 12 v) ! 0) then pt_view k kt v else None)" for v
  proof -
    let ?path = "take 2 (va_path (push_bit 12 v))"
    have p: "?path \<noteq> []" "hd ?path = va_path (push_bit 12 v) ! 0" "length ?path \<le> 2"
      by (simp_all add: va_path_def)
    have "phys k3 q = phys k q" if "tbl k ?r ?path = Some q" for q
      using same that p(3) unfolding pt_tables_def by blast
    then show ?thesis using t [OF p(3)] p(1,2)
      by (cases "tbl k ?r ?path") (auto simp: pt_view_def leaf_loc_def root get_word_def)
  qed
  have fwf: "frames_wf k3" using a(1) by (simp add: k3_def k2_def)
  have vk: "pt_view k3 kt = pt_view k kt" using same by (rule pt_cong(1))
  have fr: "frames pt = [pt_root pt]" unfolding root by (simp add: pt_def)
  show ?thesis
    by (intro exI [of _ k3] exI [of _ pt] conjI allI impI) (use run wfp fwf view wfk vk a(2) free fr out root in simp_all)
qed

section \<open>The contract of a page map\<close>

text \<open>
  What the memory areas rely on: the table is a partial map of which each operation changes one
  page. \<open>room\<close> is the number of frames left for tables.
\<close>

locale page_map =
  fixes view :: "'s \<Rightarrow> 'v \<Rightarrow> 'e option"
    and put :: "'v \<Rightarrow> 'a \<Rightarrow> 's \<Rightarrow> 's option"
    and del :: "'v \<Rightarrow> 's \<Rightarrow> 's option"
    and enc :: "'a \<Rightarrow> 'e"
    and ok :: "'v \<Rightarrow> bool"
    and room :: "'s \<Rightarrow> bool"
    and invar :: "'s \<Rightarrow> bool"
  assumes put_spec: "invar s \<Longrightarrow> ok v \<Longrightarrow> room s \<Longrightarrow> view s v = None \<Longrightarrow>
      \<exists>s'. put v a s = Some s' \<and> invar s' \<and>
        (\<forall>w. ok w \<longrightarrow> view s' w = (if w = v then Some (enc a) else view s w))"
    and del_spec: "invar s \<Longrightarrow> ok v \<Longrightarrow>
      \<exists>s'. del v s = Some s' \<and> invar s' \<and> (room s \<longrightarrow> room s') \<and>
        (\<forall>w. ok w \<longrightarrow> view s' w = (if w = v then None else view s w))"
begin

text \<open>Removing the pages of a list removes exactly them, mapped before or not.\<close>

lemma del_list:
  assumes "invar s" and "\<forall>v \<in> set vs. ok v"
  shows "\<exists>s'. foldM del vs s = Some s' \<and> invar s' \<and>
    (\<forall>w. ok w \<longrightarrow> view s' w = (if w \<in> set vs then None else view s w))"
  using assms
proof (induction vs arbitrary: s)
  case Nil
  then show ?case by simp
next
  case (Cons v vs)
  then obtain s1 where s1: "del v s = Some s1" "invar s1"
    "\<forall>w. ok w \<longrightarrow> view s1 w = (if w = v then None else view s w)" using del_spec by fastforce
  with Cons obtain s2 where "foldM del vs s1 = Some s2" "invar s2"
    "\<forall>w. ok w \<longrightarrow> view s2 w = (if w \<in> set vs then None else view s1 w)" by fastforce
  with s1 show ?case by auto
qed

text \<open>Mapping a page and unmapping it again restores the map.\<close>

lemma put_del:
  assumes "invar s" "ok v" "room s" "view s v = None" "put v a s = Some s1"
  shows "\<exists>s2. del v s1 = Some s2 \<and> invar s2 \<and> (\<forall>w. ok w \<longrightarrow> view s2 w = view s w)"
proof -
  have s1: "invar s1" "\<forall>w. ok w \<longrightarrow> view s1 w = (if w = v then Some (enc a) else view s w)"
    using put_spec [OF assms(1-4), of a] assms(5) by auto
  then obtain s2 where "del v s1 = Some s2" "invar s2"
    "\<forall>w. ok w \<longrightarrow> view s2 w = (if w = v then None else view s1 w)"
    using del_spec [OF s1(1) assms(2)] by blast
  with s1 assms(4) show ?thesis by auto
qed

end

definition pt_put :: "usize \<Rightarrow> usize \<times> pte_flags \<Rightarrow> 'z kmem_scheme \<times> page_table \<Rightarrow> ('z kmem_scheme \<times> page_table) option" where
  "pt_put vpn a s = map_one vpn (fst a) (snd a) (fst s) (snd s)"

definition pt_del :: "usize \<Rightarrow> 'z kmem_scheme \<times> page_table \<Rightarrow> ('z kmem_scheme \<times> page_table) option" where
  "pt_del vpn s = map_option (\<lambda>k. (k, snd s)) (unmap vpn (fst s) (snd s))"

definition pt_inv :: "'z kmem_scheme \<times> page_table \<Rightarrow> bool" where
  "pt_inv s \<longleftrightarrow> pt_wf (fst s) (snd s) \<and> frames_wf (fst s)"

interpretation pm: page_map "\<lambda>s. pt_view (fst s) (snd s)" pt_put pt_del
    "\<lambda>a. pte_new (fst a) (snd a OR PTE_A OR PTE_D OR PTE_V)" vpn_ok
    "\<lambda>s. 2 \<le> card (free_frames (fst s))" pt_inv
proof unfold_locales
  fix s :: "'z kmem_scheme \<times> page_table" and v a
  assume inv: "pt_inv s" and v: "vpn_ok v"
  then have wf: "pt_wf (fst s) (snd s)" "frames_wf (fst s)" by (auto simp: pt_inv_def)
  show "\<exists>s'. pt_put v a s = Some s' \<and> pt_inv s' \<and> (\<forall>w. vpn_ok w \<longrightarrow> pt_view (fst s') (snd s') w =
      (if w = v then Some (pte_new (fst a) (snd a OR PTE_A OR PTE_D OR PTE_V)) else pt_view (fst s) (snd s) w))"
    if room: "2 \<le> card (free_frames (fst s))" and none: "pt_view (fst s) (snd s) v = None"
  proof -
    obtain k' pt' where "map_one v (fst a) (snd a) (fst s) (snd s) = Some (k', pt')" "pt_wf k' pt'" "frames_wf k'"
      "\<forall>w. vpn_ok w \<longrightarrow> pt_view k' pt' w =
        (if w = v then Some (pte_new (fst a) (snd a OR PTE_A OR PTE_D OR PTE_V)) else pt_view (fst s) (snd s) w)"
      using map_one_spec [OF wf v room none] by blast
    then show ?thesis by (simp add: pt_put_def pt_inv_def)
  qed
  show "\<exists>s'. pt_del v s = Some s' \<and> pt_inv s' \<and>
      (2 \<le> card (free_frames (fst s)) \<longrightarrow> 2 \<le> card (free_frames (fst s'))) \<and>
      (\<forall>w. vpn_ok w \<longrightarrow> pt_view (fst s') (snd s') w = (if w = v then None else pt_view (fst s) (snd s) w))"
  proof -
    obtain k' where "unmap v (fst s) (snd s) = Some k'" "pt_wf k' (snd s)" "frames_wf k'"
      "free_frames k' = free_frames (fst s)"
      "\<forall>w. vpn_ok w \<longrightarrow> pt_view k' (snd s) w = (if w = v then None else pt_view (fst s) (snd s) w)"
      using unmap_spec [OF wf v] by blast
    then show ?thesis by (simp add: pt_del_def pt_inv_def)
  qed
qed

section \<open>Properties\<close>

text \<open>
  a page-table entry keeps its frame number and its flags, and its low bits are always
  declared flags, so decoding them does not panic.
\<close>

theorem pte_round_trip:
  assumes "unat ppn < 2 ^ 44" and "pte_flags_ok flags"
  shows "pte_ppn (pte_new ppn flags) = ppn \<and> pte_flags (pte_new ppn flags) = flags \<and>
    from_bits 0x1ff (pte_flags (pte_new ppn flags)) = Some flags \<and>
    pte_set_flags flags' (pte_new ppn flags) = pte_new ppn flags'"
proof -
  have "pte_set_flags flags' (pte_new ppn flags) = pte_new ppn flags'"
    by (simp add: pte_set_flags_def pte_ppn_new [OF assms]) (simp add: pte_new_def)
  moreover have "flags AND NOT 0x1ff = 0"
  proof -
    have "(0x1ff :: u16) = mask 9" by (simp add: mask_eq_exp_minus_1)
    then have "flags AND NOT 0x1ff = flags AND NOT (mask 9)" by (simp only:)
    also have "\<dots> = 0"
      by (rule bit_word_eqI) (use pte_flags_ok_bit [OF assms(2)] in \<open>auto simp: bit_simps\<close>)
    finally show ?thesis .
  qed
  then have "from_bits 0x1ff flags = Some flags" by (simp add: from_bits_def)
  ultimately show ?thesis using pte_ppn_new [OF assms] pte_flags_new [OF assms(2), of ppn] by simp
qed

theorem pte_round_trip_witness:
  "unat (0x80300 :: usize) < 2 ^ 44 \<and> pte_flags_ok (PTE_R OR PTE_V) \<and>
   pte_ppn (pte_new 0x80300 (PTE_R OR PTE_V)) = 0x80300 \<and>
   pte_flags (pte_new 0x80300 (PTE_R OR PTE_V)) = PTE_R OR PTE_V"
proof -
  have "pte_flags_ok (PTE_R OR PTE_V)" by (simp add: pte_flags_ok_def pte_flag_defs)
  then show ?thesis using pte_round_trip [of "0x80300" "PTE_R OR PTE_V"] by simp
qed

text \<open>A memory and an empty table right after boot.\<close>

definition boot_pt :: "kmem \<times> page_table" where
  "boot_pt = the (page_table_new boot_mem)"

lemma boot_pt_wf:
  "pt_wf (fst boot_pt) (snd boot_pt)" "frames_wf (fst boot_pt)" "pt_view (fst boot_pt) (snd boot_pt) v = None"
  "2 \<le> card (free_frames (fst boot_pt))" "free_frames (fst boot_pt) = free_frames boot_mem - {pt_root (snd boot_pt)}"
proof -
  have three: "{0x80300, 0x80301, 0x80302} \<subseteq> free_frames boot_mem" by (simp add: boot_mem_wf)
  then have "free_frames boot_mem \<noteq> {}" by blast
  from page_table_new_spec [OF boot_mem_wf(1) this] obtain k pt where
    "page_table_new boot_mem = Some (k, pt)" "pt_wf k pt" "frames_wf k" "\<forall>v. pt_view k pt v = None"
    "free_frames k = free_frames boot_mem - {pt_root pt}" by blast
  then show "pt_wf (fst boot_pt) (snd boot_pt)" "frames_wf (fst boot_pt)" "pt_view (fst boot_pt) (snd boot_pt) v = None"
    and free: "free_frames (fst boot_pt) = free_frames boot_mem - {pt_root (snd boot_pt)}"
    by (simp_all add: boot_pt_def)
  have "card {0x80300, 0x80301, 0x80302 :: usize} - card {pt_root (snd boot_pt)} \<le>
      card ({0x80300, 0x80301, 0x80302} - {pt_root (snd boot_pt)})" by (rule diff_card_le_card_Diff) simp
  also have "\<dots> \<le> card (free_frames (fst boot_pt))"
    unfolding free using three by (intro card_mono) auto
  finally show "2 \<le> card (free_frames (fst boot_pt))" by simp
qed

text \<open>
  C2: mapping a page that is not mapped, with two frames left for tables, returns; the
  new table translates every address of the page to the given frame, every other mapped page
  as before, and no memory outside the table and the free frames is written.
\<close>

theorem map_one_translate:
  assumes wf: "pt_wf k pt" "frames_wf k" and va: "user_va va" and free: "2 \<le> card (free_frames k)"
    and none: "pt_view k pt (drop_bit 12 va) = None" and ppn: "unat ppn < 2 ^ 44" and fl: "pte_flags_ok flags"
  shows "\<exists>k' pt'. map_one (drop_bit 12 va) ppn flags k pt = Some (k', pt') \<and> pt_wf k' pt' \<and>
    translate_va_to_pa k' pt' va = Some (ppn_to_phys ppn + take_bit 12 va) \<and>
    (\<forall>w. user_va w \<longrightarrow> drop_bit 12 w \<noteq> drop_bit 12 va \<longrightarrow>
       translate_va_to_pa k' pt' w = translate_va_to_pa k pt w) \<and>
    (\<forall>x. x \<notin> free_frames k \<longrightarrow> x \<notin> pt_tables k pt \<longrightarrow> phys k' x = phys k x)"
proof -
  note ok = user_va_vpn_ok [OF va]
  let ?f = "flags OR PTE_A OR PTE_D OR PTE_V"
  obtain k' pt' where m: "map_one (drop_bit 12 va) ppn flags k pt = Some (k', pt')" "pt_wf k' pt'"
    and view: "\<forall>v. vpn_ok v \<longrightarrow> pt_view k' pt' v =
       (if v = drop_bit 12 va then Some (pte_new ppn ?f) else pt_view k pt v)"
    and rest: "\<forall>x. x \<notin> free_frames k \<longrightarrow> x \<notin> pt_tables k pt \<longrightarrow> phys k' x = phys k x"
    using map_one_spec [OF wf ok free none] by blast
  have "pte_flags_ok ?f" using fl by (intro pte_flags_ok_or) (simp_all add: pte_flags_ok_def pte_flag_defs)
  then have "pte_ppn (pte_new ppn ?f) = ppn" using pte_ppn_new [OF ppn] by blast
  then have "translate_va_to_pa k' pt' va = Some (ppn_to_phys ppn + take_bit 12 va)"
    using translate_va_to_pa_view [OF m(2) va] view ok by simp
  moreover have "translate_va_to_pa k' pt' w = translate_va_to_pa k pt w"
    if "user_va w" "drop_bit 12 w \<noteq> drop_bit 12 va" for w
    using that view user_va_vpn_ok [OF that(1)] translate_va_to_pa_view [OF m(2) that(1)]
      translate_va_to_pa_view [OF wf(1) that(1)] by simp
  ultimately show ?thesis using m rest by blast
qed

theorem map_one_translate_witness:
  "\<exists>k' pt'. map_one 0x12 0x80400 PTE_R (fst boot_pt) (snd boot_pt) = Some (k', pt') \<and>
    translate_va_to_pa k' pt' 0x12345 = Some 0x80400345"
proof -
  have "user_va 0x12345" by (simp add: user_va_def mm_consts)
  moreover have "drop_bit 12 (0x12345 :: usize) = 0x12" "take_bit 12 (0x12345 :: usize) = 0x345"
    "ppn_to_phys 0x80400 = 0x80400000" by (simp_all add: ppn_to_phys_def PAGE_SIZE_BITS_def push_bit_eq_mult)
  moreover have "pte_flags_ok PTE_R" by (simp add: pte_flags_ok_def PTE_R_def)
  ultimately show ?thesis
    using map_one_translate [OF boot_pt_wf(1,2) _ boot_pt_wf(4) boot_pt_wf(3), of "0x12345" "0x80400" PTE_R] by auto
qed

text \<open>
  unmapping a page, mapped or not, returns and removes exactly that page from the
  map; mapping a page and unmapping it again restores the map.
\<close>

theorem unmap_removes_one:
  assumes "pt_inv s" and "vpn_ok vpn"
  shows "(\<exists>s'. pt_del vpn s = Some s' \<and> pt_inv s' \<and> (\<forall>v. vpn_ok v \<longrightarrow>
      pt_view (fst s') (snd s') v = (if v = vpn then None else pt_view (fst s) (snd s) v))) \<and>
    (\<forall>s1 a. 2 \<le> card (free_frames (fst s)) \<longrightarrow> pt_view (fst s) (snd s) vpn = None \<longrightarrow> pt_put vpn a s = Some s1 \<longrightarrow>
      (\<exists>s2. pt_del vpn s1 = Some s2 \<and> pt_inv s2 \<and>
         (\<forall>v. vpn_ok v \<longrightarrow> pt_view (fst s2) (snd s2) v = pt_view (fst s) (snd s) v)))"
  using pm.del_spec [OF assms] pm.put_del [OF assms] by blast

theorem unmap_removes_one_witness:
  "pt_inv boot_pt \<and> vpn_ok 0x12 \<and> (\<exists>s'. pt_del 0x12 boot_pt = Some s' \<and> pt_inv s')"
proof -
  have "pt_inv boot_pt" using boot_pt_wf by (simp add: pt_inv_def)
  moreover have "vpn_ok 0x12" by (simp add: vpn_ok_def user_va_def mm_consts push_bit_eq_mult drop_bit_eq_div)
  ultimately show ?thesis using unmap_removes_one [of boot_pt "0x12"] by blast
qed

text \<open>
  changing the permission of a mapped page changes only its R, W, X and U bits, keeps its
  frame and every other page; on an unmapped page it panics.
\<close>

theorem modify_flags_permission_only:
  assumes wf: "pt_wf k pt" "frames_wf k" and vpn: "vpn_ok vpn"
  shows "case pt_view k pt vpn of
    None \<Rightarrow> modify_flags vpn flags k pt = None
  | Some e \<Rightarrow> \<exists>k' e'. modify_flags vpn flags k pt = Some k' \<and> pt_wf k' pt \<and> pt_view k' pt vpn = Some e' \<and>
      pte_ppn e' = pte_ppn e \<and> (\<forall>i. bit e' i = (if 1 \<le> i \<and> i \<le> 4 then bit flags i else bit e i)) \<and>
      (\<forall>v. vpn_ok v \<longrightarrow> v \<noteq> vpn \<longrightarrow> pt_view k' pt v = pt_view k pt v)"
proof (cases "pt_view k pt vpn")
  case None
  then show ?thesis using modify_flags_unmapped [OF wf(1) vpn] by simp
next
  case (Some e)
  have "pte_ppn (pte_copy_bits flags e) = pte_ppn e"
    by (rule bit_word_eqI) (simp add: bit_pte_ppn bit_pte_copy_bits)
  then show ?thesis using modify_flags_spec [OF wf vpn Some, of flags] Some vpn
    by (auto simp: bit_pte_copy_bits)
qed

theorem modify_flags_permission_only_witness:
  "pt_wf (fst boot_pt) (snd boot_pt) \<and> vpn_ok 0x12 \<and> modify_flags 0x12 PTE_R (fst boot_pt) (snd boot_pt) = None"
proof -
  have "vpn_ok 0x12" by (simp add: vpn_ok_def user_va_def mm_consts push_bit_eq_mult drop_bit_eq_div)
  then show ?thesis using modify_flags_permission_only [OF boot_pt_wf(1,2), of "0x12" PTE_R] boot_pt_wf(1,3) by simp
qed

text \<open>
  a new user table maps exactly what the kernel's table maps under its two kernel entries, its root
  is a fresh frame, and the kernel's table is unchanged.
\<close>

theorem new_user_table:
  assumes "frames_wf k" "pt_wf k kt" "free_frames k \<noteq> {}"
  shows "\<exists>k' pt. page_table_new_user (root_paddr kt) k = Some (k', pt) \<and> pt_wf k' pt \<and>
    (\<forall>v. pt_view k' pt v = (if kernel_idx (va_path (push_bit 12 v) ! 0) then pt_view k kt v else None)) \<and>
    pt_wf k' kt \<and> pt_view k' kt = pt_view k kt \<and>
    pt_root pt \<in> free_frames k \<and> free_frames k' = free_frames k - {pt_root pt}"
  using page_table_new_user_spec [OF assms] by (elim exE conjE) (intro exI conjI, assumption+)

theorem new_user_table_witness:
  "\<exists>k' pt. page_table_new_user (root_paddr (snd boot_pt)) (fst boot_pt) = Some (k', pt) \<and> pt_wf k' pt \<and>
    (\<forall>v. pt_view k' pt v = None)"
proof -
  have "free_frames (fst boot_pt) \<noteq> {}" using boot_pt_wf(4) by auto
  from new_user_table [OF boot_pt_wf(2,1) this] obtain k' pt where
    k': "page_table_new_user (root_paddr (snd boot_pt)) (fst boot_pt) = Some (k', pt)" "pt_wf k' pt"
    and view: "\<forall>v. pt_view k' pt v = (if kernel_idx (va_path (push_bit 12 v) ! 0)
      then pt_view (fst boot_pt) (snd boot_pt) v else None)" by blast
  have "\<forall>v. pt_view k' pt v = None" using view boot_pt_wf(3) by simp
  with k' show ?thesis by blast
qed

end
