(* ===== verification/Pma.thy ===== *)
theory Pma
  imports Page_Table
begin

text \<open>
  Pages and the physical side of a memory area (\<^verbatim>\<open>mm/pma.rs\<close>). A \<^verbatim>\<open>Page\<close> owns one frame, so a live
  page is identified by its frame number; \<^verbatim>\<open>Arc<Page>\<close> is that number together with a count of
  references in the store \<open>pages\<close>, and dropping the last reference frees the frame. The bytes of a
  page are a little-endian view of its words. Reading a sector of a file is an argument.

  The lemmas show that bytes written to a page are read back and no others change, and that the store stays
  consistent: every stored page owns a frame in use that no other page owns.
\<close>

definition SECTOR_SIZE :: nat where "SECTOR_SIZE = 512"
definition PAGE_BYTES :: nat where "PAGE_BYTES = 4096"

datatype data_state = DEmpty | DSync | DDirty

record disk_file_info =
  inode :: nat
  page_num_offset :: usize
  dstate :: "data_state list"

record page =
  permission :: page_permission
  disk_file :: "disk_file_info option"
  cow_count :: nat

record pmem = kmem +
  pages :: "usize \<rightharpoonup> page \<times> nat"

section \<open>Bytes of a page\<close>

definition get_byte :: "(page_idx \<Rightarrow> u64) \<Rightarrow> nat \<Rightarrow> u8" where
  "get_byte f n = ucast (drop_bit (8 * (n mod 8)) (f (of_nat (n div 8))))"

definition set_byte :: "nat \<Rightarrow> u8 \<Rightarrow> (page_idx \<Rightarrow> u64) \<Rightarrow> page_idx \<Rightarrow> u64" where
  "set_byte n b f =
     f(of_nat (n div 8) := (f (of_nat (n div 8)) AND NOT (push_bit (8 * (n mod 8)) 0xff)) OR
                            push_bit (8 * (n mod 8)) (ucast b))"

definition get_bytes :: "(page_idx \<Rightarrow> u64) \<Rightarrow> nat \<Rightarrow> nat \<Rightarrow> u8 list" where
  "get_bytes f off len = map (\<lambda>i. get_byte f (off + i)) [0..<len]"

fun set_bytes :: "nat \<Rightarrow> u8 list \<Rightarrow> (page_idx \<Rightarrow> u64) \<Rightarrow> page_idx \<Rightarrow> u64" where
  "set_bytes off [] f = f"
| "set_bytes off (b # bs) f = set_bytes (off + 1) bs (set_byte off b f)"

section \<open>References to pages\<close>

definition arc_new :: "usize \<Rightarrow> page \<Rightarrow> pmem \<Rightarrow> pmem" where
  "arc_new h p k = k\<lparr>pages := (pages k)(h \<mapsto> (p, 1))\<rparr>"

definition arc_clone :: "usize \<Rightarrow> pmem \<Rightarrow> pmem option" where
  "arc_clone h k = do { (p, n) \<leftarrow> pages k h; Some (k\<lparr>pages := (pages k)(h \<mapsto> (p, n + 1))\<rparr>) }"

definition arc_drop :: "usize \<Rightarrow> pmem \<Rightarrow> pmem option" where
  "arc_drop h k =
     do { (p, n) \<leftarrow> pages k h;
          if n \<le> 1 then dealloc_frame h (k\<lparr>pages := (pages k)(h := None)\<rparr>)
          else Some (k\<lparr>pages := (pages k)(h \<mapsto> (p, n - 1))\<rparr>) }"

section \<open>Pages\<close>

definition page_new :: "page_permission \<Rightarrow> pmem \<Rightarrow> (pmem \<times> usize) option" where
  "page_new per k =
     do { (k', r) \<leftarrow> alloc_frame k; f \<leftarrow> r;
          Some (arc_new f \<lparr>permission = per, disk_file = None, cow_count = 0\<rparr> k', f) }"

definition new_disk_page :: "page_permission \<Rightarrow> nat \<Rightarrow> usize \<Rightarrow> pmem \<Rightarrow> (pmem \<times> usize) option" where
  "new_disk_page per ino off k =
     do { (k', r) \<leftarrow> alloc_frame k; f \<leftarrow> r;
          Some (arc_new f \<lparr>permission = per,
            disk_file = Some \<lparr>inode = ino, page_num_offset = off, dstate = replicate 8 DEmpty\<rparr>,
            cow_count = 0\<rparr> k', f) }"

definition new_from_page :: "usize \<Rightarrow> page_permission \<Rightarrow> pmem \<Rightarrow> (pmem \<times> usize) option" where
  "new_from_page ppn per k =
     do { (k', r) \<leftarrow> alloc_frame k; f \<leftarrow> r;
          d \<leftarrow> byte_array (ppn_to_phys f);
          s \<leftarrow> byte_array (ppn_to_phys ppn);
          let k'' = k'\<lparr>phys := (phys k')(d := phys k' s)\<rparr>;
          Some (arc_new f \<lparr>permission = per, disk_file = None, cow_count = 0\<rparr> k'', f) }"

definition to_sec_idx :: "nat \<Rightarrow> nat" where
  "to_sec_idx off = off div SECTOR_SIZE"

text \<open>
  The file offset of a sector, as the code computes it: \<open>+\<close> binds tighter than the shift, and the
  shift amount is reduced modulo 64.
\<close>

definition sector_file_offset :: "usize \<Rightarrow> nat \<Rightarrow> usize" where
  "sector_file_offset pno idx = drop_bit ((PAGE_SIZE_BITS + idx * SECTOR_SIZE) mod 64) pno"

text \<open>
  \<open>rd\<close> reads a sector of an inode; \<^term>\<open>None\<close> stands for a dead inode or a failed read, which panic.
  An empty sector is read and becomes \<open>after\<close>.
\<close>

definition fill_sector ::
  "(nat \<Rightarrow> usize \<Rightarrow> u8 list option) \<Rightarrow> usize \<Rightarrow> data_state \<Rightarrow> nat \<Rightarrow> pmem \<times> disk_file_info \<Rightarrow> (pmem \<times> disk_file_info) option" where
  "fill_sector rd h after idx st = (case st of (k, d) \<Rightarrow>
     do { s \<leftarrow> nth_opt (dstate d) idx;
          if s = DEmpty then
            do { bs \<leftarrow> rd (inode d) (sector_file_offset (page_num_offset d) idx);
                 p \<leftarrow> byte_array (ppn_to_phys h);
                 Some (k\<lparr>phys := (phys k)(p := set_bytes (idx * SECTOR_SIZE) (take SECTOR_SIZE bs) (phys k p))\<rparr>,
                       d\<lparr>dstate := (dstate d)[idx := after]\<rparr>) }
          else Some (k, d) })"

definition mark_dirty :: "nat \<Rightarrow> pmem \<times> disk_file_info \<Rightarrow> (pmem \<times> disk_file_info) option" where
  "mark_dirty idx st = (case st of (k, d) \<Rightarrow>
     do { s \<leftarrow> nth_opt (dstate d) idx;
          Some (k, if s = DSync then d\<lparr>dstate := (dstate d)[idx := DDirty]\<rparr> else d) })"

definition put_disk :: "usize \<Rightarrow> disk_file_info \<Rightarrow> pmem \<Rightarrow> pmem option" where
  "put_disk h d k = do { (p, n) \<leftarrow> pages k h; Some (k\<lparr>pages := (pages k)(h \<mapsto> (p\<lparr>disk_file := Some d\<rparr>, n))\<rparr>) }"

definition sectors :: "nat \<Rightarrow> nat \<Rightarrow> nat list" where
  "sectors off len = [to_sec_idx off..<to_sec_idx (off + len + SECTOR_SIZE - 1)]"

definition page_read ::
  "(nat \<Rightarrow> usize \<Rightarrow> u8 list option) \<Rightarrow> usize \<Rightarrow> nat \<Rightarrow> nat \<Rightarrow> pmem \<Rightarrow> (pmem \<times> u8 list) option" where
  "page_read rd h off n k =
     do { rassert (off < PAGE_BYTES);
          let len = min n (PAGE_BYTES - off);
          (p, _) \<leftarrow> pages k h;
          k' \<leftarrow> (case disk_file p of
                   None \<Rightarrow> Some k
                 | Some d \<Rightarrow> do { (k1, d') \<leftarrow> foldM (fill_sector rd h DSync) (sectors off len) (k, d);
                                  put_disk h d' k1 });
          a \<leftarrow> byte_array (ppn_to_phys h);
          Some (k', get_bytes (phys k' a) off len) }"

definition page_load :: "(nat \<Rightarrow> usize \<Rightarrow> u8 list option) \<Rightarrow> usize \<Rightarrow> pmem \<Rightarrow> pmem option" where
  "page_load rd h k =
     do { (p, _) \<leftarrow> pages k h;
          d \<leftarrow> disk_file p;
          (k1, d') \<leftarrow> foldM (fill_sector rd h DSync) [0..<PAGE_BYTES div SECTOR_SIZE] (k, d);
          put_disk h d' k1 }"

definition page_write ::
  "(nat \<Rightarrow> usize \<Rightarrow> u8 list option) \<Rightarrow> usize \<Rightarrow> nat \<Rightarrow> u8 list \<Rightarrow> pmem \<Rightarrow> pmem option" where
  "page_write rd h off bs k =
     do { rassert (off < PAGE_BYTES);
          let len = min (length bs) (PAGE_BYTES - off);
          (p, _) \<leftarrow> pages k h;
          k' \<leftarrow> (case disk_file p of
                   None \<Rightarrow> Some k
                 | Some d \<Rightarrow> do { (k1, d') \<leftarrow> foldM (\<lambda>idx st. Option.bind (fill_sector rd h DDirty idx st) (mark_dirty idx))
                                                     (sectors off len) (k, d);
                                  put_disk h d' k1 });
          a \<leftarrow> byte_array (ppn_to_phys h);
          Some (k'\<lparr>phys := (phys k')(a := set_bytes off (take len bs) (phys k' a))\<rparr>) }"

text \<open>
  \<^verbatim>\<open>sync\<close> returns the writes it issues, as file offset and bytes. It stops at the end of the file and panics
  at the first sector that is not dirty.
\<close>

fun sync_loop :: "(page_idx \<Rightarrow> u64) \<Rightarrow> nat \<Rightarrow> nat \<Rightarrow> data_state list \<Rightarrow> nat \<Rightarrow> (nat \<times> u8 list) list option" where
  "sync_loop f file_offset i_size [] idx = Some []"
| "sync_loop f file_offset i_size (s # ss) idx =
     (if s = DDirty then
        let file_off = file_offset + idx * SECTOR_SIZE in
        if i_size \<le> file_off then Some []
        else do { ws \<leftarrow> sync_loop f file_offset i_size ss (idx + 1);
                  Some ((file_off, get_bytes f (idx * SECTOR_SIZE) SECTOR_SIZE) # ws) }
      else None)"

definition page_sync :: "(nat \<Rightarrow> nat) \<Rightarrow> usize \<Rightarrow> pmem \<Rightarrow> (nat \<times> u8 list) list option" where
  "page_sync i_size h k =
     do { (p, _) \<leftarrow> pages k h;
          d \<leftarrow> disk_file p;
          a \<leftarrow> byte_array (ppn_to_phys h);
          sync_loop (phys k a) (unat (drop_bit PAGE_SIZE_BITS (page_num_offset d))) (i_size (inode d)) (dstate d) 0 }"

section \<open>The pages of an area\<close>

record pma =
  page_manager :: "(usize, usize) btree_map"
  backen_file :: "(usize \<times> nat) option"

definition pma_new :: pma where
  "pma_new = \<lparr>page_manager = [], backen_file = None\<rparr>"

definition pop_pma_page :: "usize \<Rightarrow> pma \<Rightarrow> pmem \<Rightarrow> (pma \<times> pmem) option" where
  "pop_pma_page vpn m k = (case bt_get (page_manager m) vpn of
     None \<Rightarrow> Some (m, k)
   | Some h \<Rightarrow> do { k' \<leftarrow> arc_drop h k; Some (m\<lparr>page_manager := bt_remove vpn (page_manager m)\<rparr>, k') })"

definition push_pma_page :: "usize \<Rightarrow> usize \<Rightarrow> pma \<Rightarrow> pmem \<Rightarrow> (pma \<times> pmem) option" where
  "push_pma_page vpn h m k =
     do { k' \<leftarrow> (case bt_get (page_manager m) vpn of None \<Rightarrow> Some k | Some old \<Rightarrow> arc_drop old k);
          Some (m\<lparr>page_manager := bt_insert vpn h (page_manager m)\<rparr>, k') }"

definition add_backen_file :: "usize \<times> nat \<Rightarrow> pma \<Rightarrow> pma" where
  "add_backen_file f m = m\<lparr>backen_file := Some f\<rparr>"

text \<open>The pages numbers of a half-open and of a closed range.\<close>

definition vpns :: "usize \<Rightarrow> usize \<Rightarrow> usize list" where
  "vpns a b = map of_nat [unat a..<unat b]"

definition shrink_left :: "usize \<Rightarrow> usize \<Rightarrow> pma \<Rightarrow> pmem \<Rightarrow> (pma \<times> pmem) option" where
  "shrink_left new_start old_start m k =
     do { old_vpn \<leftarrow> virt_to_vpn old_start;
          new_vpn \<leftarrow> virt_to_vpn new_start;
          foldM (\<lambda>vpn (m, k). pop_pma_page vpn m k) (vpns old_vpn new_vpn @ (if old_vpn \<le> new_vpn then [new_vpn] else [])) (m, k) }"

definition shrink_right :: "usize \<Rightarrow> usize \<Rightarrow> pma \<Rightarrow> pmem \<Rightarrow> (pma \<times> pmem) option" where
  "shrink_right new_end old_end m k =
     do { old_vpn \<leftarrow> virt_to_vpn old_end;
          new_vpn \<leftarrow> virt_to_vpn new_end;
          foldM (\<lambda>vpn (m, k). pop_pma_page vpn m k) (vpns new_vpn old_vpn @ (if new_vpn \<le> old_vpn then [old_vpn] else [])) (m, k) }"

text \<open>Moving the pages from \<open>right_start\<close> on to a new area; a page that is missing panics.\<close>

definition pma_split :: "usize \<Rightarrow> usize \<Rightarrow> usize \<Rightarrow> pma \<Rightarrow> pmem \<Rightarrow> (pma \<times> pma \<times> pmem) option" where
  "pma_split left_end right_start end m k =
     do { r \<leftarrow> virt_to_vpn right_start;
          e \<leftarrow> virt_to_vpn end;
          (m1, right) \<leftarrow> foldM (\<lambda>vpn (m, right).
              do { h \<leftarrow> bt_get (page_manager m) vpn;
                   Some (m\<lparr>page_manager := bt_remove vpn (page_manager m)\<rparr>, bt_insert vpn h right) }) (vpns r e) (m, []);
          l \<leftarrow> virt_to_vpn left_end;
          (m2, k') \<leftarrow> foldM (\<lambda>vpn (m, k). pop_pma_page vpn m k) (vpns l r) (m1, k);
          Some (m2, \<lparr>page_manager = right, backen_file = None\<rparr>, k') }"

definition get_pma_page_ppn :: "usize \<Rightarrow> pma \<Rightarrow> usize option" where
  "get_pma_page_ppn vpn m = bt_get (page_manager m) vpn"

definition pma_write_data :: "(nat \<Rightarrow> usize \<Rightarrow> u8 list option) \<Rightarrow> usize \<Rightarrow> u8 list \<Rightarrow> nat \<Rightarrow> pma \<Rightarrow> pmem \<Rightarrow> pmem option" where
  "pma_write_data rd vpn data off m k =
     do { rassert (length data + off \<le> PAGE_BYTES);
          h \<leftarrow> bt_get (page_manager m) vpn;
          page_write rd h off data k }"

definition pma_read_data :: "(nat \<Rightarrow> usize \<Rightarrow> u8 list option) \<Rightarrow> usize \<Rightarrow> nat \<Rightarrow> nat \<Rightarrow> pma \<Rightarrow> pmem \<Rightarrow> (pmem \<times> u8 list) option" where
  "pma_read_data rd vpn n off m k =
     do { rassert (n + off \<le> PAGE_BYTES);
          h \<leftarrow> bt_get (page_manager m) vpn;
          page_read rd h off n k }"

section \<open>Bytes written are read back\<close>

lemma bit_get_byte: "bit (get_byte f n) j \<longleftrightarrow> j < 8 \<and> bit (f (of_nat (n div 8))) (8 * (n mod 8) + j)"
  by (auto simp: get_byte_def bit_simps)

lemma page_idx_eq: "n < PAGE_BYTES \<Longrightarrow> m < PAGE_BYTES \<Longrightarrow>
    (of_nat (n div 8) :: page_idx) = of_nat (m div 8) \<longleftrightarrow> n div 8 = m div 8"
  by (simp add: PAGE_BYTES_def word_unat_eq_iff unat_of_nat)

lemma bit_slot:
  fixes w :: u64 and b :: u8
  assumes "a < 8" "c < 8" "j < 8"
  shows "bit ((w AND NOT (push_bit (8 * a) 0xff)) OR push_bit (8 * a) (ucast b)) (8 * c + j) \<longleftrightarrow>
    (if c = a then bit b j else bit w (8 * c + j))"
proof -
  have ff: "(0xff :: u64) = mask 8" by (simp add: mask_eq_exp_minus_1)
  have lt: "8 * c + j < 64" using assms by linarith
  consider "c = a" | "8 * c + j < 8 * a" "c \<noteq> a" | d where "8 * c + j = 8 * a + d" "8 \<le> d" "c \<noteq> a"
  proof -
    assume *: "c = a \<Longrightarrow> thesis" "8 * c + j < 8 * a \<Longrightarrow> c \<noteq> a \<Longrightarrow> thesis"
      "\<And>d. 8 * c + j = 8 * a + d \<Longrightarrow> 8 \<le> d \<Longrightarrow> c \<noteq> a \<Longrightarrow> thesis"
    show thesis
    proof (cases c a rule: linorder_cases)
      case less
      then show thesis using *(2) assms(3) by linarith
    next
      case equal
      then show thesis by (rule *(1))
    next
      case greater
      then show thesis using *(3) [of "8 * c + j - 8 * a"] by linarith
    qed
  qed
  then show ?thesis
  proof cases
    case 1
    then show ?thesis unfolding ff using lt assms by (simp add: bit_simps)
  next
    case 2
    then show ?thesis unfolding ff using lt by (simp add: bit_simps)
  next
    case 3
    then have "\<not> bit b d" using bit_imp_le_length [of b d] by auto
    then show ?thesis unfolding ff 3(1) using 3 lt by (simp add: bit_simps)
  qed
qed

lemma get_set_byte:
  assumes "n < PAGE_BYTES" "m < PAGE_BYTES"
  shows "get_byte (set_byte n b f) m = (if m = n then b else get_byte f m)"
proof (cases "n div 8 = m div 8")
  case False
  then show ?thesis using page_idx_eq [OF assms] by (auto simp: get_byte_def set_byte_def)
next
  case True
  have eq: "m mod 8 = n mod 8 \<longleftrightarrow> m = n" using True by (metis div_mult_mod_eq)
  have "bit (get_byte (set_byte n b f) m) j \<longleftrightarrow> bit (if m = n then b else get_byte f m) j" if j: "j < 8" for j
    using bit_slot [of "n mod 8" "m mod 8" j] j True unfolding eq by (simp add: bit_get_byte set_byte_def)
  then show ?thesis by (intro bit_word_eqI) simp
qed

lemma get_set_bytes:
  assumes "off + length bs \<le> PAGE_BYTES" "m < PAGE_BYTES"
  shows "get_byte (set_bytes off bs f) m = (if off \<le> m \<and> m < off + length bs then bs ! (m - off) else get_byte f m)"
  using assms
proof (induction off bs f rule: set_bytes.induct)
  case (1 off f)
  then show ?case by auto
next
  case (2 off b bs f)
  then have "get_byte (set_bytes (off + 1) bs (set_byte off b f)) m =
      (if off + 1 \<le> m \<and> m < off + 1 + length bs then bs ! (m - (off + 1)) else get_byte (set_byte off b f) m)" by simp
  moreover have "get_byte (set_byte off b f) m = (if m = off then b else get_byte f m)"
    using get_set_byte [of off m] 2(2,3) by simp
  ultimately show ?case by (auto simp: nth_Cons' le_eq_less_or_eq)
qed

lemma get_bytes_set_bytes:
  assumes "off + length bs \<le> PAGE_BYTES"
  shows "get_bytes (set_bytes off bs f) off (length bs) = bs"
proof -
  have "get_byte (set_bytes off bs f) (off + i) = bs ! i" if "i < length bs" for i
    using get_set_bytes [OF assms, of "off + i" f] that assms by simp
  then have "map (\<lambda>i. get_byte (set_bytes off bs f) (off + i)) [0..<length bs] = map (nth bs) [0..<length bs]"
    by (intro map_cong refl) simp
  then show ?thesis by (simp only: get_bytes_def map_nth)
qed

section \<open>The store of pages\<close>

definition store_wf :: "pmem \<Rightarrow> bool" where
  "store_wf k \<longleftrightarrow> frames_wf k \<and>
     (\<forall>h p n. pages k h = Some (p, n) \<longrightarrow> frame_ppn h \<and> h \<notin> free_frames k \<and> 0 < n)"

lemma store_wfD:
  assumes "store_wf k"
  shows "frames_wf k" "\<And>h x. pages k h = Some x \<Longrightarrow> frame_ppn h" "\<And>h x. pages k h = Some x \<Longrightarrow> h \<notin> free_frames k"
    "\<And>h x. pages k h = Some x \<Longrightarrow> 0 < snd x"
  using assms by (auto simp: store_wf_def)

lemma alloc_frame_pages:
  assumes "frames_wf (k :: pmem)" "alloc_frame k = Some (k', Some f)" shows "pages k' = pages k"
proof -
  have "kmem.more k' = kmem.more k" using alloc_frame_more [OF assms] .
  then show ?thesis by (cases k; cases k') (simp add: kmem.defs)
qed

lemma alloc_page_spec:
  assumes wf: "store_wf k" and ne: "free_frames k \<noteq> {}"
  shows "\<exists>k1 h. alloc_frame k = Some (k1, Some h) \<and> store_wf (arc_new h p k1) \<and> h \<in> free_frames k \<and>
    free_frames (arc_new h p k1) = free_frames k - {h} \<and> pages (arc_new h p k1) = (pages k)(h \<mapsto> (p, 1)) \<and>
    phys (arc_new h p k1) = (phys k)(h := \<lambda>_. 0) \<and> pages k h = None"
proof -
  note w = store_wfD [OF wf]
  obtain k1 h where al: "alloc_frame k = Some (k1, Some h)" using fr.alloc_some [OF w(1) ne] by blast
  note a = fr.alloc_SomeD [OF w(1) al] and pg = alloc_frame_pages [OF w(1) al]
  let ?k = "arc_new h p k1"
  have k': "pages ?k = (pages k)(h \<mapsto> (p, 1))" "phys ?k = phys k1" "falloc ?k = falloc k1"
    by (simp_all add: arc_new_def pg)
  have free: "free_frames ?k = free_frames k1" "frames_wf ?k = frames_wf k1"
    by (simp_all add: free_frames_def frames_wf_def k'(3))
  have "pages k h = None" using w(3) [of h] a(2) by (cases "pages k h") auto
  moreover have "store_wf ?k" using w a free k'(1) unfolding store_wf_def by auto
  ultimately show ?thesis using al a k' free by simp
qed

lemma page_new_spec:
  assumes "store_wf k" "free_frames k \<noteq> {}"
  shows "\<exists>k' h. page_new per k = Some (k', h) \<and> store_wf k' \<and> h \<in> free_frames k \<and> free_frames k' = free_frames k - {h} \<and>
    pages k' = (pages k)(h \<mapsto> (\<lparr>permission = per, disk_file = None, cow_count = 0\<rparr>, 1)) \<and>
    phys k' = (phys k)(h := \<lambda>_. 0) \<and> pages k h = None"
  using alloc_page_spec [OF assms, of "\<lparr>permission = per, disk_file = None, cow_count = 0\<rparr>"]
  by (auto simp: page_new_def)

lemma new_disk_page_spec:
  assumes "store_wf k" "free_frames k \<noteq> {}"
  shows "\<exists>k' h. new_disk_page per ino off k = Some (k', h) \<and> store_wf k' \<and> h \<in> free_frames k \<and> free_frames k' = free_frames k - {h} \<and>
    pages k' = (pages k)(h \<mapsto> (\<lparr>permission = per,
      disk_file = Some \<lparr>inode = ino, page_num_offset = off, dstate = replicate 8 DEmpty\<rparr>, cow_count = 0\<rparr>, 1)) \<and>
    phys k' = (phys k)(h := \<lambda>_. 0) \<and> pages k h = None"
  using alloc_page_spec [OF assms, of "\<lparr>permission = per,
      disk_file = Some \<lparr>inode = ino, page_num_offset = off, dstate = replicate 8 DEmpty\<rparr>, cow_count = 0\<rparr>"]
  by (auto simp: new_disk_page_def)

lemma arc_drop_spec:
  assumes wf: "store_wf k" and h: "pages k h = Some (p, n)"
  shows "\<exists>k'. arc_drop h k = Some k' \<and> store_wf k' \<and> phys k' = phys k \<and>
    (if n = 1 then pages k' = (pages k)(h := None) \<and> free_frames k' = insert h (free_frames k)
     else pages k' = (pages k)(h \<mapsto> (p, n - 1)) \<and> free_frames k' = free_frames k)"
proof -
  note w = store_wfD [OF wf]
  have n: "0 < n" using w(4) [OF h] by simp
  show ?thesis
  proof (cases "n = 1")
    case True
    let ?k = "k\<lparr>pages := (pages k)(h := None)\<rparr>"
    have "frames_wf ?k" "free_frames ?k = free_frames k" using w(1) by (simp_all add: frames_wf_def free_frames_def)
    then obtain k' where k': "dealloc_frame h ?k = Some k'" "frames_wf k'" "free_frames k' = insert h (free_frames k)"
      "phys k' = phys k" "kmem.more k' = kmem.more ?k"
      using dealloc_frame_Some [of ?k h] w(2,3) [OF h] by auto
    have pg: "pages k' = (pages k)(h := None)" using k'(5) by (cases k; cases k') (simp add: kmem.defs)
    have "store_wf k'" using k' w pg unfolding store_wf_def by (auto split: if_splits)
    then show ?thesis using k' pg True h by (simp add: arc_drop_def)
  next
    case False
    then have "store_wf (k\<lparr>pages := (pages k)(h \<mapsto> (p, n - 1))\<rparr>)"
      using w h n unfolding store_wf_def by (auto simp: frames_wf_def free_frames_def)
    then show ?thesis using False n h by (simp add: arc_drop_def free_frames_def)
  qed
qed

lemma arc_clone_spec:
  assumes "store_wf k" "pages k h = Some (p, n)"
  shows "\<exists>k'. arc_clone h k = Some k' \<and> store_wf k' \<and> pages k' = (pages k)(h \<mapsto> (p, n + 1)) \<and>
    phys k' = phys k \<and> free_frames k' = free_frames k"
  using assms unfolding store_wf_def by (auto simp: arc_clone_def frames_wf_def free_frames_def)

lemma pop_pma_page_spec:
  assumes wf: "store_wf k" and bt: "bt_wf (page_manager m)"
    and own: "\<forall>h. bt_get (page_manager m) vpn = Some h \<longrightarrow> pages k h \<noteq> None"
  shows "\<exists>m' k'. pop_pma_page vpn m k = Some (m', k') \<and> store_wf k' \<and> bt_wf (page_manager m') \<and> phys k' = phys k \<and>
    bt_get (page_manager m') = (bt_get (page_manager m))(vpn := None) \<and> backen_file m' = backen_file m \<and>
    free_frames k \<subseteq> free_frames k'"
proof (cases "bt_get (page_manager m) vpn")
  case None
  then show ?thesis using wf bt by (auto simp: pop_pma_page_def fun_upd_idem)
next
  case (Some h)
  then obtain p n where "pages k h = Some (p, n)" using own by (cases "pages k h") auto
  from arc_drop_spec [OF wf this] obtain k' where "arc_drop h k = Some k'" "store_wf k'" "phys k' = phys k"
    "free_frames k \<subseteq> free_frames k'" by (auto split: if_splits)
  then show ?thesis using Some bt by (auto simp: pop_pma_page_def fun_eq_iff)
qed

lemma fill_sector_state:
  assumes "fill_sector rd h after idx (k, d) = Some (k', d')" and "after \<noteq> DEmpty"
  shows "pages k' = pages k" "falloc k' = falloc k" "length (dstate d') = length (dstate d)" "idx < length (dstate d)"
    "dstate d' ! idx \<noteq> DEmpty" "\<And>j. dstate d ! j \<noteq> DEmpty \<Longrightarrow> dstate d' ! j \<noteq> DEmpty"
  using assms by (auto simp: fill_sector_def panic_simps nth_list_update split: if_splits)

lemma mark_dirty_state:
  assumes "mark_dirty idx (k, d) = Some (k', d')"
  shows "k' = k" "length (dstate d') = length (dstate d)" "\<And>j. dstate d ! j \<noteq> DEmpty \<Longrightarrow> dstate d' ! j \<noteq> DEmpty"
  using assms by (auto simp: mark_dirty_def panic_simps nth_list_update split: if_splits)

lemma write_sectors:
  assumes "foldM (\<lambda>idx st. Option.bind (fill_sector rd h DDirty idx st) (mark_dirty idx)) l (k, d) = Some (k', d')"
  shows "pages k' = pages k \<and> falloc k' = falloc k \<and> length (dstate d') = length (dstate d) \<and>
    (\<forall>i \<in> set l. i < length (dstate d') \<and> dstate d' ! i \<noteq> DEmpty) \<and>
    (\<forall>j. dstate d ! j \<noteq> DEmpty \<longrightarrow> dstate d' ! j \<noteq> DEmpty)"
  using assms
proof (induction l arbitrary: k d)
  case Nil
  then show ?case by simp
next
  case (Cons i l)
  then obtain k1 d1 k2 d2 where f: "fill_sector rd h DDirty i (k, d) = Some (k1, d1)"
    "mark_dirty i (k1, d1) = Some (k2, d2)"
    and rest: "foldM (\<lambda>idx st. Option.bind (fill_sector rd h DDirty idx st) (mark_dirty idx)) l (k2, d2) = Some (k', d')"
    by (auto simp: panic_simps)
  note a = fill_sector_state [OF f(1)] and b = mark_dirty_state [OF f(2)] and IH = Cons.IH [OF rest]
  show ?case using IH a b by auto
qed

lemma read_sectors_present:
  "\<forall>i \<in> set l. i < length (dstate d) \<and> dstate d ! i \<noteq> DEmpty \<Longrightarrow> foldM (fill_sector rd h after) l (k, d) = Some (k, d)"
  by (induction l) (auto simp: fill_sector_def)

section \<open>Properties\<close>

text \<open>
  bytes written to a page inside its bounds are read back from it, for anonymous pages and for pages of a
  file whatever their sectors held; the sectors written are present, so the read does not go to the file.
\<close>

theorem page_write_read:
  assumes wf: "store_wf k" and w: "page_write rd h off bs k = Some k'" and len: "off + length bs \<le> PAGE_BYTES"
  shows "\<exists>k''. page_read rd' h off (length bs) k' = Some (k'', bs)"
proof -
  from w obtain p n k1 a where off: "off < PAGE_BYTES" and p: "pages k h = Some (p, n)" and a: "byte_array (ppn_to_phys h) = Some a"
    and k1: "(case disk_file p of None \<Rightarrow> Some k
        | Some d \<Rightarrow> do { (k1, d') \<leftarrow> foldM (\<lambda>idx st. Option.bind (fill_sector rd h DDirty idx st) (mark_dirty idx))
                           (sectors off (length bs)) (k, d); put_disk h d' k1 }) = Some k1"
    and k': "k' = k1\<lparr>phys := (phys k1)(a := set_bytes off bs (phys k1 a))\<rparr>"
    using len by (auto simp: page_write_def panic_simps min_absorb1)
  have data: "get_bytes (phys k' a) off (length bs) = bs" using get_bytes_set_bytes [OF len] by (simp add: k')
  show ?thesis
  proof (cases "disk_file p")
    case None
    then have "pages k' h = Some (p, n)" using k1 k' p by simp
    then show ?thesis using None off a data len by (simp add: page_read_def)
  next
    case (Some d)
    with k1 obtain k0 d' where f: "foldM (\<lambda>idx st. Option.bind (fill_sector rd h DDirty idx st) (mark_dirty idx))
        (sectors off (length bs)) (k, d) = Some (k0, d')" and pd: "put_disk h d' k0 = Some k1"
      by (auto simp: panic_simps)
    note ws = write_sectors [OF f]
    have pg: "pages k' h = Some (p\<lparr>disk_file := Some d'\<rparr>, n)" using pd ws p by (auto simp: put_disk_def k')
    have "foldM (fill_sector rd' h DSync) (sectors off (length bs)) (k', d') = Some (k', d')"
      using ws by (intro read_sectors_present) blast
    then have "page_read rd' h off (length bs) k' =
        do { k'' \<leftarrow> put_disk h d' k'; Some (k'', get_bytes (phys k'' a) off (length bs)) }"
      using pg off a len by (simp add: page_read_def)
    moreover have "put_disk h d' k' = Some (k'\<lparr>pages := (pages k')(h \<mapsto> (p\<lparr>disk_file := Some d'\<rparr>, n))\<rparr>)"
      using pg by (simp add: put_disk_def)
    ultimately show ?thesis using data by simp
  qed
qed

text \<open>The memory after boot with an empty store of pages.\<close>

definition boot_store :: pmem where
  "boot_store = kmem.extend boot_mem \<lparr>pages = Map.empty\<rparr>"

lemma boot_store_wf: "store_wf boot_store" "free_frames boot_store = free_frames boot_mem" "pages boot_store = Map.empty"
  using boot_mem_wf(1)
  by (simp_all add: boot_store_def store_wf_def frames_wf_def free_frames_def kmem.defs)

theorem page_write_read_witness:
  "\<exists>k h k' k''. page_new 0 boot_store = Some (k, h) \<and> store_wf k \<and>
    page_write (\<lambda>_ _. None) h 4094 [1, 2] k = Some k' \<and> page_read (\<lambda>_ _. None) h 4094 2 k' = Some (k'', [1, 2])"
proof -
  have "0x80300 \<in> free_frames boot_store" by (simp add: boot_store_wf boot_mem_wf)
  then have "free_frames boot_store \<noteq> {}" by blast
  from page_new_spec [OF boot_store_wf(1) this, of 0] obtain k h where
    k: "page_new 0 boot_store = Some (k, h)" "store_wf k"
    "pages k = (pages boot_store)(h \<mapsto> (\<lparr>permission = 0, disk_file = None, cow_count = 0\<rparr>, 1))" by blast
  have "frame_ppn h" using store_wfD(2) [OF k(2)] k(3) by auto
  then obtain k' where "page_write (\<lambda>_ _. None) h 4094 [1, 2] k = Some k'"
    using k(3) byte_array_ppn by (simp add: page_write_def PAGE_BYTES_def)
  then show ?thesis using k page_write_read [OF k(2), of "\<lambda>_ _. None" h 4094 "[1, 2]" k' "\<lambda>_ _. None"]
    by (auto simp: PAGE_BYTES_def numeral_2_eq_2)
qed

text \<open>
  the offset at which a sector of a file page is read is the page's number in the file shifted right, the same for
  all eight sectors: it does not depend on the sector and is 0 for the first 4096 pages.
\<close>

theorem sector_offset_constant:
  "sector_file_offset pno idx = sector_file_offset pno 0 \<and>
   (unat pno < 4096 \<longrightarrow> sector_file_offset pno idx = 0)"
proof -
  have "(PAGE_SIZE_BITS + idx * SECTOR_SIZE) mod 64 = 12"
  proof -
    have "(12 + idx * 512) mod 64 = (12 + (idx * 8) * 64) mod (64 :: nat)" by (simp add: mult.assoc)
    also have "\<dots> = 12" by (simp only: mod_mult_self1) simp
    finally show ?thesis by (simp add: PAGE_SIZE_BITS_def SECTOR_SIZE_def)
  qed
  moreover have "drop_bit 12 pno = 0" if "unat pno < 4096"
    using that by (simp add: word_unat_eq_iff unat_drop_12)
  ultimately show ?thesis by (simp add: sector_file_offset_def) (simp add: PAGE_SIZE_BITS_def)
qed

theorem sector_offset_constant_witness:
  "unat (3 :: usize) < 4096 \<and> sector_file_offset 3 5 = 0"
  using sector_offset_constant [of 3 5] by auto

end
