(* ===== verification/Block_Cache.thy ===== *)
theory Block_Cache
  imports Pma
begin

text \<open>
  The cache of disk blocks of the FAT32 file system (\<^verbatim>\<open>fs/fat32/block_cache.rs\<close>): a queue of at most 64 blocks with the
  clock algorithm. The device is the field \<open>disk\<close>, which a block is read from when it enters the cache and written back to
  when it leaves it modified. An entry counts the handles outside of the queue (\<open>holders\<close>: the strong count less one).

  The lemmas show that the cache is transparent as long as it returns, that the clock finds a victim in two rounds when
  some entry has no holder, and that an eviction never indexes past the end of the queue.
\<close>

definition SECTOR_CACHE_SIZE :: nat where "SECTOR_CACHE_SIZE = 64"

record block_cache =
  cache :: "u8 list"
  block_id :: usize
  modified :: bool

record cache_entry =
  ce_id :: usize
  blk :: block_cache
  holders :: nat
  flag :: nat

record cache_manager =
  queue :: "cache_entry list"
  clock :: nat
  disk :: "usize \<Rightarrow> u8 list"
  detached :: "block_cache list"

section \<open>One block\<close>

definition bc_new :: "usize \<Rightarrow> (usize \<Rightarrow> u8 list) \<Rightarrow> block_cache" where
  "bc_new b d = \<lparr>cache = d b, block_id = b, modified = False\<rparr>"

text \<open>\<^verbatim>\<open>get_ref\<close> and \<^verbatim>\<open>read\<close>: the \<open>n\<close> bytes of the value at an offset.\<close>

definition bc_read :: "nat \<Rightarrow> nat \<Rightarrow> block_cache \<Rightarrow> u8 list option" where
  "bc_read off n c = do { rassert (off + n \<le> SECTOR_SIZE); Some (take n (drop off (cache c))) }"

text \<open>\<^verbatim>\<open>get_mut\<close> and \<^verbatim>\<open>write\<close>: the closure \<open>f\<close> may panic.\<close>

definition bc_write :: "nat \<Rightarrow> nat \<Rightarrow> (u8 list \<Rightarrow> u8 list option) \<Rightarrow> block_cache \<Rightarrow> block_cache option" where
  "bc_write off n f c =
     do { rassert (off + n \<le> SECTOR_SIZE);
          new \<leftarrow> f (take n (drop off (cache c)));
          Some (c\<lparr>modified := True, cache := take off (cache c) @ new @ drop (off + n) (cache c)\<rparr>) }"

definition bc_sync :: "block_cache \<Rightarrow> (usize \<Rightarrow> u8 list) \<Rightarrow> block_cache \<times> (usize \<Rightarrow> u8 list)" where
  "bc_sync c d = (if modified c then (c\<lparr>modified := False\<rparr>, d(block_id c := cache c)) else (c, d))"

section \<open>The manager\<close>

definition bcm_new :: "(usize \<Rightarrow> u8 list) \<Rightarrow> cache_manager" where
  "bcm_new d = \<lparr>queue = [], clock = 0, disk = d, detached = []\<rparr>"

text \<open>Dropping the queue's handle of an entry: the block is synchronised unless it has other holders.\<close>

definition release :: "cache_entry \<Rightarrow> cache_manager \<Rightarrow> cache_manager" where
  "release e s = (if holders e = 0 then s\<lparr>disk := snd (bc_sync (blk e) (disk s))\<rparr> else s\<lparr>detached := blk e # detached s\<rparr>)"

text \<open>The clock: the result is the queue without the victim, the place of the victim, and the victim.\<close>

fun evict_loop :: "nat \<Rightarrow> cache_entry list \<Rightarrow> nat \<Rightarrow> (cache_entry list \<times> nat \<times> cache_entry) option" where
  "evict_loop 0 q c = None"
| "evict_loop (Suc fuel) q c =
     Option.bind (nth_opt q c) (\<lambda>e.
       if holders e = 0 then
         if flag e = 1 then evict_loop fuel (q[c := e\<lparr>flag := 0\<rparr>]) ((c + 1) mod SECTOR_CACHE_SIZE)
         else Some (take c q @ drop (Suc c) q, c, e)
       else evict_loop fuel q ((c + 1) mod SECTOR_CACHE_SIZE))"

text \<open>Two rounds of the clock are enough fuel.\<close>

definition get_block_cache :: "usize \<Rightarrow> cache_manager \<Rightarrow> cache_manager option" where
  "get_block_cache b s =
     (if list_ex (\<lambda>e. ce_id e = b) (queue s) then Some s
      else
        let e = \<lparr>ce_id = b, blk = bc_new b (disk s), holders = 0, flag = 1\<rparr> in
        if length (queue s) = SECTOR_CACHE_SIZE then
          do { (q, c, victim) \<leftarrow> evict_loop (2 * SECTOR_CACHE_SIZE) (queue s) (clock s);
               let s1 = release victim (s\<lparr>queue := q, clock := c\<rparr>);
               old \<leftarrow> nth_opt q c;
               Some ((release old s1)\<lparr>queue := q[c := e], clock := (c + 1) mod SECTOR_CACHE_SIZE\<rparr>) }
        else Some (s\<lparr>queue := queue s @ [e]\<rparr>))"

text \<open>Keeping the handle of a block, as the information sector of the file system does.\<close>

definition hold_block :: "usize \<Rightarrow> cache_manager \<Rightarrow> cache_manager" where
  "hold_block b s = s\<lparr>queue := map (\<lambda>x. if ce_id x = b then x\<lparr>holders := holders x + 1\<rparr> else x) (queue s)\<rparr>"

text \<open>\<^verbatim>\<open>get_block_cache(b, dev).lock()\<close> followed by an access; the handle is dropped at the end of the statement.\<close>

definition with_block :: "usize \<Rightarrow> (block_cache \<Rightarrow> (block_cache \<times> 'a) option) \<Rightarrow> cache_manager \<Rightarrow> (cache_manager \<times> 'a) option" where
  "with_block b f s =
     do { s' \<leftarrow> get_block_cache b s;
          e \<leftarrow> List.find (\<lambda>e. ce_id e = b) (queue s');
          (c, r) \<leftarrow> f (blk e);
          Some (s'\<lparr>queue := map (\<lambda>x. if ce_id x = b then x\<lparr>blk := c\<rparr> else x) (queue s')\<rparr>, r) }"

definition read_cached :: "usize \<Rightarrow> nat \<Rightarrow> nat \<Rightarrow> cache_manager \<Rightarrow> (cache_manager \<times> u8 list) option" where
  "read_cached b off n = with_block b (\<lambda>c. do { bs \<leftarrow> bc_read off n c; Some (c, bs) })"

definition write_cached :: "usize \<Rightarrow> nat \<Rightarrow> nat \<Rightarrow> (u8 list \<Rightarrow> u8 list option) \<Rightarrow> cache_manager \<Rightarrow> cache_manager option" where
  "write_cached b off n f s =
     do { (s', _) \<leftarrow> with_block b (\<lambda>c. do { c' \<leftarrow> bc_write off n f c; Some (c', ()) }) s; Some s' }"

fun sync_queue :: "cache_entry list \<Rightarrow> (usize \<Rightarrow> u8 list) \<Rightarrow> cache_entry list \<times> (usize \<Rightarrow> u8 list)" where
  "sync_queue [] d = ([], d)"
| "sync_queue (e # q) d =
     (case bc_sync (blk e) d of (c, d1) \<Rightarrow> (case sync_queue q d1 of (q', d2) \<Rightarrow> (e\<lparr>blk := c\<rparr> # q', d2)))"

definition block_cache_sync_all :: "cache_manager \<Rightarrow> cache_manager" where
  "block_cache_sync_all s = (case sync_queue (queue s) (disk s) of (q, d) \<Rightarrow> s\<lparr>queue := q, disk := d\<rparr>)"

section \<open>The clock\<close>

text \<open>Queues that differ in their flags only.\<close>

definition same_blocks :: "cache_entry list \<Rightarrow> cache_entry list \<Rightarrow> bool" where
  "same_blocks q q' \<longleftrightarrow> map (flag_update (\<lambda>_. 0)) q = map (flag_update (\<lambda>_. 0)) q'"

lemma same_blocks_refl [simp]: "same_blocks q q"
  by (simp add: same_blocks_def)

lemma same_blocks_trans: "same_blocks q q1 \<Longrightarrow> same_blocks q1 q2 \<Longrightarrow> same_blocks q q2"
  by (simp add: same_blocks_def)

lemma same_blocks_length: "same_blocks q q' \<Longrightarrow> length q' = length q"
  unfolding same_blocks_def by (metis length_map)

lemma same_blocks_clear: "c < length q \<Longrightarrow> same_blocks q (q[c := (q ! c)\<lparr>flag := 0\<rparr>])"
  by (auto simp: same_blocks_def nth_list_update intro!: nth_equalityI)

lemma same_blocks_nth:
  assumes "same_blocks q q'" "i < length q"
  shows "ce_id (q' ! i) = ce_id (q ! i)" "blk (q' ! i) = blk (q ! i)" "holders (q' ! i) = holders (q ! i)"
proof -
  have "(q' ! i)\<lparr>flag := 0\<rparr> = (q ! i)\<lparr>flag := 0\<rparr>"
    using assms same_blocks_length [OF assms(1)] unfolding same_blocks_def by (metis nth_map)
  then show "ce_id (q' ! i) = ce_id (q ! i)" "blk (q' ! i) = blk (q ! i)" "holders (q' ! i) = holders (q ! i)"
    by (metis cache_entry.select_convs(1-3) cache_entry.surjective cache_entry.update_convs(4))+
qed

lemma same_blocks_ids: "same_blocks q q' \<Longrightarrow> map ce_id q' = map ce_id q"
  using same_blocks_nth(1) [of q q'] same_blocks_length [of q q'] by (intro nth_equalityI) simp_all

lemma evict_more: "evict_loop n q c = Some x \<Longrightarrow> evict_loop (n + m) q c = Some x"
  by (induction n q c rule: evict_loop.induct) (auto simp: panic_simps split: if_splits)

text \<open>
  The clock as a pair of lists: the states of the entries before its hand, last first, and from its hand on. One miss of
  the cache is one step; a step that would index past the end of the queue or drop an entry with a holder is \<^term>\<open>None\<close>.
\<close>

datatype cstat = Held | Hot | Cold

definition stat :: "cache_entry \<Rightarrow> cstat" where
  "stat e = (if holders e \<noteq> 0 then Held else if flag e = 1 then Hot else Cold)"

fun zsweep :: "nat \<Rightarrow> cstat list \<Rightarrow> cstat list \<Rightarrow> (cstat list \<times> cstat list) option" where
  "zsweep 0 l r = None"
| "zsweep (Suc n) l [] = zsweep n [] (rev l)"
| "zsweep (Suc n) l (Held # r) = zsweep n (Held # l) r"
| "zsweep (Suc n) l (Hot # r) = zsweep n (Cold # l) r"
| "zsweep (Suc n) l (Cold # r) = Some (l, r)"

definition zstep :: "cstat list \<times> cstat list \<Rightarrow> (cstat list \<times> cstat list) option" where
  "zstep z = (case z of (l, r) \<Rightarrow>
     if length l + length r = 64 then
       if r = [] then None
       else (case zsweep 128 l r of Some (l', x # r') \<Rightarrow> if x = Held then None else Some (Hot # l', r') | _ \<Rightarrow> None)
     else Some (l, r @ [Hot]))"

fun ziter :: "nat \<Rightarrow> cstat list \<times> cstat list \<Rightarrow> (cstat list \<times> cstat list) option" where
  "ziter 0 z = Some z"
| "ziter (Suc n) z = Option.bind (zstep z) (ziter n)"

lemma ziter_add: "ziter (m + n) z = Option.bind (ziter m z) (ziter n)"
  by (induction m arbitrary: z) (auto split: bind_splits)

text \<open>
  Without a holder, and with a holder of the first entry, the clock runs into a cycle after 965 and 949 misses; no step
  of it is \<^term>\<open>None\<close>.
\<close>

lemma zcycle_free: "ziter 1413 ([], []) = ziter 965 ([], [])" "ziter 965 ([], []) \<noteq> None"
  by code_simp+

lemma zcycle_held: "ziter 1301 ([], [Held]) = ziter 949 ([], [Held])" "ziter 949 ([], [Held]) \<noteq> None"
  by code_simp+

lemma ziter_total:
  assumes cycle: "ziter (a + p) z = ziter a z" "0 < p" and def: "ziter a z \<noteq> None"
  shows "\<exists>z'. ziter n z = Some z'"
proof (induction n rule: less_induct)
  case (less n)
  show ?case
  proof (cases "a + p \<le> n")
    case True
    then obtain k where k: "n = a + p + k" using le_Suc_ex by blast
    have "ziter n z = ziter (a + k) z" using ziter_add [of "a + p" k z] ziter_add [of a k z] cycle(1) by (simp add: k)
    then show ?thesis using less [of "a + k"] cycle(2) k by simp
  next
    case False
    then obtain k where "a + p = n + k" using le_Suc_ex [of n "a + p"] by (auto simp: not_le)
    then have "Option.bind (ziter n z) (ziter k) \<noteq> None" using ziter_add [of n k z] cycle(1) def by simp
    then show ?thesis by (cases "ziter n z") auto
  qed
qed

lemma ziter_zstep: "\<exists>z'. ziter (Suc n) z0 = Some z' \<Longrightarrow> ziter n z0 = Some z \<Longrightarrow> \<exists>z'. zstep z = Some z' \<and> ziter (Suc n) z0 = Some z'"
proof -
  assume a: "\<exists>z'. ziter (Suc n) z0 = Some z'" "ziter n z0 = Some z"
  have "ziter (Suc n) z0 = Option.bind (ziter n z0) (ziter 1)" using ziter_add [of n 1 z0] by simp
  also have "\<dots> = zstep z" using a(2) by (cases "zstep z") simp_all
  finally show ?thesis using a(1) by simp
qed

lemma at_hand:
  assumes "map stat q = rev l @ x # r" "length q = 64"
  shows "length l + length r = 63" "stat (q ! length l) = x"
proof -
  have "length (rev l @ x # r) = 64" using assms by (metis length_map)
  then show "length l + length r = 63" by simp
  then show "stat (q ! length l) = x" using assms nth_map [of "length l" q stat] by (simp add: nth_append)
qed

text \<open>The eviction loop moves as the pair of lists does.\<close>

lemma evict_sim:
  assumes "zsweep n l r = Some (l', r')" "map stat q = rev l @ r" "length q = 64" "c = (if r = [] then 0 else length l)"
  shows "\<exists>q'. evict_loop n q c = Some (take (length l') q' @ drop (Suc (length l')) q', length l', q' ! length l') \<and>
    same_blocks q q' \<and> map stat q' = rev l' @ Cold # r'"
  using assms
proof (induction n l r arbitrary: q c rule: zsweep.induct)
  case (2 n l)
  have "zsweep n [] (rev l) = Some (l', r')" "map stat q = rev [] @ rev l" using 2(2,3) by simp_all
  have z: "0 = (if rev l = [] then 0 else length ([] :: cstat list))" by simp
  from 2(1) [OF \<open>zsweep n [] (rev l) = Some (l', r')\<close> \<open>map stat q = rev [] @ rev l\<close> 2(4) z] obtain q' where
    "evict_loop n q 0 = Some (take (length l') q' @ drop (Suc (length l')) q', length l', q' ! length l')"
    "same_blocks q q' \<and> map stat q' = rev l' @ Cold # r'" by auto
  then show ?case using 2(5) evict_more [of n q 0 _ 1] by (intro exI [of _ q']) simp
next
  case (3 n l r)
  note h = at_hand [OF 3(3,4)]
  have c: "c = length l" "c < 64" using 3(5) h(1) by auto
  have "stat (q ! c) = Held" using h(2) c by simp
  moreover have "(c + 1) mod SECTOR_CACHE_SIZE = (if r = [] then 0 else length (Held # l))"
    using c h(1) by (cases r) (auto simp: SECTOR_CACHE_SIZE_def)
  ultimately show ?case using 3(1) [OF _ _ 3(4), of "(c + 1) mod SECTOR_CACHE_SIZE"] 3(2,3,4) c
    by (simp add: stat_def split: if_splits)
next
  case (4 n l r)
  note h = at_hand [OF 4(3,4)]
  have c: "c = length l" "c < 64" using 4(5) h(1) by auto
  let ?q = "q[c := (q ! c)\<lparr>flag := 0\<rparr>]"
  have st: "stat (q ! c) = Hot" using h(2) c by simp
  then have "stat ((q ! c)\<lparr>flag := 0\<rparr>) = Cold" by (simp add: stat_def split: if_splits)
  then have m: "map stat ?q = rev (Cold # l) @ r" using 4(3) c by (simp add: map_update list_update_append)
  have "(c + 1) mod SECTOR_CACHE_SIZE = (if r = [] then 0 else length (Cold # l))"
    using c h(1) by (cases r) (auto simp: SECTOR_CACHE_SIZE_def)
  then obtain q' where "evict_loop n ?q ((c + 1) mod SECTOR_CACHE_SIZE) =
      Some (take (length l') q' @ drop (Suc (length l')) q', length l', q' ! length l')"
    "same_blocks ?q q'" "map stat q' = rev l' @ Cold # r'"
    using 4(1) [OF _ m] 4(2,4) by auto
  moreover have "holders (q ! c) = 0" "flag (q ! c) = 1" using st by (simp_all add: stat_def split: if_splits)
  ultimately show ?case using c 4(4) same_blocks_trans [OF same_blocks_clear [of c q]]
    by (intro exI [of _ q']) simp
next
  case (5 n l r)
  note h = at_hand [OF 5(2,3)]
  have c: "c = length l" "c < 64" using 5(4) h(1) by auto
  have "stat (q ! c) = Cold" using h(2) c by simp
  then show ?case using 5 c by (intro exI [of _ q]) (auto simp: stat_def split: if_splits)
qed simp

section \<open>The cache is transparent\<close>

definition bview :: "cache_manager \<Rightarrow> usize \<Rightarrow> u8 list" where
  "bview s b = (case List.find (\<lambda>e. ce_id e = b) (queue s) of Some e \<Rightarrow> cache (blk e) | None \<Rightarrow> disk s b)"

text \<open>Every block is cached once; an unmodified block is the one on disk.\<close>

definition bc_wf :: "cache_manager \<Rightarrow> bool" where
  "bc_wf s \<longleftrightarrow> distinct (map ce_id (queue s)) \<and> length (queue s) \<le> 64 \<and> (\<forall>b. length (disk s b) = SECTOR_SIZE) \<and>
     (\<forall>e \<in> set (queue s). block_id (blk e) = ce_id e \<and> length (cache (blk e)) = SECTOR_SIZE \<and>
        (\<not> modified (blk e) \<longrightarrow> cache (blk e) = disk s (ce_id e)))"

lemma find_entry:
  assumes "distinct (map ce_id q)" "e \<in> set q"
  shows "List.find (\<lambda>x. ce_id x = ce_id e) q = Some e"
  using assms by (induction q) (auto simp: image_iff)

lemma find_no_entry: "List.find (\<lambda>x. ce_id x = b) q = None \<longleftrightarrow> b \<notin> ce_id ` set q"
  by (auto simp: find_None_iff)

lemma bview_entry: "bc_wf s \<Longrightarrow> e \<in> set (queue s) \<Longrightarrow> bview s (ce_id e) = cache (blk e)"
  using find_entry [of "queue s" e] by (simp add: bview_def bc_wf_def)

lemma bview_disk: "b \<notin> ce_id ` set (queue s) \<Longrightarrow> bview s b = disk s b"
  using find_no_entry [of b "queue s"] by (simp add: bview_def)

lemma bview_eqI:
  assumes "bc_wf s'" "\<And>e. e \<in> set (queue s') \<Longrightarrow> cache (blk e) = v (ce_id e)" "\<And>b. b \<notin> ce_id ` set (queue s') \<Longrightarrow> disk s' b = v b"
  shows "bview s' = v"
proof
  fix b
  show "bview s' b = v b"
  proof (cases "b \<in> ce_id ` set (queue s')")
    case True
    then obtain e where "e \<in> set (queue s')" "b = ce_id e" by blast
    then show ?thesis using bview_entry [OF assms(1)] assms(2) by simp
  qed (use bview_disk assms(3) in simp)
qed

lemma bview_length: "bc_wf s \<Longrightarrow> length (bview s b) = SECTOR_SIZE"
  using bview_entry [of s] bview_disk [of b s] by (cases "b \<in> ce_id ` set (queue s)") (auto simp: bc_wf_def)

lemma release_disk:
  assumes "holders e = 0" "block_id (blk e) = ce_id e" "\<not> modified (blk e) \<Longrightarrow> cache (blk e) = disk s (ce_id e)"
  shows "release e s = s\<lparr>disk := (disk s)(ce_id e := cache (blk e))\<rparr>"
proof (cases "modified (blk e)")
  case False
  then have "(disk s)(ce_id e := cache (blk e)) = disk s" using assms(3) by simp
  then show ?thesis using assms(1) False by (simp add: release_def bc_sync_def)
qed (use assms in \<open>simp add: release_def bc_sync_def\<close>)

definition new_entry :: "usize \<Rightarrow> (usize \<Rightarrow> u8 list) \<Rightarrow> cache_entry" where
  "new_entry b d = \<lparr>ce_id = b, blk = bc_new b d, holders = 0, flag = 1\<rparr>"

lemma stat_new_entry [simp]: "stat (new_entry b d) = Hot" "ce_id (new_entry b d) = b"
  "block_id (blk (new_entry b d)) = b" "cache (blk (new_entry b d)) = d b" "modified (blk (new_entry b d)) = False"
  by (simp_all add: new_entry_def stat_def bc_new_def)

text \<open>An eviction: two entries leave the queue, both are written back if modified, the new one takes the place of the second.\<close>

lemma evict_view:
  fixes c c' :: nat
  assumes wf: "bc_wf s" and q: "same_blocks (queue s) (A @ v # e # B)" and h: "holders v = 0" "holders e = 0"
    and b: "b \<notin> ce_id ` set (queue s)"
  defines "s' \<equiv> (release e (release v (s\<lparr>queue := A @ e # B, clock := c\<rparr>)))\<lparr>queue := A @ new_entry b (disk s) # B, clock := c'\<rparr>"
  shows "bc_wf s'" "bview s' = bview s" "queue s' = A @ new_entry b (disk s) # B" "clock s' = c'"
proof -
  let ?q = "A @ v # e # B"
  have len: "length ?q = length (queue s)" using same_blocks_length [OF q] .
  have ids: "map ce_id ?q = map ce_id (queue s)" by (rule same_blocks_ids [OF q])
  have dist: "distinct (map ce_id ?q)" using wf ids by (simp only: bc_wf_def)
  have ent: "block_id (blk x) = ce_id x \<and> length (cache (blk x)) = SECTOR_SIZE \<and> (\<not> modified (blk x) \<longrightarrow> cache (blk x) = disk s (ce_id x)) \<and>
      bview s (ce_id x) = cache (blk x)" if "x \<in> set ?q" for x
  proof -
    from that [unfolded in_set_conv_nth] obtain i where i: "i < length ?q" "x = ?q ! i" by blast
    have y: "queue s ! i \<in> set (queue s)" using i(1) unfolding len by (rule nth_mem)
    have x: "ce_id x = ce_id (queue s ! i)" "blk x = blk (queue s ! i)"
      using same_blocks_nth [OF q, of i] i unfolding len by (simp_all only:)
    show ?thesis unfolding x using wf y bview_entry [OF wf y] by (simp add: bc_wf_def)
  qed
  have b': "b \<notin> ce_id ` set ?q" using b ids by (metis set_map)
  have ne: "ce_id v \<noteq> ce_id e" using dist by auto
  have s': "s' = s\<lparr>queue := A @ new_entry b (disk s) # B, clock := c', disk := (disk s)(ce_id v := cache (blk v), ce_id e := cache (blk e))\<rparr>"
  proof -
    let ?s1 = "s\<lparr>queue := A @ e # B, clock := c\<rparr>"
    let ?s2 = "?s1\<lparr>disk := (disk ?s1)(ce_id v := cache (blk v))\<rparr>"
    have "release v ?s1 = ?s2" using ent [of v] h(1) by (intro release_disk) simp_all
    moreover have "release e ?s2 = ?s2\<lparr>disk := (disk ?s2)(ce_id e := cache (blk e))\<rparr>"
      using ent [of e] h(2) ne by (intro release_disk) simp_all
    ultimately show ?thesis unfolding s'_def by simp
  qed
  have blens: "length (disk s x) = SECTOR_SIZE" for x using wf by (simp add: bc_wf_def)
  have old: "x \<in> set A \<union> set B \<Longrightarrow> ce_id x \<noteq> ce_id v \<and> ce_id x \<noteq> ce_id e" for x
  proof -
    assume "x \<in> set A \<union> set B"
    then have "ce_id x \<in> ce_id ` (set A \<union> set B)" by (rule imageI)
    then show ?thesis using dist by auto
  qed
  show wf': "bc_wf s'" unfolding bc_wf_def
  proof (intro conjI ballI allI)
    show "distinct (map ce_id (queue s'))" using dist b' by (auto simp: s')
    show "length (queue s') \<le> 64" using wf len by (simp add: s' bc_wf_def)
    show "length (disk s' x) = SECTOR_SIZE" for x using ent [of v] ent [of e] blens by (simp add: s')
    fix x assume "x \<in> set (queue s')"
    then have x: "x = new_entry b (disk s) \<or> x \<in> set A \<union> set B" by (auto simp: s')
    then show "block_id (blk x) = ce_id x" "length (cache (blk x)) = SECTOR_SIZE" using ent [of x] blens by auto
    show "\<not> modified (blk x) \<longrightarrow> cache (blk x) = disk s' (ce_id x)" using x ent [of x] old [of x] b' by (auto simp: s')
  qed
  show "bview s' = bview s"
  proof (rule bview_eqI [OF wf'])
    fix x assume "x \<in> set (queue s')"
    then show "cache (blk x) = bview s (ce_id x)" using ent bview_disk [OF b] by (auto simp: s')
  next
    fix a assume a: "a \<notin> ce_id ` set (queue s')"
    have "bview s a = disk s a" if "a \<noteq> ce_id v" "a \<noteq> ce_id e"
    proof (rule bview_disk)
      have "a \<notin> ce_id ` set ?q" using a that by (auto simp: s')
      then show "a \<notin> ce_id ` set (queue s)" using ids by (metis set_map)
    qed
    then show "disk s' a = bview s a" using ent [of v] ent [of e] by (auto simp: s')
  qed
  show "queue s' = A @ new_entry b (disk s) # B" "clock s' = c'" by (simp_all add: s')
qed

text \<open>The states the cache can be in: those after any number of misses, the first block held or not.\<close>

definition bc_rel :: "cache_manager \<Rightarrow> cstat list \<times> cstat list \<Rightarrow> bool" where
  "bc_rel s z \<longleftrightarrow> map stat (queue s) = rev (fst z) @ snd z \<and> clock s = length (fst z)"

definition bc_inv :: "cache_manager \<Rightarrow> bool" where
  "bc_inv s \<longleftrightarrow> bc_wf s \<and> (\<exists>n z. (ziter n ([], []) = Some z \<or> ziter n ([], [Held]) = Some z) \<and> bc_rel s z)"

lemma zstep_total:
  assumes "ziter n ([], []) = Some z \<or> ziter n ([], [Held]) = Some z"
  shows "\<exists>z'. zstep z = Some z' \<and> (ziter (Suc n) ([], []) = Some z' \<or> ziter (Suc n) ([], [Held]) = Some z')"
  using assms ziter_zstep [of n "([], [])" z] ziter_zstep [of n "([], [Held])" z]
    ziter_total [of 965 448 "([], [])" "Suc n"] ziter_total [of 949 352 "([], [Held])" "Suc n"] zcycle_free zcycle_held by auto

lemma get_block_step:
  assumes wf: "bc_wf s" and rel: "bc_rel s z" and z: "zstep z = Some z'" and b: "b \<notin> ce_id ` set (queue s)"
  shows "\<exists>s'. get_block_cache b s = Some s' \<and> bc_wf s' \<and> bview s' = bview s \<and> b \<in> ce_id ` set (queue s') \<and> bc_rel s' z'"
proof -
  obtain l r where lr: "z = (l, r)" by (cases z)
  have nb: "\<not> list_ex (\<lambda>e. ce_id e = b) (queue s)" using b by (auto simp: list_ex_iff)
  have st: "map stat (queue s) = rev l @ r" "clock s = length l" using rel by (simp_all add: bc_rel_def lr)
  have len: "length (queue s) = length l + length r" using arg_cong [OF st(1), of length] by simp
  show ?thesis
  proof (cases "length l + length r = 64")
    case False
    let ?s = "s\<lparr>queue := queue s @ [new_entry b (disk s)]\<rparr>"
    have "get_block_cache b s = Some ?s"
      using nb False len by (simp add: get_block_cache_def SECTOR_CACHE_SIZE_def new_entry_def)
    moreover have wf': "bc_wf ?s" using wf b False len by (auto simp: bc_wf_def)
    moreover have "bview ?s = bview s"
      using bview_entry [OF wf] bview_disk [of _ s] b by (intro bview_eqI [OF wf']) auto
    moreover have "bc_rel ?s z'" using z False st by (auto simp: zstep_def lr bc_rel_def)
    ultimately show ?thesis by (intro exI [of _ ?s]) simp
  next
    case True
    then obtain l' x r' where sw: "zsweep 128 l r = Some (l', x # r')" "x \<noteq> Held" "z' = (Hot # l', r')" and r: "r \<noteq> []"
      using z by (auto simp: zstep_def lr split: option.splits list.splits if_splits)
    have "length (queue s) = 64" "clock s = (if r = [] then 0 else length l)" using True len r st(2) by simp_all
    from evict_sim [OF sw(1) st(1) this] obtain q' where
      ev: "evict_loop 128 (queue s) (clock s) = Some (take (length l') q' @ drop (Suc (length l')) q', length l', q' ! length l')"
      and sb: "same_blocks (queue s) q'" and m: "map stat q' = rev l' @ Cold # x # r'" by blast
    obtain A v e B where q': "q' = A @ v # e # B" and A: "map stat A = rev l'" "stat v = Cold" "stat e = x" "map stat B = r'"
      using m by (auto simp: map_eq_append_conv map_eq_Cons_conv)
    have la: "length A = length l'" using arg_cong [OF A(1), of length] by simp
    have h: "holders v = 0" "holders e = 0" using A(2,3) sw(2) by (auto simp: stat_def split: if_splits)
    have "length q' = 64" using same_blocks_length [OF sb] True len by simp
    then have "length l' < 63" using q' la by simp
    note ev' = evict_view [OF wf sb [unfolded q'] h b, where c = "length l'" and c' = "(length l' + 1) mod 64"]
    have "get_block_cache b s =
        Some ((release e (release v (s\<lparr>queue := A @ e # B, clock := length l'\<rparr>)))\<lparr>queue := A @ new_entry b (disk s) # B, clock := (length l' + 1) mod 64\<rparr>)"
      using nb ev True len la unfolding q' by (simp add: get_block_cache_def SECTOR_CACHE_SIZE_def new_entry_def nth_append list_update_append Let_def)
    then show ?thesis using ev' \<open>length l' < 63\<close> sw(3) A
      by (intro exI conjI) (assumption | simp add: bc_rel_def)+
  qed
qed

lemma get_block_spec:
  assumes inv: "bc_inv s"
  shows "\<exists>s'. get_block_cache b s = Some s' \<and> bc_inv s' \<and> bview s' = bview s \<and> b \<in> ce_id ` set (queue s')"
proof (cases "b \<in> ce_id ` set (queue s)")
  case True
  then have "get_block_cache b s = Some s" by (auto simp: get_block_cache_def list_ex_iff)
  then show ?thesis using True inv by blast
next
  case False
  obtain n z where z: "bc_wf s" "ziter n ([], []) = Some z \<or> ziter n ([], [Held]) = Some z" "bc_rel s z"
    using inv by (auto simp: bc_inv_def)
  obtain z' where z': "zstep z = Some z'" "ziter (Suc n) ([], []) = Some z' \<or> ziter (Suc n) ([], [Held]) = Some z'"
    using zstep_total [OF z(2)] by blast
  from get_block_step [OF z(1,3) z'(1) False] obtain s' where
    "get_block_cache b s = Some s'" "bc_wf s'" "bview s' = bview s" "b \<in> ce_id ` set (queue s')" "bc_rel s' z'" by blast
  then show ?thesis using z'(2) unfolding bc_inv_def by blast
qed

text \<open>Replacing the contents of a cached block by modified ones.\<close>

lemma put_block:
  assumes inv: "bc_inv s" and b: "b \<in> ce_id ` set (queue s)" and c: "block_id c = b" "length (cache c) = SECTOR_SIZE"
      "\<not> modified c \<Longrightarrow> cache c = disk s b"
  defines "s' \<equiv> s\<lparr>queue := map (\<lambda>x. if ce_id x = b then x\<lparr>blk := c\<rparr> else x) (queue s)\<rparr>"
  shows "bc_inv s'" "bview s' = (bview s)(b := cache c)"
proof -
  have wf: "bc_wf s" using inv by (simp add: bc_inv_def)
  have ids: "map ce_id (queue s') = map ce_id (queue s)" by (simp add: s'_def)
  have st: "map stat (queue s') = map stat (queue s)" by (simp add: s'_def stat_def)
  have idset: "ce_id ` set (queue s') = ce_id ` set (queue s)" using ids by (metis set_map)
  have wf': "bc_wf s'" unfolding bc_wf_def
  proof (intro conjI ballI allI)
    show "distinct (map ce_id (queue s'))" using wf by (simp only: ids bc_wf_def)
    show "length (queue s') \<le> 64" "length (disk s' x) = SECTOR_SIZE" for x using wf by (simp_all add: s'_def bc_wf_def)
    fix x assume "x \<in> set (queue s')"
    then obtain y where "y \<in> set (queue s)" "x = (if ce_id y = b then y\<lparr>blk := c\<rparr> else y)" by (auto simp: s'_def)
    then show "block_id (blk x) = ce_id x" "length (cache (blk x)) = SECTOR_SIZE" "\<not> modified (blk x) \<longrightarrow> cache (blk x) = disk s' (ce_id x)"
      using wf c by (auto simp: bc_wf_def s'_def)
  qed
  moreover have "bc_rel s z \<Longrightarrow> bc_rel s' z" for z using st by (simp add: bc_rel_def) (simp add: s'_def)
  ultimately show "bc_inv s'" using inv unfolding bc_inv_def by blast
  show "bview s' = (bview s)(b := cache c)"
  proof (rule bview_eqI [OF wf'])
    fix x assume "x \<in> set (queue s')"
    then obtain y where "y \<in> set (queue s)" "x = (if ce_id y = b then y\<lparr>blk := c\<rparr> else y)" by (auto simp: s'_def)
    then show "cache (blk x) = ((bview s)(b := cache c)) (ce_id x)" using bview_entry [OF wf] by auto
  next
    fix a assume "a \<notin> ce_id ` set (queue s')"
    then show "disk s' a = ((bview s)(b := cache c)) a" using b bview_disk [of a s] unfolding idset by (auto simp: s'_def)
  qed
qed

lemma with_block_spec:
  assumes inv: "bc_inv s" and f: "\<And>c. cache c = bview s b \<Longrightarrow> f c = Some (g c, r)"
    and g: "\<And>c. cache c = bview s b \<Longrightarrow> block_id (g c) = block_id c \<and> cache (g c) = new \<and> (modified (g c) \<or> g c = c)"
    and len: "length new = SECTOR_SIZE"
  shows "\<exists>s'. with_block b f s = Some (s', r) \<and> bc_inv s' \<and> bview s' = (bview s)(b := new) \<and> b \<in> ce_id ` set (queue s')"
proof -
  obtain s1 where s1: "get_block_cache b s = Some s1" "bc_inv s1" "bview s1 = bview s" "b \<in> ce_id ` set (queue s1)"
    using get_block_spec [OF inv, of b] by blast
  have wf: "bc_wf s1" using s1(2) by (simp add: bc_inv_def)
  obtain e where e: "e \<in> set (queue s1)" "ce_id e = b" using s1(4) by blast
  have fd: "List.find (\<lambda>x. ce_id x = b) (queue s1) = Some e" using find_entry [of "queue s1" e] wf e by (simp add: bc_wf_def)
  let ?q = "map (\<lambda>x. if ce_id x = b then x\<lparr>blk := g (blk e)\<rparr> else x) (queue s1)"
  have ca: "cache (blk e) = bview s b" using bview_entry [OF wf e(1)] e(2) s1(3) by simp
  have "block_id (g (blk e)) = b" "length (cache (g (blk e))) = SECTOR_SIZE" "\<not> modified (g (blk e)) \<longrightarrow> cache (g (blk e)) = disk s1 b"
    using g [OF ca] wf e len by (auto simp: bc_wf_def)
  then have p: "bc_inv (s1\<lparr>queue := ?q\<rparr>)" "bview (s1\<lparr>queue := ?q\<rparr>) = (bview s1)(b := cache (g (blk e)))"
    using put_block [OF s1(2,4), of "g (blk e)"] by blast+
  have ids: "map ce_id ?q = map ce_id (queue s1)" by simp
  have "b \<in> ce_id ` set ?q" using s1(4) arg_cong [OF ids, of set, unfolded set_map] by (simp only: set_map)
  moreover have "with_block b f s = Some (s1\<lparr>queue := ?q\<rparr>, r)" using s1(1) fd f [OF ca] by (simp add: with_block_def)
  moreover have "cache (g (blk e)) = new" using g [OF ca] by blast
  ultimately show ?thesis using p unfolding s1(3) by (intro exI [of _ "s1\<lparr>queue := ?q\<rparr>"]) (simp del: set_map)
qed

lemma read_cached_spec:
  assumes inv: "bc_inv s" and off: "off + n \<le> SECTOR_SIZE"
  shows "\<exists>s'. read_cached b off n s = Some (s', take n (drop off (bview s b))) \<and> bc_inv s' \<and> bview s' = bview s"
proof -
  have "length (bview s b) = SECTOR_SIZE" using inv bview_length by (simp add: bc_inv_def)
  then show ?thesis using off
      with_block_spec [OF inv, of b "\<lambda>c. do { bs \<leftarrow> bc_read off n c; Some (c, bs) }" "\<lambda>c. c" "take n (drop off (bview s b))" "bview s b"]
    by (auto simp: read_cached_def bc_read_def)
qed

lemma write_cached_spec:
  assumes inv: "bc_inv s" and off: "off + n \<le> SECTOR_SIZE" and f: "f (take n (drop off (bview s b))) = Some new" "length new = n"
  shows "\<exists>s'. write_cached b off n f s = Some s' \<and> bc_inv s' \<and>
    bview s' = (bview s)(b := take off (bview s b) @ new @ drop (off + n) (bview s b)) \<and> b \<in> ce_id ` set (queue s')"
proof -
  let ?new = "take off (bview s b) @ new @ drop (off + n) (bview s b)"
  have len: "length (bview s b) = SECTOR_SIZE" using inv bview_length by (simp add: bc_inv_def)
  then have "length ?new = SECTOR_SIZE" using off f(2) by simp
  with with_block_spec [OF inv, of b "\<lambda>c. do { c' \<leftarrow> bc_write off n f c; Some (c', ()) }" "\<lambda>c. c\<lparr>modified := True, cache := ?new\<rparr>" "()" ?new]
  have "\<exists>s'. with_block b (\<lambda>c. do { c' \<leftarrow> bc_write off n f c; Some (c', ()) }) s = Some (s', ()) \<and> bc_inv s' \<and> bview s' = (bview s)(b := ?new) \<and>
      b \<in> ce_id ` set (queue s')"
    using off f len by (simp add: bc_write_def)
  then show ?thesis by (auto simp: write_cached_def)
qed

text \<open>Synchronising everything writes the contents seen through the cache to the disk.\<close>

lemma sync_queue_spec:
  assumes "distinct (map ce_id q)" "\<forall>e \<in> set q. block_id (blk e) = ce_id e \<and> (\<not> modified (blk e) \<longrightarrow> cache (blk e) = d (ce_id e))"
  shows "\<exists>q' d'. sync_queue q d = (q', d') \<and> map ce_id q' = map ce_id q \<and> map stat q' = map stat q \<and> map (cache \<circ> blk) q' = map (cache \<circ> blk) q \<and>
    map (block_id \<circ> blk) q' = map (block_id \<circ> blk) q \<and>
    (\<forall>b. d' b = (case List.find (\<lambda>e. ce_id e = b) q of Some e \<Rightarrow> cache (blk e) | None \<Rightarrow> d b))"
  using assms
proof (induction q arbitrary: d)
  case (Cons e q)
  let ?d = "snd (bc_sync (blk e) d)"
  have d: "?d = d(ce_id e := cache (blk e))" using Cons.prems(2) by (auto simp: bc_sync_def)
  have "ce_id x \<noteq> ce_id e" if "x \<in> set q" for x using Cons.prems(1) that by (auto simp: image_iff)
  then have "\<forall>x \<in> set q. block_id (blk x) = ce_id x \<and> (\<not> modified (blk x) \<longrightarrow> cache (blk x) = ?d (ce_id x))"
    using Cons.prems(2) unfolding d by auto
  have dq: "distinct (map ce_id q)" using Cons.prems(1) by simp
  from Cons.IH [OF dq \<open>\<forall>x \<in> set q. _ x\<close>] obtain q' d' where q': "sync_queue q ?d = (q', d')" "map ce_id q' = map ce_id q" "map stat q' = map stat q"
    "map (cache \<circ> blk) q' = map (cache \<circ> blk) q" "map (block_id \<circ> blk) q' = map (block_id \<circ> blk) q"
    "\<forall>b. d' b = (case List.find (\<lambda>e. ce_id e = b) q of Some e \<Rightarrow> cache (blk e) | None \<Rightarrow> ?d b)"
    by (elim exE conjE) (rule that; assumption)
  have "List.find (\<lambda>x. ce_id x = ce_id e) q = None" using Cons.prems(1) by (simp add: find_no_entry)
  then have "\<forall>b. d' b = (case List.find (\<lambda>x. ce_id x = b) (e # q) of Some e \<Rightarrow> cache (blk e) | None \<Rightarrow> d b)"
    using q'(6) by (auto simp: d split: option.splits)
  moreover have "fst (bc_sync (blk e) d) = (blk e)\<lparr>modified := False\<rparr>" by (simp add: bc_sync_def)
  moreover have "sync_queue (e # q) d = (e\<lparr>blk := fst (bc_sync (blk e) d)\<rparr> # q', d')" using q'(1) by (simp add: case_prod_beta)
  moreover have "stat (e\<lparr>blk := c\<rparr>) = stat e" for c by (simp add: stat_def)
  ultimately show ?case using q'(2-5) by (simp add: comp_def)
qed simp

lemma sync_all_spec:
  assumes inv: "bc_inv s"
  shows "bc_inv (block_cache_sync_all s) \<and> bview (block_cache_sync_all s) = bview s \<and> disk (block_cache_sync_all s) = bview s"
proof -
  have wf: "bc_wf s" using inv by (simp add: bc_inv_def)
  have "\<forall>e \<in> set (queue s). block_id (blk e) = ce_id e \<and> (\<not> modified (blk e) \<longrightarrow> cache (blk e) = disk s (ce_id e))"
    using wf by (simp add: bc_wf_def)
  with sync_queue_spec [of "queue s" "disk s"] wf obtain q' d' where q': "sync_queue (queue s) (disk s) = (q', d')"
    and m: "map ce_id q' = map ce_id (queue s)" "map stat q' = map stat (queue s)" "map (cache \<circ> blk) q' = map (cache \<circ> blk) (queue s)"
      "map (block_id \<circ> blk) q' = map (block_id \<circ> blk) (queue s)"
    and d: "\<forall>b. d' b = (case List.find (\<lambda>e. ce_id e = b) (queue s) of Some e \<Rightarrow> cache (blk e) | None \<Rightarrow> disk s b)"
    by (auto simp: bc_wf_def)
  let ?s = "block_cache_sync_all s"
  have s': "?s = s\<lparr>queue := q', disk := d'\<rparr>" by (simp add: block_cache_sync_all_def q')
  have d': "d' = bview s" using d by (auto simp: bview_def fun_eq_iff)
  have ent: "block_id (blk e) = ce_id e \<and> cache (blk e) = bview s (ce_id e)" if e: "e \<in> set q'" for e
  proof -
    from e [unfolded in_set_conv_nth] obtain i where i: "i < length q'" "e = q' ! i" by blast
    have len: "length q' = length (queue s)" using m(1) by (metis length_map)
    have "ce_id e = ce_id (queue s ! i)" "cache (blk e) = cache (blk (queue s ! i))" "block_id (blk e) = block_id (blk (queue s ! i))"
      using arg_cong [OF m(1), of "\<lambda>l. l ! i"] arg_cong [OF m(3), of "\<lambda>l. l ! i"] arg_cong [OF m(4), of "\<lambda>l. l ! i"] i len by simp_all
    moreover have "queue s ! i \<in> set (queue s)" using i len by simp
    ultimately show ?thesis using bview_entry [OF wf, of "queue s ! i"] wf by (simp add: bc_wf_def)
  qed
  have wf': "bc_wf ?s" unfolding bc_wf_def s'
    using wf m(1) ent bview_length [OF wf] arg_cong [OF m(1), of length, unfolded length_map] by (simp add: bc_wf_def d')
  have "bc_rel s z \<Longrightarrow> bc_rel ?s z" for z using m(2) by (simp add: bc_rel_def s')
  then have "bc_inv ?s" using wf' inv unfolding bc_inv_def by blast
  moreover have "bview ?s = bview s" using ent by (intro bview_eqI [OF wf']) (simp_all add: s' d')
  ultimately show ?thesis by (simp add: s' d')
qed

lemma bcm_new_inv:
  assumes "\<forall>b. length (d b) = SECTOR_SIZE"
  shows "bc_inv (bcm_new d)" "bview (bcm_new d) = d"
proof -
  have "ziter 0 ([], []) = Some ([], [])" "bc_rel (bcm_new d) ([], [])" by (simp_all add: bc_rel_def bcm_new_def)
  moreover have "bc_wf (bcm_new d)" using assms by (simp add: bc_wf_def bcm_new_def)
  ultimately show "bc_inv (bcm_new d)" unfolding bc_inv_def by blast
  show "bview (bcm_new d) = d" by (simp add: fun_eq_iff bview_def bcm_new_def)
qed

lemma hold_first:
  assumes "\<forall>b. length (d b) = SECTOR_SIZE"
  shows "\<exists>s. get_block_cache b0 (bcm_new d) = Some s \<and> bc_inv (hold_block b0 s) \<and> bview (hold_block b0 s) = d"
proof -
  let ?e = "new_entry b0 d"
  let ?s = "bcm_new d\<lparr>queue := [?e\<lparr>holders := 1\<rparr>]\<rparr>"
  have g: "get_block_cache b0 (bcm_new d) = Some (bcm_new d\<lparr>queue := [?e]\<rparr>)"
    by (simp add: get_block_cache_def bcm_new_def SECTOR_CACHE_SIZE_def new_entry_def)
  have h: "hold_block b0 (bcm_new d\<lparr>queue := [?e]\<rparr>) = ?s" by (simp add: hold_block_def new_entry_def)
  have wf: "bc_wf ?s" using assms by (simp add: bc_wf_def bcm_new_def new_entry_def bc_new_def)
  have "ziter 0 ([], [Held]) = Some ([], [Held])" "bc_rel ?s ([], [Held])" by (simp_all add: bc_rel_def bcm_new_def stat_def)
  then have "bc_inv ?s" using wf unfolding bc_inv_def by blast
  moreover have "bview ?s = d" by (rule bview_eqI [OF wf]) (auto simp: bcm_new_def new_entry_def bc_new_def)
  ultimately show ?thesis using g h by auto
qed

text \<open>The clock from any queue: it reaches every place, and clears its flag or stops.\<close>

lemma evict_reach:
  assumes "length q = 64" "c < 64" "n < 64" "holders (q ! ((c + n) mod 64)) = 0"
  shows "evict_loop (n + fuel) q c \<noteq> None \<or>
    (\<exists>q'. evict_loop (n + fuel) q c = evict_loop fuel q' ((c + n) mod 64) \<and> same_blocks q q' \<and>
      (\<forall>i < 64. flag (q ! i) \<noteq> 1 \<longrightarrow> flag (q' ! i) \<noteq> 1))"
  using assms
proof (induction n arbitrary: q c)
  case 0
  then show ?case by (intro disjI2 exI [of _ q]) simp
next
  case (Suc n)
  let ?c = "(c + 1) mod 64"
  have idx: "(?c + n) mod 64 = (c + Suc n) mod 64" by (simp add: mod_simps)
  show ?case
  proof (cases "holders (q ! c) = 0 \<and> flag (q ! c) = 1")
    case True
    let ?q = "q[c := (q ! c)\<lparr>flag := 0\<rparr>]"
    note sb = same_blocks_clear [of c q]
    have "holders (?q ! ((?c + n) mod 64)) = 0" unfolding idx using Suc.prems by (cases "(c + Suc n) mod 64 = c") (simp_all add: True)
    from Suc.IH [OF _ _ _ this] Suc.prems have "evict_loop (n + fuel) ?q ?c \<noteq> None \<or>
      (\<exists>q'. evict_loop (n + fuel) ?q ?c = evict_loop fuel q' ((?c + n) mod 64) \<and> same_blocks ?q q' \<and>
        (\<forall>i < 64. flag (?q ! i) \<noteq> 1 \<longrightarrow> flag (q' ! i) \<noteq> 1))" by simp
    moreover have "evict_loop (Suc n + fuel) q c = evict_loop (n + fuel) ?q ?c" using True Suc.prems by (simp add: SECTOR_CACHE_SIZE_def)
    moreover have "same_blocks ?q q' \<Longrightarrow> same_blocks q q'" for q' using same_blocks_trans [OF sb] Suc.prems by simp
    moreover have "flag (q ! i) \<noteq> 1 \<Longrightarrow> flag (?q ! i) \<noteq> 1" if "i < 64" for i using that Suc.prems by (simp add: nth_list_update)
    ultimately show ?thesis unfolding idx by metis
  next
    case False
    show ?thesis
    proof (cases "holders (q ! c) = 0")
      case True
      then show ?thesis using False Suc.prems by simp
    next
      case held: False
      then have "evict_loop (Suc n + fuel) q c = evict_loop (n + fuel) q ?c" using Suc.prems by (simp add: SECTOR_CACHE_SIZE_def)
      then show ?thesis using Suc.IH [of q ?c] Suc.prems unfolding idx by simp
    qed
  qed
qed

lemma evict_ends:
  assumes "length q = SECTOR_CACHE_SIZE" "c < SECTOR_CACHE_SIZE" "\<exists>e \<in> set q. holders e = 0"
  shows "evict_loop (2 * SECTOR_CACHE_SIZE) q c \<noteq> None"
proof -
  note len = assms(1,2) [unfolded SECTOR_CACHE_SIZE_def]
  obtain i where i: "i < 64" "holders (q ! i) = 0" using assms(3) len(1) by (auto simp: in_set_conv_nth)
  define n where "n = (i + 64 - c) mod 64"
  have n: "n < 64" "(c + n) mod 64 = i" using i(1) len(2) by (simp_all add: n_def mod_simps)
  have "evict_loop (n + (128 - n)) q c \<noteq> None \<or> (\<exists>q'. evict_loop (n + (128 - n)) q c = evict_loop (128 - n) q' i \<and> same_blocks q q')"
    using evict_reach [OF len n(1), of "128 - n"] i n by auto
  moreover have "evict_loop (128 - n) q' i \<noteq> None" if sb: "same_blocks q q'" for q'
  proof -
    obtain m where m: "128 - n = Suc (63 + Suc m)" using n(1) by (intro that [of "63 - n"]) simp
    have l': "length q' = 64" "holders (q' ! i) = 0" using same_blocks_length [OF sb] same_blocks_nth [OF sb, of i] i len by simp_all
    show ?thesis
    proof (cases "flag (q' ! i) = 1")
      case True
      let ?q = "q'[i := (q' ! i)\<lparr>flag := 0\<rparr>]"
      have "((i + 1) mod 64 + 63) mod 64 = i" using i(1) by (simp add: mod_simps)
      moreover have "flag (?q ! i) \<noteq> 1" "holders (?q ! i) = 0" using i l' by simp_all
      ultimately have "evict_loop (63 + Suc m) ?q ((i + 1) mod 64) \<noteq> None"
        using evict_reach [of ?q "(i + 1) mod 64" 63 "Suc m"] i l' same_blocks_nth(3) [of ?q _ i] same_blocks_length [of ?q]
        by auto
      then show ?thesis unfolding m evict_loop.simps(2) using True i l' by (simp add: SECTOR_CACHE_SIZE_def)
    next
      case False
      then show ?thesis unfolding m evict_loop.simps(2) using i l' by simp
    qed
  qed
  ultimately show ?thesis using n(1) by (simp add: SECTOR_CACHE_SIZE_def) metis
qed

lemma evict_stuck:
  assumes "length q = SECTOR_CACHE_SIZE" "c < SECTOR_CACHE_SIZE" "\<not> (\<exists>e \<in> set q. holders e = 0)"
  shows "evict_loop fuel q c = None"
  using assms
proof (induction fuel arbitrary: c)
  case (Suc fuel)
  then have "holders (q ! c) \<noteq> 0" by auto
  then have "evict_loop (Suc fuel) q c = evict_loop fuel q ((c + 1) mod SECTOR_CACHE_SIZE)" using Suc.prems(1,2) by simp
  also have "\<dots> = None" using Suc by (simp add: SECTOR_CACHE_SIZE_def)
  finally show ?case .
qed simp

section \<open>Properties\<close>

text \<open>
  C20: the block cache is transparent. Started on any disk, and after any accesses, a read of bytes inside a block returns, and
  returns what was last written there, or what is on the disk; a write changes exactly those bytes of that block as seen
  through the cache. No access panics, although the eviction replaces the entry after the one it removes and indexes
  past the queue when it removes the last: the clock never stops there. Synchronising makes the disk what is seen.
\<close>

theorem block_cache_transparent:
  assumes disk_ok: "\<forall>b. length (d b) = SECTOR_SIZE"
  shows "bc_inv (bcm_new d) \<and> bview (bcm_new d) = d \<and>
    (\<exists>s. get_block_cache b0 (bcm_new d) = Some s \<and> bc_inv (hold_block b0 s) \<and> bview (hold_block b0 s) = d) \<and>
    (\<forall>s. bc_inv s \<longrightarrow>
      (\<forall>b off n. off + n \<le> SECTOR_SIZE \<longrightarrow>
        (\<exists>s'. read_cached b off n s = Some (s', take n (drop off (bview s b))) \<and> bc_inv s' \<and> bview s' = bview s)) \<and>
      (\<forall>b off n f new. off + n \<le> SECTOR_SIZE \<longrightarrow> f (take n (drop off (bview s b))) = Some new \<longrightarrow> length new = n \<longrightarrow>
        (\<exists>s'. write_cached b off n f s = Some s' \<and> bc_inv s' \<and>
          bview s' = (bview s)(b := take off (bview s b) @ new @ drop (off + n) (bview s b)))) \<and>
      bc_inv (block_cache_sync_all s) \<and> bview (block_cache_sync_all s) = bview s \<and> disk (block_cache_sync_all s) = bview s)"
  using bcm_new_inv [OF disk_ok] hold_first [OF disk_ok, of b0] read_cached_spec write_cached_spec sync_all_spec by blast

theorem block_cache_transparent_witness:
  "\<exists>s s'. write_cached 7 4 2 (\<lambda>_. Some [1, 2]) (bcm_new (\<lambda>_. replicate 512 0)) = Some s \<and>
     read_cached 7 5 2 s = Some (s', [2, 0]) \<and> take 2 (drop 5 (disk (block_cache_sync_all s) 7)) = [2, 0]"
proof -
  let ?d = "\<lambda>_ :: usize. replicate 512 (0 :: u8)"
  have "\<forall>b. length (?d b) = SECTOR_SIZE" by (simp add: SECTOR_SIZE_def)
  note t = block_cache_transparent [OF this, of 0]
  have w1: "bview (bcm_new ?d) = ?d" using t by blast
  have w2: "\<forall>b off n f new. off + n \<le> SECTOR_SIZE \<longrightarrow> f (take n (drop off (bview (bcm_new ?d) b))) = Some new \<longrightarrow> length new = n \<longrightarrow>
    (\<exists>s'. write_cached b off n f (bcm_new ?d) = Some s' \<and> bc_inv s' \<and>
      bview s' = (bview (bcm_new ?d))(b := take off (bview (bcm_new ?d) b) @ new @ drop (off + n) (bview (bcm_new ?d) b)))" using t by blast
  have "\<exists>s. write_cached 7 4 2 (\<lambda>_. Some [1, 2]) (bcm_new ?d) = Some s \<and> bc_inv s \<and>
      bview s = ?d(7 := take 4 (?d 7) @ [1, 2] @ drop (4 + 2) (?d 7))"
    using w2 [unfolded w1, THEN spec [of _ 7], THEN spec [of _ 4], THEN spec [of _ 2], THEN spec [of _ "\<lambda>_. Some [1, 2]"], THEN spec [of _ "[1, 2]"]] by (simp add: SECTOR_SIZE_def)
  then obtain s where s: "write_cached 7 4 2 (\<lambda>_. Some [1, 2]) (bcm_new ?d) = Some s" "bc_inv s"
    "bview s = ?d(7 := take 4 (?d 7) @ [1, 2] @ drop (4 + 2) (?d 7))" by blast
  have v: "take 2 (drop 5 (bview s 7)) = [2, 0]" unfolding s(3) by (simp add: eval_nat_numeral)
  have "(5 + 2 :: nat) \<le> SECTOR_SIZE" by (simp add: SECTOR_SIZE_def)
  then have "\<exists>s'. read_cached 7 5 2 s = Some (s', take 2 (drop 5 (bview s 7)))" "disk (block_cache_sync_all s) = bview s"
    using t s(2) by blast+
  then show ?thesis using s(1) v by auto
qed

text \<open>
  C31: the clock ends. With a full queue, whatever its flags, it finds a victim within two rounds when some entry has no
  holder; when every entry is held it turns forever.
\<close>

theorem clock_ends:
  assumes "length q = SECTOR_CACHE_SIZE" "c < SECTOR_CACHE_SIZE"
  shows "(if \<exists>e \<in> set q. holders e = 0 then evict_loop (2 * SECTOR_CACHE_SIZE) q c \<noteq> None else \<forall>fuel. evict_loop fuel q c = None)"
proof (cases "\<exists>e \<in> set q. holders e = 0")
  case True
  then show ?thesis using evict_ends [OF assms] by simp
next
  case False
  then have "evict_loop fuel q c = None" for fuel using evict_stuck [OF assms] by blast
  then show ?thesis unfolding if_not_P [OF False] by blast
qed

theorem clock_ends_witness:
  "evict_loop 128 (replicate 64 (new_entry 0 (\<lambda>_. []))) 5 \<noteq> None \<and>
   (\<forall>fuel. evict_loop fuel (replicate 64 ((new_entry 0 (\<lambda>_. []))\<lparr>holders := 1\<rparr>)) 5 = None)"
  using clock_ends [of "replicate 64 (new_entry 0 (\<lambda>_. []))" 5]
    clock_ends [of "replicate 64 ((new_entry 0 (\<lambda>_. []))\<lparr>holders := 1\<rparr>)" 5]
  by (simp add: SECTOR_CACHE_SIZE_def new_entry_def)

end
