(* ===== verification/Fs_Info.thy ===== *)
theory Fs_Info
  imports Type_Cast
begin

text \<open>
  The file-system vocabulary of \<^verbatim>\<open>fs/info.rs\<close>: open flags, inode and file modes, time
  values. Clock readings are arguments.
\<close>

datatype inode_mode = Socket | Link | Regular | Block | Directory | Char | FIFO | UNKNOWN

definition inode_mode_from :: "nat \<Rightarrow> inode_mode" where
  "inode_mode_from v =
     (if v = 1 then Regular else if v = 2 then Directory else if v = 3 then Char
      else if v = 4 then Block else if v = 5 then FIFO else if v = 6 then Socket
      else if v = 7 then Link else UNKNOWN)"

type_synonym open_flags = u32

definition O_RDONLY :: open_flags where "O_RDONLY = 0"
definition O_WRONLY :: open_flags where "O_WRONLY = 1"
definition O_RDWR :: open_flags where "O_RDWR = 2"
definition O_CREAT :: open_flags where "O_CREAT = 0x40"
definition O_EXCL :: open_flags where "O_EXCL = 0x80"
definition O_TRUNC :: open_flags where "O_TRUNC = 0x200"
definition O_APPEND :: open_flags where "O_APPEND = 0x400"
definition O_NONBLOCK :: open_flags where "O_NONBLOCK = 0x800"
definition O_SYNC :: open_flags where "O_SYNC = 0x1000"
definition O_DIRECTORY :: open_flags where "O_DIRECTORY = 0x10000"
definition O_NOFOLLOW :: open_flags where "O_NOFOLLOW = 0x20000"
definition O_CLOEXEC :: open_flags where "O_CLOEXEC = 0x80000"
definition O_NOATIME :: open_flags where "O_NOATIME = 0x40000"
definition O_PATH :: open_flags where "O_PATH = 0x200000"

lemmas open_flag_defs = O_RDONLY_def O_WRONLY_def O_RDWR_def O_CREAT_def O_EXCL_def O_TRUNC_def
  O_APPEND_def O_NONBLOCK_def O_SYNC_def O_DIRECTORY_def O_NOFOLLOW_def O_CLOEXEC_def O_NOATIME_def O_PATH_def

text \<open>All declared bits, for \<^verbatim>\<open>from_bits\<close> and \<^verbatim>\<open>from_bits_truncate\<close>.\<close>

definition open_flags_all :: open_flags where
  "open_flags_all = O_WRONLY OR O_RDWR OR O_CREAT OR O_EXCL OR O_TRUNC OR O_APPEND OR O_NONBLOCK OR
     O_SYNC OR O_DIRECTORY OR O_NOFOLLOW OR O_CLOEXEC OR O_NOATIME OR O_PATH"

definition flags_remove :: "'a::len word \<Rightarrow> 'a word \<Rightarrow> 'a word" where
  "flags_remove f v = v AND NOT f"

definition flags_set :: "'a::len word \<Rightarrow> bool \<Rightarrow> 'a word \<Rightarrow> 'a word" where
  "flags_set f b v = (if b then v OR f else v AND NOT f)"

definition is_writable :: "open_flags \<Rightarrow> bool" where
  "is_writable f \<longleftrightarrow> contains f O_WRONLY \<or> contains f O_RDWR"

definition is_readable :: "open_flags \<Rightarrow> bool" where
  "is_readable f \<longleftrightarrow> contains f O_RDONLY \<or> contains f O_RDWR"

type_synonym file_mode = u8

definition FMODE_READ :: file_mode where "FMODE_READ = 1"
definition FMODE_WRITE :: file_mode where "FMODE_WRITE = 2"

definition file_mode_of_flags :: "open_flags \<Rightarrow> file_mode" where
  "file_mode_of_flags v =
     (if v = O_RDONLY then FMODE_READ else if v = O_WRONLY then FMODE_WRITE
      else if v = O_RDWR then FMODE_READ OR FMODE_WRITE else 0)"

record time_spec =
  tv_sec :: usize
  tv_nsec :: usize

definition time_spec_new :: "usize \<Rightarrow> usize \<Rightarrow> time_spec" where
  "time_spec_new now_ms now_ns = \<lparr>tv_sec = now_ms div 1000, tv_nsec = now_ns\<rparr>"

definition time_spec_msec :: "time_spec \<Rightarrow> usize" where
  "time_spec_msec t = tv_nsec t div 1000000 + tv_sec t * 1000"

definition time_spec_sec :: "time_spec \<Rightarrow> usize" where
  "time_spec_sec t = tv_sec t + tv_nsec t div 1000000000"

lemma O_CLOEXEC_bit: "contains v O_CLOEXEC \<longleftrightarrow> bit v 19"
  using contains_exp [of 19 v] by (simp add: O_CLOEXEC_def push_bit_eq_mult)

lemma O_access_bits: "contains v O_WRONLY \<longleftrightarrow> bit v 0" "contains v O_RDWR \<longleftrightarrow> bit v 1"
  using contains_exp [of 0 v] contains_exp [of 1 v] by (simp_all add: open_flag_defs push_bit_eq_mult)

lemma flags_set_cloexec: "contains (flags_set O_CLOEXEC b v) O_CLOEXEC \<longleftrightarrow> b"
  "is_writable (flags_set O_CLOEXEC b v) \<longleftrightarrow> is_writable v"
  "\<not> contains (flags_remove O_CLOEXEC v) O_CLOEXEC" "is_writable (flags_remove O_CLOEXEC v) \<longleftrightarrow> is_writable v"
proof -
  have "bit O_CLOEXEC 19" "\<not> bit O_CLOEXEC 0" "\<not> bit O_CLOEXEC (Suc 0)"
    by (simp_all add: O_CLOEXEC_def bit_numeral_rec)
  then show "contains (flags_set O_CLOEXEC b v) O_CLOEXEC \<longleftrightarrow> b"
    "is_writable (flags_set O_CLOEXEC b v) \<longleftrightarrow> is_writable v"
    "\<not> contains (flags_remove O_CLOEXEC v) O_CLOEXEC" "is_writable (flags_remove O_CLOEXEC v) \<longleftrightarrow> is_writable v"
    unfolding O_CLOEXEC_bit is_writable_def O_access_bits flags_set_def flags_remove_def
    by (simp_all add: bit_simps)
qed

text \<open>
  every set of open flags counts as readable, as \<^verbatim>\<open>O_RDONLY\<close> is zero; a descriptor opened
  write-only passes the check of \<^verbatim>\<open>sys_read\<close>.
\<close>

theorem always_readable: "is_readable f"
  by (simp add: is_readable_def O_RDONLY_def)

end
