(* ===== verification/Fat_Layout.thy ===== *)
theory Fat_Layout
  imports Block_Cache Fs_Info
begin

text \<open>
  The layout of a FAT32 volume (\<^verbatim>\<open>fs/fat32/bpb.rs\<close>, \<^verbatim>\<open>fs/fat32/utility.rs\<close>, \<^verbatim>\<open>fs/fat32/fsinfo.rs\<close>): the boot sector and
  its checks, where the table and the clusters are, the information sector, and time stamps.

  The lemmas show that the fields of the two sectors do not overlap and have the widths of the structures they are loaded
  into, that on a volume that passes the checks table entries and clusters do not overlap, and that time stamps count
  the days of the calendar; a time stamp whose month is 0, 14 or 15 panics.
\<close>

section \<open>The boot sector\<close>

type_synonym field_map = "(string \<times> nat \<times> nat) list"

definition init_map :: field_map where
  "init_map =
     [(''BS_jmpBoot'', 0, 3), (''BS_OEMName'', 3, 8), (''BPB_BytsPerSec'', 11, 2), (''BPB_SecPerClus'', 13, 1),
      (''BPB_RsvdSecCnt'', 14, 2), (''BPB_NumFATs'', 16, 1), (''BPB_RootEntCnt'', 17, 2), (''BPB_TotSec16'', 19, 2),
      (''BPB_Media'', 21, 1), (''BPB_FATSz16'', 22, 2), (''BPB_SecPerTrk'', 24, 2), (''BPB_NumHeads'', 26, 2),
      (''BPB_HiddSec'', 28, 4), (''BPB_TotSec32'', 32, 4), (''BPB_FATSz32'', 36, 4), (''BPB_ExtFlags'', 40, 2),
      (''BPB_FSVer'', 42, 2), (''BPB_RootClus'', 44, 4), (''BPB_FSInfo'', 48, 2), (''BPB_BkBootSec'', 50, 2),
      (''BPB_Reserved'', 52, 12), (''BS_DrvNum'', 64, 1), (''BS_Reserved1'', 65, 1), (''BS_BootSig'', 66, 1),
      (''BS_VollD'', 67, 4), (''BS_VolLab'', 71, 11), (''BS_FilSysType'', 82, 8), (''Signature_word'', 510, 2),
      (''FSI_LeadSig'', 0, 4), (''FSI_StrucSig'', 484, 4), (''FSI_Free_Count'', 488, 4), (''FSI_Nxt_Free'', 492, 4),
      (''FSI_TrailSig'', 508, 4)]"

record boot_sector =
  BS_jmpBoot :: "u8 list"
  BS_OEMName :: u64
  BPB_BytsPerSec :: u16
  BPB_SecPerClus :: u8
  BPB_RsvdSecCnt :: u16
  BPB_NumFATs :: u8
  BPB_RootEntCnt :: u16
  BPB_TotSec16 :: u16
  BPB_Media :: u8
  BPB_FATSz16 :: u16
  BPB_SecPerTrk :: u16
  BPB_NumHeads :: u16
  BPB_HiddSec :: u32
  BPB_TotSec32 :: u32
  BPB_FATSz32 :: u32
  BPB_ExtFlags :: u16
  BPB_FSVer :: u16
  BPB_RootClus :: u32
  BPB_FSInfo :: u16
  BPB_BkBootSec :: u16
  BPB_Reserved :: "u8 list"
  BS_DrvNum :: u8
  BS_Reserved1 :: u8
  BS_BootSig :: u8
  BS_VollD :: u32
  BS_VolLab :: "u8 list"
  BS_FilSysType :: u64
  Signature_word :: u16

definition load_fn :: "u8 list \<Rightarrow> nat \<Rightarrow> nat \<Rightarrow> u8 list" where
  "load_fn src off n = take n (drop off src)"

text \<open>A field that the map does not name keeps its default.\<close>

definition load_bytes :: "field_map \<Rightarrow> u8 list \<Rightarrow> u8 list \<Rightarrow> string \<Rightarrow> u8 list" where
  "load_bytes m data dflt name = (case map_of m name of None \<Rightarrow> dflt | Some (off, n) \<Rightarrow> load_fn data off n)"

definition load_num :: "field_map \<Rightarrow> u8 list \<Rightarrow> 'a::len word \<Rightarrow> string \<Rightarrow> 'a word" where
  "load_num m data dflt name = (case map_of m name of None \<Rightarrow> dflt | Some (off, n) \<Rightarrow> le_word (load_fn data off n))"

definition load_bpb :: "field_map \<Rightarrow> u8 list \<Rightarrow> boot_sector" where
  "load_bpb m data =
     \<lparr>BS_jmpBoot = load_bytes m data (replicate 3 0) ''BS_jmpBoot'', BS_OEMName = load_num m data 0 ''BS_OEMName'',
      BPB_BytsPerSec = load_num m data 0 ''BPB_BytsPerSec'', BPB_SecPerClus = load_num m data 0 ''BPB_SecPerClus'',
      BPB_RsvdSecCnt = load_num m data 0 ''BPB_RsvdSecCnt'', BPB_NumFATs = load_num m data 0 ''BPB_NumFATs'',
      BPB_RootEntCnt = load_num m data 0 ''BPB_RootEntCnt'', BPB_TotSec16 = load_num m data 0 ''BPB_TotSec16'',
      BPB_Media = load_num m data 0 ''BPB_Media'', BPB_FATSz16 = load_num m data 0 ''BPB_FATSz16'',
      BPB_SecPerTrk = load_num m data 0 ''BPB_SecPerTrk'', BPB_NumHeads = load_num m data 0 ''BPB_NumHeads'',
      BPB_HiddSec = load_num m data 0 ''BPB_HiddSec'', BPB_TotSec32 = load_num m data 0 ''BPB_TotSec32'',
      BPB_FATSz32 = load_num m data 0 ''BPB_FATSz32'', BPB_ExtFlags = load_num m data 0 ''BPB_ExtFlags'',
      BPB_FSVer = load_num m data 0 ''BPB_FSVer'', BPB_RootClus = load_num m data 0 ''BPB_RootClus'',
      BPB_FSInfo = load_num m data 0 ''BPB_FSInfo'', BPB_BkBootSec = load_num m data 0 ''BPB_BkBootSec'',
      BPB_Reserved = load_bytes m data (replicate 12 0) ''BPB_Reserved'', BS_DrvNum = load_num m data 0 ''BS_DrvNum'',
      BS_Reserved1 = load_num m data 0 ''BS_Reserved1'', BS_BootSig = load_num m data 0 ''BS_BootSig'',
      BS_VollD = load_num m data 0 ''BS_VollD'', BS_VolLab = load_bytes m data (replicate 11 0) ''BS_VolLab'',
      BS_FilSysType = load_num m data 0 ''BS_FilSysType'', Signature_word = load_num m data 0 ''Signature_word''\<rparr>"

definition count_ones :: "u8 \<Rightarrow> nat" where
  "count_ones w = length (filter (bit w) [0..<8])"

text \<open>The jump instruction has three bytes.\<close>

definition is_valid :: "boot_sector \<Rightarrow> bool" where
  "is_valid s \<longleftrightarrow>
     \<not> (BS_jmpBoot s ! 0 \<noteq> 0xEB \<and> BS_jmpBoot s ! 0 \<noteq> 0xE9) \<and>
     \<not> (BS_jmpBoot s ! 0 = 0xEB \<and> BS_jmpBoot s ! 2 \<noteq> 0x90) \<and>
     \<not> BPB_BytsPerSec s \<noteq> word_of_nat SECTOR_SIZE \<and>
     \<not> count_ones (BPB_SecPerClus s) \<noteq> 1 \<and>
     \<not> (BPB_SecPerClus s < 1 \<or> 128 < BPB_SecPerClus s) \<and>
     \<not> BPB_RsvdSecCnt s \<le> BPB_FSInfo s \<and>
     \<not> BPB_RsvdSecCnt s \<le> BPB_BkBootSec s \<and>
     \<not> BPB_NumFATs s = 0 \<and>
     \<not> BPB_RootEntCnt s \<noteq> 0 \<and>
     \<not> BPB_TotSec16 s \<noteq> 0 \<and>
     \<not> BPB_FATSz16 s \<noteq> 0 \<and>
     \<not> BPB_TotSec32 s = 0 \<and>
     \<not> BPB_FSVer s \<noteq> 0 \<and>
     (\<forall>b \<in> set (BPB_Reserved s). b = 0) \<and>
     \<not> BS_Reserved1 s \<noteq> 0"

section \<open>Where things are\<close>

definition fat_sector :: "boot_sector \<Rightarrow> usize" where
  "fat_sector s = ucast (BPB_RsvdSecCnt s)"

definition data_sector :: "boot_sector \<Rightarrow> usize" where
  "data_sector s = ucast (BPB_RsvdSecCnt s) + ucast (BPB_NumFATs s) * ucast (BPB_FATSz32 s)"

record fat_info =
  sector :: usize
  fi_size :: usize
  byte_per_sec :: usize
  sec_per_clus :: usize
  num_fat :: usize

definition fat_info_init :: "boot_sector \<Rightarrow> fat_info" where
  "fat_info_init s = \<lparr>sector = fat_sector s, fi_size = ucast (BPB_FATSz32 s), byte_per_sec = ucast (BPB_BytsPerSec s),
     sec_per_clus = ucast (BPB_SecPerClus s), num_fat = ucast (BPB_NumFATs s)\<rparr>"

definition cluster_to_entry :: "fat_info \<Rightarrow> usize \<Rightarrow> usize \<times> usize" where
  "cluster_to_entry fi cluster = (sector fi + (cluster * 4) div byte_per_sec fi, (cluster * 4) mod byte_per_sec fi)"

definition entry_pos :: "fat_info \<Rightarrow> usize \<Rightarrow> usize \<times> usize" where
  "entry_pos fi entry_id = (sector fi + (entry_id * 4) div byte_per_sec fi, (entry_id * 4) mod byte_per_sec fi)"

definition cluster_to_sector :: "fat_info \<Rightarrow> usize \<Rightarrow> usize" where
  "cluster_to_sector fi cluster = (cluster - 2) * sec_per_clus fi + sector fi + fi_size fi * num_fat fi"

definition count_of_clusters :: "boot_sector \<Rightarrow> usize" where
  "count_of_clusters s =
     (let data_sec = ucast (BPB_TotSec32 s) - ucast (BPB_RsvdSecCnt s) + ucast (BPB_NumFATs s) * ucast (BPB_FATSz32 s) in
      data_sec div ucast (BPB_SecPerClus s))"

section \<open>The information sector\<close>

record fs_info =
  FSI_LeadSig :: u32
  FSI_StrucSig :: u32
  FSI_Free_Count :: u32
  FSI_Nxt_Free :: u32
  FSI_TrailSig :: u32
  fsi_block :: "usize option"

definition fsinfo_empty :: fs_info where
  "fsinfo_empty = \<lparr>FSI_LeadSig = 0, FSI_StrucSig = 0, FSI_Free_Count = 0, FSI_Nxt_Free = 0, FSI_TrailSig = 0, fsi_block = None\<rparr>"

definition fsinfo_init :: "field_map \<Rightarrow> usize \<Rightarrow> fs_info \<times> cache_manager \<Rightarrow> (fs_info \<times> cache_manager) option" where
  "fsinfo_init m sector_id s = (case s of (f, c) \<Rightarrow>
     do { c1 \<leftarrow> get_block_cache sector_id c;
          let c2 = hold_block sector_id c1;
          (c3, data) \<leftarrow> read_cached sector_id 0 SECTOR_SIZE c2;
          Some (f\<lparr>fsi_block := Some sector_id,
                  FSI_LeadSig := load_num m data (FSI_LeadSig f) ''FSI_LeadSig'',
                  FSI_StrucSig := load_num m data (FSI_StrucSig f) ''FSI_StrucSig'',
                  FSI_Free_Count := load_num m data (FSI_Free_Count f) ''FSI_Free_Count'',
                  FSI_Nxt_Free := load_num m data (FSI_Nxt_Free f) ''FSI_Nxt_Free'',
                  FSI_TrailSig := load_num m data (FSI_TrailSig f) ''FSI_TrailSig''\<rparr>, c3) })"

definition store_fn :: "u32 \<Rightarrow> nat \<Rightarrow> u8 list \<Rightarrow> u8 list" where
  "store_fn v off dst = take off dst @ le_bytes 4 (unat v) @ drop (off + 4) dst"

definition store_fsinfo :: "fs_info \<Rightarrow> u8 list \<Rightarrow> u8 list" where
  "store_fsinfo f data =
     store_fn (FSI_TrailSig f) 508 (store_fn (FSI_Nxt_Free f) 492 (store_fn (FSI_Free_Count f) 488
       (store_fn (FSI_StrucSig f) 484 (store_fn (FSI_LeadSig f) 0 data))))"

definition fsinfo_drop :: "fs_info \<Rightarrow> cache_manager \<Rightarrow> cache_manager option" where
  "fsinfo_drop f c =
     do { b \<leftarrow> fsi_block f;
          (c1, data) \<leftarrow> read_cached b 0 SECTOR_SIZE c;
          c2 \<leftarrow> write_cached b 0 SECTOR_SIZE (\<lambda>_. Some (store_fsinfo f data)) c1;
          e \<leftarrow> List.find (\<lambda>e. ce_id e = b) (queue c2);
          (case bc_sync (blk e) (disk c2) of (blk', d) \<Rightarrow>
             Some (c2\<lparr>queue := map (\<lambda>x. if ce_id x = b then x\<lparr>blk := blk'\<rparr> else x) (queue c2), disk := d\<rparr>)) }"

definition fsinfo_update :: "u32 \<Rightarrow> u32 \<Rightarrow> fs_info \<Rightarrow> fs_info" where
  "fsinfo_update free_count nxt_free f = f\<lparr>FSI_Free_Count := free_count, FSI_Nxt_Free := nxt_free\<rparr>"

definition fsi_alloc_cluster :: "fs_info \<Rightarrow> fs_info \<times> usize" where
  "fsi_alloc_cluster f =
     (f\<lparr>FSI_Free_Count := FSI_Free_Count f - 1, FSI_Nxt_Free := FSI_Nxt_Free f + 1\<rparr>, ucast (FSI_Nxt_Free f))"

definition fsi_free_cluster :: "fs_info \<Rightarrow> fs_info" where
  "fsi_free_cluster f = f\<lparr>FSI_Free_Count := FSI_Free_Count f + 1\<rparr>"

definition set_free_count :: "usize \<Rightarrow> fs_info \<Rightarrow> fs_info" where
  "set_free_count n f = f\<lparr>FSI_Free_Count := ucast n\<rparr>"

definition next_free :: "usize \<Rightarrow> fs_info \<Rightarrow> fs_info" where
  "next_free n f = f\<lparr>FSI_Nxt_Free := ucast n\<rparr>"

section \<open>Time stamps\<close>

text \<open>The years of a time stamp are 1980 to 2107, so that no value leaves the range of \<^verbatim>\<open>i64\<close>.\<close>

definition MILLISEC_PER_DAY :: int where "MILLISEC_PER_DAY = 1000 * 60 * 60 * 24"
definition DAY_PER_MONTH :: "int list" where "DAY_PER_MONTH = [31, 28, 31, 30, 31, 30, 31, 31, 30, 31, 30, 31]"

definition leap_year :: "int \<Rightarrow> bool" where
  "leap_year year \<longleftrightarrow> year mod 4 = 0 \<and> (year mod 100 \<noteq> 0 \<or> year mod 400 = 0)"

definition leap_year_cnt :: "int \<Rightarrow> int option" where
  "leap_year_cnt year = do { rassert (1 \<le> year); Some (year div 4 - year div 100 + year div 400) }"

definition year_to_day_count :: "int \<Rightarrow> int option" where
  "year_to_day_count year =
     do { a \<leftarrow> leap_year_cnt (year - 1);
          b \<leftarrow> leap_year_cnt (1970 - 1);
          Some (a - b + (year - 1970) * 365) }"

definition month_to_day_count :: "nat \<Rightarrow> bool \<Rightarrow> int option" where
  "month_to_day_count month leap =
     foldM (\<lambda>i ret. do { d \<leftarrow> nth_opt DAY_PER_MONTH i; Some (ret + (d + (if i = 1 \<and> leap then 1 else 0))) }) [0..<month] 0"

definition fat_to_unix_time :: "u16 \<Rightarrow> u16 \<Rightarrow> u8 \<Rightarrow> int option" where
  "fat_to_unix_time date time tenth =
     do { let year = uint (1980 + drop_bit 9 date);
          let month = (drop_bit 5 date AND 0x0F) - 1;
          let day = uint ((date AND 0x1F) - 1);
          let hr = uint (drop_bit 11 time AND 0x1F);
          let mi = uint (drop_bit 5 time AND 0x3F);
          let sec = uint (time AND 0x1F);
          let millisec = uint tenth * 10;
          y \<leftarrow> year_to_day_count year;
          m \<leftarrow> month_to_day_count (unat month) (leap_year year);
          Some ((y + m + day) * MILLISEC_PER_DAY + ((hr * 60 + mi) * 60 + sec * 2) * 1000 + millisec) }"

definition unix_time_to_timespec :: "int \<Rightarrow> time_spec" where
  "unix_time_to_timespec t =
     (if t < 0 then \<lparr>tv_sec = 0, tv_nsec = 0\<rparr>
      else \<lparr>tv_sec = word_of_int t div 1000, tv_nsec = word_of_int t mod 1000\<rparr>)"

section \<open>Lemmas on the information sector\<close>

lemma length_store_fn [simp]: "off + 4 \<le> length d \<Longrightarrow> length (store_fn v off d) = length d"
  by (simp add: store_fn_def)

lemma load_store_fn:
  assumes "off + 4 \<le> length d"
  shows "load_fn (store_fn v off d) off 4 = le_bytes 4 (unat v)"
    "off' + 4 \<le> off \<or> off + 4 \<le> off' \<Longrightarrow> load_fn (store_fn v off d) off' 4 = load_fn d off' 4"
proof -
  show "load_fn (store_fn v off d) off 4 = le_bytes 4 (unat v)" using assms by (simp add: load_fn_def store_fn_def)
  assume o: "off' + 4 \<le> off \<or> off + 4 \<le> off'"
  show "load_fn (store_fn v off d) off' 4 = load_fn d off' 4"
  proof (rule nth_equalityI)
    show "length (load_fn (store_fn v off d) off' 4) = length (load_fn d off' 4)" using assms by (simp add: load_fn_def)
    fix i assume "i < length (load_fn (store_fn v off d) off' 4)"
    then have i: "i < 4" "off' + i < length d" using assms by (auto simp: load_fn_def)
    then show "load_fn (store_fn v off d) off' 4 ! i = load_fn d off' 4 ! i"
      using assms o by (auto simp: load_fn_def store_fn_def nth_append)
  qed
qed

lemma map_of_fsinfo:
  "map_of init_map ''FSI_LeadSig'' = Some (0, 4)" "map_of init_map ''FSI_StrucSig'' = Some (484, 4)"
  "map_of init_map ''FSI_Free_Count'' = Some (488, 4)" "map_of init_map ''FSI_Nxt_Free'' = Some (492, 4)"
  "map_of init_map ''FSI_TrailSig'' = Some (508, 4)"
  by (simp_all add: init_map_def)

lemma store_fsinfo_spec:
  assumes "length data = SECTOR_SIZE"
  shows "length (store_fsinfo f data) = SECTOR_SIZE"
    "load_fn (store_fsinfo f data) 0 4 = le_bytes 4 (unat (FSI_LeadSig f))"
    "load_fn (store_fsinfo f data) 484 4 = le_bytes 4 (unat (FSI_StrucSig f))"
    "load_fn (store_fsinfo f data) 488 4 = le_bytes 4 (unat (FSI_Free_Count f))"
    "load_fn (store_fsinfo f data) 492 4 = le_bytes 4 (unat (FSI_Nxt_Free f))"
    "load_fn (store_fsinfo f data) 508 4 = le_bytes 4 (unat (FSI_TrailSig f))"
  using assms by (simp_all add: store_fsinfo_def load_store_fn SECTOR_SIZE_def)

text \<open>The information sector goes to the disk when it is dropped.\<close>

lemma fsinfo_drop_spec:
  assumes inv: "bc_inv c" and b: "fsi_block f = Some b"
  shows "\<exists>c'. fsinfo_drop f c = Some c' \<and> disk c' b = store_fsinfo f (bview c b) \<and> (\<forall>x. length (disk c' x) = SECTOR_SIZE)"
proof -
  have len: "length (bview c b) = SECTOR_SIZE" using bview_length inv by (simp add: bc_inv_def)
  obtain c1 where c1: "read_cached b 0 SECTOR_SIZE c = Some (c1, bview c b)" "bc_inv c1" "bview c1 = bview c"
    using read_cached_spec [OF inv, of 0 SECTOR_SIZE b] len by auto
  let ?new = "store_fsinfo f (bview c b)"
  have nl: "length ?new = SECTOR_SIZE" using store_fsinfo_spec(1) [OF len] .
  obtain c2 where c2: "write_cached b 0 SECTOR_SIZE (\<lambda>_. Some ?new) c1 = Some c2" "bc_inv c2" "bview c2 = (bview c)(b := ?new)"
    "b \<in> ce_id ` set (queue c2)"
    using write_cached_spec [OF c1(2), of 0 SECTOR_SIZE "\<lambda>_. Some ?new" b ?new] len nl c1(3) by auto
  have wf: "bc_wf c2" using c2(2) by (simp add: bc_inv_def)
  obtain e where e: "e \<in> set (queue c2)" "ce_id e = b" using c2(4) by blast
  have fd: "List.find (\<lambda>x. ce_id x = b) (queue c2) = Some e" using find_entry [of "queue c2" e] wf e by (simp add: bc_wf_def)
  have ce: "cache (blk e) = ?new" using bview_entry [OF wf e(1)] e(2) c2(3) by simp
  have "snd (bc_sync (blk e) (disk c2)) = (disk c2)(b := ?new)" using wf e ce by (auto simp: bc_sync_def bc_wf_def)
  then show ?thesis using b c1(1) c2(1) fd wf nl by (auto simp: fsinfo_drop_def bc_wf_def split: prod.splits)
qed

section \<open>Lemmas on the geometry\<close>

lemma unat_ucast_up:
  fixes w :: "'a::len word"
  assumes "LENGTH('a) \<le> LENGTH('b)"
  shows "unat (ucast w :: 'b::len word) = unat w"
proof -
  have "unat w < 2 ^ LENGTH('a)" using unsigned_less [of w] .
  also have "\<dots> \<le> (2 :: nat) ^ LENGTH('b)" using assms by (simp add: power_increasing)
  finally have "unat w < 2 ^ LENGTH('b)" .
  then show ?thesis by (simp add: unsigned_ucast_eq take_bit_nat_eq_self)
qed

lemma valid_bounds:
  assumes "is_valid s"
  shows "byte_per_sec (fat_info_init s) = 512" "0 < unat (sec_per_clus (fat_info_init s))" "unat (sec_per_clus (fat_info_init s)) \<le> 128"
    "0 < unat (num_fat (fat_info_init s))"
    "unat (sector (fat_info_init s)) < 2 ^ 16" "unat (fi_size (fat_info_init s)) < 2 ^ 32" "unat (num_fat (fat_info_init s)) < 2 ^ 8"
proof -
  have "unat (BPB_SecPerClus s) \<le> 128" "BPB_SecPerClus s \<noteq> 0" "BPB_NumFATs s \<noteq> 0" "BPB_BytsPerSec s = 512"
    using assms by (auto simp: is_valid_def SECTOR_SIZE_def word_less_nat_alt not_less)
  then show "byte_per_sec (fat_info_init s) = 512" "0 < unat (sec_per_clus (fat_info_init s))" "unat (sec_per_clus (fat_info_init s)) \<le> 128"
    "0 < unat (num_fat (fat_info_init s))"
    by (simp_all add: fat_info_init_def unat_ucast_up unat_gt_0)
  show "unat (sector (fat_info_init s)) < 2 ^ 16" "unat (fi_size (fat_info_init s)) < 2 ^ 32" "unat (num_fat (fat_info_init s)) < 2 ^ 8"
    using unsigned_less [of "BPB_RsvdSecCnt s"] unsigned_less [of "BPB_FATSz32 s"] unsigned_less [of "BPB_NumFATs s"]
    by (simp_all add: fat_info_init_def fat_sector_def unat_ucast_up)
qed

text \<open>Table entries of a volume with sectors of 512 bytes.\<close>

lemma entry_pos_512:
  assumes "byte_per_sec fi = 512" "unat c < 2 ^ 60"
  shows "unat (fst (entry_pos fi c)) = (unat (sector fi) + unat c div 128) mod 2 ^ 64" "unat (snd (entry_pos fi c)) = 4 * (unat c mod 128)"
proof -
  have u: "unat (c * 4) = unat c * 4" using assms(2) by (simp add: unat_word_ariths)
  show "unat (fst (entry_pos fi c)) = (unat (sector fi) + unat c div 128) mod 2 ^ 64"
    using assms(1) by (simp add: entry_pos_def unat_word_ariths(1) unat_div u)
  show "unat (snd (entry_pos fi c)) = 4 * (unat c mod 128)"
    using assms(1) mult_mod_right [of 4 "unat c" 128] by (simp add: entry_pos_def unat_mod u mult.commute)
qed

lemma cluster_to_sector_unat:
  assumes "2 \<le> unat c" "unat c < 2 ^ 32" "unat (sec_per_clus fi) \<le> 128" "unat (sector fi) < 2 ^ 16" "unat (fi_size fi) < 2 ^ 32" "unat (num_fat fi) < 2 ^ 8"
  shows "unat (cluster_to_sector fi c) = (unat c - 2) * unat (sec_per_clus fi) + unat (sector fi) + unat (fi_size fi) * unat (num_fat fi)"
proof -
  have c: "unat (c - 2) = unat c - 2" using assms(1) by (simp add: unat_sub word_le_nat_alt)
  have "(unat c - 2) * unat (sec_per_clus fi) \<le> 2 ^ 32 * 128" using assms by (intro mult_mono) auto
  moreover have "unat (fi_size fi) * unat (num_fat fi) \<le> 2 ^ 32 * 2 ^ 8" using assms by (intro mult_mono) auto
  ultimately show ?thesis using assms(4) by (simp add: cluster_to_sector_def unat_word_ariths c)
qed

lemma scaled_apart: "(a :: nat) \<noteq> b \<Longrightarrow> a * n + n \<le> b * n \<or> b * n + n \<le> a * n"
proof -
  assume "a \<noteq> b"
  then have "Suc a \<le> b \<or> Suc b \<le> a" by linarith
  then show ?thesis using mult_le_mono1 [of "Suc a" b n] mult_le_mono1 [of "Suc b" a n] by auto
qed

section \<open>Lemmas on the calendar\<close>

lemma unat_drop_u16: "unat (drop_bit k (w :: u16)) = unat w div 2 ^ k"
  by (simp add: unat_drop_bit_eq drop_bit_eq_div del: drop_bit_eq_div) (simp add: drop_bit_eq_div)


definition year_length :: "int \<Rightarrow> int" where
  "year_length y = (if leap_year y then 366 else 365)"

definition month_length :: "int \<Rightarrow> nat \<Rightarrow> int" where
  "month_length y i = DAY_PER_MONTH ! i + (if i = 1 \<and> leap_year y then 1 else 0)"

lemma div_Suc_int: "(k :: int) > 0 \<Longrightarrow> (y + 1) div k = y div k + (if (y + 1) mod k = 0 then 1 else 0)"
proof -
  assume k: "k > 0"
  have "y = k * (y div k) + y mod k" "0 \<le> y mod k" "y mod k < k" using k by simp_all
  show ?thesis
  proof (cases "y mod k = k - 1")
    case True
    then have "y + 1 = k * (y div k + 1)" using \<open>y = k * (y div k) + y mod k\<close>
      unfolding distrib_left by linarith
    then show ?thesis using k by (metis add_diff_cancel_left' mod_mult_self1_is_0 nonzero_mult_div_cancel_left less_irrefl)
  next
    case False
    then have lt: "y mod k + 1 < k" using \<open>y mod k < k\<close> by linarith
    have "(y + 1) div k = y div k" "(y + 1) mod k = y mod k + 1"
      using int_div_pos_eq [of "y + 1" k "y div k" "y mod k + 1"] int_mod_pos_eq [of "y + 1" k "y div k" "y mod k + 1"]
        \<open>y = k * (y div k) + y mod k\<close> \<open>0 \<le> y mod k\<close> lt by linarith+
    then show ?thesis using \<open>0 \<le> y mod k\<close> by simp
  qed
qed

lemma leap_years_between: "leap_year (y + 1) \<longleftrightarrow>
  (y + 1) div 4 - (y + 1) div 100 + (y + 1) div 400 = y div 4 - y div 100 + y div 400 + 1"
  "\<not> leap_year (y + 1) \<longleftrightarrow> (y + 1) div 4 - (y + 1) div 100 + (y + 1) div 400 = y div 4 - y div 100 + y div 400"
proof -
  have "(y + 1) mod 400 = 0 \<Longrightarrow> (y + 1) mod 100 = 0" "(y + 1) mod 100 = 0 \<Longrightarrow> (y + 1) mod 4 = 0" by presburger+
  then show "leap_year (y + 1) \<longleftrightarrow>
      (y + 1) div 4 - (y + 1) div 100 + (y + 1) div 400 = y div 4 - y div 100 + y div 400 + 1"
    "\<not> leap_year (y + 1) \<longleftrightarrow> (y + 1) div 4 - (y + 1) div 100 + (y + 1) div 400 = y div 4 - y div 100 + y div 400"
    by (auto simp: leap_year_def div_Suc_int)
qed

lemma year_to_day_count_sum:
  "year_to_day_count (1970 + int n) = Some (\<Sum>k<n. year_length (1970 + int k))"
proof (induction n)
  case 0
  then show ?case by (simp add: year_to_day_count_def leap_year_cnt_def)
next
  case (Suc n)
  let ?y = "1970 + int n - 1"
  have "(?y + 1) div 4 - (?y + 1) div 100 + (?y + 1) div 400 =
      ?y div 4 - ?y div 100 + ?y div 400 + (if leap_year (?y + 1) then 1 else 0)"
    using leap_years_between [of ?y] by simp
  then show ?case using Suc by (simp add: year_to_day_count_def leap_year_cnt_def year_length_def algebra_simps split: if_splits)
qed

lemma month_count:
  "month_to_day_count m (leap_year y) = (if m \<le> 12 then Some (\<Sum>i<m. month_length y i) else None)"
proof (induction m)
  case (Suc m)
  have "month_to_day_count (Suc m) (leap_year y) =
    do { r \<leftarrow> month_to_day_count m (leap_year y); d \<leftarrow> nth_opt DAY_PER_MONTH m; Some (r + (d + (if m = 1 \<and> leap_year y then 1 else 0))) }"
    by (simp add: month_to_day_count_def foldM_append split: bind_splits)
  moreover have "length DAY_PER_MONTH = 12" by (simp add: DAY_PER_MONTH_def)
  ultimately show ?case using Suc by (auto simp: month_length_def nth_opt_def split: bind_splits)
qed (simp add: month_to_day_count_def)

section \<open>Properties\<close>

text \<open>
  C24: on a volume whose boot sector passes the checks, the information sector and the backup boot sector lie before the
  table, the entry of every cluster the table has room for lies in the first copy of the table, inside one sector, and no
  two clusters share an entry. Clusters start at or after the end of the last copy of the table, and the sectors of two clusters are disjoint.
\<close>

theorem fat_geometry:
  fixes c c' :: usize
  assumes valid: "is_valid bs" and c: "2 \<le> unat c" "unat c < 128 * unat (BPB_FATSz32 bs)" "unat c < 2 ^ 28"
    and c': "2 \<le> unat c'" "unat c' < 128 * unat (BPB_FATSz32 bs)" "unat c' < 2 ^ 28" and ne: "c \<noteq> c'"
  defines "fi \<equiv> fat_info_init bs"
  shows "unat (BPB_FSInfo bs) < unat (fat_sector bs) \<and> unat (BPB_BkBootSec bs) < unat (fat_sector bs) \<and>
    unat (fat_sector bs) \<le> unat (fst (entry_pos fi c)) \<and>
    unat (fst (entry_pos fi c)) < unat (fat_sector bs) + unat (BPB_FATSz32 bs) \<and>
    unat (snd (entry_pos fi c)) + 4 \<le> SECTOR_SIZE \<and> 4 dvd unat (snd (entry_pos fi c)) \<and>
    cluster_to_entry fi c = entry_pos fi c \<and> entry_pos fi c \<noteq> entry_pos fi c' \<and>
    unat (fat_sector bs) + unat (BPB_FATSz32 bs) \<le> unat (data_sector bs) \<and>
    unat (data_sector bs) \<le> unat (cluster_to_sector fi c) \<and>
    {unat (cluster_to_sector fi c)..<unat (cluster_to_sector fi c) + unat (sec_per_clus fi)} \<inter>
    {unat (cluster_to_sector fi c')..<unat (cluster_to_sector fi c') + unat (sec_per_clus fi)} = {}"
proof -
  note v = valid_bounds [OF valid, folded fi_def]
  have sec: "sector fi = fat_sector bs" "unat (fi_size fi) = unat (BPB_FATSz32 bs)" "unat (num_fat fi) = unat (BPB_NumFATs bs)"
    by (simp_all add: fi_def fat_info_init_def unat_ucast_up)
  have "unat (BPB_FSInfo bs) < unat (BPB_RsvdSecCnt bs)" "unat (BPB_BkBootSec bs) < unat (BPB_RsvdSecCnt bs)"
    using valid by (auto simp: is_valid_def word_le_nat_alt)
  then have res: "unat (BPB_FSInfo bs) < unat (fat_sector bs)" "unat (BPB_BkBootSec bs) < unat (fat_sector bs)"
    by (simp_all add: fat_sector_def unat_ucast_up)
  have c60: "unat c < 2 ^ 60" "unat c' < 2 ^ 60" using c(3) c'(3) by simp_all
  have lt: "unat c div 128 < unat (BPB_FATSz32 bs)" "unat c' div 128 < unat (BPB_FATSz32 bs)" using c(2) c'(2) by (simp_all add: div_less_iff_less_mult)
  have fits: "unat (sector fi) + unat x div 128 < 2 ^ 64" if "unat x < 2 ^ 28" for x :: usize
    using v(5) that div_le_dividend [of "unat x" 128] by simp
  have e: "unat (fst (entry_pos fi c)) = unat (fat_sector bs) + unat c div 128" "unat (snd (entry_pos fi c)) = 4 * (unat c mod 128)"
    "unat (fst (entry_pos fi c')) = unat (fat_sector bs) + unat c' div 128" "unat (snd (entry_pos fi c')) = 4 * (unat c' mod 128)"
    using entry_pos_512 [OF v(1) c60(1)] entry_pos_512 [OF v(1) c60(2)] fits [OF c(3)] fits [OF c'(3)] by (simp_all add: sec)
  have "entry_pos fi c \<noteq> entry_pos fi c'"
  proof
    assume "entry_pos fi c = entry_pos fi c'"
    then have "unat c div 128 = unat c' div 128" "unat c mod 128 = unat c' mod 128" using e by simp_all
    then have "unat c = unat c'" by (metis div_mult_mod_eq)
    then show False using ne by (simp add: word_unat_eq_iff)
  qed
  moreover have ds: "unat (data_sector bs) = unat (fat_sector bs) + unat (num_fat fi) * unat (fi_size fi)"
  proof -
    have "unat (num_fat fi) * unat (fi_size fi) \<le> 2 ^ 8 * 2 ^ 32" using v(6,7) by (intro mult_mono) auto
    then show ?thesis using v(5) sec by (simp add: data_sector_def fat_sector_def unat_word_ariths unat_ucast_up)
  qed
  moreover have "unat (BPB_FATSz32 bs) \<le> unat (num_fat fi) * unat (fi_size fi)" using v(4) sec(2) by simp
  moreover have cs: "unat (cluster_to_sector fi x) = (unat x - 2) * unat (sec_per_clus fi) + unat (data_sector bs)"
    if "2 \<le> unat x" "unat x < 2 ^ 28" for x
    using cluster_to_sector_unat [OF that(1) _ v(3,5,6,7)] that ds sec(1) by (simp add: mult.commute)
  moreover have "{unat (cluster_to_sector fi c)..<unat (cluster_to_sector fi c) + unat (sec_per_clus fi)} \<inter>
    {unat (cluster_to_sector fi c')..<unat (cluster_to_sector fi c') + unat (sec_per_clus fi)} = {}"
  proof -
    have "unat c - 2 \<noteq> unat c' - 2" using ne c(1) c'(1) by (simp add: word_unat_eq_iff)
    from scaled_apart [OF this, of "unat (sec_per_clus fi)"] show ?thesis using cs [OF c(1,3)] cs [OF c'(1,3)] by auto
  qed
  moreover have "cluster_to_entry fi c = entry_pos fi c" by (simp add: cluster_to_entry_def entry_pos_def)
  moreover have "4 * (unat c mod 128) + 4 \<le> SECTOR_SIZE" by (simp add: SECTOR_SIZE_def)
  ultimately show ?thesis using res e lt(1) cs [OF c(1,3)] by simp
qed

text \<open>A volume of eight sectors per cluster and a table of 1000 sectors in two copies.\<close>

definition demo_boot :: boot_sector where
  "demo_boot = (load_bpb init_map (replicate 512 0))\<lparr>BS_jmpBoot := [0xEB, 0x58, 0x90], BPB_BytsPerSec := 512, BPB_SecPerClus := 8,
     BPB_RsvdSecCnt := 32, BPB_NumFATs := 2, BPB_TotSec32 := 1000000, BPB_FATSz32 := 1000, BPB_FSInfo := 1, BPB_BkBootSec := 6\<rparr>"

lemma demo_boot_valid: "is_valid demo_boot"
proof -
  have z: "load_num init_map (replicate 512 0) 0 n = (0 :: 'a::len word)" for n
  proof -
    have "le_nat (replicate k 0) = 0" for k by (induction k) simp_all
    then show ?thesis by (simp add: load_num_def load_fn_def le_word_def split: option.splits)
  qed
  have r: "\<forall>b \<in> set (load_bytes init_map (replicate 512 0) (replicate 12 0) n). b = 0" for n
    by (auto simp: load_bytes_def load_fn_def split: option.splits)
  have "count_ones 8 = 1" by (simp add: count_ones_def upt_rec bit_iff_odd)
  then show ?thesis unfolding is_valid_def demo_boot_def load_bpb_def using r
    by (simp add: z SECTOR_SIZE_def word_le_nat_alt word_less_nat_alt)
qed

theorem fat_geometry_witness:
  "is_valid demo_boot \<and> unat (data_sector demo_boot) \<le> unat (cluster_to_sector (fat_info_init demo_boot) 5) \<and>
   entry_pos (fat_info_init demo_boot) 5 \<noteq> entry_pos (fat_info_init demo_boot) 133"
proof -
  have "BPB_FATSz32 demo_boot = 1000" by (simp add: demo_boot_def)
  then show ?thesis using fat_geometry [OF demo_boot_valid, of 5 133] demo_boot_valid by simp
qed

text \<open>
  what the information sector writes when it is dropped is what the next mount reads: after the drop a fresh cache on that
  disk loads the same five values.
\<close>

theorem fsinfo_round_trip:
  assumes inv: "bc_inv c" and b: "fsi_block f = Some b"
  shows "\<exists>c' c2. fsinfo_drop f c = Some c' \<and> fsinfo_init init_map b (fsinfo_empty, bcm_new (disk c')) = Some (f, c2) \<and> bc_inv c2"
proof -
  obtain c' where c': "fsinfo_drop f c = Some c'" "disk c' b = store_fsinfo f (bview c b)" "\<forall>x. length (disk c' x) = SECTOR_SIZE"
    using fsinfo_drop_spec [OF assms] by blast
  have len: "length (bview c b) = SECTOR_SIZE" using bview_length inv by (simp add: bc_inv_def)
  obtain s where s: "get_block_cache b (bcm_new (disk c')) = Some s" "bc_inv (hold_block b s)" "bview (hold_block b s) = disk c'"
    using hold_first [OF c'(3), of b] by blast
  obtain c2 where c2: "read_cached b 0 SECTOR_SIZE (hold_block b s) = Some (c2, disk c' b)" "bc_inv c2"
    using read_cached_spec [OF s(2), of 0 SECTOR_SIZE b] s(3) c'(3) by auto
  note st = store_fsinfo_spec [OF len, of f]
  have ld: "load_num init_map (store_fsinfo f (bview c b)) 0 ''FSI_LeadSig'' = FSI_LeadSig f"
    "load_num init_map (store_fsinfo f (bview c b)) 0 ''FSI_StrucSig'' = FSI_StrucSig f"
    "load_num init_map (store_fsinfo f (bview c b)) 0 ''FSI_Free_Count'' = FSI_Free_Count f"
    "load_num init_map (store_fsinfo f (bview c b)) 0 ''FSI_Nxt_Free'' = FSI_Nxt_Free f"
    "load_num init_map (store_fsinfo f (bview c b)) 0 ''FSI_TrailSig'' = FSI_TrailSig f"
    unfolding load_num_def map_of_fsinfo option.case prod.case st by (rule le_word_bytes)+
  have "fsinfo_init init_map b (fsinfo_empty, bcm_new (disk c')) = Some (f, c2)"
    using s(1) c2(1) b unfolding c'(2) by (simp add: fsinfo_init_def fsinfo_empty_def ld)
  then show ?thesis using c'(1) c2(2) by blast
qed

theorem fsinfo_round_trip_witness:
  "\<exists>c' c2. fsinfo_drop (fsinfo_empty\<lparr>FSI_Nxt_Free := 77, fsi_block := Some 1\<rparr>) (bcm_new (\<lambda>_. replicate 512 0)) = Some c' \<and>
     fsinfo_init init_map 1 (fsinfo_empty, bcm_new (disk c')) = Some (fsinfo_empty\<lparr>FSI_Nxt_Free := 77, fsi_block := Some 1\<rparr>, c2)"
  using fsinfo_round_trip [OF bcm_new_inv(1) [of "\<lambda>_. replicate 512 0"], of "fsinfo_empty\<lparr>FSI_Nxt_Free := 77, fsi_block := Some 1\<rparr>" 1]
  by (auto simp: SECTOR_SIZE_def)

text \<open>
  C35: a time stamp counts days by the calendar: the days of all years from 1970, of the months before its month in its year, and of its
  day, in milliseconds, plus the time of day. A month field of 0, 14 or 15 panics; the day field 0 counts as 65535 days.
\<close>

theorem fat_time_counts_days:
  fixes date time :: u16
  defines "y \<equiv> unat (drop_bit 9 date)" and "m \<equiv> unat (drop_bit 5 date AND 0x0F)" and "d \<equiv> unat (date AND 0x1F)"
  shows "fat_to_unix_time date time tenth =
    (if m = 0 \<or> 13 < m then None
     else Some (((\<Sum>k<y + 10. year_length (1970 + int k)) + (\<Sum>i<m - 1. month_length (1980 + int y) i) + (if d = 0 then 65535 else int d - 1)) *
         MILLISEC_PER_DAY +
       ((uint (drop_bit 11 time AND 0x1F) * 60 + uint (drop_bit 5 time AND 0x3F)) * 60 + uint (time AND 0x1F) * 2) * 1000 + uint tenth * 10))"
proof -
  have yb: "y < 128" using unsigned_less [where 'a = nat, of date] unat_drop_u16 [of 9 date] by (simp add: y_def)
  have year: "uint (1980 + drop_bit 9 date) = 1970 + int (y + 10)"
  proof -
    have "unat (1980 + drop_bit 9 date :: u16) = 1980 + y" using yb by (simp add: y_def unat_word_ariths)
    then show ?thesis by (simp add: uint_nat)
  qed
  have minus: "unat (w - 1 :: u16) = (if unat w = 0 then 65535 else unat w - 1)" for w
    by (cases "w = 0") (auto simp: unat_minus_one unat_eq_0 unsigned_minus_1_eq_mask mask_eq_exp_minus_1)
  have day: "uint ((date AND 0x1F) - 1) = (if d = 0 then 65535 else int d - 1)"
  proof -
    have "int (unat ((date AND 0x1F) - 1)) = int (if d = 0 then 65535 else d - 1)" unfolding d_def by (rule arg_cong [OF minus])
    also have "\<dots> = (if d = 0 then 65535 else int d - 1)" by (cases d) simp_all
    finally show ?thesis by (simp only: uint_nat)
  qed
  have mon: "unat ((drop_bit 5 date AND 0x0F) - 1) = (if m = 0 then 65535 else m - 1)" using minus by (simp add: m_def)
  have ly: "year_to_day_count (1970 + int (y + 10)) = Some (\<Sum>k<y + 10. year_length (1970 + int k))" by (rule year_to_day_count_sum)
  have lm: "month_to_day_count (if m = 0 then 65535 else m - 1) (leap_year (1970 + int (y + 10))) =
    (if m = 0 \<or> 13 < m then None else Some (\<Sum>i<m - 1. month_length (1980 + int y) i))"
    unfolding month_count by (auto simp: algebra_simps)
  show ?thesis unfolding fat_to_unix_time_def Let_def year day mon ly lm by simp
qed

end
