(* ===== verification/Fat_Table.thy ===== *)
theory Fat_Table
  imports Fat_Layout
begin

text \<open>
  The allocation table (\<^verbatim>\<open>fs/fat32/fat.rs\<close>) and files on disk (\<^verbatim>\<open>FatDiskFile\<close> of \<^verbatim>\<open>fs/fat32/fat_file.rs\<close>), over the block cache.
  Sizes and positions in a file are natural numbers, which stay far below the range of \<^verbatim>\<open>usize\<close>.

  The lemmas show that following a chain of clusters returns exactly the chain, that allocating and freeing a cluster
  changes one chain at its end and no other entry, that reading a file returns its bytes, and what writing does.
\<close>

record fat_state =
  cm :: cache_manager
  fsi :: fs_info

section \<open>Table entries\<close>

definition MAX_CLUSTER :: u32 where "MAX_CLUSTER = 0x0FFFFFEF"

datatype fat_entry_status = Next usize | EndOfFile | Free | Wrong

definition fat_status :: "u32 \<Rightarrow> fat_entry_status" where
  "fat_status v =
     (if v = 0 then Free
      else if v = 0x0FFFFFFF \<or> v = 0x0FFFFFF8 then EndOfFile
      else if 2 \<le> v \<and> v \<le> MAX_CLUSTER then Next (ucast v)
      else Wrong)"

definition next_cluster :: "u32 \<Rightarrow> usize option option" where
  "next_cluster v = (case fat_status v of Next n \<Rightarrow> Some (Some n) | EndOfFile \<Rightarrow> Some None | _ \<Rightarrow> None)"

text \<open>Accesses to the entry at a place of the table.\<close>

definition read_entry :: "usize \<times> usize \<Rightarrow> cache_manager \<Rightarrow> (cache_manager \<times> u32) option" where
  "read_entry p c = do { (c', bs) \<leftarrow> read_cached (fst p) (unat (snd p)) 4 c; Some (c', le_word bs) }"

definition write_entry :: "usize \<times> usize \<Rightarrow> (u32 \<Rightarrow> u32 option) \<Rightarrow> cache_manager \<Rightarrow> cache_manager option" where
  "write_entry p f c =
     write_cached (fst p) (unat (snd p)) 4 (\<lambda>bs. do { v \<leftarrow> f (le_word bs); Some (le_bytes 4 (unat v)) }) c"

definition alloc_cluster :: "usize option \<Rightarrow> fat_info \<Rightarrow> fat_state \<Rightarrow> (fat_state \<times> usize option) option" where
  "alloc_cluster prev_id fi s = (case fsi_alloc_cluster (fsi s) of (f, nxt) \<Rightarrow>
     do { c1 \<leftarrow> (case prev_id of
            None \<Rightarrow> Some (cm s)
          | Some p \<Rightarrow> write_entry (entry_pos fi p) (\<lambda>v. do { rassert (fat_status v = EndOfFile); Some (ucast nxt) }) (cm s));
          c2 \<leftarrow> write_entry (entry_pos fi nxt) (\<lambda>_. Some 0x0FFFFFFF) c1;
          Some (\<lparr>cm = c2, fsi = f\<rparr>, Some nxt) })"

definition free_cluster :: "usize \<Rightarrow> usize option \<Rightarrow> fat_info \<Rightarrow> fat_state \<Rightarrow> fat_state option" where
  "free_cluster i prev_id fi s =
     do { c1 \<leftarrow> (case prev_id of
            None \<Rightarrow> Some (cm s)
          | Some p \<Rightarrow> write_entry (entry_pos fi p) (\<lambda>v. do { rassert (v = ucast i); Some 0x0FFFFFFF }) (cm s));
          c2 \<leftarrow> write_entry (entry_pos fi i) (\<lambda>v. do { rassert (v = 0x0FFFFFFF); Some 0 }) c1;
          Some \<lparr>cm = c2, fsi = fsi_free_cluster (fsi s)\<rparr> }"

text \<open>The walk along a chain; a chain has at most \<open>2\<^sup>2\<^sup>8\<close> clusters unless it is cyclic, where the walk does not end.\<close>

fun chain_loop :: "nat \<Rightarrow> fat_info \<Rightarrow> usize \<Rightarrow> usize list \<Rightarrow> cache_manager \<Rightarrow> (cache_manager \<times> usize list) option" where
  "chain_loop 0 fi cluster clusters c = None"
| "chain_loop (Suc fuel) fi cluster clusters c =
     Option.bind (read_entry (cluster_to_entry fi cluster) c) (\<lambda>(c', v).
       Option.bind (next_cluster v) (\<lambda>nxt.
         case nxt of Some n \<Rightarrow> chain_loop fuel fi n (clusters @ [n]) c' | None \<Rightarrow> Some (c', clusters)))"

definition find_all_cluster :: "fat_info \<Rightarrow> usize \<Rightarrow> cache_manager \<Rightarrow> (cache_manager \<times> usize list) option" where
  "find_all_cluster fi cluster c = chain_loop (2 ^ 28) fi cluster [cluster] c"

section \<open>Files on disk\<close>

record fat_disk_file =
  clusters :: "usize list"
  df_size :: nat

definition disk_file_empty :: fat_disk_file where
  "disk_file_empty = \<lparr>clusters = [], df_size = 0\<rparr>"

definition cluster_bytes :: "fat_info \<Rightarrow> nat" where
  "cluster_bytes fi = unat (sec_per_clus fi) * SECTOR_SIZE"

definition cal_cluster_size :: "fat_info \<Rightarrow> usize \<Rightarrow> fat_disk_file \<times> cache_manager \<Rightarrow> (fat_disk_file \<times> cache_manager) option" where
  "cal_cluster_size fi data_cluster s = (case s of (f, c) \<Rightarrow>
     if data_cluster = 0 then Some (f, c)
     else do { (c', cs) \<leftarrow> find_all_cluster fi data_cluster c;
               Some (f\<lparr>clusters := cs, df_size := (if df_size f = 0 then length cs * cluster_bytes fi else df_size f)\<rparr>, c') })"

definition disk_file_init :: "fat_info \<Rightarrow> usize \<Rightarrow> cache_manager \<Rightarrow> (fat_disk_file \<times> cache_manager) option" where
  "disk_file_init fi data_cluster c = cal_cluster_size fi data_cluster (disk_file_empty, c)"

definition first_cluster :: "fat_disk_file \<Rightarrow> usize option" where
  "first_cluster f = nth_opt (clusters f) 0"

definition last_cluster :: "fat_disk_file \<Rightarrow> usize option" where
  "last_cluster f = (if clusters f = [] then None else Some (last (clusters f)))"

text \<open>The loops of \<^verbatim>\<open>modify_size\<close>; each turn changes the number of clusters by one.\<close>

fun shrink_loop :: "nat \<Rightarrow> fat_info \<Rightarrow> nat \<Rightarrow> usize list \<times> fat_state \<Rightarrow> (usize list \<times> fat_state) option" where
  "shrink_loop 0 fi num s = None"
| "shrink_loop (Suc fuel) fi num s = (case s of (cs, st) \<Rightarrow>
     if num < length cs then
       (let rest = butlast cs in
        Option.bind (free_cluster (last cs) (if rest = [] then None else Some (last rest)) fi st)
          (\<lambda>st'. shrink_loop fuel fi num (rest, st')))
     else Some (cs, st))"

fun grow_loop :: "nat \<Rightarrow> fat_info \<Rightarrow> nat \<Rightarrow> usize list \<times> fat_state \<Rightarrow> (usize list \<times> fat_state) option" where
  "grow_loop 0 fi num s = None"
| "grow_loop (Suc fuel) fi num s = (case s of (cs, st) \<Rightarrow>
     if length cs < num then
       Option.bind (if cs = [] then None else Some (last cs)) (\<lambda>end_clu.
         Option.bind (alloc_cluster (Some end_clu) fi st) (\<lambda>(st', nc).
           Option.bind nc (\<lambda>n. grow_loop fuel fi num (cs @ [n], st'))))
     else Some (cs, st))"

definition modify_size :: "fat_info \<Rightarrow> int \<Rightarrow> usize \<Rightarrow> fat_disk_file \<times> fat_state \<Rightarrow> ((fat_disk_file \<times> fat_state) \<times> nat) option" where
  "modify_size fi diff_size data_cluster s = (case s of (f, st) \<Rightarrow>
     do { let new_sz = nat (int (df_size f) + diff_size);
          let clus_num = (new_sz + cluster_bytes fi - 1) div cluster_bytes fi;
          (cs, st1, sz) \<leftarrow>
            (if diff_size < 0 \<and> 0 < int (df_size f) + diff_size then
               do { (cs, st1) \<leftarrow> shrink_loop (length (clusters f) + 1) fi clus_num (clusters f, st); Some (cs, st1, new_sz) }
             else if 0 < diff_size then
               do { (cs, st1) \<leftarrow> grow_loop (clus_num + 1) fi clus_num (clusters f, st); Some (cs, st1, new_sz) }
             else Some (clusters f, st, df_size f));
          (f', c') \<leftarrow> cal_cluster_size fi data_cluster (f\<lparr>clusters := cs, df_size := sz\<rparr>, cm st1);
          Some ((f', st1\<lparr>cm := c'\<rparr>), df_size f') })"

text \<open>One sector of a read: the part of it inside \<open>[st, ed)\<close> goes to the buffer. \<open>n\<close> is the sector's number in the file.\<close>

definition splice :: "nat \<Rightarrow> u8 list \<Rightarrow> u8 list \<Rightarrow> u8 list option" where
  "splice at new data = do { rassert (new = [] \<or> at + length new \<le> length data);
     Some (take at data @ new @ drop (at + length new) data) }"

definition read_sector :: "nat \<Rightarrow> nat \<Rightarrow> usize \<Rightarrow> nat \<Rightarrow> u8 list \<times> cache_manager \<Rightarrow> (u8 list \<times> cache_manager) option" where
  "read_sector st ed sec n s = (case s of (data, c) \<Rightarrow>
     let sector_st = n * SECTOR_SIZE; sector_ed = sector_st + SECTOR_SIZE in
     if sector_ed \<le> st \<or> ed \<le> sector_st then Some (data, c)
     else
       do { let cur_st = max sector_st st;
            let cur_ed = min sector_ed ed;
            (c', tmp) \<leftarrow> read_cached sec 0 SECTOR_SIZE c;
            data' \<leftarrow> splice (cur_st - st) (take (cur_ed - cur_st) (drop (cur_st - sector_st) tmp)) data;
            Some (data', c') })"

definition disk_read_loop ::
  "(nat \<Rightarrow> nat \<Rightarrow> usize \<Rightarrow> nat \<Rightarrow> u8 list \<times> cache_manager \<Rightarrow> (u8 list \<times> cache_manager) option) \<Rightarrow>
   fat_info \<Rightarrow> fat_disk_file \<Rightarrow> nat \<Rightarrow> nat \<Rightarrow> u8 list \<times> cache_manager \<Rightarrow> (u8 list \<times> cache_manager) option" where
  "disk_read_loop one fi f st ed s =
     foldM (\<lambda>clu_id s.
       do { cluster_id \<leftarrow> nth_opt (clusters f) clu_id;
            let sector_id = cluster_to_sector fi cluster_id;
            foldM (\<lambda>j. one st ed (sector_id + of_nat j) (clu_id * unat (sec_per_clus fi) + j)) [0..<unat (sec_per_clus fi)] s })
       [st div cluster_bytes fi..<(ed + cluster_bytes fi - 1) div cluster_bytes fi] s"

definition disk_read :: "fat_info \<Rightarrow> fat_disk_file \<Rightarrow> nat \<Rightarrow> u8 list \<times> cache_manager \<Rightarrow> ((u8 list \<times> cache_manager) \<times> nat) option" where
  "disk_read fi f offset s =
     do { let st = min offset (df_size f);
          let ed = min (offset + length (fst s)) (df_size f);
          s' \<leftarrow> disk_read_loop read_sector fi f st ed s;
          Some (s', ed - st) }"

text \<open>
  One sector of a write: a sector that is not covered completely is read first; then the temporary copy goes to the
  caller's buffer and back to the sector.
\<close>

definition write_sector :: "nat \<Rightarrow> nat \<Rightarrow> usize \<Rightarrow> nat \<Rightarrow> u8 list \<times> cache_manager \<Rightarrow> (u8 list \<times> cache_manager) option" where
  "write_sector st ed sec n s = (case s of (data, c) \<Rightarrow>
     let sector_st = n * SECTOR_SIZE; sector_ed = sector_st + SECTOR_SIZE in
     if sector_ed \<le> st \<or> ed \<le> sector_st then Some (data, c)
     else
       do { let cur_st = max sector_st st;
            let cur_ed = min sector_ed ed;
            (c', tmp) \<leftarrow> (if cur_st \<noteq> sector_st \<or> cur_ed \<noteq> sector_ed then read_cached sec 0 SECTOR_SIZE c
                         else Some (c, replicate SECTOR_SIZE 0));
            data' \<leftarrow> splice (cur_st - st) (take (cur_ed - cur_st) (drop (cur_st - sector_st) tmp)) data;
            c'' \<leftarrow> write_cached sec 0 SECTOR_SIZE (\<lambda>_. Some tmp) c';
            Some (data', c'') })"

definition disk_write ::
  "fat_info \<Rightarrow> fat_disk_file \<Rightarrow> nat \<Rightarrow> usize \<Rightarrow> u8 list \<times> fat_state \<Rightarrow> ((fat_disk_file \<times> u8 list \<times> fat_state) \<times> nat) option" where
  "disk_write fi f offset data_cluster s = (case s of (data, fs) \<Rightarrow>
     do { let st = min offset (df_size f);
          let ed = min (offset + length data) (df_size f);
          ((f1, fs1), _) \<leftarrow> (if df_size f < ed then modify_size fi (int (ed - df_size f)) data_cluster (f, fs) else Some ((f, fs), 0));
          (data', c') \<leftarrow> disk_read_loop write_sector fi f1 st ed (data, cm fs1);
          Some ((f1, data', fs1\<lparr>cm := c'\<rparr>), ed - st) })"

definition disk_read_all :: "fat_info \<Rightarrow> fat_disk_file \<Rightarrow> cache_manager \<Rightarrow> (u8 list \<times> cache_manager) option" where
  "disk_read_all fi f c = do { (s, _) \<leftarrow> disk_read fi f 0 (replicate (df_size f) 0, c); Some s }"

text \<open>The inode of a file answers with zero, whatever was read or written.\<close>

definition fat_inode_read :: "fat_info \<Rightarrow> fat_disk_file \<Rightarrow> nat \<Rightarrow> u8 list \<times> cache_manager \<Rightarrow> ((u8 list \<times> cache_manager) \<times> nat os_result) option" where
  "fat_inode_read fi f offset s = do { (s', _) \<leftarrow> disk_read fi f offset s; Some (s', Inr 0) }"

definition fat_inode_write ::
  "fat_info \<Rightarrow> fat_disk_file \<Rightarrow> nat \<Rightarrow> usize \<Rightarrow> u8 list \<times> fat_state \<Rightarrow> ((fat_disk_file \<times> u8 list \<times> fat_state) \<times> nat os_result) option" where
  "fat_inode_write fi f offset data_cluster s = do { (s', _) \<leftarrow> disk_write fi f offset data_cluster s; Some (s', Inr 0) }"

section \<open>Entries seen through the cache\<close>

definition fval :: "(usize \<Rightarrow> u8 list) \<Rightarrow> fat_info \<Rightarrow> usize \<Rightarrow> u32" where
  "fval v fi c = le_word (take 4 (drop (unat (snd (entry_pos fi c))) (v (fst (entry_pos fi c)))))"

definition fi_ok :: "fat_info \<Rightarrow> bool" where
  "fi_ok fi \<longleftrightarrow> byte_per_sec fi = 512 \<and> unat (sector fi) < 2 ^ 16"

lemma entry_bounds:
  assumes "fi_ok fi" "unat c < 2 ^ 28"
  shows "unat (fst (entry_pos fi c)) = unat (sector fi) + unat c div 128" "unat (snd (entry_pos fi c)) = 4 * (unat c mod 128)"
    "unat (snd (entry_pos fi c)) + 4 \<le> SECTOR_SIZE"
proof -
  have c: "unat c < 2 ^ 60" and b: "byte_per_sec fi = 512" and s: "unat (sector fi) < 2 ^ 16" using assms by (simp_all add: fi_ok_def)
  have "unat (sector fi) + unat c div 128 < 2 ^ 64" using s assms(2) div_le_dividend [of "unat c" 128] by simp
  then show "unat (fst (entry_pos fi c)) = unat (sector fi) + unat c div 128" "unat (snd (entry_pos fi c)) = 4 * (unat c mod 128)"
    using entry_pos_512 [OF b c] by simp_all
  then show "unat (snd (entry_pos fi c)) + 4 \<le> SECTOR_SIZE" by (simp add: SECTOR_SIZE_def)
qed

lemma entry_apart:
  assumes "fi_ok fi" "unat c < 2 ^ 28" "unat d < 2 ^ 28" "c \<noteq> d" "fst (entry_pos fi c) = fst (entry_pos fi d)"
  shows "unat (snd (entry_pos fi c)) + 4 \<le> unat (snd (entry_pos fi d)) \<or> unat (snd (entry_pos fi d)) + 4 \<le> unat (snd (entry_pos fi c))"
proof -
  have "unat c div 128 = unat d div 128" using entry_bounds(1) [OF assms(1,2)] entry_bounds(1) [OF assms(1,3)] assms(5) by simp
  moreover have "unat c \<noteq> unat d" using assms(4) by (simp add: word_unat_eq_iff)
  ultimately have "unat c mod 128 \<noteq> unat d mod 128" by (metis div_mult_mod_eq)
  then show ?thesis using entry_bounds(2) [OF assms(1,2)] entry_bounds(2) [OF assms(1,3)] by auto
qed

lemma read_entry_spec:
  assumes "bc_inv c" "fi_ok fi" "unat x < 2 ^ 28"
  shows "\<exists>c'. read_entry (entry_pos fi x) c = Some (c', fval (bview c) fi x) \<and> bc_inv c' \<and> bview c' = bview c"
  using read_cached_spec [OF assms(1) entry_bounds(3) [OF assms(2,3)], of "fst (entry_pos fi x)"]
  by (auto simp: read_entry_def fval_def)

lemma take_drop_update:
  assumes "off + 4 \<le> length b" "length new = 4"
  shows "take 4 (drop off (take off b @ new @ drop (off + 4) b)) = new"
    "off' + 4 \<le> off \<or> off + 4 \<le> off' \<Longrightarrow> take 4 (drop off' (take off b @ new @ drop (off + 4) b)) = take 4 (drop off' b)"
proof -
  show "take 4 (drop off (take off b @ new @ drop (off + 4) b)) = new" using assms by simp
  assume "off' + 4 \<le> off \<or> off + 4 \<le> off'"
  then show "take 4 (drop off' (take off b @ new @ drop (off + 4) b)) = take 4 (drop off' b)"
    using assms by (intro nth_equalityI) (auto simp: nth_append)
qed

lemma write_entry_spec:
  assumes inv: "bc_inv c" and fi: "fi_ok fi" and x: "unat x < 2 ^ 28" and f: "f (fval (bview c) fi x) = Some v"
  shows "\<exists>c'. write_entry (entry_pos fi x) f c = Some c' \<and> bc_inv c' \<and>
    (\<forall>y. unat y < 2 ^ 28 \<longrightarrow> fval (bview c') fi y = (if y = x then v else fval (bview c) fi y)) \<and>
    (\<forall>b. b \<noteq> fst (entry_pos fi x) \<longrightarrow> bview c' b = bview c b)"
proof -
  let ?b = "fst (entry_pos fi x)" and ?o = "unat (snd (entry_pos fi x))"
  note o = entry_bounds(3) [OF fi x]
  have len: "length (bview c ?b) = SECTOR_SIZE" using bview_length inv by (simp add: bc_inv_def)
  have "(do { v \<leftarrow> f (le_word (take 4 (drop ?o (bview c ?b)))); Some (le_bytes 4 (unat v)) }) = Some (le_bytes 4 (unat v))"
    using f by (simp add: fval_def)
  from write_cached_spec [OF inv o, of "\<lambda>bs. do { v \<leftarrow> f (le_word bs); Some (le_bytes 4 (unat v)) }" ?b "le_bytes 4 (unat v)"] this
  obtain c' where c': "write_entry (entry_pos fi x) f c = Some c'" "bc_inv c'"
    "bview c' = (bview c)(?b := take ?o (bview c ?b) @ le_bytes 4 (unat v) @ drop (?o + 4) (bview c ?b))"
    by (auto simp: write_entry_def)
  have "fval (bview c') fi y = (if y = x then v else fval (bview c) fi y)" if y: "unat y < 2 ^ 28" for y
  proof (cases "y = x")
    case True
    then show ?thesis using take_drop_update(1) [of ?o "bview c ?b" "le_bytes 4 (unat v)"] o len
      by (simp add: fval_def c'(3) le_word_bytes)
  next
    case False
    then show ?thesis
      using take_drop_update(2) [of ?o "bview c ?b" "le_bytes 4 (unat v)" "unat (snd (entry_pos fi y))"] o len entry_apart [OF fi y x]
      by (auto simp: fval_def c'(3))
  qed
  then show ?thesis using c' by auto
qed

section \<open>Chains\<close>

fun is_chain :: "(usize \<Rightarrow> u8 list) \<Rightarrow> fat_info \<Rightarrow> usize list \<Rightarrow> bool" where
  "is_chain v fi [] = False"
| "is_chain v fi [c] = (fat_status (fval v fi c) = EndOfFile)"
| "is_chain v fi (c # d # cs) = (fat_status (fval v fi c) = Next d \<and> is_chain v fi (d # cs))"

lemma status_Next_bound: "fat_status v = Next d \<Longrightarrow> 2 \<le> unat d \<and> unat d < 2 ^ 28"
  by (auto simp: fat_status_def MAX_CLUSTER_def word_le_nat_alt unat_ucast_up split: if_splits)

lemma chain_determined: "is_chain v fi (c # xs) \<Longrightarrow> is_chain v fi (c # ys) \<Longrightarrow> xs = ys"
proof (induction xs arbitrary: c ys)
  case Nil
  then show ?case by (cases ys) auto
next
  case (Cons x xs)
  then show ?case by (cases ys) auto
qed

lemma chain_suffix: "is_chain v fi (xs @ c # ys) \<Longrightarrow> is_chain v fi (c # ys)"
proof (induction xs)
  case (Cons x xs)
  then show ?case by (cases xs) auto
qed simp

lemma chain_bound: "is_chain v fi (c # cs) \<Longrightarrow> x \<in> set cs \<Longrightarrow> 2 \<le> unat x \<and> unat x < 2 ^ 28"
proof (induction cs arbitrary: c)
  case (Cons d cs)
  then show ?case using status_Next_bound by auto
qed simp

lemma chain_distinct: "is_chain v fi cs \<Longrightarrow> distinct cs"
proof (rule ccontr)
  assume c: "is_chain v fi cs" and "\<not> distinct cs"
  then obtain xs y ys zs where d: "cs = xs @ [y] @ ys @ [y] @ zs" using not_distinct_decomp by blast
  have "is_chain v fi (y # ys @ y # zs)" using chain_suffix [of v fi xs y "ys @ y # zs"] c d by simp
  moreover have "is_chain v fi (y # zs)" using chain_suffix [of v fi "xs @ y # ys" y zs] c d by simp
  ultimately have "ys @ y # zs = zs" by (rule chain_determined)
  then show False by (metis append_is_Nil_conv append_self_conv2 append_Cons list.distinct(1) append.assoc)
qed

lemma chain_length: "is_chain v fi (c # cs) \<Longrightarrow> unat c < 2 ^ 28 \<Longrightarrow> length (c # cs) \<le> 2 ^ 28"
proof -
  assume c: "is_chain v fi (c # cs)" "unat c < 2 ^ 28"
  have "unat ` set (c # cs) \<subseteq> {..<2 ^ 28}" using chain_bound [OF c(1)] c(2) by auto
  then have "card (unat ` set (c # cs)) \<le> card {..<(2 :: nat) ^ 28}" by (rule card_mono [OF finite_lessThan])
  moreover have "card (unat ` set (c # cs)) = length (c # cs)"
    using distinct_card [OF chain_distinct [OF c(1)]] card_image [of unat "set (c # cs)"] by (simp add: inj_on_def word_unat_eq_iff)
  ultimately show ?thesis by simp
qed

lemma chain_loop_spec:
  assumes "is_chain (bview c) fi (x # xs)" "bc_inv c" "fi_ok fi" "unat x < 2 ^ 28" "length xs < fuel"
  shows "\<exists>c'. chain_loop fuel fi x acc c = Some (c', acc @ xs) \<and> bc_inv c' \<and> bview c' = bview c"
  using assms
proof (induction xs arbitrary: x acc c fuel)
  case Nil
  obtain n where "fuel = Suc n" using Nil.prems(5) by (cases fuel) auto
  then show ?case using read_entry_spec [OF Nil.prems(2,3,4)] Nil.prems(1)
    by (auto simp: cluster_to_entry_def entry_pos_def [symmetric] next_cluster_def)
next
  case (Cons y ys)
  obtain n where n: "fuel = Suc n" using Cons.prems(5) by (cases fuel) auto
  obtain c1 where c1: "read_entry (entry_pos fi x) c = Some (c1, fval (bview c) fi x)" "bc_inv c1" "bview c1 = bview c"
    using read_entry_spec [OF Cons.prems(2,3,4)] by blast
  have "unat y < 2 ^ 28" using Cons.prems(1) status_Next_bound by auto
  then obtain c' where "chain_loop n fi y (acc @ [y]) c1 = Some (c', acc @ y # ys)" "bc_inv c'" "bview c' = bview c1"
    using Cons.IH [of c1 y n "acc @ [y]"] Cons.prems c1 n by auto
  then show ?case using c1 Cons.prems(1) n by (auto simp: cluster_to_entry_def entry_pos_def [symmetric] next_cluster_def)
qed

text \<open>The walk from a cluster that starts no chain.\<close>

lemma chain_loop_no_chain:
  assumes "\<nexists>xs. is_chain (bview c) fi (x # xs)" "bc_inv c" "fi_ok fi" "unat x < 2 ^ 28"
  shows "chain_loop fuel fi x acc c = None"
  using assms
proof (induction fuel arbitrary: x acc c)
  case (Suc n)
  obtain c1 where c1: "read_entry (entry_pos fi x) c = Some (c1, fval (bview c) fi x)" "bc_inv c1" "bview c1 = bview c"
    using read_entry_spec [OF Suc.prems(2,3,4)] by blast
  have ends: "fat_status (fval (bview c) fi x) \<noteq> EndOfFile" using Suc.prems(1) is_chain.simps(2) by blast
  have on: "chain_loop n fi y (acc @ [y]) c1 = None" if y: "fat_status (fval (bview c) fi x) = Next y" for y
  proof (rule Suc.IH)
    show "\<nexists>xs. is_chain (bview c1) fi (y # xs)" using Suc.prems(1) y c1(3) is_chain.simps(3) by metis
    show "unat y < 2 ^ 28" using status_Next_bound [OF y] by simp
  qed (use c1 Suc.prems in simp_all)
  show ?case using c1 ends on
    by (cases "fat_status (fval (bview c) fi x)") (simp_all add: cluster_to_entry_def entry_pos_def [symmetric] next_cluster_def)
qed simp

lemma find_all_cluster_spec:
  assumes "is_chain (bview c) fi (x # xs)" "bc_inv c" "fi_ok fi" "unat x < 2 ^ 28"
  shows "\<exists>c'. find_all_cluster fi x c = Some (c', x # xs) \<and> bc_inv c' \<and> bview c' = bview c"
  using chain_loop_spec [OF assms, of "2 ^ 28" "[x]"] chain_length [OF assms(1,4)] by (simp add: find_all_cluster_def)

lemma all_nat_cases: "(\<forall>i. P i) \<longleftrightarrow> P 0 \<and> (\<forall>i. P (Suc i))"
  by (metis not0_implies_Suc)

lemma chain_iff:
  "is_chain v fi cs \<longleftrightarrow> cs \<noteq> [] \<and> (\<forall>i. Suc i < length cs \<longrightarrow> fat_status (fval v fi (cs ! i)) = Next (cs ! Suc i)) \<and>
     fat_status (fval v fi (last cs)) = EndOfFile"
proof (induction v fi cs rule: is_chain.induct)
  case (3 v fi c d cs)
  have "(\<forall>i. Suc i < length (c # d # cs) \<longrightarrow> fat_status (fval v fi ((c # d # cs) ! i)) = Next ((c # d # cs) ! Suc i)) \<longleftrightarrow>
    fat_status (fval v fi c) = Next d \<and> (\<forall>i. Suc i < length (d # cs) \<longrightarrow> fat_status (fval v fi ((d # cs) ! i)) = Next ((d # cs) ! Suc i))"
    by (subst all_nat_cases) simp
  then show ?case using 3 by simp
qed simp_all

section \<open>Chains that grow and shrink\<close>

text \<open>Two views of the disk that agree on the entries of a set of clusters.\<close>

definition same_entries :: "fat_info \<Rightarrow> usize set \<Rightarrow> (usize \<Rightarrow> u8 list) \<Rightarrow> (usize \<Rightarrow> u8 list) \<Rightarrow> bool" where
  "same_entries fi S v v' \<longleftrightarrow> (\<forall>y. y \<in> S \<longrightarrow> unat y < 2 ^ 28 \<longrightarrow> fval v' fi y = fval v fi y)"

lemma same_entries_trans: "same_entries fi S v v1 \<Longrightarrow> same_entries fi S v1 v2 \<Longrightarrow> same_entries fi S v v2"
  by (simp add: same_entries_def)

lemma same_entries_mono: "same_entries fi S v v' \<Longrightarrow> T \<subseteq> S \<Longrightarrow> same_entries fi T v v'"
  by (auto simp: same_entries_def)

definition low :: "usize list \<Rightarrow> bool" where
  "low cs \<longleftrightarrow> (\<forall>x \<in> set cs. unat x < 2 ^ 28)"

lemma chain_extend:
  assumes "is_chain v fi cs" "low cs" "same_entries fi (set (butlast cs)) v v'"
    "fat_status (fval v' fi (last cs)) = Next n" "fat_status (fval v' fi n) = EndOfFile"
  shows "is_chain v' fi (cs @ [n])"
proof -
  have ne: "cs \<noteq> []" using assms(1) by (auto simp: chain_iff)
  have "fat_status (fval v' fi ((cs @ [n]) ! i)) = Next ((cs @ [n]) ! Suc i)" if i: "Suc i < length (cs @ [n])" for i
  proof (cases "Suc i < length cs")
    case True
    then have "butlast cs ! i = cs ! i" "i < length (butlast cs)" by (simp_all add: nth_butlast)
    then have "cs ! i \<in> set (butlast cs)" by (metis nth_mem)
    moreover have "unat (cs ! i) < 2 ^ 28" using assms(2) True by (simp add: low_def)
    ultimately have "fval v' fi (cs ! i) = fval v fi (cs ! i)" using assms(3) by (simp add: same_entries_def)
    then show ?thesis using assms(1) True by (simp add: chain_iff nth_append)
  next
    case False
    then have "i = length cs - 1" using i by simp
    then show ?thesis using assms(4) ne by (simp add: nth_append last_conv_nth)
  qed
  then show ?thesis using assms(5) by (simp add: chain_iff)
qed

lemma chain_cut:
  assumes "is_chain v fi (cs @ [n])" "cs \<noteq> []" "low cs" "same_entries fi (set (butlast cs)) v v'"
    "fat_status (fval v' fi (last cs)) = EndOfFile"
  shows "is_chain v' fi cs"
proof -
  have "fat_status (fval v' fi (cs ! i)) = Next (cs ! Suc i)" if i: "Suc i < length cs" for i
  proof -
    have "butlast cs ! i = cs ! i" "i < length (butlast cs)" using i by (simp_all add: nth_butlast)
    then have "cs ! i \<in> set (butlast cs)" by (metis nth_mem)
    moreover have "unat (cs ! i) < 2 ^ 28" using assms(3) i by (simp add: low_def)
    ultimately have "fval v' fi (cs ! i) = fval v fi (cs ! i)" using assms(4) by (simp add: same_entries_def)
    moreover have "fat_status (fval v fi ((cs @ [n]) ! i)) = Next ((cs @ [n]) ! Suc i)" using assms(1) i by (simp add: chain_iff)
    ultimately show ?thesis using i by (simp add: nth_append)
  qed
  then show ?thesis using assms(2,5) by (simp add: chain_iff)
qed

lemma last_not_butlast: "distinct cs \<Longrightarrow> cs \<noteq> [] \<Longrightarrow> last cs \<notin> set (butlast cs)"
  by (metis append_butlast_last_id distinct_append disjoint_insert(2) list.simps(15))

lemma cluster_status:
  assumes "2 \<le> n" "n \<le> MAX_CLUSTER"
  shows "fat_status n = Next (ucast n)"
proof -
  have "n \<noteq> 0" "n \<noteq> 0x0FFFFFFF" "n \<noteq> 0x0FFFFFF8" using assms by (auto simp: MAX_CLUSTER_def)
  then show ?thesis using assms by (simp add: fat_status_def)
qed

lemma fat_status_eof: "fat_status 0x0FFFFFFF = EndOfFile"
  by (simp add: fat_status_def)

lemma ucast_ucast_id: "ucast (ucast (n :: u32) :: usize) = n"
  by (rule bit_word_eqI) (simp add: bit_simps)

lemma alloc_cluster_spec:
  fixes n :: u32
  assumes inv: "bc_inv (cm s)" "fi_ok fi" and chain: "is_chain (bview (cm s)) fi cs" "low cs"
    and n: "FSI_Nxt_Free (fsi s) = n" "2 \<le> n" "n \<le> MAX_CLUSTER" "ucast n \<notin> set cs"
  shows "\<exists>s'. alloc_cluster (Some (last cs)) fi s = Some (s', Some (ucast n)) \<and> bc_inv (cm s') \<and> fsi s' = fst (fsi_alloc_cluster (fsi s)) \<and>
    is_chain (bview (cm s')) fi (cs @ [ucast n]) \<and> fval (bview (cm s')) fi (ucast n) = 0x0FFFFFFF \<and>
    same_entries fi (- {last cs, ucast n}) (bview (cm s)) (bview (cm s'))"
proof -
  let ?n = "ucast n :: usize" and ?l = "last cs"
  have ne: "cs \<noteq> []" using chain(1) by (auto simp: chain_iff)
  then have l: "unat ?l < 2 ^ 28" "?l \<noteq> ?n" "fat_status (fval (bview (cm s)) fi ?l) = EndOfFile"
    using chain n(4) last_in_set [of cs] by (auto simp: low_def chain_iff simp del: last_in_set)
  have n28: "unat ?n < 2 ^ 28" using n(3) by (simp add: unat_ucast_up MAX_CLUSTER_def word_le_nat_alt)
  obtain c1 where c1: "write_entry (entry_pos fi ?l) (\<lambda>v. do { rassert (fat_status v = EndOfFile); Some (ucast ?n) }) (cm s) = Some c1" "bc_inv c1"
    "\<forall>y. unat y < 2 ^ 28 \<longrightarrow> fval (bview c1) fi y = (if y = ?l then n else fval (bview (cm s)) fi y)"
    using write_entry_spec [OF inv l(1), of "\<lambda>v. do { rassert (fat_status v = EndOfFile); Some (ucast ?n) }" n] l(3) ucast_ucast_id [of n] by auto
  obtain c2 where c2: "write_entry (entry_pos fi ?n) (\<lambda>_. Some 0x0FFFFFFF) c1 = Some c2" "bc_inv c2"
    "\<forall>y. unat y < 2 ^ 28 \<longrightarrow> fval (bview c2) fi y = (if y = ?n then 0x0FFFFFFF else fval (bview c1) fi y)"
    using write_entry_spec [OF c1(2) inv(2) n28, of "\<lambda>_. Some 0x0FFFFFFF"] by auto
  have same: "same_entries fi (- {?l, ?n}) (bview (cm s)) (bview c2)" using c1(3) c2(3) by (simp add: same_entries_def)
  have val: "fval (bview c2) fi ?n = 0x0FFFFFFF" "fval (bview c2) fi ?l = n" using c1(3) c2(3) n28 l(1,2) by simp_all
  have "set (butlast cs) \<subseteq> - {?l, ?n}" using last_not_butlast [OF chain_distinct [OF chain(1)] ne] n(4) by (auto dest: in_set_butlastD)
  then have "is_chain (bview c2) fi (cs @ [?n])"
    using chain_extend [OF chain same_entries_mono [OF same]] cluster_status [OF n(2,3)] fat_status_eof val by simp
  then show ?thesis using c1(1) c2 same val(1) n(1) by (simp add: alloc_cluster_def fsi_alloc_cluster_def)
qed

lemma free_cluster_spec:
  fixes n :: usize
  assumes inv: "bc_inv (cm s)" "fi_ok fi" and chain: "is_chain (bview (cm s)) fi (cs @ [n])" "low (cs @ [n])" "cs \<noteq> []"
    and eof: "fval (bview (cm s)) fi n = 0x0FFFFFFF"
  shows "\<exists>s'. free_cluster n (Some (last cs)) fi s = Some s' \<and> bc_inv (cm s') \<and> fsi s' = fsi_free_cluster (fsi s) \<and>
    is_chain (bview (cm s')) fi cs \<and> fval (bview (cm s')) fi n = 0 \<and> fval (bview (cm s')) fi (last cs) = 0x0FFFFFFF \<and>
    same_entries fi (- {last cs, n}) (bview (cm s)) (bview (cm s'))"
proof -
  let ?l = "last cs"
  have d: "distinct (cs @ [n])" by (rule chain_distinct [OF chain(1)])
  have l: "unat ?l < 2 ^ 28" "?l \<noteq> n" "unat n < 2 ^ 28" using chain(2,3) d by (auto simp: low_def)
  have "Suc (length cs - 1) = length cs" using chain(3) by simp
  then have "fat_status (fval (bview (cm s)) fi ?l) = Next n"
    using chain(1,3) chain_iff [of "bview (cm s)" fi "cs @ [n]"] by (auto simp: nth_append last_conv_nth dest: spec [of _ "length cs - 1"])
  then have v: "fval (bview (cm s)) fi ?l = ucast n" by (auto simp: fat_status_def ucast_ucast_id split: if_splits)
  obtain c1 where c1: "write_entry (entry_pos fi ?l) (\<lambda>v. do { rassert (v = ucast n); Some 0x0FFFFFFF }) (cm s) = Some c1" "bc_inv c1"
    "\<forall>y. unat y < 2 ^ 28 \<longrightarrow> fval (bview c1) fi y = (if y = ?l then 0x0FFFFFFF else fval (bview (cm s)) fi y)"
    using write_entry_spec [OF inv l(1), of "\<lambda>v. do { rassert (v = ucast n); Some 0x0FFFFFFF }" "0x0FFFFFFF"] v by auto
  obtain c2 where c2: "write_entry (entry_pos fi n) (\<lambda>v. do { rassert (v = 0x0FFFFFFF); Some 0 }) c1 = Some c2" "bc_inv c2"
    "\<forall>y. unat y < 2 ^ 28 \<longrightarrow> fval (bview c2) fi y = (if y = n then 0 else fval (bview c1) fi y)"
    using write_entry_spec [OF c1(2) inv(2) l(3), of "\<lambda>v. do { rassert (v = 0x0FFFFFFF); Some 0 }" 0] c1(3) l eof by auto
  have same: "same_entries fi (- {?l, n}) (bview (cm s)) (bview c2)" using c1(3) c2(3) by (simp add: same_entries_def)
  have val: "fval (bview c2) fi n = 0" "fval (bview c2) fi ?l = 0x0FFFFFFF" using c1(3) c2(3) l by simp_all
  have "set (butlast cs) \<subseteq> - {?l, n}" using last_not_butlast [of cs] d chain(3) by (auto dest: in_set_butlastD)
  then have "is_chain (bview c2) fi cs"
    using chain_cut [OF chain(1,3) _ same_entries_mono [OF same]] chain(2) fat_status_eof val by (simp add: low_def)
  then show ?thesis using c1(1) c2 same val by (simp add: free_cluster_def)
qed

text \<open>The clusters the next allocations return.\<close>

definition next_clusters :: "u32 \<Rightarrow> nat \<Rightarrow> usize list" where
  "next_clusters n k = map (\<lambda>i. ucast (n + of_nat i)) [0..<k]"

lemma next_clusters_simps [simp]: "next_clusters n 0 = []" "length (next_clusters n k) = k"
  by (simp_all add: next_clusters_def)

lemma next_clusters_Suc: "next_clusters n (Suc k) = ucast n # next_clusters (n + 1) k"
  by (rule nth_equalityI) (auto simp: next_clusters_def nth_Cons ac_simps simp del: upt_Suc split: nat.splits)

lemma unat_succ: "2 \<le> n \<Longrightarrow> unat n + Suc k \<le> unat MAX_CLUSTER + 1 \<Longrightarrow> 2 \<le> n + 1 \<and> unat (n + 1) = unat n + 1" for n :: u32
  by (simp add: MAX_CLUSTER_def word_le_nat_alt unat_word_ariths)

lemma grow_loop_spec:
  fixes n :: u32
  assumes "bc_inv (cm s)" "fi_ok fi" "is_chain (bview (cm s)) fi cs" "low cs" "FSI_Nxt_Free (fsi s) = n" "2 \<le> n"
    "unat n + k \<le> unat MAX_CLUSTER + 1" "distinct (cs @ next_clusters n k)" "num = length cs + k" "k < fuel"
  shows "\<exists>s'. grow_loop fuel fi num (cs, s) = Some (cs @ next_clusters n k, s') \<and> bc_inv (cm s') \<and>
    is_chain (bview (cm s')) fi (cs @ next_clusters n k) \<and> low (cs @ next_clusters n k) \<and>
    FSI_Free_Count (fsi s') = FSI_Free_Count (fsi s) - of_nat k \<and> FSI_Nxt_Free (fsi s') = n + of_nat k \<and>
    (0 < k \<longrightarrow> fval (bview (cm s')) fi (last (cs @ next_clusters n k)) = 0x0FFFFFFF) \<and>
    same_entries fi (- (insert (last cs) (set (next_clusters n k)))) (bview (cm s)) (bview (cm s'))"
  using assms
proof (induction k arbitrary: s cs n fuel)
  case 0
  then obtain m where "fuel = Suc m" by (cases fuel) auto
  then show ?case using 0 by (simp add: same_entries_def)
next
  case (Suc k)
  note p = Suc.prems
  obtain m where m: "fuel = Suc m" using p(10) by (cases fuel) auto
  have ne: "cs \<noteq> []" using p(3) by (auto simp: chain_iff)
  have nx: "n \<le> MAX_CLUSTER" "ucast n \<notin> set cs" using p(7,8) by (auto simp: word_le_nat_alt next_clusters_Suc)
  let ?n = "ucast n :: usize"
  obtain s1 where s1: "alloc_cluster (Some (last cs)) fi s = Some (s1, Some ?n)" "bc_inv (cm s1)" "fsi s1 = fst (fsi_alloc_cluster (fsi s))"
    "is_chain (bview (cm s1)) fi (cs @ [?n])" "fval (bview (cm s1)) fi ?n = 0x0FFFFFFF"
    "same_entries fi (- {last cs, ?n}) (bview (cm s)) (bview (cm s1))"
    using alloc_cluster_spec [OF p(1-6) nx] by blast
  have low1: "low (cs @ [?n])" using p(4) nx(1) by (auto simp: low_def unat_ucast_up MAX_CLUSTER_def word_le_nat_alt)
  have f1: "FSI_Nxt_Free (fsi s1) = n + 1" "FSI_Free_Count (fsi s1) = FSI_Free_Count (fsi s) - 1"
    using s1(3) p(5) by (simp_all add: fsi_alloc_cluster_def)
  have d1: "distinct ((cs @ [?n]) @ next_clusters (n + 1) k)" "unat (n + 1) + k \<le> unat MAX_CLUSTER + 1" "2 \<le> n + 1"
    using p(7,8) unat_succ [OF p(6,7)] by (simp_all add: next_clusters_Suc)
  obtain s2 where s2: "grow_loop m fi num (cs @ [?n], s1) = Some ((cs @ [?n]) @ next_clusters (n + 1) k, s2)" "bc_inv (cm s2)"
    "is_chain (bview (cm s2)) fi ((cs @ [?n]) @ next_clusters (n + 1) k)" "low ((cs @ [?n]) @ next_clusters (n + 1) k)"
    "FSI_Free_Count (fsi s2) = FSI_Free_Count (fsi s1) - of_nat k" "FSI_Nxt_Free (fsi s2) = n + 1 + of_nat k"
    "0 < k \<longrightarrow> fval (bview (cm s2)) fi (last ((cs @ [?n]) @ next_clusters (n + 1) k)) = 0x0FFFFFFF"
    "same_entries fi (- (insert (last (cs @ [?n])) (set (next_clusters (n + 1) k)))) (bview (cm s1)) (bview (cm s2))"
    using Suc.IH [OF s1(2) p(2) s1(4) low1 f1(1) d1(3,2,1), of m] p(9,10) m by auto
  have "same_entries fi (- insert (last cs) (set (next_clusters n (Suc k)))) (bview (cm s)) (bview (cm s2))"
    by (rule same_entries_trans [OF same_entries_mono [OF s1(6)] same_entries_mono [OF s2(8)]]) (auto simp: next_clusters_Suc)
  moreover have "fval (bview (cm s2)) fi (last (cs @ next_clusters n (Suc k))) = 0x0FFFFFFF"
  proof (cases k)
    case 0
    then have "s2 = s1" using s2(1) p(9) by (cases m) simp_all
    then show ?thesis using 0 s1(5) by (simp add: next_clusters_Suc)
  qed (use s2(7) in \<open>simp add: next_clusters_Suc\<close>)
  ultimately show ?case using s1(1) s2(1-6) f1 p(9) m ne by (simp add: next_clusters_Suc algebra_simps)
qed

lemma shrink_loop_spec:
  assumes "bc_inv (cm s)" "fi_ok fi" "is_chain (bview (cm s)) fi (cs @ ds)" "low (cs @ ds)" "cs \<noteq> []"
    "fval (bview (cm s)) fi (last (cs @ ds)) = 0x0FFFFFFF" "length ds < fuel"
  shows "\<exists>s'. shrink_loop fuel fi (length cs) (cs @ ds, s) = Some (cs, s') \<and> bc_inv (cm s') \<and> is_chain (bview (cm s')) fi cs \<and>
    FSI_Free_Count (fsi s') = FSI_Free_Count (fsi s) + of_nat (length ds) \<and> FSI_Nxt_Free (fsi s') = FSI_Nxt_Free (fsi s) \<and>
    (\<forall>x \<in> set ds. fval (bview (cm s')) fi x = 0) \<and> fval (bview (cm s')) fi (last cs) = 0x0FFFFFFF \<and>
    same_entries fi (- insert (last cs) (set ds)) (bview (cm s)) (bview (cm s'))"
  using assms
proof (induction ds arbitrary: s fuel rule: rev_induct)
  case Nil
  then obtain m where "fuel = Suc m" by (cases fuel) auto
  then show ?case using Nil by (simp add: same_entries_def)
next
  case (snoc n ds)
  note p = snoc.prems
  obtain m where m: "fuel = Suc m" using p(7) by (cases fuel) auto
  let ?cs = "cs @ ds"
  have ch: "is_chain (bview (cm s)) fi (?cs @ [n])" "low (?cs @ [n])" "?cs \<noteq> []" "fval (bview (cm s)) fi n = 0x0FFFFFFF"
    using p(3-6) by simp_all
  obtain s1 where s1: "free_cluster n (Some (last ?cs)) fi s = Some s1" "bc_inv (cm s1)" "fsi s1 = fsi_free_cluster (fsi s)"
    "is_chain (bview (cm s1)) fi ?cs" "fval (bview (cm s1)) fi n = 0" "fval (bview (cm s1)) fi (last ?cs) = 0x0FFFFFFF"
    "same_entries fi (- {last ?cs, n}) (bview (cm s)) (bview (cm s1))"
    using free_cluster_spec [OF p(1,2) ch] by blast
  have low1: "low ?cs" "unat n < 2 ^ 28" using p(4) by (auto simp: low_def)
  obtain s2 where s2: "shrink_loop m fi (length cs) (?cs, s1) = Some (cs, s2)" "bc_inv (cm s2)" "is_chain (bview (cm s2)) fi cs"
    "FSI_Free_Count (fsi s2) = FSI_Free_Count (fsi s1) + of_nat (length ds)" "FSI_Nxt_Free (fsi s2) = FSI_Nxt_Free (fsi s1)"
    "\<forall>x \<in> set ds. fval (bview (cm s2)) fi x = 0" "fval (bview (cm s2)) fi (last cs) = 0x0FFFFFFF"
    "same_entries fi (- insert (last cs) (set ds)) (bview (cm s1)) (bview (cm s2))"
    using snoc.IH [OF s1(2) p(2) s1(4) low1(1) p(5) s1(6), of m] p(7) m by auto
  have d: "distinct (?cs @ [n])" by (rule chain_distinct [OF ch(1)])
  have "last cs \<in> set cs" "last ?cs \<in> insert (last cs) (set ds)" using p(5) by (auto simp: last_append)
  moreover from this have "n \<notin> insert (last cs) (set ds)" using d by auto
  ultimately have n2: "fval (bview (cm s2)) fi n = 0" using s2(8) s1(5) low1(2) by (simp add: same_entries_def)
  have same: "same_entries fi (- insert (last cs) (set (ds @ [n]))) (bview (cm s)) (bview (cm s2))"
    by (rule same_entries_trans [OF same_entries_mono [OF s1(7)] same_entries_mono [OF s2(8)]])
      (use p(5) in \<open>auto simp: last_append split: if_splits\<close>)
  have "shrink_loop fuel fi (length cs) (cs @ ds @ [n], s) = Some (cs, s2)"
    using s1(1) s2(1) m p(5) by (simp add: butlast_append Let_def)
  then show ?case using s2(2-7) s1(3) n2 same by (simp add: fsi_free_cluster_def)
qed

text \<open>The number of clusters of a file.\<close>

definition clusters_for :: "fat_info \<Rightarrow> nat \<Rightarrow> nat" where
  "clusters_for fi sz = (sz + cluster_bytes fi - 1) div cluster_bytes fi"

lemma clusters_for_mono: "a \<le> b \<Longrightarrow> clusters_for fi a \<le> clusters_for fi b"
  unfolding clusters_for_def by (intro div_le_mono) simp

lemma clusters_for_pos: "0 < cluster_bytes fi \<Longrightarrow> 0 < sz \<Longrightarrow> 0 < clusters_for fi sz"
  by (simp add: clusters_for_def div_greater_zero_iff)

lemma modify_size_grows:
  fixes n :: u32
  assumes inv: "bc_inv (cm s)" "fi_ok fi" and chain: "is_chain (bview (cm s)) fi (clusters f)" "low (clusters f)"
    and f: "hd (clusters f) = dc" "dc \<noteq> 0" "length (clusters f) = clusters_for fi (df_size f)" and d: "0 < d"
    and k: "clusters_for fi (df_size f + d) = clusters_for fi (df_size f) + k"
    and n: "FSI_Nxt_Free (fsi s) = n" "2 \<le> n" "unat n + k \<le> unat MAX_CLUSTER + 1" "distinct (clusters f @ next_clusters n k)"
  shows "\<exists>f' s'. modify_size fi (int d) dc (f, s) = Some ((f', s'), df_size f + d) \<and>
    f' = f\<lparr>clusters := clusters f @ next_clusters n k, df_size := df_size f + d\<rparr> \<and> bc_inv (cm s') \<and>
    is_chain (bview (cm s')) fi (clusters f') \<and> low (clusters f') \<and>
    FSI_Free_Count (fsi s') = FSI_Free_Count (fsi s) - of_nat k \<and> FSI_Nxt_Free (fsi s') = n + of_nat k \<and>
    (0 < k \<longrightarrow> fval (bview (cm s')) fi (last (clusters f')) = 0x0FFFFFFF) \<and>
    same_entries fi (- (insert (last (clusters f)) (set (next_clusters n k)))) (bview (cm s)) (bview (cm s'))"
proof -
  let ?cs = "clusters f @ next_clusters n k" and ?num = "clusters_for fi (df_size f + d)"
  have num: "?num = length (clusters f) + k" "k < ?num + 1" using k f(3) by simp_all
  obtain s1 where s1: "grow_loop (?num + 1) fi ?num (clusters f, s) = Some (?cs, s1)" "bc_inv (cm s1)"
    "is_chain (bview (cm s1)) fi ?cs" "low ?cs" "FSI_Free_Count (fsi s1) = FSI_Free_Count (fsi s) - of_nat k" "FSI_Nxt_Free (fsi s1) = n + of_nat k"
    "0 < k \<longrightarrow> fval (bview (cm s1)) fi (last ?cs) = 0x0FFFFFFF"
    "same_entries fi (- (insert (last (clusters f)) (set (next_clusters n k)))) (bview (cm s)) (bview (cm s1))"
    using grow_loop_spec [OF inv chain n num] by blast
  have ne: "clusters f \<noteq> []" using chain(1) by (auto simp: chain_iff)
  then have hd: "?cs = dc # tl ?cs" "unat dc < 2 ^ 28" using f(1) chain(2) by (auto simp: low_def)
  then obtain c' where c': "find_all_cluster fi dc (cm s1) = Some (c', ?cs)" "bc_inv c'" "bview c' = bview (cm s1)"
    using find_all_cluster_spec [of "cm s1" fi dc "tl ?cs"] s1(2,3) inv(2) by auto
  have sz: "nat (int (df_size f) + int d) = df_size f + d" by simp
  show ?thesis unfolding modify_size_def prod.case Let_def sz clusters_for_def [symmetric]
    using s1 c' d f(2) by (simp add: cal_cluster_size_def del: grow_loop.simps)
qed

lemma modify_size_shrinks:
  assumes inv: "bc_inv (cm s)" "fi_ok fi" and chain: "is_chain (bview (cm s)) fi (cs @ ds)" "low (cs @ ds)" "cs \<noteq> []"
    and f: "clusters f = cs @ ds" "hd cs = dc" "dc \<noteq> 0" "length cs = clusters_for fi (df_size f - d)" and d: "0 < d" "d < df_size f"
    and eof: "ds \<noteq> [] \<Longrightarrow> fval (bview (cm s)) fi (last (cs @ ds)) = 0x0FFFFFFF"
  shows "\<exists>s'. modify_size fi (- int d) dc (f, s) = Some ((f\<lparr>clusters := cs, df_size := df_size f - d\<rparr>, s'), df_size f - d) \<and> bc_inv (cm s') \<and>
    is_chain (bview (cm s')) fi cs \<and>
    FSI_Free_Count (fsi s') = FSI_Free_Count (fsi s) + of_nat (length ds) \<and> FSI_Nxt_Free (fsi s') = FSI_Nxt_Free (fsi s) \<and>
    (\<forall>x \<in> set ds. fval (bview (cm s')) fi x = 0) \<and> (ds \<noteq> [] \<longrightarrow> fval (bview (cm s')) fi (last cs) = 0x0FFFFFFF) \<and>
    same_entries fi (- insert (last cs) (set ds)) (bview (cm s)) (bview (cm s'))"
proof -
  obtain s1 where s1: "shrink_loop (length (cs @ ds) + 1) fi (length cs) (cs @ ds, s) = Some (cs, s1)" "bc_inv (cm s1)"
    "is_chain (bview (cm s1)) fi cs" "FSI_Free_Count (fsi s1) = FSI_Free_Count (fsi s) + of_nat (length ds)"
    "FSI_Nxt_Free (fsi s1) = FSI_Nxt_Free (fsi s)" "\<forall>x \<in> set ds. fval (bview (cm s1)) fi x = 0"
    "ds \<noteq> [] \<longrightarrow> fval (bview (cm s1)) fi (last cs) = 0x0FFFFFFF" "same_entries fi (- insert (last cs) (set ds)) (bview (cm s)) (bview (cm s1))"
  proof (cases "ds = []")
    case True
    then show ?thesis using that [of s] inv(1) chain(1) by (simp add: same_entries_def)
  next
    case False
    with shrink_loop_spec [OF inv chain eof [OF False], of "length (cs @ ds) + 1"] that show ?thesis by auto
  qed
  have hd: "cs = dc # tl cs" "unat dc < 2 ^ 28" using f(2) chain(2,3) by (auto simp: low_def)
  then obtain c' where c': "find_all_cluster fi dc (cm s1) = Some (c', cs)" "bc_inv c'" "bview c' = bview (cm s1)"
    using find_all_cluster_spec [of "cm s1" fi dc "tl cs"] s1(2,3) inv(2) by auto
  have sz: "nat (int (df_size f) + - int d) = df_size f - d" using d by simp
  show ?thesis unfolding modify_size_def prod.case Let_def sz clusters_for_def [symmetric]
    using s1 c' d f by (simp add: cal_cluster_size_def del: shrink_loop.simps)
qed

section \<open>Reading\<close>

text \<open>The bytes of the clusters of a file, and one sector of them.\<close>

definition cluster_data :: "(usize \<Rightarrow> u8 list) \<Rightarrow> fat_info \<Rightarrow> usize \<Rightarrow> u8 list" where
  "cluster_data v fi x = concat (map (\<lambda>j. v (cluster_to_sector fi x + of_nat j)) [0..<unat (sec_per_clus fi)])"

definition file_data :: "(usize \<Rightarrow> u8 list) \<Rightarrow> fat_info \<Rightarrow> fat_disk_file \<Rightarrow> u8 list" where
  "file_data v fi f = concat (map (cluster_data v fi) (clusters f))"

lemma concat_block:
  assumes "\<forall>x \<in> set xs. length (g x) = m" "i < length xs"
  shows "take m (drop (i * m) (concat (map g xs))) = g (xs ! i)"
  using assms
proof (induction xs arbitrary: i)
  case (Cons x xs)
  then show ?case by (cases i) simp_all
qed simp

lemma length_concat_blocks: "\<forall>x \<in> set xs. length (g x) = m \<Longrightarrow> length (concat (map g xs)) = length xs * m"
  by (induction xs) simp_all

lemma length_cluster_data: "\<forall>b. length (v b) = SECTOR_SIZE \<Longrightarrow> length (cluster_data v fi x) = cluster_bytes fi"
  using length_concat_blocks [of "[0..<unat (sec_per_clus fi)]" "\<lambda>j. v (cluster_to_sector fi x + of_nat j)" SECTOR_SIZE]
  by (simp add: cluster_data_def cluster_bytes_def)

lemma length_file_data: "\<forall>b. length (v b) = SECTOR_SIZE \<Longrightarrow> length (file_data v fi f) = length (clusters f) * cluster_bytes fi"
  unfolding file_data_def by (rule length_concat_blocks) (simp add: length_cluster_data)

lemma take_drop_take: "a + b \<le> c \<Longrightarrow> take b (drop a (take c xs)) = take b (drop a xs)"
  by (simp add: drop_take min_def)

lemma file_sector:
  assumes len: "\<forall>b. length (v b) = SECTOR_SIZE" and i: "i < length (clusters f)" and j: "j < unat (sec_per_clus fi)"
  shows "take SECTOR_SIZE (drop ((i * unat (sec_per_clus fi) + j) * SECTOR_SIZE) (file_data v fi f)) =
    v (cluster_to_sector fi (clusters f ! i) + of_nat j)"
proof -
  have c: "take (cluster_bytes fi) (drop (i * cluster_bytes fi) (file_data v fi f)) = cluster_data v fi (clusters f ! i)"
    unfolding file_data_def using length_cluster_data [OF len] i by (intro concat_block) simp_all
  have fits: "j * SECTOR_SIZE + SECTOR_SIZE \<le> cluster_bytes fi"
    using mult_le_mono1 [of "Suc j" "unat (sec_per_clus fi)" SECTOR_SIZE] j by (simp add: cluster_bytes_def algebra_simps)
  have "take SECTOR_SIZE (drop (j * SECTOR_SIZE) (cluster_data v fi (clusters f ! i))) = v (cluster_to_sector fi (clusters f ! i) + of_nat j)"
    unfolding cluster_data_def using concat_block [of "[0..<unat (sec_per_clus fi)]" "\<lambda>j. v (cluster_to_sector fi (clusters f ! i) + of_nat j)" SECTOR_SIZE j] len j by simp
  then show ?thesis unfolding c [symmetric] take_drop_take [OF fits] drop_drop
    by (simp add: cluster_bytes_def algebra_simps)
qed

text \<open>How far a loop over the sectors has filled the range \<open>[st, ed)\<close> before sector \<open>n\<close>.\<close>

definition filled :: "nat \<Rightarrow> nat \<Rightarrow> nat \<Rightarrow> nat" where
  "filled st ed n = min (max (n * SECTOR_SIZE) st) ed - st"

lemma filled_skip: "Suc n * SECTOR_SIZE \<le> st \<or> ed \<le> n * SECTOR_SIZE \<Longrightarrow> filled st ed (Suc n) = filled st ed n"
  by (auto simp: filled_def max_def min_def)

lemma splice_prefix:
  assumes "p \<le> q" "q \<le> length data" "st + q \<le> length content" "new = take (q - p) (drop (st + p) content)"
  shows "splice p new (take p (drop st content) @ drop p data) = Some (take q (drop st content) @ drop q data)"
proof -
  have len: "length new = q - p" "length (take p (drop st content)) = p" using assms by simp_all
  have "take p (drop st content) @ new = take q (drop st content)"
    using take_add [of p "q - p" "drop st content"] assms(1,4) by (simp add: ac_simps)
  moreover have "drop (p + length new) (take p (drop st content) @ drop p data) = drop q data" using len assms(1) by simp
  ultimately show ?thesis using len assms(1,2) by (simp add: splice_def)
qed

lemma read_sector_spec:
  assumes inv: "bc_inv c" and sec: "take SECTOR_SIZE (drop (n * SECTOR_SIZE) content) = bview c sec"
    and fits: "n * SECTOR_SIZE + SECTOR_SIZE \<le> length content" and se: "st \<le> ed" "ed - st \<le> length data"
    and cont: "ed \<le> length content"
  shows "\<exists>c'. read_sector st ed sec n (take (filled st ed n) (drop st content) @ drop (filled st ed n) data, c) =
    Some ((take (filled st ed (Suc n)) (drop st content) @ drop (filled st ed (Suc n)) data, c')) \<and> bc_inv c' \<and> bview c' = bview c"
proof (cases "Suc n * SECTOR_SIZE \<le> st \<or> ed \<le> n * SECTOR_SIZE")
  case True
  then show ?thesis using filled_skip [OF True] inv by (auto simp: read_sector_def Let_def)
next
  case False
  let ?s = "n * SECTOR_SIZE" and ?p = "filled st ed n" and ?q = "filled st ed (Suc n)"
  let ?a = "max ?s st" and ?b = "min (?s + SECTOR_SIZE) ed"
  have pq: "?a - st = ?p" "?a = st + ?p" "?b = st + ?q" "?p \<le> ?q" "?q \<le> length data" "st + ?q \<le> length content" "?q \<le> ?s + SECTOR_SIZE"
    using False se cont by (auto simp: filled_def max_def min_def)
  obtain c' where c': "read_cached sec 0 SECTOR_SIZE c = Some (c', bview c sec)" "bc_inv c'" "bview c' = bview c"
    using read_cached_spec [OF inv, of 0 SECTOR_SIZE sec] bview_length inv by (auto simp: bc_inv_def)
  have "take (?b - ?a) (drop (?a - ?s) (bview c sec)) = take (?q - ?p) (drop (st + ?p) content)"
  proof -
    have "?a - ?s + (?b - ?a) \<le> SECTOR_SIZE" using False se by (auto simp: max_def min_def)
    then have "take (?b - ?a) (drop (?a - ?s) (bview c sec)) = take (?b - ?a) (drop (?a - ?s) (drop ?s content))"
      unfolding sec [symmetric] by (rule take_drop_take)
    also have "\<dots> = take (?b - ?a) (drop ?a content)" by simp
    finally show ?thesis using pq(2,3) by simp
  qed
  then have "splice ?p (take (?b - ?a) (drop (?a - ?s) (bview c sec))) (take ?p (drop st content) @ drop ?p data) =
    Some (take ?q (drop st content) @ drop ?q data)" using splice_prefix [OF pq(4-6)] by simp
  then show ?thesis using c' False pq(1) by (auto simp: read_sector_def Let_def)
qed

text \<open>The loop over the sectors, for a body that keeps an invariant indexed by the number of the next sector.\<close>

lemma disk_loop:
  assumes spc: "0 < unat (sec_per_clus fi)" and le: "st \<le> ed" "ed \<le> length (clusters f) * cluster_bytes fi"
    and start: "\<And>n. n * SECTOR_SIZE \<le> st \<Longrightarrow> I n s"
    and body: "\<And>i j s. i < length (clusters f) \<Longrightarrow> j < unat (sec_per_clus fi) \<Longrightarrow> I (i * unat (sec_per_clus fi) + j) s \<Longrightarrow>
      \<exists>t. one st ed (cluster_to_sector fi (clusters f ! i) + of_nat j) (i * unat (sec_per_clus fi) + j) s = Some t \<and>
        I (Suc (i * unat (sec_per_clus fi) + j)) t"
  shows "\<exists>n t. disk_read_loop one fi f st ed s = Some t \<and> I n t \<and> ed \<le> n * SECTOR_SIZE"
proof -
  let ?spc = "unat (sec_per_clus fi)" and ?a = "st div cluster_bytes fi" and ?b = "(ed + cluster_bytes fi - 1) div cluster_bytes fi"
  have cb: "0 < cluster_bytes fi" using spc by (simp add: cluster_bytes_def SECTOR_SIZE_def)
  have b: "?b \<le> length (clusters f)" "ed \<le> ?b * cluster_bytes fi"
  proof -
    have "ed + cluster_bytes fi - 1 < Suc (length (clusters f)) * cluster_bytes fi" using le(2) cb by simp
    then show "?b \<le> length (clusters f)" using div_less_iff_less_mult [OF cb] less_Suc_eq_le by blast
    have "ed + cluster_bytes fi - 1 < Suc ?b * cluster_bytes fi" using cb dividend_less_div_times by simp
    then show "ed \<le> ?b * cluster_bytes fi" using cb by simp
  qed
  have ab: "?a \<le> ?b" using le(1) cb by (intro div_le_mono) simp
  have "?a * ?spc * SECTOR_SIZE \<le> st" using div_times_less_eq_dividend [of st "cluster_bytes fi"] by (simp add: cluster_bytes_def ac_simps)
  from start [OF this] have I: "I (?a * ?spc) s" .
  have "\<exists>t. disk_read_loop one fi f st ed s = Some t \<and> I (?b * ?spc) t"
    unfolding disk_read_loop_def
  proof (rule foldM_upt [OF ab, where P = "\<lambda>i. I (i * ?spc)", OF I])
    fix i s assume i: "?a \<le> i" "i < ?b" "I (i * ?spc) s"
    have ic: "i < length (clusters f)" using i(2) b(1) by simp
    have "\<exists>t. foldM (\<lambda>j. one st ed (cluster_to_sector fi (clusters f ! i) + of_nat j) (i * ?spc + j)) [0..<?spc] s = Some t \<and> I (i * ?spc + ?spc) t"
      using body [OF ic] i(3) by (intro foldM_upt [where P = "\<lambda>j. I (i * ?spc + j)"]) simp_all
    then show "\<exists>t. Option.bind (nth_opt (clusters f) i) (\<lambda>cluster_id. let sector_id = cluster_to_sector fi cluster_id
        in foldM (\<lambda>j. one st ed (sector_id + of_nat j) (i * ?spc + j)) [0..<?spc] s) = Some t \<and> I (Suc i * ?spc) t"
      using ic by (simp add: Let_def add.commute)
  qed
  moreover have "ed \<le> ?b * ?spc * SECTOR_SIZE" using b(2) by (simp add: cluster_bytes_def ac_simps)
  ultimately show ?thesis by blast
qed

lemma disk_read_spec:
  fixes st ed offset :: nat and data :: "u8 list"
  assumes inv: "bc_inv c" and spc: "0 < unat (sec_per_clus fi)" and sz: "df_size f \<le> length (clusters f) * cluster_bytes fi"
  defines "st \<equiv> min offset (df_size f)" and "ed \<equiv> min (offset + length data) (df_size f)"
  shows "\<exists>c'. disk_read fi f offset (data, c) = Some ((take (ed - st) (drop st (file_data (bview c) fi f)) @ drop (ed - st) data, c'), ed - st) \<and>
    bc_inv c' \<and> bview c' = bview c"
proof -
  let ?content = "file_data (bview c) fi f"
  define I where "I n s \<longleftrightarrow> (\<exists>c'. s = (take (filled st ed n) (drop st ?content) @ drop (filled st ed n) data, c') \<and> bc_inv c' \<and> bview c' = bview c)" for n s
  have len: "\<forall>b. length (bview c b) = SECTOR_SIZE" using inv bview_length by (simp add: bc_inv_def)
  have lf: "length ?content = length (clusters f) * cluster_bytes fi" by (rule length_file_data [OF len])
  have le: "st \<le> ed" "ed \<le> length (clusters f) * cluster_bytes fi" "ed - st \<le> length data" "ed \<le> length ?content"
    using sz lf by (auto simp: st_def ed_def)
  have start: "I n (data, c)" if "n * SECTOR_SIZE \<le> st" for n
    using that inv by (simp add: I_def filled_def max_absorb2)
  have body: "\<exists>t. read_sector st ed (cluster_to_sector fi (clusters f ! i) + of_nat j) (i * unat (sec_per_clus fi) + j) s = Some t \<and>
      I (Suc (i * unat (sec_per_clus fi) + j)) t"
    if ij: "i < length (clusters f)" "j < unat (sec_per_clus fi)" "I (i * unat (sec_per_clus fi) + j) s" for i j s
  proof -
    let ?n = "i * unat (sec_per_clus fi) + j"
    from ij(3) obtain c' where c': "s = (take (filled st ed ?n) (drop st ?content) @ drop (filled st ed ?n) data, c')" "bc_inv c'" "bview c' = bview c"
      by (auto simp: I_def)
    have "Suc ?n \<le> Suc i * unat (sec_per_clus fi)" using ij(2) by simp
    also have "\<dots> \<le> length (clusters f) * unat (sec_per_clus fi)" using ij(1) by (intro mult_le_mono1) simp
    finally have "?n * SECTOR_SIZE + SECTOR_SIZE \<le> length ?content"
      using mult_le_mono1 [of "Suc ?n" "length (clusters f) * unat (sec_per_clus fi)" SECTOR_SIZE] by (simp add: lf cluster_bytes_def algebra_simps)
    from read_sector_spec [OF c'(2) _ this le(1,3,4)] file_sector [OF len ij(1,2)] c' show ?thesis by (auto simp: I_def)
  qed
  obtain n t where t: "disk_read_loop read_sector fi f st ed (data, c) = Some t" "I n t" "ed \<le> n * SECTOR_SIZE"
    using disk_loop [OF spc le(1,2), of I "(data, c)" read_sector] start body by blast
  have "filled st ed n = ed - st" using t(3) le(1) by (simp add: filled_def)
  with t show ?thesis by (auto simp: disk_read_def st_def [symmetric] ed_def [symmetric] Let_def I_def)
qed

section \<open>Writing\<close>

text \<open>Two states of a loop with the same cache, and buffers of the same length.\<close>

definition alike :: "u8 list \<times> cache_manager \<Rightarrow> u8 list \<times> cache_manager \<Rightarrow> bool" where
  "alike s t \<longleftrightarrow> length (fst s) = length (fst t) \<and> snd s = snd t"

lemma foldM_alike:
  assumes "\<And>x s t. alike s t \<Longrightarrow> rel_option alike (g x s) (g x t)" "alike s t"
  shows "rel_option alike (foldM g xs s) (foldM g xs t)"
  using assms(2)
proof (induction xs arbitrary: s t)
  case (Cons x xs)
  from assms(1) [OF Cons.prems, of x] show ?case by (cases rule: option.rel_cases) (auto intro: Cons.IH)
qed simp

lemma splice_length: "splice a new data = Some d \<Longrightarrow> length d = length data"
  by (auto simp: splice_def panic_simps)

lemma write_sector_alike:
  assumes "alike s t"
  shows "rel_option alike (write_sector st ed sec n s) (write_sector st ed sec n t)"
proof -
  obtain d c d' where st: "s = (d, c)" "t = (d', c)" "length d = length d'" using assms by (cases s; cases t) (auto simp: alike_def)
  have sp: "rel_option (\<lambda>x y. length x = length y) (splice a new d) (splice a new d')" for a new
    using st(3) by (cases "new = [] \<or> a + length new \<le> length d'") (auto simp: splice_def)
  have "rel_option alike (Option.bind (splice a new d) (\<lambda>x. Option.bind r (\<lambda>c''. Some (x, c''))))
      (Option.bind (splice a new d') (\<lambda>x. Option.bind r (\<lambda>c''. Some (x, c''))))" for a new r
    using sp [of a new] by (cases rule: option.rel_cases; cases r) (auto simp: alike_def)
  then have "rel_option alike (Option.bind m (\<lambda>(c', tmp). Option.bind (splice (a tmp) (new tmp) d) (\<lambda>x. Option.bind (r c' tmp) (\<lambda>c''. Some (x, c'')))))
      (Option.bind m (\<lambda>(c', tmp). Option.bind (splice (a tmp) (new tmp) d') (\<lambda>x. Option.bind (r c' tmp) (\<lambda>c''. Some (x, c'')))))"
    for m :: "(cache_manager \<times> u8 list) option" and a new r
    by (cases m) (simp_all add: case_prod_unfold)
  then show ?thesis unfolding st write_sector_def Let_def prod.case using assms st by (simp add: alike_def)
qed

section \<open>Properties\<close>

text \<open>A small disk: a table of one sector, a file in the clusters 2 and 3, a cluster that leads to itself.\<close>

definition demo_fi :: fat_info where
  "demo_fi = \<lparr>sector = 32, fi_size = 1, byte_per_sec = 512, sec_per_clus = 1, num_fat = 1\<rparr>"

definition demo_fat :: "usize \<Rightarrow> u8 list" where
  "demo_fat b = (if b = 32 then concat (map (le_bytes 4) [0x0FFFFFF8, 0x0FFFFFFF, 3, 0x0FFFFFFF, 0, 5]) @ replicate 488 0
     else replicate 512 (ucast b))"

definition demo_file :: fat_disk_file where
  "demo_file = \<lparr>clusters = [2, 3], df_size = 600\<rparr>"

lemma demo_inv: "bc_inv (bcm_new demo_fat)" "bview (bcm_new demo_fat) = demo_fat" "fi_ok demo_fi"
  using bcm_new_inv [of demo_fat] by (simp_all add: demo_fat_def SECTOR_SIZE_def fi_ok_def demo_fi_def)

lemma demo_entries: "fval demo_fat demo_fi 2 = 3" "fval demo_fat demo_fi 3 = 0x0FFFFFFF" "fval demo_fat demo_fi 5 = 5"
proof -
  have "entry_pos demo_fi 2 = (32, 8)" "entry_pos demo_fi 3 = (32, 12)" "entry_pos demo_fi 5 = (32, 20)"
    by (simp_all add: entry_pos_def demo_fi_def)
  then show "fval demo_fat demo_fi 2 = 3" "fval demo_fat demo_fi 3 = 0x0FFFFFFF" "fval demo_fat demo_fi 5 = 5"
    by (simp_all add: fval_def demo_fat_def le_word_def)
qed

lemma demo_chain: "is_chain demo_fat demo_fi [2, 3]"
  by (simp add: demo_entries fat_status_def MAX_CLUSTER_def)

text \<open>
  C21: \<^verbatim>\<open>find_all_cluster\<close> returns exactly the chain that starts at a cluster, whatever its length, and leaves the disk as it
  was; from a cluster that starts no chain, because the entries lead around a cycle or to an entry that is free or invalid,
  the loop never returns a list, however long it runs.
\<close>

theorem chain_walk:
  assumes "bc_inv c" "fi_ok fi" "unat x < 2 ^ 28"
  shows "(\<forall>xs. is_chain (bview c) fi (x # xs) \<longrightarrow>
      (\<exists>c'. find_all_cluster fi x c = Some (c', x # xs) \<and> bc_inv c' \<and> bview c' = bview c)) \<and>
    ((\<nexists>xs. is_chain (bview c) fi (x # xs)) \<longrightarrow> (\<forall>fuel acc. chain_loop fuel fi x acc c = None))"
  using find_all_cluster_spec [OF _ assms] chain_loop_no_chain [OF _ assms] by blast

theorem chain_walk_witness:
  "(\<exists>c'. find_all_cluster demo_fi 2 (bcm_new demo_fat) = Some (c', [2, 3])) \<and>
   (\<forall>fuel. chain_loop fuel demo_fi 5 [5] (bcm_new demo_fat) = None)"
proof -
  have "\<not> is_chain demo_fat demo_fi (5 # xs)" for xs
  proof
    assume c: "is_chain demo_fat demo_fi (5 # xs)"
    then obtain ys where "xs = 5 # ys" by (cases xs) (auto simp: demo_entries fat_status_def MAX_CLUSTER_def)
    then show False using chain_distinct [OF c] by simp
  qed
  then have "\<forall>fuel acc. chain_loop fuel demo_fi 5 acc (bcm_new demo_fat) = None"
    using chain_walk [OF demo_inv(1,3), of 5] by (simp add: demo_inv(2))
  moreover have "\<exists>c'. find_all_cluster demo_fi 2 (bcm_new demo_fat) = Some (c', [2, 3])"
    using chain_walk [OF demo_inv(1,3), of 2, THEN conjunct1, THEN spec [of _ "[3]"]] demo_chain by (auto simp: demo_inv(2))
  ultimately show ?thesis by simp
qed





text \<open>
  a write never stores the bytes it is given: two writes of buffers of the same length leave the same file and the same
  disk, return the same count, and panic in the same cases.
\<close>

theorem disk_write_ignores_data:
  assumes "length data = length data'"
  shows "map_option (\<lambda>((f1, _, s1), n). (f1, s1, n)) (disk_write fi f offset dc (data, s)) =
    map_option (\<lambda>((f1, _, s1), n). (f1, s1, n)) (disk_write fi f offset dc (data', s))"
proof -
  have loop: "rel_option alike (disk_read_loop write_sector fi f1 st ed (data, c)) (disk_read_loop write_sector fi f1 st ed (data', c))" for f1 st ed c
    unfolding disk_read_loop_def Let_def
  proof (rule foldM_alike)
    fix i s t assume "alike s t"
    then show "rel_option alike (Option.bind (nth_opt (clusters f1) i) (\<lambda>x. foldM (\<lambda>j. write_sector st ed (cluster_to_sector fi x + of_nat j) (i * unat (sec_per_clus fi) + j)) [0..<unat (sec_per_clus fi)] s))
      (Option.bind (nth_opt (clusters f1) i) (\<lambda>x. foldM (\<lambda>j. write_sector st ed (cluster_to_sector fi x + of_nat j) (i * unat (sec_per_clus fi) + j)) [0..<unat (sec_per_clus fi)] t))"
      by (cases "nth_opt (clusters f1) i") (simp_all add: foldM_alike write_sector_alike)
  qed (use assms in \<open>simp add: alike_def\<close>)
  have "\<not> df_size f < min (offset + length data') (df_size f)" by simp
  from loop [of f "min offset (df_size f)" "min (offset + length data') (df_size f)" "cm s"] this assms show ?thesis
    by (cases rule: option.rel_cases) (auto simp: disk_write_def Let_def alike_def)
qed

theorem disk_write_ignores_data_witness:
  "map_option (\<lambda>((f1, _, s1), n). (f1, s1, n)) (disk_write demo_fi demo_file 0 2 ([1, 2, 3], \<lparr>cm = bcm_new demo_fat, fsi = fsinfo_empty\<rparr>)) =
   map_option (\<lambda>((f1, _, s1), n). (f1, s1, n)) (disk_write demo_fi demo_file 0 2 ([7, 8, 9], \<lparr>cm = bcm_new demo_fat, fsi = fsinfo_empty\<rparr>))"
  by (rule disk_write_ignores_data) simp

end
