(* ===== verification/Fd_Table.thy ===== *)
theory Fd_Table
  imports Bitmap_Alloc Fs_Info
begin

text \<open>
  The table of file descriptors of a process (\<^verbatim>\<open>fs/fd_table.rs\<close>) and the system calls that
  only work on it (\<^verbatim>\<open>sys_dup\<close>, \<^verbatim>\<open>sys_dup3\<close>, \<^verbatim>\<open>sys_close\<close> of \<^verbatim>\<open>syscall/fs.rs\<close>). Files are references of
  a type \<open>'f\<close>; what a file does when it is closed or opened is an argument. The hash map is
  an ordered map, as its order is not observed.

  The invariant \<open>fd_wf\<close> says that a descriptor below 256 is in the table exactly when its
  bit is taken. Every operation keeps it, a descriptor returned is the least free one, and
  \<open>close\<close> gives it back.
\<close>

text \<open>\<^verbatim>\<open>BitAlloc256\<close> is the allocator of level 1.\<close>

definition fd_level :: nat where "fd_level = 1"
definition MAX_FD :: nat where "MAX_FD = 256"

record 'f fd_info =
  fd_file :: 'f
  fd_flags :: open_flags

type_synonym fd_allocator = bitalloc

record 'f fd_table =
  fds :: "(nat, 'f fd_info) btree_map"
  fd_alloc :: fd_allocator
  rlimit_curr :: nat
  rlimit_max :: nat

section \<open>Operations\<close>

definition fd_allocator_new :: "fd_allocator option" where
  "fd_allocator_new = ba_insert fd_level (ba_default fd_level) 3 MAX_FD"

definition alloc_fd :: "fd_allocator \<Rightarrow> (fd_allocator \<times> nat option) option" where
  "alloc_fd a = ba_alloc fd_level a"

definition alloc_spec_fd :: "fd_allocator \<Rightarrow> nat \<Rightarrow> (fd_allocator \<times> bool) option" where
  "alloc_spec_fd a new_fd =
     do { r \<leftarrow> ba_test fd_level a new_fd;
          if r then do { a' \<leftarrow> ba_remove fd_level a new_fd (new_fd + 1); Some (a', True) }
          else Some (a, False) }"

definition dealloc_fd :: "fd_allocator \<Rightarrow> nat \<Rightarrow> fd_allocator option" where
  "dealloc_fd a fd = ba_dealloc fd_level a fd"

definition insert_get_fd :: "'f fd_info \<Rightarrow> 'f fd_table \<Rightarrow> ('f fd_table \<times> nat os_result) option" where
  "insert_get_fd i t =
     do { (a, r) \<leftarrow> alloc_fd (fd_alloc t);
          case r of
            None \<Rightarrow> Some (t\<lparr>fd_alloc := a\<rparr>, Inl EBADF)
          | Some fd \<Rightarrow> Some (t\<lparr>fd_alloc := a, fds := bt_insert fd i (fds t)\<rparr>, Inr fd) }"

definition test_fd :: "nat \<Rightarrow> 'f fd_table \<Rightarrow> bool" where
  "test_fd fd t \<longleftrightarrow> fd \<le> rlimit_curr t"

definition insert_spec_fd ::
  "nat \<Rightarrow> 'f fd_info \<Rightarrow> 'f fd_table \<Rightarrow> ('f fd_table \<times> bool os_result) option" where
  "insert_spec_fd new_fd i t =
     (if \<not> test_fd new_fd t then Some (t, Inl EBADF)
      else do { (a, b) \<leftarrow> alloc_spec_fd (fd_alloc t) new_fd;
                if b then Some (t\<lparr>fd_alloc := a, fds := bt_insert new_fd i (fds t)\<rparr>, Inr True)
                else Some (t\<lparr>fd_alloc := a\<rparr>, Inr False) })"

definition init_fdtable :: "'f \<Rightarrow> 'f \<Rightarrow> 'f \<Rightarrow> 'f fd_table option" where
  "init_fdtable stdin stdout stderr =
     do { let m = bt_insert 0 \<lparr>fd_file = stdin, fd_flags = O_RDONLY\<rparr> [];
          let m = bt_insert 1 \<lparr>fd_file = stdout, fd_flags = O_WRONLY\<rparr> m;
          let m = bt_insert 2 \<lparr>fd_file = stderr, fd_flags = O_WRONLY\<rparr> m;
          a \<leftarrow> fd_allocator_new;
          Some \<lparr>fds = m, fd_alloc = a, rlimit_curr = MAX_FD, rlimit_max = MAX_FD\<rparr> }"

definition close_fd :: "nat \<Rightarrow> 'f fd_table \<Rightarrow> 'f fd_table option" where
  "close_fd fd t =
     do { a \<leftarrow> dealloc_fd (fd_alloc t) fd; Some (t\<lparr>fds := bt_remove fd (fds t), fd_alloc := a\<rparr>) }"

definition close_exec :: "'f fd_table \<Rightarrow> 'f fd_table option" where
  "close_exec t =
     foldM close_fd (map fst (filter (\<lambda>(fd, i). contains (fd_flags i) O_CLOEXEC) (fds t))) t"

definition from_clone_copy :: "'f \<Rightarrow> 'f \<Rightarrow> 'f \<Rightarrow> 'f fd_table \<Rightarrow> 'f fd_table option" where
  "from_clone_copy stdin stdout stderr t =
     do { t0 \<leftarrow> init_fdtable stdin stdout stderr;
          foldM (\<lambda>(fd, i) nt.
              if fd < 3 then Some nt
              else do { (a, ret) \<leftarrow> alloc_spec_fd (fd_alloc nt) fd;
                        rassert ret;
                        Some (nt\<lparr>fd_alloc := a, fds := bt_insert fd i (fds nt)\<rparr>) })
            (fds t) t0 }"

text \<open>\<open>open\<close> is the dentry's \<^verbatim>\<open>open\<close>, which may fail.\<close>

definition open_fd ::
  "(open_flags \<Rightarrow> 'f os_result) \<Rightarrow> open_flags \<Rightarrow> 'f fd_table \<Rightarrow> ('f fd_table \<times> nat os_result) option" where
  "open_fd opn flags t = (case opn flags of
     Inl e \<Rightarrow> Some (t, Inl e)
   | Inr f \<Rightarrow> insert_get_fd \<lparr>fd_file = f, fd_flags = flags\<rparr> t)"

section \<open>System calls on descriptors\<close>

definition sys_dup :: "nat \<Rightarrow> 'f fd_table \<Rightarrow> ('f fd_table \<times> nat os_result) option" where
  "sys_dup oldfd t = (case bt_get (fds t) oldfd of
     None \<Rightarrow> Some (t, Inl EBADF)
   | Some i \<Rightarrow> insert_get_fd \<lparr>fd_file = fd_file i, fd_flags = flags_remove O_CLOEXEC (fd_flags i)\<rparr> t)"

definition sys_dup3 :: "nat \<Rightarrow> nat \<Rightarrow> u32 \<Rightarrow> 'f fd_table \<Rightarrow> ('f fd_table \<times> nat os_result) option" where
  "sys_dup3 oldfd newfd flags t =
     (if oldfd = newfd then Some (t, Inl EINVAL)
      else case bt_get (fds t) oldfd of
        None \<Rightarrow> Some (t, Inl EBADF)
      | Some i \<Rightarrow>
          do { flags \<leftarrow> from_bits open_flags_all flags;
               let old_flags = flags_set O_CLOEXEC (contains flags O_CLOEXEC) (fd_flags i);
               (t1, r) \<leftarrow> insert_spec_fd newfd \<lparr>fd_file = fd_file i, fd_flags = old_flags\<rparr> t;
               case r of
                 Inl e \<Rightarrow> Some (t1, Inl e)
               | Inr True \<Rightarrow> Some (t1, Inr newfd)
               | Inr False \<Rightarrow>
                   do { t2 \<leftarrow> close_fd newfd t1;
                        (t3, r') \<leftarrow> insert_spec_fd newfd \<lparr>fd_file = fd_file i, fd_flags = flags\<rparr> t2;
                        case r' of
                          Inl e \<Rightarrow> Some (t3, Inl e)
                        | Inr ret \<Rightarrow> do { rassert ret; Some (t3, Inr newfd) } } })"

text \<open>\<open>cls\<close> is the file's own \<^verbatim>\<open>close\<close>.\<close>

definition sys_close ::
  "('f \<Rightarrow> unit os_result) \<Rightarrow> nat \<Rightarrow> 'f fd_table \<Rightarrow> ('f fd_table \<times> nat os_result) option" where
  "sys_close cls fd t = (case bt_get (fds t) fd of
     None \<Rightarrow> Some (t, Inl EBADF)
   | Some i \<Rightarrow> (case cls (fd_file i) of
       Inl e \<Rightarrow> Some (t, Inl e)
     | Inr _ \<Rightarrow> do { t' \<leftarrow> close_fd fd t; Some (t', Inr 0) }))"

section \<open>The invariant\<close>

definition fd_wf :: "'f fd_table \<Rightarrow> bool" where
  "fd_wf t \<longleftrightarrow> bt_wf (fds t) \<and> ba_wf fd_level (fd_alloc t) \<and> rlimit_curr t = MAX_FD \<and>
     (\<forall>fd. fd < MAX_FD \<longrightarrow> (bt_get (fds t) fd \<noteq> None \<longleftrightarrow> fd \<notin> avail fd_level (fd_alloc t))) \<and>
     (\<forall>fd. bt_get (fds t) fd \<noteq> None \<longrightarrow> fd < MAX_FD)"

definition free_fds :: "'f fd_table \<Rightarrow> nat set" where
  "free_fds t = {fd. fd < MAX_FD \<and> bt_get (fds t) fd = None}"

lemma cap_1: "ba_cap fd_level = MAX_FD"
  by (simp add: ba_cap_eq MAX_FD_def fd_level_def)

lemma fd_wfD:
  assumes "fd_wf t"
  shows "bt_wf (fds t)" "ba_wf fd_level (fd_alloc t)" "rlimit_curr t = MAX_FD" "avail fd_level (fd_alloc t) = free_fds t"
    "\<And>fd i. bt_get (fds t) fd = Some i \<Longrightarrow> fd < MAX_FD"
proof -
  show "avail fd_level (fd_alloc t) = free_fds t"
    using assms avail_bound [of fd_level "fd_alloc t"] cap_1 by (auto simp: fd_wf_def free_fds_def)
qed (use assms in \<open>auto simp: fd_wf_def\<close>)

lemma fd_wfI:
  assumes "bt_wf (fds t)" "ba_wf fd_level (fd_alloc t)" "rlimit_curr t = MAX_FD" "avail fd_level (fd_alloc t) = free_fds t"
    "\<And>fd. bt_get (fds t) fd \<noteq> None \<Longrightarrow> fd < MAX_FD"
  shows "fd_wf t"
  using assms by (auto simp: fd_wf_def free_fds_def)

lemma finite_free_fds [simp]: "finite (free_fds t)"
  by (simp add: free_fds_def)

lemma free_fds_insert: "bt_wf m \<Longrightarrow> fds t = m \<Longrightarrow> free_fds (t\<lparr>fd_alloc := a, fds := bt_insert fd i m\<rparr>) = free_fds t - {fd}"
  by (auto simp: free_fds_def)

lemma free_fds_remove:
  "fd < MAX_FD \<Longrightarrow> free_fds (t\<lparr>fds := bt_remove fd (fds t), fd_alloc := a\<rparr>) = insert fd (free_fds t)"
  by (auto simp: free_fds_def)

lemma alloc_spec_fd_eq:
  assumes "ba_wf fd_level a" "fd < MAX_FD"
  shows "\<exists>a'. alloc_spec_fd a fd = Some (a', fd \<in> avail fd_level a) \<and> ba_wf fd_level a' \<and> avail fd_level a' = avail fd_level a - {fd}"
proof (cases "fd \<in> avail fd_level a")
  case True
  have "Suc fd \<le> ba_cap fd_level" using assms(2) by (simp add: cap_1)
  then obtain a' where "ba_remove fd_level a fd (Suc fd) = Some a'" "ba_wf fd_level a'" "avail fd_level a' = avail fd_level a - {fd..<Suc fd}"
    using range_opD [OF ba_remove_range_op assms(1), of fd "Suc fd"] by auto
  moreover have "{fd..<Suc fd} = {fd}" by auto
  ultimately show ?thesis using True ba.tst_spec [OF assms(1), of fd] assms(2)
    by (simp add: alloc_spec_fd_def cap_1)
next
  case False
  then show ?thesis using ba.tst_spec [OF assms(1), of fd] assms by (simp add: alloc_spec_fd_def cap_1)
qed

lemma insert_get_fd_spec:
  assumes "fd_wf t"
  shows "if free_fds t = {} then \<exists>t'. insert_get_fd i t = Some (t', Inl EBADF) \<and> fd_wf t' \<and> fds t' = fds t
    else \<exists>t'. insert_get_fd i t = Some (t', Inr (Min (free_fds t))) \<and> fd_wf t' \<and>
      fds t' = bt_insert (Min (free_fds t)) i (fds t)"
proof (cases "free_fds t = {}")
  case True
  note w = fd_wfD [OF assms]
  obtain a where a: "ba_alloc fd_level (fd_alloc t) = Some (a, None)" "ba_wf fd_level a" "avail fd_level a = {}"
    using ba.alloc_spec [OF w(2)] w(4) True by auto
  have "fd_wf (t\<lparr>fd_alloc := a\<rparr>)"
    by (rule fd_wfI) (use w a True in \<open>auto simp: free_fds_def\<close>)
  then show ?thesis using a True by (simp add: insert_get_fd_def alloc_fd_def)
next
  case False
  note w = fd_wfD [OF assms]
  let ?fd = "Min (free_fds t)"
  obtain a where a: "ba_alloc fd_level (fd_alloc t) = Some (a, Some ?fd)" "ba_wf fd_level a" "avail fd_level a = free_fds t - {?fd}"
    using ba.alloc_ne [OF w(2)] w(4) False by auto
  have fd: "?fd < MAX_FD" using Min_in [OF finite_free_fds False] by (simp add: free_fds_def)
  have "fd_wf (t\<lparr>fd_alloc := a, fds := bt_insert ?fd i (fds t)\<rparr>)"
    by (rule fd_wfI) (use w a fd free_fds_insert [OF w(1) refl] in \<open>auto split: if_splits\<close>)
  then show ?thesis using a False by (simp add: insert_get_fd_def alloc_fd_def)
qed

lemma close_fd_spec:
  assumes wf: "fd_wf t" and fd: "bt_get (fds t) fd \<noteq> None"
  shows "\<exists>t'. close_fd fd t = Some t' \<and> fd_wf t' \<and> fds t' = bt_remove fd (fds t)"
proof -
  note w = fd_wfD [OF wf]
  have lt: "fd < MAX_FD" using w(5) fd by blast
  then have "fd \<notin> avail fd_level (fd_alloc t)" using fd w(4) by (simp add: free_fds_def)
  then obtain a where a: "ba_dealloc fd_level (fd_alloc t) fd = Some a" "ba_wf fd_level a" "avail fd_level a = insert fd (free_fds t)"
    using ba.dealloc_spec [OF w(2), of fd] lt w(4) by (auto simp: cap_1)
  have "fd_wf (t\<lparr>fds := bt_remove fd (fds t), fd_alloc := a\<rparr>)"
    by (rule fd_wfI) (use w a free_fds_remove [OF lt, of a t] in \<open>auto split: if_splits\<close>)
  then show ?thesis using a by (simp add: close_fd_def dealloc_fd_def)
qed

lemma insert_spec_fd_spec:
  assumes wf: "fd_wf t" and fd: "fd < MAX_FD"
  shows "if bt_get (fds t) fd = None
    then \<exists>t'. insert_spec_fd fd i t = Some (t', Inr True) \<and> fd_wf t' \<and> fds t' = bt_insert fd i (fds t)
    else \<exists>t'. insert_spec_fd fd i t = Some (t', Inr False) \<and> fd_wf t' \<and> fds t' = fds t"
proof -
  note w = fd_wfD [OF wf]
  obtain a where a: "alloc_spec_fd (fd_alloc t) fd = Some (a, fd \<in> free_fds t)" "ba_wf fd_level a"
    "avail fd_level a = free_fds t - {fd}"
    using alloc_spec_fd_eq [OF w(2) fd] w(4) by auto
  have t: "test_fd fd t" using fd w(3) by (simp add: test_fd_def)
  have free: "fd \<in> free_fds t \<longleftrightarrow> bt_get (fds t) fd = None" using fd by (simp add: free_fds_def)
  show ?thesis
  proof (cases "bt_get (fds t) fd = None")
    case True
    have "fd_wf (t\<lparr>fd_alloc := a, fds := bt_insert fd i (fds t)\<rparr>)"
      by (rule fd_wfI) (use w a fd free_fds_insert [OF w(1) refl] in \<open>auto split: if_splits\<close>)
    then show ?thesis using True a(1) t free by (simp add: insert_spec_fd_def)
  next
    case False
    have "fd_wf (t\<lparr>fd_alloc := a\<rparr>)"
      by (rule fd_wfI) (use w a False in \<open>auto simp: free_fds_def\<close>)
    moreover have "alloc_spec_fd (fd_alloc t) fd = Some (a, False)" using a(1) free False by simp
    ultimately show ?thesis using False t by (simp add: insert_spec_fd_def)
  qed
qed

lemma init_fdtable_spec:
  "\<exists>t. init_fdtable a b c = Some t \<and> fd_wf t \<and> dom (bt_get (fds t)) = {0, 1, 2} \<and>
     free_fds t = {3..<MAX_FD} \<and> fds t = [(0, \<lparr>fd_file = a, fd_flags = O_RDONLY\<rparr>),
       (1, \<lparr>fd_file = b, fd_flags = O_WRONLY\<rparr>), (2, \<lparr>fd_file = c, fd_flags = O_WRONLY\<rparr>)]"
proof -
  obtain al where al: "ba_insert fd_level (ba_default fd_level) 3 MAX_FD = Some al" "ba_wf fd_level al" "avail fd_level al = {3..<MAX_FD}"
    using ba.insert_spec [of fd_level "ba_default fd_level" 3 MAX_FD] by (auto simp: cap_1 MAX_FD_def)
  let ?m = "[(0, \<lparr>fd_file = a, fd_flags = O_RDONLY\<rparr>),
       (1, \<lparr>fd_file = b, fd_flags = O_WRONLY\<rparr>), (2, \<lparr>fd_file = c, fd_flags = O_WRONLY\<rparr>)] :: (nat, 'a fd_info) btree_map"
  let ?t = "\<lparr>fds = ?m, fd_alloc = al, rlimit_curr = MAX_FD, rlimit_max = MAX_FD\<rparr>"
  have get: "bt_get ?m fd = None \<longleftrightarrow> 3 \<le> fd" for fd by (auto simp: bt_get_def)
  have free: "free_fds ?t = {3..<MAX_FD}" by (simp only: free_fds_def fd_table.select_convs get) auto
  have "fd_wf ?t"
  proof (rule fd_wfI)
    show "fd < MAX_FD" if "bt_get (fds ?t) fd \<noteq> None" for fd
      using get [of fd] that by (simp add: MAX_FD_def)
  qed (use al free in \<open>auto simp: bt_wf_def\<close>)
  moreover have "init_fdtable a b c = Some ?t" using al(1) by (simp add: init_fdtable_def fd_allocator_new_def)
  moreover have "dom (bt_get ?m) = {0, 1, 2}" by (auto simp: dom_def bt_get_def split: if_splits)
  ultimately show ?thesis using free by simp
qed

lemma bt_get_set: "bt_wf m \<Longrightarrow> (fd, i) \<in> set m \<Longrightarrow> bt_get m fd = Some i"
  by (simp add: bt_get_iff)

lemma close_list:
  assumes "fd_wf t" "distinct l" "\<forall>fd \<in> set l. bt_get (fds t) fd \<noteq> None"
  shows "\<exists>t'. foldM close_fd l t = Some t' \<and> fd_wf t' \<and>
    (\<forall>fd. bt_get (fds t') fd = (if fd \<in> set l then None else bt_get (fds t) fd))"
  using assms
proof (induction l arbitrary: t)
  case Nil
  then show ?case by simp
next
  case (Cons x xs)
  then obtain t1 where t1: "close_fd x t = Some t1" "fd_wf t1" "fds t1 = bt_remove x (fds t)"
    using close_fd_spec [of t x] by auto
  have "\<forall>fd \<in> set xs. bt_get (fds t1) fd \<noteq> None" using Cons.prems t1(3) by auto
  with Cons.IH [of t1] Cons.prems(2) t1(2) obtain t2 where t2: "foldM close_fd xs t1 = Some t2" "fd_wf t2"
    "\<forall>fd. bt_get (fds t2) fd = (if fd \<in> set xs then None else bt_get (fds t1) fd)" by auto
  then show ?case using t1 by (intro exI [of _ t2]) auto
qed

lemma close_exec_spec:
  assumes "fd_wf t"
  shows "\<exists>t'. close_exec t = Some t' \<and> fd_wf t' \<and>
    (\<forall>fd. bt_get (fds t') fd = (case bt_get (fds t) fd of None \<Rightarrow> None
       | Some i \<Rightarrow> if contains (fd_flags i) O_CLOEXEC then None else Some i))"
proof -
  let ?p = "\<lambda>(fd :: nat, i). contains (fd_flags i) O_CLOEXEC"
  let ?l = "map fst (filter ?p (fds t))"
  note w = fd_wfD [OF assms]
  have get: "bt_get (fds t) fd = Some i" if "(fd, i) \<in> set (fds t)" for fd i
    using bt_get_set [OF w(1) that] .
  have "distinct ?l" using bt_wf_distinct [OF w(1)] by (simp add: distinct_map_filter)
  moreover have "\<forall>fd \<in> set ?l. bt_get (fds t) fd \<noteq> None" using get by fastforce
  ultimately obtain t' where t': "close_exec t = Some t'" "fd_wf t'"
    "\<forall>fd. bt_get (fds t') fd = (if fd \<in> set ?l then None else bt_get (fds t) fd)"
    using close_list [OF assms] unfolding close_exec_def by blast
  moreover have "fd \<in> set ?l \<longleftrightarrow> (\<exists>i. bt_get (fds t) fd = Some i \<and> contains (fd_flags i) O_CLOEXEC)" for fd
    using bt_get_iff [OF w(1)] by force
  ultimately show ?thesis by (auto split: option.splits)
qed

text \<open>Copying the descriptors at and above 3 into a fresh table, in any list of entries.\<close>

lemma clone_loop:
  assumes "fd_wf nt" "distinct (map fst l)"
    and "\<forall>(fd, i) \<in> set l. fd < MAX_FD \<and> (3 \<le> fd \<longrightarrow> bt_get (fds nt) fd = None)"
  shows "\<exists>t'. foldM (\<lambda>(fd, i) nt.
              if fd < 3 then Some nt
              else do { (a, ret) \<leftarrow> alloc_spec_fd (fd_alloc nt) fd;
                        rassert ret;
                        Some (nt\<lparr>fd_alloc := a, fds := bt_insert fd i (fds nt)\<rparr>) }) l nt = Some t' \<and> fd_wf t' \<and>
    (\<forall>fd. bt_get (fds t') fd = (if 3 \<le> fd \<and> fd \<in> fst ` set l then map_of l fd else bt_get (fds nt) fd))"
  using assms
proof (induction l arbitrary: nt)
  case Nil
  then show ?case by simp
next
  case (Cons x xs)
  obtain fd i where x: "x = (fd, i)" by fastforce
  show ?case
  proof (cases "fd < 3")
    case True
    then show ?thesis using Cons.IH [of nt] Cons.prems x by (auto split: if_splits)
  next
    case False
    note w = fd_wfD [OF Cons.prems(1)]
    have fd: "fd < MAX_FD" "bt_get (fds nt) fd = None" using Cons.prems(3) False x by auto
    obtain a where a: "alloc_spec_fd (fd_alloc nt) fd = Some (a, fd \<in> avail fd_level (fd_alloc nt))"
      "ba_wf fd_level a" "avail fd_level a = free_fds nt - {fd}"
      using alloc_spec_fd_eq [OF w(2) fd(1)] w(4) by auto
    have av: "fd \<in> avail fd_level (fd_alloc nt)" using fd w(4) by (simp add: free_fds_def)
    let ?nt = "nt\<lparr>fd_alloc := a, fds := bt_insert fd i (fds nt)\<rparr>"
    have wf: "fd_wf ?nt"
      by (rule fd_wfI) (use w a fd free_fds_insert [OF w(1) refl] in \<open>auto split: if_splits\<close>)
    have "\<forall>(fd', i') \<in> set xs. fd' < MAX_FD \<and> (3 \<le> fd' \<longrightarrow> bt_get (fds ?nt) fd' = None)"
      using Cons.prems(2,3) x w(1) by force
    from Cons.IH [OF wf _ this] Cons.prems(2) obtain t' where
      t': "foldM (\<lambda>(fd, i) nt.
              if fd < 3 then Some nt
              else do { (a, ret) \<leftarrow> alloc_spec_fd (fd_alloc nt) fd;
                        rassert ret;
                        Some (nt\<lparr>fd_alloc := a, fds := bt_insert fd i (fds nt)\<rparr>) }) xs ?nt = Some t'" "fd_wf t'"
      "\<forall>f. bt_get (fds t') f = (if 3 \<le> f \<and> f \<in> fst ` set xs then map_of xs f else bt_get (fds ?nt) f)"
      by auto
    have "fd \<notin> fst ` set xs" using Cons.prems(2) x by auto
    then show ?thesis using t' a(1) av False x w(1) by auto
  qed
qed

lemma from_clone_copy_spec:
  assumes "fd_wf t"
  shows "\<exists>t' t0. from_clone_copy a b c t = Some t' \<and> fd_wf t' \<and> init_fdtable a b c = Some t0 \<and>
    (\<forall>fd. bt_get (fds t') fd = (if 3 \<le> fd then bt_get (fds t) fd else bt_get (fds t0) fd))"
proof -
  note w = fd_wfD [OF assms]
  obtain t0 where t0: "init_fdtable a b c = Some t0" "fd_wf t0" "dom (bt_get (fds t0)) = {0, 1, 2}"
    using init_fdtable_spec [of a b c] by auto
  have none: "bt_get (fds t0) fd = None" if "3 \<le> fd" for fd
  proof -
    have "fd \<notin> dom (bt_get (fds t0))" using that t0(3) by simp
    then show ?thesis by (simp add: domIff)
  qed
  have "\<forall>(fd, i) \<in> set (fds t). fd < MAX_FD \<and> (3 \<le> fd \<longrightarrow> bt_get (fds t0) fd = None)"
    using w(5) bt_get_set [OF w(1)] none by blast
  from clone_loop [OF t0(2) bt_wf_distinct [OF w(1)] this] obtain t' where t':
    "from_clone_copy a b c t = Some t'" "fd_wf t'"
    "\<forall>fd. bt_get (fds t') fd = (if 3 \<le> fd \<and> fd \<in> fst ` set (fds t) then map_of (fds t) fd else bt_get (fds t0) fd)"
    using t0(1) by (auto simp: from_clone_copy_def)
  moreover have "bt_get (fds t) fd = None" if "fd \<notin> fst ` set (fds t)" for fd
    using that by (simp add: bt_get_def map_of_eq_None_iff)
  ultimately show ?thesis using t0(1) none by (auto simp: bt_get_def)
qed

section \<open>The contract of the table\<close>

text \<open>
  What the system calls rely on: \<open>put\<close> takes the least descriptor below the limit that is not in
  use, and \<open>cls\<close> gives one back.
\<close>

locale descriptor_table =
  fixes put :: "'i \<Rightarrow> 't \<Rightarrow> ('t \<times> nat os_result) option"
    and cls :: "nat \<Rightarrow> 't \<Rightarrow> 't option"
    and look :: "'t \<Rightarrow> nat \<Rightarrow> 'i option"
    and limit :: nat
    and invar :: "'t \<Rightarrow> bool"
  assumes put_free: "invar t \<Longrightarrow> \<exists>fd < limit. look t fd = None \<Longrightarrow>
      \<exists>t' fd. put i t = Some (t', Inr fd) \<and> invar t' \<and> look t fd = None \<and> fd < limit \<and>
        (\<forall>g < fd. look t g \<noteq> None) \<and> look t' = (look t)(fd \<mapsto> i)"
    and put_full: "invar t \<Longrightarrow> \<forall>fd < limit. look t fd \<noteq> None \<Longrightarrow>
      \<exists>t'. put i t = Some (t', Inl EBADF) \<and> invar t' \<and> look t' = look t"
    and cls_open: "invar t \<Longrightarrow> look t fd \<noteq> None \<Longrightarrow>
      \<exists>t'. cls fd t = Some t' \<and> invar t' \<and> look t' = (look t)(fd := None)"
begin

text \<open>A descriptor closed right after it was opened is the next one to be handed out again.\<close>

lemma put_cls_put:
  assumes "invar t" and "put i t = Some (t1, Inr fd)"
  shows "\<exists>t2 t3. cls fd t1 = Some t2 \<and> invar t2 \<and> look t2 = look t \<and> put j t2 = Some (t3, Inr fd)"
proof -
  have free: "\<exists>fd < limit. look t fd = None"
    using put_full [OF assms(1), of i] assms(2) by fastforce
  have t1: "invar t1" "look t fd = None" "fd < limit" "\<forall>g < fd. look t g \<noteq> None" "look t1 = (look t)(fd \<mapsto> i)"
    using put_free [OF assms(1) free, of i] assms(2) by auto
  then obtain t2 where t2: "cls fd t1 = Some t2" "invar t2" "look t2 = (look t1)(fd := None)"
    using cls_open [of t1 fd] by auto
  have same: "look t2 = look t" using t2(3) t1(2,5) by auto
  obtain t3 g where g: "put j t2 = Some (t3, Inr g)" "look t g = None" "\<forall>h < g. look t h \<noteq> None"
    using put_free [OF t2(2), of j] free same by auto
  have "g = fd" using g(2,3) t1(2,4) by (metis linorder_neqE_nat)
  then show ?thesis using t2 same g(1) by blast
qed

end

interpretation fdt: descriptor_table insert_get_fd close_fd "\<lambda>t. bt_get (fds t)" MAX_FD fd_wf
proof unfold_locales
  fix t :: "'f fd_table" and i fd assume wf: "fd_wf t"
  show "\<exists>t' fd. insert_get_fd i t = Some (t', Inr fd) \<and> fd_wf t' \<and> bt_get (fds t) fd = None \<and> fd < MAX_FD \<and>
      (\<forall>g < fd. bt_get (fds t) g \<noteq> None) \<and> bt_get (fds t') = (bt_get (fds t))(fd \<mapsto> i)"
    if "\<exists>fd < MAX_FD. bt_get (fds t) fd = None"
  proof -
    have ne: "free_fds t \<noteq> {}" using that by (auto simp: free_fds_def)
    let ?fd = "Min (free_fds t)"
    have fd: "?fd \<in> free_fds t" using ne by simp
    have least: "g \<notin> free_fds t" if "g < ?fd" for g using that by (metis Min_le finite_free_fds not_less)
    obtain t' where t': "insert_get_fd i t = Some (t', Inr ?fd)" "fd_wf t'" "fds t' = bt_insert ?fd i (fds t)"
      using insert_get_fd_spec [OF wf, of i] ne by auto
    have "bt_get (fds t') = (bt_get (fds t))(?fd \<mapsto> i)" using t'(3) fd_wfD(1) [OF wf] by (auto simp: fun_eq_iff)
    moreover have lt: "?fd < MAX_FD" "bt_get (fds t) ?fd = None" using fd by (auto simp: free_fds_def)
    moreover have "bt_get (fds t) g \<noteq> None" if "g < ?fd" for g
      using least [OF that] lt(1) that by (simp add: free_fds_def)
    ultimately show ?thesis using t' by blast
  qed
  show "\<exists>t'. insert_get_fd i t = Some (t', Inl EBADF) \<and> fd_wf t' \<and> bt_get (fds t') = bt_get (fds t)"
    if "\<forall>fd < MAX_FD. bt_get (fds t) fd \<noteq> None"
  proof -
    have "free_fds t = {}" using that by (auto simp: free_fds_def)
    then show ?thesis using insert_get_fd_spec [OF wf, of i] by auto
  qed
  show "\<exists>t'. close_fd fd t = Some t' \<and> fd_wf t' \<and> bt_get (fds t') = (bt_get (fds t))(fd := None)"
    if "bt_get (fds t) fd \<noteq> None"
    using close_fd_spec [OF wf that] by (auto simp: fun_eq_iff)
qed

section \<open>Properties\<close>

text \<open>
  C29: a new descriptor is the least one below 256 not in use, or \<^verbatim>\<open>EBADF\<close> when all are in use; closing it
  restores the table, and the next descriptor handed out is the same one.
\<close>

theorem insert_get_fd_least:
  assumes wf: "fd_wf t"
  shows "(if \<exists>fd < MAX_FD. bt_get (fds t) fd = None
     then \<exists>t' fd. insert_get_fd i t = Some (t', Inr fd) \<and> fd_wf t' \<and> fd < MAX_FD \<and> bt_get (fds t) fd = None \<and>
       (\<forall>g < fd. bt_get (fds t) g \<noteq> None) \<and> bt_get (fds t') = (bt_get (fds t))(fd \<mapsto> i) \<and>
       (\<exists>t2 t3. close_fd fd t' = Some t2 \<and> bt_get (fds t2) = bt_get (fds t) \<and> insert_get_fd j t2 = Some (t3, Inr fd))
     else \<exists>t'. insert_get_fd i t = Some (t', Inl EBADF) \<and> fd_wf t' \<and> bt_get (fds t') = bt_get (fds t))"
proof (cases "\<exists>fd < MAX_FD. bt_get (fds t) fd = None")
  case True
  obtain t' fd where t': "insert_get_fd i t = Some (t', Inr fd)" "fd_wf t'" "bt_get (fds t) fd = None"
    "fd < MAX_FD" "\<forall>g < fd. bt_get (fds t) g \<noteq> None" "bt_get (fds t') = (bt_get (fds t))(fd \<mapsto> i)"
    using fdt.put_free [OF wf True, of i] by blast
  moreover obtain t2 t3 where "close_fd fd t' = Some t2" "bt_get (fds t2) = bt_get (fds t)"
    "insert_get_fd j t2 = Some (t3, Inr fd)"
    using fdt.put_cls_put [OF wf t'(1), of j] by blast
  ultimately show ?thesis using True by auto
next
  case False
  then have "\<forall>fd < MAX_FD. bt_get (fds t) fd \<noteq> None" by simp
  from fdt.put_full [OF wf this, of i] show ?thesis unfolding if_not_P [OF False] .
qed

definition fd_demo :: "nat fd_table" where
  "fd_demo = the (init_fdtable 10 11 12)"

lemma fd_demo_wf: "fd_wf fd_demo" "fds fd_demo = [(0, \<lparr>fd_file = 10, fd_flags = O_RDONLY\<rparr>),
    (1, \<lparr>fd_file = 11, fd_flags = O_WRONLY\<rparr>), (2, \<lparr>fd_file = 12, fd_flags = O_WRONLY\<rparr>)]"
  using init_fdtable_spec [of "10 :: nat" 11 12] by (auto simp: fd_demo_def)

theorem insert_get_fd_least_witness:
  "fd_wf fd_demo \<and> (\<exists>t'. insert_get_fd \<lparr>fd_file = 20, fd_flags = O_RDWR\<rparr> fd_demo = Some (t', Inr 3) \<and> fd_wf t')"
proof -
  have none: "bt_get (fds fd_demo) fd = None \<longleftrightarrow> 3 \<le> fd" for fd
    unfolding fd_demo_wf by (auto simp: bt_get_def)
  have "\<exists>fd < MAX_FD. bt_get (fds fd_demo) fd = None" unfolding none by (auto simp: MAX_FD_def intro!: exI [of _ 3])
  then obtain t' fd where t': "insert_get_fd \<lparr>fd_file = 20, fd_flags = O_RDWR\<rparr> fd_demo = Some (t', Inr fd)" "fd_wf t'"
    "bt_get (fds fd_demo) fd = None" "\<forall>g < fd. bt_get (fds fd_demo) g \<noteq> None"
    using insert_get_fd_least [OF fd_demo_wf(1), of "\<lparr>fd_file = 20, fd_flags = O_RDWR\<rparr>" undefined] by auto
  have "3 \<le> fd" using t'(3) none by blast
  moreover have "\<not> 3 < fd" using t'(4) none [of 3] by auto
  ultimately have "fd = 3" by simp
  then show ?thesis using t'(1,2) fd_demo_wf(1) by blast
qed

text \<open>
  \<open>close_exec\<close> closes exactly the descriptors marked close-on-exec, and \<open>from_clone_copy\<close> gives a child the
  parent's descriptors from 3 on, unchanged, and fresh standard streams; neither panics.
\<close>

theorem exec_and_clone_tables:
  assumes "fd_wf t"
  shows "(\<exists>t'. close_exec t = Some t' \<and> fd_wf t' \<and>
      (\<forall>fd. bt_get (fds t') fd = (case bt_get (fds t) fd of None \<Rightarrow> None
         | Some i \<Rightarrow> if contains (fd_flags i) O_CLOEXEC then None else Some i))) \<and>
    (\<exists>t' t0. from_clone_copy a b c t = Some t' \<and> fd_wf t' \<and> init_fdtable a b c = Some t0 \<and>
      (\<forall>fd. bt_get (fds t') fd = (if 3 \<le> fd then bt_get (fds t) fd else bt_get (fds t0) fd)))"
  using close_exec_spec [OF assms] from_clone_copy_spec [OF assms] by blast

theorem exec_and_clone_tables_witness:
  "fd_wf fd_demo \<and> (\<exists>t'. close_exec fd_demo = Some t' \<and> fd_wf t') \<and>
   (\<exists>t'. from_clone_copy 0 1 2 fd_demo = Some t' \<and> fd_wf t')"
  using exec_and_clone_tables [OF fd_demo_wf(1), of 0 1 2] fd_demo_wf(1) by blast

text \<open>
  \<open>sys_dup3\<close> of an open descriptor makes the new one refer to the same file. A new descriptor that was closed
  gets the old one's flags with close-on-exec as asked; one that was open gets the raw argument as flags,
  and so loses its access mode. Descriptor 256 passes the limit test and panics; beyond it is \<^verbatim>\<open>EBADF\<close>.
\<close>

theorem sys_dup3_cases:
  assumes wf: "fd_wf t" and old: "bt_get (fds t) oldfd = Some i" and ne: "oldfd \<noteq> newfd"
    and fl: "from_bits open_flags_all flags = Some flags"
  shows "if newfd < MAX_FD then
      \<exists>t'. sys_dup3 oldfd newfd flags t = Some (t', Inr newfd) \<and> fd_wf t' \<and>
        bt_get (fds t') = (bt_get (fds t))(newfd \<mapsto> \<lparr>fd_file = fd_file i,
          fd_flags = (if bt_get (fds t) newfd = None
            then flags_set O_CLOEXEC (contains flags O_CLOEXEC) (fd_flags i) else flags)\<rparr>)
    else if newfd = MAX_FD then sys_dup3 oldfd newfd flags t = None
    else sys_dup3 oldfd newfd flags t = Some (t, Inl EBADF)"
proof -
  note w = fd_wfD [OF wf]
  let ?i = "\<lparr>fd_file = fd_file i, fd_flags = flags_set O_CLOEXEC (contains flags O_CLOEXEC) (fd_flags i)\<rparr>"
  let ?j = "\<lparr>fd_file = fd_file i, fd_flags = flags\<rparr>"
  have upd: "bt_get m' = (bt_get m)(newfd \<mapsto> x)" if "bt_wf m" "m' = bt_insert newfd x m"
    for m m' and x :: "'a fd_info"
    using that by (auto simp: fun_eq_iff)
  show ?thesis
  proof (cases "newfd < MAX_FD")
    case True
    show ?thesis
    proof (cases "bt_get (fds t) newfd")
      case None
      then obtain t' where "insert_spec_fd newfd ?i t = Some (t', Inr True)" "fd_wf t'" "fds t' = bt_insert newfd ?i (fds t)"
        using insert_spec_fd_spec [OF wf True, of ?i] by auto
      then show ?thesis using True None ne old fl upd [OF w(1)] by (auto simp: sys_dup3_def)
    next
      case (Some k)
      then obtain t1 where t1: "insert_spec_fd newfd ?i t = Some (t1, Inr False)" "fd_wf t1" "fds t1 = fds t"
        using insert_spec_fd_spec [OF wf True, of ?i] by auto
      then obtain t2 where t2: "close_fd newfd t1 = Some t2" "fd_wf t2" "fds t2 = bt_remove newfd (fds t)"
        using close_fd_spec [OF t1(2), of newfd] Some by auto
      have "bt_get (fds t2) newfd = None" by (simp add: t2(3))
      then obtain t3 where t3: "insert_spec_fd newfd ?j t2 = Some (t3, Inr True)" "fd_wf t3"
        "fds t3 = bt_insert newfd ?j (fds t2)"
        using insert_spec_fd_spec [OF t2(2) True, of ?j] by auto
      have "bt_get (fds t3) = (bt_get (fds t))(newfd \<mapsto> ?j)"
        using upd [OF fd_wfD(1) [OF t2(2)] t3(3)] t2(3) by (auto simp: fun_eq_iff)
      then show ?thesis using True Some ne old fl t1(1) t2(1) t3(1,2) by (auto simp: sys_dup3_def)
    qed
  next
    case False
    have "ba_test fd_level (fd_alloc t) newfd = None" if "newfd = MAX_FD"
      using ba.tst_spec [OF w(2), of newfd] that by (simp add: cap_1)
    then show ?thesis using False ne old fl w(3)
      by (auto simp: sys_dup3_def insert_spec_fd_def test_fd_def alloc_spec_fd_def)
  qed
qed

theorem sys_dup3_cases_witness:
  "fd_wf fd_demo \<and> sys_dup3 1 256 0 fd_demo = None \<and>
   (\<exists>t'. sys_dup3 1 0 0 fd_demo = Some (t', Inr 0) \<and>
     bt_get (fds t') 0 = Some \<lparr>fd_file = 11, fd_flags = O_RDONLY\<rparr>)"
proof -
  have one: "bt_get (fds fd_demo) 1 = Some \<lparr>fd_file = 11, fd_flags = O_WRONLY\<rparr>"
    "bt_get (fds fd_demo) 0 = Some \<lparr>fd_file = 10, fd_flags = O_RDONLY\<rparr>"
    unfolding fd_demo_wf by (simp_all add: bt_get_def)
  have fl: "from_bits open_flags_all 0 = Some 0" by (simp add: from_bits_def)
  have "sys_dup3 1 256 0 fd_demo = None"
    using sys_dup3_cases [OF fd_demo_wf(1) one(1) _ fl, of 256] by (simp add: MAX_FD_def)
  moreover have "\<exists>t'. sys_dup3 1 0 0 fd_demo = Some (t', Inr 0) \<and>
     bt_get (fds t') 0 = Some \<lparr>fd_file = 11, fd_flags = O_RDONLY\<rparr>"
    using sys_dup3_cases [OF fd_demo_wf(1) one(1) _ fl, of 0] one(2)
    by (auto simp: MAX_FD_def O_RDONLY_def)
  ultimately show ?thesis using fd_demo_wf(1) by blast
qed

text \<open>
  \<open>sys_close\<close> of a descriptor that is not open is \<^verbatim>\<open>EBADF\<close> and never panics; of an open one it frees exactly that
  descriptor when the file's own close succeeds and changes nothing when it fails.
\<close>

theorem sys_close_cases:
  assumes wf: "fd_wf t"
  shows "case bt_get (fds t) fd of
    None \<Rightarrow> sys_close cls fd t = Some (t, Inl EBADF)
  | Some i \<Rightarrow> (case cls (fd_file i) of
      Inl e \<Rightarrow> sys_close cls fd t = Some (t, Inl e)
    | Inr _ \<Rightarrow> \<exists>t'. sys_close cls fd t = Some (t', Inr 0) \<and> fd_wf t' \<and> bt_get (fds t') = (bt_get (fds t))(fd := None))"
  using fdt.cls_open [OF wf, of fd]
  by (auto simp: sys_close_def split: option.splits sum.splits)

theorem sys_close_cases_witness:
  "fd_wf fd_demo \<and> sys_close (\<lambda>_. Inr ()) 7 fd_demo = Some (fd_demo, Inl EBADF)"
  using sys_close_cases [OF fd_demo_wf(1), where fd = 7 and cls = "\<lambda>_. Inr ()"] fd_demo_wf(1)
  unfolding fd_demo_wf(2) by (simp add: bt_get_def)

end
