(* ===== verification/Path.thy ===== *)
theory Path
  imports Fd_Table
begin

text \<open>
  Path strings (\<^verbatim>\<open>utils/path.rs\<close>, \<^verbatim>\<open>utils/string.rs\<close>). A Rust string is a list of characters; splitting
  and joining follow \<^verbatim>\<open>str::split\<close> and \<^verbatim>\<open>join\<close>. User memory is a function from addresses to
  bytes, and reading a string that never ends is the value \<^term>\<open>None\<close>.

  The lemmas relate the functions to lists of names: \<open>abs_path ns\<close> is the canonical absolute path with
  the names \<open>ns\<close>, \<open>parent_path\<close> drops the last one, \<open>dentry_name\<close> returns it, \<open>cwd_and_name\<close> adds one.
\<close>

section \<open>Splitting and joining\<close>

fun split_on :: "char \<Rightarrow> string \<Rightarrow> string list" where
  "split_on c [] = [[]]"
| "split_on c (x # xs) =
     (if x = c then [] # split_on c xs
      else case split_on c xs of [] \<Rightarrow> [[x]] | w # ws \<Rightarrow> (x # w) # ws)"

fun join :: "string \<Rightarrow> string list \<Rightarrow> string" where
  "join sep [] = []"
| "join sep [w] = w"
| "join sep (w # ws) = w @ sep @ join sep ws"

definition starts_with :: "string \<Rightarrow> string \<Rightarrow> bool" where
  "starts_with p s \<longleftrightarrow> take (length p) s = p"

definition ends_with_slash :: "string \<Rightarrow> bool" where
  "ends_with_slash s \<longleftrightarrow> s \<noteq> [] \<and> last s = CHR ''/''"

definition trim_end :: "(char \<Rightarrow> bool) \<Rightarrow> string \<Rightarrow> string" where
  "trim_end p s = rev (dropWhile p (rev s))"

section \<open>Path functions\<close>

definition dentry_name :: "string \<Rightarrow> string" where
  "dentry_name path = (case List.find (\<lambda>s. s \<noteq> []) (rev (split_on (CHR ''/'') path)) of Some s \<Rightarrow> s | None \<Rightarrow> [])"

definition is_relative_path :: "string \<Rightarrow> bool" where
  "is_relative_path path \<longleftrightarrow> \<not> starts_with ''/'' path"

definition parent_path :: "string \<Rightarrow> string" where
  "parent_path path =
     (if path = ''/'' then ''/''
      else let names = filter (\<lambda>n. n \<noteq> []) (split_on (CHR ''/'') path) in
        if length names = 1 then ''/'' else join ''/'' (butlast ([] # names)))"

definition format_rel_path :: "string \<Rightarrow> string" where
  "format_rel_path path = dropWhile (\<lambda>c. c = CHR ''.'' \<or> c = CHR ''/'') path"

definition push_path :: "string \<Rightarrow> string \<Rightarrow> string" where
  "push_path cwd f = (if ends_with_slash cwd then cwd else cwd @ ''/'') @ f"

definition cwd_and_path :: "string \<Rightarrow> string \<Rightarrow> string" where
  "cwd_and_path path cwd =
     (if starts_with ''../'' path then push_path (parent_path cwd) (format_rel_path path)
      else if starts_with ''./'' path then push_path cwd (format_rel_path path)
      else push_path cwd (format_rel_path path))"

definition cwd_and_name :: "string \<Rightarrow> string \<Rightarrow> string option" where
  "cwd_and_name name cwd = do { rassert (CHR ''/'' \<notin> set name); Some (push_path cwd name) }"

definition format_path :: "string \<Rightarrow> string" where
  "format_path path =
     (if path = [] then []
      else trim_end (\<lambda>c. c = CHR ''/'' \<or> c = CHR 0x09 \<or> c = CHR 0x0A) path)"

section \<open>Paths from user memory\<close>

partial_function (option) c_ptr_to_string :: "(usize \<Rightarrow> u8) \<Rightarrow> usize \<Rightarrow> string option" where
  "c_ptr_to_string mem ptr =
     (if mem ptr = 0 then Some []
      else do { s \<leftarrow> c_ptr_to_string mem (ptr + 1); Some (char_of (unat (mem ptr)) # s) })"

definition AT_FDCWD :: int where "AT_FDCWD = -100"

text \<open>\<open>d_path\<close> is the path of the dentry of a file; a file without a dentry panics.\<close>

definition dirfd_to_path ::
  "('f \<Rightarrow> string option) \<Rightarrow> 'f fd_table \<Rightarrow> string \<Rightarrow> int \<Rightarrow> string os_result option" where
  "dirfd_to_path d_path t cwd dirfd =
     (if dirfd = AT_FDCWD then Some (Inr cwd)
      else case bt_get (fds t) (nat (dirfd mod 2 ^ 64)) of
        None \<Rightarrow> Some (Inl EBADF)
      | Some i \<Rightarrow> do { p \<leftarrow> d_path (fd_file i); Some (Inr p) })"

definition dirfd_and_path ::
  "('f \<Rightarrow> string option) \<Rightarrow> 'f fd_table \<Rightarrow> string \<Rightarrow> int \<Rightarrow> string \<Rightarrow> string os_result option" where
  "dirfd_and_path d_path t cwd dirfd path =
     do { let fp = format_path path;
          r \<leftarrow> dirfd_to_path d_path t cwd dirfd;
          case r of
            Inl e \<Rightarrow> Some (Inl e)
          | Inr fd \<Rightarrow>
              Some (Inr (if starts_with ''../'' fp then push_path (parent_path fd) (format_rel_path fp)
                         else push_path fd (format_rel_path fp))) }"

definition ptr_and_dirfd_to_path ::
  "(usize \<Rightarrow> u8) \<Rightarrow> ('f \<Rightarrow> string option) \<Rightarrow> 'f fd_table \<Rightarrow> string \<Rightarrow> int \<Rightarrow> usize \<Rightarrow> string os_result option" where
  "ptr_and_dirfd_to_path mem d_path t cwd dirfd ptr =
     do { rassert (ptr \<noteq> 0);
          path \<leftarrow> c_ptr_to_string mem ptr;
          if is_relative_path path then dirfd_and_path d_path t cwd dirfd path
          else Some (Inr path) }"

section \<open>Lists of names\<close>

definition name_ok :: "string \<Rightarrow> bool" where
  "name_ok n \<longleftrightarrow> n \<noteq> [] \<and> CHR ''/'' \<notin> set n"

definition abs_path :: "string list \<Rightarrow> string" where
  "abs_path ns = (if ns = [] then ''/'' else concat (map ((#) (CHR ''/'')) ns))"

lemma split_on_ne [simp]: "split_on c s \<noteq> []"
  by (induction s) (auto split: list.splits)

lemma split_on_no: "c \<notin> set s \<Longrightarrow> split_on c s = [s]"
  by (induction s) auto

lemma split_on_append: "c \<notin> set s \<Longrightarrow> split_on c (s @ c # t) = s # split_on c t"
  by (induction s) auto

lemma split_on_names:
  "\<forall>n \<in> set ns. name_ok n \<Longrightarrow> ns \<noteq> [] \<Longrightarrow> split_on (CHR ''/'') (concat (map ((#) (CHR ''/'')) ns)) = [] # ns"
proof (induction ns)
  case (Cons n ns)
  then have n: "CHR ''/'' \<notin> set n" by (simp add: name_ok_def)
  show ?case
  proof (cases ns)
    case Nil
    then show ?thesis using n by (simp add: split_on_no)
  next
    case (Cons m ms)
    have "split_on (CHR ''/'') (concat (map ((#) (CHR ''/'')) ns)) = [] # ns" using Cons.IH Cons.prems \<open>ns = m # ms\<close> by simp
    then have "split_on (CHR ''/'') (m @ concat (map ((#) (CHR ''/'')) ms)) = ns" using Cons by simp
    then show ?thesis using Cons split_on_append [OF n] by simp
  qed
qed simp

lemma join_names: "ns \<noteq> [] \<Longrightarrow> join ''/'' ([] # ns) = concat (map ((#) (CHR ''/'')) ns)"
proof (induction ns rule: rev_induct)
  case (snoc n ns)
  have app: "join ''/'' (ws @ [w]) = join ''/'' ws @ ''/'' @ w" if "ws \<noteq> []" for ws w
    using that by (induction "''/'' :: string" ws rule: join.induct) auto
  show ?case using app [of "[] # ns" n] snoc by (cases ns) auto
qed simp

lemma filter_names: "\<forall>n \<in> set ns. name_ok n \<Longrightarrow> filter (\<lambda>n. n \<noteq> []) ns = ns"
  by (auto simp: name_ok_def filter_id_conv)

lemma abs_path_not_root: "\<forall>n \<in> set ns. name_ok n \<Longrightarrow> ns \<noteq> [] \<Longrightarrow> abs_path ns \<noteq> ''/''"
  by (cases ns) (auto simp: abs_path_def name_ok_def)

lemma parent_path_abs:
  assumes "\<forall>n \<in> set ns. name_ok n" shows "parent_path (abs_path ns) = abs_path (butlast ns)"
proof (cases "ns = []")
  case True
  then show ?thesis by (simp add: abs_path_def parent_path_def)
next
  case False
  have names: "filter (\<lambda>n. n \<noteq> []) (split_on (CHR ''/'') (abs_path ns)) = ns"
    using split_on_names [OF assms False] filter_names [OF assms] False by (simp add: abs_path_def)
  show ?thesis
  proof (cases "length ns = 1")
    case True
    then have "butlast ns = []" by (cases ns) auto
    then show ?thesis using names True abs_path_not_root [OF assms False] by (simp add: parent_path_def abs_path_def)
  next
    case len: False
    then have "butlast ns \<noteq> []" "butlast ([] # ns) = [] # butlast ns" using False by (cases ns; auto)+
    then show ?thesis using names len abs_path_not_root [OF assms False] join_names
      by (simp add: parent_path_def abs_path_def)
  qed
qed

lemma dentry_name_abs:
  assumes "\<forall>n \<in> set ns. name_ok n" "ns \<noteq> []" shows "dentry_name (abs_path ns) = last ns"
proof -
  have "name_ok (last ns)" using assms by simp
  then have "last ns \<noteq> []" by (simp add: name_ok_def)
  moreover have "split_on (CHR ''/'') (abs_path ns) = [] # ns" using split_on_names assms by (simp add: abs_path_def)
  moreover obtain ms m where "ns = ms @ [m]" using assms(2) by (cases ns rule: rev_cases) auto
  ultimately show ?thesis by (simp add: dentry_name_def)
qed

lemma abs_path_ends: "\<forall>n \<in> set ns. name_ok n \<Longrightarrow> ends_with_slash (abs_path ns) \<longleftrightarrow> ns = []"
proof (cases ns rule: rev_cases)
  case (snoc ms n)
  assume "\<forall>n \<in> set ns. name_ok n"
  then have n: "n \<noteq> []" "CHR ''/'' \<notin> set n" using snoc by (auto simp: name_ok_def)
  then have "last n \<noteq> CHR ''/''" using last_in_set [of n] by metis
  then show ?thesis using n snoc by (simp add: ends_with_slash_def abs_path_def)
qed (simp add: ends_with_slash_def abs_path_def)

lemma push_path_abs:
  assumes "\<forall>n \<in> set ns. name_ok n" shows "push_path (abs_path ns) f =
    (if ns = [] then ''/'' @ f else abs_path ns @ ''/'' @ f)"
  using abs_path_ends [OF assms] by (simp add: push_path_def) (simp add: abs_path_def)

lemma push_path_name: "\<forall>m \<in> set ns. name_ok m \<Longrightarrow> push_path (abs_path ns) n = abs_path (ns @ [n])"
  using push_path_abs [of ns n] by (simp add: abs_path_def)

section \<open>Properties\<close>

text \<open>
  on canonical absolute paths, adding a name to a directory's path gives a path whose parent is the directory and whose
  last name is the name, and the parent of the root is the root.
\<close>

theorem path_name_round_trip:
  assumes "\<forall>m \<in> set ns. name_ok m" and "name_ok n"
  shows "\<exists>p. cwd_and_name n (abs_path ns) = Some p \<and> p = abs_path (ns @ [n]) \<and>
    parent_path p = abs_path ns \<and> dentry_name p = n \<and> \<not> is_relative_path p \<and> parent_path ''/'' = ''/''"
proof -
  have ok: "\<forall>m \<in> set (ns @ [n]). name_ok m" using assms by simp
  have "cwd_and_name n (abs_path ns) = Some (abs_path (ns @ [n]))"
    using assms push_path_name by (simp add: cwd_and_name_def name_ok_def)
  moreover have "\<not> is_relative_path (abs_path (ns @ [n]))"
    by (cases ns) (simp_all add: is_relative_path_def starts_with_def abs_path_def)
  moreover have "parent_path ''/'' = ''/''" by (simp add: parent_path_def)
  ultimately show ?thesis using parent_path_abs [OF ok] dentry_name_abs [OF ok] by simp
qed

theorem path_name_round_trip_witness:
  "cwd_and_name ''b'' ''/home/a'' = Some ''/home/a/b'' \<and> parent_path ''/home/a/b'' = ''/home/a'' \<and> dentry_name ''/home/a/b'' = ''b''"
  using path_name_round_trip [of "[''home'', ''a'']" "''b''"] by (simp add: name_ok_def abs_path_def)

text \<open>The relative path with the given names.\<close>

definition rel_path :: "string list \<Rightarrow> string" where
  "rel_path rs = tl (concat (map ((#) (CHR ''/'')) rs))"

lemma format_rel_path_plain:
  "name_ok n \<Longrightarrow> hd n \<noteq> CHR ''.'' \<Longrightarrow> format_rel_path (n @ s) = n @ s"
  by (cases n) (auto simp: format_rel_path_def name_ok_def)

lemma rel_path_Cons: "rel_path (r # rs) = r @ concat (map ((#) (CHR ''/'')) rs)"
  by (simp add: rel_path_def)

lemma push_rel_path:
  "\<forall>m \<in> set ns. name_ok m \<Longrightarrow> push_path (abs_path ns) (rel_path (r # rs)) = abs_path (ns @ r # rs)"
  using push_path_abs [of ns "rel_path (r # rs)"] by (auto simp: abs_path_def rel_path_Cons)

lemma not_dot_prefix:
  assumes "name_ok n" "hd n \<noteq> CHR ''.''"
  shows "\<not> starts_with ''../'' (n @ s)" "\<not> starts_with ''./'' (n @ s)"
  using assms by (cases n; auto simp: starts_with_def name_ok_def)+

text \<open>
  a relative path without leading dots, alone or behind one \<^verbatim>\<open>./\<close>, resolves under the working directory, and behind one \<^verbatim>\<open>../\<close> under its
  parent, to a canonical absolute path.
\<close>

theorem relative_path_resolves:
  assumes ns: "\<forall>m \<in> set ns. name_ok m" and r: "name_ok r" "hd r \<noteq> CHR ''.''"
  shows "cwd_and_path (rel_path (r # rs)) (abs_path ns) = abs_path (ns @ r # rs) \<and>
    cwd_and_path (''./'' @ rel_path (r # rs)) (abs_path ns) = abs_path (ns @ r # rs) \<and>
    cwd_and_path (''../'' @ rel_path (r # rs)) (abs_path ns) = abs_path (butlast ns @ r # rs)"
proof -
  have rel: "format_rel_path (rel_path (r # rs)) = rel_path (r # rs)"
    using format_rel_path_plain [OF r] by (simp add: rel_path_Cons)
  then have dots: "format_rel_path (''./'' @ rel_path (r # rs)) = rel_path (r # rs)"
    "format_rel_path (''../'' @ rel_path (r # rs)) = rel_path (r # rs)" by (simp_all add: format_rel_path_def)
  have "\<forall>m \<in> set (butlast ns). name_ok m" using ns by (auto dest: in_set_butlastD)
  moreover have "\<not> starts_with ''../'' (rel_path (r # rs))" "\<not> starts_with ''./'' (rel_path (r # rs))"
    using not_dot_prefix [OF r] by (simp_all add: rel_path_Cons)
  moreover have "starts_with ''../'' (''../'' @ s)" "\<not> starts_with ''../'' (''./'' @ s)" for s
    by (simp_all add: starts_with_def)
  ultimately show ?thesis
    using push_rel_path ns parent_path_abs [OF ns] rel dots by (simp only: cwd_and_path_def if_True if_False) simp
qed

theorem relative_path_resolves_witness:
  "cwd_and_path ''../x/y'' ''/home/a'' = ''/home/x/y'' \<and> cwd_and_path ''x/y'' ''/home/a'' = ''/home/a/x/y''"
  using relative_path_resolves [of "[''home'', ''a'']" "''x''" "[''y'']"]
  by (simp add: name_ok_def abs_path_def rel_path_def)

text \<open>
  all leading dots and slashes of a relative path are dropped: \<^verbatim>\<open>../../x\<close> climbs one level only, a name that starts
  with a dot loses it, and \<^verbatim>\<open>/\<close>, which \<open>format_path\<close> turns into the empty string, resolves to the working
  directory and not to the root.
\<close>

theorem leading_dots_dropped:
  assumes "\<forall>m \<in> set ns. name_ok m" and "ns \<noteq> []"
  shows "cwd_and_path (''../../'' @ p) (abs_path ns) = cwd_and_path (''../'' @ p) (abs_path ns) \<and>
    format_rel_path (''.'' @ p) = format_rel_path p \<and>
    format_path ''/'' = [] \<and> cwd_and_path (format_path ''/'') (abs_path ns) = abs_path ns @ ''/''"
proof -
  have "format_path ''/'' = []" by (simp add: format_path_def trim_end_def)
  moreover have "cwd_and_path [] (abs_path ns) = abs_path ns @ ''/''"
    using push_path_abs [OF assms(1), of "[]"] assms(2)
    by (simp add: cwd_and_path_def starts_with_def format_rel_path_def)
  ultimately show ?thesis by (simp add: cwd_and_path_def starts_with_def format_rel_path_def)
qed

theorem leading_dots_dropped_witness:
  "cwd_and_path ''../../x'' ''/home/a'' = cwd_and_path ''../x'' ''/home/a'' \<and> cwd_and_path (format_path ''/'') ''/home/a'' = ''/home/a/''"
  using leading_dots_dropped [of "[''home'', ''a'']" "''x''"] by (auto simp: name_ok_def abs_path_def)

text \<open>
  reading a string from user memory returns exactly the bytes before the first zero byte.
\<close>

theorem c_ptr_to_string_reads:
  assumes "mem (ptr + of_nat n) = 0" and "\<forall>i < n. mem (ptr + of_nat i) \<noteq> 0"
  shows "c_ptr_to_string mem ptr = Some (map (\<lambda>i. char_of (unat (mem (ptr + of_nat i)))) [0..<n])"
  using assms
proof (induction n arbitrary: ptr)
  case 0
  then show ?case by (simp add: c_ptr_to_string.simps [of mem ptr])
next
  case (Suc n)
  have shift: "ptr + of_nat (Suc i) = (ptr + 1) + of_nat i" for i by simp
  have "mem ptr \<noteq> 0" using Suc.prems(2) [rule_format, of 0] by simp
  moreover have "c_ptr_to_string mem (ptr + 1) = Some (map (\<lambda>i. char_of (unat (mem ((ptr + 1) + of_nat i)))) [0..<n])"
  proof (rule Suc.IH)
    show "mem ((ptr + 1) + of_nat n) = 0" using Suc.prems(1) by (simp only: shift)
    show "\<forall>i < n. mem ((ptr + 1) + of_nat i) \<noteq> 0" using Suc.prems(2) shift by (metis Suc_less_eq)
  qed
  moreover have "[0..<Suc n] = 0 # map Suc [0..<n]" by (simp add: upt_conv_Cons map_Suc_upt)
  ultimately show ?case
    by (subst c_ptr_to_string.simps) (simp add: o_def ac_simps)
qed

theorem c_ptr_to_string_reads_witness:
  "c_ptr_to_string (\<lambda>a. if a = 0x1000 then 0x2F else if a = 0x1001 then 0x61 else 0) 0x1000 = Some ''/a''"
proof -
  let ?mem = "\<lambda>a :: usize. (if a = 0x1000 then 0x2F else if a = 0x1001 then 0x61 else 0) :: u8"
  have nz: "\<forall>i < 2. ?mem (0x1000 + of_nat i) \<noteq> 0"
  proof (intro allI impI)
    fix i :: nat assume "i < 2"
    then have "i = 0 \<or> i = 1" by auto
    then show "?mem (0x1000 + of_nat i) \<noteq> 0" by auto
  qed
  have "[0..<2] = [0, 1 :: nat]" by (simp add: upt_rec)
  then show ?thesis using c_ptr_to_string_reads [of ?mem "0x1000" 2, OF _ nz] by (simp add: char_of_def bit_0)
qed

end
