(* ===== verification/File_Io.thy ===== *)
theory File_Io
  imports Pma Fs_Info
begin

text \<open>
  Open files and the page cache (\<^verbatim>\<open>fs/page_cache.rs\<close>, \<^verbatim>\<open>fs/file.rs\<close>, \<^verbatim>\<open>fs/inode.rs\<close>, and the in-memory files of
  \<^verbatim>\<open>fs/ext4/ext4_file.rs\<close> and \<^verbatim>\<open>fs/fat32/fat_file.rs\<close>). A file reads and writes its inode through cached pages,
  filled from the disk a sector at a time. The disk is the argument \<open>rd\<close>, the clock the argument \<open>now\<close>.

  The lemmas show that what is written to a file is read back, over page boundaries and whatever was cached before, that the
  two implementations of \<open>write\<close> agree, and the arithmetic of \<open>seek\<close>.
\<close>

type_synonym disk_read = "nat \<Rightarrow> usize \<Rightarrow> u8 list option"
type_synonym page_cache = "(usize, usize) btree_map"

record inode_meta =
  i_ino :: nat
  i_mode :: inode_mode
  i_atime :: time_spec
  i_mtime :: time_spec
  i_ctime :: time_spec
  i_size :: usize
  i_link_count :: usize
  i_open_count :: usize

definition inode_meta_new :: "nat \<Rightarrow> inode_mode \<Rightarrow> usize \<Rightarrow> time_spec \<Rightarrow> time_spec \<Rightarrow> time_spec \<Rightarrow> inode_meta" where
  "inode_meta_new ino mode sz atime mtime ctime =
     \<lparr>i_ino = ino, i_mode = mode, i_atime = atime, i_mtime = mtime, i_ctime = ctime, i_size = sz,
      i_link_count = 1, i_open_count = 0\<rparr>"

record file_inner =
  f_pos :: usize
  dirent_index :: usize

section \<open>Page cache\<close>

definition to_offset :: "usize \<Rightarrow> usize" where
  "to_offset file_offset = drop_bit PAGE_SIZE_BITS file_offset"

definition page_permission_all :: page_permission where
  "page_permission_all = PP_R OR PP_W OR PP_X OR PP_U"

definition find_page :: "usize \<Rightarrow> page_cache \<Rightarrow> pmem \<Rightarrow> (pmem \<times> usize option) option" where
  "find_page off cache k = (case bt_get cache (to_offset off) of
     Some h \<Rightarrow> do { k' \<leftarrow> arc_clone h k; Some (k', Some h) }
   | None \<Rightarrow> Some (k, None))"

definition find_page_from_disk :: "usize \<Rightarrow> nat \<Rightarrow> page_cache \<times> pmem \<Rightarrow> ((page_cache \<times> pmem) \<times> usize) option" where
  "find_page_from_disk pno ino s = (case s of (cache, k) \<Rightarrow>
     do { (k1, h) \<leftarrow> new_disk_page page_permission_all ino pno k;
          k2 \<leftarrow> arc_clone h k1;
          k3 \<leftarrow> (case bt_get cache pno of None \<Rightarrow> Some k2 | Some old \<Rightarrow> arc_drop old k2);
          Some ((bt_insert pno h cache, k3), h) })"

definition find_page_and_create ::
  "usize \<Rightarrow> nat option \<Rightarrow> page_cache \<times> pmem \<Rightarrow> ((page_cache \<times> pmem) \<times> usize option) option" where
  "find_page_and_create off ino s = (case s of (cache, k) \<Rightarrow>
     (case bt_get cache (to_offset off) of
        Some h \<Rightarrow> do { k' \<leftarrow> arc_clone h k; Some ((cache, k'), Some h) }
      | None \<Rightarrow>
          (case ino of
             None \<Rightarrow> Some ((cache, k), None)
           | Some i \<Rightarrow> do { (s', h) \<leftarrow> find_page_from_disk (to_offset off) i (cache, k); Some (s', Some h) })))"

section \<open>Seeking\<close>

datatype seek_from = Start usize | Current isize | End isize

text \<open>
  \<open>held\<close> says whether the caller holds the lock of the file, which is not reentrant: taking it again spins until the lock
  gives up with a panic. Negative offsets are two's complement; \<^verbatim>\<open>abs\<close> of the least value wraps to itself.
\<close>

definition seek :: "bool \<Rightarrow> seek_from \<Rightarrow> inode_meta \<Rightarrow> file_inner \<Rightarrow> (file_inner \<times> usize os_result) option" where
  "seek held sk ino f =
     do { rassert (\<not> held);
          let r = (case sk of
              Current pos \<Rightarrow>
                if sint pos < 0 then (if f_pos f < - pos then Inl EINVAL else Inr (f_pos f - (- pos)))
                else Inr (f_pos f + pos)
            | End pos \<Rightarrow>
                if sint pos < 0 then (if i_size ino < - pos then Inl EINVAL else Inr (i_size ino - (- pos)))
                else Inr (i_size ino + pos)
            | Start pos \<Rightarrow> Inr pos);
          (case r of
             Inl e \<Rightarrow> Some (f, Inl e)
           | Inr p \<Rightarrow> Some (f\<lparr>f_pos := p\<rparr>, Inr p)) }"

definition file_close :: "inode_meta option \<Rightarrow> inode_meta option" where
  "file_close ino = map_option (\<lambda>i. i\<lparr>i_open_count := i_open_count i - 1\<rparr>) ino"

section \<open>Reading\<close>

text \<open>The state of one open file: the page cache, memory, the position and the inode.\<close>

type_synonym file_st = "(page_cache \<times> pmem) \<times> file_inner \<times> inode_meta"

text \<open>One turn of the loop of \<^verbatim>\<open>read\<close>; \<open>acc\<close> is the part of the buffer filled so far.\<close>

definition read_turn :: "disk_read \<Rightarrow> nat \<Rightarrow> usize \<Rightarrow> u8 list \<Rightarrow> file_st \<Rightarrow> (file_st \<times> usize \<times> u8 list) option" where
  "read_turn rd buf_len off acc s = (case s of (ck, f, ino) \<Rightarrow>
     do { (ck', oh) \<leftarrow> find_page_and_create off (Some (i_ino ino)) ck;
          h \<leftarrow> oh;
          let page_offset = unat off mod PAGE_BYTES;
          let byte = min (min (PAGE_BYTES - page_offset) (buf_len - length acc)) (unat (i_size ino - off));
          (k1, bs) \<leftarrow> page_read rd h page_offset byte (snd ck');
          k2 \<leftarrow> arc_drop h k1;
          let off' = off + of_nat byte;
          Some (((fst ck', k2), f\<lparr>f_pos := off'\<rparr>, ino), off', acc @ bs) })"

text \<open>Every turn reads at least one byte, so the length of the buffer plus one is enough fuel.\<close>

fun file_read_loop :: "nat \<Rightarrow> disk_read \<Rightarrow> nat \<Rightarrow> usize \<Rightarrow> u8 list \<Rightarrow> file_st \<Rightarrow> (file_st \<times> u8 list) option" where
  "file_read_loop 0 rd buf_len off acc s = None"
| "file_read_loop (Suc fuel) rd buf_len off acc s =
     (if i_size (snd (snd s)) \<le> off \<or> buf_len \<le> length acc then Some (s, acc)
      else Option.bind (read_turn rd buf_len off acc s) (\<lambda>(s', off', acc'). file_read_loop fuel rd buf_len off' acc' s'))"

definition file_read ::
  "disk_read \<Rightarrow> time_spec \<Rightarrow> open_flags \<Rightarrow> nat \<Rightarrow> file_st \<Rightarrow> (file_st \<times> u8 list os_result) option" where
  "file_read rd now flags buf_len s =
     (if contains flags O_PATH then Some (s, Inl EBADF)
      else do { ((ck, f, ino), bs) \<leftarrow> file_read_loop (buf_len + 1) rd buf_len (f_pos (fst (snd s))) [] s;
                Some ((ck, f, if contains flags O_NOATIME then ino else ino\<lparr>i_atime := now\<rparr>), Inr bs) })"

text \<open>The body of \<^verbatim>\<open>FatMemFile::read\<close> is that of \<^verbatim>\<open>Ext4MemFile::read\<close>, word for word but for one \<^verbatim>\<open>drop\<close> of a lock.\<close>

definition fat_read ::
  "disk_read \<Rightarrow> time_spec \<Rightarrow> open_flags \<Rightarrow> nat \<Rightarrow> file_st \<Rightarrow> (file_st \<times> u8 list os_result) option" where
  "fat_read rd now flags buf_len s = file_read rd now flags buf_len s"

text \<open>
  \<^verbatim>\<open>read_all\<close> of the ext4 file resizes the buffer to one page more than it has read and passes all of it to the page,
  which fills its front. The result is the buffer and the number of bytes read.
\<close>

definition resize :: "nat \<Rightarrow> u8 list \<Rightarrow> u8 list" where
  "resize n buf = take n buf @ replicate (n - length buf) 0"

definition read_all_turn :: "disk_read \<Rightarrow> usize \<Rightarrow> u8 list \<Rightarrow> (page_cache \<times> pmem) \<times> inode_meta \<Rightarrow> (((page_cache \<times> pmem) \<times> inode_meta) \<times> u8 list) option" where
  "read_all_turn rd pos buf s = (case s of (ck, ino) \<Rightarrow>
     do { (ck', oh) \<leftarrow> find_page_and_create pos (Some (i_ino ino)) ck;
          h \<leftarrow> oh;
          let buf' = resize (unat pos + PAGE_BYTES) buf;
          (k1, bs) \<leftarrow> page_read rd h 0 (length buf') (snd ck');
          k2 \<leftarrow> arc_drop h k1;
          Some (((fst ck', k2), ino), bs @ drop (length bs) buf') })"

fun read_all_loop ::
  "nat \<Rightarrow> disk_read \<Rightarrow> usize \<Rightarrow> u8 list \<Rightarrow> (page_cache \<times> pmem) \<times> inode_meta \<Rightarrow> (((page_cache \<times> pmem) \<times> inode_meta) \<times> u8 list \<times> usize) option" where
  "read_all_loop 0 rd pos buf s = None"
| "read_all_loop (Suc fuel) rd pos buf s =
     (if i_size (snd s) \<le> pos then Some (s, buf, pos)
      else Option.bind (read_all_turn rd pos buf s) (\<lambda>(s', buf'). read_all_loop fuel rd (pos + PAGE_SIZE) buf' s'))"

text \<open>A file of less than \<open>2\<^sup>6\<^sup>4\<close> bytes has less than \<open>2\<^sup>5\<^sup>2\<close> pages; one turn more finds its end.\<close>

definition file_read_all ::
  "disk_read \<Rightarrow> open_flags \<Rightarrow> u8 list \<Rightarrow> (page_cache \<times> pmem) \<times> inode_meta \<Rightarrow> (((page_cache \<times> pmem) \<times> inode_meta) \<times> u8 list \<times> usize os_result) option" where
  "file_read_all rd flags buf s =
     (if contains flags O_PATH then Some (s, buf, Inl EBADF)
      else do { (s', bs, n) \<leftarrow> read_all_loop (unat (i_size (snd s)) div PAGE_BYTES + 2) rd 0 buf s; Some (s', bs, Inr n) })"

section \<open>Writing\<close>

definition touch_write :: "time_spec \<Rightarrow> inode_meta \<Rightarrow> inode_meta" where
  "touch_write now ino = ino\<lparr>i_atime := now, i_ctime := now, i_mtime := now\<rparr>"

text \<open>One turn of either loop: the bytes that fit into the page at \<open>off\<close>.\<close>

definition write_turn :: "disk_read \<Rightarrow> u8 list \<Rightarrow> nat \<Rightarrow> nat \<Rightarrow> usize \<Rightarrow> file_st \<Rightarrow> (file_st \<times> usize) option" where
  "write_turn rd buf done_n byte off s = (case s of (ck, f, ino) \<Rightarrow>
     do { (ck', oh) \<leftarrow> find_page_and_create off (Some (i_ino ino)) ck;
          h \<leftarrow> oh;
          k1 \<leftarrow> page_write rd h (unat off mod PAGE_BYTES) (take byte (drop done_n buf)) (snd ck');
          k2 \<leftarrow> arc_drop h k1;
          let off' = off + of_nat byte;
          Some (((fst ck', k2), f\<lparr>f_pos := off'\<rparr>, ino\<lparr>i_size := max (i_size ino) off'\<rparr>), off') })"

fun ext4_write_loop :: "nat \<Rightarrow> disk_read \<Rightarrow> u8 list \<Rightarrow> nat \<Rightarrow> usize \<Rightarrow> file_st \<Rightarrow> (file_st \<times> nat) option" where
  "ext4_write_loop 0 rd buf done_n off s = None"
| "ext4_write_loop (Suc fuel) rd buf done_n off s =
     (if length buf \<le> done_n then Some (s, done_n)
      else
        let byte = min (PAGE_BYTES - unat off mod PAGE_BYTES) (length buf - done_n) in
        Option.bind (write_turn rd buf done_n byte off s) (\<lambda>(s', off'). ext4_write_loop fuel rd buf (done_n + byte) off' s'))"

definition ext4_write ::
  "disk_read \<Rightarrow> time_spec \<Rightarrow> open_flags \<Rightarrow> u8 list \<Rightarrow> file_st \<Rightarrow> (file_st \<times> nat os_result) option" where
  "ext4_write rd now flags buf s =
     (if contains flags O_PATH then Some (s, Inl EBADF)
      else do { ((ck, f, ino), n) \<leftarrow> ext4_write_loop (length buf + 1) rd buf 0 (f_pos (fst (snd s))) s;
                Some ((ck, f, touch_write now ino), Inr n) })"

fun fat_write_loop :: "nat \<Rightarrow> disk_read \<Rightarrow> u8 list \<Rightarrow> nat \<Rightarrow> usize \<Rightarrow> file_st \<Rightarrow> (file_st \<times> nat) option" where
  "fat_write_loop 0 rd buf done_n off s = None"
| "fat_write_loop (Suc fuel) rd buf done_n off s =
     (let byte = (let b = PAGE_BYTES - unat off mod PAGE_BYTES in if length buf < b + done_n then length buf - done_n else b) in
      Option.bind (write_turn rd buf done_n byte off s) (\<lambda>(s', off').
        if length buf \<le> done_n + byte then Some (s', done_n + byte)
        else fat_write_loop fuel rd buf (done_n + byte) off' s'))"

definition fat_write ::
  "disk_read \<Rightarrow> time_spec \<Rightarrow> open_flags \<Rightarrow> u8 list \<Rightarrow> file_st \<Rightarrow> (file_st \<times> nat os_result) option" where
  "fat_write rd now flags buf s =
     (if contains flags O_PATH then Some (s, Inl EBADF)
      else do { ((ck, f, ino), n) \<leftarrow> fat_write_loop (length buf + 1) rd buf 0 (f_pos (fst (snd s))) s;
                Some ((ck, f, touch_write now ino), Inr n) })"

text \<open>
  \<^verbatim>\<open>truncate\<close> keeps the lock of the file while it calls \<^verbatim>\<open>seek\<close>. \<open>alive\<close> says whether the inode still exists;
  \<^verbatim>\<open>write\<close> is an argument as it is the file's own.
\<close>

definition truncate_locked ::
  "(u8 list \<Rightarrow> file_st \<Rightarrow> (file_st \<times> nat os_result) option) \<Rightarrow> usize \<Rightarrow> file_st \<Rightarrow> (file_st \<times> nat os_result) option" where
  "truncate_locked wr new_size s = (case s of (ck, f, ino) \<Rightarrow>
     let shrink = new_size < i_size ino in
     let buf = replicate (unat (i_size ino - new_size)) 0 in
     do { (f1, r1) \<leftarrow> seek True (Start (if shrink then new_size else i_size ino)) ino f;
          (case r1 of Inl e \<Rightarrow> Some ((ck, f1, ino), Inl e) | Inr _ \<Rightarrow>
            do { ((ck2, f2, ino2), r2) \<leftarrow> wr buf (ck, f1, ino);
                 (case r2 of Inl e \<Rightarrow> Some ((ck2, f2, ino2), Inl e) | Inr _ \<Rightarrow>
                   do { (f3, r3) \<leftarrow> seek True (Start (f_pos f)) ino2 f2;
                        (case r3 of Inl e \<Rightarrow> Some ((ck2, f3, ino2), Inl e) | Inr _ \<Rightarrow>
                           Some ((ck2, f3, if shrink then ino2\<lparr>i_size := new_size\<rparr> else ino2), Inr 0)) }) }) })"

definition truncate ::
  "(u8 list \<Rightarrow> file_st \<Rightarrow> (file_st \<times> nat os_result) option) \<Rightarrow> bool \<Rightarrow> usize \<Rightarrow> file_st \<Rightarrow> (file_st \<times> nat os_result) option" where
  "truncate wr alive new_size s =
     (if \<not> alive then Some (s, Inl EINVAL)
      else if i_mode (snd (snd s)) \<noteq> Regular then Some (s, Inl EISDIR)
      else truncate_locked wr new_size s)"

text \<open>The ext4 file does not look at the mode; at the end it truncates the file on disk, whose answer is \<open>disk_result\<close>.\<close>

definition ext4_truncate ::
  "(u8 list \<Rightarrow> file_st \<Rightarrow> (file_st \<times> nat os_result) option) \<Rightarrow> unit os_result \<Rightarrow> bool \<Rightarrow> usize \<Rightarrow> file_st \<Rightarrow> (file_st \<times> nat os_result) option" where
  "ext4_truncate wr disk_result alive new_size s =
     (if \<not> alive then Some (s, Inl EINVAL)
      else do { (s', r) \<leftarrow> truncate_locked wr new_size s;
                Some (s', (case r of Inl e \<Rightarrow> Inl e | Inr _ \<Rightarrow> (case disk_result of Inl e \<Rightarrow> Inl e | Inr _ \<Rightarrow> Inr 0))) })"

text \<open>The last close of an unlinked file removes it from the disk, whose answer is \<open>rm_result\<close>.\<close>

definition ext4_close :: "unit os_result \<Rightarrow> inode_meta \<Rightarrow> (inode_meta \<times> unit os_result) option" where
  "ext4_close rm_result ino =
     (let ino' = ino\<lparr>i_open_count := i_open_count ino - 1\<rparr> in
      if i_link_count ino' = 0 \<and> i_open_count ino' = 0 then
        do { rassert (i_mode ino' = Regular); Some (ino', rm_result) }
      else Some (ino', Inr ()))"

section \<open>Sectors of a page\<close>

definition disk_total :: "disk_read \<Rightarrow> bool" where
  "disk_total rd \<longleftrightarrow> (\<forall>ino off. rd ino off \<noteq> None)"

lemma sector_bound: "i < 8 \<Longrightarrow> i * SECTOR_SIZE + length (take SECTOR_SIZE bs) \<le> PAGE_BYTES"
  by (simp add: SECTOR_SIZE_def PAGE_BYTES_def)

text \<open>Filling a sector returns, keeps the bytes of the sectors present and touches no other page.\<close>

lemma fill_sector_spec:
  assumes "disk_total rd" "frame_ppn h" "length (dstate d) = 8" "i < 8" "after \<noteq> DEmpty"
  shows "\<exists>k' d'. fill_sector rd h after i (k, d) = Some (k', d') \<and> length (dstate d') = 8 \<and> dstate d' ! i \<noteq> DEmpty \<and>
    (\<forall>j. dstate d ! j \<noteq> DEmpty \<longrightarrow> dstate d' ! j \<noteq> DEmpty) \<and> pages k' = pages k \<and> falloc k' = falloc k \<and>
    (\<forall>q. q \<noteq> h \<longrightarrow> phys k' q = phys k q) \<and>
    (\<forall>m < PAGE_BYTES. dstate d ! (m div SECTOR_SIZE) \<noteq> DEmpty \<longrightarrow> get_byte (phys k' h) m = get_byte (phys k h) m)"
proof (cases "dstate d ! i = DEmpty")
  case False
  then show ?thesis using assms by (simp add: fill_sector_def)
next
  case True
  obtain bs where bs: "rd (inode d) (sector_file_offset (page_num_offset d) i) = Some bs"
    using assms(1) by (auto simp: disk_total_def)
  have "get_byte (set_bytes (i * SECTOR_SIZE) (take SECTOR_SIZE bs) f) m = get_byte f m"
    if "m < PAGE_BYTES" "dstate d ! (m div SECTOR_SIZE) \<noteq> DEmpty" for m f
  proof -
    have "m div 512 \<noteq> i" using that True by (auto simp: SECTOR_SIZE_def)
    then have "\<not> (i * SECTOR_SIZE \<le> m \<and> m < i * SECTOR_SIZE + length (take SECTOR_SIZE bs))"
      by (auto simp: SECTOR_SIZE_def)
    then show ?thesis using get_set_bytes [OF sector_bound [OF assms(4)] that(1)] by (simp only: if_False)
  qed
  then show ?thesis using True bs assms byte_array_ppn [OF assms(2)]
    by (simp add: fill_sector_def nth_list_update)
qed

lemma mark_dirty_spec:
  assumes "length (dstate d) = 8" "i < 8"
  shows "\<exists>d'. mark_dirty i (k, d) = Some (k, d') \<and> length (dstate d') = 8 \<and> (\<forall>j. dstate d ! j \<noteq> DEmpty \<longrightarrow> dstate d' ! j \<noteq> DEmpty)"
  using assms by (auto simp: mark_dirty_def nth_list_update)

lemma write_sectors_spec:
  assumes rd: "disk_total rd" and h: "frame_ppn h" and len: "length (dstate d) = 8" and l: "\<forall>i \<in> set l. i < 8"
  shows "\<exists>k' d'. foldM (\<lambda>idx st. Option.bind (fill_sector rd h DDirty idx st) (mark_dirty idx)) l (k, d) = Some (k', d') \<and>
    length (dstate d') = 8 \<and> (\<forall>i \<in> set l. dstate d' ! i \<noteq> DEmpty) \<and>
    (\<forall>j. dstate d ! j \<noteq> DEmpty \<longrightarrow> dstate d' ! j \<noteq> DEmpty) \<and> pages k' = pages k \<and> falloc k' = falloc k \<and>
    (\<forall>q. q \<noteq> h \<longrightarrow> phys k' q = phys k q) \<and>
    (\<forall>m < PAGE_BYTES. dstate d ! (m div SECTOR_SIZE) \<noteq> DEmpty \<longrightarrow> get_byte (phys k' h) m = get_byte (phys k h) m)"
  using len l
proof (induction l arbitrary: k d)
  case Nil
  then show ?case by simp
next
  case (Cons i l)
  have i: "i < 8" using Cons.prems by simp
  obtain k1 d1 where f: "fill_sector rd h DDirty i (k, d) = Some (k1, d1)" "length (dstate d1) = 8" "dstate d1 ! i \<noteq> DEmpty"
    "\<forall>j. dstate d ! j \<noteq> DEmpty \<longrightarrow> dstate d1 ! j \<noteq> DEmpty" "pages k1 = pages k" "falloc k1 = falloc k"
    "\<forall>q. q \<noteq> h \<longrightarrow> phys k1 q = phys k q"
    "\<forall>m < PAGE_BYTES. dstate d ! (m div SECTOR_SIZE) \<noteq> DEmpty \<longrightarrow> get_byte (phys k1 h) m = get_byte (phys k h) m"
    using fill_sector_spec [OF rd h Cons.prems(1) i, of DDirty k] by (auto simp: disk_total_def)
  obtain d2 where m: "mark_dirty i (k1, d1) = Some (k1, d2)" "length (dstate d2) = 8"
    "\<forall>j. dstate d1 ! j \<noteq> DEmpty \<longrightarrow> dstate d2 ! j \<noteq> DEmpty" using mark_dirty_spec [OF f(2) i] by blast
  obtain k' d' where r: "foldM (\<lambda>idx st. Option.bind (fill_sector rd h DDirty idx st) (mark_dirty idx)) l (k1, d2) = Some (k', d')"
    "length (dstate d') = 8" "\<forall>i \<in> set l. dstate d' ! i \<noteq> DEmpty" "\<forall>j. dstate d2 ! j \<noteq> DEmpty \<longrightarrow> dstate d' ! j \<noteq> DEmpty"
    "pages k' = pages k1" "falloc k' = falloc k1" "\<forall>q. q \<noteq> h \<longrightarrow> phys k' q = phys k1 q"
    "\<forall>m < PAGE_BYTES. dstate d2 ! (m div SECTOR_SIZE) \<noteq> DEmpty \<longrightarrow> get_byte (phys k' h) m = get_byte (phys k1 h) m"
    using Cons.IH [OF m(2), of k1] Cons.prems(2) by (metis (no_types, lifting) list.set_intros(2))
  show ?case using f m r by (intro exI [of _ k'] exI [of _ d']) auto
qed

lemma sectors_bound:
  assumes "off < PAGE_BYTES" "off + len \<le> PAGE_BYTES"
  shows "\<forall>i \<in> set (sectors off len). i < 8" "\<And>m. off \<le> m \<Longrightarrow> m < off + len \<Longrightarrow> m div SECTOR_SIZE \<in> set (sectors off len)"
  using assms by (auto simp: sectors_def to_sec_idx_def SECTOR_SIZE_def PAGE_BYTES_def)

text \<open>A write to a page of a file.\<close>

lemma page_write_disk:
  assumes rd: "disk_total rd" and wf: "store_wf k" and h: "pages k h = Some (p, n)" "disk_file p = Some d" "length (dstate d) = 8"
    and off: "off < PAGE_BYTES" "off + length bs \<le> PAGE_BYTES"
  shows "\<exists>k' d'. page_write rd h off bs k = Some k' \<and> pages k' = (pages k)(h \<mapsto> (p\<lparr>disk_file := Some d'\<rparr>, n)) \<and>
    falloc k' = falloc k \<and> length (dstate d') = 8 \<and> (\<forall>q. q \<noteq> h \<longrightarrow> phys k' q = phys k q) \<and>
    (\<forall>m < PAGE_BYTES. off \<le> m \<and> m < off + length bs \<longrightarrow>
       get_byte (phys k' h) m = bs ! (m - off) \<and> dstate d' ! (m div SECTOR_SIZE) \<noteq> DEmpty) \<and>
    (\<forall>m < PAGE_BYTES. \<not> (off \<le> m \<and> m < off + length bs) \<longrightarrow> dstate d ! (m div SECTOR_SIZE) \<noteq> DEmpty \<longrightarrow>
       get_byte (phys k' h) m = get_byte (phys k h) m \<and> dstate d' ! (m div SECTOR_SIZE) \<noteq> DEmpty)"
proof -
  have ppn: "frame_ppn h" using store_wfD(2) [OF wf] h(1) by blast
  note sb = sectors_bound [OF off]
  obtain k1 d' where f: "foldM (\<lambda>idx st. Option.bind (fill_sector rd h DDirty idx st) (mark_dirty idx)) (sectors off (length bs)) (k, d) = Some (k1, d')"
    "length (dstate d') = 8" "\<forall>i \<in> set (sectors off (length bs)). dstate d' ! i \<noteq> DEmpty"
    "\<forall>j. dstate d ! j \<noteq> DEmpty \<longrightarrow> dstate d' ! j \<noteq> DEmpty" "pages k1 = pages k" "falloc k1 = falloc k"
    "\<forall>q. q \<noteq> h \<longrightarrow> phys k1 q = phys k q"
    "\<forall>m < PAGE_BYTES. dstate d ! (m div SECTOR_SIZE) \<noteq> DEmpty \<longrightarrow> get_byte (phys k1 h) m = get_byte (phys k h) m"
    using write_sectors_spec [OF rd ppn h(3) sb(1), of k] by blast
  let ?k2 = "k1\<lparr>pages := (pages k)(h \<mapsto> (p\<lparr>disk_file := Some d'\<rparr>, n))\<rparr>"
  let ?k3 = "?k2\<lparr>phys := (phys k1)(h := set_bytes off bs (phys k1 h))\<rparr>"
  have "page_write rd h off bs k = Some ?k3"
    using f off h ppn byte_array_ppn by (simp add: page_write_def put_disk_def min_absorb1)
  moreover have "get_byte (phys ?k3 h) m = (if off \<le> m \<and> m < off + length bs then bs ! (m - off) else get_byte (phys k1 h) m)"
    if "m < PAGE_BYTES" for m using get_set_bytes [OF off(2) that] by simp
  ultimately show ?thesis using f sb(2) by (intro exI [of _ ?k3] exI [of _ d']) auto
qed

text \<open>A read of bytes whose sectors are present does not change memory.\<close>

lemma page_read_present:
  assumes wf: "store_wf k" and h: "pages k h = Some (p, n)" "disk_file p = Some d" "length (dstate d) = 8"
    and off: "off < PAGE_BYTES" "off + len \<le> PAGE_BYTES" and pres: "\<forall>i \<in> set (sectors off len). dstate d ! i \<noteq> DEmpty"
  shows "page_read rd h off len k = Some (k, get_bytes (phys k h) off len)"
proof -
  have ppn: "frame_ppn h" using store_wfD(2) [OF wf] h(1) by blast
  have "foldM (fill_sector rd h DSync) (sectors off len) (k, d) = Some (k, d)"
    using pres sectors_bound(1) [OF off] h(3) by (intro read_sectors_present) auto
  moreover have "put_disk h d k = Some k"
    using h by (cases k; cases p) (auto simp: put_disk_def fun_upd_idem)
  ultimately show ?thesis using off h ppn byte_array_ppn by (simp add: page_read_def min_absorb1)
qed

lemma sector_present:
  assumes "i \<in> set (sectors off len)" "0 < len"
  obtains m where "off \<le> m" "m < off + len" "m div SECTOR_SIZE = i"
proof -
  have i: "off div 512 \<le> i" "i < (off + len + 511) div 512" using assms(1) by (auto simp: sectors_def to_sec_idx_def SECTOR_SIZE_def)
  show thesis
  proof (cases "off div 512 = i")
    case True
    then show thesis using that [of off] assms(2) by (simp add: SECTOR_SIZE_def)
  next
    case False
    then have "off \<le> i * 512" "i * 512 < off + len" using i by linarith+
    then show thesis using that [of "i * 512"] by (simp add: SECTOR_SIZE_def)
  qed
qed


section \<open>The bytes of a file\<close>

text \<open>
  The byte at a position of a file as far as it is cached: its page is in the cache and its sector was read or
  written.
\<close>

definition fbyte :: "page_cache \<times> pmem \<Rightarrow> nat \<Rightarrow> u8 option" where
  "fbyte ck n =
     do { h \<leftarrow> bt_get (fst ck) (of_nat (n div PAGE_BYTES));
          (p, _) \<leftarrow> pages (snd ck) h;
          d \<leftarrow> disk_file p;
          if dstate d ! (n mod PAGE_BYTES div SECTOR_SIZE) = DEmpty then None
          else Some (get_byte (phys (snd ck) h) (n mod PAGE_BYTES)) }"

definition cache_wf :: "page_cache \<times> pmem \<Rightarrow> bool" where
  "cache_wf ck \<longleftrightarrow> store_wf (snd ck) \<and> bt_wf (fst ck) \<and>
     (\<forall>a h. bt_get (fst ck) a = Some h \<longrightarrow> (\<exists>p n d. pages (snd ck) h = Some (p, n) \<and> disk_file p = Some d \<and> length (dstate d) = 8)) \<and>
     (\<forall>a b h. bt_get (fst ck) a = Some h \<longrightarrow> bt_get (fst ck) b = Some h \<longrightarrow> a = b)"

lemma cache_wfD:
  assumes "cache_wf (c, k)"
  shows "store_wf k" "bt_wf c" "\<And>a h. bt_get c a = Some h \<Longrightarrow> \<exists>p n d. pages k h = Some (p, n) \<and> disk_file p = Some d \<and> length (dstate d) = 8"
    "\<And>a b h. bt_get c a = Some h \<Longrightarrow> bt_get c b = Some h \<Longrightarrow> a = b"
  using assms unfolding cache_wf_def fst_conv snd_conv by blast+

text \<open>Changing the counts of references changes neither the cache nor the bytes.\<close>

lemma same_content:
  assumes wf: "cache_wf (c, k)" and st: "store_wf k'" and ph: "phys k' = phys k"
    and pg: "\<And>q p n. pages k q = Some (p, n) \<Longrightarrow> (\<exists>a. bt_get c a = Some q) \<Longrightarrow> \<exists>n'. pages k' q = Some (p, n')"
  shows "cache_wf (c, k')" "fbyte (c, k') = fbyte (c, k)"
proof -
  note w = cache_wfD [OF wf]
  show "cache_wf (c, k')" unfolding cache_wf_def fst_conv snd_conv using w st pg by (metis (no_types, lifting))
  have "fbyte (c, k') n = fbyte (c, k) n" for n
  proof (cases "bt_get c (of_nat (n div PAGE_BYTES))")
    case (Some h)
    then obtain p m d where h: "pages k h = Some (p, m)" "disk_file p = Some d" using w(3) by blast
    then obtain m' where "pages k' h = Some (p, m')" using pg Some by blast
    then show ?thesis using h Some ph by (simp add: fbyte_def)
  qed (simp add: fbyte_def)
  then show "fbyte (c, k') = fbyte (c, k)" by (rule ext)
qed

lemma arc_clone_content:
  assumes wf: "cache_wf (c, k)" and h: "pages k h = Some (p, n)"
  shows "\<exists>k'. arc_clone h k = Some k' \<and> cache_wf (c, k') \<and> fbyte (c, k') = fbyte (c, k) \<and>
    pages k' h = Some (p, n + 1) \<and> free_frames k' = free_frames k"
proof -
  obtain k' where c: "arc_clone h k = Some k'" "store_wf k'" "pages k' = (pages k)(h \<mapsto> (p, n + 1))"
    "phys k' = phys k" "free_frames k' = free_frames k" using arc_clone_spec [OF cache_wfD(1) [OF wf] h] by blast
  have "\<exists>n'. pages k' q = Some (p', n')" if "pages k q = Some (p', m)" for q p' m using that h c(3) by (cases "q = h") auto
  then show ?thesis using same_content [OF wf c(2,4)] c by auto
qed

lemma arc_drop_content:
  assumes wf: "cache_wf (c, k)" and h: "pages k h = Some (p, n)" "2 \<le> n"
  shows "\<exists>k'. arc_drop h k = Some k' \<and> cache_wf (c, k') \<and> fbyte (c, k') = fbyte (c, k) \<and> free_frames k' = free_frames k"
proof -
  obtain k' where c: "arc_drop h k = Some k'" "store_wf k'" "pages k' = (pages k)(h \<mapsto> (p, n - 1))"
    "phys k' = phys k" "free_frames k' = free_frames k" using arc_drop_spec [OF cache_wfD(1) [OF wf] h(1)] h(2) by auto
  have "\<exists>n'. pages k' q = Some (p', n')" if "pages k q = Some (p', m)" for q p' m using that h c(3) by (cases "q = h") auto
  then show ?thesis using same_content [OF wf c(2,4)] c by auto
qed

text \<open>Looking up a page returns it with a reference of the caller's own and changes no byte.\<close>

lemma find_page_spec:
  assumes wf: "cache_wf (c, k)" and room: "bt_get c (to_offset off) = None \<longrightarrow> free_frames k \<noteq> {}"
  shows "\<exists>c' k' h p n. find_page_and_create off (Some ino) (c, k) = Some ((c', k'), Some h) \<and> cache_wf (c', k') \<and>
    bt_get c' = (bt_get c)(to_offset off \<mapsto> h) \<and> pages k' h = Some (p, n) \<and> 2 \<le> n \<and> fbyte (c', k') = fbyte (c, k) \<and>
    card (free_frames k) \<le> card (free_frames k') + 1"
proof (cases "bt_get c (to_offset off)")
  case (Some h)
  then obtain p n where h: "pages k h = Some (p, n)" using cache_wfD(3) [OF wf] by blast
  have "0 < n" using store_wfD(4) [OF cache_wfD(1) [OF wf] h] by simp
  moreover obtain k' where "arc_clone h k = Some k'" "cache_wf (c, k')" "fbyte (c, k') = fbyte (c, k)"
    "pages k' h = Some (p, n + 1)" "free_frames k' = free_frames k" using arc_clone_content [OF wf h] by blast
  ultimately show ?thesis using Some
    by (intro exI [of _ c] exI [of _ k'] exI [of _ h]) (auto simp: find_page_and_create_def fun_upd_idem)
next
  case None
  note w = cache_wfD [OF wf]
  let ?pno = "to_offset off"
  obtain k1 h where n: "new_disk_page page_permission_all ino ?pno k = Some (k1, h)" "store_wf k1" "h \<in> free_frames k"
    "free_frames k1 = free_frames k - {h}" "pages k1 = (pages k)(h \<mapsto> (\<lparr>permission = page_permission_all,
      disk_file = Some \<lparr>inode = ino, page_num_offset = ?pno, dstate = replicate 8 DEmpty\<rparr>, cow_count = 0\<rparr>, 1))"
    "phys k1 = (phys k)(h := \<lambda>_. 0)" "pages k h = None"
    using new_disk_page_spec [OF w(1), of page_permission_all ino ?pno] room None by blast
  have fresh: "bt_get c a \<noteq> Some h" for a using w(3) n(7) by fastforce
  have bt: "bt_wf (bt_insert ?pno h c)" "bt_get (bt_insert ?pno h c) = (bt_get c)(?pno \<mapsto> h)" using w(2) by auto
  have wf1: "cache_wf (bt_insert ?pno h c, k1)"
    unfolding cache_wf_def fst_conv snd_conv bt(2) using bt(1) n(2,5) w(3,4) fresh by (auto split: if_splits)
  have fb: "fbyte (bt_insert ?pno h c, k1) m = fbyte (c, k) m" for m
  proof (cases "of_nat (m div PAGE_BYTES) = ?pno")
    case True
    have "m mod PAGE_BYTES div SECTOR_SIZE < 8" by (simp add: PAGE_BYTES_def SECTOR_SIZE_def less_mult_imp_div_less)
    then show ?thesis using True None n(5) bt(2) by (simp add: fbyte_def)
  next
    case False
    show ?thesis
    proof (cases "bt_get c (of_nat (m div PAGE_BYTES))")
      case (Some a)
      then obtain p n' d where "pages k a = Some (p, n')" "disk_file p = Some d" using w(3) by blast
      moreover have "a \<noteq> h" using Some fresh by auto
      ultimately show ?thesis using Some False n(5,6) bt(2) by (simp add: fbyte_def)
    qed (use False bt(2) in \<open>simp add: fbyte_def\<close>)
  qed
  have h1: "pages k1 h = Some (\<lparr>permission = page_permission_all,
      disk_file = Some \<lparr>inode = ino, page_num_offset = ?pno, dstate = replicate 8 DEmpty\<rparr>, cow_count = 0\<rparr>, 1)" using n(5) by simp
  obtain k2 where c: "arc_clone h k1 = Some k2" "cache_wf (bt_insert ?pno h c, k2)"
    "fbyte (bt_insert ?pno h c, k2) = fbyte (bt_insert ?pno h c, k1)" "pages k2 h = Some (\<lparr>permission = page_permission_all,
      disk_file = Some \<lparr>inode = ino, page_num_offset = ?pno, dstate = replicate 8 DEmpty\<rparr>, cow_count = 0\<rparr>, 1 + 1)"
    "free_frames k2 = free_frames k1" using arc_clone_content [OF wf1 h1] by blast
  have "card (free_frames k) \<le> card (free_frames k2) + 1"
    unfolding c(5) n(4) using card_Diff1_le [of "free_frames k" h] diff_card_le_card_Diff [of "{h}" "free_frames k"] by simp
  moreover have "find_page_and_create off (Some ino) (c, k) = Some ((bt_insert ?pno h c, k2), Some h)"
    using None n(1) c(1) by (simp add: find_page_and_create_def find_page_from_disk_def)
  moreover have "fbyte (bt_insert ?pno h c, k2) = fbyte (c, k)" using c(3) fb by auto
  ultimately show ?thesis using c(2,4) bt(2)
    by (intro exI [of _ "bt_insert ?pno h c"] exI [of _ k2] exI [of _ h]) simp
qed


lemma to_offset_eq: "to_offset off = of_nat (unat off div PAGE_BYTES)"
proof -
  have "unat off div PAGE_BYTES < 2 ^ 64" using unat_u64 [of off] by (meson div_le_dividend le_less_trans)
  then have "unat (of_nat (unat off div PAGE_BYTES) :: usize) = unat off div PAGE_BYTES" by (simp add: unat_of_nat take_bit_nat_eq_self)
  moreover have "unat (to_offset off) = unat off div PAGE_BYTES"
    by (simp add: to_offset_def PAGE_SIZE_BITS_def PAGE_BYTES_def unat_drop_12)
  ultimately show ?thesis by (simp add: word_unat_eq_iff)
qed

lemma page_number_inj:
  assumes "m < 2 ^ 64" "n < 2 ^ 64" "(of_nat (m div PAGE_BYTES) :: usize) = of_nat (n div PAGE_BYTES)"
  shows "m div PAGE_BYTES = n div PAGE_BYTES"
proof -
  have "m div PAGE_BYTES < 2 ^ 64" "n div PAGE_BYTES < 2 ^ 64" using assms(1,2) by (meson div_le_dividend le_less_trans)+
  then show ?thesis using arg_cong [OF assms(3), of unat] by (simp add: unat_of_nat take_bit_nat_eq_self)
qed

text \<open>Writing inside one cached page.\<close>

lemma page_write_content:
  assumes rd: "disk_total rd" and wf: "cache_wf (c, k)" and h: "bt_get c (of_nat (n div PAGE_BYTES)) = Some h" "pages k h = Some (p, r)"
    and n: "n < 2 ^ 64" "n mod PAGE_BYTES + length bs \<le> PAGE_BYTES"
  shows "\<exists>k' p'. page_write rd h (n mod PAGE_BYTES) bs k = Some k' \<and> cache_wf (c, k') \<and> pages k' h = Some (p', r) \<and>
    free_frames k' = free_frames k \<and> (\<forall>i < length bs. fbyte (c, k') (n + i) = Some (bs ! i)) \<and>
    (\<forall>m b. m < 2 ^ 64 \<longrightarrow> fbyte (c, k) m = Some b \<longrightarrow> \<not> (n \<le> m \<and> m < n + length bs) \<longrightarrow> fbyte (c, k') m = Some b)"
proof -
  note w = cache_wfD [OF wf]
  let ?off = "n mod PAGE_BYTES"
  obtain d where d: "disk_file p = Some d" "length (dstate d) = 8" using w(3) [OF h(1)] h(2) by auto
  have off: "?off < PAGE_BYTES" by (simp add: PAGE_BYTES_def)
  obtain k' d' where wr: "page_write rd h ?off bs k = Some k'" "pages k' = (pages k)(h \<mapsto> (p\<lparr>disk_file := Some d'\<rparr>, r))"
    "falloc k' = falloc k" "length (dstate d') = 8" "\<forall>q. q \<noteq> h \<longrightarrow> phys k' q = phys k q"
    "\<forall>m < PAGE_BYTES. ?off \<le> m \<and> m < ?off + length bs \<longrightarrow>
       get_byte (phys k' h) m = bs ! (m - ?off) \<and> dstate d' ! (m div SECTOR_SIZE) \<noteq> DEmpty"
    "\<forall>m < PAGE_BYTES. \<not> (?off \<le> m \<and> m < ?off + length bs) \<longrightarrow> dstate d ! (m div SECTOR_SIZE) \<noteq> DEmpty \<longrightarrow>
       get_byte (phys k' h) m = get_byte (phys k h) m \<and> dstate d' ! (m div SECTOR_SIZE) \<noteq> DEmpty"
    using page_write_disk [OF rd w(1) h(2) d off n(2)] by blast
  have free: "free_frames k' = free_frames k" "frames_wf k' = frames_wf k" using wr(3) by (simp_all add: free_frames_def frames_wf_def)
  have "store_wf k'" using w(1) free h(2) wr(2) unfolding store_wf_def by auto
  then have "cache_wf (c, k')"
    unfolding cache_wf_def fst_conv snd_conv using w(2-4) wr(2,4) by (metis (no_types, lifting) fun_upd_apply page.select_convs(2) page.surjective page.update_convs(2))
  moreover have "fbyte (c, k') (n + i) = Some (bs ! i)" if i: "i < length bs" for i
  proof -
    have lt: "n mod PAGE_BYTES + i < PAGE_BYTES" using i n(2) by linarith
    have "(n + i) div PAGE_BYTES = n div PAGE_BYTES" "(n + i) mod PAGE_BYTES = ?off + i"
      using lt div_add1_eq [of n i PAGE_BYTES] mod_add_eq [of n PAGE_BYTES i] by simp_all
    then show ?thesis using wr(2,6) h(1) i lt by (simp add: fbyte_def)
  qed
  moreover have "fbyte (c, k') m = Some b"
    if m: "m < 2 ^ 64" "fbyte (c, k) m = Some b" "\<not> (n \<le> m \<and> m < n + length bs)" for m b
  proof (cases "bt_get c (of_nat (m div PAGE_BYTES)) = Some h")
    case True
    then have "of_nat (m div PAGE_BYTES) = (of_nat (n div PAGE_BYTES) :: usize)" using w(4) h(1) by blast
    then have pg: "m div PAGE_BYTES = n div PAGE_BYTES" by (rule page_number_inj [OF m(1) n(1)])
    have "\<not> (?off \<le> m mod PAGE_BYTES \<and> m mod PAGE_BYTES < ?off + length bs)"
    proof -
      define q where "q = n div PAGE_BYTES * PAGE_BYTES"
      have "m = q + m mod PAGE_BYTES" "n = q + n mod PAGE_BYTES" unfolding q_def using pg by (metis div_mult_mod_eq)+
      then show ?thesis using m(3) by linarith
    qed
    moreover have "m mod PAGE_BYTES < PAGE_BYTES" by (simp add: PAGE_BYTES_def)
    ultimately show ?thesis using m(2) True h(2) d(1) wr(2,7) by (simp add: fbyte_def split: if_splits)
  next
    case False
    then obtain a where a: "bt_get c (of_nat (m div PAGE_BYTES)) = Some a" "a \<noteq> h" using m(2) by (cases "bt_get c (of_nat (m div PAGE_BYTES))") (auto simp: fbyte_def)
    then have e: "phys k' a = phys k a" "pages k' a = pages k a" using wr(2,5) by simp_all
    have "fbyte (c, k') m = fbyte (c, k) m" unfolding fbyte_def fst_conv snd_conv a(1) bind.bind_lunit e by (rule refl)
    then show ?thesis using m(2) by simp
  qed
  ultimately show ?thesis using wr(1,2) free(1) by (intro exI [of _ k']) simp
qed


lemma write_turn_spec:
  assumes rd: "disk_total rd" and wf: "cache_wf (c, k)" and room: "free_frames k \<noteq> {}"
    and fit: "unat off mod PAGE_BYTES + byte \<le> PAGE_BYTES" "done_n + byte \<le> length buf"
  shows "\<exists>c' k'. write_turn rd buf done_n byte off ((c, k), f, ino) =
      Some (((c', k'), f\<lparr>f_pos := off + of_nat byte\<rparr>, ino\<lparr>i_size := max (i_size ino) (off + of_nat byte)\<rparr>), off + of_nat byte) \<and>
    cache_wf (c', k') \<and> card (free_frames k) \<le> card (free_frames k') + 1 \<and>
    (\<forall>i < byte. fbyte (c', k') (unat off + i) = Some (buf ! (done_n + i))) \<and>
    (\<forall>m b. m < 2 ^ 64 \<longrightarrow> fbyte (c, k) m = Some b \<longrightarrow> \<not> (unat off \<le> m \<and> m < unat off + byte) \<longrightarrow> fbyte (c', k') m = Some b)"
proof -
  let ?bs = "take byte (drop done_n buf)"
  have len: "length ?bs = byte" using fit(2) by simp
  obtain c1 k1 h p n where f1: "find_page_and_create off (Some (i_ino ino)) (c, k) = Some ((c1, k1), Some h)" "cache_wf (c1, k1)"
    "bt_get c1 = (bt_get c)(to_offset off \<mapsto> h)" "pages k1 h = Some (p, n)" "2 \<le> n" "fbyte (c1, k1) = fbyte (c, k)"
    "card (free_frames k) \<le> card (free_frames k1) + 1" using find_page_spec [OF wf, of off "i_ino ino"] room by blast
  have h: "bt_get c1 (of_nat (unat off div PAGE_BYTES)) = Some h" using f1(3) to_offset_eq [of off] by simp
  obtain k2 p' where w2: "page_write rd h (unat off mod PAGE_BYTES) ?bs k1 = Some k2" "cache_wf (c1, k2)" "pages k2 h = Some (p', n)"
    "free_frames k2 = free_frames k1" "\<forall>i < length ?bs. fbyte (c1, k2) (unat off + i) = Some (?bs ! i)"
    "\<forall>m b. m < 2 ^ 64 \<longrightarrow> fbyte (c1, k1) m = Some b \<longrightarrow> \<not> (unat off \<le> m \<and> m < unat off + length ?bs) \<longrightarrow> fbyte (c1, k2) m = Some b"
    using page_write_content [OF rd f1(2) h f1(4) unat_u64, of ?bs] fit(1) len by auto
  obtain k3 where d: "arc_drop h k2 = Some k3" "cache_wf (c1, k3)" "fbyte (c1, k3) = fbyte (c1, k2)" "free_frames k3 = free_frames k2"
    using arc_drop_content [OF w2(2,3) f1(5)] by blast
  have "write_turn rd buf done_n byte off ((c, k), f, ino) =
      Some (((c1, k3), f\<lparr>f_pos := off + of_nat byte\<rparr>, ino\<lparr>i_size := max (i_size ino) (off + of_nat byte)\<rparr>), off + of_nat byte)"
    using f1(1) w2(1) d(1) by (simp add: write_turn_def Let_def)
  then show ?thesis using f1(6,7) w2(4-6) d(2-4) fit(2) unfolding len by (intro exI [of _ c1] exI [of _ k3]) simp
qed

text \<open>The number of pages that hold \<open>r\<close> bytes from \<open>off\<close> on.\<close>

definition pages_for :: "nat \<Rightarrow> nat \<Rightarrow> nat" where
  "pages_for off r = (if r = 0 then 0 else (off mod PAGE_BYTES + r + (PAGE_BYTES - 1)) div PAGE_BYTES)"

lemma pages_for_step:
  assumes "0 < r" "b = min (PAGE_BYTES - off mod PAGE_BYTES) r"
  shows "pages_for off r = pages_for (off + b) (r - b) + 1"
proof -
  let ?o = "off mod PAGE_BYTES"
  have o: "?o < PAGE_BYTES" by (simp add: PAGE_BYTES_def)
  show ?thesis
  proof (cases "PAGE_BYTES - ?o < r")
    case True
    then have b: "b = PAGE_BYTES - ?o" using assms(2) by simp
    have "(off + b) mod PAGE_BYTES = (?o + b) mod PAGE_BYTES" by (simp add: mod_add_left_eq)
    also have "\<dots> = 0" using b o by simp
    finally have "pages_for (off + b) (r - b) = (r - b + (PAGE_BYTES - 1)) div PAGE_BYTES" using True b by (simp add: pages_for_def)
    moreover have "?o + r + (PAGE_BYTES - 1) = (r - b + (PAGE_BYTES - 1)) + PAGE_BYTES" using b True o by linarith
    moreover have "(x + PAGE_BYTES) div PAGE_BYTES = x div PAGE_BYTES + 1" for x
      using div_add_self2 [of PAGE_BYTES x] by (simp add: PAGE_BYTES_def)
    ultimately show ?thesis using assms(1) by (simp only: pages_for_def) simp
  next
    case False
    then have "b = r" using assms(2) by simp
    moreover have "(?o + r + (PAGE_BYTES - 1)) div PAGE_BYTES = 1"
      using False assms(1) o by (intro div_nat_eqI) (simp_all add: PAGE_BYTES_def)
    ultimately show ?thesis using assms(1) by (simp add: pages_for_def)
  qed
qed

text \<open>
  The loop of \<^verbatim>\<open>write\<close>: with a free frame for every page the bytes fall into, it returns, stores every byte, keeps
  the cached bytes outside of the range, and advances the position and the size.
\<close>

lemma ext4_write_loop_spec:
  assumes rd: "disk_total rd"
  shows "\<lbrakk>cache_wf (c, k); length buf - done_n < fuel; done_n \<le> length buf; f_pos f = off; unat off + (length buf - done_n) < 2 ^ 64;
     pages_for (unat off) (length buf - done_n) \<le> card (free_frames k)\<rbrakk> \<Longrightarrow>
   \<exists>c' k' f' ino'. ext4_write_loop fuel rd buf done_n off ((c, k), f, ino) = Some (((c', k'), f', ino'), length buf) \<and>
     cache_wf (c', k') \<and> f_pos f' = off + of_nat (length buf - done_n) \<and> i_ino ino' = i_ino ino \<and>
     i_size ino' = (if done_n = length buf then i_size ino else max (i_size ino) (off + of_nat (length buf - done_n))) \<and>
     (\<forall>i < length buf - done_n. fbyte (c', k') (unat off + i) = Some (buf ! (done_n + i))) \<and>
     (\<forall>m b. m < 2 ^ 64 \<longrightarrow> fbyte (c, k) m = Some b \<longrightarrow> \<not> (unat off \<le> m \<and> m < unat off + (length buf - done_n)) \<longrightarrow>
        fbyte (c', k') m = Some b)"
proof (induction fuel arbitrary: c k f ino done_n off)
  case 0
  then show ?case by simp
next
  case (Suc fuel)
  let ?r = "length buf - done_n" and ?o = "unat off mod PAGE_BYTES"
  show ?case
  proof (cases "length buf \<le> done_n")
    case True
    then show ?thesis using Suc.prems by simp
  next
    case False
    define byte where "byte = min (PAGE_BYTES - ?o) ?r"
    let ?off = "off + of_nat byte" and ?done = "done_n + byte"
    let ?f = "f\<lparr>f_pos := ?off\<rparr>" and ?ino = "ino\<lparr>i_size := max (i_size ino) ?off\<rparr>"
    have P: "?o < PAGE_BYTES" by (simp add: PAGE_BYTES_def)
    have byte: "0 < byte" "byte \<le> ?r" "?o + byte \<le> PAGE_BYTES" "?done \<le> length buf"
      using False P by (auto simp: byte_def)
    have pages: "pages_for (unat off) ?r = pages_for (unat off + byte) (?r - byte) + 1"
      using pages_for_step [OF _ byte_def] False by simp
    then have ne: "free_frames k \<noteq> {}" using Suc.prems(6) by fastforce
    obtain c1 k1 where t: "write_turn rd buf done_n byte off ((c, k), f, ino) = Some (((c1, k1), ?f, ?ino), ?off)"
      "cache_wf (c1, k1)" "card (free_frames k) \<le> card (free_frames k1) + 1"
      "\<forall>i < byte. fbyte (c1, k1) (unat off + i) = Some (buf ! (done_n + i))"
      "\<forall>m b. m < 2 ^ 64 \<longrightarrow> fbyte (c, k) m = Some b \<longrightarrow> \<not> (unat off \<le> m \<and> m < unat off + byte) \<longrightarrow> fbyte (c1, k1) m = Some b"
      using write_turn_spec [OF rd Suc.prems(1) ne byte(3,4), of f ino] by blast
    have add: "unat (off + of_nat n) = unat off + n" if "n \<le> ?r" for n
      using that Suc.prems(5) by (simp add: unat_plus_if' unat_of_nat take_bit_nat_eq_self)
    have left: "length buf - ?done = ?r - byte" "?off + of_nat (?r - byte) = off + of_nat ?r"
      using byte(2) by (simp, metis of_nat_add le_add_diff_inverse add.assoc)
    have pre: "length buf - ?done < fuel" "?done \<le> length buf" "f_pos ?f = ?off"
      using Suc.prems(2) byte by auto
    have pre2: "unat ?off + (length buf - ?done) < 2 ^ 64" "pages_for (unat ?off) (length buf - ?done) \<le> card (free_frames k1)"
      unfolding left(1) add [OF byte(2)] using Suc.prems(5,6) byte(2) pages t(3) by linarith+
    note IH = Suc.IH [OF t(2) pre pre2, of ?ino, unfolded left(1)]
    then obtain c' k' f' ino' where r: "ext4_write_loop fuel rd buf ?done ?off ((c1, k1), ?f, ?ino) = Some (((c', k'), f', ino'), length buf)"
      "cache_wf (c', k')" "f_pos f' = off + of_nat ?r" "i_ino ino' = i_ino ino"
      "i_size ino' = (if ?done = length buf then i_size ?ino else max (i_size ?ino) (off + of_nat ?r))"
      "\<forall>i < ?r - byte. fbyte (c', k') (unat ?off + i) = Some (buf ! (?done + i))"
      "\<forall>m b. m < 2 ^ 64 \<longrightarrow> fbyte (c1, k1) m = Some b \<longrightarrow> \<not> (unat ?off \<le> m \<and> m < unat ?off + (?r - byte)) \<longrightarrow>
        fbyte (c', k') m = Some b" unfolding left(2) by (elim exE conjE) (rule that; simp)
    have "ext4_write_loop (Suc fuel) rd buf done_n off ((c, k), f, ino) = Some (((c', k'), f', ino'), length buf)"
      using False t(1) r(1) by (simp add: byte_def [symmetric] Let_def)
    moreover have "i_size ino' = max (i_size ino) (off + of_nat ?r)"
    proof (cases "?done = length buf")
      case True
      then have "byte = ?r" by simp
      then show ?thesis using r(5) True by simp
    next
      case False
      have "?off \<le> off + of_nat ?r" using add [OF byte(2)] add [of ?r] byte(2) by (simp add: word_le_nat_alt)
      then show ?thesis using r(5) False by (simp add: max.assoc max_absorb2)
    qed
    moreover have "fbyte (c', k') (unat off + i) = Some (buf ! (done_n + i))" if i: "i < ?r" for i
    proof (cases "i < byte")
      case True
      have "fbyte (c1, k1) (unat off + i) = Some (buf ! (done_n + i))" using t(4) True by blast
      moreover have "unat off + i < 2 ^ 64" using i Suc.prems(5) by linarith
      ultimately show ?thesis using r(7) add [OF byte(2)] True by simp
    next
      case False
      then show ?thesis using r(6) [rule_format, of "i - byte"] i add [OF byte(2)] by simp
    qed
    moreover have "fbyte (c', k') m = Some b" if "m < 2 ^ 64" "fbyte (c, k) m = Some b" "\<not> (unat off \<le> m \<and> m < unat off + ?r)" for m b
    proof -
      have "fbyte (c1, k1) m = Some b" using t(5) that byte(2) by (meson add_left_mono leD le_less_trans less_le_trans not_le)
      moreover have "\<not> (unat ?off \<le> m \<and> m < unat ?off + (?r - byte))"
        unfolding add [OF byte(2)] using that(3) byte(2) by linarith
      ultimately show ?thesis using r(7) that(1) by blast
    qed
    ultimately show ?thesis using r(2,3,4) False by (intro exI [of _ c'] exI [of _ k'] exI [of _ f'] exI [of _ ino']) simp
  qed
qed


section \<open>Reading what is cached\<close>

lemma fbyte_SomeE:
  assumes "fbyte (c, k) n = Some b"
  obtains h p r d where "bt_get c (of_nat (n div PAGE_BYTES)) = Some h" "pages k h = Some (p, r)" "disk_file p = Some d"
    "dstate d ! (n mod PAGE_BYTES div SECTOR_SIZE) \<noteq> DEmpty" "b = get_byte (phys k h) (n mod PAGE_BYTES)"
  using assms by (auto simp: fbyte_def panic_simps split: if_splits)

lemma page_split:
  assumes "n mod PAGE_BYTES + i < PAGE_BYTES"
  shows "(n + i) div PAGE_BYTES = n div PAGE_BYTES" "(n + i) mod PAGE_BYTES = n mod PAGE_BYTES + i"
  using assms div_add1_eq [of n i PAGE_BYTES] mod_add_eq [of n PAGE_BYTES i] by simp_all

lemma page_read_content:
  assumes wf: "cache_wf (c, k)" and h: "bt_get c (of_nat (n div PAGE_BYTES)) = Some h" "pages k h = Some (p, r)"
    and len: "0 < len" "n mod PAGE_BYTES + len \<le> PAGE_BYTES" and bs: "\<forall>i < len. fbyte (c, k) (n + i) = Some (g i)"
  shows "page_read rd h (n mod PAGE_BYTES) len k = Some (k, map g [0..<len])"
proof -
  note w = cache_wfD [OF wf]
  let ?o = "n mod PAGE_BYTES"
  obtain d where d: "disk_file p = Some d" "length (dstate d) = 8" using w(3) [OF h(1)] h(2) by auto
  have byte: "dstate d ! ((?o + i) div SECTOR_SIZE) \<noteq> DEmpty \<and> g i = get_byte (phys k h) (?o + i)" if i: "i < len" for i
  proof -
    have s: "(n + i) div PAGE_BYTES = n div PAGE_BYTES" "(n + i) mod PAGE_BYTES = ?o + i"
      using page_split [of n i] i len(2) by linarith+
    have "fbyte (c, k) (n + i) = Some (g i)" using bs i by blast
    then show ?thesis using h d(1) by (simp add: fbyte_def s split: if_splits)
  qed
  have "dstate d ! j \<noteq> DEmpty" if "j \<in> set (sectors ?o len)" for j
  proof -
    obtain m where "?o \<le> m" "m < ?o + len" "m div SECTOR_SIZE = j" using sector_present [OF \<open>j \<in> set (sectors ?o len)\<close> len(1)] .
    then show ?thesis using byte [of "m - ?o"] by auto
  qed
  moreover have "?o < PAGE_BYTES" by (simp add: PAGE_BYTES_def)
  ultimately have "page_read rd h ?o len k = Some (k, get_bytes (phys k h) ?o len)"
    using page_read_present [OF w(1) h(2) d] len(2) by blast
  moreover have "get_bytes (phys k h) ?o len = map g [0..<len]" unfolding get_bytes_def using byte by (intro map_cong) auto
  ultimately show ?thesis by simp
qed

lemma read_turn_spec:
  assumes wf: "cache_wf (c, k)" and byte: "byte = min (min (PAGE_BYTES - unat off mod PAGE_BYTES) (buf_len - length acc)) (unat (i_size ino - off))"
    "0 < byte" and bs: "\<forall>i < byte. fbyte (c, k) (unat off + i) = Some (g i)"
  shows "\<exists>c' k'. read_turn rd buf_len off acc ((c, k), f, ino) =
      Some (((c', k'), f\<lparr>f_pos := off + of_nat byte\<rparr>, ino), off + of_nat byte, acc @ map g [0..<byte]) \<and>
    cache_wf (c', k') \<and> fbyte (c', k') = fbyte (c, k)"
proof -
  have first: "fbyte (c, k) (unat off) = Some (g 0)" using bs byte(2) by force
  then obtain h0 where "bt_get c (of_nat (unat off div PAGE_BYTES)) = Some h0" by (rule fbyte_SomeE)
  then have room: "bt_get c (to_offset off) = None \<longrightarrow> free_frames k \<noteq> {}" by (simp add: to_offset_eq)
  obtain c1 k1 h p n where f1: "find_page_and_create off (Some (i_ino ino)) (c, k) = Some ((c1, k1), Some h)" "cache_wf (c1, k1)"
    "bt_get c1 = (bt_get c)(to_offset off \<mapsto> h)" "pages k1 h = Some (p, n)" "2 \<le> n" "fbyte (c1, k1) = fbyte (c, k)"
    using find_page_spec [OF wf room, of "i_ino ino"] by blast
  have h: "bt_get c1 (of_nat (unat off div PAGE_BYTES)) = Some h" using f1(3) to_offset_eq [of off] by simp
  have o: "unat off mod PAGE_BYTES < PAGE_BYTES" by (simp add: PAGE_BYTES_def)
  have fit: "unat off mod PAGE_BYTES + byte \<le> PAGE_BYTES" using byte(1) o by linarith
  have rd: "page_read rd h (unat off mod PAGE_BYTES) byte k1 = Some (k1, map g [0..<byte])"
    using page_read_content [OF f1(2) h f1(4) byte(2) fit] bs f1(6) by simp
  obtain k3 where d: "arc_drop h k1 = Some k3" "cache_wf (c1, k3)" "fbyte (c1, k3) = fbyte (c1, k1)"
    using arc_drop_content [OF f1(2,4,5)] by blast
  have "read_turn rd buf_len off acc ((c, k), f, ino) =
      Some (((c1, k3), f\<lparr>f_pos := off + of_nat byte\<rparr>, ino), off + of_nat byte, acc @ map g [0..<byte])"
    using f1(1) rd d(1) by (simp add: read_turn_def byte(1) [symmetric] Let_def)
  then show ?thesis using d(2,3) f1(6) by auto
qed

lemma map_upt_split: "b \<le> r \<Longrightarrow> map g [0..<b] @ map (\<lambda>i. g (b + i)) [0..<r - b] = map g [0..<r]"
  by (rule nth_equalityI) (auto simp: nth_append)

lemma file_read_loop_spec:
  "\<lbrakk>cache_wf (c, k); buf_len - length acc < fuel; length acc \<le> buf_len; unat off + (buf_len - length acc) \<le> unat (i_size ino);
    \<forall>i < buf_len - length acc. fbyte (c, k) (unat off + i) = Some (g i)\<rbrakk> \<Longrightarrow>
   \<exists>c' k' f'. file_read_loop fuel rd buf_len off acc ((c, k), f, ino) =
      Some (((c', k'), f', ino), acc @ map g [0..<buf_len - length acc]) \<and> cache_wf (c', k') \<and> fbyte (c', k') = fbyte (c, k)"
proof (induction fuel arbitrary: c k f acc off g)
  case 0
  then show ?case by simp
next
  case (Suc fuel)
  let ?r = "buf_len - length acc"
  show ?case
  proof (cases "buf_len \<le> length acc")
    case True
    then show ?thesis using Suc.prems(1) by simp
  next
    case False
    define byte where "byte = min (min (PAGE_BYTES - unat off mod PAGE_BYTES) ?r) (unat (i_size ino - off))"
    have lt: "unat off < unat (i_size ino)" using Suc.prems(4) False by linarith
    then have sub: "unat (i_size ino - off) = unat (i_size ino) - unat off" by (simp add: unat_sub word_le_nat_alt)
    have o: "unat off mod PAGE_BYTES < PAGE_BYTES" by (simp add: PAGE_BYTES_def)
    have byte: "0 < byte" "byte \<le> ?r" using False o lt sub Suc.prems(4) by (auto simp: byte_def)
    have "\<forall>i < byte. fbyte (c, k) (unat off + i) = Some (g i)" using Suc.prems(5) byte(2) by auto
    from read_turn_spec [OF Suc.prems(1) byte_def byte(1) this] obtain c1 k1 where
      t: "read_turn rd buf_len off acc ((c, k), f, ino) =
        Some (((c1, k1), f\<lparr>f_pos := off + of_nat byte\<rparr>, ino), off + of_nat byte, acc @ map g [0..<byte])"
      "cache_wf (c1, k1)" "fbyte (c1, k1) = fbyte (c, k)" by blast
    have "byte < 2 ^ 64" using byte(2) Suc.prems(4) unat_u64 [of "i_size ino"] by linarith
    then have off': "unat (off + of_nat byte) = unat off + byte"
      using byte(2) Suc.prems(4) unat_u64 [of "i_size ino"] by (simp add: unat_plus_if' unat_of_nat take_bit_nat_eq_self)
    let ?acc = "acc @ map g [0..<byte]" and ?g = "\<lambda>i. g (byte + i)"
    have len: "buf_len - length ?acc = ?r - byte" by simp
    have "\<exists>c' k' f'. file_read_loop fuel rd buf_len (off + of_nat byte) ?acc ((c1, k1), f\<lparr>f_pos := off + of_nat byte\<rparr>, ino) =
      Some (((c', k'), f', ino), ?acc @ map ?g [0..<buf_len - length ?acc]) \<and> cache_wf (c', k') \<and> fbyte (c', k') = fbyte (c1, k1)"
      using Suc.prems byte t(3) off' by (intro Suc.IH [OF t(2)]) (simp_all add: add.assoc)
    then obtain c' k' f' where r: "file_read_loop fuel rd buf_len (off + of_nat byte) ?acc ((c1, k1), f\<lparr>f_pos := off + of_nat byte\<rparr>, ino) =
      Some (((c', k'), f', ino), ?acc @ map ?g [0..<?r - byte])" "cache_wf (c', k')" "fbyte (c', k') = fbyte (c1, k1)"
      unfolding len by blast
    have "map g [0..<byte] @ map ?g [0..<?r - byte] = map g [0..<?r]"
      using byte(2) by (rule map_upt_split)
    moreover have "\<not> i_size ino \<le> off" using lt by (simp add: word_le_nat_alt)
    ultimately have "file_read_loop (Suc fuel) rd buf_len off acc ((c, k), f, ino) = Some (((c', k'), f', ino), acc @ map g [0..<?r])"
      using False t(1) r(1) by simp
    then show ?thesis using r(2,3) t(3) by auto
  qed
qed


section \<open>Properties\<close>

text \<open>
  C3: bytes written to a file at its position are read back after seeking to where they were written, over any number of
  pages and whatever the cache held. Neither call fails, given frames for the pages of the range, a disk whose reads
  succeed and a range that does not wrap around; the read does not need the disk.
\<close>

theorem file_write_read:
  assumes rd: "disk_total rd" and wf: "cache_wf (c, k)" and range: "unat (f_pos f) + length bs < 2 ^ 64"
    and room: "pages_for (unat (f_pos f)) (length bs) \<le> card (free_frames k)" and path: "\<not> contains flags O_PATH"
  shows "\<exists>s f1 f2 ino1 s2. ext4_write rd now flags bs ((c, k), f, ino) = Some ((s, f1, ino1), Inr (length bs)) \<and>
    f_pos f1 = f_pos f + of_nat (length bs) \<and> seek False (Start (f_pos f)) ino1 f1 = Some (f2, Inr (f_pos f)) \<and>
    file_read rd' now' flags (length bs) (s, f2, ino1) = Some (s2, Inr bs)"
proof -
  let ?off = "f_pos f"
  obtain c1 k1 f1 ino1 where w: "ext4_write_loop (length bs + 1) rd bs 0 ?off ((c, k), f, ino) = Some (((c1, k1), f1, ino1), length bs)"
    "cache_wf (c1, k1)" "f_pos f1 = ?off + of_nat (length bs)"
    "i_size ino1 = (if 0 = length bs then i_size ino else max (i_size ino) (?off + of_nat (length bs)))"
    "\<forall>i < length bs. fbyte (c1, k1) (unat ?off + i) = Some (bs ! i)"
    using ext4_write_loop_spec [OF rd wf, of bs 0 "length bs + 1" f ?off ino] range room by auto
  let ?ino = "touch_write now ino1" and ?f = "f1\<lparr>f_pos := ?off\<rparr>"
  have wr: "ext4_write rd now flags bs ((c, k), f, ino) = Some (((c1, k1), f1, ?ino), Inr (length bs))"
    using w(1) path by (simp add: ext4_write_def)
  have end': "unat (?off + of_nat (length bs)) = unat ?off + length bs"
    using range by (simp add: unat_plus_if' unat_of_nat take_bit_nat_eq_self)
  have size: "bs \<noteq> [] \<Longrightarrow> unat ?off + length bs \<le> unat (i_size ?ino)"
    unfolding end' [symmetric] using w(4) by (simp add: touch_write_def word_le_nat_alt [symmetric])
  have "\<exists>s2. file_read rd' now' flags (length bs) ((c1, k1), ?f, ?ino) = Some (s2, Inr bs)"
  proof (cases "bs = []")
    case True
    then show ?thesis using path by (simp add: file_read_def)
  next
    case False
    then obtain c2 k2 f2 where "file_read_loop (length bs + 1) rd' (length bs) ?off [] ((c1, k1), ?f, ?ino) =
        Some (((c2, k2), f2, ?ino), map (nth bs) [0..<length bs])"
      using file_read_loop_spec [OF w(2), of "length bs" "[]" "length bs + 1" ?off ?ino "nth bs" rd' ?f] size w(5) by auto
    then show ?thesis using path by (simp add: file_read_def map_nth)
  qed
  moreover have "seek False (Start ?off) ?ino f1 = Some (?f, Inr ?off)" by (simp add: seek_def)
  ultimately show ?thesis using wr w(3) by (intro exI [of _ "(c1, k1)"] exI [of _ f1] exI [of _ ?f] exI [of _ ?ino]) blast
qed

definition demo_inode :: inode_meta where
  "demo_inode = inode_meta_new 7 Regular 0 \<lparr>tv_sec = 0, tv_nsec = 0\<rparr> \<lparr>tv_sec = 0, tv_nsec = 0\<rparr> \<lparr>tv_sec = 0, tv_nsec = 0\<rparr>"

lemma boot_cache_wf: "cache_wf ([], boot_store)" "2 \<le> card (free_frames boot_store)"
proof -
  show "cache_wf ([], boot_store)" using boot_store_wf by (simp add: cache_wf_def bt_get_def)
  have "{0x80300, 0x80301} \<subseteq> free_frames boot_store" by (simp add: boot_store_wf boot_mem_wf)
  from card_mono [OF _ this] show "2 \<le> card (free_frames boot_store)" by simp
qed

theorem file_write_read_witness:
  "\<exists>s f1 f2 ino1 s2. ext4_write (\<lambda>_ _. Some []) \<lparr>tv_sec = 1, tv_nsec = 0\<rparr> O_RDWR [1, 2]
      (([], boot_store), \<lparr>f_pos = 4095, dirent_index = 0\<rparr>, demo_inode) = Some ((s, f1, ino1), Inr (length [1, 2 :: u8])) \<and>
    seek False (Start 4095) ino1 f1 = Some (f2, Inr 4095) \<and>
    file_read (\<lambda>_ _. None) \<lparr>tv_sec = 1, tv_nsec = 0\<rparr> O_RDWR (length [1, 2 :: u8]) (s, f2, ino1) = Some (s2, Inr [1, 2])"
proof -
  let ?f = "\<lparr>f_pos = 4095, dirent_index = 0\<rparr>" and ?t = "\<lparr>tv_sec = 1, tv_nsec = 0\<rparr>"
  have "disk_total (\<lambda>_ _. Some [])" by (simp add: disk_total_def)
  moreover have "unat (f_pos ?f) + length [1, 2 :: u8] < 2 ^ 64" by simp
  moreover have "pages_for (unat (f_pos ?f)) (length [1, 2 :: u8]) \<le> card (free_frames boot_store)"
    using boot_cache_wf(2) by (simp add: pages_for_def PAGE_BYTES_def)
  moreover have "\<not> contains O_RDWR O_PATH" by (simp add: contains_def open_flag_defs)
  ultimately show ?thesis using file_write_read [OF _ boot_cache_wf(1), of "\<lambda>_ _. Some []" ?f "[1, 2]" O_RDWR ?t demo_inode "\<lambda>_ _. None" ?t]
    unfolding file_inner.select_convs by blast
qed

lemma fat_loop_ext4_loop:
  "done_n < length buf \<Longrightarrow> length buf - done_n < fuel \<Longrightarrow> fat_write_loop fuel rd buf done_n off s = ext4_write_loop fuel rd buf done_n off s"
proof (induction fuel arbitrary: done_n off s)
  case 0
  then show ?case by simp
next
  case (Suc fuel)
  have P: "unat off mod PAGE_BYTES < PAGE_BYTES" by (simp add: PAGE_BYTES_def)
  let ?b = "PAGE_BYTES - unat off mod PAGE_BYTES" and ?m = "min (PAGE_BYTES - unat off mod PAGE_BYTES) (length buf - done_n)"
  have b: "(let b = ?b in if length buf < b + done_n then length buf - done_n else b) = ?m" by (auto simp: Let_def min_def)
  have pos: "0 < ?m" using P Suc.prems(1) by simp
  have step: "fat_write_loop fuel rd buf (done_n + ?m) off' s' = ext4_write_loop fuel rd buf (done_n + ?m) off' s'"
    if "\<not> length buf \<le> done_n + ?m" for off' s' using that Suc.prems(2) pos by (intro Suc.IH) linarith+
  have stop: "ext4_write_loop fuel rd buf n off' s' = Some (s', n)" if "length buf \<le> n" for off' s' n
    using that Suc.prems by (cases fuel) auto
  show ?case
  proof (cases "length buf \<le> done_n + ?m")
    case True
    then show ?thesis using Suc.prems(1) stop [OF True] unfolding fat_write_loop.simps b by (auto simp: Let_def split: Option.bind_splits)
  next
    case False
    then show ?thesis using Suc.prems(1) step [OF False] unfolding fat_write_loop.simps b by (auto simp: Let_def split: Option.bind_splits)
  qed
qed

text \<open>
  the write loops of the ext4 and the FAT file agree on every buffer that is not empty: same result, same cache, memory,
  position and size.
\<close>

theorem fat_write_agrees:
  assumes "buf \<noteq> []"
  shows "fat_write rd now flags buf s = ext4_write rd now flags buf s"
  using fat_loop_ext4_loop [of 0 buf "length buf + 1"] assms by (simp add: fat_write_def ext4_write_def)

theorem fat_write_agrees_witness:
  "fat_write (\<lambda>_ _. Some []) \<lparr>tv_sec = 1, tv_nsec = 0\<rparr> O_RDWR [5] (([], boot_store), \<lparr>f_pos = 0, dirent_index = 0\<rparr>, demo_inode) =
   ext4_write (\<lambda>_ _. Some []) \<lparr>tv_sec = 1, tv_nsec = 0\<rparr> O_RDWR [5] (([], boot_store), \<lparr>f_pos = 0, dirent_index = 0\<rparr>, demo_inode)"
  using fat_write_agrees [of "[5]"] by simp


lemma sint_cases: "sint d = (if uint d < 2 ^ 63 then uint d else uint d - 2 ^ 64)" for d :: isize
proof -
  have "sint d = (uint d + 2 ^ 63) mod 2 ^ 64 - 2 ^ 63"
    by (simp add: sint_uint signed_take_bit_eq_take_bit_shift take_bit_eq_mod)
  moreover have "0 \<le> uint d" "uint d < 2 ^ 64" using unsigned_less [where 'a = int, of d] by simp_all
  moreover have "(uint d + 2 ^ 63) mod 2 ^ 64 = uint d - 2 ^ 63" if "\<not> uint d < 2 ^ 63"
  proof -
    have "(uint d + 2 ^ 63) mod 2 ^ 64 = (uint d - 2 ^ 63) mod 2 ^ 64" using mod_add_self2 [of "uint d - 2 ^ 63" "2 ^ 64"] by (simp add: add.commute)
    also have "\<dots> = uint d - 2 ^ 63" using that unsigned_less [where 'a = int, of d] by (intro mod_pos_pos_trivial) simp_all
    finally show ?thesis .
  qed
  ultimately show ?thesis by (cases "uint d < 2 ^ 63") simp_all
qed

text \<open>Adding a signed offset to an unsigned position.\<close>

lemma seek_to:
  fixes base :: usize and d :: isize
  assumes "unat base < 2 ^ 63"
  shows "sint d < 0 \<Longrightarrow> base < - d \<longleftrightarrow> int (unat base) + sint d < 0"
    "sint d < 0 \<Longrightarrow> \<not> base < - d \<Longrightarrow> int (unat (base - (- d))) = int (unat base) + sint d"
    "\<not> sint d < 0 \<Longrightarrow> int (unat (base + d)) = int (unat base) + sint d"
proof -
  have nat: "int (unat x) = uint x" for x :: usize by simp
  have "int (unat base) < int (2 ^ 63)" using assms by (simp only: of_nat_less_iff)
  then have b: "uint base < 2 ^ 63" by simp
  note u = sint_cases [of d] uint_lt2p [of d] uint_ge_0 [of d] uint_ge_0 [of base]
  have neg: "uint (- d) = - sint d" if "sint d < 0"
  proof -
    have d: "2 ^ 63 \<le> uint d" "sint d = uint d - 2 ^ 64" "uint d < 2 ^ 64" using that u by (simp_all split: if_splits)
    have "uint (- d) = (- uint d) mod 2 ^ 64" by (simp add: uint_word_ariths)
    also have "\<dots> = (2 ^ 64 - uint d) mod 2 ^ 64" using mod_add_self2 [of "- uint d" "2 ^ 64"] by simp
    also have "\<dots> = 2 ^ 64 - uint d" using d by (intro mod_pos_pos_trivial) simp_all
    finally show ?thesis using d(2) by simp
  qed
  show "sint d < 0 \<Longrightarrow> base < - d \<longleftrightarrow> int (unat base) + sint d < 0"
    unfolding nat word_less_def using neg by linarith
  show "sint d < 0 \<Longrightarrow> \<not> base < - d \<Longrightarrow> int (unat (base - (- d))) = int (unat base) + sint d"
    unfolding nat uint_sub_if' word_less_def using neg by simp
  show "\<not> sint d < 0 \<Longrightarrow> int (unat (base + d)) = int (unat base) + sint d"
    unfolding nat using u b by (simp add: uint_plus_if' split: if_splits)
qed

text \<open>
  seeking. From the start it sets the position; relative to the position or the end it adds the signed offset, and fails
  with \<open>EINVAL\<close>, changing nothing, when the result would be negative.
\<close>

theorem seek_relative:
  assumes pos: "unat (f_pos f) < 2 ^ 63" "unat (i_size ino) < 2 ^ 63"
  shows "\<exists>f' r. seek False sk ino f = Some (f', r) \<and>
    (let target = (case sk of Start p \<Rightarrow> int (unat p) | Current d \<Rightarrow> int (unat (f_pos f)) + sint d | End d \<Rightarrow> int (unat (i_size ino)) + sint d) in
     if target < 0 then r = Inl EINVAL \<and> f' = f else r = Inr (f_pos f') \<and> int (unat (f_pos f')) = target \<and> f' = f\<lparr>f_pos := f_pos f'\<rparr>)"
proof (cases sk)
  case (Start p)
  then show ?thesis by (simp add: seek_def)
next
  case (Current d)
  then show ?thesis using seek_to [OF pos(1), of d]
    by (cases "sint d < 0"; cases "f_pos f < - d"; simp add: seek_def Let_def; use uint_ge_0 [of "f_pos f"] in linarith)
next
  case (End d)
  then show ?thesis using seek_to [OF pos(2), of d]
    by (cases "sint d < 0"; cases "i_size ino < - d"; simp add: seek_def Let_def; use uint_ge_0 [of "i_size ino"] in linarith)
qed

theorem seek_relative_witness:
  "unat (f_pos \<lparr>f_pos = 5, dirent_index = 0\<rparr>) < 2 ^ 63 \<and> unat (i_size demo_inode) < 2 ^ 63 \<and>
   seek False (Current (- 2)) demo_inode \<lparr>f_pos = 5, dirent_index = 0\<rparr> = Some (\<lparr>f_pos = 3, dirent_index = 0\<rparr>, Inr 3) \<and>
   seek False (Current (- 9)) demo_inode \<lparr>f_pos = 5, dirent_index = 0\<rparr> = Some (\<lparr>f_pos = 5, dirent_index = 0\<rparr>, Inl EINVAL)"
proof -
  have p: "unat (f_pos \<lparr>f_pos = 5, dirent_index = 0\<rparr>) < 2 ^ 63" "unat (i_size demo_inode) < 2 ^ 63"
    by (simp_all add: demo_inode_def inode_meta_new_def)
  from seek_relative [OF p, of "Current (- 9)"] seek_relative [OF p, of "Current (- 2)"] p show ?thesis
    by (simp add: seek_def)
qed

end
