(* ===== verification/Dentry.thy ===== *)
theory Dentry
  imports Path File_Io "HOL-Library.Char_ord" "HOL-Library.List_Lexorder"
begin

text \<open>
  The tree of directory entries (\<^verbatim>\<open>fs/dentry.rs\<close>, \<^verbatim>\<open>fs/simplefs\<close>, \<^verbatim>\<open>fs/ext4\<close>) with its cache of paths. An \<^verbatim>\<open>Arc<dyn Dentry>\<close> is the number of the
  entry in the store \<open>dentries\<close>, and the type of the object is its \<open>d_kind\<close>; inodes are stored by their number. The ext4 library
  \<^verbatim>\<open>lwext4_rust\<close> is a record of functions on a disk of any type; its error numbers are read by \<^verbatim>\<open>Errno::from_i32\<close>. The clock is an argument.
  A lock that is taken twice is a panic.

  The entries of a FAT32 volume are not part of the tree: the kernel mounts ext4 at the root, and \<open>mount\<close> cannot get a device for
  another volume. An entry is never removed from the store; an upgrade of a weak reference looks for an owner of the entry.
\<close>

section \<open>The store\<close>

datatype dentry_kind = Ext4Dentry | SimpleDentry | DevDentry

type_synonym did = nat

record dentry =
  d_kind :: dentry_kind
  d_name :: string
  d_path :: string
  d_inode :: nat
  d_parent :: "did option"
  d_child :: "(string, did) btree_map"

datatype fs_type = VFAT | EXT4 | ProcFs | DevFs | TmpFs

type_synonym fs_flags = u32

record file_system_meta =
  f_dev :: string
  f_type :: fs_type
  f_flags :: fs_flags
  root_dentry :: did
  root_inode :: nat

datatype file_system = EmptyFileSystem | FileSystem file_system_meta

record vfile =
  vf_dentry :: did
  vf_inode :: nat
  vf_inner :: file_inner

record 'd vfs =
  dentries :: "did \<rightharpoonup> dentry"
  inodes :: "nat \<rightharpoonup> inode_meta"
  dcache :: "string \<rightharpoonup> did"
  mounts :: "string \<rightharpoonup> file_system"
  files :: "nat \<rightharpoonup> vfile"
  next_did :: nat
  next_ino :: nat
  next_file :: nat
  disk :: 'd

text \<open>The functions of the ext4 library that the kernel calls.\<close>

record 'd ext4_lib =
  block_wrapper_new :: "'d \<Rightarrow> 'd option"
  file_exists :: "string \<Rightarrow> 'd \<Rightarrow> bool"
  dir_exists :: "string \<Rightarrow> 'd \<Rightarrow> bool"
  symlink_exists :: "string \<Rightarrow> 'd \<Rightarrow> bool"
  file_open :: "string \<Rightarrow> open_flags \<Rightarrow> 'd \<Rightarrow> 'd \<times> usize os_result"
  dir_open :: "string \<Rightarrow> 'd \<Rightarrow> unit os_result"
  dir_create :: "string \<Rightarrow> 'd \<Rightarrow> 'd \<times> unit os_result"
  dir_entries :: "string \<Rightarrow> 'd \<Rightarrow> (string \<times> nat) list option"
  lwext4_rmfile :: "string \<Rightarrow> 'd \<Rightarrow> 'd \<times> unit os_result"
  lwext4_rmdir :: "string \<Rightarrow> 'd \<Rightarrow> 'd \<times> unit os_result"
  lwext4_link :: "string \<Rightarrow> string \<Rightarrow> 'd \<Rightarrow> 'd \<times> unit os_result"
  lwext4_mvfile :: "string \<Rightarrow> string \<Rightarrow> 'd \<Rightarrow> 'd \<times> unit os_result"
  lwext4_mvdir :: "string \<Rightarrow> string \<Rightarrow> 'd \<Rightarrow> 'd \<times> unit os_result"
  lwext4_symlink :: "string \<Rightarrow> string \<Rightarrow> 'd \<Rightarrow> 'd \<times> unit os_result"
  lwext4_readlink :: "string \<Rightarrow> nat \<Rightarrow> 'd \<Rightarrow> u8 list os_result"

text \<open>The operator \<^verbatim>\<open>?\<close>: a panic or an error ends the function, with the state reached.\<close>

definition and_then :: "('s \<times> 'a os_result) option \<Rightarrow> ('s \<Rightarrow> 'a \<Rightarrow> ('s \<times> 'b os_result) option) \<Rightarrow> ('s \<times> 'b os_result) option" where
  "and_then m f = (case m of None \<Rightarrow> None | Some (s, Inl e) \<Rightarrow> Some (s, Inl e) | Some (s, Inr a) \<Rightarrow> f s a)"

definition on_disk :: "('d \<Rightarrow> 'd \<times> 'a os_result) \<Rightarrow> 'd vfs \<Rightarrow> ('d vfs \<times> 'a os_result) option" where
  "on_disk f s = (case f (disk s) of (d, r) \<Rightarrow> Some (s\<lparr>disk := d\<rparr>, r))"

definition set_dentry :: "did \<Rightarrow> dentry \<Rightarrow> 'd vfs \<Rightarrow> 'd vfs" where
  "set_dentry d e s = s\<lparr>dentries := (dentries s)(d \<mapsto> e)\<rparr>"

definition cache_insert :: "string \<Rightarrow> did \<Rightarrow> 'd vfs \<Rightarrow> 'd vfs" where
  "cache_insert p d s = s\<lparr>dcache := (dcache s)(p \<mapsto> d)\<rparr>"

definition cache_remove :: "string \<Rightarrow> 'd vfs \<Rightarrow> 'd vfs" where
  "cache_remove p s = s\<lparr>dcache := (dcache s)(p := None)\<rparr>"

definition add_child :: "did \<Rightarrow> string \<Rightarrow> did \<Rightarrow> 'd vfs \<Rightarrow> 'd vfs option" where
  "add_child d name c s = do { e \<leftarrow> dentries s d; Some (set_dentry d (e\<lparr>d_child := bt_insert name c (d_child e)\<rparr>) s) }"

definition inode_of :: "did \<Rightarrow> 'd vfs \<Rightarrow> inode_meta option" where
  "inode_of d s = do { e \<leftarrow> dentries s d; inodes s (d_inode e) }"

definition set_inode :: "nat \<Rightarrow> inode_meta \<Rightarrow> 'd vfs \<Rightarrow> 'd vfs" where
  "set_inode i m s = s\<lparr>inodes := (inodes s)(i \<mapsto> m)\<rparr>"

definition new_inode :: "inode_mode \<Rightarrow> usize \<Rightarrow> time_spec \<Rightarrow> 'd vfs \<Rightarrow> 'd vfs \<times> nat" where
  "new_inode mode sz now s =
     (s\<lparr>inodes := (inodes s)(next_ino s \<mapsto> inode_meta_new (next_ino s) mode sz now now now), next_ino := next_ino s + 1\<rparr>, next_ino s)"

definition new_dentry :: "dentry_kind \<Rightarrow> string \<Rightarrow> string \<Rightarrow> nat \<Rightarrow> did option \<Rightarrow> 'd vfs \<Rightarrow> 'd vfs \<times> did" where
  "new_dentry k name path ino par s =
     (s\<lparr>dentries := (dentries s)(next_did s \<mapsto> \<lparr>d_kind = k, d_name = format_path name, d_path = path, d_inode = ino, d_parent = par, d_child = []\<rparr>),
        next_did := next_did s + 1\<rparr>, next_did s)"

text \<open>
  A weak reference can be upgraded while the cache, an entry, a mounted file system or an open file owns the entry. The cache and the
  mount table have an entry under its own path.
\<close>

definition owned :: "did \<Rightarrow> 'd vfs \<Rightarrow> bool" where
  "owned d s \<longleftrightarrow>
     (case dentries s d of None \<Rightarrow> False | Some e \<Rightarrow>
        dcache s (d_path e) = Some d \<or> (case mounts s (d_path e) of Some (FileSystem f) \<Rightarrow> root_dentry f = d | _ \<Rightarrow> False)) \<or>
     (\<exists>p \<in> set [0..<next_did s]. case dentries s p of None \<Rightarrow> False | Some e \<Rightarrow> d \<in> snd ` set (d_child e)) \<or>
     (\<exists>h \<in> set [0..<next_file s]. case files s h of None \<Rightarrow> False | Some f \<Rightarrow> vf_dentry f = d)"

section \<open>Operations of an entry\<close>

definition upgrade :: "did \<Rightarrow> 'd vfs \<Rightarrow> did option" where
  "upgrade d s = (if owned d s then Some d else None)"

text \<open>\<open>look_up\<close> has no errors. On an ext4 directory it asks the disk, and makes an entry for what it finds.\<close>

definition attach :: "did \<Rightarrow> string \<Rightarrow> string \<Rightarrow> inode_mode \<Rightarrow> usize \<Rightarrow> time_spec \<Rightarrow> 'd vfs \<Rightarrow> ('d vfs \<times> did option) option" where
  "attach d name path mode sz now s =
     (let (s1, ino) = new_inode mode sz now s;
          (s2, c) = new_dentry Ext4Dentry name path ino (Some d) s1 in
      do { s3 \<leftarrow> add_child d name c s2;
           Some (cache_insert path c s3, Some c) })"

definition ext4_look_up :: "'d ext4_lib \<Rightarrow> time_spec \<Rightarrow> did \<Rightarrow> string \<Rightarrow> 'd vfs \<Rightarrow> ('d vfs \<times> did option) option" where
  "ext4_look_up x now d name s =
     do { e \<leftarrow> dentries s d;
          case bt_get (d_child e) name of
            Some c \<Rightarrow> Some (s, Some c)
          | None \<Rightarrow>
              do { path \<leftarrow> cwd_and_name name (d_path e);
                   if file_exists x path (disk s) then
                     (case file_open x path O_RDWR (disk s) of
                        (dk, Inr sz) \<Rightarrow> attach d name path Regular sz now (s\<lparr>disk := dk\<rparr>)
                      | (dk, Inl _) \<Rightarrow> Some (s\<lparr>disk := dk\<rparr>, None))
                   else if dir_exists x path (disk s) then
                     (case dir_open x path (disk s) of
                        Inr _ \<Rightarrow> attach d name path Regular 0 now s
                      | Inl _ \<Rightarrow> Some (s, None))
                   else if symlink_exists x path (disk s) then attach d name path Link 0 now s
                   else Some (s, None) } }"

definition look_up :: "'d ext4_lib \<Rightarrow> time_spec \<Rightarrow> did \<Rightarrow> string \<Rightarrow> 'd vfs \<Rightarrow> ('d vfs \<times> did option) option" where
  "look_up x now d name s =
     do { e \<leftarrow> dentries s d;
          case d_kind e of
            Ext4Dentry \<Rightarrow> ext4_look_up x now d name s
          | SimpleDentry \<Rightarrow> Some (s, bt_get (d_child e) name)
          | DevDentry \<Rightarrow> Some (s, None) }"

text \<open>\<open>finish_create\<close> is the end of \<^verbatim>\<open>create\<close>: the new entry, a child of \<open>d\<close>.\<close>

definition finish_create :: "dentry_kind \<Rightarrow> did \<Rightarrow> string \<Rightarrow> string \<Rightarrow> inode_mode \<Rightarrow> usize \<Rightarrow> time_spec \<Rightarrow> 'd vfs \<Rightarrow> ('d vfs \<times> did os_result) option" where
  "finish_create k d name path mode sz now s =
     (let (s1, ino) = new_inode mode sz now s;
          (s2, c) = new_dentry k (dentry_name path) path ino None s1 in
      do { s3 \<leftarrow> add_child d name c s2;
           e \<leftarrow> dentries s3 c;
           Some (cache_insert path c (set_dentry c (e\<lparr>d_parent := Some d\<rparr>) s3), Inr c) })"

definition ext4_mkdir :: "'d ext4_lib \<Rightarrow> string \<Rightarrow> 'd vfs \<Rightarrow> ('d vfs \<times> usize os_result) option" where
  "ext4_mkdir x path s = and_then (on_disk (dir_create x path) s) (\<lambda>s _. Some (s, Inr 0))"

definition ext4_mknod :: "'d ext4_lib \<Rightarrow> string \<Rightarrow> 'd vfs \<Rightarrow> ('d vfs \<times> usize os_result) option" where
  "ext4_mknod x path s = on_disk (file_open x path (O_RDWR OR O_CREAT OR O_TRUNC)) s"

definition create :: "'d ext4_lib \<Rightarrow> time_spec \<Rightarrow> did \<Rightarrow> string \<Rightarrow> inode_mode \<Rightarrow> 'd vfs \<Rightarrow> ('d vfs \<times> did os_result) option" where
  "create x now d name mode s =
     do { e \<leftarrow> dentries s d;
          case d_kind e of
            DevDentry \<Rightarrow> Some (s, Inl ENOTDIR)
          | SimpleDentry \<Rightarrow>
              do { path \<leftarrow> cwd_and_name name (d_path e);
                   rassert (mode = Directory \<or> mode = Regular);
                   finish_create SimpleDentry d name path mode 0 now s }
          | Ext4Dentry \<Rightarrow>
              do { path \<leftarrow> cwd_and_name name (d_path e);
                   rassert (mode = Directory \<or> mode = Regular);
                   and_then (if mode = Directory then ext4_mkdir x path s else ext4_mknod x path s)
                     (\<lambda>s sz. finish_create Ext4Dentry d name path mode sz now s) } }"

definition unlink_tree :: "did \<Rightarrow> did \<Rightarrow> 'd vfs \<Rightarrow> ('d vfs \<times> string \<times> nat) option" where
  "unlink_tree d c s =
     do { ce \<leftarrow> dentries s c;
          rassert (d \<noteq> c);
          let s1 = cache_remove (d_path ce) (set_dentry c (ce\<lparr>d_parent := None\<rparr>) s);
          e \<leftarrow> dentries s1 d;
          Some (set_dentry d (e\<lparr>d_child := bt_remove (d_name ce) (d_child e)\<rparr>) s1, d_path ce, d_inode ce) }"

definition ext4_unlink :: "'d ext4_lib \<Rightarrow> did \<Rightarrow> did \<Rightarrow> 'd vfs \<Rightarrow> ('d vfs \<times> unit os_result) option" where
  "ext4_unlink x d c s =
     do { (s1, path, ino) \<leftarrow> unlink_tree d c s;
          i \<leftarrow> inodes s1 ino;
          case i_mode i of
            Regular \<Rightarrow>
              let i' = i\<lparr>i_link_count := i_link_count i - 1\<rparr>; s2 = set_inode ino i' s1 in
              if i_link_count i' = 0 \<and> i_open_count i' = 0 then on_disk (lwext4_rmfile x path) s2 else Some (s2, Inr ())
          | Directory \<Rightarrow> on_disk (lwext4_rmdir x path) s1
          | _ \<Rightarrow> None }"

definition simple_unlink :: "did \<Rightarrow> did \<Rightarrow> 'd vfs \<Rightarrow> ('d vfs \<times> unit os_result) option" where
  "simple_unlink d c s =
     do { (s1, path, ino) \<leftarrow> unlink_tree d c s;
          i \<leftarrow> inodes s1 ino;
          case i_mode i of
            Regular \<Rightarrow> Some (set_inode ino (i\<lparr>i_link_count := i_link_count i - 1\<rparr>) s1, Inr ())
          | Directory \<Rightarrow> Some (s1, Inr ())
          | _ \<Rightarrow> None }"

definition unlink :: "'d ext4_lib \<Rightarrow> did \<Rightarrow> did \<Rightarrow> 'd vfs \<Rightarrow> ('d vfs \<times> unit os_result) option" where
  "unlink x d c s =
     do { e \<leftarrow> dentries s d;
          case d_kind e of
            Ext4Dentry \<Rightarrow> ext4_unlink x d c s
          | SimpleDentry \<Rightarrow> simple_unlink d c s
          | DevDentry \<Rightarrow> Some (s, Inl ENOTDIR) }"

text \<open>A hard link: another entry for the inode; ext4 also tells the disk. A device entry has no \<^verbatim>\<open>link\<close>.\<close>

definition dlink :: "'d ext4_lib \<Rightarrow> did \<Rightarrow> did \<Rightarrow> string \<Rightarrow> 'd vfs \<Rightarrow> ('d vfs \<times> unit os_result) option" where
  "dlink x d par new_name s =
     do { e \<leftarrow> dentries s d;
          rassert (d_kind e \<noteq> DevDentry);
          i \<leftarrow> inodes s (d_inode e);
          let s1 = set_inode (d_inode e) (i\<lparr>i_link_count := i_link_count i + 1\<rparr>) s;
          p \<leftarrow> dentries s1 par;
          path \<leftarrow> cwd_and_name new_name (d_path p);
          let (s2, c) = new_dentry (d_kind e) new_name path (d_inode e) (Some par) s1;
          s3 \<leftarrow> add_child par new_name c s2;
          let s4 = cache_insert path c s3;
          if d_kind e = Ext4Dentry then on_disk (lwext4_link x (d_path e) path) s4 else Some (s4, Inr ()) }"

text \<open>
  \<^verbatim>\<open>rename\<close> is implemented for ext4 only. It holds the locks of both directories, so that unlinking the entry that has the new
  name, which takes the lock of its directory again, never returns.
\<close>

definition rename_overlap :: "did \<Rightarrow> did \<Rightarrow> did \<Rightarrow> 'd vfs \<Rightarrow> ('d vfs \<times> unit os_result) option" where
  "rename_overlap d par ov s =
     do { rassert (ov \<noteq> d \<and> ov \<noteq> par);
          e \<leftarrow> dentries s ov;
          i \<leftarrow> inodes s (d_inode e);
          if i_mode i = Directory \<and> d_child e \<noteq> [] then Some (s, Inl ENOTEMPTY) else None }"

definition rename :: "'d ext4_lib \<Rightarrow> did \<Rightarrow> string \<Rightarrow> did \<Rightarrow> string \<Rightarrow> 'd vfs \<Rightarrow> ('d vfs \<times> unit os_result) option" where
  "rename x d old_name par new_name s =
     do { e \<leftarrow> dentries s d;
          rassert (d_kind e = Ext4Dentry);
          rassert (par \<noteq> d);
          pe \<leftarrow> dentries s par;
          new_path \<leftarrow> cwd_and_name new_name (d_path pe);
          case bt_get (d_child pe) new_name of
            Some ov \<Rightarrow> rename_overlap d par ov s
          | None \<Rightarrow>
              do { c \<leftarrow> bt_get (d_child e) old_name;
                   rassert (c \<noteq> par \<and> c \<noteq> d);
                   ce \<leftarrow> dentries s c;
                   i \<leftarrow> inodes s (d_inode ce);
                   old_path \<leftarrow> cwd_and_name old_name (d_path e);
                   let s1 = set_dentry d (e\<lparr>d_child := bt_remove old_name (d_child e)\<rparr>) s;
                   let s2 = set_dentry c (ce\<lparr>d_name := new_name, d_path := new_path, d_parent := Some par\<rparr>) s1;
                   s3 \<leftarrow> add_child par new_name c s2;
                   let s4 = cache_insert new_path c (cache_remove old_path s3);
                   case i_mode i of
                     Regular \<Rightarrow> on_disk (lwext4_mvfile x old_path new_path) s4
                   | Directory \<Rightarrow> on_disk (lwext4_mvdir x old_path new_path) s4
                   | _ \<Rightarrow> None } }"

definition symbol_link :: "'d ext4_lib \<Rightarrow> time_spec \<Rightarrow> did \<Rightarrow> string \<Rightarrow> string \<Rightarrow> 'd vfs \<Rightarrow> ('d vfs \<times> unit os_result) option" where
  "symbol_link x now d name target s =
     do { e \<leftarrow> dentries s d;
          rassert (d_kind e = Ext4Dentry);
          path \<leftarrow> cwd_and_name name (d_path e);
          (s1, _) \<leftarrow> attach d name path Link (of_nat (length target)) now s;
          on_disk (lwext4_symlink x target path) s1 }"

definition read_symlink :: "'d ext4_lib \<Rightarrow> did \<Rightarrow> nat \<Rightarrow> 'd vfs \<Rightarrow> u8 list os_result option" where
  "read_symlink x d n s =
     do { e \<leftarrow> dentries s d; rassert (d_kind e = Ext4Dentry); Some (lwext4_readlink x (d_path e) n (disk s)) }"

text \<open>
  Opening an entry. \<^verbatim>\<open>O_TRUNC\<close> calls \<open>truncate\<close>, which takes the lock of the file twice (theory \<open>File_Io\<close>); an entry of a simple file system that is not
  a regular file gets its error first. A device ignores the flags.
\<close>

definition dopen :: "did \<Rightarrow> open_flags \<Rightarrow> 'd vfs \<Rightarrow> ('d vfs \<times> nat os_result) option" where
  "dopen d flags s =
     do { e \<leftarrow> dentries s d;
          i \<leftarrow> inodes s (d_inode e);
          let i = i\<lparr>i_open_count := i_open_count i + 1\<rparr>;
          let s1 = set_inode (d_inode e) i s;
          let f = \<lparr>f_pos = 0, dirent_index = 0\<rparr>;
          let opn = (\<lambda>f. Some (s1\<lparr>files := (files s1)(next_file s1 \<mapsto> \<lparr>vf_dentry = d, vf_inode = d_inode e, vf_inner = f\<rparr>), next_file := next_file s1 + 1\<rparr>, Inr (next_file s1)));
          if d_kind e = DevDentry then opn f
          else if contains flags O_TRUNC then
            (if d_kind e = SimpleDentry \<and> i_mode i \<noteq> Regular then Some (s1, Inl EISDIR) else None)
          else if contains flags O_APPEND then
            do { (f', r) \<leftarrow> seek False (End 0) i f; (case r of Inl er \<Rightarrow> Some (s1, Inl er) | Inr _ \<Rightarrow> opn f') }
          else opn f }"

section \<open>Paths\<close>

definition path_to_dentry_cache :: "string \<Rightarrow> 'd vfs \<Rightarrow> did option" where
  "path_to_dentry_cache path s = dcache s path"

fun walk :: "'d ext4_lib \<Rightarrow> time_spec \<Rightarrow> did \<Rightarrow> string list \<Rightarrow> 'd vfs \<Rightarrow> ('d vfs \<times> did option) option" where
  "walk x now pa [] s = Some (s, Some pa)"
| "walk x now pa (n # ns) s =
     do { e \<leftarrow> dentries s pa;
          case bt_get (d_child e) n of
            Some c \<Rightarrow> do { ce \<leftarrow> dentries s c; walk x now c ns (cache_insert (d_path ce) c s) }
          | None \<Rightarrow>
              do { (s', r) \<leftarrow> look_up x now pa n s;
                   case r of Some c \<Rightarrow> walk x now c ns s' | None \<Rightarrow> Some (s', None) } }"

definition root_dentry_of :: "'d vfs \<Rightarrow> did option" where
  "root_dentry_of s = (case mounts s ''/'' of Some (FileSystem f) \<Rightarrow> Some (root_dentry f) | _ \<Rightarrow> None)"

definition path_to_dentry :: "'d ext4_lib \<Rightarrow> time_spec \<Rightarrow> string \<Rightarrow> 'd vfs \<Rightarrow> ('d vfs \<times> did option) option" where
  "path_to_dentry x now path s = (case path_to_dentry_cache path s of
     Some d \<Rightarrow> Some (s, Some d)
   | None \<Rightarrow> do { r \<leftarrow> root_dentry_of s; walk x now r (filter (\<lambda>n. n \<noteq> []) (split_on (CHR ''/'') path)) s })"

end
