(* ===== verification/Dentry_Tree.thy ===== *)
theory Dentry_Tree
  imports Dentry
begin

text \<open>
  The operations of the theory \<open>Dentry\<close> on the tree as a whole: they keep it a tree in which the path of an entry spells the names that
  lead to it, and the cache of paths never answers anything but what the tree has.
\<close>

section \<open>The tree\<close>

text \<open>The entry that the names lead to from an entry.\<close>

fun tree_at :: "(did \<rightharpoonup> dentry) \<Rightarrow> did \<Rightarrow> string list \<Rightarrow> did option" where
  "tree_at T d [] = (if T d = None then None else Some d)"
| "tree_at T d (n # ns) = (case T d of None \<Rightarrow> None | Some e \<Rightarrow> (case bt_get (d_child e) n of None \<Rightarrow> None | Some c \<Rightarrow> tree_at T c ns))"

definition names_of :: "string \<Rightarrow> string list" where
  "names_of path = filter (\<lambda>n. n \<noteq> []) (split_on (CHR ''/'') path)"

definition plain_name :: "string \<Rightarrow> bool" where
  "plain_name n \<longleftrightarrow> name_ok n \<and> format_path n = n"

text \<open>
  \<open>links_ok\<close>: every child is an entry that knows its parent, its name and its path; a device, which has no children, is given
  the path of its directory and its name without a slash between them. \<open>vfs_wf\<close>: the tree has a root, numbers are
  fresh, and the cache has an entry of the tree under the path of that entry.
\<close>

definition child_path :: "dentry \<Rightarrow> dentry \<Rightarrow> string \<Rightarrow> string" where
  "child_path e ce n = (if d_kind ce = DevDentry then d_path e @ n else push_path (d_path e) n)"

lemma child_path_upd [simp]:
  "child_path (e\<lparr>d_child := y\<rparr>) ce n = child_path e ce n" "child_path e (ce\<lparr>d_child := y\<rparr>) n = child_path e ce n" "child_path e (ce\<lparr>d_parent := q\<rparr>) n = child_path e ce n"
  by (simp_all add: child_path_def)

lemma child_path_cong: "d_path f = d_path f' \<Longrightarrow> child_path f ce n = child_path f' ce n"
  by (simp add: child_path_def)

definition links_ok :: "(did \<rightharpoonup> dentry) \<Rightarrow> bool" where
  "links_ok T \<longleftrightarrow> (\<forall>d e. T d = Some e \<longrightarrow> bt_wf (d_child e) \<and> (d_kind e = DevDentry \<longrightarrow> d_child e = []) \<and>
     (\<forall>n c. bt_get (d_child e) n = Some c \<longrightarrow> plain_name n \<and>
        (\<exists>ce. T c = Some ce \<and> d_path ce = child_path e ce n \<and> d_name ce = n \<and> d_parent ce = Some d)))"

definition tree_wf :: "(did \<rightharpoonup> dentry) \<Rightarrow> (string \<rightharpoonup> did) \<Rightarrow> did \<Rightarrow> bool" where
  "tree_wf T C r \<longleftrightarrow> links_ok T \<and> (\<exists>e. T r = Some e \<and> d_path e = ''/'' \<and> d_parent e = None \<and> d_kind e \<noteq> DevDentry) \<and>
     (\<forall>p d. C p = Some d \<longrightarrow> (\<exists>ns e. tree_at T r ns = Some d \<and> T d = Some e \<and> d_path e = p))"

definition vfs_wf :: "'d vfs \<Rightarrow> bool" where
  "vfs_wf s \<longleftrightarrow> (\<exists>r. root_dentry_of s = Some r \<and> tree_wf (dentries s) (dcache s) r) \<and>
     (\<forall>d. next_did s \<le> d \<longrightarrow> dentries s d = None) \<and> (\<forall>i. next_ino s \<le> i \<longrightarrow> inodes s i = None) \<and>
     (\<forall>d e. dentries s d = Some e \<longrightarrow> inodes s (d_inode e) \<noteq> None)"

lemma names_of_abs: "\<forall>n \<in> set ns. name_ok n \<Longrightarrow> names_of (abs_path ns) = ns"
proof (cases "ns = []")
  case True
  then show ?thesis by (simp add: names_of_def abs_path_def)
next
  case False
  assume ok: "\<forall>n \<in> set ns. name_ok n"
  then have "abs_path ns = concat (map ((#) (CHR ''/'')) ns)" using False by (simp add: abs_path_def)
  then show ?thesis using split_on_names [OF ok False] filter_names [OF ok] by (simp add: names_of_def)
qed

lemma abs_path_inj: "\<forall>n \<in> set ns. name_ok n \<Longrightarrow> \<forall>n \<in> set ms. name_ok n \<Longrightarrow> abs_path ns = abs_path ms \<Longrightarrow> ns = ms"
  using names_of_abs by metis

lemma plain_names: "\<forall>n \<in> set ns. plain_name n \<Longrightarrow> \<forall>n \<in> set ns. name_ok n"
  by (simp add: plain_name_def)

lemma tree_at_append: "tree_at T r (ns @ ms) = (case tree_at T r ns of None \<Rightarrow> None | Some d \<Rightarrow> tree_at T d ms)"
proof (induction ns arbitrary: r)
  case Nil
  then show ?case by (cases ms) auto
qed (auto split: option.splits)

lemma tree_at_entry: "tree_at T r ns = Some d \<Longrightarrow> T d \<noteq> None"
  by (induction ns arbitrary: r) (auto split: option.splits if_splits)

lemma tree_at_snoc: "T d = Some e \<Longrightarrow> tree_at T r ns = Some d \<Longrightarrow> bt_get (d_child e) n = Some c \<Longrightarrow> T c \<noteq> None \<Longrightarrow> tree_at T r (ns @ [n]) = Some c"
  by (simp add: tree_at_append)

lemma links_childD:
  assumes "links_ok T" "T d = Some e" "bt_get (d_child e) n = Some c"
  obtains ce where "plain_name n" "T c = Some ce" "d_path ce = child_path e ce n" "d_name ce = n" "d_parent ce = Some d"
  using assms unfolding links_ok_def by blast

lemma links_entryD:
  assumes "links_ok T" "T d = Some e"
  shows "bt_wf (d_child e)" "d_kind e = DevDentry \<Longrightarrow> d_child e = []"
  using assms unfolding links_ok_def by blast+

text \<open>The path of an entry spells the names that lead to it.\<close>

lemma tree_at_path:
  assumes "links_ok T" "T r = Some er" "d_path er = abs_path ps" "\<forall>n \<in> set ps. plain_name n" "d_kind er \<noteq> DevDentry"
    "tree_at T r ns = Some d" "T d = Some e"
  shows "(d_kind e \<noteq> DevDentry \<longrightarrow> d_path e = abs_path (ps @ ns)) \<and> (\<forall>n \<in> set ns. plain_name n)"
  using assms(2-7)
proof (induction ns arbitrary: r er ps)
  case Nil
  then show ?case by (auto split: if_splits)
next
  case (Cons n ns)
  obtain c where c: "bt_get (d_child er) n = Some c" "tree_at T c ns = Some d"
    using Cons.prems(1,5) by (auto split: option.splits)
  obtain ce where ce: "plain_name n" "T c = Some ce" "d_path ce = child_path er ce n"
    using links_childD [OF assms(1) Cons.prems(1) c(1)] by metis
  show ?case
  proof (cases "d_kind ce = DevDentry")
    case True
    then have "ns = [] \<and> e = ce" using links_entryD(2) [OF assms(1) ce(2)] c(2) ce(2) Cons.prems(6) by (cases ns) (auto simp: bt_get_def split: if_splits)
    then show ?thesis using True ce(1) by simp
  next
    case False
    have "d_path ce = abs_path (ps @ [n])" using ce(3) Cons.prems(2) push_path_name [OF plain_names [OF Cons.prems(3)]] False by (simp add: child_path_def)
    then show ?thesis using Cons.IH [OF ce(2) _ _ False c(2) Cons.prems(6), of "ps @ [n]"] Cons.prems(3) ce(1) by simp
  qed
qed

lemma tree_wf_path:
  assumes "tree_wf T C r" "tree_at T r ns = Some d" "T d = Some e"
  shows "d_kind e \<noteq> DevDentry \<Longrightarrow> d_path e = abs_path ns" "\<forall>n \<in> set ns. plain_name n"
proof -
  obtain er where "T r = Some er" "d_path er = abs_path []" and k: "d_kind er \<noteq> DevDentry" and l: "links_ok T"
    using assms(1) by (auto simp: tree_wf_def abs_path_def)
  from tree_at_path [OF l this(1,2) _ k assms(2,3)] show "d_kind e \<noteq> DevDentry \<Longrightarrow> d_path e = abs_path ns" "\<forall>n \<in> set ns. plain_name n" by simp_all
qed

section \<open>Changes of the tree\<close>

lemma tree_wf_cache:
  assumes "tree_wf T C r" "tree_at T r ns = Some d" "T d = Some e"
  shows "tree_wf T (C(d_path e \<mapsto> d)) r"
  using assms unfolding tree_wf_def by auto

text \<open>A new entry \<open>c\<close> without children under the name \<open>n\<close>.\<close>

lemma links_add:
  assumes ok: "links_ok T" and d: "T d = Some e" "d_kind e \<noteq> DevDentry" and c: "T c = None"
    and ce: "d_child ce = []" "d_path ce = child_path e ce n" "d_name ce = n" "d_parent ce = Some d" "plain_name n"
  shows "links_ok (T(c \<mapsto> ce, d \<mapsto> e\<lparr>d_child := bt_insert n c (d_child e)\<rparr>))"
  unfolding links_ok_def
proof (intro allI impI conjI)
  let ?T = "T(c \<mapsto> ce, d \<mapsto> e\<lparr>d_child := bt_insert n c (d_child e)\<rparr>)"
  have dc: "d \<noteq> c" using d(1) c by auto
  note wf = links_entryD [OF ok]
  fix b f assume b: "?T b = Some f"
  consider "b = d" "f = e\<lparr>d_child := bt_insert n c (d_child e)\<rparr>" | "b = c" "f = ce" "b \<noteq> d" | "b \<noteq> d" "b \<noteq> c" "T b = Some f"
    using b by (auto split: if_splits)
  note cs = this
  show "bt_wf (d_child f)" using cs wf(1) [OF d(1)] wf(1) [of b f] ce(1) by cases auto
  show "d_child f = []" if "d_kind f = DevDentry" using cs that wf(2) [of b f] ce(1) d(2) by cases auto
  fix m k assume k: "bt_get (d_child f) m = Some k"
  have old: "plain_name m \<and> (\<exists>ke. ?T k = Some ke \<and> d_path ke = child_path f' ke m \<and> d_name ke = m \<and> d_parent ke = Some b)"
    if o: "T b = Some f'" "bt_get (d_child f') m = Some k" for f'
  proof -
    obtain ke where ke: "plain_name m" "T k = Some ke" "d_path ke = child_path f' ke m" "d_name ke = m" "d_parent ke = Some b"
      by (rule links_childD [OF ok o])
    then have "k \<noteq> c" using c by auto
    then show ?thesis using ke d(1) by (cases "k = d") auto
  qed
  have "plain_name m \<and> (\<exists>ke. ?T k = Some ke \<and> d_path ke = child_path f ke m \<and> d_name ke = m \<and> d_parent ke = Some b)"
    using cs
  proof cases
    case 1
    show ?thesis
    proof (cases "m = n")
      case True
      then show ?thesis using 1 k wf(1) [OF d(1)] ce dc by auto
    next
      case False
      then show ?thesis using 1 k wf(1) [OF d(1)] old [of e] d(1) by simp
    qed
  next
    case 2
    then show ?thesis using k ce(1) by (simp add: bt_get_def)
  next
    case 3
    then show ?thesis using old [of f] k by simp
  qed
  then show "plain_name m" "\<exists>ke. ?T k = Some ke \<and> d_path ke = child_path f ke m \<and> d_name ke = m \<and> d_parent ke = Some b" by blast+
qed

text \<open>What the new entry may hide: nothing, or one entry \<open>b\<close> without children, which is not where we look.\<close>

definition hides :: "(did \<rightharpoonup> dentry) \<Rightarrow> dentry \<Rightarrow> string \<Rightarrow> did \<Rightarrow> bool" where
  "hides T e n z \<longleftrightarrow> (\<exists>b. bt_get (d_child e) n = Some b \<and> (z = b \<or> \<not> (\<exists>be. T b = Some be \<and> d_child be = [])))"

lemma tree_at_leaf: "T b = Some be \<Longrightarrow> d_child be = [] \<Longrightarrow> tree_at T b ns = Some z \<Longrightarrow> z = b"
  by (cases ns) (auto simp: bt_get_def split: if_splits)

lemma tree_at_add:
  assumes d: "T d = Some e" "bt_wf (d_child e)" "T c = None" and h: "\<not> hides T e n z" and z: "tree_at T r ns = Some z"
  shows "tree_at (T(c \<mapsto> ce, d \<mapsto> e\<lparr>d_child := bt_insert n c (d_child e)\<rparr>)) r ns = Some z"
  using z
proof (induction ns arbitrary: r)
  case Nil
  then show ?case by (auto split: if_splits)
next
  case (Cons m ns)
  then obtain er k where k: "T r = Some er" "bt_get (d_child er) m = Some k" "tree_at T k ns = Some z" by (auto split: option.splits)
  have "r \<noteq> c" using k(1) d(3) by auto
  moreover have "\<not> (r = d \<and> m = n)" using h k d(1) tree_at_leaf [of T k _ ns z] by (auto simp: hides_def)
  ultimately show ?case using Cons.IH [OF k(3)] k(1,2) d(1,2) by (cases "r = d") auto
qed

lemma tree_wf_add:
  assumes wf: "tree_wf T C r" and d: "T d = Some e" "d_kind e \<noteq> DevDentry" "tree_at T r ms = Some d" and c: "T c = None"
    and h: "\<And>z. hides T e n z \<Longrightarrow> z \<noteq> d \<and> (\<forall>p. C p = Some z \<longrightarrow> p = d_path ce)"
    and ce: "d_child ce = []" "d_path ce = child_path e ce n" "d_name ce = n" "d_parent ce = Some d" "plain_name n"
  defines "T' \<equiv> T(c \<mapsto> ce, d \<mapsto> e\<lparr>d_child := bt_insert n c (d_child e)\<rparr>)"
  shows "tree_wf T' (C(d_path ce \<mapsto> c)) r" "tree_at T' r (ms @ [n]) = Some c"
    "\<And>ns z. tree_at T r ns = Some z \<Longrightarrow> \<not> hides T e n z \<Longrightarrow> tree_at T' r ns = Some z"
proof -
  have l: "links_ok T" using wf by (simp add: tree_wf_def)
  have bw: "bt_wf (d_child e)" by (rule links_entryD(1) [OF l d(1)])
  show grow: "tree_at T' r ns = Some z" if "tree_at T r ns = Some z" "\<not> hides T e n z" for ns z
    unfolding T'_def by (rule tree_at_add [OF d(1) bw c that(2,1)])
  have dc: "d \<noteq> c" using d(1) c by auto
  have c': "T' c = Some ce" using dc by (simp add: T'_def)
  show at: "tree_at T' r (ms @ [n]) = Some c"
  proof -
    have "tree_at T' r ms = Some d" using grow [OF d(3)] h [of d] by auto
    then show ?thesis using c' bw dc by (simp add: tree_at_append) (simp add: T'_def)
  qed
  obtain er where er: "T r = Some er" "d_path er = ''/''" "d_parent er = None" "d_kind er \<noteq> DevDentry" using wf by (auto simp: tree_wf_def)
  have "links_ok T'" unfolding T'_def by (rule links_add [OF l d(1,2) c ce])
  moreover have "\<exists>e. T' r = Some e \<and> d_path e = ''/'' \<and> d_parent e = None \<and> d_kind e \<noteq> DevDentry"
    using er c d(1) by (auto simp: T'_def)
  moreover have "\<exists>ns e. tree_at T' r ns = Some z \<and> T' z = Some e \<and> d_path e = p" if p: "(C(d_path ce \<mapsto> c)) p = Some z" for p z
  proof (cases "p = d_path ce")
    case True
    then show ?thesis using that at c' by auto
  next
    case False
    then have cp: "C p = Some z" using that by simp
    then obtain ns ze where z: "tree_at T r ns = Some z" "T z = Some ze" "d_path ze = p" using wf unfolding tree_wf_def by blast
    have "tree_at T' r ns = Some z" using grow [OF z(1)] h [of z] cp False by auto
    moreover have "\<exists>e. T' z = Some e \<and> d_path e = p" using z c d(1) by (auto simp: T'_def)
    ultimately show ?thesis by blast
  qed
  ultimately show "tree_wf T' (C(d_path ce \<mapsto> c)) r" unfolding tree_wf_def by blast
qed

text \<open>The entry \<open>c\<close>, which has no children, leaves its directory.\<close>

lemma only_child:
  assumes "links_ok T" "T b = Some f" "bt_get (d_child f) m = Some c" "T c = Some ce"
  shows "d_parent ce = Some b" "d_name ce = m"
  using links_childD [OF assms(1-3)] assms(4) by (metis option.inject)+

lemma links_remove:
  assumes ok: "links_ok T" and d: "T d = Some e" "bt_get (d_child e) n = Some c" and c: "T c = Some ce" "d \<noteq> c"
  shows "links_ok (T(c \<mapsto> ce\<lparr>d_parent := None\<rparr>, d \<mapsto> e\<lparr>d_child := bt_remove n (d_child e)\<rparr>))"
  unfolding links_ok_def
proof (intro allI impI conjI)
  let ?T = "T(c \<mapsto> ce\<lparr>d_parent := None\<rparr>, d \<mapsto> e\<lparr>d_child := bt_remove n (d_child e)\<rparr>)"
  note wf = links_entryD [OF ok]
  fix b f assume b: "?T b = Some f"
  obtain f' where f': "T b = Some f'" "d_path f = d_path f'" "d_kind f = d_kind f'" "d_child f = (if b = d then bt_remove n (d_child f') else d_child f')"
    using b d(1) c by (auto split: if_splits)
  show "bt_wf (d_child f)" using wf(1) [OF f'(1)] f'(4) by simp
  show "d_child f = []" if "d_kind f = DevDentry" using that wf(2) [OF f'(1)] f'(3,4) by (simp add: bt_remove_def)
  fix m k assume k: "bt_get (d_child f) m = Some k"
  have k': "bt_get (d_child f') m = Some k" "b = d \<Longrightarrow> m \<noteq> n" using k f'(4) by (auto split: if_splits)
  obtain ke where ke: "plain_name m" "T k = Some ke" "d_path ke = child_path f' ke m" "d_name ke = m" "d_parent ke = Some b"
    by (rule links_childD [OF ok f'(1) k'(1)])
  have "k \<noteq> c"
  proof
    assume "k = c"
    then have "d_parent ce = Some b" "d_name ce = m" using ke c(1) by auto
    then show False using only_child [OF ok d c(1)] k'(2) by auto
  qed
  then show "plain_name m" "\<exists>ke. ?T k = Some ke \<and> d_path ke = child_path f ke m \<and> d_name ke = m \<and> d_parent ke = Some b"
    using ke d(1) child_path_cong [OF f'(2)] by (cases "k = d"; auto)+
qed

lemma tree_at_remove:
  assumes d: "T d = Some e" "bt_get (d_child e) n = Some c" and c: "T c = Some ce" "d_child ce = []" "d \<noteq> c"
    and z: "tree_at T r ns = Some z" "z \<noteq> c"
  shows "tree_at (T(c \<mapsto> ce\<lparr>d_parent := None\<rparr>, d \<mapsto> e\<lparr>d_child := bt_remove n (d_child e)\<rparr>)) r ns = Some z"
  using z
proof (induction ns arbitrary: r)
  case Nil
  then show ?case by (auto split: if_splits)
next
  case (Cons m ns)
  then obtain er k where k: "T r = Some er" "bt_get (d_child er) m = Some k" "tree_at T k ns = Some z" by (auto split: option.splits)
  have no: "tree_at T c ns \<noteq> Some z" using tree_at_leaf [of T c ce ns z] c(1,2) Cons.prems(2) by auto
  have "r \<noteq> c" using k(1,2) c by (auto simp: bt_get_def)
  moreover have "\<not> (r = d \<and> m = n)" using k d no by auto
  ultimately show ?case using Cons.IH [OF k(3) Cons.prems(2)] k(1,2) d(1) by auto
qed

lemma tree_wf_remove:
  assumes wf: "tree_wf T C r" and d: "T d = Some e" "bt_get (d_child e) n = Some c" "tree_at T r ms = Some d"
    and c: "T c = Some ce" "d_child ce = []" "d \<noteq> c"
  defines "T' \<equiv> T(c \<mapsto> ce\<lparr>d_parent := None\<rparr>, d \<mapsto> e\<lparr>d_child := bt_remove n (d_child e)\<rparr>)"
  shows "tree_wf T' (C(d_path ce := None)) r" "tree_at T' r ms = Some d" "\<And>ns z. tree_at T r ns = Some z \<Longrightarrow> z \<noteq> c \<Longrightarrow> tree_at T' r ns = Some z"
proof -
  have l: "links_ok T" using wf by (simp add: tree_wf_def)
  show keep: "tree_at T' r ns = Some z" if "tree_at T r ns = Some z" "z \<noteq> c" for ns z
    unfolding T'_def by (rule tree_at_remove [OF d(1,2) c that])
  show "tree_at T' r ms = Some d" by (rule keep [OF d(3) c(3)])
  obtain er where er: "T r = Some er" "d_path er = ''/''" "d_parent er = None" "d_kind er \<noteq> DevDentry" using wf by (auto simp: tree_wf_def)
  have "links_ok T'" unfolding T'_def by (rule links_remove [OF l d(1,2) c(1,3)])
  moreover have "\<exists>e. T' r = Some e \<and> d_path e = ''/'' \<and> d_parent e = None \<and> d_kind e \<noteq> DevDentry" using er d(1) c(1) by (auto simp: T'_def)
  moreover have "\<exists>ns e. tree_at T' r ns = Some z \<and> T' z = Some e \<and> d_path e = p" if p: "(C(d_path ce := None)) p = Some z" for p z
  proof -
    have pc: "p \<noteq> d_path ce" "C p = Some z" using p by (auto split: if_splits)
    then obtain ns ze where ns: "tree_at T r ns = Some z" "T z = Some ze" "d_path ze = p" using wf unfolding tree_wf_def by blast
    have "z \<noteq> c" using ns(2,3) c(1) pc(1) by auto
    moreover have "\<exists>e. T' z = Some e \<and> d_path e = p" using ns(2,3) c(1) d(1) by (auto simp: T'_def)
    ultimately show ?thesis using ns(1) keep by blast
  qed
  ultimately show "tree_wf T' (C(d_path ce := None)) r" unfolding tree_wf_def by blast
qed

section \<open>Operations\<close>

lemma vfs_wfD:
  assumes "vfs_wf s"
  obtains r where "root_dentry_of s = Some r" "tree_wf (dentries s) (dcache s) r" "dentries s (next_did s) = None"
  using assms unfolding vfs_wf_def by blast

text \<open>What an operation may do to the rest: the tree only grows, and the root stays.\<close>

definition grows :: "'d vfs \<Rightarrow> 'd vfs \<Rightarrow> bool" where
  "grows s s' \<longleftrightarrow> vfs_wf s' \<and> root_dentry_of s' = root_dentry_of s \<and>
     (\<forall>r ns z. root_dentry_of s = Some r \<longrightarrow> tree_at (dentries s) r ns = Some z \<longrightarrow> tree_at (dentries s') r ns = Some z)"

lemma grows_refl: "vfs_wf s \<Longrightarrow> grows s s"
  by (simp add: grows_def)

lemma grows_trans: "grows s s' \<Longrightarrow> grows s' s'' \<Longrightarrow> grows s s''"
  by (simp add: grows_def)

lemma grows_cache:
  assumes "vfs_wf s" "root_dentry_of s = Some r" "tree_at (dentries s) r ns = Some d" "dentries s d = Some e"
  shows "grows s (cache_insert (d_path e) d s)"
proof -
  have "tree_wf (dentries s) (dcache s) r" using assms(1,2) unfolding vfs_wf_def by auto
  then have "tree_wf (dentries s) ((dcache s)(d_path e \<mapsto> d)) r" using assms(3,4) by (rule tree_wf_cache)
  then show ?thesis using assms(1,2) by (simp add: grows_def vfs_wf_def cache_insert_def root_dentry_of_def)
qed

text \<open>A new entry, however it is made; the entry that it hides, if any, has no children and was cached under the same path.\<close>

lemma vfs_add:
  assumes wf: "vfs_wf s" "root_dentry_of s = Some r" and d: "dentries s d = Some e" "tree_at (dentries s) r ms = Some d" "d_kind e \<noteq> DevDentry"
    and h: "\<And>z. hides (dentries s) e n z \<Longrightarrow> z \<noteq> d \<and> (\<forall>p. dcache s p = Some z \<longrightarrow> p = d_path ce)"
    and ce: "d_child ce = []" "d_path ce = child_path e ce n" "d_name ce = n" "d_parent ce = Some d" "plain_name n"
    and s': "dentries s' = (dentries s)(c \<mapsto> ce, d \<mapsto> e\<lparr>d_child := bt_insert n c (d_child e)\<rparr>)" "dcache s' = (dcache s)(d_path ce \<mapsto> c)" "root_dentry_of s' = Some r"
      "c = next_did s" "next_did s' = next_did s + 1"
    and i: "\<forall>i. next_ino s' \<le> i \<longrightarrow> inodes s' i = None" "inodes s' (d_inode ce) \<noteq> None" "\<forall>j. inodes s j \<noteq> None \<longrightarrow> inodes s' j \<noteq> None"
  shows "vfs_wf s'" "tree_at (dentries s') r (ms @ [n]) = Some c"
    "\<And>ns z. tree_at (dentries s) r ns = Some z \<Longrightarrow> \<not> hides (dentries s) e n z \<Longrightarrow> tree_at (dentries s') r ns = Some z"
proof -
  have t: "tree_wf (dentries s) (dcache s) r" and fr: "\<And>d. next_did s \<le> d \<Longrightarrow> dentries s d = None"
    and ino: "\<And>d e. dentries s d = Some e \<Longrightarrow> inodes s (d_inode e) \<noteq> None"
    using wf unfolding vfs_wf_def by auto
  have c: "dentries s c = None" using fr s'(4) by simp
  have a: "tree_wf (dentries s') (dcache s') r" "tree_at (dentries s') r (ms @ [n]) = Some c"
    "\<And>ns z. tree_at (dentries s) r ns = Some z \<Longrightarrow> \<not> hides (dentries s) e n z \<Longrightarrow> tree_at (dentries s') r ns = Some z"
    using tree_wf_add [OF t d(1,3,2) c h ce] unfolding s'(1,2) by blast+
  have "d < next_did s" using fr [of d] d(1) by (cases "next_did s \<le> d") auto
  then have "\<forall>z. next_did s' \<le> z \<longrightarrow> dentries s' z = None" using fr s' by auto
  moreover have "inodes s' (d_inode f) \<noteq> None" if "dentries s' z = Some f" for z f
    using that s'(1) ino d(1) i(2,3) by (cases "z = d"; cases "z = c"; fastforce)
  ultimately show "vfs_wf s'" using a(1) s'(3) i(1) unfolding vfs_wf_def by auto
  show "tree_at (dentries s') r (ms @ [n]) = Some c" by (rule a(2))
  show "\<And>ns z. tree_at (dentries s) r ns = Some z \<Longrightarrow> \<not> hides (dentries s) e n z \<Longrightarrow> tree_at (dentries s') r ns = Some z" by (rule a(3))
qed

lemma grows_add:
  assumes wf: "vfs_wf s" "root_dentry_of s = Some r" and d: "dentries s d = Some e" "bt_get (d_child e) n = None" "tree_at (dentries s) r ms = Some d" "d_kind e \<noteq> DevDentry"
    and ce: "d_child ce = []" "d_path ce = child_path e ce n" "d_name ce = n" "d_parent ce = Some d" "plain_name n"
    and s': "dentries s' = (dentries s)(c \<mapsto> ce, d \<mapsto> e\<lparr>d_child := bt_insert n c (d_child e)\<rparr>)" "dcache s' = (dcache s)(d_path ce \<mapsto> c)" "mounts s' = mounts s"
      "c = next_did s" "next_did s' = next_did s + 1"
    and i: "\<forall>i. next_ino s' \<le> i \<longrightarrow> inodes s' i = None" "inodes s' (d_inode ce) \<noteq> None" "\<forall>j. inodes s j \<noteq> None \<longrightarrow> inodes s' j \<noteq> None"
  shows "grows s s'" "tree_at (dentries s') r (ms @ [n]) = Some c"
proof -
  have rt: "root_dentry_of s' = Some r" using s'(3) wf(2) by (simp add: root_dentry_of_def)
  have h: "\<not> hides (dentries s) e n z" for z using d(2) by (simp add: hides_def)
  note a = vfs_add [OF wf d(1,3,4) _ ce s'(1,2) rt s'(4,5) i]
  show "grows s s'" using a(1,3) h rt wf(2) by (simp add: grows_def)
  show "tree_at (dentries s') r (ms @ [n]) = Some c" using a(2) h by simp
qed

lemma cwd_and_name_plain: "plain_name n \<Longrightarrow> cwd_and_name n p = Some (push_path p n)"
  by (simp add: cwd_and_name_def plain_name_def name_ok_def)

lemma attach_spec:
  assumes wf: "vfs_wf s" "root_dentry_of s = Some r" and d: "dentries s d = Some e" "bt_get (d_child e) n = None" "tree_at (dentries s) r ms = Some d" "d_kind e \<noteq> DevDentry"
    and n: "plain_name n"
  shows "\<exists>s' c. attach d n (push_path (d_path e) n) mode sz now s = Some (s', Some c) \<and> grows s s' \<and> tree_at (dentries s') r (ms @ [n]) = Some c \<and>
    c = next_did s \<and> disk s' = disk s \<and> map_option i_mode (inode_of c s') = Some mode \<and>
    (\<exists>ce. dentries s' c = Some ce \<and> d_kind ce = Ext4Dentry \<and> d_path ce = push_path (d_path e) n \<and> d_child ce = [])"
proof -
  let ?c = "next_did s"
  let ?ce = "\<lparr>d_kind = Ext4Dentry, d_name = n, d_path = push_path (d_path e) n, d_inode = next_ino s, d_parent = Some d, d_child = []\<rparr>"
  have f: "format_path n = n" using n by (simp add: plain_name_def)
  have "d \<noteq> ?c" using d(1) wf(1) unfolding vfs_wf_def by auto
  then obtain s' where s': "attach d n (push_path (d_path e) n) mode sz now s = Some (s', Some ?c)"
    "dentries s' = (dentries s)(?c \<mapsto> ?ce, d \<mapsto> e\<lparr>d_child := bt_insert n ?c (d_child e)\<rparr>)" "dcache s' = (dcache s)(d_path ?ce \<mapsto> ?c)" "mounts s' = mounts s"
    "next_did s' = next_did s + 1" "inodes s' = (inodes s)(next_ino s \<mapsto> inode_meta_new (next_ino s) mode sz now now now)" "next_ino s' = next_ino s + 1" "disk s' = disk s"
    using d(1) f by (auto simp: attach_def new_inode_def new_dentry_def add_child_def set_dentry_def cache_insert_def Let_def)
  have "\<forall>i. next_ino s' \<le> i \<longrightarrow> inodes s' i = None" using wf(1) s'(6,7) by (auto simp: vfs_wf_def)
  then have g: "grows s s'" "tree_at (dentries s') r (ms @ [n]) = Some ?c"
    using grows_add [OF wf d, of ?ce s' ?c] s' n by (auto simp: child_path_def)
  then show ?thesis using s' \<open>d \<noteq> ?c\<close> by (auto simp: inode_of_def inode_meta_new_def)
qed

lemma finish_create_spec:
  assumes wf: "vfs_wf s" "root_dentry_of s = Some r" and d: "dentries s d = Some e" "bt_get (d_child e) n = None" "tree_at (dentries s) r ms = Some d" "d_kind e \<noteq> DevDentry"
    and n: "plain_name n" and p: "p = push_path (d_path e) n" and k: "k \<noteq> DevDentry"
  shows "\<exists>s' c. finish_create k d n p mode sz now s = Some (s', Inr c) \<and> grows s s' \<and> tree_at (dentries s') r (ms @ [n]) = Some c \<and>
    dcache s' p = Some c \<and> disk s' = disk s \<and> inode_of c s' = Some (inode_meta_new (next_ino s) mode sz now now now) \<and>
    (\<exists>ce. dentries s' c = Some ce \<and> d_kind ce = k \<and> d_child ce = [] \<and> d_path ce = p \<and> d_name ce = n \<and> d_parent ce = Some d) \<and> files s' = files s"
proof -
  let ?c = "next_did s"
  let ?ce = "\<lparr>d_kind = k, d_name = n, d_path = p, d_inode = next_ino s, d_parent = Some d, d_child = []\<rparr>"
  have t: "tree_wf (dentries s) (dcache s) r" using wf by (auto simp: vfs_wf_def)
  have ms: "\<forall>n \<in> set ms. name_ok n" "d_path e = abs_path ms" using tree_wf_path [OF t d(3,1)] d(4) plain_names by auto
  have "name_ok n" using n by (simp add: plain_name_def)
  then have f: "dentry_name p = n" using p ms push_path_name [OF ms(1)] dentry_name_abs [of "ms @ [n]"] by simp
  have n': "format_path n = n" using n by (simp add: plain_name_def)
  have "d \<noteq> ?c" using d(1) wf(1) unfolding vfs_wf_def by auto
  then obtain s' where s': "finish_create k d n p mode sz now s = Some (s', Inr ?c)"
    "dentries s' = (dentries s)(?c \<mapsto> ?ce, d \<mapsto> e\<lparr>d_child := bt_insert n ?c (d_child e)\<rparr>)" "dcache s' = (dcache s)(d_path ?ce \<mapsto> ?c)" "mounts s' = mounts s"
    "next_did s' = next_did s + 1" "inodes s' = (inodes s)(next_ino s \<mapsto> inode_meta_new (next_ino s) mode sz now now now)" "next_ino s' = next_ino s + 1" "disk s' = disk s" "files s' = files s"
    using d(1) f n' by (auto simp: finish_create_def new_inode_def new_dentry_def add_child_def set_dentry_def cache_insert_def Let_def fun_upd_twist)
  have "\<forall>i. next_ino s' \<le> i \<longrightarrow> inodes s' i = None" using wf(1) s'(6,7) by (auto simp: vfs_wf_def)
  then have g: "grows s s'" "tree_at (dentries s') r (ms @ [n]) = Some ?c"
    using grows_add [OF wf d, of ?ce s' ?c] s' n p k by (auto simp: child_path_def)
  then show ?thesis using s' \<open>d \<noteq> ?c\<close> by (auto simp: inode_of_def)
qed

lemma grows_disk: "vfs_wf s \<Longrightarrow> grows s (s\<lparr>disk := dk\<rparr>)"
  by (simp add: grows_def vfs_wf_def root_dentry_of_def)

lemma look_up_spec:
  assumes wf: "vfs_wf s" "root_dentry_of s = Some r" and d: "dentries s d = Some e" "bt_get (d_child e) n = None" "tree_at (dentries s) r ms = Some d"
    and n: "plain_name n"
  shows "\<exists>s' res. look_up x now d n s = Some (s', res) \<and> grows s s' \<and> (\<forall>c. res = Some c \<longrightarrow> tree_at (dentries s') r (ms @ [n]) = Some c)"
proof (cases "d_kind e")
  case Ext4Dentry
  define p where "p = push_path (d_path e) n"
  have wfd: "vfs_wf (s\<lparr>disk := dk\<rparr>)" "root_dentry_of (s\<lparr>disk := dk\<rparr>) = Some r" for dk
    using wf by (simp_all add: vfs_wf_def root_dentry_of_def)
  have att: "\<exists>s' c. attach d n p mode sz now (s\<lparr>disk := dk\<rparr>) = Some (s', Some c) \<and> grows s s' \<and> tree_at (dentries s') r (ms @ [n]) = Some c" for mode sz dk
    using attach_spec [OF wfd, where d = d and e = e and n = n and ms = ms] d n Ext4Dentry grows_trans [OF grows_disk [OF wf(1)]] unfolding p_def by fastforce
  have att0: "\<exists>s' c. attach d n p mode sz now s = Some (s', Some c) \<and> grows s s' \<and> tree_at (dentries s') r (ms @ [n]) = Some c" for mode sz
    using att [of mode sz "disk s"] by simp
  obtain dk fr where fo: "file_open x p O_RDWR (disk s) = (dk, fr)" by (cases "file_open x p O_RDWR (disk s)")
  have none: "\<exists>s' res. Some (s\<lparr>disk := dk\<rparr>, None) = Some (s', res) \<and> grows s s' \<and> (\<forall>c. res = Some c \<longrightarrow> tree_at (dentries s') r (ms @ [n]) = Some c)" for dk
    using grows_disk [OF wf(1)] by simp
  have eq: "look_up x now d n s =
    (if file_exists x p (disk s) then (case fr of Inr sz \<Rightarrow> attach d n p Regular sz now (s\<lparr>disk := dk\<rparr>) | Inl _ \<Rightarrow> Some (s\<lparr>disk := dk\<rparr>, None))
     else if dir_exists x p (disk s) then (case dir_open x p (disk s) of Inr _ \<Rightarrow> attach d n p Regular 0 now s | Inl _ \<Rightarrow> Some (s, None))
     else if symlink_exists x p (disk s) then attach d n p Link 0 now s else Some (s, None))"
    using d(1,2) Ext4Dentry cwd_and_name_plain [OF n] fo unfolding p_def by (auto simp: look_up_def ext4_look_up_def split: sum.splits)
  show ?thesis
    unfolding eq using att [of Regular _ dk] att0 none [of dk] none [of "disk s"] by (auto split: sum.splits) (metis option.inject)+
next
  case SimpleDentry
  then show ?thesis using d(1,2) grows_refl [OF wf(1)] by (simp add: look_up_def)
next
  case DevDentry
  then show ?thesis using d(1) grows_refl [OF wf(1)] by (simp add: look_up_def)
qed

section \<open>Looking up a path\<close>

lemma tree_at_start: "tree_at T c ns \<noteq> None \<Longrightarrow> T c \<noteq> None"
  by (cases ns) (auto split: option.splits if_splits)

text \<open>Along entries of the tree a walk only adds to the cache.\<close>

lemma walk_tree: "tree_at (dentries s) d0 ms = Some d \<Longrightarrow> \<exists>C. walk x now d0 (ms @ ns) s = walk x now d ns (s\<lparr>dcache := C\<rparr>)"
proof (induction ms arbitrary: d0 s)
  case Nil
  then show ?case by (auto split: if_splits intro: exI [of _ "dcache s"])
next
  case (Cons m ms)
  then obtain e c where c: "dentries s d0 = Some e" "bt_get (d_child e) m = Some c" "tree_at (dentries s) c ms = Some d" by (auto split: option.splits)
  obtain ce where ce: "dentries s c = Some ce" using tree_at_start [of "dentries s" c ms] c(3) by auto
  obtain C where "walk x now c (ms @ ns) (cache_insert (d_path ce) c s) = walk x now d ns (cache_insert (d_path ce) c s\<lparr>dcache := C\<rparr>)"
    using Cons.IH [of "cache_insert (d_path ce) c s" c] c(3) by (auto simp: cache_insert_def)
  then show ?case using c ce by (auto simp: cache_insert_def)
qed

lemma walk_spec:
  assumes "vfs_wf s" "root_dentry_of s = Some r" "tree_at (dentries s) r ms = Some d" "\<forall>n \<in> set ns. plain_name n"
  shows "\<exists>s' res. walk x now d ns s = Some (s', res) \<and> grows s s' \<and> (\<forall>z. res = Some z \<longrightarrow> tree_at (dentries s') r (ms @ ns) = Some z)"
  using assms
proof (induction ns arbitrary: d ms s)
  case Nil
  then show ?case using grows_refl by auto
next
  case (Cons n ns)
  obtain e where e: "dentries s d = Some e" using tree_at_entry [OF Cons.prems(3)] by auto
  have t: "tree_wf (dentries s) (dcache s) r" using Cons.prems(1,2) by (auto simp: vfs_wf_def)
  have next_step: "\<exists>s' res. walk x now c ns s1 = Some (s', res) \<and> grows s s' \<and> (\<forall>z. res = Some z \<longrightarrow> tree_at (dentries s') r (ms @ n # ns) = Some z)"
    if g: "grows s s1" "tree_at (dentries s1) r (ms @ [n]) = Some c" for s1 c
  proof -
    have "vfs_wf s1" "root_dentry_of s1 = Some r" using g(1) Cons.prems(2) by (auto simp: grows_def)
    from Cons.IH [OF this g(2)] Cons.prems(4) show ?thesis using grows_trans [OF g(1)] by auto
  qed
  show ?case
  proof (cases "bt_get (d_child e) n")
    case (Some c)
    obtain ce where ce: "dentries s c = Some ce" using links_childD [of "dentries s" d e n c] t e Some by (auto simp: tree_wf_def)
    have at: "tree_at (dentries s) r (ms @ [n]) = Some c" using tree_at_snoc [OF e Cons.prems(3) Some] ce by simp
    have "grows s (cache_insert (d_path ce) c s)" by (rule grows_cache [OF Cons.prems(1,2) at ce])
    then show ?thesis using next_step [of "cache_insert (d_path ce) c s" c] at e Some ce by (simp add: cache_insert_def)
  next
    case None
    obtain s1 res where l: "look_up x now d n s = Some (s1, res)" "grows s s1" "\<forall>c. res = Some c \<longrightarrow> tree_at (dentries s1) r (ms @ [n]) = Some c"
      using look_up_spec [OF Cons.prems(1,2) e None Cons.prems(3), of x now] Cons.prems(4) by auto
    show ?thesis
    proof (cases res)
      case None
      then show ?thesis using \<open>bt_get (d_child e) n = None\<close> e l by simp
    next
      case (Some c)
      then show ?thesis using next_step [of s1 c] \<open>bt_get (d_child e) n = None\<close> e l by simp
    qed
  qed
qed

definition dev_path :: "'d vfs \<Rightarrow> string \<Rightarrow> bool" where
  "dev_path s p \<longleftrightarrow> (\<exists>d e. dentries s d = Some e \<and> d_kind e = DevDentry \<and> d_path e = p)"

lemma cached_entry:
  assumes wf: "vfs_wf s" "root_dentry_of s = Some r" and d: "dcache s (abs_path ns) = Some d" "\<forall>n \<in> set ns. plain_name n" "\<not> dev_path s (abs_path ns)"
  shows "tree_at (dentries s) r ns = Some d"
proof -
  have t: "tree_wf (dentries s) (dcache s) r" using wf by (auto simp: vfs_wf_def)
  then obtain ms e where ms: "tree_at (dentries s) r ms = Some d" "dentries s d = Some e" "d_path e = abs_path ns"
    using d(1) unfolding tree_wf_def by blast
  have k: "d_kind e \<noteq> DevDentry" using d(3) ms(2,3) by (auto simp: dev_path_def)
  note q = tree_wf_path [OF t ms(1,2)]
  have "ns = ms" using abs_path_inj [OF plain_names [OF d(2)] plain_names [OF q(2)]] q(1) [OF k] ms(3) by simp
  then show ?thesis using ms(1) by simp
qed

lemma path_to_dentry_spec:
  assumes wf: "vfs_wf s" "root_dentry_of s = Some r" and ns: "\<forall>n \<in> set ns. plain_name n" "\<not> dev_path s (abs_path ns)"
  shows "\<exists>s' res. path_to_dentry x now (abs_path ns) s = Some (s', res) \<and> grows s s' \<and> (\<forall>z. res = Some z \<longrightarrow> tree_at (dentries s') r ns = Some z) \<and>
    (\<forall>z. tree_at (dentries s) r ns = Some z \<longrightarrow> res = Some z \<and> (\<exists>C. s' = s\<lparr>dcache := C\<rparr>))"
proof (cases "dcache s (abs_path ns)")
  case (Some d)
  then show ?thesis using cached_entry [OF wf Some ns] grows_refl [OF wf(1)]
    by (auto simp: path_to_dentry_def path_to_dentry_cache_def intro: exI [of _ "dcache s"])
next
  case None
  have p: "path_to_dentry x now (abs_path ns) s = walk x now r ns s"
    using None wf(2) names_of_abs [OF plain_names [OF ns(1)]] by (simp add: path_to_dentry_def path_to_dentry_cache_def names_of_def)
  have "tree_at (dentries s) r [] = Some r" using wf by (auto simp: vfs_wf_def tree_wf_def)
  from walk_spec [OF wf this ns(1), of x now] obtain s' res where w: "walk x now r ns s = Some (s', res)" "grows s s'" "\<forall>z. res = Some z \<longrightarrow> tree_at (dentries s') r ns = Some z"
    by auto
  moreover have "res = Some z \<and> (\<exists>C. s' = s\<lparr>dcache := C\<rparr>)" if z: "tree_at (dentries s) r ns = Some z" for z
    using walk_tree [OF z, of x now "[]"] w(1) by auto
  ultimately show ?thesis unfolding p by blast
qed

text \<open>A name that neither the tree nor the disk has.\<close>

definition absent :: "'d ext4_lib \<Rightarrow> dentry \<Rightarrow> string \<Rightarrow> 'd \<Rightarrow> bool" where
  "absent x e n dk \<longleftrightarrow> bt_get (d_child e) n = None \<and>
     (d_kind e = Ext4Dentry \<longrightarrow> \<not> file_exists x (push_path (d_path e) n) dk \<and> \<not> dir_exists x (push_path (d_path e) n) dk \<and> \<not> symlink_exists x (push_path (d_path e) n) dk)"

lemma path_absent:
  assumes wf: "vfs_wf s" "root_dentry_of s = Some r" and ns: "\<forall>n \<in> set ms. plain_name n" "plain_name n"
    and d: "tree_at (dentries s) r ms = Some d" "dentries s d = Some e" "absent x e n (disk s)" and dp: "\<not> dev_path s (abs_path (ms @ [n]))"
  shows "\<exists>C. path_to_dentry x now (abs_path (ms @ [n])) s = Some (s\<lparr>dcache := C\<rparr>, None)"
proof -
  have pl: "\<forall>m \<in> set (ms @ [n]). plain_name m" using ns by simp
  have no: "tree_at (dentries s) r (ms @ [n]) = None" using d by (simp add: tree_at_append absent_def)
  have "dcache s (abs_path (ms @ [n])) = None" using cached_entry [OF wf _ pl dp] no by (cases "dcache s (abs_path (ms @ [n]))") auto
  then have p: "path_to_dentry x now (abs_path (ms @ [n])) s = walk x now r (ms @ [n]) s"
    using wf(2) names_of_abs [OF plain_names [OF pl]] by (simp add: path_to_dentry_def path_to_dentry_cache_def names_of_def)
  obtain C where w: "walk x now r (ms @ [n]) s = walk x now d [n] (s\<lparr>dcache := C\<rparr>)" using walk_tree [OF d(1)] by blast
  have "look_up x now d n (s\<lparr>dcache := C\<rparr>) = Some (s\<lparr>dcache := C\<rparr>, None)"
    using d(2,3) cwd_and_name_plain [OF ns(2)] by (cases "d_kind e") (auto simp: look_up_def ext4_look_up_def absent_def)
  then have "walk x now d [n] (s\<lparr>dcache := C\<rparr>) = Some (s\<lparr>dcache := C\<rparr>, None)" using d(2,3) by (simp add: absent_def)
  then show ?thesis unfolding p w by blast
qed

section \<open>Creating and removing entries\<close>

lemma create_spec:
  assumes wf: "vfs_wf s" "root_dentry_of s = Some r" and d: "dentries s d = Some e" "bt_get (d_child e) n = None" "tree_at (dentries s) r ms = Some d"
    and n: "plain_name n" and m: "mode = Directory \<or> mode = Regular" and k: "d_kind e \<noteq> DevDentry"
    and ok: "create x now d n mode s = Some (s', Inr c)"
  shows "grows s s'" "tree_at (dentries s') r (ms @ [n]) = Some c" "dcache s' (push_path (d_path e) n) = Some c"
    "\<exists>ce i. dentries s' c = Some ce \<and> d_kind ce = d_kind e \<and> d_child ce = [] \<and> d_path ce = push_path (d_path e) n \<and> d_name ce = n \<and> d_parent ce = Some d \<and>
       inodes s' (d_inode ce) = Some i \<and> i_mode i = mode \<and> i_link_count i = 1 \<and> i_open_count i = 0"
proof -
  let ?p = "push_path (d_path e) n"
  obtain s1 sz where s1: "finish_create (d_kind e) d n ?p mode sz now s1 = Some (s', Inr c)" "\<exists>dk. s1 = s\<lparr>disk := dk\<rparr>"
  proof (cases "d_kind e")
    case SimpleDentry
    then have "finish_create (d_kind e) d n ?p mode 0 now s = Some (s', Inr c)" using ok d(1) m cwd_and_name_plain [OF n] by (simp add: create_def)
    moreover have "s = s\<lparr>disk := disk s\<rparr>" by simp
    ultimately show ?thesis using that by blast
  next
    case Ext4Dentry
    have "and_then (if mode = Directory then ext4_mkdir x ?p s else ext4_mknod x ?p s) (\<lambda>s sz. finish_create Ext4Dentry d n ?p mode sz now s) = Some (s', Inr c)"
      using ok Ext4Dentry d(1) m cwd_and_name_plain [OF n] by (simp add: create_def)
    then show ?thesis using that Ext4Dentry
      by (auto simp: and_then_def ext4_mkdir_def ext4_mknod_def on_disk_def split: option.splits sum.splits if_splits prod.splits)
  qed (use k in simp)
  then obtain dk where dk: "s1 = s\<lparr>disk := dk\<rparr>" by blast
  have wf1: "vfs_wf s1" "root_dentry_of s1 = Some r" using wf by (simp_all add: dk vfs_wf_def root_dentry_of_def)
  have d1: "dentries s1 d = Some e" "tree_at (dentries s1) r ms = Some d" using d by (simp_all add: dk)
  note f = finish_create_spec [OF wf1 d1(1) d(2) d1(2) k n refl k, of mode sz now]
  have "grows s1 s'" "tree_at (dentries s') r (ms @ [n]) = Some c" "dcache s' ?p = Some c" and i: "inode_of c s' = Some (inode_meta_new (next_ino s1) mode sz now now now)"
    and ce: "\<exists>ce. dentries s' c = Some ce \<and> d_kind ce = d_kind e \<and> d_child ce = [] \<and> d_path ce = ?p \<and> d_name ce = n \<and> d_parent ce = Some d"
    using f s1(1) by auto
  then show "grows s s'" "tree_at (dentries s') r (ms @ [n]) = Some c" "dcache s' ?p = Some c"
    using grows_trans [OF grows_disk [OF wf(1), of dk]] by (simp_all add: dk)
  show "\<exists>ce i. dentries s' c = Some ce \<and> d_kind ce = d_kind e \<and> d_child ce = [] \<and> d_path ce = ?p \<and> d_name ce = n \<and> d_parent ce = Some d \<and>
       inodes s' (d_inode ce) = Some i \<and> i_mode i = mode \<and> i_link_count i = 1 \<and> i_open_count i = 0"
    using ce i by (auto simp: inode_of_def inode_meta_new_def)
qed

text \<open>What is left when \<open>c\<close> has left its directory.\<close>

definition unlinked :: "did \<Rightarrow> did \<Rightarrow> string \<Rightarrow> 'd vfs \<Rightarrow> 'd vfs \<Rightarrow> bool" where
  "unlinked d c n s s' \<longleftrightarrow> vfs_wf s' \<and> root_dentry_of s' = root_dentry_of s \<and>
     (\<forall>r ns z. root_dentry_of s = Some r \<longrightarrow> tree_at (dentries s) r ns = Some z \<longrightarrow> z \<noteq> c \<longrightarrow> tree_at (dentries s') r ns = Some z) \<and>
     (\<exists>e. dentries s d = Some e \<and> dentries s' d = Some (e\<lparr>d_child := bt_remove n (d_child e)\<rparr>))"

lemma unlink_tree_spec:
  assumes wf: "vfs_wf s" "root_dentry_of s = Some r" and d: "dentries s d = Some e" "bt_get (d_child e) n = Some c" "tree_at (dentries s) r ms = Some d"
    and c: "dentries s c = Some ce" "d_child ce = []"
  shows "\<exists>s'. unlink_tree d c s = Some (s', d_path ce, d_inode ce) \<and> unlinked d c n s s' \<and> inodes s' = inodes s \<and> disk s' = disk s \<and> next_ino s' = next_ino s"
proof -
  have t: "tree_wf (dentries s) (dcache s) r" and fr: "\<And>z. next_did s \<le> z \<Longrightarrow> dentries s z = None"
    and ino: "\<And>z f. dentries s z = Some f \<Longrightarrow> inodes s (d_inode f) \<noteq> None" "\<forall>i. next_ino s \<le> i \<longrightarrow> inodes s i = None"
    using wf unfolding vfs_wf_def by auto
  have l: "links_ok (dentries s)" using t by (simp add: tree_wf_def)
  have ce: "d_name ce = n" using only_child [OF l d(1,2) c(1)] by simp
  have dc: "d \<noteq> c" using d(1,2) c by (auto simp: bt_get_def)
  define s' where "s' = s\<lparr>dentries := (dentries s)(c \<mapsto> ce\<lparr>d_parent := None\<rparr>, d \<mapsto> e\<lparr>d_child := bt_remove n (d_child e)\<rparr>), dcache := (dcache s)(d_path ce := None)\<rparr>"
  have u: "unlink_tree d c s = Some (s', d_path ce, d_inode ce)"
    using c(1) d(1) dc ce by (simp add: unlink_tree_def cache_remove_def set_dentry_def s'_def Let_def)
  have rt: "root_dentry_of s' = root_dentry_of s" by (simp add: root_dentry_of_def s'_def)
  note a = tree_wf_remove [OF t d c dc]
  have "inodes s' (d_inode f) \<noteq> None" if "dentries s' z = Some f" for z f
    using that ino(1) d(1) c(1) by (auto simp: s'_def split: if_splits)
  moreover have "dentries s' z = None" if "next_did s' \<le> z" for z using that fr [of z] d(1) c(1) by (auto simp: s'_def)
  ultimately have "vfs_wf s'" using a(1) rt wf(2) ino(2) unfolding vfs_wf_def by (auto simp: s'_def)
  then have "unlinked d c n s s'" using a(3) rt wf(2) d(1) by (auto simp: unlinked_def s'_def)
  then show ?thesis using u by (simp add: s'_def)
qed

lemma unlinked_inode:
  assumes "unlinked d c n s s'" "inodes s' j \<noteq> None"
  shows "unlinked d c n s (set_inode j i s')"
proof -
  have "vfs_wf (set_inode j i s')"
    using assms unfolding unlinked_def vfs_wf_def by (auto simp: set_inode_def root_dentry_of_def)
  then show ?thesis using assms(1) unfolding unlinked_def by (simp add: set_inode_def root_dentry_of_def)
qed

lemma unlinked_disk: "unlinked d c n s s' \<Longrightarrow> unlinked d c n s (s'\<lparr>disk := dk\<rparr>)"
proof -
  assume u: "unlinked d c n s s'"
  have rt: "root_dentry_of (s'\<lparr>disk := dk\<rparr>) = root_dentry_of s'" by (simp add: root_dentry_of_def)
  have "vfs_wf (s'\<lparr>disk := dk\<rparr>)" using u unfolding unlinked_def vfs_wf_def rt by auto
  then show ?thesis using u rt by (simp add: unlinked_def)
qed

lemma unlink_entry_spec:
  assumes wf: "vfs_wf s" "root_dentry_of s = Some r" and d: "dentries s d = Some e" "bt_get (d_child e) n = Some c" "tree_at (dentries s) r ms = Some d"
    and c: "dentries s c = Some ce" "d_child ce = []" and i: "inodes s (d_inode ce) = Some i" "i_mode i = Regular \<or> i_mode i = Directory"
    and k: "d_kind e \<noteq> DevDentry"
  defines "p \<equiv> d_path ce"
  shows "\<exists>s' res. unlink x d c s = Some (s', res) \<and> unlinked d c n s s' \<and>
    (if d_kind e = Ext4Dentry \<and> i_mode i = Directory then (disk s', res) = lwext4_rmdir x p (disk s)
     else if d_kind e = Ext4Dentry \<and> i_link_count i = 1 \<and> i_open_count i = 0 then (disk s', res) = lwext4_rmfile x p (disk s)
     else disk s' = disk s \<and> res = Inr ())"
proof -
  obtain s1 where s1: "unlink_tree d c s = Some (s1, p, d_inode ce)" "unlinked d c n s s1" "inodes s1 = inodes s" "disk s1 = disk s"
    using unlink_tree_spec [OF wf d c] unfolding p_def by blast
  let ?i = "i\<lparr>i_link_count := i_link_count i - 1\<rparr>"
  have s2: "unlinked d c n s (set_inode (d_inode ce) ?i s1)" using unlinked_inode [OF s1(2)] i(1) s1(3) by simp
  have one: "i_link_count i - 1 = 0 \<longleftrightarrow> i_link_count i = 1" by (metis eq_iff_diff_eq_0)
  have id: "inodes s1 (d_inode ce) = Some i" "disk (set_inode (d_inode ce) ?i s1) = disk s" using i(1) s1(3,4) by (simp_all add: set_inode_def)
  show ?thesis
  proof (cases "d_kind e")
    case SimpleDentry
    then show ?thesis using d(1) s1 s2 i id by (auto simp: unlink_def simple_unlink_def)
  next
    case Ext4Dentry
    then have u: "unlink x d c s = ext4_unlink x d c s" using d(1) by (simp add: unlink_def)
    obtain dk1 r1 where rd: "lwext4_rmdir x p (disk s) = (dk1, r1)" by (cases "lwext4_rmdir x p (disk s)")
    obtain dk2 r2 where rf: "lwext4_rmfile x p (disk s) = (dk2, r2)" by (cases "lwext4_rmfile x p (disk s)")
    consider "i_mode i = Directory" | "i_mode i = Regular" "i_link_count i - 1 = 0 \<and> i_open_count i = 0"
      | "i_mode i = Regular" "\<not> (i_link_count i - 1 = 0 \<and> i_open_count i = 0)" using i(2) by blast
    then show ?thesis
    proof cases
      case 1
      then have "ext4_unlink x d c s = Some (s1\<lparr>disk := dk1\<rparr>, r1)" using s1(1,4) id(1) rd by (simp add: ext4_unlink_def on_disk_def)
      then show ?thesis using u unlinked_disk [OF s1(2), of dk1] 1 rd Ext4Dentry by simp
    next
      case 2
      let ?s2 = "set_inode (d_inode ce) ?i s1"
      have "ext4_unlink x d c s = on_disk (lwext4_rmfile x p) ?s2" using s1(1) id(1) 2 by (simp add: ext4_unlink_def Let_def)
      then have "ext4_unlink x d c s = Some (?s2\<lparr>disk := dk2\<rparr>, r2)" using id(2) rf by (simp add: on_disk_def)
      then show ?thesis using u unlinked_disk [OF s2, of dk2] 2 one rf Ext4Dentry by simp
    next
      case 3
      then have "ext4_unlink x d c s = Some (set_inode (d_inode ce) ?i s1, Inr ())" using s1(1) id(1) by (auto simp: ext4_unlink_def Let_def)
      then show ?thesis using u s2 3 one id(2) Ext4Dentry by auto
    qed
  qed (use k in simp)
qed

section \<open>What a lookup adds\<close>

lemma tree_at_ConsE:
  assumes "tree_at T d (n # ns) = Some z"
  obtains e c where "T d = Some e" "bt_get (d_child e) n = Some c" "tree_at T c ns = Some z"
  using assms by (auto split: option.splits)

lemma tree_at_add_inv:
  assumes d: "T d = Some e" "bt_wf (d_child e)" and c: "T c = None" "d_child ce = []"
    and z: "tree_at (T(c \<mapsto> ce, d \<mapsto> e\<lparr>d_child := bt_insert n c (d_child e)\<rparr>)) b q = Some z" "b \<noteq> c"
    and ok: "links_ok T"
  shows "tree_at T b q = Some z \<or> (\<exists>q'. q = q' @ [n] \<and> tree_at T b q' = Some d)"
  using z
proof (induction q arbitrary: b)
  case Nil
  then show ?case using d(1) by (auto split: if_splits)
next
  case (Cons m q)
  let ?T = "T(c \<mapsto> ce, d \<mapsto> e\<lparr>d_child := bt_insert n c (d_child e)\<rparr>)"
  have dc: "d \<noteq> c" using d(1) c(1) by auto
  obtain f k where k: "?T b = Some f" "bt_get (d_child f) m = Some k" "tree_at ?T k q = Some z" by (rule tree_at_ConsE [OF Cons.prems(1)])
  show ?case
  proof (cases "b = d \<and> m = n")
    case True
    then have "k = c" using k(1,2) d(2) by auto
    then have "q = []" using k(3) c(2) dc by (cases q) (auto simp: bt_get_def)
    then show ?thesis using True d(1) by (auto intro: exI [of _ "[]"])
  next
    case False
    obtain f' where f': "T b = Some f'" "bt_get (d_child f') m = Some k" using k(1,2) False Cons.prems(2) d by (cases "b = d") auto
    obtain ke where "T k = Some ke" by (rule links_childD [OF ok f'])
    then have "k \<noteq> c" using c(1) by auto
    from Cons.IH [OF k(3) this] show ?thesis
    proof
      assume "tree_at T k q = Some z"
      then show ?thesis using f' by simp
    next
      assume "\<exists>q'. q = q' @ [n] \<and> tree_at T k q' = Some d"
      then obtain q' where "q = q' @ [n]" "tree_at T k q' = Some d" by blast
      then show ?thesis using f' by (auto intro: exI [of _ "m # q'"])
    qed
  qed
qed

lemma tree_wf_unique:
  assumes "tree_wf T C r" "tree_at T r ns = Some d" "tree_at T r ms = Some d" "T d = Some e" "d_kind e \<noteq> DevDentry"
  shows "ns = ms"
proof -
  note a = tree_wf_path [OF assms(1,2,4)] and b = tree_wf_path [OF assms(1,3,4)]
  show ?thesis using a(1) b(1) assms(5) abs_path_inj [OF plain_names [OF a(2)] plain_names [OF b(2)]] by simp
qed

lemma attach_dentries:
  assumes "attach d n p mode sz now s = Some (s', res)" "dentries s d = Some e" "dentries s (next_did s) = None"
  shows "\<exists>c ce. res = Some c \<and> dentries s c = None \<and> d_child ce = [] \<and> dentries s' = (dentries s)(c \<mapsto> ce, d \<mapsto> e\<lparr>d_child := bt_insert n c (d_child e)\<rparr>)"
proof -
  have "d \<noteq> next_did s" using assms(2,3) by auto
  then have "dentries s' = (dentries s)(next_did s \<mapsto> \<lparr>d_kind = Ext4Dentry, d_name = format_path n, d_path = p, d_inode = next_ino s, d_parent = Some d, d_child = []\<rparr>,
      d \<mapsto> e\<lparr>d_child := bt_insert n (next_did s) (d_child e)\<rparr>)" "res = Some (next_did s)"
    using assms(1,2) by (auto simp: attach_def new_inode_def new_dentry_def add_child_def set_dentry_def cache_insert_def Let_def)
  then show ?thesis using assms(3) by (intro exI [of _ "next_did s"] exI conjI) simp_all
qed

lemma look_up_new:
  assumes wf: "vfs_wf s" and d: "dentries s d = Some e" "bt_get (d_child e) n = None" and l: "look_up x now d n s = Some (s', res)"
  shows "case res of None \<Rightarrow> dentries s' = dentries s
    | Some c \<Rightarrow> \<exists>ce. dentries s c = None \<and> d_child ce = [] \<and> d_kind e = Ext4Dentry \<and> dentries s' = (dentries s)(c \<mapsto> ce, d \<mapsto> e\<lparr>d_child := bt_insert n c (d_child e)\<rparr>)"
proof (cases "d_kind e")
  case Ext4Dentry
  have fresh: "dentries s (next_did s) = None" using wf by (auto simp: vfs_wf_def)
  have att: "case res of None \<Rightarrow> dentries s' = dentries s | Some c \<Rightarrow> \<exists>ce. dentries s c = None \<and> d_child ce = [] \<and> d_kind e = Ext4Dentry \<and> dentries s' = (dentries s)(c \<mapsto> ce, d \<mapsto> e\<lparr>d_child := bt_insert n c (d_child e)\<rparr>)"
    if "attach d n p mode sz now t = Some (s', res)" "dentries t = dentries s" "next_did t = next_did s" for p mode sz t
    using attach_dentries [OF that(1), of e] that(2,3) d(1) fresh Ext4Dentry by auto
  obtain p where p: "cwd_and_name n (d_path e) = Some p" using l d Ext4Dentry by (auto simp: look_up_def ext4_look_up_def split: bind_splits)
  obtain dk fr where fo: "file_open x p O_RDWR (disk s) = (dk, fr)" by (cases "file_open x p O_RDWR (disk s)")
  have "look_up x now d n s = (if file_exists x p (disk s) then (case fr of Inr sz \<Rightarrow> attach d n p Regular sz now (s\<lparr>disk := dk\<rparr>) | Inl _ \<Rightarrow> Some (s\<lparr>disk := dk\<rparr>, None))
     else if dir_exists x p (disk s) then (case dir_open x p (disk s) of Inr _ \<Rightarrow> attach d n p Regular 0 now s | Inl _ \<Rightarrow> Some (s, None))
     else if symlink_exists x p (disk s) then attach d n p Link 0 now s else Some (s, None))"
    using d Ext4Dentry p fo by (simp add: look_up_def ext4_look_up_def split: sum.splits)
  then show ?thesis using l by (auto split: if_splits sum.splits intro: att)
qed (use l d in \<open>auto simp: look_up_def\<close>)

lemma walk_result:
  assumes "vfs_wf s" "root_dentry_of s = Some r" "tree_at (dentries s) r ms = Some d" "\<forall>n \<in> set ns. plain_name n" "walk x now d ns s = Some (s', res)"
  shows "(res = None \<longrightarrow> tree_at (dentries s') r (ms @ ns) = None) \<and>
    (\<forall>q z. tree_at (dentries s') r q = Some z \<longrightarrow> tree_at (dentries s) r q \<noteq> None \<or> (\<exists>a b. ns = a @ b \<and> q = ms @ a))"
  using assms
proof (induction ns arbitrary: d ms s)
  case Nil
  then show ?case by auto
next
  case (Cons n ns)
  obtain e where e: "dentries s d = Some e" using tree_at_entry [OF Cons.prems(3)] by auto
  have t: "tree_wf (dentries s) (dcache s) r" and lk: "links_ok (dentries s)" using Cons.prems(1,2) by (auto simp: vfs_wf_def tree_wf_def)
  have pl: "plain_name n" "\<forall>n \<in> set ns. plain_name n" using Cons.prems(4) by auto
  show ?case
  proof (cases "bt_get (d_child e) n")
    case (Some c)
    obtain ce where ce: "dentries s c = Some ce" using links_childD [OF lk e Some] by auto
    have at: "tree_at (dentries s) r (ms @ [n]) = Some c" using tree_at_snoc [OF e Cons.prems(3) Some] ce by simp
    let ?s1 = "cache_insert (d_path ce) c s"
    have g: "grows s ?s1" by (rule grows_cache [OF Cons.prems(1,2) at ce])
    have D: "dentries ?s1 = dentries s" by (simp add: cache_insert_def)
    have w: "walk x now c ns ?s1 = Some (s', res)" using Cons.prems(5) e Some ce by simp
    have "vfs_wf ?s1" "root_dentry_of ?s1 = Some r" "tree_at (dentries ?s1) r (ms @ [n]) = Some c" using g at Cons.prems(2) D by (auto simp: grows_def)
    from Cons.IH [OF this pl(2) w] D show ?thesis by (auto simp: Cons_eq_append_conv)
  next
    case None
    obtain s1 c' where l: "look_up x now d n s = Some (s1, c')" using Cons.prems(5) e None by (auto split: bind_splits)
    show ?thesis
    proof (cases c')
      case N: None
      then have "s' = s1" "res = None" using Cons.prems(5) e None l by auto
      moreover have "dentries s1 = dentries s" using look_up_new [OF Cons.prems(1) e None l] N by simp
      ultimately show ?thesis using Cons.prems(3) e None by (simp add: tree_at_append)
    next
      case (Some c)
      have w: "walk x now c ns s1 = Some (s', res)" using Cons.prems(5) e None l Some by simp
      obtain ce where D: "dentries s c = None" "d_child ce = []" "d_kind e = Ext4Dentry" "dentries s1 = (dentries s)(c \<mapsto> ce, d \<mapsto> e\<lparr>d_child := bt_insert n c (d_child e)\<rparr>)"
        using look_up_new [OF Cons.prems(1) e None l] Some by auto
      have g: "grows s s1" "tree_at (dentries s1) r (ms @ [n]) = Some c" using look_up_spec [OF Cons.prems(1,2) e None Cons.prems(3) pl(1), of x now] l Some by auto
      have rc: "r \<noteq> c" using D(1) t by (auto simp: tree_wf_def)
      have new: "tree_at (dentries s) r q \<noteq> None \<or> q = ms @ [n]" if "tree_at (dentries s1) r q = Some z" for q z
        using tree_at_add_inv [OF e links_entryD(1) [OF lk e] D(1,2) that [unfolded D(4)] rc lk] tree_wf_unique [OF t _ Cons.prems(3) e] D(3) by auto
      have "vfs_wf s1" "root_dentry_of s1 = Some r" using g(1) Cons.prems(2) by (auto simp: grows_def)
      note ih = Cons.IH [OF this g(2) pl(2) w]
      have "tree_at (dentries s) r q \<noteq> None \<or> (\<exists>a b. n # ns = a @ b \<and> q = ms @ a)" if q: "tree_at (dentries s') r q = Some z" for q z
      proof (cases "tree_at (dentries s1) r q")
        case N: None
        then obtain a b where "ns = a @ b" "q = (ms @ [n]) @ a" using ih q by blast
        then have "n # ns = (n # a) @ b \<and> q = ms @ n # a" by simp
        then show ?thesis by blast
      next
        case (Some y)
        have "n # ns = [n] @ ns" by simp
        then show ?thesis using new [OF Some] by blast
      qed
      then show ?thesis using ih by simp
    qed
  qed
qed

section \<open>Paths that a program may give\<close>

lemma split_on_no_slash: "n \<in> set (split_on c s) \<Longrightarrow> c \<notin> set n"
  by (induction s arbitrary: n) (auto split: if_splits list.splits)

lemma names_of_ok: "\<forall>n \<in> set (names_of p). name_ok n"
  using split_on_no_slash by (auto simp: names_of_def name_ok_def)

lemma parent_names: "names_of (parent_path p) = butlast (names_of p)"
proof -
  have bl: "\<forall>n \<in> set (butlast (names_of p)). name_ok n" using names_of_ok in_set_butlastD by metis
  have root: "names_of ''/'' = []" "names_of [] = []" by (simp_all add: names_of_def)
  consider "p = ''/''" | "p \<noteq> ''/''" "names_of p = []" | n where "p \<noteq> ''/''" "names_of p = [n]" | "p \<noteq> ''/''" "1 < length (names_of p)"
    by (cases "names_of p" rule: list.exhaust) (auto simp: neq_Nil_conv, metis list.exhaust length_greater_0_conv)
  then show ?thesis
  proof cases
    case 4
    then have ne: "butlast (names_of p) \<noteq> []" by (cases "names_of p") auto
    have "parent_path p = join ''/'' ([] # butlast (names_of p))"
      using 4 by (cases "names_of p") (auto simp: parent_path_def names_of_def [symmetric])
    also have "\<dots> = abs_path (butlast (names_of p))" using join_names [OF ne] ne by (simp add: abs_path_def)
    finally show ?thesis using names_of_abs [OF bl] by simp
  qed (auto simp: parent_path_def root names_of_def [symmetric])
qed

lemma last_name: "names_of p \<noteq> [] \<Longrightarrow> dentry_name p = last (names_of p)"
proof -
  assume ne: "names_of p \<noteq> []"
  have "List.find (\<lambda>s. s \<noteq> []) (rev l) = (if filter (\<lambda>s. s \<noteq> []) l = [] then None else Some (last (filter (\<lambda>s. s \<noteq> []) l)))" for l :: "string list"
    by (induction l rule: rev_induct) auto
  then show ?thesis using ne by (simp add: dentry_name_def names_of_def)
qed

lemma cached_names:
  assumes wf: "vfs_wf s" "root_dentry_of s = Some r" and d: "dcache s p = Some d"
  shows "\<exists>ns e. tree_at (dentries s) r ns = Some d \<and> dentries s d = Some e \<and> (d_kind e = DevDentry \<or> ns = names_of p)"
proof -
  have t: "tree_wf (dentries s) (dcache s) r" using wf by (auto simp: vfs_wf_def)
  then obtain ms e where ms: "tree_at (dentries s) r ms = Some d" "dentries s d = Some e" "d_path e = p"
    using d unfolding tree_wf_def by blast
  note q = tree_wf_path [OF t ms(1,2)]
  have "d_kind e = DevDentry \<or> ms = names_of p" using q(1) names_of_abs [OF plain_names [OF q(2)]] ms(3) by (cases "d_kind e = DevDentry") auto
  then show ?thesis using ms(1,2) by blast
qed

text \<open>
  A lookup by any path: it does not panic, the tree only grows along the path, the result is the entry at the names of the path
  or a device, and there is no entry at those names when the result is none.
\<close>

lemma path_to_dentry_any:
  assumes wf: "vfs_wf s" "root_dentry_of s = Some r" and ns: "\<forall>n \<in> set (names_of p). plain_name n"
  shows "\<exists>s' res. path_to_dentry x now p s = Some (s', res) \<and> grows s s' \<and> (res = None \<longrightarrow> tree_at (dentries s') r (names_of p) = None) \<and>
    (\<forall>d. res = Some d \<longrightarrow> (\<exists>ns e. tree_at (dentries s') r ns = Some d \<and> dentries s' d = Some e \<and> (d_kind e = DevDentry \<or> ns = names_of p))) \<and>
    (\<forall>q z. tree_at (dentries s') r q = Some z \<longrightarrow> tree_at (dentries s) r q \<noteq> None \<or> (\<exists>b. names_of p = q @ b))"
proof (cases "dcache s p")
  case (Some d)
  then show ?thesis using cached_names [OF wf Some] grows_refl [OF wf(1)] by (auto simp: path_to_dentry_def path_to_dentry_cache_def)
next
  case None
  have p: "path_to_dentry x now p s = walk x now r (names_of p) s"
    using None wf(2) by (simp add: path_to_dentry_def path_to_dentry_cache_def names_of_def)
  have r: "tree_at (dentries s) r [] = Some r" using wf by (auto simp: vfs_wf_def tree_wf_def)
  obtain s' res where w: "walk x now r (names_of p) s = Some (s', res)" "grows s s'" "\<forall>z. res = Some z \<longrightarrow> tree_at (dentries s') r (names_of p) = Some z"
    using walk_spec [OF wf r ns, of x now] by auto
  have "(\<exists>ns e. tree_at (dentries s') r ns = Some d \<and> dentries s' d = Some e \<and> (d_kind e = DevDentry \<or> ns = names_of p))" if "res = Some d" for d
    using w(3) that tree_at_entry by blast
  then show ?thesis using w(1,2) walk_result [OF wf r ns w(1)] unfolding p by (auto simp del: walk.simps)
qed

section \<open>The invariant of the operations\<close>

lemma vfs_wf_inode: "vfs_wf s \<Longrightarrow> inodes s j \<noteq> None \<Longrightarrow> vfs_wf (set_inode j i s)"
  unfolding vfs_wf_def by (auto simp: set_inode_def root_dentry_of_def)

lemma vfs_wf_files: "vfs_wf (s\<lparr>files := F\<rparr>) \<longleftrightarrow> vfs_wf s" "vfs_wf (s\<lparr>next_file := n\<rparr>) \<longleftrightarrow> vfs_wf s" "vfs_wf (s\<lparr>disk := dk\<rparr>) \<longleftrightarrow> vfs_wf s"
  by (simp_all add: vfs_wf_def root_dentry_of_def)

lemma create_wf:
  assumes wf: "vfs_wf s" "root_dentry_of s = Some r" and d: "dentries s d = Some e" "bt_get (d_child e) n = None" "tree_at (dentries s) r ms = Some d"
    and n: "plain_name n" and m: "mode = Directory \<or> mode = Regular" and run: "create x now d n mode s = Some (s', res)"
  shows "vfs_wf s'"
proof (cases res)
  case (Inr c)
  show ?thesis
  proof (cases "d_kind e = DevDentry")
    case True
    then show ?thesis using run d(1) wf(1) by (simp add: create_def)
  next
    case False
    from create_spec(1) [OF wf d n m False run [unfolded Inr]] show ?thesis by (simp add: grows_def)
  qed
next
  case (Inl er)
  then have "s' = s \<or> (\<exists>dk. s' = s\<lparr>disk := dk\<rparr>)"
    using run d(1) m cwd_and_name_plain [OF n]
    by (cases "d_kind e") (auto simp: create_def finish_create_def and_then_def ext4_mkdir_def ext4_mknod_def on_disk_def Let_def split: option.splits sum.splits if_splits prod.splits bind_splits)
  then show ?thesis using wf(1) by (auto simp: vfs_wf_files)
qed

lemma dopen_wf: "vfs_wf s \<Longrightarrow> dopen d flags s = Some (s', res) \<Longrightarrow> vfs_wf s'"
proof -
  assume wf: "vfs_wf s" and run: "dopen d flags s = Some (s', res)"
  then obtain e i where e: "dentries s d = Some e" "inodes s (d_inode e) = Some i" by (auto simp: dopen_def split: bind_splits)
  let ?s1 = "set_inode (d_inode e) (i\<lparr>i_open_count := i_open_count i + 1\<rparr>) s"
  have w1: "vfs_wf ?s1" using vfs_wf_inode [OF wf] e(2) by simp
  show ?thesis using run e w1 by (auto simp: dopen_def Let_def vfs_wf_files split: if_splits bind_splits sum.splits)
qed

text \<open>An entry of the tree other than the root is a child of the entry that it has as its parent.\<close>

lemma parent_entry:
  assumes t: "tree_wf T C r" and d: "tree_at T r ns = Some d" "T d = Some e" "d_parent e = Some p"
  shows "\<exists>ms n pe. ns = ms @ [n] \<and> tree_at T r ms = Some p \<and> T p = Some pe \<and> bt_get (d_child pe) n = Some d"
proof (cases ns rule: rev_cases)
  case Nil
  then have "d = r" using d(1) by (simp split: if_splits)
  then show ?thesis using t d(2,3) by (auto simp: tree_wf_def)
next
  case (snoc ms n)
  then obtain b where b: "tree_at T r ms = Some b" "tree_at T b [n] = Some d" using d(1) by (auto simp: tree_at_append split: option.splits)
  obtain be where be: "T b = Some be" "bt_get (d_child be) n = Some d" using b(2) by (auto split: option.splits if_splits)
  have "p = b" using only_child(1) [OF _ be d(2)] t d(3) by (auto simp: tree_wf_def)
  then show ?thesis using snoc b(1) be by auto
qed

lemma unlink_wf:
  assumes wf: "vfs_wf s" "root_dentry_of s = Some r" and d: "tree_at (dentries s) r ns = Some c" "dentries s c = Some ce" "d_child ce = []" "d_parent ce = Some d"
    and run: "unlink x d c s = Some (s', res)"
  shows "vfs_wf s'"
proof -
  have t: "tree_wf (dentries s) (dcache s) r" using wf by (auto simp: vfs_wf_def)
  obtain ms n e where e: "tree_at (dentries s) r ms = Some d" "dentries s d = Some e" "bt_get (d_child e) n = Some c"
    using parent_entry [OF t d(1,2,4)] by auto
  have k: "d_kind e \<noteq> DevDentry" using links_entryD(2) [of "dentries s" d e] t e(2,3) by (auto simp: tree_wf_def bt_get_def)
  have "inodes s (d_inode ce) \<noteq> None" using wf(1) d(2) unfolding vfs_wf_def by blast
  then obtain i where i: "inodes s (d_inode ce) = Some i" by blast
  obtain s1 where s1: "unlink_tree d c s = Some (s1, d_path ce, d_inode ce)" "inodes s1 = inodes s" using unlink_tree_spec [OF wf e(2,3,1) d(2,3)] by blast
  have "i_mode i = Regular \<or> i_mode i = Directory"
    using run e(2) k s1 i by (cases "d_kind e"; cases "i_mode i") (auto simp: unlink_def ext4_unlink_def simple_unlink_def)
  from unlink_entry_spec [OF wf e(2,3,1) d(2,3) i this k, of x] show ?thesis using run by (auto simp: unlinked_def)
qed

lemma dlink_wf:
  assumes wf: "vfs_wf s" "root_dentry_of s = Some r" and p: "dentries s p = Some pe" "bt_get (d_child pe) n = None" "tree_at (dentries s) r ms = Some p" "d_kind pe \<noteq> DevDentry"
    and n: "plain_name n" and run: "dlink x d p n s = Some (s', res)"
  shows "vfs_wf s'" "tree_at (dentries s') r (ms @ [n]) \<noteq> None"
proof -
  obtain e i where e: "dentries s d = Some e" "d_kind e \<noteq> DevDentry" "inodes s (d_inode e) = Some i"
    using run by (auto simp: dlink_def rassert_def split: bind_splits if_splits)
  let ?s1 = "set_inode (d_inode e) (i\<lparr>i_link_count := i_link_count i + 1\<rparr>) s"
  have w1: "vfs_wf ?s1" "root_dentry_of ?s1 = Some r" "dentries ?s1 p = Some pe" "tree_at (dentries ?s1) r ms = Some p"
    using vfs_wf_inode [OF wf(1)] e(3) wf(2) p by (simp_all add: set_inode_def root_dentry_of_def)
  let ?c = "next_did s"
  let ?ce = "\<lparr>d_kind = d_kind e, d_name = n, d_path = push_path (d_path pe) n, d_inode = d_inode e, d_parent = Some p, d_child = []\<rparr>"
  have f: "format_path n = n" using n by (simp add: plain_name_def)
  have pc: "p \<noteq> ?c" using p(1) wf(1) by (auto simp: vfs_wf_def)
  define s4 where "s4 = ?s1\<lparr>next_did := next_did s + 1, dentries := (dentries s)(?c \<mapsto> ?ce, p \<mapsto> pe\<lparr>d_child := bt_insert n ?c (d_child pe)\<rparr>), dcache := (dcache s)(d_path ?ce \<mapsto> ?c)\<rparr>"
  have s4: "(if d_kind e = Ext4Dentry then on_disk (lwext4_link x (d_path e) (d_path ?ce)) s4 else Some (s4, Inr ())) = Some (s', res)"
    using run e p(1) pc f cwd_and_name_plain [OF n]
    by (cases "d_kind e = Ext4Dentry") (simp_all add: dlink_def set_inode_def new_dentry_def add_child_def set_dentry_def cache_insert_def Let_def s4_def)
  have "grows ?s1 s4" "tree_at (dentries s4) r (ms @ [n]) = Some ?c"
  proof -
    have i: "\<forall>i. next_ino s4 \<le> i \<longrightarrow> inodes s4 i = None" using w1(1) by (auto simp: vfs_wf_def s4_def)
    have "d_path ?ce = child_path pe ?ce n" using e(2) by (simp add: child_path_def)
    moreover have "dentries s4 = (dentries ?s1)(?c \<mapsto> ?ce, p \<mapsto> pe\<lparr>d_child := bt_insert n ?c (d_child pe)\<rparr>)" "dcache s4 = (dcache ?s1)(d_path ?ce \<mapsto> ?c)" "mounts s4 = mounts ?s1"
      "?c = next_did ?s1" "next_did s4 = next_did ?s1 + 1" "inodes s4 (d_inode ?ce) \<noteq> None" "\<forall>j. inodes ?s1 j \<noteq> None \<longrightarrow> inodes s4 j \<noteq> None"
      by (simp_all add: s4_def set_inode_def)
    ultimately show "grows ?s1 s4" "tree_at (dentries s4) r (ms @ [n]) = Some ?c"
      using grows_add [OF w1(1-3) p(2) w1(4) p(4) _ _ _ _ n, of ?ce s4 ?c] i by simp_all
  qed
  moreover have "s' = s4 \<or> (\<exists>dk. s' = s4\<lparr>disk := dk\<rparr>)" using s4 by (auto simp: on_disk_def split: if_splits prod.splits)
  ultimately show "vfs_wf s'" "tree_at (dentries s') r (ms @ [n]) \<noteq> None" by (auto simp: vfs_wf_files grows_def)
qed

end
