(* ===== verification/File_System.thy ===== *)
theory File_System
  imports Dentry_Tree
begin

text \<open>
  The mounted file systems (\<^verbatim>\<open>fs/file_system.rs\<close>, the \<^verbatim>\<open>new\<close> and \<^verbatim>\<open>init\<close> of \<^verbatim>\<open>fs/ext4/ext4_fs.rs\<close>, \<^verbatim>\<open>fs/devfs\<close>, \<^verbatim>\<open>fs/procfs\<close>, \<^verbatim>\<open>fs/tmpfs\<close>) and
  what the kernel mounts at boot (\<^verbatim>\<open>fs/mod.rs\<close>). All entries of the ext4 volume are loaded when it is mounted. The lemmas show that
  booting gives a well-formed tree when the mount points on the disk are empty, and what mounting and unmounting do to the cache.

  A directory may be nested to any depth, so \<open>load_all_child\<close> has fuel, the depth of the volume. The FAT32 file system, which
  is mounted only when a block device is given, is the argument \<open>fat_new\<close>.
\<close>

section \<open>Loading a volume\<close>

fun for_each :: "('a \<Rightarrow> 's \<Rightarrow> ('s \<times> unit os_result) option) \<Rightarrow> 'a list \<Rightarrow> 's \<Rightarrow> ('s \<times> unit os_result) option" where
  "for_each f [] s = Some (s, Inr ())"
| "for_each f (a # as) s = and_then (f a s) (\<lambda>s _. for_each f as s)"

definition load_entry :: "'d ext4_lib \<Rightarrow> time_spec \<Rightarrow> did \<Rightarrow> string \<times> nat \<Rightarrow> 'd vfs \<Rightarrow> ('d vfs \<times> unit os_result) option" where
  "load_entry x now d ent s = (case ent of (name, ty) \<Rightarrow>
     if CHR 0x00 \<in> set name then Some (s, Inl EINVAL)
     else do { e \<leftarrow> dentries s d;
               path \<leftarrow> cwd_and_name name (d_path e);
               let mode = inode_mode_from ty;
               and_then
                 (case mode of
                    Regular \<Rightarrow> on_disk (file_open x path O_RDWR) s
                  | Directory \<Rightarrow> Some (s, map_sum id (\<lambda>_. 0) (dir_open x path (disk s)))
                  | _ \<Rightarrow> None)
                 (\<lambda>s sz. do { (s, _) \<leftarrow> attach d name path mode sz now s; Some (s, Inr ()) }) })"

definition load_child :: "'d ext4_lib \<Rightarrow> time_spec \<Rightarrow> did \<Rightarrow> 'd vfs \<Rightarrow> ('d vfs \<times> unit os_result) option" where
  "load_child x now d s =
     do { e \<leftarrow> dentries s d;
          iters \<leftarrow> dir_entries x (d_path e) (disk s);
          for_each (load_entry x now d) (drop 2 iters) s }"

fun load_all_child :: "nat \<Rightarrow> 'd ext4_lib \<Rightarrow> time_spec \<Rightarrow> did \<Rightarrow> 'd vfs \<Rightarrow> ('d vfs \<times> unit os_result) option" where
  "load_all_child 0 x now d s = None"
| "load_all_child (Suc fuel) x now d s =
     do { e \<leftarrow> dentries s d;
          rassert (d_kind e = Ext4Dentry);
          i \<leftarrow> inodes s (d_inode e);
          if i_mode i \<noteq> Directory then Some (s, Inr ())
          else and_then (load_child x now d s)
                 (\<lambda>s _. do { e \<leftarrow> dentries s d; for_each (load_all_child fuel x now) (map snd (d_child e)) s }) }"

text \<open>Once the fuel is enough for the depth of the volume, more of it gives the same result.\<close>

lemma for_each_mono:
  assumes "\<And>a s r. a \<in> set as \<Longrightarrow> f a s = Some r \<Longrightarrow> g a s = Some r"
  shows "for_each f as s = Some r \<Longrightarrow> for_each g as s = Some r"
  using assms
proof (induction as arbitrary: s)
  case (Cons a as)
  obtain s1 r1 where 1: "f a s = Some (s1, r1)" using Cons.prems(1) by (cases "f a s") (auto simp: and_then_def)
  then have 2: "g a s = Some (s1, r1)" using Cons.prems(2) [of a s] by simp
  have "for_each g as s1 = Some r" if "for_each f as s1 = Some r" using that by (rule Cons.IH) (rule Cons.prems(2), simp_all)
  then show ?case using Cons.prems(1) 1 2 by (cases r1) (auto simp: and_then_def)
qed simp

lemma load_all_child_mono: "load_all_child n x now d s = Some r \<Longrightarrow> n \<le> m \<Longrightarrow> load_all_child m x now d s = Some r"
proof (induction n arbitrary: m d s r)
  case (Suc n)
  then obtain k where k: "m = Suc k" "n \<le> k" by (cases m) auto
  obtain e i where e: "dentries s d = Some e" "d_kind e = Ext4Dentry" "inodes s (d_inode e) = Some i" using Suc.prems(1) by (auto simp: rassert_def split: bind_splits if_splits)
  have rest: "do { e \<leftarrow> dentries s1 d; for_each (load_all_child k x now) (map snd (d_child e)) s1 } = Some q"
    if q: "do { e \<leftarrow> dentries s1 d; for_each (load_all_child n x now) (map snd (d_child e)) s1 } = Some q" for s1 q
  proof -
    obtain e1 where e1: "dentries s1 d = Some e1" "for_each (load_all_child n x now) (map snd (d_child e1)) s1 = Some q" using q by (cases "dentries s1 d") simp_all
    from e1(2) have "for_each (load_all_child k x now) (map snd (d_child e1)) s1 = Some q" by (rule for_each_mono [rotated]) (rule Suc.IH [OF _ k(2)])
    then show ?thesis using e1(1) by simp
  qed
  show ?case
  proof (cases "i_mode i = Directory")
    case True
    then show ?thesis using Suc.prems(1) e rest k(1) by (cases r; cases "load_child x now d s") (auto simp: and_then_def split: sum.splits)
  next
    case False
    then show ?thesis using Suc.prems(1) e k(1) by simp
  qed
qed simp

section \<open>File systems\<close>

definition str_to_type :: "string \<Rightarrow> fs_type option" where
  "str_to_type t =
     (if t = ''vfat'' then Some VFAT else if t = ''ext4'' then Some EXT4 else if t = ''proc'' then Some ProcFs
      else if t = ''devtmpfs'' then Some DevFs else if t = ''tmpfs'' then Some TmpFs else None)"

definition MS_NOSUID :: fs_flags where "MS_NOSUID = 2"

text \<open>The declared flags: bits 0 to 7, 10, 12 and 13.\<close>

definition fs_flags_all :: fs_flags where
  "fs_flags_all = 0xFF OR push_bit 10 1 OR push_bit 12 1 OR push_bit 13 1"

definition ext4_fs_new ::
  "nat \<Rightarrow> 'd ext4_lib \<Rightarrow> time_spec \<Rightarrow> string \<Rightarrow> string \<Rightarrow> bool \<Rightarrow> fs_flags \<Rightarrow> 'd vfs \<Rightarrow> ('d vfs \<times> file_system_meta os_result) option" where
  "ext4_fs_new fuel x now mount_point dev_name dev flags s =
     do { rassert dev;
          dk \<leftarrow> block_wrapper_new x (disk s);
          let s = s\<lparr>disk := dk\<rparr>;
          let name = dentry_name mount_point;
          (case dir_open x mount_point (disk s) of
             Inl er \<Rightarrow> Some (s, Inl er)
           | Inr _ \<Rightarrow>
               do { let (s, ino) = new_inode Directory 0 now s;
                    (s, parent) \<leftarrow> (if mount_point \<noteq> ''/'' then path_to_dentry x now (parent_path mount_point) s else Some (s, None));
                    let (s, c) = new_dentry Ext4Dentry name mount_point ino parent s;
                    s \<leftarrow> (case parent of None \<Rightarrow> Some s | Some p \<Rightarrow> add_child p name c s);
                    and_then (load_all_child fuel x now c s)
                      (\<lambda>s _. Some (s, Inr \<lparr>f_dev = dev_name, f_type = EXT4, f_flags = flags, root_dentry = c, root_inode = ino\<rparr>)) }) }"

text \<open>The three file systems without a disk are made in the same way; the directory above the mount point must be cached.\<close>

definition simple_fs_new :: "fs_type \<Rightarrow> time_spec \<Rightarrow> string \<Rightarrow> fs_flags \<Rightarrow> 'd vfs \<Rightarrow> ('d vfs \<times> file_system_meta) option" where
  "simple_fs_new ty now mount_point flags s =
     do { let (s, ino) = new_inode Directory 0 now s;
          let name = dentry_name mount_point;
          parent \<leftarrow> (if mount_point \<noteq> ''/'' then map_option Some (dcache s (parent_path mount_point)) else Some None);
          let (s, c) = new_dentry SimpleDentry name mount_point ino parent s;
          s \<leftarrow> (case parent of None \<Rightarrow> Some s | Some p \<Rightarrow> add_child p name c s);
          Some (s, \<lparr>f_dev = ''TODO Unimplemented'', f_type = ty, f_flags = flags, root_dentry = c, root_inode = ino\<rparr>) }"

definition tmp_fs_new :: "time_spec \<Rightarrow> string \<Rightarrow> fs_flags \<Rightarrow> 'd vfs \<Rightarrow> ('d vfs \<times> file_system_meta) option" where
  "tmp_fs_new = simple_fs_new TmpFs"
definition dev_fs_new :: "time_spec \<Rightarrow> string \<Rightarrow> fs_flags \<Rightarrow> 'd vfs \<Rightarrow> ('d vfs \<times> file_system_meta) option" where
  "dev_fs_new = simple_fs_new DevFs"
definition proc_fs_new :: "time_spec \<Rightarrow> string \<Rightarrow> fs_flags \<Rightarrow> 'd vfs \<Rightarrow> ('d vfs \<times> file_system_meta) option" where
  "proc_fs_new = simple_fs_new ProcFs"

text \<open>The devices of \<^verbatim>\<open>/dev\<close> and \<^verbatim>\<open>/proc\<close>.\<close>

definition add_device :: "time_spec \<Rightarrow> did \<Rightarrow> string \<times> inode_mode \<Rightarrow> 'd vfs \<Rightarrow> 'd vfs option" where
  "add_device now d nm s = (case nm of (name, mode) \<Rightarrow>
     do { e \<leftarrow> dentries s d;
          let path = d_path e @ name;
          let (s, ino) = new_inode mode (of_nat SECTOR_SIZE) now s;
          let (s, c) = new_dentry DevDentry name path ino (Some d) s;
          s \<leftarrow> add_child d name c s;
          Some (cache_insert path c s) })"

definition dev_fs_init :: "time_spec \<Rightarrow> did \<Rightarrow> 'd vfs \<Rightarrow> 'd vfs option" where
  "dev_fs_init now d = foldM (add_device now d)
     [(''zero'', Char), (''null'', Char), (''rtc'', Regular), (''cpu_pma_latency'', Char), (''urandom'', Char), (''tty'', Char)]"

definition proc_fs_init :: "time_spec \<Rightarrow> did \<Rightarrow> 'd vfs \<Rightarrow> 'd vfs option" where
  "proc_fs_init now d = foldM (add_device now d) [(''meminfo'', Regular), (''mounts'', Regular)]"

definition fs_initialise :: "time_spec \<Rightarrow> string \<Rightarrow> 'd vfs \<Rightarrow> 'd vfs option" where
  "fs_initialise now mp s = (case mounts s mp of
     Some (FileSystem f) \<Rightarrow>
       (case f_type f of DevFs \<Rightarrow> dev_fs_init now (root_dentry f) s | ProcFs \<Rightarrow> proc_fs_init now (root_dentry f) s | _ \<Rightarrow> None)
   | _ \<Rightarrow> None)"

section \<open>The manager\<close>

definition root_fs :: "'d vfs \<Rightarrow> file_system option" where
  "root_fs s = mounts s ''/''"

type_synonym 'd fat_new = "string \<Rightarrow> string \<Rightarrow> fs_flags \<Rightarrow> 'd vfs \<Rightarrow> ('d vfs \<times> file_system_meta) option"

definition mount ::
  "'d fat_new \<Rightarrow> nat \<Rightarrow> 'd ext4_lib \<Rightarrow> time_spec \<Rightarrow> string \<Rightarrow> string \<Rightarrow> bool \<Rightarrow> fs_type \<Rightarrow> fs_flags \<Rightarrow> 'd vfs \<Rightarrow> ('d vfs \<times> unit os_result) option" where
  "mount fat_new fuel x now mount_point dev_name device ty flags s =
     (if \<not> device \<and> ty = VFAT then Some (s\<lparr>mounts := (mounts s)(mount_point \<mapsto> EmptyFileSystem)\<rparr>, Inr ())
      else and_then
        (case ty of
           VFAT \<Rightarrow> do { (s, f) \<leftarrow> fat_new mount_point dev_name flags s; Some (s, Inr f) }
         | DevFs \<Rightarrow> do { (s, f) \<leftarrow> dev_fs_new now mount_point flags s; Some (s, Inr f) }
         | TmpFs \<Rightarrow> do { (s, f) \<leftarrow> tmp_fs_new now mount_point flags s; Some (s, Inr f) }
         | ProcFs \<Rightarrow> do { (s, f) \<leftarrow> proc_fs_new now mount_point flags s; Some (s, Inr f) }
         | EXT4 \<Rightarrow> ext4_fs_new fuel x now mount_point dev_name device flags s)
        (\<lambda>s f. let s = cache_insert mount_point (root_dentry f) s in
               Some (s\<lparr>mounts := (mounts s)(mount_point \<mapsto> FileSystem f)\<rparr>, Inr ())))"

text \<open>
  \<^verbatim>\<open>unmount\<close> holds the lock of the manager, which \<^verbatim>\<open>path_to_dentry\<close> takes when the path is not cached. The build has the feature
  \<^verbatim>\<open>preliminary\<close>.
\<close>

definition unmount :: "string \<Rightarrow> 'd vfs \<Rightarrow> ('d vfs \<times> usize os_result) option" where
  "unmount mount_point s = (case mounts s mount_point of
     None \<Rightarrow> Some (s, Inl ENOENT)
   | Some _ \<Rightarrow>
       do { d \<leftarrow> path_to_dentry_cache (parent_path mount_point) s;
            e \<leftarrow> dentries s d;
            let s = set_dentry d (e\<lparr>d_child := bt_remove (dentry_name mount_point) (d_child e)\<rparr>) s;
            let s = (if mount_point \<noteq> ''/mnt'' then cache_remove mount_point s else s);
            Some (s\<lparr>mounts := (mounts s)(mount_point := None)\<rparr>, Inr 0) })"

text \<open>Booting. \<^verbatim>\<open>expect\<close> panics on an error.\<close>

definition mount_expect ::
  "'d fat_new \<Rightarrow> nat \<Rightarrow> 'd ext4_lib \<Rightarrow> time_spec \<Rightarrow> string \<Rightarrow> string \<Rightarrow> bool \<Rightarrow> fs_type \<Rightarrow> 'd vfs \<Rightarrow> 'd vfs option" where
  "mount_expect fat_new fuel x now mp dev_name device ty s =
     do { (s, r) \<leftarrow> mount fat_new fuel x now mp dev_name device ty MS_NOSUID s; (case r of Inr _ \<Rightarrow> Some s | Inl _ \<Rightarrow> None) }"

definition fs_init :: "'d fat_new \<Rightarrow> nat \<Rightarrow> 'd ext4_lib \<Rightarrow> time_spec \<Rightarrow> 'd vfs \<Rightarrow> 'd vfs option" where
  "fs_init fat_new fuel x now s =
     do { s \<leftarrow> mount_expect fat_new fuel x now ''/'' ''/dev/vda3'' True EXT4 s;
          s \<leftarrow> mount_expect fat_new fuel x now ''/dev'' ''Not implemented yet'' False DevFs s;
          s \<leftarrow> fs_initialise now ''/dev'' s;
          s \<leftarrow> mount_expect fat_new fuel x now ''/proc'' ''Not implemented yet'' False ProcFs s;
          s \<leftarrow> fs_initialise now ''/proc'' s;
          mount_expect fat_new fuel x now ''/tmp'' ''Not implemented yet'' False TmpFs s }"

definition vfs_empty :: "'d \<Rightarrow> 'd vfs" where
  "vfs_empty dk = \<lparr>dentries = Map.empty, inodes = Map.empty, dcache = Map.empty, mounts = Map.empty, files = Map.empty,
     next_did = 0, next_ino = 0, next_file = 0, disk = dk\<rparr>"

section \<open>Loading keeps the tree\<close>

text \<open>
  What is asked of the directories of a volume: the names of a listing are different and none has a slash or ends with white space.
\<close>

definition listing_ok :: "'d ext4_lib \<Rightarrow> bool" where
  "listing_ok x \<longleftrightarrow> (\<forall>p dk es. dir_entries x p dk = Some es \<longrightarrow> distinct (map fst (drop 2 es)) \<and> (\<forall>n \<in> fst ` set (drop 2 es). plain_name n))"

definition bare :: "'d ext4_lib \<Rightarrow> string \<Rightarrow> bool" where
  "bare x p \<longleftrightarrow> (\<forall>dk es. dir_entries x p dk = Some es \<longrightarrow> drop 2 es = [])"

text \<open>Loading changes the entries in \<open>D\<close> at most, makes no devices, and gives no children to a directory without a listing.\<close>

definition loads :: "'d ext4_lib \<Rightarrow> did set \<Rightarrow> 'd vfs \<Rightarrow> 'd vfs \<Rightarrow> bool" where
  "loads x D s s' \<longleftrightarrow> grows s s' \<and> (\<forall>z f. dentries s z = Some f \<longrightarrow> z \<notin> D \<longrightarrow> dentries s' z = Some f) \<and>
     (\<forall>z f. dentries s' z = Some f \<longrightarrow> bare x (d_path f) \<and> d_child f \<noteq> [] \<or> d_kind f = DevDentry \<longrightarrow> dentries s z = Some f)"

lemma loadsD:
  assumes "loads x D s s'"
  shows "grows s s'" "vfs_wf s'" "root_dentry_of s' = root_dentry_of s" "\<And>z f. dentries s z = Some f \<Longrightarrow> z \<notin> D \<Longrightarrow> dentries s' z = Some f"
    "\<And>r ns z. root_dentry_of s = Some r \<Longrightarrow> tree_at (dentries s) r ns = Some z \<Longrightarrow> tree_at (dentries s') r ns = Some z"
  using assms unfolding loads_def grows_def by blast+

lemma loads_refl: "vfs_wf s \<Longrightarrow> loads x D s s"
  by (simp add: loads_def grows_refl)

lemma loads_trans:
  assumes "loads x D s s'" "loads x D' s' s''"
  shows "loads x (D \<union> D') s s''"
  using assms grows_trans [of s s' s''] unfolding loads_def by (metis UnCI)

lemma loads_old: "loads x D s s' \<Longrightarrow> \<forall>z \<in> D - D'. dentries s z = None \<Longrightarrow> loads x D' s s'"
  unfolding loads_def by (metis DiffI option.distinct(1))

lemma loads_disk: "vfs_wf s \<Longrightarrow> loads x D s (s\<lparr>disk := dk\<rparr>)"
  by (simp add: loads_def grows_disk)

lemma attach_loads:
  assumes wf: "vfs_wf s" "root_dentry_of s = Some r" and d: "dentries s d = Some e" "bt_get (d_child e) n = None" "tree_at (dentries s) r ms = Some d" "d_kind e \<noteq> DevDentry"
    and n: "plain_name n" and b: "\<not> bare x (d_path e)"
  shows "\<exists>s' c ce. attach d n (push_path (d_path e) n) mode sz now s = Some (s', Some c) \<and> loads x {d} s s' \<and> dentries s' d = Some (e\<lparr>d_child := bt_insert n c (d_child e)\<rparr>) \<and>
    dentries s c = None \<and> dentries s' c = Some ce \<and> d_child ce = []"
proof -
  obtain s' c where a: "attach d n (push_path (d_path e) n) mode sz now s = Some (s', Some c)" "grows s s'" "c = next_did s"
    using attach_spec [OF wf d n, of mode sz now] by blast
  have c: "dentries s c = None" "d \<noteq> c" using wf(1) d(1) a(3) by (auto simp: vfs_wf_def)
  let ?ce = "\<lparr>d_kind = Ext4Dentry, d_name = format_path n, d_path = push_path (d_path e) n, d_inode = next_ino s, d_parent = Some d, d_child = []\<rparr>"
  have s': "dentries s' = (dentries s)(c \<mapsto> ?ce, d \<mapsto> e\<lparr>d_child := bt_insert n c (d_child e)\<rparr>)"
    using a(1,3) c(2) d(1) by (auto simp: attach_def new_inode_def new_dentry_def add_child_def set_dentry_def cache_insert_def Let_def)
  have "loads x {d} s s'" using a(2) c b d(4) unfolding loads_def s' by (auto split: if_splits)
  then show ?thesis using a(1) c s' by auto
qed

text \<open>The directory while its entries are loaded: it has the names \<open>N\<close>, and its children are new and have none themselves.\<close>

definition loading :: "'d ext4_lib \<Rightarrow> 'd vfs \<Rightarrow> did \<Rightarrow> dentry \<Rightarrow> string set \<Rightarrow> 'd vfs \<Rightarrow> bool" where
  "loading x s0 d e N s \<longleftrightarrow> loads x {d} s0 s \<and> (\<exists>C. dentries s d = Some (e\<lparr>d_child := C\<rparr>) \<and>
     (\<forall>n c. bt_get C n = Some c \<longrightarrow> n \<in> N \<and> dentries s0 c = None \<and> (\<exists>ce. dentries s c = Some ce \<and> d_child ce = [])))"

lemma loading_disk:
  assumes "loading x s0 d e N s"
  shows "loading x s0 d e N (s\<lparr>disk := dk\<rparr>)"
proof -
  have "vfs_wf s" using assms by (simp add: loading_def loads_def grows_def)
  from loads_disk [OF this, of x "{d}" dk] have "loads x {d} s0 (s\<lparr>disk := dk\<rparr>)"
    using assms loads_trans [of x "{d}" s0 s "{d}"] by (auto simp: loading_def)
  then show ?thesis using assms by (simp add: loading_def)
qed

lemma loading_attach:
  assumes l: "loading x s0 d e N s" and r: "root_dentry_of s0 = Some r" "tree_at (dentries s0) r ms = Some d" and d: "d_kind e \<noteq> DevDentry" "\<not> bare x (d_path e)" "dentries s0 d \<noteq> None"
    and n: "plain_name n" "n \<notin> N"
  shows "\<exists>s' c. attach d n (push_path (d_path e) n) mode sz now s = Some (s', Some c) \<and> loading x s0 d e (insert n N) s'"
proof -
  obtain C where C: "dentries s d = Some (e\<lparr>d_child := C\<rparr>)" "\<And>n c. bt_get C n = Some c \<Longrightarrow> n \<in> N \<and> dentries s0 c = None \<and> (\<exists>ce. dentries s c = Some ce \<and> d_child ce = [])"
    and ld: "loads x {d} s0 s" using l unfolding loading_def by blast
  have wf: "vfs_wf s" "root_dentry_of s = Some r" "tree_at (dentries s) r ms = Some d" using loadsD [OF ld] r by simp_all
  have no: "bt_get C n = None" using C(2) [of n] n(2) by (cases "bt_get C n") auto
  have bw: "bt_wf C" using wf(1) C(1) links_entryD(1) [of "dentries s" d] by (auto simp: vfs_wf_def tree_wf_def)
  obtain s' c ce where a: "attach d n (push_path (d_path e) n) mode sz now s = Some (s', Some c)" "loads x {d} s s'" "dentries s' d = Some (e\<lparr>d_child := bt_insert n c C\<rparr>)"
    "dentries s c = None" "dentries s' c = Some ce" "d_child ce = []"
    using attach_loads [OF wf(1,2) C(1) _ wf(3) _ n(1), of x mode sz now] no d by auto
  have ld': "loads x {d} s0 s'" using loads_trans [OF ld a(2)] by simp
  have "c \<noteq> d" using a(4) C(1) by auto
  then have new: "dentries s0 c = None" using loadsD(4) [OF ld, of c] a(4) by (cases "dentries s0 c") auto
  have "m \<in> insert n N \<and> dentries s0 k = None \<and> (\<exists>ke. dentries s' k = Some ke \<and> d_child ke = [])" if k: "bt_get (bt_insert n c C) m = Some k" for m k
  proof (cases "m = n")
    case True
    then show ?thesis using k bw a new by simp
  next
    case False
    then have "bt_get C m = Some k" using k bw by simp
    from C(2) [OF this] obtain ke where ke: "m \<in> N" "dentries s0 k = None" "dentries s k = Some ke" "d_child ke = []" by blast
    moreover have "k \<noteq> d" using ke(2) d(3) by auto
    ultimately show ?thesis using loadsD(4) [OF a(2) ke(3)] by simp
  qed
  then have "loading x s0 d e (insert n N) s'" using ld' a(3) unfolding loading_def by blast
  then show ?thesis using a(1) by blast
qed

lemma load_entry_loading:
  assumes l: "loading x s0 d e N s" and r: "root_dentry_of s0 = Some r" "tree_at (dentries s0) r ms = Some d" and d: "d_kind e \<noteq> DevDentry" "\<not> bare x (d_path e)" "dentries s0 d \<noteq> None"
    and n: "plain_name n" "n \<notin> N" and ok: "load_entry x now d (n, ty) s = Some (s', res)"
  shows "loading x s0 d e (insert n N) s'"
proof -
  obtain C where C: "dentries s d = Some (e\<lparr>d_child := C\<rparr>)" using l unfolding loading_def by blast
  have mono: "loading x s0 d e (insert n N) (s\<lparr>disk := dk\<rparr>)" for dk using loading_disk [OF l] unfolding loading_def by blast
  have mono0: "loading x s0 d e (insert n N) s" using l unfolding loading_def by blast
  have at: "\<exists>s' c. attach d n (push_path (d_path e) n) mode sz now (s\<lparr>disk := dk\<rparr>) = Some (s', Some c) \<and> loading x s0 d e (insert n N) s'" for mode sz dk
    by (rule loading_attach [OF loading_disk [OF l] r d n])
  have at0: "\<exists>s' c. attach d n (push_path (d_path e) n) mode sz now s = Some (s', Some c) \<and> loading x s0 d e (insert n N) s'" for mode sz
    by (rule loading_attach [OF l r d n])
  obtain dk fr where fo: "file_open x (push_path (d_path e) n) O_RDWR (disk s) = (dk, fr)" by (cases "file_open x (push_path (d_path e) n) O_RDWR (disk s)")
  define fin where "fin = (\<lambda>mode (s::'a vfs) sz. do { (s, _) \<leftarrow> attach d n (push_path (d_path e) n) mode sz now s; Some (s, Inr () :: unit os_result) })"
  have fin: "\<exists>s'. fin mode (s\<lparr>disk := dk\<rparr>) sz = Some (s', Inr ()) \<and> loading x s0 d e (insert n N) s'" for mode sz dk
    using at [of mode sz dk] unfolding fin_def by auto
  have fin0: "\<exists>s'. fin mode s sz = Some (s', Inr ()) \<and> loading x s0 d e (insert n N) s'" for mode sz
    using at0 [of mode sz] unfolding fin_def by auto
  have eq: "load_entry x now d (n, ty) s = (if CHR 0x00 \<in> set n then Some (s, Inl EINVAL) else and_then
      (case inode_mode_from ty of Regular \<Rightarrow> on_disk (file_open x (push_path (d_path e) n) O_RDWR) s
         | Directory \<Rightarrow> Some (s, map_sum id (\<lambda>_. 0) (dir_open x (push_path (d_path e) n) (disk s))) | _ \<Rightarrow> None) (fin (inode_mode_from ty)))"
    using C cwd_and_name_plain [OF n(1)] unfolding load_entry_def fin_def by (simp add: Let_def split: inode_mode.split)
  show ?thesis
  proof (cases "CHR 0x00 \<in> set n")
    case True
    then show ?thesis using ok mono0 unfolding eq by simp
  next
    case False
    note ok' = ok [unfolded eq, simplified False if_False]
    show ?thesis
    proof (cases "inode_mode_from ty")
      case Regular
      then show ?thesis using ok' fo fin [of Regular dk] mono [of dk] by (cases fr) (auto simp: and_then_def on_disk_def, metis option.inject prod.inject)
    next
      case Directory
      then show ?thesis using ok' fin0 [of Directory 0] mono0 by (cases "dir_open x (push_path (d_path e) n) (disk s)") (auto simp: and_then_def)
    qed (use ok' in \<open>simp_all add: and_then_def\<close>)
  qed
qed

lemma for_each_loading:
  assumes "loading x s0 d e N s" and r: "root_dentry_of s0 = Some r" "tree_at (dentries s0) r ms = Some d" and d: "d_kind e \<noteq> DevDentry" "\<not> bare x (d_path e)" "dentries s0 d \<noteq> None"
    and "distinct (map fst es)" "\<forall>n \<in> fst ` set es. plain_name n \<and> n \<notin> N" "for_each (load_entry x now d) es s = Some (s', res)"
  shows "\<exists>N'. loading x s0 d e N' s'"
  using assms(1,7-9)
proof (induction es arbitrary: s N)
  case Nil
  then show ?case by auto
next
  case (Cons ent es)
  obtain n ty where ent: "ent = (n, ty)" by (cases ent)
  obtain s1 r1 where s1: "load_entry x now d (n, ty) s = Some (s1, r1)"
    using Cons.prems(4) ent by (cases "load_entry x now d (n, ty) s") (auto simp: and_then_def)
  have l: "loading x s0 d e (insert n N) s1"
    by (rule load_entry_loading [OF Cons.prems(1) r d _ _ s1]) (use Cons.prems(3) ent in auto)
  show ?case
  proof (cases r1)
    case (Inl er)
    then show ?thesis using Cons.prems(4) ent s1 l by (auto simp: and_then_def)
  next
    case (Inr u)
    then have "for_each (load_entry x now d) es s1 = Some (s', res)" using Cons.prems(4) ent s1 by (simp add: and_then_def)
    moreover have "distinct (map fst es)" "\<forall>m \<in> fst ` set es. plain_name m \<and> m \<notin> insert n N" using Cons.prems(2,3) ent by auto
    ultimately show ?thesis using Cons.IH [OF l] by blast
  qed
qed

lemma load_child_loading:
  assumes wf: "vfs_wf s" "root_dentry_of s = Some r" "tree_at (dentries s) r ms = Some d" and d: "dentries s d = Some e" "d_kind e \<noteq> DevDentry" "d_child e = []"
    and x: "listing_ok x" and ok: "load_child x now d s = Some (s', res)"
  shows "\<exists>N. loading x s d e N s'"
proof -
  obtain es where es: "dir_entries x (d_path e) (disk s) = Some es" "for_each (load_entry x now d) (drop 2 es) s = Some (s', res)"
    using ok d(1) by (auto simp: load_child_def split: bind_splits)
  have "dentries s d = Some (e\<lparr>d_child := []\<rparr>)" using d(1,3) by (cases e) simp
  then have start: "loading x s d e {} s" using loads_refl [OF wf(1)] by (auto simp: loading_def bt_get_def)
  show ?thesis
  proof (cases "bare x (d_path e)")
    case True
    then have "drop 2 es = []" using es(1) by (simp add: bare_def)
    then show ?thesis using es(2) start by auto
  next
    case False
    show ?thesis
      by (rule for_each_loading [OF start wf(2,3) d(2) False _ _ _ es(2)]) (use d(1) x es(1) in \<open>auto simp: listing_ok_def\<close>)
  qed
qed

text \<open>The children of a directory are loaded one after the other, which does not change the others.\<close>

lemma children_loads:
  assumes step: "\<And>c ms s s' res. c \<in> set cs \<Longrightarrow> vfs_wf s \<Longrightarrow> root_dentry_of s = Some r \<Longrightarrow> tree_at (dentries s) r ms = Some c \<Longrightarrow>
      (\<exists>ce. dentries s c = Some ce \<and> d_child ce = []) \<Longrightarrow> f c s = Some (s', res) \<Longrightarrow> loads x {c} s s'"
    and "vfs_wf s" "root_dentry_of s = Some r" "distinct cs" "\<forall>c \<in> set cs. (\<exists>ms. tree_at (dentries s) r ms = Some c) \<and> (\<exists>ce. dentries s c = Some ce \<and> d_child ce = [])"
    "for_each f cs s = Some (s', res)"
  shows "loads x (set cs) s s'"
  using assms
proof (induction cs arbitrary: s)
  case Nil
  then show ?case by (simp add: loads_refl)
next
  case (Cons c cs)
  obtain s1 r1 where s1: "f c s = Some (s1, r1)"
    using Cons.prems(6) by (cases "f c s") (auto simp: and_then_def)
  obtain ms where ms: "tree_at (dentries s) r ms = Some c" and leaf: "\<exists>ce. dentries s c = Some ce \<and> d_child ce = []" using Cons.prems(5) by auto
  have l: "loads x {c} s s1" using Cons.prems(1) [OF _ Cons.prems(2,3) ms leaf s1] by simp
  show ?case
  proof (cases r1)
    case (Inl er)
    then have "s' = s1" using Cons.prems(6) s1 by (auto simp: and_then_def)
    then show ?thesis using loads_trans [OF l loads_refl [OF loadsD(2) [OF l], of x "set cs"]] by simp
  next
    case (Inr u)
    have g: "vfs_wf s1" "root_dentry_of s1 = Some r" using loadsD(2,3) [OF l] Cons.prems(3) by simp_all
    have "\<forall>k \<in> set cs. (\<exists>ms. tree_at (dentries s1) r ms = Some k) \<and> (\<exists>ke. dentries s1 k = Some ke \<and> d_child ke = [])"
      using Cons.prems(3,4,5) loadsD(4,5) [OF l] by (metis distinct.simps(2) list.set_intros(2) singletonD)
    moreover have "for_each f cs s1 = Some (s', res)" using Cons.prems(6) s1 Inr by (simp add: and_then_def)
    ultimately have "loads x (set cs) s1 s'" using Cons.IH [OF _ g] Cons.prems(1,4) by auto
    from loads_trans [OF l this] show ?thesis by simp
  qed
qed

lemma children_distinct:
  assumes "links_ok T" "T d = Some e"
  shows "distinct (map snd (d_child e))"
proof -
  have wf: "bt_wf (d_child e)" by (rule links_entryD(1) [OF assms])
  have "p = q" if pq: "p \<in> set (d_child e)" "q \<in> set (d_child e)" "snd p = snd q" for p q
  proof -
    have g: "bt_get (d_child e) (fst p) = Some (snd p)" "bt_get (d_child e) (fst q) = Some (snd p)"
      unfolding bt_get_iff [OF wf] using pq by (metis prod.collapse)+
    obtain ce where ce: "T (snd p) = Some ce" by (rule links_childD [OF assms g(1)])
    have "fst p = fst q" using only_child(2) [OF assms g(1) ce] only_child(2) [OF assms g(2) ce] by simp
    then show ?thesis using pq(3) by (rule prod_eqI)
  qed
  then have "inj_on snd (set (d_child e))" by (rule inj_onI)
  moreover have "distinct (d_child e)" using bt_wf_distinct [OF wf] by (simp add: distinct_map)
  ultimately show ?thesis by (simp add: distinct_map)
qed

lemma load_all_child_loads:
  assumes "listing_ok x" "vfs_wf s" "root_dentry_of s = Some r" "tree_at (dentries s) r ms = Some d" "dentries s d = Some e" "d_child e = []"
    "load_all_child fuel x now d s = Some (s', res)"
  shows "loads x {d} s s'"
  using assms(2-7)
proof (induction fuel arbitrary: d e ms s s' res)
  case 0
  then show ?case by simp
next
  case (Suc fuel)
  obtain i where i: "d_kind e = Ext4Dentry" "inodes s (d_inode e) = Some i"
    using Suc.prems(4,6) by (auto simp: rassert_def split: bind_splits if_splits)
  show ?case
  proof (cases "i_mode i = Directory")
    case False
    then show ?thesis using Suc.prems i loads_refl [OF Suc.prems(1)] by simp
  next
    case True
    then have run: "and_then (load_child x now d s) (\<lambda>s _. do { e \<leftarrow> dentries s d; for_each (load_all_child fuel x now) (map snd (d_child e)) s }) = Some (s', res)"
      using Suc.prems(4,6) i by simp
    then obtain s1 r1 where s1: "load_child x now d s = Some (s1, r1)" by (cases "load_child x now d s") (auto simp: and_then_def)
    obtain N where ld: "loading x s d e N s1" using load_child_loading [OF Suc.prems(1-4) _ Suc.prems(5) assms(1) s1] i(1) by auto
    then obtain C where C: "loads x {d} s s1" "dentries s1 d = Some (e\<lparr>d_child := C\<rparr>)"
      "\<And>n c. bt_get C n = Some c \<Longrightarrow> dentries s c = None \<and> (\<exists>ce. dentries s1 c = Some ce \<and> d_child ce = [])" unfolding loading_def by blast
    show ?thesis
    proof (cases r1)
      case (Inl er)
      then show ?thesis using run s1 C(1) by (auto simp: and_then_def)
    next
      case (Inr u)
      have g: "vfs_wf s1" "root_dentry_of s1 = Some r" "tree_at (dentries s1) r ms = Some d" using loadsD [OF C(1)] Suc.prems(2,3) by simp_all
      have l1: "links_ok (dentries s1)" using g(1) by (auto simp: vfs_wf_def tree_wf_def)
      have dc: "distinct (map snd C)" using children_distinct [OF l1 C(2)] by simp
      have bw: "bt_wf C" using links_entryD(1) [OF l1 C(2)] by simp
      have kids: "dentries s c = None \<and> (\<exists>ms. tree_at (dentries s1) r ms = Some c) \<and> (\<exists>ce. dentries s1 c = Some ce \<and> d_child ce = [])" if cC: "c \<in> set (map snd C)" for c
      proof -
        obtain q where q: "q \<in> set C" "c = snd q" using cC by auto
        then have n: "bt_get C (fst q) = Some c" using bt_get_iff [OF bw] by simp
        from C(3) [OF n] tree_at_snoc [OF C(2) g(3), of "fst q" c] n show ?thesis by auto
      qed
      have "for_each (load_all_child fuel x now) (map snd C) s1 = Some (s', res)" using run s1 Inr C(2) by (simp add: and_then_def)
      then have "loads x (set (map snd C)) s1 s'"
        using children_loads [where f = "load_all_child fuel x now" and cs = "map snd C" and s = s1 and r = r] Suc.IH g(1,2) dc kids by blast
      from loads_trans [OF C(1) this] show ?thesis by (rule loads_old) (use kids in auto)
    qed
  qed
qed

section \<open>Mounting\<close>

text \<open>Loading does not look at the table of mounted file systems.\<close>

abbreviation on_mounts :: "(string \<rightharpoonup> file_system) \<Rightarrow> ('d vfs \<times> 'r) option \<Rightarrow> ('d vfs \<times> 'r) option" where
  "on_mounts M \<equiv> map_option (map_prod (mounts_update (\<lambda>_. M)) id)"

lemma and_then_mounts:
  assumes "\<And>s a. g (s\<lparr>mounts := M\<rparr>) a = on_mounts M (g s a)"
  shows "and_then (on_mounts M m) g = on_mounts M (and_then m g)"
  using assms by (auto simp: and_then_def split: option.split sum.split)

lemma for_each_mounts:
  assumes "\<And>a s. f a (s\<lparr>mounts := M\<rparr>) = on_mounts M (f a s)"
  shows "for_each f as (s\<lparr>mounts := M\<rparr>) = on_mounts M (for_each f as s)"
  by (induction as arbitrary: s) (simp_all add: assms and_then_mounts)

lemma attach_mounts: "attach d n p mode sz now (s\<lparr>mounts := M\<rparr>) = on_mounts M (attach d n p mode sz now s)"
  by (cases "dentries s d") (auto simp: attach_def new_inode_def new_dentry_def add_child_def set_dentry_def cache_insert_def Let_def)

lemma load_entry_mounts: "load_entry x now d ent (s\<lparr>mounts := M\<rparr>) = on_mounts M (load_entry x now d ent s)"
proof -
  obtain n ty where ent: "ent = (n, ty)" by (cases ent)
  have fin: "(do { (s', _) \<leftarrow> attach d n p mode sz now (t\<lparr>mounts := M\<rparr>); Some (s', Inr () :: unit os_result) }) =
      on_mounts M (do { (s', _) \<leftarrow> attach d n p mode sz now t; Some (s', Inr ()) })" for p mode sz and t :: "'a vfs"
    by (cases "attach d n p mode sz now t") (auto simp: attach_mounts)
  have od: "on_disk f (t\<lparr>mounts := M\<rparr>) = on_mounts M (on_disk f t)" for f :: "'a \<Rightarrow> 'a \<times> usize os_result" and t by (simp add: on_disk_def split: prod.split)
  have dr: "and_then (Some (t\<lparr>mounts := M\<rparr>, r)) g = on_mounts M (and_then (Some (t, r)) g)" if "\<And>s a. g (s\<lparr>mounts := M\<rparr>) a = on_mounts M (g s a)"
    for t :: "'a vfs" and r :: "usize os_result" and g :: "'a vfs \<Rightarrow> usize \<Rightarrow> ('a vfs \<times> unit os_result) option"
    using that by (cases r) (simp_all add: and_then_def)
  show ?thesis
  proof (cases "inode_mode_from ty")
    case Regular
    then show ?thesis by (auto simp: ent load_entry_def Let_def od and_then_mounts fin split: bind_splits)
  next
    case Directory
    then show ?thesis by (auto simp: ent load_entry_def Let_def dr fin split: bind_splits)
  qed (auto simp: ent load_entry_def Let_def and_then_def split: bind_splits)
qed

lemma load_all_child_mounts: "load_all_child fuel x now d (s\<lparr>mounts := M\<rparr>) = on_mounts M (load_all_child fuel x now d s)"
proof (induction fuel arbitrary: d s)
  case 0
  then show ?case by simp
next
  case (Suc fuel)
  have lc: "load_child x now d (s\<lparr>mounts := M\<rparr>) = on_mounts M (load_child x now d s)"
    using for_each_mounts [of "load_entry x now d" M, OF load_entry_mounts] by (cases "dentries s d") (auto simp: load_child_def split: bind_splits)
  have rest: "(do { e \<leftarrow> dentries (t\<lparr>mounts := M\<rparr>) d; for_each (load_all_child fuel x now) (map snd (d_child e)) (t\<lparr>mounts := M\<rparr>) }) =
      on_mounts M (do { e \<leftarrow> dentries t d; for_each (load_all_child fuel x now) (map snd (d_child e)) t })" for t :: "'a vfs"
    using for_each_mounts [of "load_all_child fuel x now" M, OF Suc.IH] by (cases "dentries t d") simp_all
  have "and_then (load_child x now d (s\<lparr>mounts := M\<rparr>)) (\<lambda>s _. do { e \<leftarrow> dentries s d; for_each (load_all_child fuel x now) (map snd (d_child e)) s }) =
      on_mounts M (and_then (load_child x now d s) (\<lambda>s _. do { e \<leftarrow> dentries s d; for_each (load_all_child fuel x now) (map snd (d_child e)) s }))"
    unfolding lc by (rule and_then_mounts) (rule rest)
  then show ?case by (cases "dentries s d") (auto simp: rassert_def id_def split: bind_splits)
qed

lemma hides_leaf:
  assumes "\<And>b. bt_get (d_child e) n = Some b \<Longrightarrow> \<exists>be. T b = Some be \<and> d_child be = []"
  shows "hides T e n z \<longleftrightarrow> bt_get (d_child e) n = Some z"
  using assms by (auto simp: hides_def)

text \<open>Mounting a file system without a disk over a name that is free, or whose entry has no children.\<close>

lemma simple_mount_spec:
  assumes wf: "vfs_wf s" "root_dentry_of s = Some r" and d: "dentries s d = Some e" "tree_at (dentries s) r ms = Some d" "d_kind e \<noteq> DevDentry" "dcache s (d_path e) = Some d"
    and b: "\<And>b. bt_get (d_child e) n = Some b \<Longrightarrow> \<exists>be. dentries s b = Some be \<and> d_child be = [] \<and> d_kind be \<noteq> DevDentry"
    and n: "plain_name n" and p: "p = push_path (d_path e) n"
  shows "\<exists>s' c i. simple_fs_new ty now p flags s = Some (s', \<lparr>f_dev = ''TODO Unimplemented'', f_type = ty, f_flags = flags, root_dentry = c, root_inode = i\<rparr>) \<and>
    (let s'' = cache_insert p c s'\<lparr>mounts := (mounts s)(p \<mapsto> FileSystem \<lparr>f_dev = ''TODO Unimplemented'', f_type = ty, f_flags = flags, root_dentry = c, root_inode = i\<rparr>)\<rparr> in
     vfs_wf s'' \<and> root_dentry_of s'' = Some r \<and> tree_at (dentries s'') r (ms @ [n]) = Some c \<and>
     (\<forall>ns z. tree_at (dentries s) r ns = Some z \<longrightarrow> bt_get (d_child e) n \<noteq> Some z \<longrightarrow> tree_at (dentries s'') r ns = Some z) \<and>
     dentries s'' = (dentries s)(c \<mapsto> \<lparr>d_kind = SimpleDentry, d_name = n, d_path = p, d_inode = i, d_parent = Some d, d_child = []\<rparr>,
       d \<mapsto> e\<lparr>d_child := bt_insert n c (d_child e)\<rparr>) \<and> dcache s'' = (dcache s)(p \<mapsto> c) \<and> c = next_did s \<and>
     inodes s'' i = Some (inode_meta_new i Directory 0 now now now) \<and> mounts s' = mounts s)"
proof -
  let ?c = "next_did s"
  let ?i = "next_ino s"
  let ?ce = "\<lparr>d_kind = SimpleDentry, d_name = n, d_path = p, d_inode = ?i, d_parent = Some d, d_child = []\<rparr>"
  let ?f = "\<lparr>f_dev = ''TODO Unimplemented'', f_type = ty, f_flags = flags, root_dentry = ?c, root_inode = ?i\<rparr>"
  have t: "tree_wf (dentries s) (dcache s) r" using wf by (auto simp: vfs_wf_def)
  have ms: "\<forall>n \<in> set ms. name_ok n" "d_path e = abs_path ms" using tree_wf_path [OF t d(2,1)] d(3) plain_names by auto
  have nk: "name_ok n" and nf: "format_path n = n" using n by (simp_all add: plain_name_def)
  have pa: "p = abs_path (ms @ [n])" using p ms push_path_name [OF ms(1)] by simp
  have ok: "\<forall>m \<in> set (ms @ [n]). name_ok m" using ms(1) nk by simp
  have pp: "parent_path p = d_path e" "dentry_name p = n" "p \<noteq> ''/''"
    using pa ms(2) parent_path_abs [OF ok] dentry_name_abs [OF ok] abs_path_inj [OF ok, of "[]"] by (auto simp: abs_path_def)
  have dc: "d \<noteq> ?c" using d(1) wf(1) unfolding vfs_wf_def by auto
  obtain s' where s': "simple_fs_new ty now p flags s = Some (s', ?f)"
    "dentries s' = (dentries s)(?c \<mapsto> ?ce, d \<mapsto> e\<lparr>d_child := bt_insert n ?c (d_child e)\<rparr>)" "dcache s' = dcache s" "mounts s' = mounts s"
    "next_did s' = next_did s + 1" "inodes s' = (inodes s)(?i \<mapsto> inode_meta_new ?i Directory 0 now now now)" "next_ino s' = ?i + 1"
    using d(1,4) pp nf dc by (auto simp: simple_fs_new_def new_inode_def new_dentry_def add_child_def set_dentry_def Let_def)
  define s'' where "s'' = cache_insert p ?c s'\<lparr>mounts := (mounts s)(p \<mapsto> FileSystem ?f)\<rparr>"
  have f: "dentries s'' = dentries s'" "dcache s'' = (dcache s)(p \<mapsto> ?c)" "next_did s'' = next_did s + 1" "inodes s'' = inodes s'" "next_ino s'' = ?i + 1"
    using s' by (simp_all add: s''_def cache_insert_def)
  have rt: "root_dentry_of s'' = Some r" using wf(2) pp(3) by (simp add: root_dentry_of_def s''_def)
  have hd: "hides (dentries s) e n z \<longleftrightarrow> bt_get (d_child e) n = Some z" for z by (rule hides_leaf) (use b in blast)
  have h: "z \<noteq> d \<and> (\<forall>q. dcache s q = Some z \<longrightarrow> q = d_path ?ce)" if z: "hides (dentries s) e n z" for z
  proof -
    have zb: "bt_get (d_child e) n = Some z" using z hd by simp
    obtain be where be: "dentries s z = Some be" "d_child be = []" "d_kind be \<noteq> DevDentry" using b [OF zb] by blast
    have l: "links_ok (dentries s)" using t by (simp add: tree_wf_def)
    obtain ze where "dentries s z = Some ze" "d_path ze = child_path e ze n" by (rule links_childD [OF l d(1) zb])
    then have bp: "d_path be = p" using be p by (simp add: child_path_def)
    have "z \<noteq> d" using be(1,2) zb d(1) by (auto simp: bt_get_def)
    moreover have "q = p" if "dcache s q = Some z" for q using t that be(1) bp unfolding tree_wf_def by (metis option.inject)
    ultimately show ?thesis by simp
  qed
  have "\<forall>i. next_ino s'' \<le> i \<longrightarrow> inodes s'' i = None" using wf(1) s'(6) f by (auto simp: vfs_wf_def)
  moreover have "inodes s'' (d_inode ?ce) \<noteq> None" "\<forall>j. inodes s j \<noteq> None \<longrightarrow> inodes s'' j \<noteq> None" using s'(6) f by auto
  moreover have "dentries s'' = (dentries s)(?c \<mapsto> ?ce, d \<mapsto> e\<lparr>d_child := bt_insert n ?c (d_child e)\<rparr>)" using s'(2) f by simp
  moreover have "d_path ?ce = child_path e ?ce n" "dcache s'' = (dcache s)(d_path ?ce \<mapsto> ?c)" using p f by (simp_all add: child_path_def)
  ultimately have "vfs_wf s''" "tree_at (dentries s'') r (ms @ [n]) = Some ?c"
    "\<And>ns z. tree_at (dentries s) r ns = Some z \<Longrightarrow> \<not> hides (dentries s) e n z \<Longrightarrow> tree_at (dentries s'') r ns = Some z"
    using vfs_add [OF wf d(1-3) h _ _ _ _ n _ _ rt refl f(3)] by simp_all
  then show ?thesis using s' f rt hd unfolding s''_def [symmetric] Let_def
    by (intro exI [of _ s'] exI [of _ ?c] exI [of _ ?i]) (simp add: s''_def cache_insert_def)
qed

text \<open>The devices of a directory.\<close>

lemma add_device_spec:
  assumes wf: "vfs_wf s" "root_dentry_of s = Some r" and d: "dentries s d = Some e" "bt_get (d_child e) n = None" "tree_at (dentries s) r ms = Some d" "d_kind e \<noteq> DevDentry"
    and n: "plain_name n"
  shows "\<exists>s' c ce. add_device now d (n, mode) s = Some s' \<and> grows s s' \<and> mounts s' = mounts s \<and> dentries s' d = Some (e\<lparr>d_child := bt_insert n c (d_child e)\<rparr>) \<and>
    tree_at (dentries s') r (ms @ [n]) = Some c \<and> dentries s' c = Some ce \<and> d_kind ce = DevDentry \<and> d_path ce = d_path e @ n \<and> map_option i_mode (inode_of c s') = Some mode \<and>
    (\<forall>p. p \<noteq> d_path e @ n \<longrightarrow> dcache s' p = dcache s p) \<and> (\<forall>z f. dentries s z = Some f \<longrightarrow> z \<noteq> d \<longrightarrow> dentries s' z = Some f)"
proof -
  let ?c = "next_did s"
  let ?ce = "\<lparr>d_kind = DevDentry, d_name = n, d_path = d_path e @ n, d_inode = next_ino s, d_parent = Some d, d_child = []\<rparr>"
  have f: "format_path n = n" using n by (simp add: plain_name_def)
  have nc: "dentries s ?c = None" using wf(1) by (auto simp: vfs_wf_def)
  then have dc: "d \<noteq> ?c" using d(1) by auto
  obtain s' where s': "add_device now d (n, mode) s = Some s'"
    "dentries s' = (dentries s)(?c \<mapsto> ?ce, d \<mapsto> e\<lparr>d_child := bt_insert n ?c (d_child e)\<rparr>)" "dcache s' = (dcache s)(d_path ?ce \<mapsto> ?c)" "mounts s' = mounts s"
    "next_did s' = next_did s + 1" "inodes s' = (inodes s)(next_ino s \<mapsto> inode_meta_new (next_ino s) mode (of_nat SECTOR_SIZE) now now now)" "next_ino s' = next_ino s + 1"
    using d(1) f dc by (auto simp: add_device_def new_inode_def new_dentry_def add_child_def set_dentry_def cache_insert_def Let_def)
  have "\<forall>i. next_ino s' \<le> i \<longrightarrow> inodes s' i = None" using wf(1) s'(6,7) by (auto simp: vfs_wf_def)
  then have g: "grows s s'" "tree_at (dentries s') r (ms @ [n]) = Some ?c"
    using grows_add [OF wf d, of ?ce s' ?c] s' n by (auto simp: child_path_def)
  have c: "dentries s' ?c = Some ?ce" "dentries s' d = Some (e\<lparr>d_child := bt_insert n ?c (d_child e)\<rparr>)" using s'(2) dc by auto
  have "map_option i_mode (inode_of ?c s') = Some mode" using c(1) s'(6) by (simp add: inode_of_def inode_meta_new_def)
  moreover have "\<forall>z f. dentries s z = Some f \<longrightarrow> z \<noteq> d \<longrightarrow> dentries s' z = Some f" using s'(2) nc by auto
  ultimately show ?thesis using s'(1,3,4) g c by (intro exI [of _ s'] exI [of _ ?c] exI [of _ ?ce]) simp
qed

text \<open>A device of the tree.\<close>

definition device_at :: "'d vfs \<Rightarrow> did \<Rightarrow> string list \<Rightarrow> string \<Rightarrow> bool" where
  "device_at s r ms n \<longleftrightarrow> (\<exists>c ce. tree_at (dentries s) r (ms @ [n]) = Some c \<and> dentries s c = Some ce \<and> d_kind ce = DevDentry \<and> d_path ce = abs_path ms @ n)"

definition boots :: "did \<Rightarrow> 'd vfs \<Rightarrow> 'd vfs \<Rightarrow> bool" where
  "boots d s s' \<longleftrightarrow> grows s s' \<and> mounts s' = mounts s \<and> (\<forall>z f. dentries s z = Some f \<longrightarrow> z \<noteq> d \<longrightarrow> dentries s' z = Some f)"

lemma devices_spec:
  assumes "vfs_wf s" "root_dentry_of s = Some r" "dentries s d = Some e" "tree_at (dentries s) r ms = Some d" "d_kind e \<noteq> DevDentry"
    "distinct (map fst nms)" "\<forall>n \<in> fst ` set nms. plain_name n \<and> bt_get (d_child e) n = None" "\<forall>n \<in> fst ` set nms. abs_path ms @ n \<noteq> q"
  shows "\<exists>s'. foldM (add_device now d) nms s = Some s' \<and> boots d s s' \<and> (\<forall>n \<in> fst ` set nms. device_at s' r ms n) \<and> dcache s' q = dcache s q"
  using assms
proof (induction nms arbitrary: s e)
  case Nil
  then show ?case by (simp add: boots_def grows_refl)
next
  case (Cons nm nms)
  obtain n mode where nm: "nm = (n, mode)" by (cases nm)
  have t: "tree_wf (dentries s) (dcache s) r" using Cons.prems(1,2) by (auto simp: vfs_wf_def)
  have pe: "d_path e = abs_path ms" using tree_wf_path(1) [OF t Cons.prems(4,3,5)] .
  have bw: "bt_wf (d_child e)" using t links_entryD(1) Cons.prems(3) by (auto simp: tree_wf_def)
  obtain s1 c ce where s1: "add_device now d (n, mode) s = Some s1" "grows s s1" "mounts s1 = mounts s" "dentries s1 d = Some (e\<lparr>d_child := bt_insert n c (d_child e)\<rparr>)"
    "tree_at (dentries s1) r (ms @ [n]) = Some c" "dentries s1 c = Some ce" "d_kind ce = DevDentry" "d_path ce = d_path e @ n"
    "\<forall>p. p \<noteq> d_path e @ n \<longrightarrow> dcache s1 p = dcache s p" "\<forall>z f. dentries s z = Some f \<longrightarrow> z \<noteq> d \<longrightarrow> dentries s1 z = Some f"
    using add_device_spec [OF Cons.prems(1-3) _ Cons.prems(4,5), of n now mode] Cons.prems(7) nm by auto
  have g: "vfs_wf s1" "root_dentry_of s1 = Some r" "tree_at (dentries s1) r ms = Some d" using s1(2) Cons.prems(2,4) by (auto simp: grows_def)
  have ds: "distinct (map fst nms)" and qs: "\<forall>n \<in> fst ` set nms. abs_path ms @ n \<noteq> q" using Cons.prems(6,8) by simp_all
  have nms: "\<forall>m \<in> fst ` set nms. plain_name m \<and> bt_get (d_child (e\<lparr>d_child := bt_insert n c (d_child e)\<rparr>)) m = None"
    using Cons.prems(6,7) nm bw by auto
  have k: "d_kind (e\<lparr>d_child := bt_insert n c (d_child e)\<rparr>) \<noteq> DevDentry" using Cons.prems(5) by simp
  from Cons.IH [OF g(1,2) s1(4) g(3) k ds nms qs] obtain s' where s': "foldM (add_device now d) nms s1 = Some s'" "boots d s1 s'" "\<forall>n \<in> fst ` set nms. device_at s' r ms n" "dcache s' q = dcache s1 q"
    by blast
  have "c \<noteq> d" using s1(4,6,7) Cons.prems(5) by auto
  then have "dentries s' c = Some ce" "tree_at (dentries s') r (ms @ [n]) = Some c" using s'(2) s1(5,6) g(2) by (simp_all add: boots_def grows_def)
  then have "device_at s' r ms n" using s1(7,8) pe by (auto simp: device_at_def)
  moreover have "boots d s s'" using s'(2) s1(3,10) grows_trans [OF s1(2)] by (simp add: boots_def)
  moreover have "dcache s' q = dcache s q" using s'(4) s1(9) pe Cons.prems(8) nm by auto
  ultimately show ?case using s' s1(1) nm by auto
qed

section \<open>Booting\<close>

text \<open>The state while the kernel mounts: nothing of the names \<open>N\<close> of the root directory is in the way.\<close>

definition leaf_entry :: "'d vfs \<Rightarrow> did \<Rightarrow> bool" where
  "leaf_entry s b \<longleftrightarrow> (\<exists>be. dentries s b = Some be \<and> d_child be = [] \<and> d_kind be \<noteq> DevDentry)"

definition boot_ok :: "'d vfs \<Rightarrow> did \<Rightarrow> string set \<Rightarrow> bool" where
  "boot_ok s r N \<longleftrightarrow> vfs_wf s \<and> root_dentry_of s = Some r \<and> dcache s ''/'' = Some r \<and>
     (\<exists>e. dentries s r = Some e \<and> (\<forall>n \<in> N. \<forall>b. bt_get (d_child e) n = Some b \<longrightarrow> leaf_entry s b))"

lemma boot_okD:
  assumes "boot_ok s r N"
  obtains e where "vfs_wf s" "root_dentry_of s = Some r" "dcache s ''/'' = Some r" "dentries s r = Some e" "d_path e = ''/''" "d_kind e \<noteq> DevDentry"
    "bt_wf (d_child e)" "tree_at (dentries s) r [] = Some r" "\<And>n b. n \<in> N \<Longrightarrow> bt_get (d_child e) n = Some b \<Longrightarrow> leaf_entry s b"
proof -
  obtain e where e: "vfs_wf s" "root_dentry_of s = Some r" "dcache s ''/'' = Some r" "dentries s r = Some e" "\<forall>n \<in> N. \<forall>b. bt_get (d_child e) n = Some b \<longrightarrow> leaf_entry s b"
    using assms unfolding boot_ok_def by blast
  have t: "tree_wf (dentries s) (dcache s) r" using e(1,2) by (auto simp: vfs_wf_def)
  then have "d_path e = ''/''" "d_kind e \<noteq> DevDentry" using e(4) by (auto simp: tree_wf_def)
  moreover have "bt_wf (d_child e)" using t links_entryD(1) e(4) by (auto simp: tree_wf_def)
  ultimately show thesis using that e by simp
qed

lemma root_push: "push_path ''/'' n = ''/'' @ n"
  by (simp add: push_path_def ends_with_slash_def)

lemma mount_boot:
  assumes ok: "boot_ok s r N" and n: "n \<in> N" "plain_name n" and ty: "ty = DevFs \<or> ty = TmpFs \<or> ty = ProcFs"
  shows "\<exists>s' c ce f. mount fat fuel x now (''/'' @ n) dev False ty flags s = Some (s', Inr ()) \<and> boot_ok s' r (N - {n}) \<and>
    mounts s' (''/'' @ n) = Some (FileSystem f) \<and> root_dentry f = c \<and> f_type f = ty \<and>
    tree_at (dentries s') r [n] = Some c \<and> dentries s' c = Some ce \<and> d_child ce = [] \<and> d_kind ce = SimpleDentry \<and>
    (\<forall>ms m. device_at s r ms m \<longrightarrow> device_at s' r ms m)"
proof -
  obtain e where e: "vfs_wf s" "root_dentry_of s = Some r" "dcache s ''/'' = Some r" "dentries s r = Some e" "d_path e = ''/''" "d_kind e \<noteq> DevDentry"
    "bt_wf (d_child e)" "tree_at (dentries s) r [] = Some r" "\<And>n b. n \<in> N \<Longrightarrow> bt_get (d_child e) n = Some b \<Longrightarrow> leaf_entry s b"
    using boot_okD [OF ok] by metis
  let ?p = "''/'' @ n"
  have p: "?p = push_path (d_path e) n" using e(5) root_push by simp
  have cd: "dcache s (d_path e) = Some r" using e(3,5) by simp
  have lf: "\<exists>be. dentries s b = Some be \<and> d_child be = [] \<and> d_kind be \<noteq> DevDentry" if "bt_get (d_child e) n = Some b" for b
    using e(9) [OF n(1) that] by (simp add: leaf_entry_def)
  obtain s1 c i where s1: "simple_fs_new ty now ?p flags s = Some (s1, \<lparr>f_dev = ''TODO Unimplemented'', f_type = ty, f_flags = flags, root_dentry = c, root_inode = i\<rparr>)"
    and l: "let s'' = cache_insert ?p c s1\<lparr>mounts := (mounts s)(?p \<mapsto> FileSystem \<lparr>f_dev = ''TODO Unimplemented'', f_type = ty, f_flags = flags, root_dentry = c, root_inode = i\<rparr>)\<rparr> in
     vfs_wf s'' \<and> root_dentry_of s'' = Some r \<and> tree_at (dentries s'') r ([] @ [n]) = Some c \<and>
     (\<forall>ns z. tree_at (dentries s) r ns = Some z \<longrightarrow> bt_get (d_child e) n \<noteq> Some z \<longrightarrow> tree_at (dentries s'') r ns = Some z) \<and>
     dentries s'' = (dentries s)(c \<mapsto> \<lparr>d_kind = SimpleDentry, d_name = n, d_path = ?p, d_inode = i, d_parent = Some r, d_child = []\<rparr>,
       r \<mapsto> e\<lparr>d_child := bt_insert n c (d_child e)\<rparr>) \<and> dcache s'' = (dcache s)(?p \<mapsto> c) \<and> c = next_did s \<and>
     inodes s'' i = Some (inode_meta_new i Directory 0 now now now) \<and> mounts s1 = mounts s"
    using simple_mount_spec [OF e(1,2,4,8,6) cd lf n(2) p, of ty now flags] by blast
  define f where "f = \<lparr>f_dev = ''TODO Unimplemented'', f_type = ty, f_flags = flags, root_dentry = c, root_inode = i\<rparr>"
  define s' where "s' = cache_insert ?p c s1\<lparr>mounts := (mounts s)(?p \<mapsto> FileSystem f)\<rparr>"
  have s': "vfs_wf s'" "root_dentry_of s' = Some r" "tree_at (dentries s') r [n] = Some c"
    and keep: "\<And>ns z. tree_at (dentries s) r ns = Some z \<Longrightarrow> bt_get (d_child e) n \<noteq> Some z \<Longrightarrow> tree_at (dentries s') r ns = Some z"
    and D: "dentries s' = (dentries s)(c \<mapsto> \<lparr>d_kind = SimpleDentry, d_name = n, d_path = ?p, d_inode = i, d_parent = Some r, d_child = []\<rparr>, r \<mapsto> e\<lparr>d_child := bt_insert n c (d_child e)\<rparr>)"
    and dc: "dcache s' = (dcache s)(?p \<mapsto> c)" and c: "c = next_did s" and ms1: "mounts s1 = mounts s"
    using l unfolding Let_def f_def [symmetric] s'_def [symmetric] append_Nil by blast+
  have fresh: "dentries s c = None" using e(1) c by (auto simp: vfs_wf_def)
  then have rc: "r \<noteq> c" using e(4) by auto
  have run: "mount fat fuel x now ?p dev False ty flags s = Some (s', Inr ())"
    using ty s1 ms1 by (auto simp: mount_def and_then_def dev_fs_new_def tmp_fs_new_def proc_fs_new_def f_def s'_def cache_insert_def)
  have lf': "leaf_entry s' b" if b: "leaf_entry s b" "b \<noteq> r" for b
    using b D fresh by (auto simp: leaf_entry_def)
  have "leaf_entry s' b" if m: "m \<in> N - {n}" "bt_get (bt_insert n c (d_child e)) m = Some b" for m b
  proof -
    have b: "bt_get (d_child e) m = Some b" using m e(7) by (simp split: if_splits)
    then have "leaf_entry s b" using e(9) m(1) by blast
    moreover have "b \<noteq> r" using calculation b e(4) by (auto simp: leaf_entry_def bt_get_def)
    ultimately show ?thesis by (rule lf')
  qed
  moreover have "n \<noteq> []" using n(2) by (auto simp: plain_name_def name_ok_def)
  ultimately have ok': "boot_ok s' r (N - {n})" using s'(1,2) dc e(3) D rc by (simp add: boot_ok_def)
  have dev: "device_at s' r ms m" if d: "device_at s r ms m" for ms m
  proof -
    obtain z ze where z: "tree_at (dentries s) r (ms @ [m]) = Some z" "dentries s z = Some ze" "d_kind ze = DevDentry" "d_path ze = abs_path ms @ m"
      using d unfolding device_at_def by blast
    have "bt_get (d_child e) n \<noteq> Some z" using lf [of z] z(2,3) by auto
    moreover have "dentries s' z = Some ze" using z(2,3) D fresh e(4,6) by auto
    ultimately show ?thesis using keep z unfolding device_at_def by blast
  qed
  have "dentries s' c = Some \<lparr>d_kind = SimpleDentry, d_name = n, d_path = ?p, d_inode = i, d_parent = Some r, d_child = []\<rparr>" using D rc by simp
  then show ?thesis using run ok' s'(3) dev by (intro exI [of _ s'] exI [of _ c] exI exI [of _ f] conjI) (auto simp: s'_def f_def cache_insert_def)
qed

lemma devices_boot:
  assumes ok: "boot_ok s r N" and c: "tree_at (dentries s) r [n] = Some c" "dentries s c = Some ce" "d_child ce = []" "d_kind ce = SimpleDentry" and n: "n \<notin> N"
    and nms: "distinct (map fst nms)" "\<forall>m \<in> fst ` set nms. plain_name m"
  shows "\<exists>s'. foldM (add_device now c) nms s = Some s' \<and> boot_ok s' r N \<and> mounts s' = mounts s \<and> (\<forall>m \<in> fst ` set nms. device_at s' r [n] m) \<and>
    (\<forall>ms m. device_at s r ms m \<longrightarrow> device_at s' r ms m)"
proof -
  obtain e where e: "vfs_wf s" "root_dentry_of s = Some r" "dcache s ''/'' = Some r" "dentries s r = Some e"
    "bt_wf (d_child e)" "\<And>n b. n \<in> N \<Longrightarrow> bt_get (d_child e) n = Some b \<Longrightarrow> leaf_entry s b"
    using boot_okD [OF ok] by metis
  have l: "links_ok (dentries s)" using e(1) by (auto simp: vfs_wf_def tree_wf_def)
  have cn: "bt_get (d_child e) n = Some c" using c(1) e(4) by (auto split: option.splits if_splits)
  then have rc: "r \<noteq> c" using c(2,3) e(4) by (auto simp: bt_get_def)
  have "n \<noteq> []" using links_childD [OF l e(4) cn] by (auto simp: plain_name_def name_ok_def)
  then have q: "\<forall>m \<in> fst ` set nms. abs_path [n] @ m \<noteq> ''/''" by (simp add: abs_path_def)
  obtain s' where s': "foldM (add_device now c) nms s = Some s'" "boots c s s'" "\<forall>m \<in> fst ` set nms. device_at s' r [n] m" "dcache s' ''/'' = dcache s ''/''"
    using devices_spec [OF e(1,2) c(2,1) _ nms(1) _ q, of now] c(3,4) nms(2) by (auto simp: bt_get_def)
  have re: "dentries s' r = Some e" using s'(2) e(4) rc by (simp add: boots_def)
  have "leaf_entry s' b" if m: "m \<in> N" "bt_get (d_child e) m = Some b" for m b
  proof -
    obtain be where be: "dentries s b = Some be" "d_child be = []" "d_kind be \<noteq> DevDentry" using e(6) [OF m] by (auto simp: leaf_entry_def)
    have "b \<noteq> c" using only_child(2) [OF l e(4) m(2) be(1)] only_child(2) [OF l e(4) cn c(2)] m(1) n be(1) c(2) by auto
    then show ?thesis using s'(2) be by (simp add: boots_def leaf_entry_def)
  qed
  then have ok': "boot_ok s' r N" using s'(2,4) e(2,3) re by (simp add: boot_ok_def boots_def grows_def)
  have "device_at s' r ms m" if d: "device_at s r ms m" for ms m
  proof -
    obtain z ze where z: "tree_at (dentries s) r (ms @ [m]) = Some z" "dentries s z = Some ze" "d_kind ze = DevDentry" "d_path ze = abs_path ms @ m"
      using d unfolding device_at_def by blast
    have "z \<noteq> c" using z(2,3) c(2,4) by auto
    then have "dentries s' z = Some ze" "tree_at (dentries s') r (ms @ [m]) = Some z" using s'(2) z(1,2) e(2) by (simp_all add: boots_def grows_def)
    then show ?thesis using z(3,4) unfolding device_at_def by blast
  qed
  then show ?thesis using s'(1,2,3) ok' by (auto simp: boots_def)
qed

text \<open>The root volume alone.\<close>

lemma boot_root:
  assumes x: "listing_ok x" and run: "mount_expect fat fuel x now ''/'' dev True EXT4 (vfs_empty dk) = Some s" and N: "\<forall>n \<in> N. bare x (''/'' @ n)"
  shows "\<exists>r. boot_ok s r N"
proof -
  let ?root = "\<lparr>d_kind = Ext4Dentry, d_name = [], d_path = ''/'', d_inode = 0, d_parent = None, d_child = []\<rparr>"
  let ?f = "\<lparr>f_dev = dev, f_type = EXT4, f_flags = MS_NOSUID, root_dentry = 0, root_inode = 0\<rparr>"
  let ?M = "[''/'' \<mapsto> FileSystem ?f]"
  obtain dk1 where dk1: "block_wrapper_new x dk = Some dk1" "isl (dir_open x ''/'' dk1) = False"
    using run by (auto simp: mount_expect_def mount_def ext4_fs_new_def vfs_empty_def and_then_def rassert_def Let_def split: bind_splits sum.splits)
  define s1 :: "'a vfs" where "s1 = \<lparr>dentries = [0 \<mapsto> ?root], inodes = [0 \<mapsto> inode_meta_new 0 Directory 0 now now now], dcache = Map.empty, mounts = Map.empty, files = Map.empty,
     next_did = 1, next_ino = 1, next_file = 0, disk = dk1\<rparr>"
  obtain u where u: "dir_open x ''/'' dk1 = Inr u" using dk1(2) by (cases "dir_open x ''/'' dk1") auto
  have nm: "dentry_name ''/'' = []" by (simp add: dentry_name_def)
  have ext: "ext4_fs_new fuel x now ''/'' dev True MS_NOSUID (vfs_empty dk) = and_then (load_all_child fuel x now 0 s1) (\<lambda>s _. Some (s, Inr ?f))"
    using dk1(1) u nm by (simp add: ext4_fs_new_def vfs_empty_def new_inode_def new_dentry_def Let_def s1_def format_path_def)
  obtain s2 where s2: "load_all_child fuel x now 0 s1 = Some (s2, Inr ())" "s = cache_insert ''/'' 0 s2\<lparr>mounts := (mounts s2)(''/'' \<mapsto> FileSystem ?f)\<rparr>"
    using run unfolding mount_expect_def mount_def by (auto simp: ext and_then_def cache_insert_def split: bind_splits option.splits sum.splits)
  have "s1\<lparr>mounts := Map.empty\<rparr> = s1" by (simp add: s1_def)
  then have "on_mounts Map.empty (Some (s2, Inr () :: unit os_result)) = Some (s2, Inr ())" using load_all_child_mounts [of fuel x now 0 Map.empty s1] s2(1) by simp
  then have "s2\<lparr>mounts := Map.empty\<rparr> = s2" by simp
  from arg_cong [OF this, of mounts] have m2: "mounts s2 = Map.empty" by simp
  let ?s1 = "s1\<lparr>mounts := ?M\<rparr>"
  let ?s2 = "s2\<lparr>mounts := ?M\<rparr>"
  have run2: "load_all_child fuel x now 0 ?s1 = Some (?s2, Inr ())" using load_all_child_mounts [of fuel x now 0 ?M s1] s2(1) by simp
  have links: "links_ok [0 \<mapsto> ?root]" by (simp add: links_ok_def bt_get_def)
  have wf1: "vfs_wf ?s1" "root_dentry_of ?s1 = Some 0"
    using links by (auto simp: vfs_wf_def tree_wf_def root_dentry_of_def s1_def)
  have ld: "loads x {0} ?s1 ?s2"
    by (rule load_all_child_loads [OF x wf1 _ _ _ run2, where ms = "[]" and e = ?root]) (simp_all add: s1_def)
  have wf2: "vfs_wf ?s2" "root_dentry_of ?s2 = Some 0" using loadsD [OF ld] wf1(2) by simp_all
  have t2: "tree_wf (dentries s2) (dcache s2) 0" using wf2 by (auto simp: vfs_wf_def)
  then obtain e where e: "dentries s2 0 = Some e" "d_path e = ''/''" "d_kind e \<noteq> DevDentry" by (auto simp: tree_wf_def)
  have s: "s = cache_insert (d_path e) 0 ?s2" using s2(2) m2 e(2) by (simp add: cache_insert_def)
  have gr: "grows ?s2 s" unfolding s by (rule grows_cache [OF wf2, where ns = "[]"]) (use e(1) in simp_all)
  have D: "dentries s = dentries s2" by (simp add: s cache_insert_def)
  have "leaf_entry s b" if n: "n \<in> N" "bt_get (d_child e) n = Some b" for n b
  proof -
    have l: "links_ok (dentries s2)" using t2 by (simp add: tree_wf_def)
    obtain be where be: "dentries s2 b = Some be" "d_path be = child_path e be n" by (rule links_childD [OF l e(1) n(2)])
    have old: "dentries ?s2 b = Some be \<Longrightarrow> bare x (d_path be) \<and> d_child be \<noteq> [] \<or> d_kind be = DevDentry \<Longrightarrow> dentries ?s1 b = Some be"
      using ld unfolding loads_def by blast
    have kd: "d_kind be \<noteq> DevDentry" using old be(1) by (auto simp: s1_def split: if_splits)
    then have p: "d_path be = ''/'' @ n" using be(2) e(2) root_push by (simp add: child_path_def)
    have "d_child be = []"
    proof (rule ccontr)
      assume ne: "d_child be \<noteq> []"
      then have "dentries ?s1 b = Some be" using old be(1) N n(1) p by simp
      then show False using ne by (auto simp: s1_def split: if_splits)
    qed
    then show ?thesis using be(1) kd D by (simp add: leaf_entry_def)
  qed
  moreover have "dcache s ''/'' = Some 0" using s e(2) by (simp add: cache_insert_def)
  ultimately have "boot_ok s 0 N" using gr wf2(2) e(1) D by (simp add: boot_ok_def grows_def)
  then show ?thesis by blast
qed

section \<open>Properties\<close>

lemma boot_spec:
  assumes x: "listing_ok x" "bare x ''/dev''" "bare x ''/proc''" "bare x ''/tmp''"
    and run: "fs_init fat fuel x now (vfs_empty dk) = Some s"
  shows "vfs_wf s \<and> (\<exists>r. root_dentry_of s = Some r \<and> tree_at (dentries s) r [''tmp''] \<noteq> None \<and>
    (\<forall>n \<in> {''zero'', ''null'', ''rtc'', ''cpu_pma_latency'', ''urandom'', ''tty''}. device_at s r [''dev''] n) \<and>
    (\<forall>n \<in> {''meminfo'', ''mounts''}. device_at s r [''proc''] n))"
proof -
  let ?N = "{''dev'', ''proc'', ''tmp''}"
  obtain s0 where s0: "mount_expect fat fuel x now ''/'' ''/dev/vda3'' True EXT4 (vfs_empty dk) = Some s0"
    and run0: "do { s \<leftarrow> mount_expect fat fuel x now ''/dev'' ''Not implemented yet'' False DevFs s0;
          s \<leftarrow> fs_initialise now ''/dev'' s;
          s \<leftarrow> mount_expect fat fuel x now ''/proc'' ''Not implemented yet'' False ProcFs s;
          s \<leftarrow> fs_initialise now ''/proc'' s;
          mount_expect fat fuel x now ''/tmp'' ''Not implemented yet'' False TmpFs s } = Some s"
    using run unfolding fs_init_def by (auto split: bind_splits)
  obtain r where ok0: "boot_ok s0 r ?N" using boot_root [OF x(1) s0, of ?N] x(2-4) by auto
  have pl: "plain_name ''dev''" "plain_name ''proc''" "plain_name ''tmp''" by (simp_all add: plain_name_def name_ok_def format_path_def trim_end_def)
  obtain s1 c1 ce1 f1 where m1: "mount fat fuel x now ''/dev'' ''Not implemented yet'' False DevFs MS_NOSUID s0 = Some (s1, Inr ())" "boot_ok s1 r {''proc'', ''tmp''}"
    "mounts s1 ''/dev'' = Some (FileSystem f1)" "root_dentry f1 = c1" "f_type f1 = DevFs" "tree_at (dentries s1) r [''dev''] = Some c1" "dentries s1 c1 = Some ce1" "d_child ce1 = []" "d_kind ce1 = SimpleDentry"
    using mount_boot [OF ok0 _ pl(1), of DevFs fat fuel x now "''Not implemented yet''" MS_NOSUID] by (auto simp: insert_Diff_if)
  obtain s2 where d2: "dev_fs_init now c1 s1 = Some s2" "boot_ok s2 r {''proc'', ''tmp''}"
    "\<forall>m \<in> {''zero'', ''null'', ''rtc'', ''cpu_pma_latency'', ''urandom'', ''tty''}. device_at s2 r [''dev''] m"
    using devices_boot [OF m1(2,6-9), where nms = "[(''zero'', Char), (''null'', Char), (''rtc'', Regular), (''cpu_pma_latency'', Char), (''urandom'', Char), (''tty'', Char)]" and now = now]
    by (auto simp: dev_fs_init_def plain_name_def name_ok_def format_path_def trim_end_def)
  obtain s3 c3 ce3 f3 where m3: "mount fat fuel x now ''/proc'' ''Not implemented yet'' False ProcFs MS_NOSUID s2 = Some (s3, Inr ())" "boot_ok s3 r {''tmp''}"
    "mounts s3 ''/proc'' = Some (FileSystem f3)" "root_dentry f3 = c3" "f_type f3 = ProcFs" "tree_at (dentries s3) r [''proc''] = Some c3" "dentries s3 c3 = Some ce3" "d_child ce3 = []" "d_kind ce3 = SimpleDentry"
    "\<forall>ms m. device_at s2 r ms m \<longrightarrow> device_at s3 r ms m"
    using mount_boot [OF d2(2) _ pl(2), of ProcFs fat fuel x now "''Not implemented yet''" MS_NOSUID] by (auto simp: insert_Diff_if)
  obtain s4 where d4: "proc_fs_init now c3 s3 = Some s4" "boot_ok s4 r {''tmp''}" "\<forall>m \<in> {''meminfo'', ''mounts''}. device_at s4 r [''proc''] m"
    "\<forall>ms m. device_at s3 r ms m \<longrightarrow> device_at s4 r ms m"
    using devices_boot [OF m3(2,6-9), where nms = "[(''meminfo'', Regular), (''mounts'', Regular)]" and now = now]
    by (auto simp: proc_fs_init_def plain_name_def name_ok_def format_path_def trim_end_def)
  obtain s5 c5 where m5: "mount fat fuel x now ''/tmp'' ''Not implemented yet'' False TmpFs MS_NOSUID s4 = Some (s5, Inr ())" "boot_ok s5 r {}"
    "tree_at (dentries s5) r [''tmp''] = Some c5" "\<forall>ms m. device_at s4 r ms m \<longrightarrow> device_at s5 r ms m"
    using mount_boot [OF d4(2) _ pl(3), of TmpFs fat fuel x now "''Not implemented yet''" MS_NOSUID] by auto
  have "s5 = s" using run0 m1(1,3-5) d2(1) m3(1,3-5) d4(1) m5(1) by (simp add: mount_expect_def fs_initialise_def)
  then have s: "boot_ok s r {}" "tree_at (dentries s) r [''tmp''] = Some c5" "\<forall>ms m. device_at s4 r ms m \<longrightarrow> device_at s r ms m" using m5(2-4) by simp_all
  have k: "device_at s r ms m" if "device_at s2 r ms m" for ms m using that m3(10) d4(4) s(3) by simp
  have k4: "device_at s r ms m" if "device_at s4 r ms m" for ms m using that s(3) by simp
  have "\<forall>n \<in> {''zero'', ''null'', ''rtc'', ''cpu_pma_latency'', ''urandom'', ''tty''}. device_at s r [''dev''] n"
    by (intro ballI k) (rule d2(3) [rule_format])
  moreover have "\<forall>n \<in> {''meminfo'', ''mounts''}. device_at s r [''proc''] n" by (intro ballI k4) (rule d4(3) [rule_format])
  ultimately show ?thesis using s(1,2) by (auto simp: boot_ok_def)
qed


text \<open>A small volume: a list of paths with their types.\<close>

definition demo_ext4 :: "(string \<times> nat) list ext4_lib" where
  "demo_ext4 = \<lparr>block_wrapper_new = Some,
     file_exists = (\<lambda>p dk. (p, 1) \<in> set dk), dir_exists = (\<lambda>p dk. (p, 2) \<in> set dk), symlink_exists = (\<lambda>p dk. (p, 7) \<in> set dk),
     file_open = (\<lambda>p fl dk. if (p, 1) \<in> set dk then (dk, Inr 0) else if contains fl O_CREAT then ((p, 1) # dk, Inr 0) else (dk, Inl ENOENT)),
     dir_open = (\<lambda>p dk. if (p, 2) \<in> set dk then Inr () else Inl ENOENT), dir_create = (\<lambda>p dk. ((p, 2) # dk, Inr ())),
     dir_entries = (\<lambda>p dk. Some ([(''.'', 2), (''..'', 2)] @ (if p = ''/'' then [(''bin'', 2), (''init'', 1)] else []))),
     lwext4_rmfile = (\<lambda>p dk. (filter (\<lambda>e. fst e \<noteq> p) dk, Inr ())), lwext4_rmdir = (\<lambda>p dk. (filter (\<lambda>e. fst e \<noteq> p) dk, Inr ())),
     lwext4_link = (\<lambda>p q dk. ((q, 1) # dk, Inr ())), lwext4_mvfile = (\<lambda>p q dk. ((q, 1) # filter (\<lambda>e. e \<noteq> (p, 1)) dk, Inr ())),
     lwext4_mvdir = (\<lambda>p q dk. ((q, 2) # filter (\<lambda>e. e \<noteq> (p, 2)) dk, Inr ())), lwext4_symlink = (\<lambda>t p dk. ((p, 7) # dk, Inr ())),
     lwext4_readlink = (\<lambda>p n dk. Inr [])\<rparr>"

definition demo_time :: time_spec where "demo_time = \<lparr>tv_sec = 0, tv_nsec = 0\<rparr>"

definition demo_disk :: "(string \<times> nat) list" where "demo_disk = [(''/'', 2), (''/bin'', 2), (''/init'', 1)]"

definition demo_boot :: "(string \<times> nat) list vfs option" where
  "demo_boot = fs_init (\<lambda>_ _ _ _. None) 3 demo_ext4 demo_time (vfs_empty demo_disk)"

lemma demo_boot_returns: "demo_boot \<noteq> None"
  by code_simp

lemma demo_listing: "listing_ok demo_ext4" "bare demo_ext4 ''/dev''" "bare demo_ext4 ''/proc''" "bare demo_ext4 ''/tmp''"
  by (simp_all add: listing_ok_def bare_def demo_ext4_def plain_name_def name_ok_def format_path_def trim_end_def)


end
