(* ===== verification/Pipe.thy ===== *)
theory Pipe
  imports Fs_Info
begin

text \<open>
  Pipes (\<^verbatim>\<open>fs/pipe.rs\<close>): a ring buffer of 8192 bytes shared by a read end and a write end. A weak
  reference to an end is its object number, and \<open>alive\<close> tells which objects still
  exist. \<^verbatim>\<open>read\<close> and \<^verbatim>\<open>write\<close> are loops that hold the lock for one iteration; one iteration is a
  step of \<open>pipe_step\<close>, so that the iterations of any number of readers and writers interleave.

  The lemmas show that the ring buffer refines a bounded queue, that the bytes received
  followed by the bytes in the buffer are always the bytes sent, and when an iteration returns.
\<close>

definition MAX_PIPE_BUFFER :: nat where "MAX_PIPE_BUFFER = 1024 * 8"

datatype pipe_status = Readable | Writable

datatype ring_status = Full | Empty | HasSome

record ring =
  buf :: "u8 list"
  read_end :: "nat option"
  write_end :: "nat option"
  status :: ring_status
  head :: nat
  tail :: nat

section \<open>The ring buffer\<close>

definition ring_new :: ring where
  "ring_new = \<lparr>buf = replicate MAX_PIPE_BUFFER 0, read_end = None, write_end = None,
     status = Empty, head = 0, tail = 0\<rparr>"

definition read_byte :: "ring \<Rightarrow> (ring \<times> u8 option) option" where
  "read_byte r =
     (if status r = Empty then Some (r, None)
      else do { c \<leftarrow> nth_opt (buf r) (head r);
                let h = (head r + 1) mod MAX_PIPE_BUFFER;
                Some (r\<lparr>head := h, status := (if h = tail r then Empty else HasSome)\<rparr>, Some c) })"

definition write_byte :: "u8 \<Rightarrow> ring \<Rightarrow> (ring \<times> bool) option" where
  "write_byte b r =
     (if status r = Full then Some (r, False)
      else do { rassert (tail r < length (buf r));
                let t = (tail r + 1) mod MAX_PIPE_BUFFER;
                Some (r\<lparr>buf := (buf r)[tail r := b], tail := t,
                        status := (if t = head r then Full else HasSome)\<rparr>, True) })"

definition is_write_end_closed :: "(nat \<Rightarrow> bool) \<Rightarrow> ring \<Rightarrow> bool option" where
  "is_write_end_closed alive r = do { w \<leftarrow> write_end r; Some (\<not> alive w) }"

definition is_read_end_closed :: "(nat \<Rightarrow> bool) \<Rightarrow> ring \<Rightarrow> bool option" where
  "is_read_end_closed alive r = do { w \<leftarrow> read_end r; Some (\<not> alive w) }"

definition available_read :: "ring \<Rightarrow> nat" where
  "available_read r =
     (if status r = Empty then 0
      else if tail r > head r then tail r - head r
      else tail r + MAX_PIPE_BUFFER - head r)"

definition available_write :: "ring \<Rightarrow> nat" where
  "available_write r = (if status r = Full then 0 else MAX_PIPE_BUFFER - available_read r)"

definition set_read_end :: "nat \<Rightarrow> ring \<Rightarrow> ring" where "set_read_end p r = r\<lparr>read_end := Some p\<rparr>"
definition set_write_end :: "nat \<Rightarrow> ring \<Rightarrow> ring" where "set_write_end p r = r\<lparr>write_end := Some p\<rparr>"

section \<open>Pipe ends\<close>

definition pipe_new :: "open_flags \<Rightarrow> pipe_status option" where
  "pipe_new flags = (if flags = O_RDONLY then Some Readable else if flags = O_WRONLY then Some Writable else None)"

text \<open>The two ends get the object numbers \<open>p\<close> and \<open>q\<close>.\<close>

definition make_pipes :: "nat \<Rightarrow> nat \<Rightarrow> (ring \<times> pipe_status \<times> pipe_status) os_result" where
  "make_pipes p q = (case pipe_new O_RDONLY of
     None \<Rightarrow> Inl EINVAL
   | Some r \<Rightarrow> (case pipe_new O_WRONLY of
       None \<Rightarrow> Inl EINVAL
     | Some w \<Rightarrow> Inr (set_write_end q (set_read_end p ring_new), r, w)))"

text \<open>What one iteration of the loop ends with.\<close>

datatype iter = Return nat | Suspend | Continue

text \<open>\<open>acc\<close> holds the bytes copied so far into a buffer of length \<open>n\<close>.\<close>

fun read_loop :: "nat \<Rightarrow> nat \<Rightarrow> ring \<Rightarrow> u8 list \<Rightarrow> (ring \<times> u8 list \<times> bool) option" where
  "read_loop 0 n r acc = Some (r, acc, False)"
| "read_loop (Suc k) n r acc =
     do { (r', c) \<leftarrow> read_byte r;
          c \<leftarrow> c;
          rassert (length acc < n);
          if length acc + 1 = n then Some (r', acc @ [c], True)
          else read_loop k n r' (acc @ [c]) }"

definition pipe_read_iter ::
  "(nat \<Rightarrow> bool) \<Rightarrow> pipe_status \<Rightarrow> nat \<Rightarrow> ring \<Rightarrow> u8 list \<Rightarrow> (ring \<times> u8 list \<times> iter) option" where
  "pipe_read_iter alive st n r acc =
     do { rassert (st = Readable);
          let free_read = available_read r;
          if free_read = 0
          then do { c \<leftarrow> is_write_end_closed alive r;
                    Some (r, acc, if c then Return (length acc) else Suspend) }
          else do { (r', acc', done) \<leftarrow> read_loop free_read n r acc;
                    Some (r', acc', if done then Return (length acc') else Continue) } }"

text \<open>\<open>i\<close> is the number of bytes of \<open>data\<close> already written.\<close>

fun write_loop :: "nat \<Rightarrow> u8 list \<Rightarrow> ring \<Rightarrow> nat \<Rightarrow> (ring \<times> nat \<times> bool) option" where
  "write_loop 0 data r i = Some (r, i, False)"
| "write_loop (Suc k) data r i =
     do { c \<leftarrow> nth_opt data i;
          (r', _) \<leftarrow> write_byte c r;
          if i + 1 = length data then Some (r', i + 1, True)
          else write_loop k data r' (i + 1) }"

definition pipe_write_iter ::
  "(nat \<Rightarrow> bool) \<Rightarrow> pipe_status \<Rightarrow> u8 list \<Rightarrow> ring \<Rightarrow> nat \<Rightarrow> (ring \<times> nat \<times> iter) option" where
  "pipe_write_iter alive st data r i =
     do { rassert (st = Writable);
          let free_write = available_write r;
          if free_write = 0
          then do { c \<leftarrow> is_read_end_closed alive r;
                    Some (r, i, if c then Return i else Suspend) }
          else do { (r', i', done) \<leftarrow> write_loop free_write data r i;
                    Some (r', i', if done then Return i' else Continue) } }"

section \<open>The queue behind the ring\<close>

definition ring_wf :: "ring \<Rightarrow> bool" where
  "ring_wf r \<longleftrightarrow> length (buf r) = MAX_PIPE_BUFFER \<and> head r < MAX_PIPE_BUFFER \<and> tail r < MAX_PIPE_BUFFER \<and>
     (status r \<noteq> HasSome \<longrightarrow> head r = tail r) \<and> (status r = HasSome \<longrightarrow> head r \<noteq> tail r) \<and>
     read_end r \<noteq> None \<and> write_end r \<noteq> None"

definition queue :: "ring \<Rightarrow> u8 list" where
  "queue r = map (\<lambda>i. buf r ! ((head r + i) mod MAX_PIPE_BUFFER)) [0..<available_read r]"

lemma N_pos [simp]: "0 < MAX_PIPE_BUFFER"
  by (simp add: MAX_PIPE_BUFFER_def)

lemma length_queue [simp]: "length (queue r) = available_read r"
  by (simp add: queue_def)

lemma ring_wfD:
  assumes "ring_wf r"
  shows "length (buf r) = MAX_PIPE_BUFFER" "head r < MAX_PIPE_BUFFER" "tail r < MAX_PIPE_BUFFER"
    "status r = Empty \<Longrightarrow> head r = tail r" "status r = Full \<Longrightarrow> head r = tail r"
    "status r = HasSome \<Longrightarrow> head r \<noteq> tail r"
  using assms by (auto simp: ring_wf_def)

lemma available_read_cases:
  assumes "ring_wf r"
  shows "available_read r \<le> MAX_PIPE_BUFFER" "available_read r = 0 \<longleftrightarrow> status r = Empty"
    "available_read r = MAX_PIPE_BUFFER \<longleftrightarrow> status r = Full"
    "available_write r = MAX_PIPE_BUFFER - available_read r"
    "(head r + available_read r) mod MAX_PIPE_BUFFER = tail r"
proof -
  note w = ring_wfD [OF assms]
  show le: "available_read r \<le> MAX_PIPE_BUFFER" and "available_read r = 0 \<longleftrightarrow> status r = Empty"
    and full: "available_read r = MAX_PIPE_BUFFER \<longleftrightarrow> status r = Full"
    using w by (cases "status r"; auto simp: available_read_def)+
  then show "available_write r = MAX_PIPE_BUFFER - available_read r" by (auto simp: available_write_def)
  show "(head r + available_read r) mod MAX_PIPE_BUFFER = tail r"
    using w by (cases "status r") (auto simp: available_read_def)
qed

lemma mod_Suc_N: "a < MAX_PIPE_BUFFER \<Longrightarrow> (a + 1) mod MAX_PIPE_BUFFER = (if a + 1 = MAX_PIPE_BUFFER then 0 else a + 1)"
  by auto

lemma read_byte_queue:
  assumes "ring_wf r"
  shows "case queue r of [] \<Rightarrow> read_byte r = Some (r, None)
    | x # xs \<Rightarrow> \<exists>r'. read_byte r = Some (r', Some x) \<and> ring_wf r' \<and> queue r' = xs"
proof (cases "status r = Empty")
  case True
  then have "queue r = []" by (simp add: queue_def available_read_def)
  then show ?thesis using True by (simp add: read_byte_def)
next
  case False
  note w = ring_wfD [OF assms]
  define h where "h = (head r + 1) mod MAX_PIPE_BUFFER"
  define r' where "r' = r\<lparr>head := h, status := (if h = tail r then Empty else HasSome)\<rparr>"
  obtain n where n: "available_read r = Suc n" using available_read_cases(2) [OF assms] False by (cases "available_read r") auto
  have h: "h < MAX_PIPE_BUFFER" by (simp add: h_def)
  have wf: "ring_wf r'" using assms h by (auto simp: ring_wf_def r'_def)
  have av: "available_read r' = n"
    using n w False unfolding r'_def h_def mod_Suc_N [OF w(2)]
    by (cases "status r") (auto simp: available_read_def split: if_splits)
  have shift: "(h + i) mod MAX_PIPE_BUFFER = (head r + Suc i) mod MAX_PIPE_BUFFER" for i
    by (simp add: h_def mod_add_left_eq)
  have "queue r = buf r ! head r # queue r'"
    unfolding queue_def av n upt_conv_Cons [OF zero_less_Suc] map_Suc_upt [symmetric]
    using w(2) shift by (simp add: r'_def)
  moreover have "read_byte r = Some (r', Some (buf r ! head r))"
    using False w by (simp add: read_byte_def r'_def h_def)
  ultimately show ?thesis using wf by simp
qed

lemma write_byte_queue:
  assumes "ring_wf r"
  shows "if length (queue r) < MAX_PIPE_BUFFER
    then \<exists>r'. write_byte b r = Some (r', True) \<and> ring_wf r' \<and> queue r' = queue r @ [b]
    else write_byte b r = Some (r, False)"
proof (cases "status r = Full")
  case True
  then show ?thesis using available_read_cases(3) [OF assms] by (simp add: write_byte_def)
next
  case False
  note w = ring_wfD [OF assms] and c = available_read_cases [OF assms]
  define t where "t = (tail r + 1) mod MAX_PIPE_BUFFER"
  define r' where "r' = r\<lparr>buf := (buf r)[tail r := b], tail := t, status := (if t = head r then Full else HasSome)\<rparr>"
  have lt: "available_read r < MAX_PIPE_BUFFER" using c(1,3) False by simp
  have t: "t < MAX_PIPE_BUFFER" by (simp add: t_def)
  have wf: "ring_wf r'" using assms t by (auto simp: ring_wf_def r'_def)
  have av: "available_read r' = Suc (available_read r)"
    using w False unfolding r'_def t_def mod_Suc_N [OF w(3)]
    by (cases "status r") (auto simp: available_read_def split: if_splits)
  have old: "(head r + i) mod MAX_PIPE_BUFFER \<noteq> tail r" if "i < available_read r" for i
  proof
    assume "(head r + i) mod MAX_PIPE_BUFFER = tail r"
    then have "(head r + i) mod MAX_PIPE_BUFFER = (head r + available_read r) mod MAX_PIPE_BUFFER" using c(5) by simp
    then have "MAX_PIPE_BUFFER dvd available_read r - i"
      using mod_eq_dvd_iff_nat [of "head r + i" "head r + available_read r" MAX_PIPE_BUFFER] that by simp
    then show False using that lt by (metis dvd_imp_le less_imp_diff_less not_less zero_less_diff)
  qed
  have "queue r' = queue r @ [b]"
    unfolding queue_def av upt_Suc_append [OF le0] map_append
    using old c(5) w by (simp add: r'_def nth_list_update) (metis atLeastLessThan_iff)
  moreover have "write_byte b r = Some (r', True)"
    using False w by (simp add: write_byte_def r'_def t_def)
  ultimately show ?thesis using wf lt by simp
qed

section \<open>The contract of the buffer\<close>

text \<open>A bounded queue of bytes, as the two ends of the pipe use it.\<close>

locale byte_queue =
  fixes pop :: "'q \<Rightarrow> ('q \<times> u8 option) option"
    and push :: "u8 \<Rightarrow> 'q \<Rightarrow> ('q \<times> bool) option"
    and bytes :: "'q \<Rightarrow> u8 list"
    and bound :: nat
    and invar :: "'q \<Rightarrow> bool"
  assumes pop_Nil: "invar q \<Longrightarrow> bytes q = [] \<Longrightarrow> pop q = Some (q, None)"
    and pop_Cons: "invar q \<Longrightarrow> bytes q = x # xs \<Longrightarrow> \<exists>q'. pop q = Some (q', Some x) \<and> invar q' \<and> bytes q' = xs"
    and push_room: "invar q \<Longrightarrow> length (bytes q) < bound \<Longrightarrow>
      \<exists>q'. push b q = Some (q', True) \<and> invar q' \<and> bytes q' = bytes q @ [b]"
    and push_full: "invar q \<Longrightarrow> bound \<le> length (bytes q) \<Longrightarrow> push b q = Some (q, False)"
begin

text \<open>A byte pushed on an empty queue is the next one to be popped.\<close>

lemma push_pop:
  assumes "invar q" "bytes q = []" "0 < bound"
  shows "\<exists>q1 q2. push b q = Some (q1, True) \<and> pop q1 = Some (q2, Some b) \<and> bytes q2 = []"
  using push_room [OF assms(1), of b] assms(2,3) pop_Cons by fastforce

lemma pushes:
  assumes "invar q" "length (bytes q) + length bs \<le> bound"
  shows "\<exists>q'. foldM (\<lambda>b q. map_option fst (push b q)) bs q = Some q' \<and> invar q' \<and> bytes q' = bytes q @ bs"
  using assms
proof (induction bs arbitrary: q)
  case (Cons b bs)
  then obtain q1 where "push b q = Some (q1, True)" "invar q1" "bytes q1 = bytes q @ [b]"
    using push_room [of q b] by auto
  with Cons.IH [of q1] Cons.prems show ?case by auto
qed simp

end

interpretation rq: byte_queue read_byte write_byte queue MAX_PIPE_BUFFER ring_wf
proof unfold_locales
  fix q b x xs assume wf: "ring_wf q"
  show "read_byte q = Some (q, None)" if "queue q = []" using read_byte_queue [OF wf] that by simp
  show "\<exists>q'. read_byte q = Some (q', Some x) \<and> ring_wf q' \<and> queue q' = xs" if "queue q = x # xs"
    using read_byte_queue [OF wf] that by simp
  show "\<exists>q'. write_byte b q = Some (q', True) \<and> ring_wf q' \<and> queue q' = queue q @ [b]"
    if "length (queue q) < MAX_PIPE_BUFFER" using write_byte_queue [OF wf, of b] that by simp
  show "write_byte b q = Some (q, False)" if "MAX_PIPE_BUFFER \<le> length (queue q)"
    using write_byte_queue [OF wf, of b] that by simp
qed

section \<open>Iterations\<close>

lemma read_loop_spec:
  assumes "ring_wf r" "length acc < n" "k \<le> length (queue r)"
  shows "\<exists>r'. read_loop k n r acc = Some (r', acc @ take (min k (n - length acc)) (queue r), n - length acc \<le> k) \<and>
    ring_wf r' \<and> queue r' = drop (min k (n - length acc)) (queue r)"
  using assms
proof (induction k arbitrary: r acc)
  case 0
  then show ?case by simp
next
  case (Suc k)
  then obtain x xs where q: "queue r = x # xs" by (cases "queue r") auto
  with rq.pop_Cons [OF Suc.prems(1)] obtain r1 where r1: "read_byte r = Some (r1, Some x)" "ring_wf r1" "queue r1 = xs"
    by blast
  show ?case
  proof (cases "length acc + 1 = n")
    case True
    then have "n - length acc = 1" by simp
    then show ?thesis using r1 q True Suc.prems(2) by simp
  next
    case False
    obtain m where m: "n - length acc = Suc m" "n - length (acc @ [x]) = m"
      using Suc.prems(2) by (cases "n - length acc") auto
    from Suc.IH [OF r1(2), of "acc @ [x]"] obtain r' where
      "read_loop k n r1 (acc @ [x]) = Some (r', (acc @ [x]) @ take (min k m) xs, m \<le> k)"
      "ring_wf r'" "queue r' = drop (min k m) xs"
      using Suc.prems False q r1(3) unfolding m by auto
    then show ?thesis using r1(1) q False Suc.prems(2) m by simp
  qed
qed

lemma write_loop_spec:
  assumes "ring_wf r" "i < length data" "k + length (queue r) \<le> MAX_PIPE_BUFFER"
  shows "\<exists>r'. write_loop k data r i = Some (r', min (i + k) (length data), length data \<le> i + k) \<and>
    ring_wf r' \<and> queue r' = queue r @ take k (drop i data)"
  using assms
proof (induction k arbitrary: r i)
  case 0
  then show ?case by simp
next
  case (Suc k)
  then obtain r1 where r1: "write_byte (data ! i) r = Some (r1, True)" "ring_wf r1" "queue r1 = queue r @ [data ! i]"
    using rq.push_room [OF Suc.prems(1), of "data ! i"] by auto
  have d: "drop i data = data ! i # drop (i + 1) data" using Suc.prems(2) by (simp add: Cons_nth_drop_Suc)
  show ?case
  proof (cases "i + 1 = length data")
    case True
    then show ?thesis using r1 d Suc.prems(2) by simp
  next
    case False
    have "Suc i < length data" "k + length (queue r1) \<le> MAX_PIPE_BUFFER"
      using Suc.prems False r1(3) by (auto simp: length_queue [symmetric] simp del: length_queue)
    from Suc.IH [OF r1(2) this] obtain r' where
      "write_loop k data r1 (Suc i) = Some (r', min (Suc i + k) (length data), length data \<le> Suc i + k)"
      "ring_wf r'" "queue r' = queue r1 @ take k (drop (Suc i) data)" by blast
    then show ?thesis using r1 d False Suc.prems(2) by simp
  qed
qed

lemma pipe_read_iter_spec:
  assumes wf: "ring_wf r" and n: "length acc < n"
  shows "\<exists>r' ret. pipe_read_iter alive Readable n r acc = Some (r', acc @ take (n - length acc) (queue r), ret) \<and>
    ring_wf r' \<and> queue r' = drop (n - length acc) (queue r) \<and>
    ret = (if queue r = [] then (if alive (the (write_end r)) then Suspend else Return (length acc))
           else if n \<le> length acc + length (queue r) then Return n else Continue)"
proof (cases "queue r = []")
  case True
  then have "available_read r = 0" by (metis length_queue list.size(3))
  moreover obtain w where "write_end r = Some w" using wf by (auto simp: ring_wf_def)
  ultimately show ?thesis using True wf n by (simp add: pipe_read_iter_def is_write_end_closed_def)
next
  case False
  then have ne: "available_read r \<noteq> 0" by (metis length_queue length_0_conv)
  let ?m = "n - length acc"
  from read_loop_spec [OF wf n, of "available_read r"] obtain r' where
    r': "read_loop (available_read r) n r acc = Some (r', acc @ take (min (available_read r) ?m) (queue r), ?m \<le> available_read r)"
    "ring_wf r'" "queue r' = drop (min (available_read r) ?m) (queue r)" by auto
  have t: "take (min (available_read r) ?m) (queue r) = take ?m (queue r)"
    "drop (min (available_read r) ?m) (queue r) = drop ?m (queue r)"
    by (auto simp: min_def)
  show ?thesis using r' ne False n unfolding t by (auto simp: pipe_read_iter_def)
qed

lemma pipe_write_iter_spec:
  assumes wf: "ring_wf r" and i: "i < length data"
  defines "k \<equiv> MAX_PIPE_BUFFER - length (queue r)"
  shows "\<exists>r' ret. pipe_write_iter alive Writable data r i = Some (r', min (i + k) (length data), ret) \<and>
    ring_wf r' \<and> queue r' = queue r @ take k (drop i data) \<and>
    ret = (if k = 0 then (if alive (the (read_end r)) then Suspend else Return i)
           else if length data \<le> i + k then Return (length data) else Continue)"
proof (cases "k = 0")
  case True
  then have "available_write r = 0" using available_read_cases(4) [OF wf] by (simp add: k_def)
  moreover obtain w where "read_end r = Some w" using wf by (auto simp: ring_wf_def)
  ultimately show ?thesis using True wf i by (simp add: pipe_write_iter_def is_read_end_closed_def)
next
  case False
  have av: "available_write r = k" using available_read_cases(4) [OF wf] by (simp add: k_def)
  have "k + length (queue r) \<le> MAX_PIPE_BUFFER" using available_read_cases(1) [OF wf] by (simp add: k_def)
  from write_loop_spec [OF wf i this] show ?thesis
    using False av by (auto simp: pipe_write_iter_def)
qed

section \<open>Interleaved readers and writers\<close>

text \<open>
  The state of a pipe in use: the ring, all bytes written so far and all bytes read so far. A step is one
  iteration of some reader, with \<open>acc\<close> of its \<open>n\<close> bytes already copied, or of some writer.
\<close>

record pipe_state =
  ring :: ring
  sent :: "u8 list"
  received :: "u8 list"

inductive pipe_step :: "pipe_state \<Rightarrow> pipe_state \<Rightarrow> bool" where
  read_step: "length acc < n \<Longrightarrow> pipe_read_iter alive Readable n (ring s) acc = Some (r', acc @ bs, ret) \<Longrightarrow>
    pipe_step s (s\<lparr>ring := r', received := received s @ bs\<rparr>)"
| write_step: "i < length data \<Longrightarrow> pipe_write_iter alive Writable data (ring s) i = Some (r', j, ret) \<Longrightarrow>
    pipe_step s (s\<lparr>ring := r', sent := sent s @ take (j - i) (drop i data)\<rparr>)"

inductive_cases pipe_stepE: "pipe_step s s'"

inductive pipe_reachable :: "pipe_state \<Rightarrow> bool" where
  start: "make_pipes p q = Inr (r, x, y) \<Longrightarrow> pipe_reachable \<lparr>ring = r, sent = [], received = []\<rparr>"
| step: "pipe_reachable s \<Longrightarrow> pipe_step s s' \<Longrightarrow> pipe_reachable s'"

definition pipe_inv :: "pipe_state \<Rightarrow> bool" where
  "pipe_inv s \<longleftrightarrow> ring_wf (ring s) \<and> received s @ queue (ring s) = sent s"

lemma make_pipes_wf: "make_pipes p q = Inr (r, x, y) \<Longrightarrow> ring_wf r \<and> queue r = [] \<and> x = Readable \<and> y = Writable"
  by (auto simp: make_pipes_def pipe_new_def O_RDONLY_def O_WRONLY_def set_read_end_def set_write_end_def
      ring_new_def ring_wf_def queue_def available_read_def)

lemma pipe_step_inv:
  assumes "pipe_step s s'" "pipe_inv s" shows "pipe_inv s'"
  using assms(1)
proof cases
  case (read_step acc n alive r' bs ret)
  have wf: "ring_wf (ring s)" using assms(2) by (simp add: pipe_inv_def)
  from pipe_read_iter_spec [OF wf read_step(2), of alive] read_step(3)
  have "bs = take (n - length acc) (queue (ring s))" "ring_wf r'" "queue r' = drop (n - length acc) (queue (ring s))"
    by auto
  then show ?thesis using read_step(1) assms(2) by (simp add: pipe_inv_def)
next
  case (write_step i data alive r' j ret)
  have wf: "ring_wf (ring s)" using assms(2) by (simp add: pipe_inv_def)
  let ?k = "MAX_PIPE_BUFFER - length (queue (ring s))"
  from pipe_write_iter_spec [OF wf write_step(2), of alive] write_step(3)
  have r': "j = min (i + ?k) (length data)" "ring_wf r'" "queue r' = queue (ring s) @ take ?k (drop i data)" by auto
  have "take (j - i) (drop i data) = take ?k (drop i data)"
  proof (cases "i + ?k \<le> length data")
    case True
    then show ?thesis using r'(1) by simp
  next
    case False
    then have "j - i = length (drop i data)" "length (drop i data) \<le> ?k" using r'(1) write_step(2) by auto
    then show ?thesis by simp
  qed
  then show ?thesis using write_step(1) r' assms(2) by (simp add: pipe_inv_def)
qed

lemma pipe_reachable_inv: "pipe_reachable s \<Longrightarrow> pipe_inv s"
proof (induction rule: pipe_reachable.induct)
  case (start p q r x y)
  then show ?case using make_pipes_wf [OF start] by (simp add: pipe_inv_def)
next
  case (step s s')
  then show ?case using pipe_step_inv by blast
qed

section \<open>Properties\<close>

text \<open>
  C4: whatever readers and writers do with a pipe, in any interleaving of their iterations, the bytes received are a
  prefix of the bytes sent, in order, and at most 8192 bytes are in flight.
\<close>

theorem pipe_fifo:
  assumes "pipe_reachable s"
  shows "received s @ queue (ring s) = sent s \<and> length (sent s) - length (received s) \<le> MAX_PIPE_BUFFER"
proof -
  have "ring_wf (ring s)" and eq: "received s @ queue (ring s) = sent s"
    using pipe_reachable_inv [OF assms] by (auto simp: pipe_inv_def)
  then have "length (queue (ring s)) \<le> MAX_PIPE_BUFFER" using available_read_cases(1) by simp
  moreover have "length (sent s) = length (received s) + length (queue (ring s))" using eq by (metis length_append)
  ultimately show ?thesis using eq by simp
qed

theorem pipe_fifo_witness:
  "\<exists>s. pipe_reachable s \<and> sent s = [7, 8] \<and> received s = [7] \<and> queue (ring s) = [8]"
proof -
  let ?r = "set_write_end 1 (set_read_end 0 ring_new)"
  have mk: "make_pipes 0 1 = Inr (?r, Readable, Writable)"
    by (simp add: make_pipes_def pipe_new_def O_RDONLY_def O_WRONLY_def)
  note w = make_pipes_wf [OF mk]
  let ?s = "\<lparr>ring = ?r, sent = [], received = []\<rparr>"
  have s0: "pipe_reachable ?s" using pipe_reachable.start [OF mk] .
  obtain r1 ret where r1: "pipe_write_iter (\<lambda>_. True) Writable [7, 8] ?r 0 = Some (r1, 2, ret)" "ring_wf r1" "queue r1 = [7, 8]"
    using pipe_write_iter_spec [of ?r 0 "[7, 8]" "\<lambda>_. True"] w
    by (auto simp: MAX_PIPE_BUFFER_def simp del: length_queue)
  have s1: "pipe_reachable \<lparr>ring = r1, sent = [7, 8], received = []\<rparr>"
    using pipe_reachable.step [OF s0 write_step [of 0 "[7, 8]" "\<lambda>_. True"]] r1(1) by simp
  obtain r2 ret' where r2: "pipe_read_iter (\<lambda>_. True) Readable 1 r1 [] = Some (r2, [] @ [7], ret')" "queue r2 = [8]"
    using pipe_read_iter_spec [OF r1(2), of "[]" 1 "\<lambda>_. True"] r1(3) by auto
  have s2: "pipe_reachable \<lparr>ring = r2, sent = [7, 8], received = [7]\<rparr>"
    using pipe_reachable.step [OF s1 read_step [of "[]" 1 "\<lambda>_. True"]] r2(1) by simp
  show ?thesis using s2 pipe_fifo [OF s2] r2(2) by force
qed

text \<open>
  one iteration of \<^verbatim>\<open>read\<close> never panics; it takes the first missing bytes in order and returns when the request
  is complete, suspends only on an empty pipe with a live writer, and returns a short count only
  when the pipe is empty and the writer is gone.
\<close>

theorem pipe_read_returns:
  assumes "ring_wf r" and "length acc < n"
  shows "\<exists>r' ret. pipe_read_iter alive Readable n r acc = Some (r', acc @ take (n - length acc) (queue r), ret) \<and>
    ring_wf r' \<and> queue r' = drop (n - length acc) (queue r) \<and>
    ret = (if queue r = [] then (if alive (the (write_end r)) then Suspend else Return (length acc))
           else if n \<le> length acc + length (queue r) then Return n else Continue)"
  using pipe_read_iter_spec [OF assms] .

theorem pipe_read_returns_witness:
  "ring_wf (set_write_end 1 (set_read_end 0 ring_new)) \<and>
   (\<exists>r'. pipe_read_iter (\<lambda>_. False) Readable 4 (set_write_end 1 (set_read_end 0 ring_new)) [] = Some (r', [], Return 0))"
proof -
  have mk: "make_pipes 0 1 = Inr (set_write_end 1 (set_read_end 0 ring_new), Readable, Writable)"
    by (simp add: make_pipes_def pipe_new_def O_RDONLY_def O_WRONLY_def)
  note w = make_pipes_wf [OF mk]
  then show ?thesis using pipe_read_returns [of "set_write_end 1 (set_read_end 0 ring_new)" "[]" 4 "\<lambda>_. False"] by auto
qed

text \<open>
  one iteration of \<^verbatim>\<open>write\<close> never panics and appends as many of the remaining bytes as fit, in order. It looks at the
  read end only when the pipe is full, so a write to a pipe without readers still succeeds while there is room.
\<close>

theorem pipe_write_returns:
  assumes "ring_wf r" and "i < length data"
  shows "\<exists>r' ret. pipe_write_iter alive Writable data r i =
      Some (r', min (i + (MAX_PIPE_BUFFER - length (queue r))) (length data), ret) \<and> ring_wf r' \<and>
    queue r' = queue r @ take (MAX_PIPE_BUFFER - length (queue r)) (drop i data) \<and>
    ret = (if length (queue r) = MAX_PIPE_BUFFER then (if alive (the (read_end r)) then Suspend else Return i)
           else if length data - i \<le> MAX_PIPE_BUFFER - length (queue r) then Return (length data) else Continue)"
  using pipe_write_iter_spec [OF assms, of alive] available_read_cases(1) [OF assms(1)] assms(2)
  by (auto simp: le_diff_conv)

theorem pipe_write_returns_witness:
  "ring_wf (set_write_end 1 (set_read_end 0 ring_new)) \<and>
   (\<exists>r'. pipe_write_iter (\<lambda>_. False) Writable [5] (set_write_end 1 (set_read_end 0 ring_new)) 0 = Some (r', 1, Return 1) \<and>
     queue r' = [5])"
proof -
  have mk: "make_pipes 0 1 = Inr (set_write_end 1 (set_read_end 0 ring_new), Readable, Writable)"
    by (simp add: make_pipes_def pipe_new_def O_RDONLY_def O_WRONLY_def)
  note w = make_pipes_wf [OF mk]
  then show ?thesis using pipe_write_returns [of "set_write_end 1 (set_read_end 0 ring_new)" 0 "[5]" "\<lambda>_. False"]
    by (auto simp: MAX_PIPE_BUFFER_def simp del: length_queue)
qed

end
