(* ===== verification/Sys_Fs.thy ===== *)
theory Sys_Fs
  imports File_System Pipe
begin

text \<open>
  The system calls on files and directories (\<^verbatim>\<open>syscall/fs.rs\<close>, with the structures of \<^verbatim>\<open>syscall/mod.rs\<close> that they write). The state is what the
  calls of one process work on: the tree of entries with its open files, the table of descriptors, the working directory, the
  pipes, the page cache of every open file, physical memory and user memory. The memory guard of the calls is the theory \<open>Hart_Env\<close>; the bytes of a file are those of \<open>File_Io\<close>.
\<close>

section \<open>Files and memory\<close>

datatype ofile = Stdin | Stdout | Stderr | OFile nat | PipeEnd nat pipe_status

record 'd task_fs =
  vf :: "'d vfs"
  tbl :: "ofile fd_table"
  cwd :: string
  um :: "usize \<Rightarrow> u8"
  rings :: "nat \<rightharpoonup> ring"
  next_ring :: nat
  caches :: "nat \<Rightarrow> page_cache"
  pm :: pmem

definition write_user :: "usize \<Rightarrow> u8 list \<Rightarrow> (usize \<Rightarrow> u8) \<Rightarrow> usize \<Rightarrow> u8" where
  "write_user a bs m = (\<lambda>b. if unat (b - a) < length bs then bs ! unat (b - a) else m b)"

definition put_user :: "usize \<Rightarrow> u8 list \<Rightarrow> 'd task_fs \<Rightarrow> 'd task_fs" where
  "put_user a bs s = s\<lparr>um := write_user a bs (um s)\<rparr>"

text \<open>The path of the entry of a file; a standard stream has no metadata, a pipe no entry.\<close>

definition file_path :: "'d vfs \<Rightarrow> ofile \<Rightarrow> string option" where
  "file_path v f = (case f of OFile h \<Rightarrow> do { vfl \<leftarrow> files v h; e \<leftarrow> dentries v (vf_dentry vfl); Some (d_path e) } | _ \<Rightarrow> None)"

definition user_path :: "int \<Rightarrow> usize \<Rightarrow> 'd task_fs \<Rightarrow> ('d task_fs \<times> string os_result) option" where
  "user_path dirfd ptr s =
     do { r \<leftarrow> ptr_and_dirfd_to_path (um s) (file_path (vf s)) (tbl s) (cwd s) dirfd ptr; Some (s, r) }"

definition in_vfs :: "('d vfs \<Rightarrow> ('d vfs \<times> 'a os_result) option) \<Rightarrow> 'd task_fs \<Rightarrow> ('d task_fs \<times> 'a os_result) option" where
  "in_vfs f s = do { (v, r) \<leftarrow> f (vf s); Some (s\<lparr>vf := v\<rparr>, r) }"

definition find_path :: "'d ext4_lib \<Rightarrow> time_spec \<Rightarrow> string \<Rightarrow> 'd task_fs \<Rightarrow> ('d task_fs \<times> did option os_result) option" where
  "find_path x now path = in_vfs (\<lambda>v. do { (v, r) \<leftarrow> path_to_dentry x now path v; Some (v, Inr r) })"

text \<open>\<^verbatim>\<open>ok_or(ENOENT)?\<close> after a lookup.\<close>

definition find_entry :: "'d ext4_lib \<Rightarrow> time_spec \<Rightarrow> string \<Rightarrow> 'd task_fs \<Rightarrow> ('d task_fs \<times> did os_result) option" where
  "find_entry x now path s =
     and_then (find_path x now path s) (\<lambda>s r. Some (s, case r of None \<Rightarrow> Inl ENOENT | Some d \<Rightarrow> Inr d))"

definition mode_of :: "did \<Rightarrow> 'd task_fs \<Rightarrow> inode_mode option" where
  "mode_of d s = map_option i_mode (inode_of d (vf s))"

text \<open>Changing the times of the inode of an entry.\<close>

definition touch :: "(inode_meta \<Rightarrow> inode_meta) \<Rightarrow> did \<Rightarrow> 'd task_fs \<Rightarrow> 'd task_fs option" where
  "touch f d s = do { e \<leftarrow> dentries (vf s) d; i \<leftarrow> inodes (vf s) (d_inode e); Some (s\<lparr>vf := set_inode (d_inode e) (f i) (vf s)\<rparr>) }"

section \<open>Opening and closing\<close>

definition open_dentry :: "did \<Rightarrow> open_flags \<Rightarrow> 'd task_fs \<Rightarrow> ('d task_fs \<times> usize os_result) option" where
  "open_dentry d flags s =
     and_then (in_vfs (dopen d flags) s)
       (\<lambda>s h. do { (t, r) \<leftarrow> insert_get_fd \<lparr>fd_file = OFile h, fd_flags = flags\<rparr> (tbl s); Some (s\<lparr>tbl := t\<rparr>, map_sum id of_nat r) })"

definition sys_openat :: "'d ext4_lib \<Rightarrow> time_spec \<Rightarrow> int \<Rightarrow> usize \<Rightarrow> u32 \<Rightarrow> 'd task_fs \<Rightarrow> ('d task_fs \<times> usize os_result) option" where
  "sys_openat x now dirfd pathname flags0 s =
     (let flags = flags0 AND open_flags_all in
      and_then (user_path dirfd pathname s) (\<lambda>s path.
      and_then (find_path x now path s) (\<lambda>s r.
        case r of
          Some d \<Rightarrow>
            do { file_kind \<leftarrow> mode_of d s;
                 let flags = (if contains flags O_TRUNC \<and> \<not> (file_kind = Regular \<and> is_writable flags) then flags_remove O_TRUNC flags else flags);
                 if contains flags O_DIRECTORY \<and> file_kind \<noteq> Directory then Some (s, Inl ENOTDIR)
                 else if contains flags O_CREAT \<and> contains flags O_EXCL then Some (s, Inl EEXIST)
                 else open_dentry d flags s }
        | None \<Rightarrow>
            if contains flags O_CREAT then
              and_then (find_path x now (parent_path path) s) (\<lambda>s pa.
                do { fa \<leftarrow> pa;
                     and_then (in_vfs (create x now fa (dentry_name path) Regular) s) (\<lambda>s d. open_dentry d flags s) })
            else Some (s, Inl ENOENT))))"

text \<open>
  Closing a file. The file of an ext4 entry removes itself from the disk when it was unlinked and this was its last descriptor; the
  standard streams have no metadata. The table of this process is the only owner of the files: with its last descriptor a file goes, and with the file
  its page cache.
\<close>

definition close_ofile :: "'d ext4_lib \<Rightarrow> ofile \<Rightarrow> 'd task_fs \<Rightarrow> ('d task_fs \<times> unit os_result) option" where
  "close_ofile x f s = (case f of
     OFile h \<Rightarrow>
       do { vfl \<leftarrow> files (vf s) h;
            e \<leftarrow> dentries (vf s) (vf_dentry vfl);
            i \<leftarrow> inodes (vf s) (vf_inode vfl);
            if d_kind e = Ext4Dentry then
              let (dk, rm) = lwext4_rmfile x (d_path e) (disk (vf s)) in
              do { (i', r) \<leftarrow> ext4_close rm i;
                   let v = set_inode (vf_inode vfl) i' (vf s);
                   Some (s\<lparr>vf := (if i_link_count i' = 0 \<and> i_open_count i' = 0 then v\<lparr>disk := dk\<rparr> else v)\<rparr>, r) }
            else do { i' \<leftarrow> file_close (Some i); Some (s\<lparr>vf := set_inode (vf_inode vfl) i' (vf s)\<rparr>, Inr ()) } }
   | PipeEnd _ _ \<Rightarrow> Some (s, Inr ())
   | _ \<Rightarrow> None)"

definition drop_file :: "ofile \<Rightarrow> 'd task_fs \<Rightarrow> 'd task_fs option" where
  "drop_file f s = (case f of
     OFile h \<Rightarrow>
       if f \<in> (fd_file \<circ> snd) ` set (fds (tbl s)) then Some s
       else do { k \<leftarrow> foldM arc_drop (map snd (caches s h)) (pm s);
                 Some (s\<lparr>vf := (vf s)\<lparr>files := (files (vf s))(h := None)\<rparr>, caches := (caches s)(h := []), pm := k\<rparr>) }
   | _ \<Rightarrow> Some s)"

definition sys_close_fd :: "'d ext4_lib \<Rightarrow> nat \<Rightarrow> 'd task_fs \<Rightarrow> ('d task_fs \<times> usize os_result) option" where
  "sys_close_fd x fd s = (case bt_get (fds (tbl s)) fd of
     None \<Rightarrow> Some (s, Inl EBADF)
   | Some i \<Rightarrow> and_then (close_ofile x (fd_file i) s)
       (\<lambda>s _. do { t \<leftarrow> close_fd fd (tbl s); s' \<leftarrow> drop_file (fd_file i) (s\<lparr>tbl := t\<rparr>); Some (s', Inr 0) }))"

section \<open>Directories\<close>

definition sys_mkdirat :: "'d ext4_lib \<Rightarrow> time_spec \<Rightarrow> int \<Rightarrow> usize \<Rightarrow> 'd task_fs \<Rightarrow> ('d task_fs \<times> usize os_result) option" where
  "sys_mkdirat x now dirfd pathname s =
     and_then (user_path dirfd pathname s) (\<lambda>s path.
     and_then (find_path x now path s) (\<lambda>s r.
       if r \<noteq> None then Some (s, Inl EEXIST)
       else and_then (find_path x now (parent_path path) s) (\<lambda>s pa.
         do { fa \<leftarrow> pa;
              mode \<leftarrow> mode_of fa s;
              if mode \<noteq> Directory then Some (s, Inl ENOTDIR)
              else do { s \<leftarrow> touch (\<lambda>i. i\<lparr>i_atime := now, i_mtime := now\<rparr>) fa s;
                        and_then (in_vfs (create x now fa (dentry_name path) Directory) s) (\<lambda>s _. Some (s, Inr 0)) } })))"

definition AT_REMOVEDIR :: u32 where "AT_REMOVEDIR = 0x200"

definition unlink_from_parent :: "'d ext4_lib \<Rightarrow> did \<Rightarrow> 'd task_fs \<Rightarrow> ('d task_fs \<times> usize os_result) option" where
  "unlink_from_parent x d s =
     do { e \<leftarrow> dentries (vf s) d;
          (case d_parent e of
             None \<Rightarrow> Some (s, Inl EPERM)
           | Some p \<Rightarrow> do { pa \<leftarrow> upgrade p (vf s); and_then (in_vfs (unlink x pa d) s) (\<lambda>s _. Some (s, Inr 0)) }) }"

definition sys_unlinkat :: "'d ext4_lib \<Rightarrow> time_spec \<Rightarrow> int \<Rightarrow> usize \<Rightarrow> u32 \<Rightarrow> 'd task_fs \<Rightarrow> ('d task_fs \<times> usize os_result) option" where
  "sys_unlinkat x now dirfd pathname flags s =
     and_then (user_path dirfd pathname s) (\<lambda>s path.
       if path = cwd s then Some (s, Inl EBUSY)
       else and_then (find_entry x now path s) (\<lambda>s d.
         do { e \<leftarrow> dentries (vf s) d;
              mode \<leftarrow> mode_of d s;
              if mode = Directory then
                if flags AND AT_REMOVEDIR = AT_REMOVEDIR then
                  if d_child e = [] then unlink_from_parent x d s else Some (s, Inl ENOTEMPTY)
                else Some (s, Inl EISDIR)
              else do { s \<leftarrow> touch (\<lambda>i. i\<lparr>i_atime := now, i_ctime := now, i_mtime := now\<rparr>) d s; unlink_from_parent x d s } }))"

definition sys_chdir :: "'d ext4_lib \<Rightarrow> time_spec \<Rightarrow> usize \<Rightarrow> 'd task_fs \<Rightarrow> ('d task_fs \<times> usize os_result) option" where
  "sys_chdir x now ptr s =
     do { p \<leftarrow> c_ptr_to_string (um s) ptr;
          let p = format_path p;
          let p = (if is_relative_path p then cwd_and_path p (cwd s) else p);
          and_then (find_entry x now p s) (\<lambda>s d.
            do { mode \<leftarrow> mode_of d s;
                 if mode \<noteq> Directory then Some (s, Inl ENOTDIR)
                 else do { s \<leftarrow> touch (\<lambda>i. i\<lparr>i_atime := now\<rparr>) d s; Some (s\<lparr>cwd := p\<rparr>, Inr 0) } }) }"

definition string_bytes :: "string \<Rightarrow> u8 list" where
  "string_bytes t = map (\<lambda>c. of_nat (of_char c)) t"

definition sys_getcwd :: "usize \<Rightarrow> nat \<Rightarrow> 'd task_fs \<Rightarrow> ('d task_fs \<times> usize os_result) option" where
  "sys_getcwd ubuf len s =
     (if len < length (cwd s) then Some (s, Inl ERANGE)
      else do { rassert (starts_with ''/'' (cwd s));
                Some (put_user ubuf (string_bytes (cwd s)) (put_user ubuf (replicate len 0) s), Inr ubuf) })"

section \<open>Links\<close>

definition sys_linkat :: "'d ext4_lib \<Rightarrow> time_spec \<Rightarrow> int \<Rightarrow> usize \<Rightarrow> int \<Rightarrow> usize \<Rightarrow> 'd task_fs \<Rightarrow> ('d task_fs \<times> usize os_result) option" where
  "sys_linkat x now old_dirfd old_ptr new_dirfd new_ptr s =
     and_then (user_path old_dirfd old_ptr s) (\<lambda>s old_path.
     and_then (user_path new_dirfd new_ptr s) (\<lambda>s new_path.
       if dcache (vf s) new_path \<noteq> None then Some (s, Inl EEXIST)
       else and_then (find_entry x now old_path s) (\<lambda>s d.
         do { m \<leftarrow> mode_of d s;
              if m \<noteq> Regular then Some (s, Inl EPERM)
              else and_then (find_entry x now (parent_path new_path) s) (\<lambda>s p.
                do { m \<leftarrow> mode_of p s;
                     if m \<noteq> Directory then Some (s, Inl ENOTDIR)
                     else and_then (in_vfs (dlink x d p (dentry_name new_path)) s) (\<lambda>s _. Some (s, Inr 0)) }) })))"

definition sys_symlinkat :: "'d ext4_lib \<Rightarrow> time_spec \<Rightarrow> usize \<Rightarrow> int \<Rightarrow> usize \<Rightarrow> 'd task_fs \<Rightarrow> ('d task_fs \<times> usize os_result) option" where
  "sys_symlinkat x now target new_dirfd link_ptr s =
     and_then (user_path new_dirfd link_ptr s) (\<lambda>s link_path.
       do { t \<leftarrow> c_ptr_to_string (um s) target;
            if dcache (vf s) link_path \<noteq> None then Some (s, Inl EEXIST)
            else and_then (find_entry x now (parent_path link_path) s) (\<lambda>s fa.
              and_then (in_vfs (symbol_link x now fa (dentry_name link_path) t) s) (\<lambda>s _. Some (s, Inr 0))) })"

definition sys_readlinkat :: "'d ext4_lib \<Rightarrow> time_spec \<Rightarrow> int \<Rightarrow> usize \<Rightarrow> usize \<Rightarrow> int \<Rightarrow> 'd task_fs \<Rightarrow> ('d task_fs \<times> usize os_result) option" where
  "sys_readlinkat x now dirfd pathname ubuf bufsize s =
     (if bufsize < 0 then Some (s, Inl EINVAL)
      else and_then (user_path dirfd pathname s) (\<lambda>s path.
        and_then (find_entry x now path s) (\<lambda>s d.
          do { m \<leftarrow> mode_of d s;
               if m \<noteq> Link then Some (s, Inl EINVAL)
               else do { r \<leftarrow> read_symlink x d (nat bufsize) (vf s);
                         (case r of Inl er \<Rightarrow> Some (s, Inl er) | Inr bs \<Rightarrow> Some (put_user ubuf (take (nat bufsize) bs) s, Inr 0)) } })))"

definition sys_renameat2 :: "'d ext4_lib \<Rightarrow> time_spec \<Rightarrow> int \<Rightarrow> usize \<Rightarrow> int \<Rightarrow> usize \<Rightarrow> 'd task_fs \<Rightarrow> ('d task_fs \<times> usize os_result) option" where
  "sys_renameat2 x now old_dirfd old_ptr new_dirfd new_ptr s =
     and_then (user_path old_dirfd old_ptr s) (\<lambda>s old_path.
     and_then (user_path new_dirfd new_ptr s) (\<lambda>s new_path.
     and_then (find_entry x now (parent_path old_path) s) (\<lambda>s od.
     and_then (find_entry x now (parent_path new_path) s) (\<lambda>s nd.
       do { oi \<leftarrow> inode_of od (vf s);
            ni \<leftarrow> inode_of nd (vf s);
            if i_ino oi = i_ino ni then Some (s, Inr 0)
            else if i_mode oi \<noteq> i_mode ni then
              (case (i_mode oi, i_mode ni) of
                 (Regular, Directory) \<Rightarrow> Some (s, Inl EISDIR)
               | (Directory, Regular) \<Rightarrow> Some (s, Inl ENOTDIR)
               | _ \<Rightarrow> None)
            else and_then (in_vfs (rename x od (dentry_name old_path) nd (dentry_name new_path)) s) (\<lambda>s _. Some (s, Inr 0)) }))))"

section \<open>Mounting\<close>

text \<open>No inode has a block device: a source that exists ends in \<^verbatim>\<open>todo!()\<close>.\<close>

definition sys_mount ::
  "'d fat_new \<Rightarrow> nat \<Rightarrow> 'd ext4_lib \<Rightarrow> time_spec \<Rightarrow> usize \<Rightarrow> usize \<Rightarrow> usize \<Rightarrow> u32 \<Rightarrow> 'd task_fs \<Rightarrow> ('d task_fs \<times> usize os_result) option" where
  "sys_mount fat fuel x now source target fs_type_ptr flags s =
     and_then (user_path AT_FDCWD source s) (\<lambda>s dev_path.
     and_then (user_path AT_FDCWD target s) (\<lambda>s tar_path.
       do { t \<leftarrow> c_ptr_to_string (um s) fs_type_ptr;
            ty \<leftarrow> str_to_type t;
            (case from_bits fs_flags_all (flags AND 511) of
               None \<Rightarrow> Some (s, Inl EINVAL)
             | Some fl \<Rightarrow> and_then (find_path x now dev_path s) (\<lambda>s dev.
                 do { rassert (dev = None);
                      and_then (in_vfs (mount fat fuel x now tar_path dev_path False ty fl) s) (\<lambda>s _. Some (s, Inr 0)) })) }))"

definition sys_umount2 :: "usize \<Rightarrow> 'd task_fs \<Rightarrow> ('d task_fs \<times> usize os_result) option" where
  "sys_umount2 target s =
     and_then (user_path AT_FDCWD target s) (\<lambda>s path.
       if path = ''/'' then Some (s, Inl EPERM)
       else and_then (in_vfs (unmount path) s) (\<lambda>s _. Some (s, Inr 0)))"

section \<open>Listing a directory\<close>

definition DT_UNKNOWN :: u8 where "DT_UNKNOWN = 0"
definition DT_FIFO :: u8 where "DT_FIFO = push_bit 0 1"
definition DT_CHR :: u8 where "DT_CHR = push_bit 1 1"
definition DT_DIR :: u8 where "DT_DIR = push_bit 2 1"

text \<open>A sum binds tighter than a shift, and shifts associate to the left.\<close>

definition DT_BLK :: u8 where "DT_BLK = push_bit 2 (push_bit (1 + 1) 1)"
definition DT_REG :: u8 where "DT_REG = push_bit 3 1"
definition DT_LNK :: u8 where "DT_LNK = push_bit 3 (push_bit (1 + 1) 1)"
definition DT_SOCK :: u8 where "DT_SOCK = push_bit 3 (push_bit (2 + 1) 1)"
definition DT_WHT :: u8 where "DT_WHT = push_bit 3 (push_bit (1 + 1) (push_bit (2 + 1) 1))"

definition dirent_type :: "inode_mode \<Rightarrow> u8" where
  "dirent_type m = (case m of Block \<Rightarrow> DT_BLK | Char \<Rightarrow> DT_CHR | Link \<Rightarrow> DT_LNK | Regular \<Rightarrow> DT_REG | Directory \<Rightarrow> DT_DIR
     | FIFO \<Rightarrow> DT_FIFO | Socket \<Rightarrow> DT_SOCK | UNKNOWN \<Rightarrow> DT_UNKNOWN)"

record dirent64 =
  de_ino :: u64
  de_off :: u64
  de_reclen :: u16
  de_type :: u8

definition load_dirent64 :: "u64 \<Rightarrow> u8 \<Rightarrow> u16 \<Rightarrow> dirent64" where
  "load_dirent64 ino mode len = \<lparr>de_ino = ino, de_off = 0, de_reclen = len, de_type = mode\<rparr>"

definition dirent_size :: nat where "dirent_size = 8 + 8 + 2 + 1"

text \<open>The fields as they lie in memory; the padding behind them is not written.\<close>

definition dirent_bytes :: "dirent64 \<Rightarrow> u8 list" where
  "dirent_bytes d = le_bytes 8 (unat (de_ino d)) @ le_bytes 8 (unat (de_off d)) @ le_bytes 2 (unat (de_reclen d)) @ [de_type d]"

definition dirent_record :: "inode_meta \<Rightarrow> string \<Rightarrow> u8 list" where
  "dirent_record i name =
     dirent_bytes (load_dirent64 (of_nat (i_ino i)) (dirent_type (i_mode i)) (of_nat (dirent_size + length name + 1))) @ string_bytes name @ [0]"

text \<open>
  The loop over the children: \<open>idx\<close> counts them, \<open>start\<close> is the index at the beginning, and the result has the new index and
  the bytes written to the buffer.
\<close>

fun dents_loop :: "'d vfs \<Rightarrow> nat \<Rightarrow> nat \<Rightarrow> nat \<Rightarrow> (string \<times> did) list \<Rightarrow> nat \<times> u8 list \<Rightarrow> (nat \<times> u8 list) option" where
  "dents_loop v count start idx [] r = Some r"
| "dents_loop v count start idx ((name, c) # cs) (di, bs) =
     (if idx < start then dents_loop v count start (idx + 1) cs (di, bs)
      else do { i \<leftarrow> inode_of c v;
                if length bs + (dirent_size + length name + 1) > count then Some (di, bs)
                else dents_loop v count start (idx + 1) cs (idx + 1, bs @ dirent_record i name) })"

definition sys_getdents64 :: "time_spec \<Rightarrow> nat \<Rightarrow> usize \<Rightarrow> nat \<Rightarrow> 'd task_fs \<Rightarrow> ('d task_fs \<times> usize os_result) option" where
  "sys_getdents64 now fd dirp count s = (case bt_get (fds (tbl s)) fd of
     None \<Rightarrow> Some (s, Inl EBADF)
   | Some i \<Rightarrow> (case fd_file i of
       OFile h \<Rightarrow>
         do { vfl \<leftarrow> files (vf s) h;
              m \<leftarrow> mode_of (vf_dentry vfl) s;
              if m \<noteq> Directory then Some (s, Inl ENOTDIR)
              else do { s \<leftarrow> touch (\<lambda>i. i\<lparr>i_atime := now\<rparr>) (vf_dentry vfl) s;
                        e \<leftarrow> dentries (vf s) (vf_dentry vfl);
                        let di = unat (dirent_index (vf_inner vfl));
                        (di', bs) \<leftarrow> dents_loop (vf s) count di 0 (d_child e) (di, []);
                        let vfl' = vfl\<lparr>vf_inner := (vf_inner vfl)\<lparr>dirent_index := of_nat di'\<rparr>\<rparr>;
                        Some (put_user dirp bs (s\<lparr>vf := (vf s)\<lparr>files := (files (vf s))(h \<mapsto> vfl')\<rparr>\<rparr>), Inr (of_nat (length bs))) } }
     | _ \<Rightarrow> None))"

section \<open>Status\<close>

record stat =
  st_dev :: u64
  st_ino :: u64
  st_mode :: u32
  st_nlink :: u32
  st_uid :: u32
  st_gid :: u32
  st_rdev :: u64
  st_pad1 :: usize
  st_size :: u64
  st_blksize :: u32
  st_pad2 :: u32
  st_blocks :: u64
  st_atim :: time_spec
  st_mtim :: time_spec
  st_ctim :: time_spec

definition stat_new :: "time_spec \<Rightarrow> stat" where
  "stat_new now = \<lparr>st_dev = 0, st_ino = 0, st_mode = 0, st_nlink = 1, st_uid = 0, st_gid = 0, st_rdev = 0, st_pad1 = 0, st_size = 0,
     st_blksize = of_nat SECTOR_SIZE, st_pad2 = 0, st_blocks = 0, st_atim = now, st_mtim = now, st_ctim = now\<rparr>"

text \<open>\<^verbatim>\<open>as u32\<close> on the mode is the position of the constructor.\<close>

definition mode_number :: "inode_mode \<Rightarrow> u32" where
  "mode_number m = (case m of Socket \<Rightarrow> 0 | Link \<Rightarrow> 1 | Regular \<Rightarrow> 2 | Block \<Rightarrow> 3 | Directory \<Rightarrow> 4 | Char \<Rightarrow> 5 | FIFO \<Rightarrow> 6 | UNKNOWN \<Rightarrow> 7)"

definition time_bytes :: "time_spec \<Rightarrow> u8 list" where
  "time_bytes t = le_bytes 8 (unat (tv_sec t)) @ le_bytes 8 (unat (tv_nsec t))"

definition stat_bytes :: "stat \<Rightarrow> u8 list" where
  "stat_bytes k = le_bytes 8 (unat (st_dev k)) @ le_bytes 8 (unat (st_ino k)) @ le_bytes 4 (unat (st_mode k)) @ le_bytes 4 (unat (st_nlink k)) @
     le_bytes 4 (unat (st_uid k)) @ le_bytes 4 (unat (st_gid k)) @ le_bytes 8 (unat (st_rdev k)) @ le_bytes 8 (unat (st_pad1 k)) @ le_bytes 8 (unat (st_size k)) @
     le_bytes 4 (unat (st_blksize k)) @ le_bytes 4 (unat (st_pad2 k)) @ le_bytes 8 (unat (st_blocks k)) @ time_bytes (st_atim k) @ time_bytes (st_mtim k) @ time_bytes (st_ctim k)"

text \<open>No inode has a block device. The inode of a pipe is gone when the pipe is made; a standard stream has no metadata.\<close>

definition sys_fstat :: "time_spec \<Rightarrow> nat \<Rightarrow> usize \<Rightarrow> 'd task_fs \<Rightarrow> ('d task_fs \<times> usize os_result) option" where
  "sys_fstat now fd ubuf s = (case bt_get (fds (tbl s)) fd of
     None \<Rightarrow> Some (s, Inl EBADF)
   | Some fi \<Rightarrow> (case fd_file fi of
       OFile h \<Rightarrow>
         do { vfl \<leftarrow> files (vf s) h;
              i \<leftarrow> inodes (vf s) (vf_inode vfl);
              let kstat = (stat_new now)\<lparr>st_dev := 1234567, st_ino := of_nat (i_ino i), st_mode := mode_number (i_mode i), st_size := i_size i,
                 st_blocks := i_size i div of_nat SECTOR_SIZE, st_atim := i_atime i, st_mtim := i_mtime i, st_ctim := i_ctime i\<rparr>;
              Some (put_user ubuf (stat_bytes kstat) s, Inr 0) }
     | PipeEnd _ _ \<Rightarrow> Some (s, Inl EBADF)
     | _ \<Rightarrow> None))"

definition str_to_buf :: "string \<Rightarrow> u8 list" where
  "str_to_buf t = resize 65 (string_bytes t)"

definition uts_name :: "u8 list" where
  "uts_name = concat (map str_to_buf [''DuckOS'', ''DuckMountain'', ''1.0.0-generic'', ''1.0.0'', ''RISC-V'', ''Duckos.org''])"

definition sys_uname :: "usize \<Rightarrow> 'd task_fs \<Rightarrow> ('d task_fs \<times> usize os_result) option" where
  "sys_uname ubuf s = Some (put_user ubuf uts_name s, Inr 0)"

section \<open>Reading and writing\<close>

definition read_user :: "usize \<Rightarrow> nat \<Rightarrow> 'd task_fs \<Rightarrow> u8 list" where
  "read_user a n s = map (\<lambda>i. um s (a + of_nat i)) [0..<n]"

text \<open>The state of an open file, for the functions of \<open>File_Io\<close>.\<close>

definition get_file :: "nat \<Rightarrow> 'd task_fs \<Rightarrow> (dentry_kind \<times> file_st) option" where
  "get_file h s =
     do { vfl \<leftarrow> files (vf s) h; e \<leftarrow> dentries (vf s) (vf_dentry vfl); i \<leftarrow> inodes (vf s) (vf_inode vfl);
          Some (d_kind e, (caches s h, pm s), vf_inner vfl, i) }"

definition put_file :: "nat \<Rightarrow> file_st \<Rightarrow> 'd task_fs \<Rightarrow> 'd task_fs option" where
  "put_file h st s = (case st of ((c, k), f, i) \<Rightarrow>
     do { vfl \<leftarrow> files (vf s) h;
          Some (s\<lparr>caches := (caches s)(h := c), pm := k,
                  vf := set_inode (vf_inode vfl) i ((vf s)\<lparr>files := (files (vf s))(h \<mapsto> vfl\<lparr>vf_inner := f\<rparr>)\<rparr>)\<rparr>) })"

text \<open>The files of the file systems in memory: no page is ever made, as there is no inode to read it from.\<close>

fun simple_read_loop :: "nat \<Rightarrow> disk_read \<Rightarrow> nat \<Rightarrow> usize \<Rightarrow> u8 list \<Rightarrow> file_st \<Rightarrow> (file_st \<times> u8 list) option" where
  "simple_read_loop 0 rd n off acc st = None"
| "simple_read_loop (Suc fuel) rd n off acc st = (case st of (ck, f, ino) \<Rightarrow>
     if n \<le> length acc then Some (st, acc)
     else do { (ck', oh) \<leftarrow> find_page_and_create off None ck;
               (case oh of
                  None \<Rightarrow> Some ((ck', f, ino), acc)
                | Some h \<Rightarrow>
                    let page_offset = unat off mod PAGE_BYTES; byte = min (PAGE_BYTES - page_offset) (n - length acc) in
                    do { (k1, bs) \<leftarrow> page_read rd h page_offset byte (snd ck');
                         k2 \<leftarrow> arc_drop h k1;
                         simple_read_loop fuel rd n (off + of_nat byte) (acc @ bs) ((fst ck', k2), f\<lparr>f_pos := off + of_nat byte\<rparr>, ino) }) })"

definition simple_read :: "disk_read \<Rightarrow> time_spec \<Rightarrow> open_flags \<Rightarrow> nat \<Rightarrow> file_st \<Rightarrow> (file_st \<times> u8 list os_result) option" where
  "simple_read rd now flags n st =
     (if contains flags O_PATH then Some (st, Inl EBADF)
      else do { ((ck, f, ino), bs) \<leftarrow> simple_read_loop (n + 1) rd n (f_pos (fst (snd st))) [] st;
                Some ((ck, f, if contains flags O_NOATIME then ino else ino\<lparr>i_atime := now\<rparr>), Inr bs) })"

fun simple_write_loop :: "nat \<Rightarrow> disk_read \<Rightarrow> u8 list \<Rightarrow> nat \<Rightarrow> usize \<Rightarrow> file_st \<Rightarrow> (file_st \<times> nat) option" where
  "simple_write_loop 0 rd bs k off st = None"
| "simple_write_loop (Suc fuel) rd bs k off st = (case st of (ck, f, ino) \<Rightarrow>
     if length bs \<le> k then Some (st, k)
     else do { (ck', oh) \<leftarrow> find_page_and_create off None ck;
               (case oh of
                  None \<Rightarrow> Some ((ck', f, ino), k)
                | Some h \<Rightarrow>
                    let page_offset = unat off mod PAGE_BYTES; byte = min (PAGE_BYTES - page_offset) (length bs - k) in
                    do { k1 \<leftarrow> page_write rd h page_offset (take byte (drop k bs)) (snd ck');
                         k2 \<leftarrow> arc_drop h k1;
                         simple_write_loop fuel rd bs (k + byte) (off + of_nat byte) ((fst ck', k2), f\<lparr>f_pos := off + of_nat byte\<rparr>, ino) }) })"

definition simple_write :: "disk_read \<Rightarrow> time_spec \<Rightarrow> open_flags \<Rightarrow> u8 list \<Rightarrow> file_st \<Rightarrow> (file_st \<times> nat os_result) option" where
  "simple_write rd now flags bs st =
     (if contains flags O_PATH then Some (st, Inl EBADF)
      else do { ((ck, f, ino), k) \<leftarrow> simple_write_loop (length bs + 1) rd bs 0 (f_pos (fst (snd st))) st;
                Some ((ck, f, ino\<lparr>i_atime := now, i_ctime := now, i_mtime := now\<rparr>), Inr k) })"

text \<open>Devices, standard streams and pipes are the arguments \<open>rdo\<close> and \<open>wro\<close>.\<close>

definition read_ofile ::
  "(ofile \<Rightarrow> open_flags \<Rightarrow> nat \<Rightarrow> 'd task_fs \<Rightarrow> ('d task_fs \<times> u8 list os_result) option) \<Rightarrow> disk_read \<Rightarrow> time_spec \<Rightarrow> ofile \<Rightarrow> open_flags \<Rightarrow> nat \<Rightarrow>
   'd task_fs \<Rightarrow> ('d task_fs \<times> u8 list os_result) option" where
  "read_ofile rdo rd now f flags n s = (case f of
     OFile h \<Rightarrow>
       do { (k, st) \<leftarrow> get_file h s;
            if k = DevDentry then rdo f flags n s
            else do { (st', r) \<leftarrow> (if k = Ext4Dentry then file_read rd now flags n st else simple_read rd now flags n st);
                      s' \<leftarrow> put_file h st' s; Some (s', r) } }
   | _ \<Rightarrow> rdo f flags n s)"

definition write_ofile ::
  "(ofile \<Rightarrow> open_flags \<Rightarrow> u8 list \<Rightarrow> 'd task_fs \<Rightarrow> ('d task_fs \<times> nat os_result) option) \<Rightarrow> disk_read \<Rightarrow> time_spec \<Rightarrow> ofile \<Rightarrow> open_flags \<Rightarrow> u8 list \<Rightarrow>
   'd task_fs \<Rightarrow> ('d task_fs \<times> nat os_result) option" where
  "write_ofile wro rd now f flags bs s = (case f of
     OFile h \<Rightarrow>
       do { (k, st) \<leftarrow> get_file h s;
            if k = DevDentry then wro f flags bs s
            else do { (st', r) \<leftarrow> (if k = Ext4Dentry then ext4_write rd now flags bs st else simple_write rd now flags bs st);
                      s' \<leftarrow> put_file h st' s; Some (s', r) } }
   | _ \<Rightarrow> wro f flags bs s)"

definition sys_write ::
  "(ofile \<Rightarrow> open_flags \<Rightarrow> u8 list \<Rightarrow> 'd task_fs \<Rightarrow> ('d task_fs \<times> nat os_result) option) \<Rightarrow> disk_read \<Rightarrow> time_spec \<Rightarrow> nat \<Rightarrow> usize \<Rightarrow> nat \<Rightarrow>
   'd task_fs \<Rightarrow> ('d task_fs \<times> usize os_result) option" where
  "sys_write wro rd now fd ubuf count s = (case bt_get (fds (tbl s)) fd of
     None \<Rightarrow> Some (s, Inl EBADF)
   | Some i \<Rightarrow>
       if \<not> is_writable (fd_flags i) then Some (s, Inl EBADF)
       else if count = 0 then Some (s, Inr 0)
       else do { (s', r) \<leftarrow> write_ofile wro rd now (fd_file i) (fd_flags i) (read_user ubuf count s) s; Some (s', map_sum id of_nat r) })"

definition sys_read ::
  "(ofile \<Rightarrow> open_flags \<Rightarrow> nat \<Rightarrow> 'd task_fs \<Rightarrow> ('d task_fs \<times> u8 list os_result) option) \<Rightarrow> disk_read \<Rightarrow> time_spec \<Rightarrow> nat \<Rightarrow> usize \<Rightarrow> nat \<Rightarrow>
   'd task_fs \<Rightarrow> ('d task_fs \<times> usize os_result) option" where
  "sys_read rdo rd now fd ubuf count s = (case bt_get (fds (tbl s)) fd of
     None \<Rightarrow> Some (s, Inl EBADF)
   | Some i \<Rightarrow>
       if \<not> is_readable (fd_flags i) then Some (s, Inl EBADF)
       else if count = 0 then Some (s, Inr 0)
       else and_then (read_ofile rdo rd now (fd_file i) (fd_flags i) count s)
              (\<lambda>s bs. Some (put_user ubuf bs s, Inr (of_nat (length bs)))))"

definition SEEK_START :: u8 where "SEEK_START = 0"
definition SEEK_CUR :: u8 where "SEEK_CUR = 1"
definition SEEK_END :: u8 where "SEEK_END = 2"

text \<open>A pipe has no inode to ask for a size.\<close>

definition seek_ofile :: "seek_from \<Rightarrow> ofile \<Rightarrow> 'd task_fs \<Rightarrow> ('d task_fs \<times> usize os_result) option" where
  "seek_ofile sk f s = (case f of
     OFile h \<Rightarrow> do { (_, ck, fi, i) \<leftarrow> get_file h s; (fi', r) \<leftarrow> seek False sk i fi; s' \<leftarrow> put_file h (ck, fi', i) s; Some (s', r) }
   | _ \<Rightarrow> None)"

definition sys_lseek :: "nat \<Rightarrow> isize \<Rightarrow> u8 \<Rightarrow> 'd task_fs \<Rightarrow> ('d task_fs \<times> usize os_result) option" where
  "sys_lseek fd offset whence s = (case bt_get (fds (tbl s)) fd of
     None \<Rightarrow> Some (s, Inl EBADF)
   | Some i \<Rightarrow>
       if \<not> is_readable (fd_flags i) then Some (s, Inl EACCES)
       else if whence = SEEK_START then (if sint offset < 0 then Some (s, Inl EINVAL) else seek_ofile (Start offset) (fd_file i) s)
       else if whence = SEEK_CUR then seek_ofile (Current offset) (fd_file i) s
       else if whence = SEEK_END then seek_ofile (End offset) (fd_file i) s
       else Some (s, Inl EINVAL))"

text \<open>\<open>wr\<close> is the file's own \<^verbatim>\<open>write\<close> and \<open>dr\<close> the answer of the disk; a pipe has no inode, which is an error.\<close>

definition sys_ftruncate ::
  "(u8 list \<Rightarrow> file_st \<Rightarrow> (file_st \<times> nat os_result) option) \<Rightarrow> unit os_result \<Rightarrow> nat \<Rightarrow> usize \<Rightarrow> 'd task_fs \<Rightarrow> ('d task_fs \<times> usize os_result) option" where
  "sys_ftruncate wr dr fd len s = (case bt_get (fds (tbl s)) fd of
     None \<Rightarrow> Some (s, Inl EBADF)
   | Some fi \<Rightarrow> (case fd_file fi of
       OFile h \<Rightarrow>
         do { (k, st) \<leftarrow> get_file h s;
              (st', r) \<leftarrow> (if k = Ext4Dentry then ext4_truncate wr dr True len st else File_Io.truncate wr True len st);
              s' \<leftarrow> put_file h st' s;
              Some (s', map_sum id (\<lambda>_. 0) r) }
     | PipeEnd _ _ \<Rightarrow> Some (s, Inl EINVAL)
     | _ \<Rightarrow> None))"

definition sys_pipe2 :: "usize \<Rightarrow> u32 \<Rightarrow> 'd task_fs \<Rightarrow> ('d task_fs \<times> usize os_result) option" where
  "sys_pipe2 ubuf flags0 s =
     (let flags = flags0 AND open_flags_all; k = next_ring s in
      case make_pipes (2 * k) (2 * k + 1) of
        Inl er \<Rightarrow> Some (s, Inl er)
      | Inr (r, rst, wst) \<Rightarrow>
          let s = s\<lparr>rings := (rings s)(k \<mapsto> r), next_ring := k + 1\<rparr> in
          do { (t, rr) \<leftarrow> insert_get_fd \<lparr>fd_file = PipeEnd k rst, fd_flags = flags OR O_RDONLY\<rparr> (tbl s);
               and_then (Some (s\<lparr>tbl := t\<rparr>, rr)) (\<lambda>s read_fd.
                 do { (t, wr) \<leftarrow> insert_get_fd \<lparr>fd_file = PipeEnd k wst, fd_flags = flags OR O_WRONLY\<rparr> (tbl s);
                      and_then (Some (s\<lparr>tbl := t\<rparr>, wr)) (\<lambda>s write_fd.
                        Some (put_user ubuf (le_bytes 4 read_fd @ le_bytes 4 write_fd) s, Inr 0)) }) })"

end
