(* ===== verification/Sys_Fs_Inv.thy ===== *)
theory Sys_Fs_Inv
  imports Sys_Fs
begin

text \<open>
  What the system calls on files keep. The relation \<open>fs_step\<close> has a step for every call of a process, and one for the process writing
  its own memory; in every state reached from boot the tree is well-formed and every descriptor of a file leads to an open
  file with its entry and inode.
\<close>

section \<open>The store grows\<close>

text \<open>Numbers that were not given out yet are free; an entry never leaves the store, changes its type or gets another inode.\<close>

definition fresh :: "'d vfs \<Rightarrow> bool" where
  "fresh v \<longleftrightarrow> (\<forall>d. next_did v \<le> d \<longrightarrow> dentries v d = None) \<and> (\<forall>i. next_ino v \<le> i \<longrightarrow> inodes v i = None)"

definition extends :: "'d vfs \<Rightarrow> 'd vfs \<Rightarrow> bool" where
  "extends v v' \<longleftrightarrow> fresh v' \<and> files v' = files v \<and> next_file v' = next_file v \<and>
     (\<forall>d e. dentries v d = Some e \<longrightarrow> (\<exists>e'. dentries v' d = Some e' \<and> d_kind e' = d_kind e \<and> d_inode e' = d_inode e)) \<and>
     (\<forall>i. inodes v i \<noteq> None \<longrightarrow> inodes v' i \<noteq> None)"

lemma extends_refl: "fresh v \<Longrightarrow> extends v v"
  by (simp add: extends_def)

lemma extends_fresh: "extends v v' \<Longrightarrow> fresh v'"
  by (simp add: extends_def)

lemma extends_trans: "extends v v' \<Longrightarrow> extends v' v'' \<Longrightarrow> extends v v''"
  unfolding extends_def by (metis (no_types, lifting))

lemma extends_disk [simp]: "extends v (v'\<lparr>disk := dk\<rparr>) \<longleftrightarrow> extends v v'" "extends (v\<lparr>disk := dk\<rparr>) v' \<longleftrightarrow> extends v v'" "fresh (v\<lparr>disk := dk\<rparr>) \<longleftrightarrow> fresh v"
  by (simp_all add: extends_def fresh_def)

lemma extends_cache [simp]: "extends v (v'\<lparr>dcache := C\<rparr>) \<longleftrightarrow> extends v v'" "fresh (v\<lparr>dcache := C\<rparr>) \<longleftrightarrow> fresh v"
  by (simp_all add: extends_def fresh_def)

lemma extends_mounts [simp]: "extends v (v'\<lparr>mounts := M\<rparr>) \<longleftrightarrow> extends v v'"
  by (simp add: extends_def fresh_def)

lemma extends_insert [simp]: "extends v (cache_insert p d v') \<longleftrightarrow> extends v v'" "extends v (cache_remove p v') \<longleftrightarrow> extends v v'"
  by (simp_all add: cache_insert_def cache_remove_def)

lemma extends_set_dentry: "fresh v \<Longrightarrow> dentries v d = Some e \<Longrightarrow> d_kind e' = d_kind e \<Longrightarrow> d_inode e' = d_inode e \<Longrightarrow> extends v (set_dentry d e' v)"
  by (auto simp: extends_def fresh_def set_dentry_def)

lemma extends_set_inode: "fresh v \<Longrightarrow> inodes v i = Some m \<Longrightarrow> extends v (set_inode i m' v)"
  by (auto simp: extends_def fresh_def set_inode_def)

lemma extends_new_inode: "fresh v \<Longrightarrow> new_inode mode sz now v = (v', i) \<Longrightarrow> extends v v'"
  by (auto simp: extends_def fresh_def new_inode_def)

lemma extends_new_dentry: "fresh v \<Longrightarrow> new_dentry k n p i par v = (v', c) \<Longrightarrow> extends v v'"
  by (auto simp: extends_def fresh_def new_dentry_def)

lemma extends_add_child: "fresh v \<Longrightarrow> add_child d n c v = Some v' \<Longrightarrow> extends v v'"
  by (auto simp: add_child_def split: bind_splits intro!: extends_set_dentry)

lemma extends_make:
  assumes f: "fresh v" and n: "new_inode mode sz now v = (v1, i)" "new_dentry k nm p j par v1 = (v2, c)" "add_child d n c v2 = Some v3"
  shows "extends v v3"
proof -
  have 1: "extends v v1" using f n(1) by (rule extends_new_inode)
  have 2: "extends v1 v2" using extends_fresh [OF 1] n(2) by (rule extends_new_dentry)
  have "extends v2 v3" using extends_fresh [OF 2] n(3) by (rule extends_add_child)
  then show ?thesis using 1 2 by (blast intro: extends_trans)
qed

lemma extends_attach: "fresh v \<Longrightarrow> attach d n p mode sz now v = Some (v', r) \<Longrightarrow> extends v v'"
  unfolding attach_def Let_def by (auto split: bind_splits prod.splits dest: extends_make)

lemma extends_look_up: "fresh v \<Longrightarrow> look_up x now d n v = Some (v', r) \<Longrightarrow> extends v v'"
  unfolding look_up_def ext4_look_up_def
  by (auto split: bind_splits option.splits dentry_kind.splits if_splits prod.splits sum.splits dest: extends_attach [rotated] intro: extends_refl)

lemma extends_walk: "fresh v \<Longrightarrow> walk x now d ns v = Some (v', r) \<Longrightarrow> extends v v'"
proof (induction ns arbitrary: d v)
  case Nil
  then show ?case by (simp add: extends_refl)
next
  case (Cons n ns)
  obtain e where e: "dentries v d = Some e" using Cons.prems(2) by (auto split: bind_splits)
  show ?case
  proof (cases "bt_get (d_child e) n")
    case None
    then obtain v1 r1 where l: "look_up x now d n v = Some (v1, r1)" using Cons.prems(2) e by (auto split: bind_splits)
    have 1: "extends v v1" using Cons.prems(1) l by (rule extends_look_up)
    show ?thesis
    proof (cases r1)
      case None
      then show ?thesis using Cons.prems(2) e l \<open>bt_get (d_child e) n = None\<close> 1 by simp
    next
      case (Some c)
      then have "walk x now c ns v1 = Some (v', r)" using Cons.prems(2) e l \<open>bt_get (d_child e) n = None\<close> by simp
      then show ?thesis using Cons.IH [OF extends_fresh [OF 1]] extends_trans [OF 1] by blast
    qed
  next
    case (Some c)
    then obtain ce :: dentry where "walk x now c ns (cache_insert (d_path ce) c v) = Some (v', r)" using Cons.prems(2) e by (auto split: bind_splits)
    moreover have 1: "extends v (cache_insert (d_path ce) c v)" using Cons.prems(1) by (simp add: extends_refl)
    ultimately show ?thesis using Cons.IH [OF extends_fresh [OF 1]] extends_trans [OF 1] by blast
  qed
qed

lemma extends_path: "fresh v \<Longrightarrow> path_to_dentry x now p v = Some (v', r) \<Longrightarrow> extends v v'"
  unfolding path_to_dentry_def by (auto split: option.splits bind_splits dest: extends_walk [rotated] intro: extends_refl)

lemma and_thenE:
  assumes "and_then m f = Some (s', r)"
  obtains (err) er where "m = Some (s', Inl er)" "r = Inl er" | (ok) s1 a where "m = Some (s1, Inr a)" "f s1 a = Some (s', r)"
  using assms by (auto simp: and_then_def split: option.splits sum.splits)

lemma extends_on_disk: "fresh v \<Longrightarrow> on_disk f v = Some (v', r) \<Longrightarrow> extends v v'"
  by (auto simp: on_disk_def extends_refl split: prod.splits)

lemma extends_and_then:
  assumes "and_then m f = Some (v', r)" "\<And>v1 r. m = Some (v1, r) \<Longrightarrow> extends v v1" "\<And>v1 a. m = Some (v1, Inr a) \<Longrightarrow> fresh v1 \<Longrightarrow> f v1 a = Some (v', r) \<Longrightarrow> extends v1 v'"
  shows "extends v v'"
  using assms(1)
proof (cases rule: and_thenE)
  case (err er)
  then show ?thesis using assms(2) by simp
next
  case (ok v1 a)
  have 1: "extends v v1" using ok(1) by (rule assms(2))
  from extends_fresh [OF 1] show ?thesis using ok assms(3) extends_trans [OF 1] by blast
qed

lemma extends_finish_create:
  assumes "fresh v" "finish_create k d n p mode sz now v = Some (v', r)"
  shows "extends v v'"
proof -
  obtain v1 i v2 c v3 e where n: "new_inode mode sz now v = (v1, i)" "new_dentry k (dentry_name p) p i None v1 = (v2, c)" "add_child d n c v2 = Some v3"
    and e: "dentries v3 c = Some e" and v': "v' = cache_insert p c (set_dentry c (e\<lparr>d_parent := Some d\<rparr>) v3)"
    using assms(2) unfolding finish_create_def Let_def by (auto split: bind_splits prod.splits)
  have 1: "extends v v3" using assms(1) n by (rule extends_make)
  have "extends v3 v'" using extends_set_dentry [OF extends_fresh [OF 1] e, of "e\<lparr>d_parent := Some d\<rparr>"] by (simp add: v')
  then show ?thesis using 1 by (blast intro: extends_trans)
qed

lemma extends_create: "fresh v \<Longrightarrow> create x now d n mode v = Some (v', r) \<Longrightarrow> extends v v'"
  unfolding create_def
  by (auto simp: ext4_mkdir_def ext4_mknod_def rassert_def split: bind_splits dentry_kind.splits if_splits
      intro!: extends_refl elim: extends_finish_create [rotated] elim!: extends_and_then extends_on_disk [rotated])

lemma extends_unlink_tree:
  assumes f: "fresh v" and run: "unlink_tree d c v = Some (v', p, i)"
  shows "extends v v'"
proof -
  obtain ce e where ce: "dentries v c = Some ce" "d \<noteq> c" "dentries v d = Some e"
    and v': "v' = set_dentry d (e\<lparr>d_child := bt_remove (d_name ce) (d_child e)\<rparr>) (cache_remove (d_path ce) (set_dentry c (ce\<lparr>d_parent := None\<rparr>) v))"
    using run unfolding unlink_tree_def Let_def by (auto simp: rassert_def cache_remove_def set_dentry_def split: bind_splits if_splits)
  have 1: "extends v (cache_remove (d_path ce) (set_dentry c (ce\<lparr>d_parent := None\<rparr>) v))" (is "extends v ?w")
    using extends_set_dentry [OF f ce(1), of "ce\<lparr>d_parent := None\<rparr>"] by simp
  have "extends ?w v'" unfolding v' using extends_fresh [OF 1] by (rule extends_set_dentry [where e = e]) (use ce(2,3) in \<open>simp_all add: cache_remove_def set_dentry_def\<close>)
  then show ?thesis using 1 by (blast intro: extends_trans)
qed

lemma extends_unlink:
  assumes f: "fresh v" and run: "unlink x d c v = Some (v', r)"
  shows "extends v v'"
proof (cases "\<exists>e. dentries v d = Some e \<and> d_kind e = DevDentry")
  case True
  then show ?thesis using f run by (auto simp: unlink_def extends_refl)
next
  case False
  then obtain v1 p i m where t: "unlink_tree d c v = Some (v1, p, i)" and m: "inodes v1 i = Some m"
    using run unfolding unlink_def ext4_unlink_def simple_unlink_def by (auto split: bind_splits dentry_kind.splits)
  have 1: "extends v v1" using f t by (rule extends_unlink_tree)
  have i: "extends v1 (set_inode i (m\<lparr>i_link_count := n\<rparr>) v1)" for n using extends_fresh [OF 1] m by (rule extends_set_inode)
  have "extends v1 v'"
    using run False t m extends_fresh [OF 1] i extends_fresh [OF i] unfolding unlink_def ext4_unlink_def simple_unlink_def Let_def
    by (auto simp: on_disk_def extends_refl split: bind_splits dentry_kind.splits inode_mode.splits if_splits prod.splits)
  then show ?thesis using 1 by (blast intro: extends_trans)
qed

lemma extends_dlink:
  assumes f: "fresh v" and run: "dlink x d par n v = Some (v', r)"
  shows "extends v v'"
proof -
  obtain e i where e: "dentries v d = Some e" "inodes v (d_inode e) = Some i" using run unfolding dlink_def by (auto split: bind_splits)
  let ?v1 = "set_inode (d_inode e) (i\<lparr>i_link_count := i_link_count i + 1\<rparr>) v"
  have 1: "extends v ?v1" using f e(2) by (rule extends_set_inode)
  obtain path v2 c v3 where n: "new_dentry (d_kind e) n path (d_inode e) (Some par) ?v1 = (v2, c)" "add_child par n c v2 = Some v3"
    and v': "if d_kind e = Ext4Dentry then on_disk (lwext4_link x (d_path e) path) (cache_insert path c v3) = Some (v', r) else v' = cache_insert path c v3"
    using run e unfolding dlink_def Let_def by (auto simp: rassert_def split: bind_splits prod.splits if_splits)
  have 2: "extends ?v1 v2" using extends_fresh [OF 1] n(1) by (rule extends_new_dentry)
  have 3: "extends v2 v3" using extends_fresh [OF 2] n(2) by (rule extends_add_child)
  have "extends v3 v'" using v' extends_fresh [OF 3] by (auto simp: on_disk_def extends_refl split: if_splits prod.splits)
  then show ?thesis using 1 2 3 by (blast intro: extends_trans)
qed

section \<open>Boot opens no file\<close>

lemma extends_for_each:
  assumes "\<And>a v v' r. a \<in> set as \<Longrightarrow> fresh v \<Longrightarrow> f a v = Some (v', r) \<Longrightarrow> extends v v'"
  shows "fresh v \<Longrightarrow> for_each f as v = Some (v', r) \<Longrightarrow> extends v v'"
  using assms
proof (induction as arbitrary: v)
  case Nil
  then show ?case by (simp add: extends_refl)
next
  case (Cons a as)
  show ?case
  proof (rule extends_and_then)
    show "and_then (f a v) (\<lambda>s _. for_each f as s) = Some (v', r)" using Cons.prems(2) by simp
  next
    show "extends v v1" if "f a v = Some (v1, r1)" for v1 r1 using Cons.prems(3) [OF _ Cons.prems(1) that] by simp
  next
    show "extends v1 v'" if "fresh v1" "for_each f as v1 = Some (v', r)" for v1 using that by (rule Cons.IH) (rule Cons.prems(3), simp_all)
  qed
qed

lemma extends_load_entry: "fresh v \<Longrightarrow> load_entry x now d ent v = Some (v', r) \<Longrightarrow> extends v v'"
  unfolding load_entry_def Let_def
  by (auto split: prod.splits if_splits bind_splits inode_mode.splits intro!: extends_refl elim!: extends_and_then extends_on_disk [rotated] extends_attach [rotated])

lemma extends_load_all_child: "fresh v \<Longrightarrow> load_all_child fuel x now d v = Some (v', r) \<Longrightarrow> extends v v'"
proof (induction fuel arbitrary: d v v' r)
  case 0
  then show ?case by simp
next
  case (Suc fuel)
  have load: "extends v v1" if "load_child x now d v = Some (v1, r1)" for v1 r1
    using that Suc.prems(1) by (auto simp: load_child_def split: bind_splits elim!: extends_for_each [rotated 2] intro: extends_load_entry)
  have rest: "extends v1 v'" if "fresh v1" "do { e \<leftarrow> dentries v1 d; for_each (load_all_child fuel x now) (map snd (d_child e)) v1 } = Some (v', r)" for v1
    using that by (auto split: bind_splits elim!: extends_for_each [rotated 2] intro: Suc.IH)
  show ?case using Suc.prems load rest
    by (auto simp: rassert_def split: bind_splits if_splits intro: extends_refl elim!: extends_and_then)
qed

lemma extends_simple_fs: "fresh v \<Longrightarrow> simple_fs_new ty now mp flags v = Some (v', f) \<Longrightarrow> extends v v'"
  unfolding simple_fs_new_def Let_def
  by (auto split: prod.splits bind_splits option.splits if_splits dest: extends_make)
    (meson extends_fresh extends_new_dentry extends_new_inode extends_trans)+

lemma extends_ext4_fs:
  assumes f: "fresh v" and run: "ext4_fs_new fuel x now mp dev_name dev flags v = Some (v', r)"
  shows "extends v v'"
proof -
  obtain dk where dk: "block_wrapper_new x (disk v) = Some dk" using run unfolding ext4_fs_new_def by (auto simp: rassert_def split: bind_splits if_splits)
  show ?thesis
  proof (cases "dir_open x mp dk")
    case (Inl er)
    then show ?thesis using f run dk by (auto simp: ext4_fs_new_def rassert_def Let_def extends_refl split: bind_splits if_splits)
  next
    case (Inr u)
    obtain v1 i where 1: "new_inode Directory 0 now (v\<lparr>disk := dk\<rparr>) = (v1, i)" by fastforce
    obtain v2 par where 2: "(if mp \<noteq> ''/'' then path_to_dentry x now (parent_path mp) v1 else Some (v1, None)) = Some (v2, par)"
      using run dk Inr 1 unfolding ext4_fs_new_def Let_def by (auto simp: rassert_def split: bind_splits if_splits)
    obtain v3 c where 3: "new_dentry Ext4Dentry (dentry_name mp) mp i par v2 = (v3, c)" by fastforce
    obtain v4 where 4: "(case par of None \<Rightarrow> Some v3 | Some p \<Rightarrow> add_child p (dentry_name mp) c v3) = Some v4"
      and 5: "and_then (load_all_child fuel x now c v4) (\<lambda>s _. Some (s, Inr \<lparr>f_dev = dev_name, f_type = EXT4, f_flags = flags, root_dentry = c, root_inode = i\<rparr>)) = Some (v', r)"
      using run dk Inr 1 2 3 unfolding ext4_fs_new_def Let_def by (auto simp: rassert_def split: bind_splits if_splits)
    have e1: "extends v v1" using extends_new_inode [OF _ 1] f by simp
    have e2: "extends v1 v2" using 2 extends_fresh [OF e1] by (auto intro: extends_refl extends_path split: if_splits)
    have e3: "extends v2 v3" using extends_fresh [OF e2] 3 by (rule extends_new_dentry)
    have e4: "extends v3 v4" using 4 extends_fresh [OF e3] by (auto intro: extends_refl extends_add_child split: option.splits)
    have "extends v4 v'" using 5 by (rule extends_and_then) (auto intro: extends_refl extends_load_all_child [OF extends_fresh [OF e4]])
    then show ?thesis using e1 e2 e3 e4 by (blast intro: extends_trans)
  qed
qed

lemma extends_mount:
  assumes "fresh v" "mount_expect fat fuel x now mp dn dev ty v = Some v'" "ty \<noteq> VFAT"
  shows "extends v v'"
  using assms extends_simple_fs [OF assms(1)] extends_ext4_fs [OF assms(1)]
  unfolding mount_expect_def mount_def Let_def tmp_fs_new_def dev_fs_new_def proc_fs_new_def
  by (cases ty) (auto split: bind_splits sum.splits elim!: and_thenE)

lemma extends_devices:
  assumes "fresh v" "foldM (add_device now d) nms v = Some v'"
  shows "extends v v'"
  using assms
proof (induction nms arbitrary: v)
  case Nil
  then show ?case by (simp add: extends_refl)
next
  case (Cons nm nms)
  then obtain v1 where v1: "add_device now d nm v = Some v1" "foldM (add_device now d) nms v1 = Some v'" by (auto split: bind_splits)
  have 1: "extends v v1" using Cons.prems(1) v1(1) unfolding add_device_def Let_def by (auto split: prod.splits bind_splits dest: extends_make)
  then show ?case using Cons.IH [OF extends_fresh [OF 1] v1(2)] by (rule extends_trans)
qed

lemma extends_fs_init:
  assumes "fs_init fat fuel x now (vfs_empty dk) = Some v"
  shows "extends (vfs_empty dk) v"
proof -
  have init: "extends v v'" if "fresh v" "fs_initialise now mp v = Some v'" for v v' :: "'a vfs" and mp
    using that unfolding fs_initialise_def dev_fs_init_def proc_fs_init_def
    by (auto split: option.splits file_system.splits fs_type.splits simp del: foldM.simps intro: extends_devices)
  have 0: "fresh (vfs_empty dk)" by (simp add: fresh_def vfs_empty_def)
  obtain a b c d e where run: "mount_expect fat fuel x now ''/'' ''/dev/vda3'' True EXT4 (vfs_empty dk) = Some a"
     "mount_expect fat fuel x now ''/dev'' ''Not implemented yet'' False DevFs a = Some b" "fs_initialise now ''/dev'' b = Some c"
     "mount_expect fat fuel x now ''/proc'' ''Not implemented yet'' False ProcFs c = Some d" "fs_initialise now ''/proc'' d = Some e"
     "mount_expect fat fuel x now ''/tmp'' ''Not implemented yet'' False TmpFs e = Some v"
    using assms unfolding fs_init_def by (auto split: bind_splits)
  have 1: "extends (vfs_empty dk) a" using extends_mount [OF 0 run(1)] by simp
  have 2: "extends a b" using extends_mount [OF extends_fresh [OF 1] run(2)] by simp
  have 3: "extends b c" using extends_fresh [OF 2] run(3) by (rule init)
  have 4: "extends c d" using extends_mount [OF extends_fresh [OF 3] run(4)] by simp
  have 5: "extends d e" using extends_fresh [OF 4] run(5) by (rule init)
  have "extends e v" using extends_mount [OF extends_fresh [OF 5] run(6)] by simp
  then show ?thesis using 1 2 3 4 5 by (blast intro: extends_trans)
qed

section \<open>The invariant\<close>

definition open_ok :: "'d vfs \<Rightarrow> ofile fd_table \<Rightarrow> bool" where
  "open_ok v t \<longleftrightarrow> (\<forall>h. next_file v \<le> h \<longrightarrow> files v h = None) \<and>
     (\<forall>fd i h. bt_get (fds t) fd = Some i \<longrightarrow> fd_file i = OFile h \<longrightarrow>
        (\<exists>f e. files v h = Some f \<and> dentries v (vf_dentry f) = Some e \<and> vf_inode f = d_inode e \<and> inodes v (vf_inode f) \<noteq> None))"

definition fs_ok :: "'d task_fs \<Rightarrow> bool" where
  "fs_ok s \<longleftrightarrow> fd_wf (tbl s) \<and> vfs_wf (vf s) \<and> open_ok (vf s) (tbl s)"

lemma vfs_wf_fresh: "vfs_wf v \<Longrightarrow> fresh v"
  by (simp add: vfs_wf_def fresh_def)

lemma open_ok_extends: "open_ok v t \<Longrightarrow> extends v v' \<Longrightarrow> open_ok v' t"
  unfolding open_ok_def extends_def by (metis (no_types, lifting))

definition live :: "'d vfs \<Rightarrow> ofile \<Rightarrow> bool" where
  "live v f \<longleftrightarrow> (\<forall>h. f = OFile h \<longrightarrow> (\<exists>f e. files v h = Some f \<and> dentries v (vf_dentry f) = Some e \<and> vf_inode f = d_inode e \<and> inodes v (vf_inode f) \<noteq> None))"

lemma open_ok_live: "open_ok v t \<Longrightarrow> bt_get (fds t) fd = Some i \<Longrightarrow> live v (fd_file i)"
  unfolding open_ok_def live_def by blast

lemma open_ok_insert: "open_ok v t \<Longrightarrow> fd_wf t \<Longrightarrow> fds t' = bt_insert fd i (fds t) \<Longrightarrow> live v (fd_file i) \<Longrightarrow> open_ok v t'"
  unfolding open_ok_def live_def fd_wf_def by (simp split: if_splits)

lemma insert_get_fd_ok:
  assumes ok: "fd_wf t" "open_ok v t" "live v (fd_file i)" and run: "insert_get_fd i t = Some (t', r)"
  shows "fd_wf t' \<and> open_ok v t'"
proof (cases "free_fds t = {}")
  case True
  then have "fd_wf t' \<and> fds t' = fds t" using insert_get_fd_spec [OF ok(1), of i] run by auto
  then show ?thesis using ok(2) by (simp add: open_ok_def)
next
  case False
  then have "fd_wf t' \<and> fds t' = bt_insert (Min (free_fds t)) i (fds t)" using insert_get_fd_spec [OF ok(1), of i] run by auto
  then show ?thesis using open_ok_insert [OF ok(2,1) _ ok(3)] by blast
qed

lemma fs_ok_vf: "fs_ok s \<Longrightarrow> vfs_wf v \<Longrightarrow> extends (vf s) v \<Longrightarrow> fs_ok (s\<lparr>vf := v\<rparr>)"
  by (auto simp: fs_ok_def intro: open_ok_extends)

lemma fs_ok_user [simp]:
  "fs_ok (s\<lparr>um := m\<rparr>) \<longleftrightarrow> fs_ok s" "fs_ok (s\<lparr>cwd := p\<rparr>) \<longleftrightarrow> fs_ok s" "fs_ok (s\<lparr>caches := c\<rparr>) \<longleftrightarrow> fs_ok s" "fs_ok (s\<lparr>pm := k\<rparr>) \<longleftrightarrow> fs_ok s"
  "fs_ok (s\<lparr>rings := ri\<rparr>) \<longleftrightarrow> fs_ok s" "fs_ok (s\<lparr>next_ring := n\<rparr>) \<longleftrightarrow> fs_ok s"
  by (simp_all add: fs_ok_def)

lemma fs_ok_put_user [simp]: "fs_ok (put_user a bs s) \<longleftrightarrow> fs_ok s"
  by (simp add: put_user_def)

text \<open>What the calls ask of a path: no name in it ends with white space, so that the entry made for a name has this name.\<close>

definition plain_path :: "string \<Rightarrow> bool" where
  "plain_path p \<longleftrightarrow> (\<forall>n \<in> set (names_of p). plain_name n)"

definition plain_call :: "'d task_fs \<Rightarrow> int \<Rightarrow> usize \<Rightarrow> bool" where
  "plain_call s dirfd ptr \<longleftrightarrow> (\<forall>p. user_path dirfd ptr s = Some (s, Inr p) \<longrightarrow> plain_path p)"

lemma plain_parent: "plain_path p \<Longrightarrow> plain_path (parent_path p)"
  by (auto simp: plain_path_def parent_names dest: in_set_butlastD)

lemma user_path_same: "user_path dirfd ptr s = Some (s', r) \<Longrightarrow> s' = s"
  by (auto simp: user_path_def split: bind_splits)

text \<open>The lookup of a path \<open>p\<close> takes \<open>s\<close> to \<open>s'\<close> with the result \<open>res\<close>: the tree grows along the path only.\<close>

definition at_path :: "'d task_fs \<Rightarrow> string list \<Rightarrow> did option" where
  "at_path s ns = (case root_dentry_of (vf s) of None \<Rightarrow> None | Some r \<Rightarrow> tree_at (dentries (vf s)) r ns)"

definition found :: "string \<Rightarrow> 'd task_fs \<Rightarrow> 'd task_fs \<Rightarrow> did option \<Rightarrow> bool" where
  "found p s s' res \<longleftrightarrow> fs_ok s' \<and> (\<exists>v. s' = s\<lparr>vf := v\<rparr>) \<and> (res = None \<longrightarrow> at_path s' (names_of p) = None) \<and>
     (\<forall>d. res = Some d \<longrightarrow> (\<exists>ns e. at_path s' ns = Some d \<and> dentries (vf s') d = Some e \<and> (d_kind e = DevDentry \<or> ns = names_of p))) \<and>
     (\<forall>ns z. at_path s ns = Some z \<longrightarrow> at_path s' ns = Some z) \<and>
     (\<forall>ns. at_path s' ns \<noteq> None \<longrightarrow> at_path s ns \<noteq> None \<or> (\<exists>b. names_of p = ns @ b))"

lemma fs_ok_root: "fs_ok s \<Longrightarrow> \<exists>r. root_dentry_of (vf s) = Some r \<and> tree_wf (dentries (vf s)) (dcache (vf s)) r \<and> vfs_wf (vf s)"
  unfolding fs_ok_def vfs_wf_def by blast

lemma find_path_found:
  assumes ok: "fs_ok s" and p: "plain_path p" and run: "find_path x now p s = Some (s', r)"
  shows "\<exists>res. r = Inr res \<and> found p s s' res"
proof -
  obtain rt where rt: "root_dentry_of (vf s) = Some rt" "vfs_wf (vf s)" using fs_ok_root [OF ok] by blast
  obtain v res where v: "path_to_dentry x now p (vf s) = Some (v, res)" "s' = s\<lparr>vf := v\<rparr>" "r = Inr res"
    using run unfolding find_path_def in_vfs_def by (auto split: bind_splits)
  have a: "grows (vf s) v" "res = None \<longrightarrow> tree_at (dentries v) rt (names_of p) = None"
    "\<forall>d. res = Some d \<longrightarrow> (\<exists>ns e. tree_at (dentries v) rt ns = Some d \<and> dentries v d = Some e \<and> (d_kind e = DevDentry \<or> ns = names_of p))"
    "\<forall>q z. tree_at (dentries v) rt q = Some z \<longrightarrow> tree_at (dentries (vf s)) rt q \<noteq> None \<or> (\<exists>b. names_of p = q @ b)"
    using path_to_dentry_any [OF rt(2,1), of p x now] p v(1) by (auto simp: plain_path_def)
  have g: "vfs_wf v" "root_dentry_of v = Some rt" "\<And>ns z. tree_at (dentries (vf s)) rt ns = Some z \<Longrightarrow> tree_at (dentries v) rt ns = Some z"
    using a(1) rt(1) unfolding grows_def by auto
  have "extends (vf s) v" using vfs_wf_fresh [OF rt(2)] v(1) by (rule extends_path)
  then have "fs_ok s'" unfolding v(2) using fs_ok_vf [OF ok g(1)] by blast
  moreover have "at_path s' ns = tree_at (dentries v) rt ns" "at_path s ns = tree_at (dentries (vf s)) rt ns" for ns
    using rt(1) g(2) by (simp_all add: at_path_def v(2))
  ultimately show ?thesis using a(2-4) g(3) v(2,3) by (auto simp: found_def)
qed

lemma find_entry_found:
  assumes "fs_ok s" "plain_path p" "find_entry x now p s = Some (s', r)"
  shows "\<exists>res. found p s s' res \<and> r = (case res of None \<Rightarrow> Inl ENOENT | Some d \<Rightarrow> Inr d)"
  using assms(3) unfolding find_entry_def
proof (cases rule: and_thenE)
  case (err er)
  then show ?thesis using find_path_found [OF assms(1,2) err(1)] by simp
next
  case (ok s1 a)
  then show ?thesis using find_path_found [OF assms(1,2) ok(1)] by auto
qed

lemma foundD:
  assumes "found p s s' res"
  shows "fs_ok s'" "res = None \<Longrightarrow> at_path s' (names_of p) = None"
    "res = Some d \<Longrightarrow> \<exists>ns e. at_path s' ns = Some d \<and> dentries (vf s') d = Some e \<and> (d_kind e = DevDentry \<or> ns = names_of p)"
    "at_path s' ns \<noteq> None \<Longrightarrow> at_path s ns \<noteq> None \<or> (\<exists>b. names_of p = ns @ b)" "\<exists>v. s' = s\<lparr>vf := v\<rparr>"
  using assms unfolding found_def by blast+

lemma touch_ok: "fs_ok s \<Longrightarrow> touch f d s = Some s' \<Longrightarrow> fs_ok s' \<and> (\<exists>i m. s' = s\<lparr>vf := set_inode i m (vf s)\<rparr>)"
  unfolding touch_def
  by (auto split: bind_splits intro!: fs_ok_vf vfs_wf_inode extends_set_inode vfs_wf_fresh) (auto simp: fs_ok_def)

lemma dentries_set_inode [simp]: "dentries (set_inode i m v) = dentries v"
  by (simp add: set_inode_def)

lemma at_path_touch [simp]: "at_path (s\<lparr>vf := set_inode i m (vf s)\<rparr>) = at_path s"
  by (rule ext) (simp add: at_path_def root_dentry_of_def set_inode_def split: option.splits file_system.splits)

section \<open>Every call keeps the invariant\<close>

lemma and_then_ok:
  assumes "and_then m f = Some (s', r)" "\<And>s1 r. m = Some (s1, r) \<Longrightarrow> P s1" "\<And>s1 a. m = Some (s1, Inr a) \<Longrightarrow> P s1 \<Longrightarrow> f s1 a = Some (s', r) \<Longrightarrow> P s'"
  shows "P s'"
  using assms by (cases rule: and_thenE) blast+

lemma in_vfs_ok:
  assumes "fs_ok s" "in_vfs f s = Some (s', r)" "\<And>v r. f (vf s) = Some (v, r) \<Longrightarrow> vfs_wf v \<and> extends (vf s) v"
  shows "fs_ok s'"
  using assms(2,3) fs_ok_vf [OF assms(1)] unfolding in_vfs_def by (auto split: bind_splits)

lemma user_path_ok:
  assumes "and_then (user_path dirfd ptr s) f = Some (s', r)" "fs_ok s" "plain_call s dirfd ptr" "\<And>p. plain_path p \<Longrightarrow> f s p = Some (s', r) \<Longrightarrow> fs_ok s'"
  shows "fs_ok s'"
  using assms(1)
proof (cases rule: and_thenE)
  case (err er)
  then show ?thesis using user_path_same [OF err(1)] assms(2) by simp
next
  case (ok s1 p)
  then show ?thesis using user_path_same [OF ok(1)] assms(3,4) by (auto simp: plain_call_def)
qed

lemma find_path_ok:
  assumes "and_then (find_path x now p s) f = Some (s', r)" "fs_ok s" "plain_path p" "\<And>s1 res. found p s s1 res \<Longrightarrow> fs_ok s1 \<Longrightarrow> f s1 res = Some (s', r) \<Longrightarrow> fs_ok s'"
  shows "fs_ok s'"
  using assms(1)
proof (cases rule: and_thenE)
  case (err er)
  then show ?thesis using find_path_found [OF assms(2,3) err(1)] by simp
next
  case (ok s1 res)
  then show ?thesis using find_path_found [OF assms(2,3) ok(1)] foundD(1) assms(4) by blast
qed

lemma find_entry_ok:
  assumes "and_then (find_entry x now p s) f = Some (s', r)" "fs_ok s" "plain_path p" "\<And>s1 d. found p s s1 (Some d) \<Longrightarrow> fs_ok s1 \<Longrightarrow> f s1 d = Some (s', r) \<Longrightarrow> fs_ok s'"
  shows "fs_ok s'"
  using assms(1)
proof (cases rule: and_thenE)
  case (err er)
  then show ?thesis using find_entry_found [OF assms(2,3) err(1)] foundD(1) by blast
next
  case (ok s1 d)
  then obtain res where f: "found p s s1 res" "Inr d = (case res of None \<Rightarrow> Inl ENOENT | Some d \<Rightarrow> Inr d)" using find_entry_found [OF assms(2,3) ok(1)] by blast
  then have "res = Some d" by (cases res) auto
  then show ?thesis using assms(4) [of s1 d] f(1) foundD(1) [OF f(1)] ok(2) by blast
qed

text \<open>Where a file is made: the path has no entry, the parent is an entry that has no child of this name.\<close>

lemma parent_lacks:
  assumes f1: "found p s s1 None" and f2: "found (parent_path p) s1 s2 (Some d)" and p: "plain_path p"
  shows "\<exists>ns e. at_path s2 ns = Some d \<and> dentries (vf s2) d = Some e \<and> bt_get (d_child e) (dentry_name p) = None \<and> plain_name (dentry_name p)"
proof -
  obtain rt where rt: "root_dentry_of (vf s2) = Some rt" "tree_wf (dentries (vf s2)) (dcache (vf s2)) rt" using fs_ok_root [OF foundD(1) [OF f2]] by blast
  have ne: "names_of p \<noteq> []"
  proof
    assume "names_of p = []"
    then have "at_path s1 [] = None" using foundD(2) [OF f1] by simp
    moreover obtain rt1 where "root_dentry_of (vf s1) = Some rt1" "tree_wf (dentries (vf s1)) (dcache (vf s1)) rt1" using fs_ok_root [OF foundD(1) [OF f1]] by blast
    ultimately show False by (auto simp: at_path_def tree_wf_def)
  qed
  have pl: "plain_name (dentry_name p)" using p ne by (simp add: plain_path_def last_name)
  obtain ns e where e: "at_path s2 ns = Some d" "dentries (vf s2) d = Some e" "d_kind e = DevDentry \<or> ns = butlast (names_of p)"
    using foundD(3) [OF f2, of d] by (auto simp: parent_names)
  have "bt_get (d_child e) (dentry_name p) = None"
  proof (cases "d_kind e = DevDentry")
    case True
    then have "d_child e = []" using rt(2) e(2) by (auto simp: tree_wf_def links_ok_def)
    then show ?thesis by (simp add: bt_get_def)
  next
    case False
    have "butlast (names_of p) \<noteq> names_of p @ b" for b using ne by (metis append_butlast_last_id append_self_conv append_assoc not_Cons_self2 append_is_Nil_conv)
    then have "at_path s2 (names_of p) = None"
      using foundD(4) [OF f2, of "names_of p"] foundD(2) [OF f1] by (cases "at_path s2 (names_of p)") (auto simp: parent_names)
    moreover have "names_of p = ns @ [dentry_name p]" using False e(3) ne by (simp add: last_name)
    ultimately have "tree_at (dentries (vf s2)) rt (ns @ [dentry_name p]) = None" "tree_at (dentries (vf s2)) rt ns = Some d" using e(1) rt(1) by (simp_all add: at_path_def)
    moreover have "dentries (vf s2) c \<noteq> None" if "bt_get (d_child e) (dentry_name p) = Some c" for c
      using rt(2) e(2) that unfolding tree_wf_def links_ok_def by blast
    ultimately show ?thesis using e(2) by (cases "bt_get (d_child e) (dentry_name p)") (auto simp: tree_at_append)
  qed
  then show ?thesis using e pl by blast
qed

lemma create_ok:
  assumes "fs_ok s" "at_path s ns = Some d" "dentries (vf s) d = Some e" "bt_get (d_child e) n = None" "plain_name n" "mode = Directory \<or> mode = Regular"
    and run: "in_vfs (create x now d n mode) s = Some (s', r)"
  shows "fs_ok s'"
proof -
  obtain rt where rt: "root_dentry_of (vf s) = Some rt" "vfs_wf (vf s)" using fs_ok_root [OF assms(1)] by blast
  show ?thesis using assms(1) run
  proof (rule in_vfs_ok)
    fix v r assume c: "create x now d n mode (vf s) = Some (v, r)"
    have "vfs_wf v" using create_wf [OF rt(2,1) assms(3,4) _ assms(5,6) c, of ns] assms(2) rt(1) by (simp add: at_path_def)
    then show "vfs_wf v \<and> extends (vf s) v" using extends_create [OF vfs_wf_fresh [OF rt(2)] c] by blast
  qed
qed

lemma open_dentry_ok:
  assumes ok: "fs_ok s" and run: "open_dentry d flags s = Some (s', r)"
  shows "fs_ok s'"
proof -
  have wf: "vfs_wf (vf s)" "open_ok (vf s) (tbl s)" "fd_wf (tbl s)" using ok by (simp_all add: fs_ok_def)
  have d: "vfs_wf v \<and> open_ok v (tbl s) \<and> (\<forall>h. r = Inr h \<longrightarrow> live v (OFile h))"
    if o: "dopen d flags (vf s) = Some (v, r)" for v r
  proof -
    obtain e i where e: "dentries (vf s) d = Some e" "inodes (vf s) (d_inode e) = Some i" using o unfolding dopen_def by (auto split: bind_splits)
    let ?w = "set_inode (d_inode e) (i\<lparr>i_open_count := i_open_count i + 1\<rparr>) (vf s)"
    have w: "open_ok ?w (tbl s)" using wf(2) extends_set_inode [OF vfs_wf_fresh [OF wf(1)] e(2)] by (rule open_ok_extends)
    have "v = ?w \<and> (\<exists>er. r = Inl er) \<or> (\<exists>f. r = Inr (next_file ?w) \<and> v = ?w\<lparr>files := (files ?w)(next_file ?w \<mapsto> \<lparr>vf_dentry = d, vf_inode = d_inode e, vf_inner = f\<rparr>), next_file := next_file ?w + 1\<rparr>)"
      using o e unfolding dopen_def Let_def by (auto split: bind_splits if_splits sum.splits)
    then show ?thesis
    proof
      assume "v = ?w \<and> (\<exists>er. r = Inl er)"
      then show ?thesis using w dopen_wf [OF wf(1) o] by auto
    next
      assume "\<exists>f. r = Inr (next_file ?w) \<and> v = ?w\<lparr>files := (files ?w)(next_file ?w \<mapsto> \<lparr>vf_dentry = d, vf_inode = d_inode e, vf_inner = f\<rparr>), next_file := next_file ?w + 1\<rparr>"
      then obtain f where v: "r = Inr (next_file ?w)" "v = ?w\<lparr>files := (files ?w)(next_file ?w \<mapsto> \<lparr>vf_dentry = d, vf_inode = d_inode e, vf_inner = f\<rparr>), next_file := next_file ?w + 1\<rparr>" by blast
      have "files ?w (next_file ?w) = None" using w by (simp add: open_ok_def)
      then have "open_ok v (tbl s)" using w unfolding open_ok_def v(2) by (auto; metis option.distinct(1))
      then show ?thesis using dopen_wf [OF wf(1) o] v e by (simp add: set_inode_def live_def)
    qed
  qed
  show ?thesis using run unfolding open_dentry_def
  proof (cases rule: and_thenE)
    case (err er)
    then show ?thesis using d wf(3) by (auto simp: in_vfs_def fs_ok_def split: bind_splits)
  next
    case (ok s1 h)
    then obtain v where v: "dopen d flags (vf s) = Some (v, Inr h)" "s1 = s\<lparr>vf := v\<rparr>" by (auto simp: in_vfs_def split: bind_splits)
    obtain t r' where t: "insert_get_fd \<lparr>fd_file = OFile h, fd_flags = flags\<rparr> (tbl s) = Some (t, r')" "s' = s1\<lparr>tbl := t\<rparr>" using ok(2) v(2) by (auto split: bind_splits)
    have "fd_wf t \<and> open_ok v t" using d [OF v(1)] insert_get_fd_ok [OF wf(3) _ _ t(1), of v] by simp
    then show ?thesis using d [OF v(1)] v(2) t(2) by (simp add: fs_ok_def)
  qed
qed

lemma sys_openat_ok:
  assumes ok: "fs_ok s" and pl: "plain_call s dirfd ptr" and run: "sys_openat x now dirfd ptr flags s = Some (s', r)"
  shows "fs_ok s'"
proof -
  have make: "fs_ok s'" if f: "found p s s1 None" "plain_path p" "found (parent_path p) s1 s2 (Some fa)" "fs_ok s2" and c:
    "and_then (in_vfs (create x now fa (dentry_name p) Regular) s2) (\<lambda>s d. open_dentry d fl s) = Some (s', r)" for p s1 s2 fa fl
    using c
  proof (rule and_then_ok)
    obtain ns e where e: "at_path s2 ns = Some fa" "dentries (vf s2) fa = Some e" "bt_get (d_child e) (dentry_name p) = None" "plain_name (dentry_name p)"
      using parent_lacks [OF f(1,3,2)] by blast
    show "fs_ok s3" if "in_vfs (create x now fa (dentry_name p) Regular) s2 = Some (s3, r1)" for s3 r1
      using create_ok [OF \<open>fs_ok s2\<close> e _ that] by simp
  qed (rule open_dentry_ok)
  show ?thesis using run ok pl unfolding sys_openat_def Let_def
    by (elim user_path_ok) (auto elim!: find_path_ok split: option.splits bind_splits if_splits intro!: plain_parent, (rule make open_dentry_ok; assumption)+)
qed

lemma sys_mkdirat_ok:
  assumes ok: "fs_ok s" and pl: "plain_call s dirfd ptr" and run: "sys_mkdirat x now dirfd ptr s = Some (s', r)"
  shows "fs_ok s'"
proof -
  have make: "fs_ok s'" if f: "found p s s1 None" "plain_path p" "found (parent_path p) s1 s2 (Some fa)" "fs_ok s2" "touch g fa s2 = Some s3" and c:
    "and_then (in_vfs (create x now fa (dentry_name p) Directory) s3) (\<lambda>s _. Some (s, Inr 0)) = Some (s', r)" for p s1 s2 s3 fa g
    using c
  proof (rule and_then_ok)
    obtain ns e where e: "at_path s2 ns = Some fa" "dentries (vf s2) fa = Some e" "bt_get (d_child e) (dentry_name p) = None" "plain_name (dentry_name p)"
      using parent_lacks [OF f(1,3,2)] by blast
    obtain i m where t: "fs_ok s3" "s3 = s2\<lparr>vf := set_inode i m (vf s2)\<rparr>" using touch_ok [OF f(4,5)] by blast
    have e3: "at_path s3 ns = Some fa" "dentries (vf s3) fa = Some e" using e(1,2) unfolding t(2) by simp_all
    show "fs_ok s4" if "in_vfs (create x now fa (dentry_name p) Directory) s3 = Some (s4, r1)" for s4 r1
      using create_ok [OF t(1) e3 e(3,4) _ that] by simp
  qed simp
  show ?thesis using run ok pl unfolding sys_mkdirat_def
    by (elim user_path_ok) (auto elim!: find_path_ok split: option.splits bind_splits if_splits intro!: plain_parent, (rule make; assumption))
qed

text \<open>A file that has children, which only a directory that was found on the disk after boot is, cannot be removed and keep the tree.\<close>

definition childless :: "'d ext4_lib \<Rightarrow> time_spec \<Rightarrow> string \<Rightarrow> 'd task_fs \<Rightarrow> bool" where
  "childless x now p s \<longleftrightarrow> (\<forall>s' d e. find_entry x now p s = Some (s', Inr d) \<longrightarrow> dentries (vf s') d = Some e \<longrightarrow> mode_of d s' \<noteq> Some Directory \<longrightarrow> d_child e = [])"

lemma unlink_ok:
  assumes ok: "fs_ok s" and d: "at_path s ns = Some d" "dentries (vf s) d = Some e" "d_child e = []" and run: "unlink_from_parent x d s = Some (s', r)"
  shows "fs_ok s'"
proof (cases "d_parent e")
  case None
  then show ?thesis using run ok d(2) by (simp add: unlink_from_parent_def)
next
  case (Some p)
  obtain rt where rt: "root_dentry_of (vf s) = Some rt" "vfs_wf (vf s)" using fs_ok_root [OF ok] by blast
  have "and_then (in_vfs (unlink x p d) s) (\<lambda>s _. Some (s, Inr 0)) = Some (s', r)"
    using run d(2) Some by (auto simp: unlink_from_parent_def upgrade_def split: bind_splits if_splits)
  then show ?thesis
  proof (rule and_then_ok)
    fix s1 r1 assume "in_vfs (unlink x p d) s = Some (s1, r1)"
    with ok show "fs_ok s1"
    proof (rule in_vfs_ok)
      fix v r assume u: "unlink x p d (vf s) = Some (v, r)"
      have "vfs_wf v" using unlink_wf [OF rt(2,1) _ d(2,3) Some u, of ns] d(1) rt(1) by (simp add: at_path_def)
      then show "vfs_wf v \<and> extends (vf s) v" using extends_unlink [OF vfs_wf_fresh [OF rt(2)] u] by blast
    qed
  qed simp
qed

lemma sys_unlinkat_ok:
  assumes ok: "fs_ok s" and pl: "plain_call s dirfd ptr" "\<forall>p. user_path dirfd ptr s = Some (s, Inr p) \<longrightarrow> childless x now p s"
    and run: "sys_unlinkat x now dirfd ptr flags s = Some (s', r)"
  shows "fs_ok s'"
  using run [unfolded sys_unlinkat_def]
proof (cases rule: and_thenE)
  case (err er)
  then show ?thesis using user_path_same [OF err(1)] ok by simp
next
  case (ok s0 p)
  have p: "s0 = s" "plain_path p" "childless x now p s" using user_path_same [OF ok(1)] ok(1) pl by (auto simp: plain_call_def)
  show ?thesis
  proof (cases "p = cwd s")
    case True
    then show ?thesis using ok(2) p(1) \<open>fs_ok s\<close> by simp
  next
    case False
    then have "and_then (find_entry x now p s) (\<lambda>s d.
         do { e \<leftarrow> dentries (vf s) d;
              mode \<leftarrow> mode_of d s;
              if mode = Directory then
                if flags AND AT_REMOVEDIR = AT_REMOVEDIR then
                  if d_child e = [] then unlink_from_parent x d s else Some (s, Inl ENOTEMPTY)
                else Some (s, Inl EISDIR)
              else do { s \<leftarrow> touch (\<lambda>i. i\<lparr>i_atime := now, i_ctime := now, i_mtime := now\<rparr>) d s; unlink_from_parent x d s } }) = Some (s', r)"
      using ok(2) p(1) by simp
    then show ?thesis
    proof (cases rule: and_thenE)
      case (err er)
      then show ?thesis using find_entry_found [OF \<open>fs_ok s\<close> p(2) err(1)] foundD(1) by blast
    next
      case (ok s1 d)
      obtain res where f: "found p s s1 res" "Inr d = (case res of None \<Rightarrow> Inl ENOENT | Some d \<Rightarrow> Inr d)" using find_entry_found [OF \<open>fs_ok s\<close> p(2) ok(1)] by blast
      then have "res = Some d" by (cases res) auto
      then obtain ns e where e: "at_path s1 ns = Some d" "dentries (vf s1) d = Some e" using foundD(3) [OF f(1), of d] by blast
      have c: "mode_of d s1 \<noteq> Some Directory \<Longrightarrow> d_child e = []" using p(3) ok(1) e(2) unfolding childless_def by blast
      have t: "fs_ok s2 \<and> at_path s2 ns = Some d \<and> dentries (vf s2) d = Some e" if "touch g d s1 = Some s2" for g s2
        using touch_ok [OF foundD(1) [OF f(1)] that] e by auto
      show ?thesis using ok(2) e(2) c t unlink_ok [OF foundD(1) [OF f(1)] e] foundD(1) [OF f(1)]
        by (auto split: bind_splits if_splits) (blast intro: unlink_ok)
    qed
  qed
qed

text \<open>
  Links: \<^verbatim>\<open>linkat\<close> and \<^verbatim>\<open>symlinkat\<close> look for the new name in the cache only. What they need is that the directory they find has no entry of
  this name; a device as the directory of a link is told by its mode, which the invariant does not speak of.
\<close>

definition link_room :: "'d ext4_lib \<Rightarrow> time_spec \<Rightarrow> string \<Rightarrow> 'd task_fs \<Rightarrow> bool" where
  "link_room x now p s \<longleftrightarrow> (\<forall>s' d e. find_entry x now (parent_path p) s = Some (s', Inr d) \<longrightarrow> dentries (vf s') d = Some e \<longrightarrow>
     names_of p \<noteq> [] \<and> d_kind e \<noteq> DevDentry \<and> bt_get (d_child e) (dentry_name p) = None)"

lemma find_entry_resultD:
  assumes ok: "fs_ok s" "plain_path p" and run: "find_entry x now p s = Some (s', Inr d)"
  obtains ns e where "fs_ok s'" "at_path s' ns = Some d" "dentries (vf s') d = Some e"
proof -
  obtain res where f: "found p s s' res" "Inr d = (case res of None \<Rightarrow> Inl ENOENT | Some d \<Rightarrow> Inr d)" using find_entry_found [OF ok run] by blast
  then have "res = Some d" by (cases res) auto
  then show ?thesis using foundD(3) [OF f(1), of d] foundD(1) [OF f(1)] that by blast
qed

lemma link_room_name: "plain_path p \<Longrightarrow> names_of p \<noteq> [] \<Longrightarrow> plain_name (dentry_name p)"
  by (simp add: plain_path_def last_name)

lemma dlink_ok:
  assumes ok: "fs_ok s" and p: "plain_path p" "link_room x now p s" and f: "find_entry x now (parent_path p) s = Some (s1, Inr d)"
    and run: "and_then (in_vfs (dlink x c d (dentry_name p)) s1) (\<lambda>s _. Some (s, Inr 0)) = Some (s', r)"
  shows "fs_ok s'"
  using run
proof (rule and_then_ok)
  obtain ns e where e: "fs_ok s1" "at_path s1 ns = Some d" "dentries (vf s1) d = Some e" using find_entry_resultD [OF ok plain_parent [OF p(1)] f] by blast
  have n: "names_of p \<noteq> []" "d_kind e \<noteq> DevDentry" "bt_get (d_child e) (dentry_name p) = None" using p(2) f e(3) unfolding link_room_def by blast+
  obtain rt where rt: "root_dentry_of (vf s1) = Some rt" "vfs_wf (vf s1)" using fs_ok_root [OF e(1)] by blast
  fix s2 r2 assume "in_vfs (dlink x c d (dentry_name p)) s1 = Some (s2, r2)"
  with e(1) show "fs_ok s2"
  proof (rule in_vfs_ok)
    fix v r assume l: "dlink x c d (dentry_name p) (vf s1) = Some (v, r)"
    have "vfs_wf v" using dlink_wf(1) [OF rt(2,1) e(3) n(3) _ n(2) link_room_name [OF p(1) n(1)] l, of ns] e(2) rt(1) by (simp add: at_path_def)
    then show "vfs_wf v \<and> extends (vf s1) v" using extends_dlink [OF vfs_wf_fresh [OF rt(2)] l] by blast
  qed
qed simp

lemma sys_linkat_ok:
  assumes ok: "fs_ok s" and pl: "plain_call s od op" "plain_call s nd np"
    and room: "\<forall>p q s1 d. user_path od op s = Some (s, Inr q) \<longrightarrow> user_path nd np s = Some (s, Inr p) \<longrightarrow> find_entry x now q s = Some (s1, Inr d) \<longrightarrow> link_room x now p s1"
    and run: "sys_linkat x now od op nd np s = Some (s', r)"
  shows "fs_ok s'"
  using run [unfolded sys_linkat_def]
proof (cases rule: and_thenE)
  case (err er)
  then show ?thesis using user_path_same [OF err(1)] ok by simp
next
  case (ok s0 q)
  have q: "s0 = s" "plain_path q" "user_path od op s = Some (s, Inr q)" using user_path_same [OF ok(1)] ok(1) pl(1) by (auto simp: plain_call_def)
  from ok(2) [unfolded q(1)] show ?thesis
  proof (cases rule: and_thenE)
    case (err er)
    then show ?thesis using user_path_same [OF err(1)] \<open>fs_ok s\<close> by simp
  next
    case (ok s0 p)
    have p: "s0 = s" "plain_path p" "user_path nd np s = Some (s, Inr p)" using user_path_same [OF ok(1)] ok(1) pl(2) by (auto simp: plain_call_def)
    have link: "fs_ok s'" if "find_entry x now q s = Some (s1, Inr d)" "fs_ok s1" "find_entry x now (parent_path p) s1 = Some (s2, Inr fa)"
      "and_then (in_vfs (dlink x d fa (dentry_name p)) s2) (\<lambda>s _. Some (s, Inr 0)) = Some (s', r)" for s1 d s2 fa
      using dlink_ok [OF that(2) p(2) _ that(3,4)] room q(3) p(3) that(1) by blast
    show ?thesis
    proof (cases "dcache (vf s) p = None")
      case False
      then show ?thesis using ok(2) p(1) \<open>fs_ok s\<close> by simp
    next
      case True
      have e1: "fs_ok s1" if "find_entry x now q s = Some (s1, r1)" for s1 r1 using find_entry_found [OF \<open>fs_ok s\<close> q(2) that] foundD(1) by blast
      have e2: "fs_ok s2" if "fs_ok s1" "find_entry x now (parent_path p) s1 = Some (s2, r2)" for s1 s2 r2
        using find_entry_found [OF that(1) plain_parent [OF p(2)] that(2)] foundD(1) by blast
      show ?thesis using ok(2) True unfolding p(1)
        by (auto split: bind_splits if_splits elim!: and_thenE [of "find_entry _ _ _ _"]) (blast intro: e1 e2 link)+
    qed
  qed
qed

lemma symbol_link_ok:
  assumes ok: "fs_ok s" and p: "plain_path p" "link_room x now p s" and f: "find_entry x now (parent_path p) s = Some (s1, Inr d)"
    and run: "and_then (in_vfs (symbol_link x now d (dentry_name p) t) s1) (\<lambda>s _. Some (s, Inr 0)) = Some (s', r)"
  shows "fs_ok s'"
  using run
proof (rule and_then_ok)
  obtain ns e where e: "fs_ok s1" "at_path s1 ns = Some d" "dentries (vf s1) d = Some e" using find_entry_resultD [OF ok plain_parent [OF p(1)] f] by blast
  have n: "names_of p \<noteq> []" "d_kind e \<noteq> DevDentry" "bt_get (d_child e) (dentry_name p) = None" using p(2) f e(3) unfolding link_room_def by blast+
  obtain rt where rt: "root_dentry_of (vf s1) = Some rt" "vfs_wf (vf s1)" using fs_ok_root [OF e(1)] by blast
  have tr: "tree_at (dentries (vf s1)) rt ns = Some d" using e(2) rt(1) by (simp add: at_path_def)
  note pn = link_room_name [OF p(1) n(1)]
  fix s2 r2 assume "in_vfs (symbol_link x now d (dentry_name p) t) s1 = Some (s2, r2)"
  with e(1) show "fs_ok s2"
  proof (rule in_vfs_ok)
    fix v r assume l: "symbol_link x now d (dentry_name p) t (vf s1) = Some (v, r)"
    obtain path where path: "cwd_and_name (dentry_name p) (d_path e) = Some path" using l e(3) by (auto simp: symbol_link_def split: bind_splits)
    have "path = push_path (d_path e) (dentry_name p)" using path cwd_and_name_plain [OF pn, of "d_path e"] by simp
    then obtain v1 c where a: "attach d (dentry_name p) path Link (of_nat (length t)) now (vf s1) = Some (v1, c)" "grows (vf s1) v1"
      using attach_spec [OF rt(2,1) e(3) n(3) tr n(2) pn, of Link "of_nat (length t)" now] by blast
    have v: "\<exists>dk. v = v1\<lparr>disk := dk\<rparr>" using l e(3) path a(1) by (auto simp: symbol_link_def on_disk_def split: bind_splits prod.splits)
    have "vfs_wf v" using v a(2) by (auto simp: grows_def vfs_wf_files)
    moreover have "extends (vf s1) v" using v extends_attach [OF vfs_wf_fresh [OF rt(2)] a(1)] by auto
    ultimately show "vfs_wf v \<and> extends (vf s1) v" by blast
  qed
qed simp

lemma sys_symlinkat_ok:
  assumes ok: "fs_ok s" and pl: "plain_call s nd np" and room: "\<forall>p. user_path nd np s = Some (s, Inr p) \<longrightarrow> link_room x now p s"
    and run: "sys_symlinkat x now t nd np s = Some (s', r)"
  shows "fs_ok s'"
  using run [unfolded sys_symlinkat_def]
proof (cases rule: and_thenE)
  case (err er)
  then show ?thesis using user_path_same [OF err(1)] ok by simp
next
  case (ok s0 p)
  have p: "s0 = s" "plain_path p" "link_room x now p s" using user_path_same [OF ok(1)] ok(1) pl room by (auto simp: plain_call_def)
  have e: "fs_ok s1" if "find_entry x now (parent_path p) s = Some (s1, r1)" for s1 r1
    using find_entry_found [OF \<open>fs_ok s\<close> plain_parent [OF p(2)] that] foundD(1) by blast
  show ?thesis using ok(2) \<open>fs_ok s\<close> unfolding p(1)
    by (auto split: bind_splits if_splits elim!: and_thenE [of "find_entry _ _ _ _"]) (blast intro: e symbol_link_ok [OF \<open>fs_ok s\<close> p(2,3)])+
qed

text \<open>The path that \<^verbatim>\<open>chdir\<close> looks for.\<close>

definition chdir_path :: "string \<Rightarrow> string \<Rightarrow> string" where
  "chdir_path wd p = (let p = format_path p in if is_relative_path p then cwd_and_path p wd else p)"

lemma sys_chdir_ok:
  assumes ok: "fs_ok s" and pl: "\<forall>p. c_ptr_to_string (um s) ptr = Some p \<longrightarrow> plain_path (chdir_path (cwd s) p)" and run: "sys_chdir x now ptr s = Some (s', r)"
  shows "fs_ok s'"
proof -
  obtain p where p: "c_ptr_to_string (um s) ptr = Some p" and c: "and_then (find_entry x now (chdir_path (cwd s) p) s) (\<lambda>s1 d.
            do { mode \<leftarrow> mode_of d s1;
                 if mode \<noteq> Directory then Some (s1, Inl ENOTDIR)
                 else do { s1 \<leftarrow> touch (\<lambda>i. i\<lparr>i_atime := now\<rparr>) d s1; Some (s1\<lparr>cwd := chdir_path (cwd s) p\<rparr>, Inr 0) } }) = Some (s', r)"
    using run unfolding sys_chdir_def chdir_path_def Let_def by (auto split: bind_splits)
  show ?thesis using c pl p ok by (auto elim!: find_entry_ok split: bind_splits if_splits) (use touch_ok in blast)
qed

lemma sys_readlinkat_ok:
  assumes "fs_ok s" "plain_call s dirfd ptr" "sys_readlinkat x now dirfd ptr ubuf n s = Some (s', r)"
  shows "fs_ok s'"
  using assms unfolding sys_readlinkat_def
  by (auto elim!: user_path_ok find_entry_ok split: bind_splits if_splits sum.splits)

text \<open>The calls on a descriptor.\<close>

lemma put_file_ok:
  assumes ok: "fs_ok s" and f: "files (vf s) h = Some f" "inodes (vf s) (vf_inode f) \<noteq> None" and run: "put_file h st s = Some s'"
  shows "fs_ok s'"
proof -
  obtain c k fi i where st: "st = ((c, k), fi, i)" by (metis prod.exhaust)
  let ?v = "(vf s)\<lparr>files := (files (vf s))(h \<mapsto> f\<lparr>vf_inner := fi\<rparr>)\<rparr>"
  have s': "s' = s\<lparr>caches := (caches s)(h := c), pm := k, vf := set_inode (vf_inode f) i ?v\<rparr>" using run f(1) unfolding st by (simp add: put_file_def)
  have wf: "vfs_wf ?v" using ok by (simp add: fs_ok_def vfs_wf_files)
  have op: "open_ok ?v (tbl s)" using ok f(1) unfolding fs_ok_def open_ok_def by (fastforce dest: spec split: if_splits)
  have "vfs_wf (set_inode (vf_inode f) i ?v)" using vfs_wf_inode [OF wf] f(2) by simp
  moreover have "open_ok (set_inode (vf_inode f) i ?v) (tbl s)"
    using op extends_set_inode [OF vfs_wf_fresh [OF wf]] f(2) by (auto intro: open_ok_extends)
  ultimately show ?thesis using ok by (simp add: s' fs_ok_def)
qed

lemma get_file_live: "get_file h s = Some (k, c, fi, i) \<Longrightarrow> \<exists>f. files (vf s) h = Some f \<and> inodes (vf s) (vf_inode f) \<noteq> None"
  unfolding get_file_def by (auto split: bind_splits)

lemma file_io_ok: "fs_ok s \<Longrightarrow> get_file h s = Some (k, st) \<Longrightarrow> put_file h st' s = Some s' \<Longrightarrow> fs_ok s'"
  using get_file_live put_file_ok by (metis prod.exhaust)

lemma seek_ofile_ok: "fs_ok s \<Longrightarrow> seek_ofile sk f s = Some (s', r) \<Longrightarrow> fs_ok s'"
  unfolding seek_ofile_def by (auto split: ofile.splits bind_splits) (blast intro: file_io_ok)

lemma sys_lseek_ok: "fs_ok s \<Longrightarrow> sys_lseek fd off wh s = Some (s', r) \<Longrightarrow> fs_ok s'"
  unfolding sys_lseek_def by (auto split: option.splits if_splits intro: seek_ofile_ok)

text \<open>Reading and writing files; other objects are left to the argument, here one that never returns.\<close>

lemma sys_read_ok: "fs_ok s \<Longrightarrow> sys_read (\<lambda>_ _ _ _. None) rd now fd ubuf n s = Some (s', r) \<Longrightarrow> fs_ok s'"
  unfolding sys_read_def read_ofile_def
  by (auto split: option.splits if_splits ofile.splits bind_splits elim!: and_thenE) (blast intro: file_io_ok)+

lemma sys_write_ok: "fs_ok s \<Longrightarrow> sys_write (\<lambda>_ _ _ _. None) rd now fd ubuf n s = Some (s', r) \<Longrightarrow> fs_ok s'"
  unfolding sys_write_def write_ofile_def
  by (auto split: option.splits if_splits ofile.splits bind_splits) (blast intro: file_io_ok)+

lemma sys_ftruncate_ok: "fs_ok s \<Longrightarrow> sys_ftruncate wr dr fd len s = Some (s', r) \<Longrightarrow> fs_ok s'"
  unfolding sys_ftruncate_def
  by (auto split: option.splits if_splits ofile.splits bind_splits) (blast intro: file_io_ok)+

lemma sys_getdents64_ok:
  assumes ok: "fs_ok s" and run: "sys_getdents64 now fd dirp n s = Some (s', r)"
  shows "fs_ok s'"
proof -
  have files: "fs_ok (s1\<lparr>vf := (vf s1)\<lparr>files := (files (vf s1))(h \<mapsto> f\<lparr>vf_inner := fi\<rparr>)\<rparr>\<rparr>)" if "fs_ok s1" "files (vf s1) h = Some f" for s1 :: "'a task_fs" and h f fi
    using that unfolding fs_ok_def open_ok_def by (simp add: vfs_wf_files) (fastforce split: if_splits)
  have t: "fs_ok s1 \<and> files (vf s1) = files (vf s)" if "touch g d s = Some s1" for g d s1
    using touch_ok [OF ok that] by (auto simp: set_inode_def)
  show ?thesis using run ok unfolding sys_getdents64_def Let_def
    by (auto split: option.splits ofile.splits bind_splits if_splits prod.splits intro!: files) (use t in auto)
qed

lemma sys_fstat_ok: "fs_ok s \<Longrightarrow> sys_fstat now fd ubuf s = Some (s', r) \<Longrightarrow> fs_ok s'"
  unfolding sys_fstat_def Let_def by (auto split: option.splits ofile.splits bind_splits)

lemma sys_getcwd_ok: "fs_ok s \<Longrightarrow> sys_getcwd ubuf n s = Some (s', r) \<Longrightarrow> fs_ok s'"
  unfolding sys_getcwd_def by (auto simp: rassert_def split: if_splits bind_splits)

lemma sys_uname_ok: "fs_ok s \<Longrightarrow> sys_uname ubuf s = Some (s', r) \<Longrightarrow> fs_ok s'"
  by (auto simp: sys_uname_def)

lemma close_ofile_ok:
  assumes ok: "fs_ok s" and run: "close_ofile x f s = Some (s', r)"
  shows "fs_ok s' \<and> tbl s' = tbl s"
proof (cases f)
  case (OFile h)
  obtain vfl e i where f: "files (vf s) h = Some vfl" "dentries (vf s) (vf_dentry vfl) = Some e" "inodes (vf s) (vf_inode vfl) = Some i"
    using run OFile unfolding close_ofile_def by (auto split: bind_splits)
  have wf: "vfs_wf (vf s)" using ok by (simp add: fs_ok_def)
  have i: "fs_ok (s\<lparr>vf := (set_inode (vf_inode vfl) i' (vf s))\<lparr>disk := dk\<rparr>\<rparr>)" "fs_ok (s\<lparr>vf := set_inode (vf_inode vfl) i' (vf s)\<rparr>)" for i' dk
    using fs_ok_vf [OF ok] vfs_wf_inode [OF wf, of "vf_inode vfl" i'] extends_set_inode [OF vfs_wf_fresh [OF wf] f(3), of i'] f(3) by (simp_all add: vfs_wf_files)
  show ?thesis using run f i unfolding close_ofile_def OFile Let_def by (auto split: bind_splits prod.splits if_splits)
qed (use ok run in \<open>auto simp: close_ofile_def\<close>)

lemma drop_file_ok:
  assumes ok: "fs_ok s" and run: "drop_file g s = Some s'"
  shows "fs_ok s'"
proof (cases "\<exists>h. g = OFile h \<and> g \<notin> (fd_file \<circ> snd) ` set (fds (tbl s))")
  case True
  then obtain h where h: "g = OFile h" "g \<notin> (fd_file \<circ> snd) ` set (fds (tbl s))" by blast
  have no: "h' \<noteq> h" if "bt_get (fds (tbl s)) k = Some j" "fd_file j = OFile h'" for k j h'
    using that h map_of_SomeD [of "fds (tbl s)" k j] by (force simp: bt_get_def)
  have "open_ok ((vf s)\<lparr>files := (files (vf s))(h := None)\<rparr>) (tbl s)" using ok no unfolding fs_ok_def open_ok_def by simp
  then show ?thesis using ok run h by (auto simp: drop_file_def fs_ok_def vfs_wf_files split: bind_splits)
next
  case False
  then show ?thesis using ok run by (auto simp: drop_file_def split: ofile.splits)
qed

lemma sys_close_ok:
  assumes ok: "fs_ok s" and run: "sys_close_fd x fd s = Some (s', r)"
  shows "fs_ok s'"
proof (cases "bt_get (fds (tbl s)) fd")
  case None
  then show ?thesis using ok run by (simp add: sys_close_fd_def)
next
  case (Some i)
  from run have "and_then (close_ofile x (fd_file i) s) (\<lambda>s _. do { t \<leftarrow> close_fd fd (tbl s); s' \<leftarrow> drop_file (fd_file i) (s\<lparr>tbl := t\<rparr>); Some (s', Inr 0) }) = Some (s', r)"
    using Some by (simp add: sys_close_fd_def)
  then show ?thesis
  proof (rule and_then_ok)
    show "fs_ok s1" if "close_ofile x (fd_file i) s = Some (s1, r1)" for s1 r1 using close_ofile_ok [OF ok that] by blast
  next
    fix s1 u assume c: "close_ofile x (fd_file i) s = Some (s1, Inr u)" "fs_ok s1" "do { t \<leftarrow> close_fd fd (tbl s1); s2 \<leftarrow> drop_file (fd_file i) (s1\<lparr>tbl := t\<rparr>); Some (s2, Inr 0) } = Some (s', r)"
    have wf: "fd_wf (tbl s1)" "bt_get (fds (tbl s1)) fd \<noteq> None" using c(2) close_ofile_ok [OF ok c(1)] Some by (simp_all add: fs_ok_def)
    obtain t where t: "close_fd fd (tbl s1) = Some t" "fd_wf t" "fds t = bt_remove fd (fds (tbl s1))" using close_fd_spec [OF wf] by blast
    have "open_ok (vf s1) t" using c(2) t(3) by (simp add: fs_ok_def open_ok_def)
    then have s2: "fs_ok (s1\<lparr>tbl := t\<rparr>)" using c(2) t(2) by (simp add: fs_ok_def)
    have "drop_file (fd_file i) (s1\<lparr>tbl := t\<rparr>) = Some s'" using c(3) t(1) by (auto split: bind_splits)
    then show "fs_ok s'" by (rule drop_file_ok [OF s2])
  qed
qed

lemma sys_dup_ok:
  assumes ok: "fs_ok s" and run: "sys_dup fd (tbl s) = Some (t, r)"
  shows "fs_ok (s\<lparr>tbl := t\<rparr>)"
proof (cases "bt_get (fds (tbl s)) fd")
  case None
  then show ?thesis using ok run by (simp add: sys_dup_def fs_ok_def)
next
  case (Some i)
  have "live (vf s) (fd_file i)" using ok by (auto simp: fs_ok_def intro: open_ok_live [OF _ Some])
  then have "fd_wf t \<and> open_ok (vf s) t"
    using insert_get_fd_ok [of "tbl s" "vf s" "\<lparr>fd_file = fd_file i, fd_flags = flags_remove O_CLOEXEC (fd_flags i)\<rparr>" t r] ok run Some by (simp add: sys_dup_def fs_ok_def)
  then show ?thesis using ok by (simp add: fs_ok_def)
qed

lemma sys_pipe2_ok:
  assumes ok: "fs_ok s" and run: "sys_pipe2 ubuf flags s = Some (s', r)"
  shows "fs_ok s'"
proof (cases "make_pipes (2 * next_ring s) (2 * next_ring s + 1)")
  case (Inl er)
  then show ?thesis using ok run by (simp add: sys_pipe2_def Let_def)
next
  case (Inr p)
  obtain ri a b where p: "p = (ri, a, b)" by (metis prod.exhaust)
  let ?s = "s\<lparr>rings := (rings s)(next_ring s \<mapsto> ri), next_ring := next_ring s + 1\<rparr>"
  have fd: "fd_wf t \<and> open_ok (vf s) t" if "insert_get_fd \<lparr>fd_file = PipeEnd k e, fd_flags = fl\<rparr> t0 = Some (t, r0)" "fd_wf t0" "open_ok (vf s) t0" for k e fl t0 t r0
    using insert_get_fd_ok [OF that(2,3) _ that(1)] by (simp add: live_def)
  have s: "fd_wf (tbl s)" "vfs_wf (vf s)" "open_ok (vf s) (tbl s)" using ok by (simp_all add: fs_ok_def)
  show ?thesis using run Inr unfolding sys_pipe2_def Let_def p
    by (auto split: bind_splits elim!: and_thenE) (auto simp: fs_ok_def put_user_def s dest!: fd [OF _ s(1,3)] fd)
qed

section \<open>Runs\<close>

text \<open>
  The steps of a process: its system calls, and writing its own memory. Renaming a directory leaves the paths of what is below it as they
  were, and mounting and unmounting leave cached paths behind, so that these calls are not among the steps. The time is the
  clock's at the step.
\<close>

inductive fs_step :: "'d ext4_lib \<Rightarrow> 'd task_fs \<Rightarrow> 'd task_fs \<Rightarrow> bool" for x where
  user: "fs_step x s (s\<lparr>um := m\<rparr>)"
| openat: "plain_call s dirfd ptr \<Longrightarrow> sys_openat x now dirfd ptr flags s = Some (s', r) \<Longrightarrow> fs_step x s s'"
| mkdirat: "plain_call s dirfd ptr \<Longrightarrow> sys_mkdirat x now dirfd ptr s = Some (s', r) \<Longrightarrow> fs_step x s s'"
| unlinkat: "plain_call s dirfd ptr \<Longrightarrow> \<forall>p. user_path dirfd ptr s = Some (s, Inr p) \<longrightarrow> childless x now p s \<Longrightarrow>
    sys_unlinkat x now dirfd ptr flags s = Some (s', r) \<Longrightarrow> fs_step x s s'"
| linkat: "plain_call s od op \<Longrightarrow> plain_call s nd np \<Longrightarrow>
    \<forall>p q s1 d. user_path od op s = Some (s, Inr q) \<longrightarrow> user_path nd np s = Some (s, Inr p) \<longrightarrow> find_entry x now q s = Some (s1, Inr d) \<longrightarrow> link_room x now p s1 \<Longrightarrow>
    sys_linkat x now od op nd np s = Some (s', r) \<Longrightarrow> fs_step x s s'"
| symlinkat: "plain_call s nd np \<Longrightarrow> \<forall>p. user_path nd np s = Some (s, Inr p) \<longrightarrow> link_room x now p s \<Longrightarrow>
    sys_symlinkat x now t nd np s = Some (s', r) \<Longrightarrow> fs_step x s s'"
| readlinkat: "plain_call s dirfd ptr \<Longrightarrow> sys_readlinkat x now dirfd ptr ubuf n s = Some (s', r) \<Longrightarrow> fs_step x s s'"
| chdir: "\<forall>p. c_ptr_to_string (um s) ptr = Some p \<longrightarrow> plain_path (chdir_path (cwd s) p) \<Longrightarrow> sys_chdir x now ptr s = Some (s', r) \<Longrightarrow> fs_step x s s'"
| getcwd: "sys_getcwd ubuf len s = Some (s', r) \<Longrightarrow> fs_step x s s'"
| close: "sys_close_fd x fd s = Some (s', r) \<Longrightarrow> fs_step x s s'"
| dup: "sys_dup fd (tbl s) = Some (t, r') \<Longrightarrow> fs_step x s (s\<lparr>tbl := t\<rparr>)"
| pipe2: "sys_pipe2 ubuf flags s = Some (s', r) \<Longrightarrow> fs_step x s s'"
| getdents: "sys_getdents64 now fd dirp count s = Some (s', r) \<Longrightarrow> fs_step x s s'"
| fstat: "sys_fstat now fd ubuf s = Some (s', r) \<Longrightarrow> fs_step x s s'"
| uname: "sys_uname ubuf s = Some (s', r) \<Longrightarrow> fs_step x s s'"
| lseek: "sys_lseek fd off whence s = Some (s', r) \<Longrightarrow> fs_step x s s'"
| pread: "sys_read (\<lambda>_ _ _ _. None) rd now fd ubuf count s = Some (s', r) \<Longrightarrow> fs_step x s s'"
| pwrite: "sys_write (\<lambda>_ _ _ _. None) rd now fd ubuf count s = Some (s', r) \<Longrightarrow> fs_step x s s'"
| ftruncate: "sys_ftruncate wr dr fd sz s = Some (s', r) \<Longrightarrow> fs_step x s s'"

lemmas call_ok = sys_openat_ok sys_mkdirat_ok sys_unlinkat_ok sys_linkat_ok sys_symlinkat_ok sys_readlinkat_ok sys_chdir_ok sys_getcwd_ok sys_close_ok sys_dup_ok
  sys_pipe2_ok sys_getdents64_ok sys_fstat_ok sys_uname_ok sys_lseek_ok sys_read_ok sys_write_ok sys_ftruncate_ok

lemma fs_step_ok: "fs_step x s s' \<Longrightarrow> fs_ok s \<Longrightarrow> fs_ok s'"
  by (induction rule: fs_step.induct) (simp, (rule call_ok; assumption)+)

lemma fs_steps_ok: "(fs_step x)\<^sup>*\<^sup>* s s' \<Longrightarrow> fs_ok s \<Longrightarrow> fs_ok s'"
  by (induction rule: rtranclp_induct) (auto intro: fs_step_ok)

lemma boot_ok_calls:
  assumes x: "listing_ok x" "bare x ''/dev''" "bare x ''/proc''" "bare x ''/tmp''" and boot: "fs_init fat fuel x now (vfs_empty dk) = Some (vf s)"
    and t: "init_fdtable Stdin Stdout Stderr = Some (tbl s)"
  shows "fs_ok s"
proof -
  have "vfs_wf (vf s)" using boot_spec [OF x boot] by blast
  moreover have "fd_wf (tbl s) \<and> (\<forall>fd i h. bt_get (fds (tbl s)) fd = Some i \<longrightarrow> fd_file i \<noteq> OFile h)"
    using init_fdtable_spec [of Stdin Stdout Stderr] t by (auto simp: bt_get_def split: if_splits)
  moreover have "files (vf s) = Map.empty" using extends_fs_init [OF boot] by (simp add: extends_def vfs_empty_def)
  ultimately show ?thesis by (auto simp: fs_ok_def open_ok_def)
qed


text \<open>A process that changes to the directory \<^verbatim>\<open>/tmp\<close> after boot.\<close>

definition demo_task :: "pmem \<Rightarrow> string \<Rightarrow> (string \<times> nat) list task_fs option" where
  "demo_task k p = do { v \<leftarrow> demo_boot; t \<leftarrow> init_fdtable Stdin Stdout Stderr;
     Some \<lparr>vf = v, tbl = t, cwd = ''/'', um = write_user 64 (string_bytes p) (\<lambda>_. 0), rings = Map.empty, next_ring = 0, caches = (\<lambda>_. []), pm = k\<rparr> }"

lemma demo_task_spec:
  assumes "demo_task k p = Some s"
  shows "fs_init (\<lambda>_ _ _ _. None) 3 demo_ext4 demo_time (vfs_empty demo_disk) = Some (vf s)" "init_fdtable Stdin Stdout Stderr = Some (tbl s)"
    "um s = write_user 64 (string_bytes p) (\<lambda>_. 0)" "cwd s = ''/''"
  using assms by (auto simp: demo_task_def demo_boot_def split: bind_splits)

declare c_ptr_to_string.simps [code]

lemma demo_path: "c_ptr_to_string (write_user 64 (string_bytes ''/tmp'') (\<lambda>_. 0)) 64 = Some ''/tmp''"
  by code_simp

lemma demo_chdir: "(case demo_task k ''/tmp'' of None \<Rightarrow> False | Some s \<Rightarrow> sys_chdir demo_ext4 demo_time 64 s \<noteq> None)"
  by code_simp


end
