(* ===== verification/Sys_Fs_Calls.thy ===== *)
theory Sys_Fs_Calls
  imports Sys_Fs_Inv
begin

text \<open>
  What single operations on files and directories do: a lookup refines the tree of names, making and removing a file undo each other,
  a directory listing comes in pieces, and the places where the code does not do what its callers expect of it.
\<close>

section \<open>Lookup\<close>

text \<open>
  C10: A lookup of a path gives what the names of the path lead to in the tree; then it changes nothing but the cache. It makes new
  entries only for what the disk has: a name that neither the tree nor the disk has is not found. Paths that a
  device has by mistake (\<^verbatim>\<open>/devzero\<close>) are excluded.
\<close>

theorem lookup_refines_tree:
  assumes wf: "vfs_wf s" "root_dentry_of s = Some r" and ns: "\<forall>n \<in> set ns. plain_name n" "\<not> dev_path s (abs_path ns)"
  shows "\<exists>s' res. path_to_dentry x now (abs_path ns) s = Some (s', res) \<and> vfs_wf s' \<and>
    (\<forall>z. tree_at (dentries s) r ns = Some z \<longrightarrow> res = Some z \<and> (\<exists>C. s' = s\<lparr>dcache := C\<rparr>)) \<and>
    (\<forall>z. res = Some z \<longrightarrow> tree_at (dentries s') r ns = Some z) \<and>
    (\<forall>q z. tree_at (dentries s) r q = Some z \<longrightarrow> tree_at (dentries s') r q = Some z) \<and>
    (\<forall>ms n d e. ns = ms @ [n] \<longrightarrow> tree_at (dentries s) r ms = Some d \<longrightarrow> dentries s d = Some e \<longrightarrow> absent x e n (disk s) \<longrightarrow>
       res = None \<and> (\<exists>C. s' = s\<lparr>dcache := C\<rparr>))"
proof -
  obtain s' res where p: "path_to_dentry x now (abs_path ns) s = Some (s', res)" "grows s s'" "\<forall>z. res = Some z \<longrightarrow> tree_at (dentries s') r ns = Some z"
    "\<forall>z. tree_at (dentries s) r ns = Some z \<longrightarrow> res = Some z \<and> (\<exists>C. s' = s\<lparr>dcache := C\<rparr>)"
    using path_to_dentry_spec [OF wf ns, of x now] by blast
  have "res = None \<and> (\<exists>C. s' = s\<lparr>dcache := C\<rparr>)" if "ns = ms @ [n]" "tree_at (dentries s) r ms = Some d" "dentries s d = Some e" "absent x e n (disk s)" for ms n d e
    using path_absent [OF wf _ _ that(2-4), of now] ns p(1) that(1) by auto
  then show ?thesis using p wf(2) unfolding grows_def by blast
qed

text \<open>A small state: the root volume and \<^verbatim>\<open>/tmp\<close> are mounted.\<close>

definition demo_small :: "(string \<times> nat) list vfs option" where
  "demo_small = do { s \<leftarrow> mount_expect (\<lambda>_ _ _ _. None) 3 demo_ext4 demo_time ''/'' ''/dev/vda3'' True EXT4 (vfs_empty demo_disk);
     mount_expect (\<lambda>_ _ _ _. None) 3 demo_ext4 demo_time ''/tmp'' ''Not implemented yet'' False TmpFs s }"

lemma demo_small_returns: "demo_small \<noteq> None"
  by code_simp

lemma plain_tmp: "plain_name ''tmp''" "plain_name ''a''" "plain_name ''init''"
  by (simp_all add: plain_name_def name_ok_def format_path_def trim_end_def)

lemma demo_small_spec:
  assumes "demo_small = Some s"
  shows "\<exists>r. vfs_wf s \<and> root_dentry_of s = Some r \<and> tree_at (dentries s) r [''tmp''] \<noteq> None" "extends (vfs_empty demo_disk) s"
proof -
  obtain s0 where s0: "mount_expect (\<lambda>_ _ _ _. None) 3 demo_ext4 demo_time ''/'' ''/dev/vda3'' True EXT4 (vfs_empty demo_disk) = Some s0"
    "mount_expect (\<lambda>_ _ _ _. None) 3 demo_ext4 demo_time ''/tmp'' ''Not implemented yet'' False TmpFs s0 = Some s" using assms by (auto simp: demo_small_def split: bind_splits)
  obtain r where r: "boot_ok s0 r {''tmp''}" using boot_root [OF demo_listing(1) s0(1), of "{''tmp''}"] demo_listing(4) by auto
  then show "\<exists>r. vfs_wf s \<and> root_dentry_of s = Some r \<and> tree_at (dentries s) r [''tmp''] \<noteq> None"
    using mount_boot [OF r _ plain_tmp(1), of TmpFs "\<lambda>_ _ _ _. None" 3 demo_ext4 demo_time "''Not implemented yet''" MS_NOSUID] s0(2)
    by (auto simp: mount_expect_def boot_ok_def)
  have 0: "fresh (vfs_empty demo_disk)" by (simp add: fresh_def vfs_empty_def)
  have 1: "extends (vfs_empty demo_disk) s0" using extends_mount [OF 0 s0(1)] by simp
  then show "extends (vfs_empty demo_disk) s" using extends_mount [OF extends_fresh [OF 1] s0(2)] extends_trans by blast
qed

lemma demo_state:
  obtains s r where "demo_small = Some s" "vfs_wf s" "root_dentry_of s = Some r" "tree_at (dentries s) r [''tmp''] \<noteq> None"
proof -
  obtain s where "demo_small = Some s" using demo_small_returns by auto
  then show ?thesis using that demo_small_spec(1) by blast
qed

definition demo_proc :: "pmem \<Rightarrow> (string \<times> nat) list task_fs option" where
  "demo_proc k = do { v \<leftarrow> demo_small; t \<leftarrow> init_fdtable Stdin Stdout Stderr;
     Some \<lparr>vf = v, tbl = t, cwd = ''/'', um = (\<lambda>_. 0), rings = Map.empty, next_ring = 0, caches = (\<lambda>_. []), pm = k\<rparr> }"

lemma demo_proc_ok:
  assumes "demo_proc k = Some s"
  shows "fs_ok s"
proof -
  have v: "demo_small = Some (vf s)" "init_fdtable Stdin Stdout Stderr = Some (tbl s)" using assms by (auto simp: demo_proc_def split: bind_splits)
  have "fd_wf (tbl s) \<and> (\<forall>fd i h. bt_get (fds (tbl s)) fd = Some i \<longrightarrow> fd_file i \<noteq> OFile h)"
    using init_fdtable_spec [of Stdin Stdout Stderr] v(2) by (auto simp: bt_get_def split: if_splits)
  then show ?thesis using demo_small_spec [OF v(1)] by (auto simp: fs_ok_def open_ok_def extends_def vfs_empty_def)
qed

lemma demo_dev: "(case demo_small of None \<Rightarrow> False | Some s \<Rightarrow>
    \<forall>d \<in> set [0..<next_did s]. (case dentries s d of None \<Rightarrow> True | Some e \<Rightarrow> d_kind e = DevDentry \<longrightarrow> d_path e \<notin> {''/tmp'', ''/tmp/a'', ''/init''}))"
  by code_simp

lemma demo_not_dev:
  assumes "demo_small = Some s" "vfs_wf s" "p \<in> {''/tmp'', ''/tmp/a'', ''/init''}"
  shows "\<not> dev_path s p"
proof
  assume "dev_path s p"
  then obtain d e where d: "dentries s d = Some e" "d_kind e = DevDentry" "d_path e = p" by (auto simp: dev_path_def)
  have "d < next_did s" using assms(2) d(1) by (metis not_le_imp_less option.distinct(1) vfs_wf_def)
  then have m: "d \<in> set [0..<next_did s]" by simp
  have "\<forall>d \<in> set [0..<next_did s]. (case dentries s d of None \<Rightarrow> True | Some e \<Rightarrow> d_kind e = DevDentry \<longrightarrow> d_path e \<notin> {''/tmp'', ''/tmp/a'', ''/init''})"
    using demo_dev by (simp only: assms(1) option.case)
  from bspec [OF this m] show False using d assms(3) by simp
qed

theorem lookup_refines_tree_witness:
  "\<exists>s r z. demo_small = Some s \<and> root_dentry_of s = Some r \<and> tree_at (dentries s) r [''tmp''] = Some z \<and>
     (\<exists>C. path_to_dentry demo_ext4 demo_time ''/tmp'' s = Some (s\<lparr>dcache := C\<rparr>, Some z))"
proof -
  obtain s r where s: "demo_small = Some s" "vfs_wf s" "root_dentry_of s = Some r" "tree_at (dentries s) r [''tmp''] \<noteq> None" by (rule demo_state)
  have p: "abs_path [''tmp''] = ''/tmp''" by (simp add: abs_path_def)
  have "\<forall>n \<in> set [''tmp'']. plain_name n" "\<not> dev_path s (abs_path [''tmp''])" using plain_tmp demo_not_dev [OF s(1,2)] p by simp_all
  from lookup_refines_tree [OF s(2,3) this, of demo_ext4 demo_time] show ?thesis using s p by fastforce
qed

section \<open>Making and removing\<close>

text \<open>No operation here makes a device.\<close>

definition no_new_devs :: "'d vfs \<Rightarrow> 'd vfs \<Rightarrow> bool" where
  "no_new_devs s s' \<longleftrightarrow> (\<forall>z f. dentries s' z = Some f \<longrightarrow> d_kind f = DevDentry \<longrightarrow> (\<exists>f'. dentries s z = Some f' \<and> d_kind f' = DevDentry \<and> d_path f' = d_path f))"

lemma no_new_devs_path: "no_new_devs s s' \<Longrightarrow> dev_path s' p \<Longrightarrow> dev_path s p"
  unfolding no_new_devs_def dev_path_def by blast

lemma no_new_devs_upd:
  assumes "dentries s' = (dentries s)(c \<mapsto> ce, d \<mapsto> e')" "dentries s d = Some e" "d_kind e' = d_kind e" "d_path e' = d_path e"
    "d_kind ce = DevDentry \<Longrightarrow> \<exists>f. dentries s c = Some f \<and> d_kind f = DevDentry \<and> d_path f = d_path ce"
  shows "no_new_devs s s'"
  using assms unfolding no_new_devs_def by (auto split: if_splits)

lemma create_devs:
  assumes wf: "vfs_wf s" and e: "dentries s d = Some e" "d_kind e \<noteq> DevDentry" and run: "create x now d n mode s = Some (s', Inr c)"
  shows "no_new_devs s s'"
proof -
  obtain k q sz v where f: "finish_create k d n q mode sz now v = Some (s', Inr c)" "k \<noteq> DevDentry" "dentries v = dentries s" "next_did v = next_did s"
    using run e unfolding create_def ext4_mkdir_def ext4_mknod_def
    by (auto simp: rassert_def on_disk_def split: bind_splits dentry_kind.splits if_splits prod.splits elim!: and_thenE)
  have "d \<noteq> next_did s" using wf e(1) by (auto simp: vfs_wf_def)
  then obtain ce where s1: "dentries s' = (dentries s)(d \<mapsto> e\<lparr>d_child := bt_insert n (next_did s) (d_child e)\<rparr>, next_did s \<mapsto> ce)" "d_kind ce = k"
    using f e(1) unfolding finish_create_def new_inode_def new_dentry_def add_child_def set_dentry_def cache_insert_def Let_def
    by (auto split: bind_splits)
  then have s': "dentries s' = (dentries s)(next_did s \<mapsto> ce, d \<mapsto> e\<lparr>d_child := bt_insert n (next_did s) (d_child e)\<rparr>)" "d_kind ce = k"
    using fun_upd_twist [OF \<open>d \<noteq> next_did s\<close>] by simp_all
  show ?thesis by (rule no_new_devs_upd [OF s'(1) e(1)]) (use s'(2) f(2) in auto)
qed

lemma unlink_devs:
  assumes run: "unlink x d c s = Some (s', r)"
  shows "no_new_devs s s'"
proof (cases "\<exists>v q j. unlink_tree d c s = Some (v, q, j)")
  case True
  then obtain v q j where t: "unlink_tree d c s = Some (v, q, j)" by blast
  obtain ce e where c: "dentries s c = Some ce" "d \<noteq> c" "dentries s d = Some e"
    and v: "dentries v = (dentries s)(c \<mapsto> ce\<lparr>d_parent := None\<rparr>, d \<mapsto> e\<lparr>d_child := bt_remove (d_name ce) (d_child e)\<rparr>)"
    using t unfolding unlink_tree_def set_dentry_def cache_remove_def Let_def by (auto simp: rassert_def split: bind_splits if_splits)
  have n: "no_new_devs s v" by (rule no_new_devs_upd [OF v c(3)]) (use c(1) in auto)
  have "dentries s' = dentries v \<or> s' = s" using run t unfolding unlink_def ext4_unlink_def simple_unlink_def Let_def
    by (auto simp: on_disk_def set_inode_def split: bind_splits dentry_kind.splits inode_mode.splits if_splits prod.splits)
  then show ?thesis using n by (auto simp: no_new_devs_def)
next
  case False
  then show ?thesis using run unfolding unlink_def ext4_unlink_def simple_unlink_def
    by (auto simp: no_new_devs_def split: bind_splits dentry_kind.splits)
qed

lemma created_in_parent:
  assumes wf: "vfs_wf s" "root_dentry_of s = Some r" and d: "tree_at (dentries s) r ms = Some d" "dentries s d = Some e" "d_kind e \<noteq> DevDentry"
    and n: "plain_name n" "bt_get (d_child e) n = None" and m: "mode = Directory \<or> mode = Regular" and made: "create x now d n mode s = Some (s1, Inr c)"
  shows "\<exists>e1. dentries s1 d = Some e1 \<and> d_kind e1 = d_kind e \<and> d_path e1 = d_path e \<and> bt_get (d_child e1) n = Some c"
proof -
  note cr = create_spec [OF wf d(2) n(2) d(1) n(1) m d(3) made]
  have w1: "vfs_wf s1" "root_dentry_of s1 = Some r" "tree_at (dentries s1) r ms = Some d" using cr(1) wf(2) d(1) unfolding grows_def by auto
  then obtain e1 where e1: "dentries s1 d = Some e1" "bt_get (d_child e1) n = Some c" using cr(2) by (auto simp: tree_at_append split: option.splits if_splits)
  have k: "d_kind e1 = d_kind e" using extends_create [OF vfs_wf_fresh [OF wf(1)] made] d(2) e1(1) unfolding extends_def by (metis option.inject)
  have "tree_wf (dentries s1) (dcache s1) r" "tree_wf (dentries s) (dcache s) r" using w1(1,2) wf by (auto simp: vfs_wf_def)
  then have "d_path e1 = d_path e" using tree_wf_path(1) [OF _ w1(3) e1(1)] tree_wf_path(1) [OF _ d(1,2)] d(3) k by simp
  then show ?thesis using e1 k by blast
qed

definition removes :: "'d ext4_lib \<Rightarrow> bool" where
  "removes x \<longleftrightarrow> (\<forall>f \<in> {lwext4_rmfile x, lwext4_rmdir x}. \<forall>p dk dk'. f p dk = (dk', Inr ()) \<longrightarrow>
     \<not> file_exists x p dk' \<and> \<not> dir_exists x p dk' \<and> \<not> symlink_exists x p dk')"

text \<open>
  C11: Making a file or directory and removing it again: it is found by its path in between and not afterwards, and the rest of the tree is as
  it was. The disk is asked to have no entry of a path after it removed it.
\<close>

theorem create_unlink_round_trip:
  assumes wf: "vfs_wf s" "root_dentry_of s = Some r" and d: "tree_at (dentries s) r ms = Some d" "dentries s d = Some e" "d_kind e \<noteq> DevDentry"
    and n: "\<forall>m \<in> set (ms @ [n]). plain_name m" "absent x e n (disk s)" "\<not> dev_path s (abs_path (ms @ [n]))" and m: "mode = Directory \<or> mode = Regular"
    and lib: "removes x"
    and made: "create x now d n mode s = Some (s1, Inr c)"
  shows "\<exists>C s2 res. path_to_dentry x now (abs_path (ms @ [n])) s1 = Some (s1\<lparr>dcache := C\<rparr>, Some c) \<and> unlink x d c s1 = Some (s2, res) \<and>
    (d_kind e = SimpleDentry \<longrightarrow> res = Inr ()) \<and>
    (\<forall>q z. tree_at (dentries s) r q = Some z \<longrightarrow> tree_at (dentries s2) r q = Some z) \<and>
    (res = Inr () \<longrightarrow> (\<exists>C. path_to_dentry x now (abs_path (ms @ [n])) s2 = Some (s2\<lparr>dcache := C\<rparr>, None)))"
proof -
  have pl: "plain_name n" "\<forall>m \<in> set ms. plain_name m" and no: "bt_get (d_child e) n = None" using n by (auto simp: absent_def)
  note cr = create_spec [OF wf d(2) no d(1) pl(1) m d(3) made]
  obtain ce i where c: "dentries s1 c = Some ce" "d_kind ce = d_kind e" "d_child ce = []" "d_path ce = push_path (d_path e) n" "inodes s1 (d_inode ce) = Some i"
    "i_mode i = mode" "i_link_count i = 1" "i_open_count i = 0" using cr(4) by blast
  have w1: "vfs_wf s1" "root_dentry_of s1 = Some r" "\<And>q z. tree_at (dentries s) r q = Some z \<Longrightarrow> tree_at (dentries s1) r q = Some z"
    using cr(1) wf(2) unfolding grows_def by auto
  have nd: "\<not> dev_path s1 (abs_path (ms @ [n]))" using n(3) no_new_devs_path [OF create_devs [OF wf(1) d(2,3) made]] by blast
  obtain C where look: "path_to_dentry x now (abs_path (ms @ [n])) s1 = Some (s1\<lparr>dcache := C\<rparr>, Some c)"
    using path_to_dentry_spec [OF w1(1,2) n(1) nd, of x now] cr(2) by auto
  obtain e1 where e1: "dentries s1 d = Some e1" "d_kind e1 = d_kind e" "d_path e1 = d_path e" "bt_get (d_child e1) n = Some c"
    using created_in_parent [OF wf d pl(1) no m made] by blast
  obtain s2 res where u: "unlink x d c s1 = Some (s2, res)" "unlinked d c n s1 s2"
    and dk: "if d_kind e = Ext4Dentry \<and> mode = Directory then (disk s2, res) = lwext4_rmdir x (d_path ce) (disk s1)
     else if d_kind e = Ext4Dentry then (disk s2, res) = lwext4_rmfile x (d_path ce) (disk s1) else disk s2 = disk s1 \<and> res = Inr ()"
    using unlink_entry_spec [OF w1(1,2) e1(1,4) w1(3) [OF d(1)] c(1,3,5), of x] c(6-8) m d(3) e1(2) by auto
  have w2: "vfs_wf s2" "root_dentry_of s2 = Some r" "\<And>q z. tree_at (dentries s1) r q = Some z \<Longrightarrow> z \<noteq> c \<Longrightarrow> tree_at (dentries s2) r q = Some z"
    "dentries s2 d = Some (e1\<lparr>d_child := bt_remove n (d_child e1)\<rparr>)" using u(2) w1(2) e1(1) unfolding unlinked_def by auto
  have new: "z \<noteq> c" if "tree_at (dentries s) r q = Some z" for q z
  proof
    assume "z = c"
    then have "tree_at (dentries s1) r q = Some c" using w1(3) [OF that] by simp
    moreover have "tree_wf (dentries s1) (dcache s1) r" using w1(1,2) by (auto simp: vfs_wf_def)
    ultimately have "q = ms @ [n]" using tree_wf_unique [OF _ _ cr(2) c(1)] c(2) d(3) by simp
    then show False using that d(1,2) no by (auto simp: tree_at_append)
  qed
  have old: "tree_at (dentries s2) r q = Some z" if "tree_at (dentries s) r q = Some z" for q z using w2(3) [OF w1(3) [OF that] new [OF that]] .
  have "\<exists>C. path_to_dentry x now (abs_path (ms @ [n])) s2 = Some (s2\<lparr>dcache := C\<rparr>, None)" if "res = Inr ()"
  proof (rule path_absent [OF w2(1,2) pl(2,1) old [OF d(1)] w2(4)])
    show "absent x (e1\<lparr>d_child := bt_remove n (d_child e1)\<rparr>) n (disk s2)"
      using that dk lib c(4) e1(2,3) by (auto simp: absent_def removes_def split: if_splits)
    show "\<not> dev_path s2 (abs_path (ms @ [n]))" using nd no_new_devs_path [OF unlink_devs [OF u(1)]] by blast
  qed
  moreover have "d_kind e = SimpleDentry \<longrightarrow> res = Inr ()" using dk by simp
  ultimately show ?thesis using look u(1) old by blast
qed

lemma demo_tmp: "(case demo_small of None \<Rightarrow> False | Some s \<Rightarrow> (case root_dentry_of s of None \<Rightarrow> False | Some r \<Rightarrow> (case tree_at (dentries s) r [''tmp''] of None \<Rightarrow> False | Some d \<Rightarrow>
    (case dentries s d of None \<Rightarrow> False | Some e \<Rightarrow> d_kind e = SimpleDentry \<and> d_child e = [] \<and>
       (case create demo_ext4 demo_time d ''a'' Directory s of Some (s1, Inr c) \<Rightarrow> True | _ \<Rightarrow> False)))))"
  by code_simp

theorem create_unlink_round_trip_witness:
  "\<exists>s d s1 c C s2. demo_small = Some s \<and> create demo_ext4 demo_time d ''a'' Directory s = Some (s1, Inr c) \<and>
     path_to_dentry demo_ext4 demo_time ''/tmp/a'' s1 = Some (s1\<lparr>dcache := C\<rparr>, Some c) \<and> unlink demo_ext4 d c s1 = Some (s2, Inr ()) \<and>
     (\<exists>C. path_to_dentry demo_ext4 demo_time ''/tmp/a'' s2 = Some (s2\<lparr>dcache := C\<rparr>, None))"
proof -
  obtain s r where s: "demo_small = Some s" "vfs_wf s" "root_dentry_of s = Some r" by (rule demo_state)
  obtain d e s1 c where d: "tree_at (dentries s) r [''tmp''] = Some d" "dentries s d = Some e" "d_kind e = SimpleDentry" "d_child e = []" "create demo_ext4 demo_time d ''a'' Directory s = Some (s1, Inr c)"
    using demo_tmp unfolding s(1,3) option.case by (auto simp del: tree_at.simps split: option.splits prod.splits sum.splits)
  have p: "abs_path ([''tmp''] @ [''a'']) = ''/tmp/a''" by (simp add: abs_path_def)
  have a: "absent demo_ext4 e ''a'' (disk s)" using d(3,4) by (simp add: absent_def bt_get_def)
  have lib: "removes demo_ext4" by (auto simp: removes_def demo_ext4_def)
  obtain C s2 res where "path_to_dentry demo_ext4 demo_time ''/tmp/a'' s1 = Some (s1\<lparr>dcache := C\<rparr>, Some c)" "unlink demo_ext4 d c s1 = Some (s2, res)" "res = Inr ()"
    "res = Inr () \<longrightarrow> (\<exists>C. path_to_dentry demo_ext4 demo_time ''/tmp/a'' s2 = Some (s2\<lparr>dcache := C\<rparr>, None))"
    using create_unlink_round_trip [OF s(2,3) d(1,2) _ _ a _ _ lib d(5)] d(3) plain_tmp demo_not_dev [OF s(1,2)] p by auto
  then show ?thesis using s(1) d(5) by blast
qed

section \<open>Removing a file in use\<close>

text \<open>
  C33: An ext4 file that is open, or has another link, is removed from the tree but not from the disk: the removal reports success,
  and the next lookup of the path finds the file on the disk and makes a new entry for it.
\<close>

theorem unlink_in_use_comes_back:
  assumes wf: "vfs_wf s" "root_dentry_of s = Some r" and d: "tree_at (dentries s) r ms = Some d" "dentries s d = Some e" "d_kind e = Ext4Dentry" "bt_get (d_child e) n = Some c"
    and c: "dentries s c = Some ce" "d_child ce = []" "inodes s (d_inode ce) = Some i" "i_mode i = Regular" "i_open_count i \<noteq> 0 \<or> i_link_count i \<noteq> 1"
    and p: "\<forall>m \<in> set (ms @ [n]). plain_name m" "\<not> dev_path s (abs_path (ms @ [n]))"
    and lib: "file_exists x (push_path (d_path e) n) (disk s)" "file_open x (push_path (d_path e) n) O_RDWR (disk s) = (dk, Inr sz)"
  shows "\<exists>s1 s2 z. unlink x d c s = Some (s1, Inr ()) \<and> tree_at (dentries s1) r (ms @ [n]) = None \<and>
    path_to_dentry x now (abs_path (ms @ [n])) s1 = Some (s2, Some z) \<and> z \<noteq> c \<and> tree_at (dentries s2) r (ms @ [n]) = Some z"
proof -
  obtain s1 where u: "unlink x d c s = Some (s1, Inr ())" "unlinked d c n s s1" "disk s1 = disk s"
    using unlink_entry_spec [OF wf d(2,4,1) c(1-3), of x] c(4,5) d(3) by auto
  let ?e1 = "e\<lparr>d_child := bt_remove n (d_child e)\<rparr>"
  have w1: "vfs_wf s1" "root_dentry_of s1 = Some r" "dentries s1 d = Some ?e1" using u(2) wf(2) d(2) unfolding unlinked_def by auto
  have "d \<noteq> c" using u(1) d(2,3) by (auto simp: unlink_def ext4_unlink_def unlink_tree_def rassert_def split: bind_splits if_splits)
  then have t1: "tree_at (dentries s1) r ms = Some d" using u(2) wf(2) d(1) unfolding unlinked_def by blast
  then have gone: "tree_at (dentries s1) r (ms @ [n]) = None" using w1(3) by (simp add: tree_at_append)
  have nd: "\<not> dev_path s1 (abs_path (ms @ [n]))" using p(2) no_new_devs_path [OF unlink_devs [OF u(1)]] by blast
  obtain s2 res where look: "path_to_dentry x now (abs_path (ms @ [n])) s1 = Some (s2, res)" "\<forall>z. res = Some z \<longrightarrow> tree_at (dentries s2) r (ms @ [n]) = Some z"
    using path_to_dentry_spec [OF w1(1,2) p(1) nd, of x now] by blast
  have "dcache s1 (abs_path (ms @ [n])) = None" using cached_entry [OF w1(1,2) _ p(1) nd] gone by (cases "dcache s1 (abs_path (ms @ [n]))") auto
  then have "path_to_dentry x now (abs_path (ms @ [n])) s1 = walk x now r (ms @ [n]) s1"
    using w1(2) names_of_abs [OF plain_names [OF p(1)]] by (simp add: path_to_dentry_def path_to_dentry_cache_def names_of_def)
  also obtain C where "walk x now r (ms @ [n]) s1 = walk x now d [n] (s1\<lparr>dcache := C\<rparr>)" using walk_tree [OF t1, of x now "[n]"] by blast
  also have "\<dots> = attach d n (push_path (d_path e) n) Regular sz now (s1\<lparr>dcache := C, disk := dk\<rparr>)"
    using w1(3) lib u(3) d(3) p(1) cwd_and_name_plain [of n "d_path e"]
    by (auto simp: look_up_def ext4_look_up_def attach_def add_child_def new_inode_def new_dentry_def set_dentry_def cache_insert_def Let_def split: bind_splits option.splits)
  finally have "res = Some (next_did s1)"
    using look(1) w1(3) by (auto simp: attach_def add_child_def new_inode_def new_dentry_def Let_def split: bind_splits if_splits)
  moreover have "c < next_did s1"
  proof -
    have "dentries s1 c \<noteq> None" using extends_unlink [OF vfs_wf_fresh [OF wf(1)] u(1)] c(1) unfolding extends_def by (metis option.distinct(1))
    then show ?thesis using w1(1) by (metis not_le_imp_less vfs_wf_def)
  qed
  ultimately show ?thesis using u(1) gone look by auto
qed

lemma demo_init: "(case demo_small of None \<Rightarrow> False | Some v \<Rightarrow> (case root_dentry_of v of None \<Rightarrow> False | Some r \<Rightarrow>
    (case dentries v r of None \<Rightarrow> False | Some e \<Rightarrow> d_kind e = Ext4Dentry \<and> d_path e = ''/'' \<and> (case bt_get (d_child e) ''init'' of None \<Rightarrow> False | Some c \<Rightarrow>
      (case dentries v c of None \<Rightarrow> False | Some ce \<Rightarrow> d_child ce = [] \<and> d_kind ce = Ext4Dentry \<and> (case inodes v (d_inode ce) of None \<Rightarrow> False | Some i \<Rightarrow> i_mode i = Regular \<and> i_open_count i = 0 \<and>
        file_exists demo_ext4 ''/init'' (disk v) \<and> file_open demo_ext4 ''/init'' O_RDWR (disk v) = (disk v, Inr 0)))))))"
  by code_simp

theorem unlink_in_use_comes_back_witness:
  "\<exists>v r c s s1 s2 z. demo_small = Some v \<and> dopen c O_RDONLY v = Some (s, Inr 0) \<and> unlink demo_ext4 r c s = Some (s1, Inr ()) \<and>
     path_to_dentry demo_ext4 demo_time ''/init'' s1 = Some (s2, Some z) \<and> z \<noteq> c"
proof -
  obtain v r where v: "demo_small = Some v" "vfs_wf v" "root_dentry_of v = Some r" by (rule demo_state)
  obtain e c ce i where e: "dentries v r = Some e" "d_kind e = Ext4Dentry" "d_path e = ''/''" "bt_get (d_child e) ''init'' = Some c" "dentries v c = Some ce" "d_child ce = []" "d_kind ce = Ext4Dentry"
    and i: "inodes v (d_inode ce) = Some i" "i_mode i = Regular" "i_open_count i = 0" and lib: "file_exists demo_ext4 ''/init'' (disk v)" "file_open demo_ext4 ''/init'' O_RDWR (disk v) = (disk v, Inr 0)"
    using demo_init unfolding v(1,3) option.case by (auto split: option.splits)
  have nf: "next_file v = 0" using demo_small_spec(2) [OF v(1)] by (simp add: extends_def vfs_empty_def)
  let ?i = "i\<lparr>i_open_count := 1\<rparr>"
  let ?s = "(set_inode (d_inode ce) ?i v)\<lparr>files := (files v)(0 \<mapsto> \<lparr>vf_dentry = c, vf_inode = d_inode ce, vf_inner = \<lparr>f_pos = 0, dirent_index = 0\<rparr>\<rparr>), next_file := 1\<rparr>"
  have o: "dopen c O_RDONLY v = Some (?s, Inr 0)"
    using e(5,7) i nf by (simp add: dopen_def Let_def set_inode_def contains_def O_RDONLY_def O_TRUNC_def O_APPEND_def)
  have s: "vfs_wf ?s" "root_dentry_of ?s = Some r" "tree_at (dentries ?s) r [] = Some r" "dentries ?s r = Some e" "dentries ?s c = Some ce" "inodes ?s (d_inode ce) = Some ?i" "disk ?s = disk v"
    using dopen_wf [OF v(2) o] v(3) e(1,5) by (simp_all add: set_inode_def root_dentry_of_def)
  have p: "abs_path ([] @ [''init'']) = ''/init''" "push_path (d_path e) ''init'' = ''/init''" using e(3) by (simp_all add: abs_path_def push_path_def ends_with_slash_def)
  have "dev_path ?s q = dev_path v q" for q by (simp add: dev_path_def)
  then have nd: "\<not> dev_path ?s (abs_path ([] @ [''init'']))" using demo_not_dev [OF v(1,2)] p(1) by simp
  have pl: "\<forall>m \<in> set ([] @ [''init'']). plain_name m" using plain_tmp by simp
  from unlink_in_use_comes_back [OF s(1-4) e(2,4) s(5) e(6) s(6) _ _ pl nd, of demo_ext4 "disk v" 0 demo_time] lib p s(7) i(2)
  obtain s1 s2 z where "unlink demo_ext4 r c ?s = Some (s1, Inr ())" "path_to_dentry demo_ext4 demo_time ''/init'' s1 = Some (s2, Some z)" "z \<noteq> c" by auto
  then show ?thesis using v(1) o by blast
qed

section \<open>Listing a directory\<close>

text \<open>The records of the children from an index on, as many as fit.\<close>

lemma length_dirent_record: "length (dirent_record i n) = dirent_size + length n + 1"
  by (simp add: dirent_record_def dirent_bytes_def string_bytes_def dirent_size_def)

lemma dents_loop_skip: "idx + length cs \<le> start \<Longrightarrow> dents_loop v count start idx cs r = Some r"
  by (induction cs arbitrary: idx) (cases r; auto)+

lemma dents_loop_drop: "idx \<le> start \<Longrightarrow> dents_loop v count start idx cs (di, bs) = dents_loop v count start start (drop (start - idx) cs) (di, bs)"
proof (induction cs arbitrary: idx)
  case (Cons c cs)
  show ?case
  proof (cases "idx = start")
    case False
    then have "start - idx = Suc (start - Suc idx)" "Suc idx \<le> start" using Cons.prems by simp_all
    then show ?thesis using Cons.IH [of "Suc idx"] Cons.prems False by (cases c) simp
  qed simp
qed simp

definition records_of :: "'d vfs \<Rightarrow> (string \<times> did) list \<Rightarrow> u8 list" where
  "records_of v cs = concat (map (\<lambda>(n, c). dirent_record (the (inode_of c v)) n) cs)"

lemma records_of_Nil [simp]: "records_of v [] = []"
  by (simp add: records_of_def)

lemma dents_loop_fits:
  assumes "\<forall>(n, c) \<in> set cs. inode_of c v \<noteq> None" "start \<le> idx"
  shows "\<exists>k. k \<le> length cs \<and> dents_loop v count start idx cs (di, bs) = Some (if k = 0 then di else idx + k, bs @ records_of v (take k cs)) \<and>
    (k = 0 \<or> length bs + length (records_of v (take k cs)) \<le> count) \<and>
    (k < length cs \<longrightarrow> count < length bs + length (records_of v (take k cs)) + (dirent_size + length (fst (cs ! k)) + 1))"
  using assms
proof (induction cs arbitrary: idx di bs)
  case Nil
  then show ?case by (simp add: records_of_def)
next
  case (Cons a cs)
  obtain n c where a: "a = (n, c)" by (cases a)
  obtain i where i: "inode_of c v = Some i" using Cons.prems(1) a by auto
  show ?case
  proof (cases "length bs + (dirent_size + length n + 1) > count")
    case True
    then show ?thesis using Cons.prems(2) a i by (intro exI [of _ 0]) (simp add: records_of_def)
  next
    case False
    have all: "\<forall>(n, c) \<in> set cs. inode_of c v \<noteq> None" using Cons.prems(1) by simp
    have "start \<le> Suc idx" using Cons.prems(2) by simp
    from Cons.IH [OF all this, of "Suc idx" "bs @ dirent_record i n"]
    obtain k where k: "k \<le> length cs" "dents_loop v count start (Suc idx) cs (Suc idx, bs @ dirent_record i n) = Some (if k = 0 then Suc idx else Suc idx + k, bs @ dirent_record i n @ records_of v (take k cs))"
      "k = 0 \<or> length (bs @ dirent_record i n) + length (records_of v (take k cs)) \<le> count"
      "k < length cs \<longrightarrow> count < length (bs @ dirent_record i n) + length (records_of v (take k cs)) + (dirent_size + length (fst (cs ! k)) + 1)" by auto
    have r: "records_of v (take (Suc k) (a # cs)) = dirent_record i n @ records_of v (take k cs)" using a i by (simp add: records_of_def)
    have "dents_loop v count start idx (a # cs) (di, bs) = dents_loop v count start (Suc idx) cs (Suc idx, bs @ dirent_record i n)" using False a i Cons.prems(2) by simp
    then show ?thesis using k False r by (intro exI [of _ "Suc k"]) (auto simp: length_dirent_record records_of_def)
  qed
qed

lemma child_inodes:
  assumes wf: "vfs_wf v" and e: "dentries v d = Some e" and c: "(n, c) \<in> set (d_child e)"
  shows "inode_of c v \<noteq> None"
proof -
  obtain r where r: "tree_wf (dentries v) (dcache v) r" using wf by (auto simp: vfs_wf_def)
  then have "bt_wf (d_child e)" using e by (auto simp: tree_wf_def links_ok_def)
  then have "bt_get (d_child e) n = Some c" using c by (simp add: bt_get_iff)
  then obtain ce where ce: "dentries v c = Some ce" using r e unfolding tree_wf_def links_ok_def by blast
  then have "inodes v (d_inode ce) \<noteq> None" using wf unfolding vfs_wf_def by blast
  then show ?thesis using ce by (simp add: inode_of_def)
qed

text \<open>
  C12: \<^verbatim>\<open>getdents64\<close> on a directory gives the records of the children that follow the ones it gave before, in the order of their names and without
  a gap, as many as fit in the buffer; it writes them to the buffer, returns their length, and the next call goes on behind
  them. At the end, and when not even one record fits, it returns 0.
\<close>

theorem getdents_resumes:
  assumes ok: "fs_ok s" and fd: "bt_get (fds (tbl s)) fd = Some fi" "fd_file fi = OFile h" "files (vf s) h = Some f" "dentries (vf s) (vf_dentry f) = Some e"
    and m: "mode_of (vf_dentry f) s = Some Directory" and di: "di = unat (dirent_index (vf_inner f))"
  shows "\<exists>k s' bs. sys_getdents64 now fd dirp count s = Some (put_user dirp bs s', Inr (of_nat (length bs))) \<and>
    bs = records_of (vf s) (take k (drop di (d_child e))) \<and> length bs \<le> count \<and> k \<le> length (d_child e) - di \<and>
    (di + k < length (d_child e) \<longrightarrow> count < length bs + (dirent_size + length (fst (d_child e ! (di + k))) + 1)) \<and>
    um s' = um s \<and> tbl s' = tbl s \<and> dentries (vf s') = dentries (vf s) \<and>
    files (vf s') = (files (vf s))(h \<mapsto> f\<lparr>vf_inner := (vf_inner f)\<lparr>dirent_index := of_nat (di + k)\<rparr>\<rparr>)"
proof -
  have wf: "vfs_wf (vf s)" using ok by (simp add: fs_ok_def)
  obtain i where i: "inodes (vf s) (d_inode e) = Some i" using m fd(4) by (auto simp: mode_of_def inode_of_def split: bind_splits)
  let ?v = "set_inode (d_inode e) (i\<lparr>i_atime := now\<rparr>) (vf s)"
  have t: "touch (\<lambda>i. i\<lparr>i_atime := now\<rparr>) (vf_dentry f) s = Some (s\<lparr>vf := ?v\<rparr>)" using fd(4) i by (simp add: touch_def)
  have ino: "\<forall>(n, c) \<in> set (drop di (d_child e)). inode_of c (vf s) \<noteq> None" using child_inodes [OF wf fd(4)] by (auto dest: in_set_dropD)
  have same: "dirent_record (the (inode_of c ?v)) n = dirent_record (the (inode_of c (vf s))) n" for c n
    using i by (auto simp: inode_of_def set_inode_def dirent_record_def split: bind_splits)
  have rec: "records_of ?v cs = records_of (vf s) cs" for cs using same by (simp add: records_of_def)
  have ino': "\<forall>(n, c) \<in> set (drop di (d_child e)). inode_of c ?v \<noteq> None" using ino i by (force simp: inode_of_def set_inode_def split: bind_splits)
  obtain k where k: "k \<le> length (drop di (d_child e))" "dents_loop ?v count di di (drop di (d_child e)) (di, []) = Some (if k = 0 then di else di + k, [] @ records_of (vf s) (take k (drop di (d_child e))))"
    "k = 0 \<or> length ([] :: u8 list) + length (records_of (vf s) (take k (drop di (d_child e)))) \<le> count"
    "k < length (drop di (d_child e)) \<longrightarrow> count < length ([] :: u8 list) + length (records_of (vf s) (take k (drop di (d_child e)))) + (dirent_size + length (fst (drop di (d_child e) ! k)) + 1)"
    using dents_loop_fits [OF ino', of di di count di "[]"] unfolding rec by blast
  have fit: "length (records_of (vf s) (take k (drop di (d_child e)))) \<le> count" using k(3) by (cases "k = 0") simp_all
  have "dents_loop ?v count di 0 (d_child e) (di, []) = Some (di + k, records_of (vf s) (take k (drop di (d_child e))))" using k(2) dents_loop_drop [of 0 di ?v count "d_child e" di "[]"] by (cases "k = 0") simp_all
  then have "sys_getdents64 now fd dirp count s = Some (put_user dirp (records_of (vf s) (take k (drop di (d_child e))))
      (s\<lparr>vf := ?v\<lparr>files := (files ?v)(h \<mapsto> f\<lparr>vf_inner := (vf_inner f)\<lparr>dirent_index := of_nat (di + k)\<rparr>\<rparr>)\<rparr>\<rparr>), Inr (of_nat (length (records_of (vf s) (take k (drop di (d_child e)))))))"
    using fd m t di by (simp add: sys_getdents64_def Let_def)
  then show ?thesis using fit k(1,4)
    by (intro exI [of _ k] exI [of _ "s\<lparr>vf := ?v\<lparr>files := (files ?v)(h \<mapsto> f\<lparr>vf_inner := (vf_inner f)\<lparr>dirent_index := of_nat (di + k)\<rparr>\<rparr>)\<rparr>\<rparr>"]
        exI [of _ "records_of (vf s) (take k (drop di (d_child e)))"]) (auto simp: set_inode_def)
qed

definition demo_listing_task :: "pmem \<Rightarrow> (string \<times> nat) list task_fs option" where
  "demo_listing_task k = do { s \<leftarrow> demo_proc k; r \<leftarrow> root_dentry_of (vf s); (s', _) \<leftarrow> open_dentry r O_RDONLY s; Some s' }"

lemma demo_listing_state: "(case demo_listing_task k of None \<Rightarrow> False | Some s \<Rightarrow> (case bt_get (fds (tbl s)) 3 of None \<Rightarrow> False | Some fi \<Rightarrow> fd_file fi = OFile 0 \<and>
    (case files (vf s) 0 of None \<Rightarrow> False | Some f \<Rightarrow> dirent_index (vf_inner f) = 0 \<and> mode_of (vf_dentry f) s = Some Directory \<and>
      (case dentries (vf s) (vf_dentry f) of None \<Rightarrow> False | Some e \<Rightarrow> map fst (d_child e) = [''bin'', ''init'', ''tmp'']))))"
  by code_simp

lemma demo_listing_ok: "demo_listing_task k = Some s \<Longrightarrow> fs_ok s"
  unfolding demo_listing_task_def
  by (auto split: bind_splits dest: demo_proc_ok open_dentry_ok)

theorem getdents_resumes_witness:
  "\<exists>s s' bs. demo_listing_task boot_store = Some s \<and> sys_getdents64 demo_time 3 4096 64 s = Some (put_user 4096 bs s', Inr (of_nat (length bs))) \<and>
     (\<exists>f. files (vf s') 0 = Some f \<and> dirent_index (vf_inner f) = 2)"
proof -
  obtain s fi f e where s: "demo_listing_task boot_store = Some s" "bt_get (fds (tbl s)) 3 = Some fi" "fd_file fi = OFile 0" "files (vf s) 0 = Some f" "dirent_index (vf_inner f) = 0"
    "mode_of (vf_dentry f) s = Some Directory" "dentries (vf s) (vf_dentry f) = Some e" "map fst (d_child e) = [''bin'', ''init'', ''tmp'']"
    using demo_listing_state [of boot_store] by (auto split: option.splits)
  obtain a b c where ch: "d_child e = [(''bin'', a), (''init'', b), (''tmp'', c)]" using s(8) by (auto simp: map_eq_Cons_conv)
  have z: "0 = unat (dirent_index (vf_inner f))" and len: "length (d_child e) = 3" using s(5) ch by simp_all
  obtain k s' bs where g: "sys_getdents64 demo_time 3 4096 64 s = Some (put_user 4096 bs s', Inr (of_nat (length bs)))"
    "bs = records_of (vf s) (take k (d_child e))" "length bs \<le> 64" "k \<le> 3" "k < 3 \<longrightarrow> 64 < length bs + (dirent_size + length (fst (d_child e ! k)) + 1)"
    "files (vf s') = (files (vf s))(0 \<mapsto> f\<lparr>vf_inner := (vf_inner f)\<lparr>dirent_index := of_nat k\<rparr>\<rparr>)"
    using getdents_resumes [OF demo_listing_ok [OF s(1)] s(2-4,7,6) z, of demo_time 4096 64] unfolding drop_0 add_0 len minus_nat.diff_0 by blast
  have "k = 2"
  proof -
    consider "k = 0" | "k = 1" | "k = 2" | "k = 3" using g(4) by linarith
    then show ?thesis using g(2,3,5) ch by cases (simp_all add: records_of_def length_dirent_record dirent_size_def numeral_nat)
  qed
  then show ?thesis using s(1) g(1,6) by auto
qed

section \<open>Files in memory hold nothing\<close>

lemma simple_read_loop_empty: "simple_read_loop (Suc n) rd m off [] (([], k), f, i) = Some ((([], k), f, i), [])"
  by (simp add: find_page_and_create_def bt_get_def)

lemma simple_write_loop_empty: "simple_write_loop (Suc n) rd bs 0 off (([], k), f, i) = Some ((([], k), f, i), 0)"
  by (simp add: find_page_and_create_def bt_get_def)

text \<open>
  C34: The page cache of a file of \<^verbatim>\<open>tmpfs\<close> starts empty, and pages are made only for files with a disk: every write to such a file reports
  that it wrote 0 bytes, every read gives 0 bytes, and the cache stays empty.
\<close>

theorem memory_files_hold_nothing:
  assumes fd: "bt_get (fds (tbl s)) fd = Some d" "fd_file d = OFile h" "\<not> contains (fd_flags d) O_PATH" "0 < count"
    and f: "get_file h s = Some (SimpleDentry, ([], k), f, i)"
  shows "(is_writable (fd_flags d) \<longrightarrow> (\<exists>s'. sys_write wro rd now fd ubuf count s = Some (s', Inr 0) \<and> caches s' h = [] \<and> um s' = um s)) \<and>
    (\<exists>s'. sys_read rdo rd now fd ubuf count s = Some (s', Inr 0) \<and> caches s' h = [] \<and> um s' = um s)"
proof -
  obtain vfl where v: "files (vf s) h = Some vfl" using f unfolding get_file_def by (auto split: bind_splits)
  have "\<exists>s'. sys_write wro rd now fd ubuf count s = Some (s', Inr 0) \<and> caches s' h = [] \<and> um s' = um s" if "is_writable (fd_flags d)"
    using fd f v that by (simp add: sys_write_def write_ofile_def simple_write_def simple_write_loop_empty put_file_def del: simple_write_loop.simps)
  moreover have "\<exists>s'. sys_read rdo rd now fd ubuf count s = Some (s', Inr 0) \<and> caches s' h = [] \<and> um s' = um s"
    using fd f v by (simp add: sys_read_def read_ofile_def simple_read_def simple_read_loop_empty put_file_def always_readable and_then_def put_user_def write_user_def del: simple_read_loop.simps)
  ultimately show ?thesis by blast
qed

definition demo_tmp_task :: "pmem \<Rightarrow> (string \<times> nat) list task_fs option" where
  "demo_tmp_task k = do { s \<leftarrow> demo_proc k; r \<leftarrow> root_dentry_of (vf s); d \<leftarrow> tree_at (dentries (vf s)) r [''tmp''];
     (s1, res) \<leftarrow> and_then (in_vfs (create demo_ext4 demo_time d ''a'' Regular) s) (\<lambda>s c. open_dentry c O_RDWR s); Some s1 }"

lemma demo_tmp_state: "(case demo_tmp_task k of None \<Rightarrow> False | Some s \<Rightarrow> (case bt_get (fds (tbl s)) 3 of None \<Rightarrow> False | Some fi \<Rightarrow> fi = \<lparr>fd_file = OFile 0, fd_flags = O_RDWR\<rparr> \<and>
    (case get_file 0 s of None \<Rightarrow> False | Some (kind, (c, _), _) \<Rightarrow> kind = SimpleDentry \<and> c = [])))"
  by code_simp

theorem memory_files_hold_nothing_witness:
  "\<exists>s s'. demo_tmp_task boot_store = Some s \<and> sys_write (\<lambda>_ _ _ _. None) (\<lambda>_ _. None) demo_time 3 4096 5 s = Some (s', Inr 0)"
proof -
  obtain s where s: "demo_tmp_task boot_store = Some s" using demo_tmp_state [of boot_store] by (auto split: option.splits)
  then have st: "case bt_get (fds (tbl s)) 3 of None \<Rightarrow> False | Some fi \<Rightarrow> fi = \<lparr>fd_file = OFile 0, fd_flags = O_RDWR\<rparr> \<and>
    (case get_file 0 s of None \<Rightarrow> False | Some (kind, (c, _), _) \<Rightarrow> kind = SimpleDentry \<and> c = [])" using demo_tmp_state [of boot_store] by simp
  then have fi: "bt_get (fds (tbl s)) 3 = Some \<lparr>fd_file = OFile 0, fd_flags = O_RDWR\<rparr>" by (auto split: option.splits)
  obtain k f i where f: "get_file 0 s = Some (SimpleDentry, ([], k), f, i)" using st by (auto split: option.splits prod.splits)
  have "\<not> contains O_RDWR O_PATH" "is_writable O_RDWR" by (simp_all add: contains_def O_RDWR_def O_PATH_def is_writable_def O_WRONLY_def)
  then show ?thesis using s memory_files_hold_nothing [OF fi _ _ _ f, of 5] by fastforce
qed

section \<open>The status of a file\<close>

lemma unat_bounds: "unat (w :: u64) mod 18446744073709551616 = unat w" "unat (v :: u32) mod 4294967296 = unat v"
proof -
  have "unat w < 18446744073709551616" "unat v < 4294967296" using unsigned_less [of w, where 'a = nat] unsigned_less [of v, where 'a = nat] by simp_all
  then show "unat w mod 18446744073709551616 = unat w" "unat v mod 4294967296 = unat v" by simp_all
qed

text \<open>
  C25: \<^verbatim>\<open>fstat\<close> writes a structure of 120 bytes with the layout of C: device, inode number, mode and size are little-endian numbers at the offsets 0,
  8, 16 and 48, and the time of the last access is at 72. The mode is the position of the constructor in the enumeration, which is
  not an encoding of the file type that C programs know.
\<close>

theorem fstat_layout:
  assumes fd: "bt_get (fds (tbl s)) fd = Some d" "fd_file d = OFile h" "files (vf s) h = Some f" "inodes (vf s) (vf_inode f) = Some i"
  shows "\<exists>bs. sys_fstat now fd ubuf s = Some (put_user ubuf bs s, Inr 0) \<and> length bs = 120 \<and>
    le_nat (take 8 bs) = 1234567 \<and> le_nat (take 8 (drop 8 bs)) = i_ino i mod 2 ^ 64 \<and> le_nat (take 4 (drop 16 bs)) = unat (mode_number (i_mode i)) \<and>
    le_nat (take 8 (drop 48 bs)) = unat (i_size i) \<and> le_nat (take 8 (drop 64 bs)) = unat (i_size i) div SECTOR_SIZE \<and>
    le_nat (take 8 (drop 72 bs)) = unat (tv_sec (i_atime i)) \<and> le_nat (take 8 (drop 80 bs)) = unat (tv_nsec (i_atime i))"
proof -
  let ?k = "(stat_new now)\<lparr>st_dev := 1234567, st_ino := of_nat (i_ino i), st_mode := mode_number (i_mode i), st_size := i_size i,
     st_blocks := i_size i div of_nat SECTOR_SIZE, st_atim := i_atime i, st_mtim := i_mtime i, st_ctim := i_ctime i\<rparr>"
  have "sys_fstat now fd ubuf s = Some (put_user ubuf (stat_bytes ?k) s, Inr 0)" using fd by (simp add: sys_fstat_def Let_def)
  moreover have "length (stat_bytes ?k) = 120" by (simp add: stat_bytes_def time_bytes_def)
  moreover have "unat (i_size i div of_nat SECTOR_SIZE) = unat (i_size i) div SECTOR_SIZE" by (simp add: unat_div SECTOR_SIZE_def)
  moreover have "unat (word_of_nat (i_ino i) :: u64) = i_ino i mod 2 ^ 64" by (simp add: unat_of_nat take_bit_eq_mod)
  ultimately show ?thesis
    by (intro exI [of _ "stat_bytes ?k"]) (simp add: stat_bytes_def time_bytes_def unat_bounds stat_new_def, metis unat_bounds(1))
qed

theorem fstat_layout_witness:
  "\<exists>s bs. demo_listing_task boot_store = Some s \<and> sys_fstat demo_time 3 4096 s = Some (put_user 4096 bs s, Inr 0) \<and> length bs = 120 \<and> le_nat (take 4 (drop 16 bs)) = 4"
proof -
  obtain s fi f e where s: "demo_listing_task boot_store = Some s" "bt_get (fds (tbl s)) 3 = Some fi" "fd_file fi = OFile 0" "files (vf s) 0 = Some f"
    "mode_of (vf_dentry f) s = Some Directory" "dentries (vf s) (vf_dentry f) = Some e"
    using demo_listing_state [of boot_store] by (auto split: option.splits)
  have "\<exists>f' e. files (vf s) 0 = Some f' \<and> dentries (vf s) (vf_dentry f') = Some e \<and> vf_inode f' = d_inode e"
    using demo_listing_ok [OF s(1)] s(2,3) unfolding fs_ok_def open_ok_def by blast
  then have "vf_inode f = d_inode e" using s(4,6) by auto
  then obtain i where i: "inodes (vf s) (vf_inode f) = Some i" "i_mode i = Directory" using s(5,6) by (auto simp: mode_of_def inode_of_def split: bind_splits)
  from fstat_layout [OF s(2-4) i(1), of demo_time 4096] show ?thesis using s(1) i(2) by (auto simp: mode_number_def)
qed

end
