(* ===== verification/Vma.thy ===== *)
theory Vma
  imports Pma
begin

text \<open>
  Memory areas (\<^verbatim>\<open>mm/vma.rs\<close>, \<^verbatim>\<open>mm/vma_range/mod.rs\<close>): a range of pages with one permission, the pages already
  allocated for it and the handler of its page faults. The operations work on the state
  \<open>(k, pt)\<close> of memory and page table.

  The lemmas show how \<open>unmap_if_overlap\<close> and \<open>split_and_modify_if_overlap\<close> cut an area, that mapping an area maps every page of
  it to a fresh frame, and that removing it unmaps every page.
\<close>

datatype vma_type = Elf | UserStack | Mmap | UserHeap | PhysFrame | Mmio | Interp

datatype map_type = Framed | Direct

datatype handler = UStackHandler | UHeapHandler | MmapHandler | CowHandler

record vma =
  pma :: Pma.pma
  start_vaddr :: usize
  end_vaddr :: usize
  map_permission :: map_permission
  vma_type :: vma_type
  map_type :: map_type
  page_fault_handler :: "handler option"

datatype unmap_overlap = UUnchange | UShrink | URemoved | USplit vma

datatype split_overlap = SUnchange | SShrinkRight vma | SShrinkLeft vma | SModified | SSplit vma vma

type_synonym pstate = "pmem \<times> page_table"

definition PHY_TO_VIRT_PPN_OFFSET :: usize where "PHY_TO_VIRT_PPN_OFFSET = 0xffffffff00000"

section \<open>Operations\<close>

definition vma_new ::
  "usize \<Rightarrow> usize \<Rightarrow> map_permission \<Rightarrow> map_type \<Rightarrow> vma_type \<Rightarrow> handler option \<Rightarrow> vma option" where
  "vma_new start end per mt vt h =
     do { s \<leftarrow> align_down start;
          e \<leftarrow> align_up end;
          Some \<lparr>pma = pma_new, start_vaddr = s, end_vaddr = e, map_permission = per, vma_type = vt,
                map_type = mt, page_fault_handler = h\<rparr> }"

definition vma_from_another :: "vma \<Rightarrow> vma" where
  "vma_from_another v = v\<lparr>pma := pma_new\<rparr>"

text \<open>\<open>page\<close> is the page to map, or \<^term>\<open>None\<close> for a fresh one; the result is the frame mapped.\<close>

definition vma_map_one :: "usize \<Rightarrow> usize option \<Rightarrow> vma \<Rightarrow> pstate \<Rightarrow> (vma \<times> pstate \<times> usize) option" where
  "vma_map_one vpn page v st = (case st of (k, pt) \<Rightarrow>
     do { (v', k', ppn) \<leftarrow>
            (case map_type v of
               Direct \<Rightarrow> do { rassert (PHY_TO_VIRT_PPN_OFFSET \<le> vpn); Some (v, k, vpn - PHY_TO_VIRT_PPN_OFFSET) }
             | Framed \<Rightarrow>
                 do { (k1, h) \<leftarrow> (case page of Some p \<Rightarrow> Some (k, p)
                                   | None \<Rightarrow> page_new (page_permission_of_map (map_permission v)) k);
                      (m, k2) \<leftarrow> push_pma_page vpn h (pma v) k1;
                      Some (v\<lparr>pma := m\<rparr>, k2, h) });
          (k'', pt') \<leftarrow> map_one vpn ppn (pte_flags_of_map (map_permission v)) k' pt;
          Some (v', (k'', pt'), ppn) })"

definition vma_map_one_lazily :: "usize \<Rightarrow> vma \<Rightarrow> pstate \<Rightarrow> pstate option" where
  "vma_map_one_lazily vpn v st = do { rassert (map_type v = Framed); map_one vpn 0 0 (fst st) (snd st) }"

definition vma_unmap :: "usize \<Rightarrow> vma \<times> pstate \<Rightarrow> (vma \<times> pstate) option" where
  "vma_unmap vpn s = (case s of (v, k, pt) \<Rightarrow>
     do { (m, k') \<leftarrow> (if map_type v = Framed then pop_pma_page vpn (pma v) k else Some (pma v, k));
          k'' \<leftarrow> unmap vpn k' pt;
          Some (v\<lparr>pma := m\<rparr>, k'', pt) })"

definition vma_range :: "vma \<Rightarrow> usize list option" where
  "vma_range v = do { s \<leftarrow> virt_to_vpn (start_vaddr v); e \<leftarrow> virt_to_vpn (end_vaddr v); Some (vpns s e) }"

definition map_self_all_lazy :: "vma \<Rightarrow> pstate \<Rightarrow> pstate option" where
  "map_self_all_lazy v st = do { r \<leftarrow> vma_range v; foldM (\<lambda>vpn st. vma_map_one_lazily vpn v st) r st }"

definition map_self_all :: "vma \<Rightarrow> pstate \<Rightarrow> (vma \<times> pstate) option" where
  "map_self_all v st =
     do { r \<leftarrow> vma_range v;
          foldM (\<lambda>vpn (v, st). map_option (\<lambda>(v', st', _). (v', st')) (vma_map_one vpn None v st)) r (v, st) }"

text \<open>
  The loops that copy bytes across pages. \<open>start\<close> is the position in the data, \<open>off\<close> the offset in the first page;
  the fuel is the number of bytes plus one, as every turn but the last advances.
\<close>

fun vma_write_loop ::
  "nat \<Rightarrow> (nat \<Rightarrow> usize \<Rightarrow> u8 list option) \<Rightarrow> vma \<Rightarrow> u8 list \<Rightarrow> nat \<Rightarrow> usize \<Rightarrow> nat \<Rightarrow> pmem \<Rightarrow> pmem option" where
  "vma_write_loop 0 rd v data start va off k = None"
| "vma_write_loop (Suc fuel) rd v data start va off k =
     do { rassert (off \<le> PAGE_BYTES);
          let end = min (length data) (start + PAGE_BYTES - off);
          vpn \<leftarrow> virt_to_vpn va;
          k' \<leftarrow> pma_write_data rd vpn (take (end - start) (drop start data)) off (pma v) k;
          let start' = start + (PAGE_BYTES - off);
          if length data \<le> start' then Some k'
          else vma_write_loop fuel rd v data start' (va + PAGE_SIZE) 0 k' }"

definition vma_write_data :: "(nat \<Rightarrow> usize \<Rightarrow> u8 list option) \<Rightarrow> usize \<Rightarrow> u8 list \<Rightarrow> nat \<Rightarrow> vma \<Rightarrow> pmem \<Rightarrow> pmem option" where
  "vma_write_data rd start_va data off v k = vma_write_loop (length data + 2) rd v data 0 start_va off k"

fun vma_read_loop ::
  "nat \<Rightarrow> (nat \<Rightarrow> usize \<Rightarrow> u8 list option) \<Rightarrow> vma \<Rightarrow> nat \<Rightarrow> nat \<Rightarrow> usize \<Rightarrow> nat \<Rightarrow> pmem \<Rightarrow> (pmem \<times> u8 list) option" where
  "vma_read_loop 0 rd v n start va off k = None"
| "vma_read_loop (Suc fuel) rd v n start va off k =
     do { rassert (off \<le> PAGE_BYTES);
          let end = min n (start + PAGE_BYTES - off);
          vpn \<leftarrow> virt_to_vpn va;
          (k', bs) \<leftarrow> pma_read_data rd vpn (end - start) off (pma v) k;
          let start' = start + (PAGE_BYTES - off);
          if n \<le> start' then Some (k', bs)
          else do { (k'', cs) \<leftarrow> vma_read_loop fuel rd v n start' (va + PAGE_SIZE) 0 k'; Some (k'', bs @ cs) } }"

definition vma_read_data :: "(nat \<Rightarrow> usize \<Rightarrow> u8 list option) \<Rightarrow> usize \<Rightarrow> nat \<Rightarrow> nat \<Rightarrow> vma \<Rightarrow> pmem \<Rightarrow> (pmem \<times> u8 list) option" where
  "vma_read_data rd start_va n off v k = vma_read_loop (n + 2) rd v n 0 start_va off k"

definition is_backen_file :: "vma \<Rightarrow> bool" where
  "is_backen_file v \<longleftrightarrow> backen_file (pma v) \<noteq> None"

section \<open>Changing ranges\<close>

definition vma_modify :: "map_permission \<Rightarrow> vma \<Rightarrow> pstate \<Rightarrow> (vma \<times> pstate) option" where
  "vma_modify new_flags v st = (case st of (k, pt) \<Rightarrow>
     do { k' \<leftarrow> foldM (\<lambda>vpn k. modify_flags vpn (pte_flags_of_map new_flags) k pt) (bt_keys (page_manager (pma v))) k;
          Some (v\<lparr>map_permission := new_flags\<rparr>, k', pt) })"

definition vma_remove :: "vma \<Rightarrow> pstate \<Rightarrow> (vma \<times> pstate) option" where
  "vma_remove v st =
     do { s \<leftarrow> virt_to_vpn (start_vaddr v); e \<leftarrow> virt_to_vpn (end_vaddr v);
          foldM vma_unmap (vpns s e) (v, st) }"

definition vma_expand :: "usize \<Rightarrow> vma \<Rightarrow> vma" where
  "vma_expand new_end v = v\<lparr>end_vaddr := new_end\<rparr>"

text \<open>The area keeps \<open>[start, pos)\<close>; the second result is \<open>[pos, end)\<close>.\<close>

definition vma_split :: "usize \<Rightarrow> vma \<Rightarrow> pmem \<Rightarrow> (vma \<times> vma \<times> pmem) option" where
  "vma_split pos v k =
     do { (m, right, k') \<leftarrow> pma_split pos pos (end_vaddr v) (pma v) k;
          Some (v\<lparr>pma := m, end_vaddr := pos\<rparr>, v\<lparr>pma := right, start_vaddr := pos\<rparr>, k') }"

definition is_contain :: "usize \<Rightarrow> vma \<Rightarrow> bool" where
  "is_contain pos v \<longleftrightarrow> start_vaddr v \<le> pos \<and> pos \<le> end_vaddr v"

definition is_overlap :: "usize \<Rightarrow> usize \<Rightarrow> vma \<Rightarrow> bool option" where
  "is_overlap start end v =
     do { rassert (start \<le> end); Some (\<not> (end \<le> start_vaddr v \<or> start \<ge> end_vaddr v)) }"

text \<open>Dropping an area drops its pages.\<close>

definition vma_drop :: "vma \<Rightarrow> pmem \<Rightarrow> pmem option" where
  "vma_drop v k = foldM arc_drop (map snd (page_manager (pma v))) k"

definition unmap_if_overlap :: "usize \<Rightarrow> usize \<Rightarrow> vma \<Rightarrow> pstate \<Rightarrow> (vma \<times> pstate \<times> unmap_overlap) option" where
  "unmap_if_overlap start0 end0 v st = (case st of (k, pt) \<Rightarrow>
     do { start \<leftarrow> align_down start0;
          end \<leftarrow> align_up end0;
          ov \<leftarrow> is_overlap start end v;
          if \<not> ov then Some (v, st, UUnchange)
          else if start \<le> start_vaddr v then
            (if end < end_vaddr v then
               do { (left, right, k1) \<leftarrow> vma_split end v k;
                    (left', k2, pt') \<leftarrow> vma_remove left (k1, pt);
                    k3 \<leftarrow> vma_drop left' k2;
                    Some (right, (k3, pt'), UShrink) }
             else do { (v', st') \<leftarrow> vma_remove v (k, pt); Some (v', st', URemoved) })
          else if end < end_vaddr v then
            do { (left, right, k1) \<leftarrow> vma_split end v k;
                 (left', mid, k2) \<leftarrow> vma_split start left k1;
                 (mid', k3, pt') \<leftarrow> vma_remove mid (k2, pt);
                 k4 \<leftarrow> vma_drop mid' k3;
                 Some (left', (k4, pt'), USplit right) }
          else
            do { (left, right, k1) \<leftarrow> vma_split start v k;
                 (right', k2, pt') \<leftarrow> vma_remove right (k1, pt);
                 k3 \<leftarrow> vma_drop right' k2;
                 Some (left, (k3, pt'), UShrink) } })"

definition split_and_modify_if_overlap ::
  "usize \<Rightarrow> usize \<Rightarrow> map_permission \<Rightarrow> vma \<Rightarrow> pstate \<Rightarrow> (vma \<times> pstate \<times> split_overlap) option" where
  "split_and_modify_if_overlap start end new_flags v st = (case st of (k, pt) \<Rightarrow>
     do { ov \<leftarrow> is_overlap start end v;
          if \<not> ov then Some (v, st, SUnchange)
          else if start \<le> start_vaddr v then
            (if end < end_vaddr v then
               do { (left, right, k1) \<leftarrow> vma_split end v k;
                    (left', st') \<leftarrow> vma_modify new_flags left (k1, pt);
                    Some (left', st', SShrinkLeft right) }
             else do { (v', st') \<leftarrow> vma_modify new_flags v (k, pt); Some (v', st', SModified) })
          else if end < end_vaddr v then
            do { (left, right, k1) \<leftarrow> vma_split end v k;
                 (left', mid, k2) \<leftarrow> vma_split start left k1;
                 (mid', st') \<leftarrow> vma_modify new_flags mid (k2, pt);
                 Some (left', st', SSplit mid' right) }
          else
            do { (left, right, k1) \<leftarrow> vma_split start v k;
                 (right', st') \<leftarrow> vma_modify new_flags right (k1, pt);
                 Some (left, st', SShrinkRight right') } })"

section \<open>Memory, tables and pages together\<close>

text \<open>The tables, the pages and the free frames are disjoint.\<close>

definition st_wf :: "pstate \<Rightarrow> bool" where
  "st_wf st \<longleftrightarrow> store_wf (fst st) \<and> pt_wf (fst st) (snd st) \<and>
     dom (pages (fst st)) \<inter> (pt_tables (fst st) (snd st) \<union> set (frames (snd st))) = {}"

abbreviation view :: "pstate \<Rightarrow> usize \<Rightarrow> u64 option" where
  "view st \<equiv> pt_view (fst st) (snd st)"

text \<open>The pages of an area are live and each is at one place of it.\<close>

definition vma_own :: "vma \<Rightarrow> pmem \<Rightarrow> bool" where
  "vma_own v k \<longleftrightarrow> bt_wf (page_manager (pma v)) \<and>
     (\<forall>a h. bt_get (page_manager (pma v)) a = Some h \<longrightarrow> pages k h \<noteq> None) \<and>
     (\<forall>a b h. bt_get (page_manager (pma v)) a = Some h \<longrightarrow> bt_get (page_manager (pma v)) b = Some h \<longrightarrow> a = b)"

lemma more_pages: "kmem.more k' = kmem.more (k :: pmem) \<Longrightarrow> pages k' = pages k"
  by (cases k; cases k') (simp add: kmem.defs)

lemma st_wfD:
  assumes "st_wf (k, pt)"
  shows "store_wf k" "frames_wf k" "pt_wf k pt" "\<And>h. pages k h \<noteq> None \<Longrightarrow> h \<notin> pt_tables k pt"
    "\<And>h. pages k h \<noteq> None \<Longrightarrow> h \<notin> set (frames pt)"
  using assms store_wfD(1) by (auto simp: st_wf_def)

lemma tables_in_use: "pt_wf k pt \<Longrightarrow> p \<in> pt_tables k pt \<Longrightarrow> p \<notin> free_frames k"
  using pt_wfD(3) by (auto simp: pt_tables_def)

lemma store_wf_cong:
  "store_wf k \<Longrightarrow> frames_wf k' \<Longrightarrow> pages k' = pages k \<Longrightarrow> free_frames k' \<subseteq> free_frames k \<Longrightarrow> store_wf k'"
  unfolding store_wf_def by (metis subsetD)

text \<open>Operations on the table keep the state well-formed.\<close>

lemma st_map_one:
  assumes wf: "st_wf (k, pt)" and vpn: "vpn_ok vpn" "pt_view k pt vpn = None" and room: "2 \<le> card (free_frames k)"
  shows "\<exists>k' pt'. map_one vpn ppn flags k pt = Some (k', pt') \<and> st_wf (k', pt') \<and> pages k' = pages k \<and>
    (\<forall>w. vpn_ok w \<longrightarrow> pt_view k' pt' w =
       (if w = vpn then Some (pte_new ppn (flags OR PTE_A OR PTE_D OR PTE_V)) else pt_view k pt w)) \<and>
    free_frames k' \<subseteq> free_frames k \<and> card (free_frames k) \<le> card (free_frames k') + 2 \<and>
    (\<forall>h. pages k h \<noteq> None \<longrightarrow> phys k' h = phys k h)"
proof -
  note w = st_wfD [OF wf]
  obtain k' pt' where m: "map_one vpn ppn flags k pt = Some (k', pt')" "pt_wf k' pt'" "frames_wf k'"
    "\<forall>w. vpn_ok w \<longrightarrow> pt_view k' pt' w =
       (if w = vpn then Some (pte_new ppn (flags OR PTE_A OR PTE_D OR PTE_V)) else pt_view k pt w)"
    "free_frames k' \<subseteq> free_frames k" "set (frames pt') \<subseteq> set (frames pt) \<union> free_frames k"
    "pt_tables k' pt' \<subseteq> pt_tables k pt \<union> free_frames k" "kmem.more k' = kmem.more k"
    "card (free_frames k) \<le> card (free_frames k') + 2"
    "\<forall>x. x \<notin> free_frames k \<longrightarrow> x \<notin> pt_tables k pt \<longrightarrow> phys k' x = phys k x"
    using map_one_spec [OF w(3,2) vpn(1) room vpn(2)] by blast
  have pg: "pages k' = pages k" using m(8) by (rule more_pages)
  have live: "h \<notin> free_frames k" if "pages k h \<noteq> None" for h using store_wfD(3) [OF w(1)] that by auto
  have "st_wf (k', pt')"
    using m(2,6,7) store_wf_cong [OF w(1) m(3) pg m(5)] w(4,5) live pg unfolding st_wf_def by auto
  moreover have "phys k' h = phys k h" if "pages k h \<noteq> None" for h using m(10) live w(4) that by blast
  ultimately show ?thesis using m pg by blast
qed

lemma st_unmap:
  assumes wf: "st_wf (k, pt)" and vpn: "vpn_ok vpn"
  shows "\<exists>k'. unmap vpn k pt = Some k' \<and> st_wf (k', pt) \<and> pages k' = pages k \<and> free_frames k' = free_frames k \<and>
    (\<forall>w. vpn_ok w \<longrightarrow> pt_view k' pt w = (if w = vpn then None else pt_view k pt w)) \<and>
    (\<forall>h. pages k h \<noteq> None \<longrightarrow> phys k' h = phys k h)"
proof -
  note w = st_wfD [OF wf]
  obtain k' where m: "unmap vpn k pt = Some k'" "pt_wf k' pt" "frames_wf k'"
    "\<forall>w. vpn_ok w \<longrightarrow> pt_view k' pt w = (if w = vpn then None else pt_view k pt w)"
    "free_frames k' = free_frames k" "pt_tables k' pt = pt_tables k pt" "kmem.more k' = kmem.more k"
    "\<forall>x. x \<notin> pt_tables k pt \<longrightarrow> phys k' x = phys k x"
    using unmap_spec [OF w(3,2) vpn] by blast
  have pg: "pages k' = pages k" using m(7) by (rule more_pages)
  have "st_wf (k', pt)"
    using m(2,6) store_wf_cong [OF w(1) m(3) pg] m(5) w(4,5) pg unfolding st_wf_def by auto
  then show ?thesis using m pg w(4) by blast
qed

lemma st_page_new:
  assumes wf: "st_wf (k, pt)" and ne: "free_frames k \<noteq> {}"
  shows "\<exists>k' h. page_new per k = Some (k', h) \<and> st_wf (k', pt) \<and> pt_view k' pt = pt_view k pt \<and>
    pages k' = (pages k)(h \<mapsto> (\<lparr>permission = per, disk_file = None, cow_count = 0\<rparr>, 1)) \<and> pages k h = None \<and>
    h \<in> free_frames k \<and> free_frames k' = free_frames k - {h} \<and> phys k' = (phys k)(h := \<lambda>_. 0)"
proof -
  note w = st_wfD [OF wf]
  obtain k' h where p: "page_new per k = Some (k', h)" "store_wf k'" "h \<in> free_frames k"
    "free_frames k' = free_frames k - {h}"
    "pages k' = (pages k)(h \<mapsto> (\<lparr>permission = per, disk_file = None, cow_count = 0\<rparr>, 1))"
    "phys k' = (phys k)(h := \<lambda>_. 0)" "pages k h = None"
    using page_new_spec [OF w(1) ne] by blast
  have h: "h \<notin> pt_tables k pt" "h \<notin> set (frames pt)"
    using tables_in_use [OF w(3)] pt_wfD(7) [OF w(3)] p(3) by blast+
  have same: "phys k' q = phys k q" if "q \<in> pt_tables k pt" for q using p(6) h that by auto
  have view: "pt_view k' pt = pt_view k pt" and tabs: "pt_tables k' pt = pt_tables k pt"
    using pt_cong(1,2) [of k pt k'] same by blast+
  have "free_frames k' \<inter> (pt_tables k pt \<union> set (frames pt)) = {}"
    using tables_in_use [OF w(3)] pt_wfD(7) [OF w(3)] p(4) by blast
  then have "pt_wf k' pt" using pt_cong(3) [of k pt k'] same w(3) by blast
  then have "st_wf (k', pt)" using p(2,5) tabs w(4,5) h unfolding st_wf_def by auto
  then show ?thesis using p view by blast
qed

lemma st_arc_drop:
  assumes wf: "st_wf (k, pt)" and h: "pages k h = Some (p, n)"
  shows "\<exists>k'. arc_drop h k = Some k' \<and> st_wf (k', pt) \<and> pt_view k' pt = pt_view k pt \<and> phys k' = phys k \<and>
    pages k' = (pages k)(h := (if n = 1 then None else Some (p, n - 1))) \<and>
    free_frames k' = (if n = 1 then insert h (free_frames k) else free_frames k)"
proof -
  note w = st_wfD [OF wf]
  obtain k' where d: "arc_drop h k = Some k'" "store_wf k'" "phys k' = phys k"
    "if n = 1 then pages k' = (pages k)(h := None) \<and> free_frames k' = insert h (free_frames k)
     else pages k' = (pages k)(h \<mapsto> (p, n - 1)) \<and> free_frames k' = free_frames k"
    using arc_drop_spec [OF w(1) h] by blast
  have out: "h \<notin> pt_tables k pt" "h \<notin> set (frames pt)" using w(4,5) h by auto
  have view: "pt_view k' pt = pt_view k pt" and tabs: "pt_tables k' pt = pt_tables k pt"
    using pt_cong(1,2) [of k pt k'] d(3) by simp_all
  have "free_frames k' \<inter> (pt_tables k pt \<union> set (frames pt)) = {}"
    using tables_in_use [OF w(3)] pt_wfD(7) [OF w(3)] d(4) out by (auto split: if_splits)
  then have "pt_wf k' pt" using pt_cong(3) [of k pt k'] d(3) w(3) by simp
  then have "st_wf (k', pt)" using d tabs w(4,5) out unfolding st_wf_def by (auto split: if_splits)
  then show ?thesis using d view by (auto split: if_splits)
qed


section \<open>Mapping an area\<close>

lemma vma_ownD:
  assumes "vma_own v k"
  shows "bt_wf (page_manager (pma v))" "\<And>a h. bt_get (page_manager (pma v)) a = Some h \<Longrightarrow> pages k h \<noteq> None"
    "\<And>a b h. bt_get (page_manager (pma v)) a = Some h \<Longrightarrow> bt_get (page_manager (pma v)) b = Some h \<Longrightarrow> a = b"
  using assms unfolding vma_own_def by blast+

abbreviation page_at :: "vma \<Rightarrow> usize \<Rightarrow> usize option" where
  "page_at v \<equiv> bt_get (page_manager (pma v))"

text \<open>Two areas that differ in their pages only.\<close>

definition same_area :: "vma \<Rightarrow> vma \<Rightarrow> bool" where
  "same_area v v' \<longleftrightarrow> v' = v\<lparr>pma := pma v'\<rparr> \<and> backen_file (pma v') = backen_file (pma v)"

lemma same_areaD:
  assumes "same_area v v'"
  shows "start_vaddr v' = start_vaddr v" "end_vaddr v' = end_vaddr v" "map_permission v' = map_permission v"
    "map_type v' = map_type v"
  using assms unfolding same_area_def by (cases v; cases v'; simp)+

text \<open>A fresh page entered into the pages of an area and mapped at an unmapped page, with any permissions.\<close>

lemma fresh_page_mapped:
  assumes wf: "st_wf (k, pt)" and own: "vma_own v k"
    and vpn: "vpn_ok vpn" "pt_view k pt vpn = None" "page_at v vpn = None" and room: "3 \<le> card (free_frames k)"
  shows "\<exists>k1 k' pt' h m. page_new per k = Some (k1, h) \<and> push_pma_page vpn h (pma v) k1 = Some (m, k1) \<and>
    map_one vpn h flags k1 pt = Some (k', pt') \<and> st_wf (k', pt') \<and> vma_own (v\<lparr>pma := m\<rparr>) k' \<and>
    same_area v (v\<lparr>pma := m\<rparr>) \<and> bt_get (page_manager m) = (page_at v)(vpn \<mapsto> h) \<and> pages k h = None \<and>
    pages k' = (pages k)(h \<mapsto> (\<lparr>permission = per, disk_file = None, cow_count = 0\<rparr>, 1)) \<and>
    phys k' h = (\<lambda>_. 0) \<and> (\<forall>p. pages k p \<noteq> None \<longrightarrow> phys k' p = phys k p) \<and>
    (\<forall>w. vpn_ok w \<longrightarrow> pt_view k' pt' w =
       (if w = vpn then Some (pte_new h (flags OR PTE_A OR PTE_D OR PTE_V)) else pt_view k pt w)) \<and>
    card (free_frames k) \<le> card (free_frames k') + 3"
proof -
  have ne: "free_frames k \<noteq> {}" and fin: "finite (free_frames k)" using room by (auto intro: card_ge_0_finite)
  obtain k1 h where n: "page_new per k = Some (k1, h)" "st_wf (k1, pt)" "pt_view k1 pt = pt_view k pt"
    "pages k1 = (pages k)(h \<mapsto> (\<lparr>permission = per, disk_file = None, cow_count = 0\<rparr>, 1))" "pages k h = None"
    "h \<in> free_frames k" "free_frames k1 = free_frames k - {h}" "phys k1 = (phys k)(h := \<lambda>_. 0)"
    using st_page_new [OF wf ne, of per] by blast
  have c1: "card (free_frames k1) = card (free_frames k) - 1" using n(6,7) fin by simp
  then have "2 \<le> card (free_frames k1)" using room by linarith
  then obtain k2 pt' where m: "map_one vpn h flags k1 pt = Some (k2, pt')" "st_wf (k2, pt')"
    "pages k2 = pages k1" "\<forall>w. vpn_ok w \<longrightarrow> pt_view k2 pt' w =
       (if w = vpn then Some (pte_new h (flags OR PTE_A OR PTE_D OR PTE_V)) else pt_view k1 pt w)"
    "card (free_frames k1) \<le> card (free_frames k2) + 2" "\<forall>p. pages k1 p \<noteq> None \<longrightarrow> phys k2 p = phys k1 p"
    using st_map_one [OF n(2) vpn(1), of h flags] vpn(2) n(3) by (metis (no_types, lifting))
  let ?m = "(pma v)\<lparr>page_manager := bt_insert vpn h (page_manager (pma v))\<rparr>"
  have bt: "bt_wf (page_manager (pma v))" and at: "bt_get (bt_insert vpn h (page_manager (pma v))) = (page_at v)(vpn \<mapsto> h)"
    using vma_ownD(1) [OF own] by auto
  have h': "page_at v a \<noteq> Some h" for a using vma_ownD(2) [OF own] n(5) by blast
  have "vma_own (v\<lparr>pma := ?m\<rparr>) k2"
    unfolding vma_own_def using bt at h' vma_ownD(2,3) [OF own] m(3) n(4) by auto
  moreover have "push_pma_page vpn h (pma v) k1 = Some (?m, k1)" using vpn(3) by (simp add: push_pma_page_def)
  moreover have "\<forall>p. pages k p \<noteq> None \<longrightarrow> phys k2 p = phys k p"
  proof (intro allI impI)
    fix p assume "pages k p \<noteq> None"
    then have "p \<noteq> h" "pages k1 p \<noteq> None" using n(4,5) by auto
    then show "phys k2 p = phys k p" using m(6) n(8) by simp
  qed
  moreover have "phys k2 h = (\<lambda>_. 0)" using m(6) n(4,8) by simp
  moreover have "card (free_frames k) \<le> card (free_frames k2) + 3" using c1 m(5) by linarith
  moreover have "bt_get (page_manager ?m) = (page_at v)(vpn \<mapsto> h)" using at by simp
  moreover have "pages k2 = (pages k)(h \<mapsto> (\<lparr>permission = per, disk_file = None, cow_count = 0\<rparr>, 1))" using m(3) n(4) by simp
  moreover have "\<forall>w. vpn_ok w \<longrightarrow> pt_view k2 pt' w =
      (if w = vpn then Some (pte_new h (flags OR PTE_A OR PTE_D OR PTE_V)) else pt_view k pt w)" using m(4) n(3) by simp
  moreover have "same_area v (v\<lparr>pma := ?m\<rparr>)" by (simp add: same_area_def)
  ultimately show ?thesis using n(1,5) m(1,2)
    by - (rule exI [of _ k1], rule exI [of _ k2], intro exI [of _ pt'] exI [of _ h] exI [of _ ?m] conjI; assumption)
qed

lemma vma_map_one_fresh:
  assumes wf: "st_wf (k, pt)" and own: "vma_own v k" and framed: "map_type v = Framed"
    and vpn: "vpn_ok vpn" "pt_view k pt vpn = None" "page_at v vpn = None" and room: "3 \<le> card (free_frames k)"
  shows "\<exists>v' k' pt' h. vma_map_one vpn None v (k, pt) = Some (v', (k', pt'), h) \<and> st_wf (k', pt') \<and> vma_own v' k' \<and>
    same_area v v' \<and> page_at v' = (page_at v)(vpn \<mapsto> h) \<and> pages k h = None \<and>
    pages k' = (pages k)(h \<mapsto> (\<lparr>permission = page_permission_of_map (map_permission v), disk_file = None, cow_count = 0\<rparr>, 1)) \<and>
    phys k' h = (\<lambda>_. 0) \<and> (\<forall>p. pages k p \<noteq> None \<longrightarrow> phys k' p = phys k p) \<and>
    (\<forall>w. vpn_ok w \<longrightarrow> pt_view k' pt' w =
       (if w = vpn then Some (pte_new h (pte_flags_of_map (map_permission v) OR PTE_A OR PTE_D OR PTE_V)) else pt_view k pt w)) \<and>
    card (free_frames k) \<le> card (free_frames k') + 3"
proof -
  let ?per = "page_permission_of_map (map_permission v)" and ?fl = "pte_flags_of_map (map_permission v)"
  obtain k1 k' pt' h m where n: "page_new ?per k = Some (k1, h)" "push_pma_page vpn h (pma v) k1 = Some (m, k1)"
      "map_one vpn h ?fl k1 pt = Some (k', pt')"
    and r: "st_wf (k', pt') \<and> vma_own (v\<lparr>pma := m\<rparr>) k' \<and>
      same_area v (v\<lparr>pma := m\<rparr>) \<and> bt_get (page_manager m) = (page_at v)(vpn \<mapsto> h) \<and> pages k h = None \<and>
      pages k' = (pages k)(h \<mapsto> (\<lparr>permission = ?per, disk_file = None, cow_count = 0\<rparr>, 1)) \<and>
      phys k' h = (\<lambda>_. 0) \<and> (\<forall>p. pages k p \<noteq> None \<longrightarrow> phys k' p = phys k p) \<and>
      (\<forall>w. vpn_ok w \<longrightarrow> pt_view k' pt' w =
         (if w = vpn then Some (pte_new h (?fl OR PTE_A OR PTE_D OR PTE_V)) else pt_view k pt w)) \<and>
      card (free_frames k) \<le> card (free_frames k') + 3"
    using fresh_page_mapped [OF wf own vpn room, of ?per ?fl] by (elim exE conjE) (rule that; simp)
  have "vma_map_one vpn None v (k, pt) = Some (v\<lparr>pma := m\<rparr>, (k', pt'), h)"
    using framed n by (simp add: vma_map_one_def)
  then show ?thesis using r by (intro exI [of _ "v\<lparr>pma := m\<rparr>"] exI [of _ k'] exI [of _ pt'] exI [of _ h] conjI) simp_all
qed

lemma set_vpns: "set (vpns a b) = {w. a \<le> w \<and> w < b}"
proof -
  have "w \<in> of_nat ` {unat a..<unat b}" if "a \<le> w" "w < b" for w
    using that by (intro image_eqI [of _ _ "unat w"]) (simp_all add: word_le_nat_alt word_less_nat_alt)
  moreover have "a \<le> of_nat n \<and> of_nat n < b" if "unat a \<le> n" "n < unat b" for n
  proof -
    have "n < 2 ^ 64" using that(2) unat_u64 [of b] by linarith
    then show ?thesis using that by (simp add: word_le_nat_alt word_less_nat_alt unat_of_nat take_bit_nat_eq_self)
  qed
  ultimately show ?thesis by (auto simp: vpns_def)
qed

lemma distinct_vpns: "distinct (vpns a b)"
proof -
  have "inj_on (of_nat :: nat \<Rightarrow> usize) {unat a..<unat b}"
  proof (rule inj_onI)
    fix x y assume xy: "x \<in> {unat a..<unat b}" "y \<in> {unat a..<unat b}" and eq: "of_nat x = (of_nat y :: usize)"
    have "x < 2 ^ 64" "y < 2 ^ 64" using xy unat_u64 [of b] by auto
    then show "x = y" using arg_cong [OF eq, of unat] by (simp add: unat_of_nat take_bit_nat_eq_self)
  qed
  then show ?thesis by (simp add: vpns_def distinct_map)
qed

definition mapped_upto :: "vma \<Rightarrow> pstate \<Rightarrow> usize list \<Rightarrow> vma \<times> pstate \<Rightarrow> bool" where
  "mapped_upto v st ys s = (case s of (v', st') \<Rightarrow>
     st_wf st' \<and> vma_own v' (fst st') \<and> same_area v v' \<and> dom (page_at v') = set ys \<and>
     card (free_frames (fst st)) \<le> card (free_frames (fst st')) + 3 * length ys \<and>
     (\<forall>p. pages (fst st) p \<noteq> None \<longrightarrow> pages (fst st') p = pages (fst st) p \<and> phys (fst st') p = phys (fst st) p) \<and>
     (\<forall>w. vpn_ok w \<longrightarrow> w \<notin> set ys \<longrightarrow> view st' w = view st w) \<and>
     (\<forall>w \<in> set ys. \<exists>h. page_at v' w = Some h \<and> pages (fst st) h = None \<and> phys (fst st') h = (\<lambda>_. 0) \<and>
        pages (fst st') h = Some (\<lparr>permission = page_permission_of_map (map_permission v), disk_file = None, cow_count = 0\<rparr>, 1) \<and>
        view st' w = Some (pte_new h (pte_flags_of_map (map_permission v) OR PTE_A OR PTE_D OR PTE_V))))"

lemma mapped_upto_step:
  assumes u: "mapped_upto v st ys (v1, st1)" and x: "x \<notin> set ys" "vpn_ok x" "view st x = None"
    and ys: "\<forall>y \<in> set ys. vpn_ok y" and framed: "map_type v = Framed"
    and room: "3 * length ys + 3 \<le> card (free_frames (fst st))"
  shows "\<exists>v2 st2 h. vma_map_one x None v1 st1 = Some (v2, st2, h) \<and> mapped_upto v st (ys @ [x]) (v2, st2)"
proof -
  obtain k1 pt1 where st1: "st1 = (k1, pt1)" by (cases st1)
  note u' = u [unfolded mapped_upto_def st1 prod.case fst_conv snd_conv]
  have sa: "same_area v v1" using u' by blast
  have "map_type v1 = Framed" using same_areaD(4) [OF sa] framed by simp
  moreover have "pt_view k1 pt1 x = None" "page_at v1 x = None" "3 \<le> card (free_frames k1)" using u' x room by auto
  ultimately obtain v2 k2 pt2 h where m: "vma_map_one x None v1 (k1, pt1) = Some (v2, (k2, pt2), h)" "st_wf (k2, pt2)"
    "vma_own v2 k2" "same_area v1 v2" "page_at v2 = (page_at v1)(x \<mapsto> h)" "pages k1 h = None"
    "pages k2 = (pages k1)(h \<mapsto> (\<lparr>permission = page_permission_of_map (map_permission v1), disk_file = None, cow_count = 0\<rparr>, 1))"
    "phys k2 h = (\<lambda>_. 0)" "\<forall>p. pages k1 p \<noteq> None \<longrightarrow> phys k2 p = phys k1 p"
    "\<forall>w. vpn_ok w \<longrightarrow> pt_view k2 pt2 w =
       (if w = x then Some (pte_new h (pte_flags_of_map (map_permission v1) OR PTE_A OR PTE_D OR PTE_V)) else pt_view k1 pt1 w)"
    "card (free_frames k1) \<le> card (free_frames k2) + 3"
    using vma_map_one_fresh [of k1 pt1 v1 x] u' x(2) by blast
  have h: "pages (fst st) h = None" using u' m(6) by (metis)
  have old: "pages k2 p = pages (fst st) p \<and> phys k2 p = phys (fst st) p" if "pages (fst st) p \<noteq> None" for p
    using u' m(7,9) h that by (metis fun_upd_other)
  have "same_area v v2" using sa m(4) unfolding same_area_def by (metis vma.surjective vma.update_convs(1) vma.select_convs)
  moreover have "\<exists>h. page_at v2 w = Some h \<and> pages (fst st) h = None \<and> phys k2 h = (\<lambda>_. 0) \<and>
        pages k2 h = Some (\<lparr>permission = page_permission_of_map (map_permission v), disk_file = None, cow_count = 0\<rparr>, 1) \<and>
        pt_view k2 pt2 w = Some (pte_new h (pte_flags_of_map (map_permission v) OR PTE_A OR PTE_D OR PTE_V))"
    if w: "w \<in> set (ys @ [x])" for w
  proof (cases "w = x")
    case True
    then show ?thesis using m h x(2) same_areaD(3) [OF sa] by (intro exI [of _ h]) simp
  next
    case False
    then have wy: "w \<in> set ys" using w by simp
    then obtain q where q: "page_at v1 w = Some q" "pages (fst st) q = None" "phys k1 q = (\<lambda>_. 0)"
      "pages k1 q = Some (\<lparr>permission = page_permission_of_map (map_permission v), disk_file = None, cow_count = 0\<rparr>, 1)"
      "pt_view k1 pt1 w = Some (pte_new q (pte_flags_of_map (map_permission v) OR PTE_A OR PTE_D OR PTE_V))"
      using u' by blast
    have "q \<noteq> h" using q(4) m(6) by auto
    then show ?thesis using q m False wy ys by (intro exI [of _ q]) simp
  qed
  ultimately have "mapped_upto v st (ys @ [x]) (v2, k2, pt2)"
    unfolding mapped_upto_def using u' m(2,3,5,7,8,10,11) old x(2) h same_areaD(3) [OF sa] by simp
  then show ?thesis using m(1) st1 by blast
qed


section \<open>Removing and splitting an area\<close>

definition cut_pages :: "vma \<Rightarrow> pmem \<Rightarrow> page_table \<Rightarrow> usize set \<Rightarrow> vma \<Rightarrow> pmem \<Rightarrow> bool" where
  "cut_pages v k pt C v' k' \<longleftrightarrow>
     st_wf (k', pt) \<and> vma_own v' k' \<and> same_area v v' \<and> page_at v' = page_at v |` (- C) \<and>
     (\<forall>w. vpn_ok w \<longrightarrow> pt_view k' pt w = (if w \<in> C then None else pt_view k pt w)) \<and>
     free_frames k \<subseteq> free_frames k' \<and>
     (\<forall>a \<in> C. \<forall>h p. page_at v a = Some h \<longrightarrow> pages k h = Some (p, 1) \<longrightarrow> h \<in> free_frames k') \<and>
     (\<forall>q. (\<forall>a \<in> C. page_at v a \<noteq> Some q) \<longrightarrow> pages k' q = pages k q) \<and>
     (\<forall>q. pages k' q \<noteq> None \<longrightarrow> pages k q \<noteq> None \<and> phys k' q = phys k q)"

lemma cut_pages_refl: "st_wf (k, pt) \<Longrightarrow> vma_own v k \<Longrightarrow> cut_pages v k pt {} v k"
  by (auto simp: cut_pages_def same_area_def restrict_map_def)

lemma same_area_trans: "same_area v v1 \<Longrightarrow> same_area v1 v2 \<Longrightarrow> same_area v v2"
  by (cases v; cases v1; cases v2) (simp add: same_area_def)

lemma st_vma_unmap:
  assumes wf: "st_wf (k, pt)" and own: "vma_own v k" and framed: "map_type v = Framed" and vpn: "vpn_ok vpn"
  shows "\<exists>v' k'. vma_unmap vpn (v, k, pt) = Some (v', k', pt) \<and> cut_pages v k pt {vpn} v' k'"
proof (cases "page_at v vpn")
  case None
  obtain k' where u: "unmap vpn k pt = Some k'" "st_wf (k', pt)" "pages k' = pages k" "free_frames k' = free_frames k"
    "\<forall>w. vpn_ok w \<longrightarrow> pt_view k' pt w = (if w = vpn then None else pt_view k pt w)"
    "\<forall>h. pages k h \<noteq> None \<longrightarrow> phys k' h = phys k h" using st_unmap [OF wf vpn] by blast
  have "vma_unmap vpn (v, k, pt) = Some (v, k', pt)" using None u(1) framed by (simp add: vma_unmap_def pop_pma_page_def)
  moreover have "page_at v = page_at v |` (- {vpn})" using None by (auto simp: restrict_map_def)
  ultimately show ?thesis using u own None
    by (intro exI [of _ v] exI [of _ k']) (simp add: cut_pages_def same_area_def vma_own_def)
next
  case (Some h)
  then obtain p n where h: "pages k h = Some (p, n)" using vma_ownD(2) [OF own] by fastforce
  obtain k1 where d: "arc_drop h k = Some k1" "st_wf (k1, pt)" "pt_view k1 pt = pt_view k pt" "phys k1 = phys k"
    "pages k1 = (pages k)(h := (if n = 1 then None else Some (p, n - 1)))"
    "free_frames k1 = (if n = 1 then insert h (free_frames k) else free_frames k)"
    using st_arc_drop [OF wf h] by blast
  obtain k' where u: "unmap vpn k1 pt = Some k'" "st_wf (k', pt)" "pages k' = pages k1" "free_frames k' = free_frames k1"
    "\<forall>w. vpn_ok w \<longrightarrow> pt_view k' pt w = (if w = vpn then None else pt_view k1 pt w)"
    "\<forall>h. pages k1 h \<noteq> None \<longrightarrow> phys k' h = phys k1 h" using st_unmap [OF d(2) vpn] by blast
  let ?v = "v\<lparr>pma := (pma v)\<lparr>page_manager := bt_remove vpn (page_manager (pma v))\<rparr>\<rparr>"
  have at: "page_at ?v = page_at v |` (- {vpn})" by (auto simp: restrict_map_def)
  have other: "a = vpn" if "page_at v a = Some h" for a using vma_ownD(3) [OF own that Some] .
  have "vma_own ?v k'" unfolding vma_own_def at
    using vma_ownD [OF own] other d(5) u(3) by (auto simp: restrict_map_def split: if_splits)
  moreover have "vma_unmap vpn (v, k, pt) = Some (?v, k', pt)"
    using Some d(1) u(1) framed by (simp add: vma_unmap_def pop_pma_page_def)
  moreover have "pages k q \<noteq> None \<and> phys k' q = phys k q" if "pages k' q \<noteq> None" for q
    using that u(3,6) d(4,5) h by (auto split: if_splits)
  ultimately show ?thesis using u(2-5) d(3,5,6) Some h at
    by (intro exI [of _ ?v] exI [of _ k']) (auto simp: cut_pages_def same_area_def)
qed

lemma cut_pages_trans:
  assumes c: "cut_pages v k pt C v1 k1" and d: "cut_pages v1 k1 pt {x} v2 k2" and x: "x \<notin> C"
    and inj: "vma_own v k"
  shows "cut_pages v k pt (insert x C) v2 k2"
proof -
  note c' = c [unfolded cut_pages_def] and d' = d [unfolded cut_pages_def]
  have at1: "page_at v1 x = page_at v x" using c' x by (simp add: restrict_map_def)
  have "page_at v2 = page_at v |` (- insert x C)" using c' d' by (auto simp: restrict_map_def fun_eq_iff)
  moreover have "same_area v v2" using c' d' same_area_trans by blast
  moreover have "h \<in> free_frames k2" if a: "a \<in> insert x C" "page_at v a = Some h" "pages k h = Some (p, 1)" for a h p
  proof (cases "a = x")
    case True
    have "page_at v b \<noteq> Some h" if "b \<in> C" for b using vma_ownD(3) [OF inj a(2)] True x that by auto
    then have "pages k1 h = Some (p, 1)" using c' a(3) by simp
    moreover have "page_at v1 x = Some h" using at1 True a(2) by simp
    ultimately show ?thesis using d' by simp
  next
    case False
    then show ?thesis using a c' d' by blast
  qed
  moreover have "pages k2 q = pages k q" if "\<forall>a \<in> insert x C. page_at v a \<noteq> Some q" for q
    using that c' d' at1 by auto
  moreover have "pages k q \<noteq> None \<and> phys k2 q = phys k q" if "pages k2 q \<noteq> None" for q
    using c' d' that by auto
  ultimately show ?thesis unfolding cut_pages_def using c' d' by auto
qed

lemma vma_remove_spec:
  assumes wf: "st_wf (k, pt)" and own: "vma_own v k" and framed: "map_type v = Framed"
    and r: "vma_range v = Some r" and ok: "\<forall>vpn \<in> set r. vpn_ok vpn"
  shows "\<exists>v' k'. vma_remove v (k, pt) = Some (v', k', pt) \<and> cut_pages v k pt (set r) v' k'"
proof -
  obtain a b where ab: "virt_to_vpn (start_vaddr v) = Some a" "virt_to_vpn (end_vaddr v) = Some b" "r = vpns a b"
    using r by (auto simp: vma_range_def panic_simps)
  let ?P = "\<lambda>ys s. \<exists>v' k'. s = (v', k', pt) \<and> cut_pages v k pt (set ys) v' k'"
  have "\<exists>t. foldM vma_unmap r (v, k, pt) = Some t \<and> ?P r t"
  proof (rule foldM_done [where P = ?P])
    show "?P [] (v, k, pt)" using cut_pages_refl [OF wf own] by simp
    fix ys x zs s assume split: "r = ys @ x # zs" and u: "?P ys s"
    from u obtain v1 k1 where s: "s = (v1, k1, pt)" and c: "cut_pages v k pt (set ys) v1 k1" by blast
    note c' = c [unfolded cut_pages_def]
    have sa: "same_area v v1" using c' by blast
    have "map_type v1 = Framed" using same_areaD(4) [OF sa] framed by simp
    moreover have "vpn_ok x" using ok split by simp
    ultimately obtain v2 k2 where "vma_unmap x (v1, k1, pt) = Some (v2, k2, pt)" "cut_pages v1 k1 pt {x} v2 k2"
      using st_vma_unmap [of k1 pt v1 x] c' by blast
    moreover have "x \<notin> set ys" using distinct_vpns [of a b] split ab by auto
    ultimately show "\<exists>t. vma_unmap x s = Some t \<and> ?P (ys @ [x]) t"
      using cut_pages_trans [OF c _ _ own, of x v2 k2] s by simp
  qed
  then show ?thesis using ab by (auto simp: vma_remove_def)
qed

definition aligned :: "usize \<Rightarrow> bool" where
  "aligned x \<longleftrightarrow> take_bit 12 x = 0"

abbreviation vpn_of :: "usize \<Rightarrow> usize" where
  "vpn_of x \<equiv> drop_bit 12 x"

lemma vpn_mono: "x \<le> y \<Longrightarrow> vpn_of x \<le> vpn_of y"
  by (simp add: word_le_nat_alt unat_drop_12 div_le_mono)

lemma aligned_less: "aligned x \<Longrightarrow> aligned y \<Longrightarrow> x < y \<longleftrightarrow> vpn_of x < vpn_of y"
proof -
  assume "aligned x" "aligned y"
  then have "unat x mod 4096 = 0" "unat y mod 4096 = 0" unfolding aligned_def using unat_take_12 by (metis unat_0)+
  then have "unat x = 4096 * (unat x div 4096)" "unat y = 4096 * (unat y div 4096)" by auto
  then show ?thesis unfolding word_less_nat_alt unat_drop_12 by linarith
qed

lemma aligned_le: "aligned x \<Longrightarrow> aligned y \<Longrightarrow> x \<le> y \<longleftrightarrow> vpn_of x \<le> vpn_of y"
  using aligned_less [of y x] by (simp add: not_less [symmetric])

lemma aligned_push [simp]: "aligned (push_bit 12 y)"
  by (auto simp: aligned_def bit_simps intro!: bit_word_eqI)

lemma align_aligned: "align_down x = Some s \<Longrightarrow> aligned s" "align_up x = Some e \<Longrightarrow> aligned e"
  using align_down_eq [of x] align_up_eq [of x]
  by (cases "user_va x"; simp add: align_down_def align_up_def check_user_va_def; metis aligned_push)+

text \<open>
  An area in user space with all its pages: its ends are aligned, below 4 GiB, and every page of it is allocated.
\<close>

definition area_ok :: "vma \<Rightarrow> pmem \<Rightarrow> bool" where
  "area_ok v k \<longleftrightarrow> vma_own v k \<and> map_type v = Framed \<and> aligned (start_vaddr v) \<and> aligned (end_vaddr v) \<and>
     start_vaddr v \<le> end_vaddr v \<and> unat (end_vaddr v) < 2 ^ 32 \<and>
     dom (page_at v) = set (vpns (vpn_of (start_vaddr v)) (vpn_of (end_vaddr v)))"

lemma low_user_va: "unat x < 2 ^ 32 \<Longrightarrow> user_va x"
  by (simp add: user_va_low)

lemma virt_to_vpn_low: "unat x < 2 ^ 32 \<Longrightarrow> virt_to_vpn x = Some (vpn_of x)"
  using low_user_va [of x] by (simp add: virt_to_vpn_def check_user_va_def mm_consts)

lemma vpns_ok:
  assumes "unat e < 2 ^ 32" "w \<in> set (vpns a (vpn_of e))" shows "vpn_ok w"
proof -
  have "unat w < unat e div 4096" using assms(2) by (simp add: set_vpns word_less_nat_alt unat_drop_12)
  moreover have "unat e div 4096 < 2 ^ 20" by (rule less_mult_imp_div_less) (use assms(1) in simp)
  ultimately have w: "unat w < 2 ^ 20" by linarith
  then have "unat (push_bit 12 w) < 2 ^ 32" using unat_push_12 [of w] by simp
  moreover have "drop_bit 12 (push_bit 12 w) = w" using w unat_push_12 [of w] by (simp add: word_unat_eq_iff unat_drop_12)
  ultimately show ?thesis by (simp add: vpn_ok_def low_user_va)
qed

lemma area_range: "area_ok v k \<Longrightarrow> vma_range v = Some (vpns (vpn_of (start_vaddr v)) (vpn_of (end_vaddr v)))"
  unfolding area_ok_def vma_range_def
  using virt_to_vpn_low [of "start_vaddr v"] virt_to_vpn_low [of "end_vaddr v"] by (simp add: word_le_nat_alt)

lemma split_loop:
  assumes "bt_wf (page_manager m)" "bt_wf right" "distinct l" "\<forall>w \<in> set l. bt_get right w = None"
  shows "set l \<subseteq> dom (bt_get (page_manager m)) \<Longrightarrow>
    \<exists>m' right'. foldM (\<lambda>vpn (m, right). do { h \<leftarrow> bt_get (page_manager m) vpn;
           Some (m\<lparr>page_manager := bt_remove vpn (page_manager m)\<rparr>, bt_insert vpn h right) }) l (m, right) = Some (m', right') \<and>
      bt_wf (page_manager m') \<and> bt_wf right' \<and> backen_file m' = backen_file m \<and>
      bt_get (page_manager m') = bt_get (page_manager m) |` (- set l) \<and>
      bt_get right' = bt_get right ++ (bt_get (page_manager m) |` set l)"
    "\<not> set l \<subseteq> dom (bt_get (page_manager m)) \<Longrightarrow>
      foldM (\<lambda>vpn (m, right). do { h \<leftarrow> bt_get (page_manager m) vpn;
           Some (m\<lparr>page_manager := bt_remove vpn (page_manager m)\<rparr>, bt_insert vpn h right) }) l (m, right) = None"
  using assms
proof (induction l arbitrary: m right)
  case Nil
  { case 1 then show ?case by (simp add: restrict_map_def fun_eq_iff map_add_def) }
  { case 2 then show ?case by simp }
next
  case (Cons x l)
  { case 1
    let ?m = "m\<lparr>page_manager := bt_remove x (page_manager m)\<rparr>"
    from 1 obtain h where h: "bt_get (page_manager m) x = Some h" by auto
    have sub: "set l \<subseteq> dom (bt_get (page_manager m))" and xl: "x \<notin> set l" using 1 by simp_all
    have "w \<in> dom (bt_get (page_manager ?m))" if "w \<in> set l" for w
      using subsetD [OF sub that] xl that by (cases "w = x") (simp_all add: domIff)
    then have sub': "set l \<subseteq> dom (bt_get (page_manager ?m))" by blast
    have pre: "bt_wf (page_manager ?m)" "bt_wf (bt_insert x h right)" "distinct l"
      "\<forall>w \<in> set l. bt_get (bt_insert x h right) w = None" using 1 by auto
    from Cons.IH(1) [OF sub' pre] obtain m' right' where IH: "foldM (\<lambda>vpn (m, right). do { h \<leftarrow> bt_get (page_manager m) vpn;
           Some (m\<lparr>page_manager := bt_remove vpn (page_manager m)\<rparr>, bt_insert vpn h right) }) l (?m, bt_insert x h right) = Some (m', right')"
      "bt_wf (page_manager m')" "bt_wf right'" "backen_file m' = backen_file ?m"
      "bt_get (page_manager m') = bt_get (page_manager ?m) |` (- set l)"
      "bt_get right' = bt_get (bt_insert x h right) ++ (bt_get (page_manager ?m) |` set l)"
      by (elim exE conjE)
    have "bt_get (page_manager m') = bt_get (page_manager m) |` (- set (x # l))"
      using IH(5) by (auto simp: restrict_map_def fun_eq_iff)
    moreover have "bt_get right' = bt_get right ++ (bt_get (page_manager m) |` set (x # l))"
      using IH(6) 1 h by (auto simp: restrict_map_def map_add_def fun_eq_iff split: option.splits)
    ultimately show ?case using IH(1-4) h by simp }
  { case 2
    let ?m = "m\<lparr>page_manager := bt_remove x (page_manager m)\<rparr>"
    show ?case
    proof (cases "bt_get (page_manager m) x")
      case None
      then show ?thesis by simp
    next
      case (Some h)
      obtain w where w: "w \<in> set (x # l)" "bt_get (page_manager m) w = None" using 2(1) by (auto simp: subset_iff domIff)
      then have "w \<in> set l" "w \<notin> dom (bt_get (page_manager ?m))" using Some by (auto simp: domIff)
      then have nsub: "\<not> set l \<subseteq> dom (bt_get (page_manager ?m))" by blast
      have pre: "bt_wf (page_manager ?m)" "bt_wf (bt_insert x h right)" "distinct l"
        "\<forall>w \<in> set l. bt_get (bt_insert x h right) w = None" using 2 by auto
      from Cons.IH(2) [OF nsub pre] show ?thesis using Some by simp
    qed }
qed

lemma vma_split_spec:
  assumes ok: "area_ok v k" and pos: "aligned pos" "start_vaddr v \<le> pos" "pos \<le> end_vaddr v"
  shows "\<exists>l r. vma_split pos v k = Some (l, r, k) \<and> area_ok l k \<and> area_ok r k \<and>
    start_vaddr l = start_vaddr v \<and> end_vaddr l = pos \<and> start_vaddr r = pos \<and> end_vaddr r = end_vaddr v \<and>
    map_permission l = map_permission v \<and> map_permission r = map_permission v \<and>
    page_at l = page_at v |` {w. w < vpn_of pos} \<and> page_at r = page_at v |` {w. vpn_of pos \<le> w}"
proof -
  note o = ok [unfolded area_ok_def]
  let ?a = "vpn_of (start_vaddr v)" and ?p = "vpn_of pos" and ?b = "vpn_of (end_vaddr v)"
  have low: "unat (end_vaddr v) < 2 ^ 32" "unat pos < 2 ^ 32" using o pos(3) by (auto simp: word_le_nat_alt)
  have ord: "?a \<le> ?p" "?p \<le> ?b" using vpn_mono pos by blast+
  have dom: "dom (page_at v) = {w. ?a \<le> w \<and> w < ?b}" using o by (simp add: set_vpns)
  have "set (vpns ?p ?b) \<subseteq> dom (page_at v)" unfolding dom set_vpns using ord(1) by (auto intro: order.trans)
  moreover have "\<forall>w \<in> set (vpns ?p ?b). bt_get ([] :: (usize, usize) btree_map) w = None" by (simp add: bt_get_def)
  ultimately obtain m' right where sp: "foldM (\<lambda>vpn (m, right). do { h \<leftarrow> bt_get (page_manager m) vpn;
           Some (m\<lparr>page_manager := bt_remove vpn (page_manager m)\<rparr>, bt_insert vpn h right) }) (vpns ?p ?b) (pma v, []) = Some (m', right)"
      "bt_wf (page_manager m')" "bt_wf right" "bt_get (page_manager m') = page_at v |` (- set (vpns ?p ?b))"
      "bt_get right = bt_get [] ++ (page_at v |` set (vpns ?p ?b))"
    using split_loop(1) [OF vma_ownD(1) _ distinct_vpns, of v k "[]" ?p ?b] o by auto
  let ?l = "v\<lparr>pma := m', end_vaddr := pos\<rparr>"
  let ?r = "v\<lparr>pma := \<lparr>page_manager = right, backen_file = None\<rparr>, start_vaddr := pos\<rparr>"
  have l: "page_at ?l = page_at v |` {w. w < ?p}"
    using sp(4) dom by (auto simp: restrict_map_def fun_eq_iff set_vpns not_le domIff)
  have r: "page_at ?r = page_at v |` {w. ?p \<le> w}"
    using sp(5) dom by (auto simp: restrict_map_def fun_eq_iff set_vpns map_add_def bt_get_def not_le domIff split: option.splits)
  have "vma_own ?l k" "vma_own ?r k"
    unfolding vma_own_def l r using sp(2,3) vma_ownD [of v k] o by (auto simp: restrict_map_def split: if_splits)
  moreover have "dom (page_at ?l) = set (vpns ?a ?p)" "dom (page_at ?r) = set (vpns ?p ?b)"
    unfolding l r dom_restrict dom set_vpns using ord by auto
  ultimately have "area_ok ?l k" "area_ok ?r k" using o pos low(2) unfolding area_ok_def by simp_all
  moreover have "vma_split pos v k = Some (?l, ?r, k)"
    using sp(1) virt_to_vpn_low low by (simp add: vma_split_def pma_split_def vpns_def)
  ultimately show ?thesis using l r by (intro exI [of _ ?l] exI [of _ ?r]) simp
qed

definition area_vpns :: "vma \<Rightarrow> usize set" where
  "area_vpns v = {w. vpn_of (start_vaddr v) \<le> w \<and> w < vpn_of (end_vaddr v)}"

text \<open>Removing and dropping a part \<open>m\<close> of an area \<open>v\<close>.\<close>

lemma cut_part:
  assumes wf: "st_wf (k, pt)" and v: "vma_own v k" and m: "area_ok m k" and sub: "page_at m \<subseteq>\<^sub>m page_at v"
  shows "\<exists>m' k'. vma_remove m (k, pt) = Some (m', k', pt) \<and> vma_drop m' k' = Some k' \<and> st_wf (k', pt) \<and>
    same_area m m' \<and> page_at m' = Map.empty \<and>
    (\<forall>w. vpn_ok w \<longrightarrow> pt_view k' pt w = (if w \<in> area_vpns m then None else pt_view k pt w)) \<and>
    (\<forall>a \<in> area_vpns m. \<forall>h p. page_at v a = Some h \<longrightarrow> pages k h = Some (p, 1) \<longrightarrow> h \<in> free_frames k') \<and>
    (\<forall>q. (\<forall>a \<in> area_vpns m. page_at v a \<noteq> Some q) \<longrightarrow> pages k' q = pages k q) \<and>
    (\<forall>l. area_ok l k \<longrightarrow> page_at l \<subseteq>\<^sub>m page_at v \<longrightarrow> dom (page_at l) \<inter> area_vpns m = {} \<longrightarrow> area_ok l k')"
proof -
  note o = m [unfolded area_ok_def]
  let ?r = "vpns (vpn_of (start_vaddr m)) (vpn_of (end_vaddr m))"
  have r: "set ?r = area_vpns m" "dom (page_at m) = area_vpns m" using o by (simp_all add: set_vpns area_vpns_def)
  have "\<forall>w \<in> set ?r. vpn_ok w" using vpns_ok o by blast
  then obtain m' k' where c: "vma_remove m (k, pt) = Some (m', k', pt)" "cut_pages m k pt (area_vpns m) m' k'"
    using vma_remove_spec [OF wf _ _ area_range [OF m]] o unfolding r(1) by blast
  note c' = c(2) [unfolded cut_pages_def]
  have at: "page_at v a = page_at m a" if "a \<in> area_vpns m" for a using sub that r(2) by (simp add: map_le_def)
  have empty: "page_at m' = Map.empty" using c' r(2) by (auto simp: restrict_map_def fun_eq_iff domIff)
  then have "page_manager (pma m') = []" by (simp add: bt_get_def)
  then have "vma_drop m' k' = Some k'" by (simp add: vma_drop_def)
  moreover have "area_ok l k'" if l: "area_ok l k" "page_at l \<subseteq>\<^sub>m page_at v" "dom (page_at l) \<inter> area_vpns m = {}" for l
  proof -
    have "pages k' h = pages k h" if h: "page_at l a = Some h" for a h
    proof -
      have va: "page_at v a = Some h" using l(2) h by (auto simp: map_le_def dom_def)
      have "page_at m b \<noteq> Some h" if "b \<in> area_vpns m" for b
        using vma_ownD(3) [OF v va, of b] at that l(3) h by (auto simp: dom_def)
      then show ?thesis using c' by blast
    qed
    then show ?thesis using l(1) unfolding area_ok_def vma_own_def by auto
  qed
  ultimately show ?thesis using c(1) c' empty at by (intro exI [of _ m'] exI [of _ k']) simp
qed

lemma map_self_all_upto:
  assumes wf: "st_wf st" and framed: "map_type v = Framed" and fresh: "pma v = pma_new" and r: "vma_range v = Some r"
    and free: "\<forall>vpn \<in> set r. vpn_ok vpn \<and> view st vpn = None" and room: "3 * length r \<le> card (free_frames (fst st))"
  shows "\<exists>v' st'. map_self_all v st = Some (v', st') \<and> mapped_upto v st r (v', st')"
proof -
  obtain a b where ab: "r = vpns a b" using r by (auto simp: vma_range_def panic_simps)
  have start: "mapped_upto v st [] (v, st)"
    unfolding mapped_upto_def using wf fresh by (auto simp: vma_own_def same_area_def pma_new_def bt_get_def)
  let ?f = "\<lambda>vpn (v, st). map_option (\<lambda>(v', st', _). (v', st')) (vma_map_one vpn None v st)"
  have "\<exists>t. foldM ?f r (v, st) = Some t \<and> mapped_upto v st r t"
  proof (rule foldM_done [where P = "mapped_upto v st"])
    show "mapped_upto v st [] (v, st)" by (rule start)
    fix ys x zs s assume split: "r = ys @ x # zs" and u: "mapped_upto v st ys s"
    obtain v1 st1 where s: "s = (v1, st1)" by (cases s)
    have "x \<notin> set ys" using distinct_vpns [of a b] split ab by auto
    moreover have "3 * length ys + 3 \<le> card (free_frames (fst st))" using room split by simp
    ultimately obtain v2 st2 h where "vma_map_one x None v1 st1 = Some (v2, st2, h)" "mapped_upto v st (ys @ [x]) (v2, st2)"
      using mapped_upto_step [of v st ys v1 st1 x] u s free framed split by auto
    then show "\<exists>t. ?f x s = Some t \<and> mapped_upto v st (ys @ [x]) t" using s by auto
  qed
  then obtain v' st' where "foldM ?f r (v, st) = Some (v', st')" and u: "mapped_upto v st r (v', st')" by auto
  then have "map_self_all v st = Some (v', st')" using r by (simp add: map_self_all_def)
  with u show ?thesis by blast
qed

lemma map_self_all_spec:
  assumes wf: "st_wf st" and framed: "map_type v = Framed" and fresh: "pma v = pma_new" and r: "vma_range v = Some r"
    and free: "\<forall>vpn \<in> set r. vpn_ok vpn \<and> view st vpn = None" and room: "3 * length r \<le> card (free_frames (fst st))"
  shows "\<exists>v' st'. map_self_all v st = Some (v', st') \<and> st_wf st' \<and> vma_own v' (fst st') \<and> same_area v v' \<and>
    dom (page_at v') = set r \<and>
    (\<forall>vpn \<in> set r. \<exists>h. page_at v' vpn = Some h \<and> pages (fst st) h = None \<and> phys (fst st') h = (\<lambda>_. 0) \<and>
       view st' vpn = Some (pte_new h (pte_flags_of_map (map_permission v) OR PTE_A OR PTE_D OR PTE_V))) \<and>
    (\<forall>w. vpn_ok w \<longrightarrow> w \<notin> set r \<longrightarrow> view st' w = view st w) \<and>
    (\<forall>p. pages (fst st) p \<noteq> None \<longrightarrow> pages (fst st') p = pages (fst st) p \<and> phys (fst st') p = phys (fst st) p)"
proof -
  obtain v' st' where m: "map_self_all v st = Some (v', st')" and u: "mapped_upto v st r (v', st')"
    using map_self_all_upto [OF assms] by blast
  note u [unfolded mapped_upto_def prod.case]
  with m show ?thesis by (elim conjE) (intro exI [of _ v'] exI [of _ st'] conjI ballI, simp_all, metis)
qed

text \<open>A memory with an empty table and no pages, right after boot.\<close>

definition boot_st :: pstate where
  "boot_st = the (page_table_new boot_store)"

lemma card_unat_between:
  assumes "b \<le> 2 ^ 64" shows "card {p :: usize. a < unat p \<and> unat p < b} = b - Suc a"
proof -
  have "n \<in> unat ` {p :: usize. a < unat p \<and> unat p < b}" if "a < n" "n < b" for n
    using that assms by (intro image_eqI [of _ _ "of_nat n"]) (simp_all add: unat_of_nat take_bit_nat_eq_self)
  then have im: "unat ` {p :: usize. a < unat p \<and> unat p < b} = {a<..<b}" by auto
  have "inj_on (unat :: usize \<Rightarrow> nat) {p. a < unat p \<and> unat p < b}" by (intro inj_onI) (simp add: word_unat_eq_iff)
  from card_image [OF this] show ?thesis unfolding im by simp
qed

lemma boot_st_wf: "st_wf boot_st" "view boot_st v = None" "1000 \<le> card (free_frames (fst boot_st))" "pages (fst boot_st) = Map.empty"
proof -
  have one: "0x80300 \<in> free_frames boot_store" by (simp add: boot_store_wf boot_mem_wf)
  then have ne: "free_frames boot_store \<noteq> {}" by blast
  note fw = store_wfD(1) [OF boot_store_wf(1)]
  obtain k pt where n: "page_table_new boot_store = Some (k, pt)" "pt_wf k pt" "frames_wf k" "\<forall>v. pt_view k pt v = None"
    "free_frames k = free_frames boot_store - {pt_root pt}"
    using page_table_new_spec [OF fw ne] by blast
  have "pages k = pages boot_store" using n(1) alloc_frame_pages [OF fw] by (auto simp: page_table_new_def panic_simps)
  then have pg: "pages k = Map.empty" by (simp add: boot_store_wf)
  have "card (free_frames boot_mem) = 32000" unfolding boot_mem_wf(2) using card_unat_between [of "0x88000" "0x802ff"] by simp
  then have "31999 \<le> card (free_frames k)"
    unfolding n(5) boot_store_wf using diff_card_le_card_Diff [of "{pt_root pt}" "free_frames boot_mem"] by simp
  moreover have eq: "boot_st = (k, pt)" by (simp add: boot_st_def n(1))
  ultimately show "st_wf boot_st" "view boot_st v = None" "1000 \<le> card (free_frames (fst boot_st))" "pages (fst boot_st) = Map.empty"
    unfolding eq using n(2-5) pg by (simp_all add: st_wf_def store_wf_def)
qed

text \<open>Two pages at \<open>0x1000\<close>, mapped in that memory.\<close>

definition demo_vma :: vma where
  "demo_vma = \<lparr>pma = pma_new, start_vaddr = 0x1000, end_vaddr = 0x3000, map_permission = MP_R OR MP_W OR MP_U,
     vma_type = Mmap, map_type = Framed, page_fault_handler = None\<rparr>"

lemma demo_range: "vma_range demo_vma = Some [1, 2]"
proof -
  have "virt_to_vpn 0x1000 = Some 1" "virt_to_vpn 0x3000 = Some 3"
    by (simp_all add: virt_to_vpn_def check_user_va_def user_va_def mm_consts drop_bit_eq_div)
  then show ?thesis by (simp add: vma_range_def demo_vma_def vpns_def upt_rec)
qed

lemma demo_vpns: "vpn_ok 1" "vpn_ok 2" "vpn_ok 3"
  by (simp_all add: vpn_ok_def user_va_def mm_consts push_bit_eq_mult drop_bit_eq_div)

lemma demo_mapped:
  obtains v k pt where "map_self_all demo_vma boot_st = Some (v, k, pt)" "st_wf (k, pt)" "area_ok v k"
    "start_vaddr v = 0x1000" "end_vaddr v = 0x3000" "pt_view k pt 1 \<noteq> None" "pt_view k pt 2 \<noteq> None"
    "\<And>a h. page_at v a = Some h \<Longrightarrow> \<exists>p. pages k h = Some (p, 1) \<and> disk_file p = None" "map_permission v = MP_R OR MP_W OR MP_U"
proof -
  have "\<exists>v' st'. map_self_all demo_vma boot_st = Some (v', st') \<and> mapped_upto demo_vma boot_st [1, 2] (v', st')"
    using map_self_all_upto [OF boot_st_wf(1) _ _ demo_range] boot_st_wf(2,3) demo_vpns by (simp add: demo_vma_def)
  then obtain v k pt where m: "map_self_all demo_vma boot_st = Some (v, k, pt)" and u: "mapped_upto demo_vma boot_st [1, 2] (v, k, pt)" by auto
  note u' = u [unfolded mapped_upto_def prod.case fst_conv snd_conv]
  note sa = same_areaD [of demo_vma v]
  have b: "start_vaddr v = 0x1000" "end_vaddr v = 0x3000" "map_type v = Framed" "map_permission v = MP_R OR MP_W OR MP_U"
    using sa u' by (simp_all add: demo_vma_def)
  have "vpns 1 3 = [1, 2 :: usize]" by (simp add: vpns_def upt_rec)
  then have "area_ok v k" unfolding area_ok_def b using u' b(3) by (simp add: aligned_def take_bit_eq_mod drop_bit_eq_div)
  moreover have "\<exists>p. pages k h = Some (p, 1) \<and> disk_file p = None" if "page_at v a = Some h" for a h
  proof -
    have "a \<in> dom (page_at v)" using that by auto
    then have "a \<in> set [1, 2]" using u' by simp
    then show ?thesis using u' that by auto
  qed
  ultimately show thesis using that m u' b by auto
qed

section \<open>Properties\<close>

text \<open>
  mapping a whole area whose pages are not mapped returns, given three frames for each page. Every page of the area is
  then mapped with the area's permission to a page of its own that was free and is all zero; no other page is
  mapped or unmapped and no page that existed changes.
\<close>

theorem area_mapped:
  assumes wf: "st_wf st" and framed: "map_type v = Framed" and fresh: "pma v = pma_new" and r: "vma_range v = Some r"
    and free: "\<forall>vpn \<in> set r. vpn_ok vpn \<and> view st vpn = None" and room: "3 * length r \<le> card (free_frames (fst st))"
  shows "\<exists>v' st'. map_self_all v st = Some (v', st') \<and> st_wf st' \<and> vma_own v' (fst st') \<and> same_area v v' \<and>
    dom (page_at v') = set r \<and>
    (\<forall>vpn \<in> set r. \<exists>h. page_at v' vpn = Some h \<and> pages (fst st) h = None \<and> phys (fst st') h = (\<lambda>_. 0) \<and>
       view st' vpn = Some (pte_new h (pte_flags_of_map (map_permission v) OR PTE_A OR PTE_D OR PTE_V))) \<and>
    (\<forall>w. vpn_ok w \<longrightarrow> w \<notin> set r \<longrightarrow> view st' w = view st w) \<and>
    (\<forall>p. pages (fst st) p \<noteq> None \<longrightarrow> pages (fst st') p = pages (fst st) p \<and> phys (fst st') p = phys (fst st) p)"
  using map_self_all_spec [OF assms] .

text \<open>
  C27: unmapping \<open>[start, end)\<close> from an area all of whose pages are allocated returns. With the bounds rounded to pages,
  exactly the pages of the area in that range are unmapped, those with no other owner are freed, every other page stays. What is left
  of the area is the part before and the part after the range; an area inside the range keeps its bounds
  and has no page left.
\<close>

theorem unmap_if_overlap_cuts:
  assumes wf: "st_wf (k, pt)" and ok: "area_ok v k" and s: "align_down start = Some s" and e: "align_up end = Some e" and se: "s \<le> e"
  shows "\<exists>v' k' ov. unmap_if_overlap start end v (k, pt) = Some (v', (k', pt), ov) \<and> st_wf (k', pt) \<and>
    (let C = {w. vpn_of (start_vaddr v) \<le> w \<and> w < vpn_of (end_vaddr v) \<and> vpn_of s \<le> w \<and> w < vpn_of e} in
      (\<forall>w. vpn_ok w \<longrightarrow> pt_view k' pt w = (if w \<in> C then None else pt_view k pt w)) \<and>
      (\<forall>a \<in> C. \<forall>h p. page_at v a = Some h \<longrightarrow> pages k h = Some (p, 1) \<longrightarrow> h \<in> free_frames k') \<and>
      (\<forall>q. (\<forall>a \<in> C. page_at v a \<noteq> Some q) \<longrightarrow> pages k' q = pages k q) \<and>
      (case ov of
         UUnchange \<Rightarrow> v' = v \<and> C = {}
       | UShrink \<Rightarrow> area_ok v' k' \<and> {start_vaddr v'..<end_vaddr v'} = {start_vaddr v..<end_vaddr v} - {s..<e} \<and>
           page_at v' = page_at v |` (- C)
       | URemoved \<Rightarrow> start_vaddr v' = start_vaddr v \<and> end_vaddr v' = end_vaddr v \<and> page_at v' = Map.empty \<and>
           {start_vaddr v..<end_vaddr v} \<subseteq> {s..<e}
       | USplit r \<Rightarrow> area_ok v' k' \<and> area_ok r k' \<and>
           {start_vaddr v'..<end_vaddr v'} \<union> {start_vaddr r..<end_vaddr r} = {start_vaddr v..<end_vaddr v} - {s..<e} \<and>
           end_vaddr v' \<le> start_vaddr r \<and> page_at v' ++ page_at r = page_at v |` (- C)))"
proof -
  let ?a = "start_vaddr v" and ?b = "end_vaddr v"
  note al = align_aligned(1) [OF s] align_aligned(2) [OF e] and o = ok [unfolded area_ok_def]
  note le = aligned_le [of _ _] and lt = aligned_less [of _ _]
  have own: "vma_own v k" using o by blast
  note d [simp] = s e se is_overlap_def unmap_if_overlap_def
  consider "e \<le> ?a \<or> ?b \<le> s" | "\<not> (e \<le> ?a \<or> ?b \<le> s)" "s \<le> ?a" "e < ?b" | "\<not> (e \<le> ?a \<or> ?b \<le> s)" "s \<le> ?a" "?b \<le> e"
    | "\<not> (e \<le> ?a \<or> ?b \<le> s)" "?a < s" "e < ?b" | "\<not> (e \<le> ?a \<or> ?b \<le> s)" "?a < s" "?b \<le> e" by fastforce
  then show ?thesis
  proof cases
    case 1
    then have C: "{w. vpn_of ?a \<le> w \<and> w < vpn_of ?b \<and> vpn_of s \<le> w \<and> w < vpn_of e} = {}"
      using vpn_mono [of e ?a] vpn_mono [of ?b s] by auto
    show ?thesis unfolding C using 1 wf by simp
  next
    case 2
    then have "?a \<le> e" "e \<le> ?b" by auto
    from vma_split_spec [OF ok al(2) this] obtain l r where sp: "vma_split e v k = Some (l, r, k)" "area_ok l k" "area_ok r k"
      "start_vaddr l = ?a" "end_vaddr l = e" "start_vaddr r = e" "end_vaddr r = ?b"
      "page_at l = page_at v |` {w. w < vpn_of e}" "page_at r = page_at v |` {w. vpn_of e \<le> w}" by blast
    have C: "{w. vpn_of ?a \<le> w \<and> w < vpn_of ?b \<and> vpn_of s \<le> w \<and> w < vpn_of e} = area_vpns l"
      unfolding area_vpns_def sp using vpn_mono [of s ?a] vpn_mono [of e ?b] 2 by (auto intro: order.trans order.strict_trans2)
    have "page_at l \<subseteq>\<^sub>m page_at v" "page_at r \<subseteq>\<^sub>m page_at v" "dom (page_at r) \<inter> area_vpns l = {}"
      using sp by (auto simp: map_le_def restrict_map_def area_vpns_def dom_def)
    from cut_part [OF wf own sp(2) this(1)] this(2,3) sp(3) obtain m' k' where
      "vma_remove l (k, pt) = Some (m', k', pt)" "vma_drop m' k' = Some k'" "st_wf (k', pt)" "area_ok r k'"
      "\<forall>w. vpn_ok w \<longrightarrow> pt_view k' pt w = (if w \<in> area_vpns l then None else pt_view k pt w)"
      "\<forall>a \<in> area_vpns l. \<forall>h p. page_at v a = Some h \<longrightarrow> pages k h = Some (p, 1) \<longrightarrow> h \<in> free_frames k'"
      "\<forall>q. (\<forall>a \<in> area_vpns l. page_at v a \<noteq> Some q) \<longrightarrow> pages k' q = pages k q" by blast
    moreover have "page_at r = page_at v |` (- area_vpns l)"
      using sp o by (auto simp: restrict_map_def fun_eq_iff area_vpns_def set_vpns domIff)
    moreover have "{e..<?b} = {?a..<?b} - {s..<e}" using 2 by (auto simp: not_less)
    ultimately show ?thesis unfolding C Let_def using 2 sp
      by (intro exI [of _ r] exI [of _ k'] exI [of _ UShrink]) simp
  next
    case 3
    have C: "{w. vpn_of ?a \<le> w \<and> w < vpn_of ?b \<and> vpn_of s \<le> w \<and> w < vpn_of e} = area_vpns v"
      unfolding area_vpns_def using vpn_mono [of s ?a] vpn_mono [of ?b e] 3 by (auto intro: order.trans order.strict_trans2)
    from cut_part [OF wf own ok] obtain m' k' where
      "vma_remove v (k, pt) = Some (m', k', pt)" "st_wf (k', pt)" "same_area v m'" "page_at m' = Map.empty"
      "\<forall>w. vpn_ok w \<longrightarrow> pt_view k' pt w = (if w \<in> area_vpns v then None else pt_view k pt w)"
      "\<forall>a \<in> area_vpns v. \<forall>h p. page_at v a = Some h \<longrightarrow> pages k h = Some (p, 1) \<longrightarrow> h \<in> free_frames k'"
      "\<forall>q. (\<forall>a \<in> area_vpns v. page_at v a \<noteq> Some q) \<longrightarrow> pages k' q = pages k q" by auto
    then show ?thesis unfolding C Let_def using 3 same_areaD(1,2) [of v m']
      by (intro exI [of _ m'] exI [of _ k'] exI [of _ URemoved]) auto
  next
    case 4
    then have "?a \<le> e" "e \<le> ?b" using se by auto
    from vma_split_spec [OF ok al(2) this] obtain l r where sp: "vma_split e v k = Some (l, r, k)" "area_ok l k" "area_ok r k"
      "start_vaddr l = ?a" "end_vaddr l = e" "start_vaddr r = e" "end_vaddr r = ?b"
      "page_at l = page_at v |` {w. w < vpn_of e}" "page_at r = page_at v |` {w. vpn_of e \<le> w}" by blast
    have "start_vaddr l \<le> s" "s \<le> end_vaddr l" using 4 se sp by auto
    from vma_split_spec [OF sp(2) al(1) this] obtain l' m where sq: "vma_split s l k = Some (l', m, k)" "area_ok l' k" "area_ok m k"
      "start_vaddr l' = ?a" "end_vaddr l' = s" "start_vaddr m = s" "end_vaddr m = e"
      "page_at l' = page_at l |` {w. w < vpn_of s}" "page_at m = page_at l |` {w. vpn_of s \<le> w}" unfolding sp by blast
    have "vpn_of ?a \<le> vpn_of s" "vpn_of e \<le> vpn_of ?b" using 4 by (auto intro!: vpn_mono)
    then have C: "{w. vpn_of ?a \<le> w \<and> w < vpn_of ?b \<and> vpn_of s \<le> w \<and> w < vpn_of e} = area_vpns m"
      unfolding area_vpns_def sq by (auto intro: order.trans order.strict_trans2)
    have part: "page_at m \<subseteq>\<^sub>m page_at v" "page_at r \<subseteq>\<^sub>m page_at v" "page_at l' \<subseteq>\<^sub>m page_at v"
      "dom (page_at r) \<inter> area_vpns m = {}" "dom (page_at l') \<inter> area_vpns m = {}"
      using sp sq by (auto simp: map_le_def restrict_map_def area_vpns_def dom_def split: if_splits)
    from cut_part [OF wf own sq(3) part(1)] obtain m' k' where
      cut: "vma_remove m (k, pt) = Some (m', k', pt)" "vma_drop m' k' = Some k'" "st_wf (k', pt)"
      "\<forall>w. vpn_ok w \<longrightarrow> pt_view k' pt w = (if w \<in> area_vpns m then None else pt_view k pt w)"
      "\<forall>a \<in> area_vpns m. \<forall>h p. page_at v a = Some h \<longrightarrow> pages k h = Some (p, 1) \<longrightarrow> h \<in> free_frames k'"
      "\<forall>q. (\<forall>a \<in> area_vpns m. page_at v a \<noteq> Some q) \<longrightarrow> pages k' q = pages k q"
      "\<forall>l. area_ok l k \<longrightarrow> page_at l \<subseteq>\<^sub>m page_at v \<longrightarrow> dom (page_at l) \<inter> area_vpns m = {} \<longrightarrow> area_ok l k'"
      by (elim exE conjE) (rule that; assumption)
    have "area_ok r k'" "area_ok l' k'" using cut(7) part sp(3) sq(2) by simp_all
    moreover have "page_at l' ++ page_at r = page_at v |` (- area_vpns m)"
      using sp sq vpn_mono [OF se]
      by (auto simp: restrict_map_def fun_eq_iff area_vpns_def map_add_def not_le not_less split: option.splits)
    moreover have "{?a..<s} \<union> {e..<?b} = {?a..<?b} - {s..<e}" using 4 se by (auto simp: not_less)
    ultimately show ?thesis unfolding C Let_def using 4 sp sq se cut(1-6)
      by (intro exI [of _ l'] exI [of _ k'] exI [of _ "USplit r"]) (simp add: not_le [symmetric])
  next
    case 5
    then have "?a \<le> s" "s \<le> ?b" by auto
    from vma_split_spec [OF ok al(1) this] obtain l r where sp: "vma_split s v k = Some (l, r, k)" "area_ok l k" "area_ok r k"
      "start_vaddr l = ?a" "end_vaddr l = s" "start_vaddr r = s" "end_vaddr r = ?b"
      "page_at l = page_at v |` {w. w < vpn_of s}" "page_at r = page_at v |` {w. vpn_of s \<le> w}" by blast
    have "vpn_of ?a \<le> vpn_of s" "vpn_of ?b \<le> vpn_of e" using 5 by (auto intro!: vpn_mono)
    then have C: "{w. vpn_of ?a \<le> w \<and> w < vpn_of ?b \<and> vpn_of s \<le> w \<and> w < vpn_of e} = area_vpns r"
      unfolding area_vpns_def sp by (auto intro: order.trans order.strict_trans2)
    have "page_at r \<subseteq>\<^sub>m page_at v" "page_at l \<subseteq>\<^sub>m page_at v" "dom (page_at l) \<inter> area_vpns r = {}"
      using sp by (auto simp: map_le_def restrict_map_def area_vpns_def dom_def split: if_splits)
    from cut_part [OF wf own sp(3) this(1)] this(2,3) sp(2) obtain m' k' where
      "vma_remove r (k, pt) = Some (m', k', pt)" "vma_drop m' k' = Some k'" "st_wf (k', pt)" "area_ok l k'"
      "\<forall>w. vpn_ok w \<longrightarrow> pt_view k' pt w = (if w \<in> area_vpns r then None else pt_view k pt w)"
      "\<forall>a \<in> area_vpns r. \<forall>h p. page_at v a = Some h \<longrightarrow> pages k h = Some (p, 1) \<longrightarrow> h \<in> free_frames k'"
      "\<forall>q. (\<forall>a \<in> area_vpns r. page_at v a \<noteq> Some q) \<longrightarrow> pages k' q = pages k q" by blast
    moreover have "page_at l = page_at v |` (- area_vpns r)"
    proof -
      have "x \<notin> dom (page_at v)" if "vpn_of ?b \<le> x" for x using o that by (simp add: set_vpns not_less)
      then show ?thesis using sp by (auto simp: restrict_map_def fun_eq_iff area_vpns_def not_less domIff)
    qed
    moreover have "{?a..<s} = {?a..<?b} - {s..<e}" using 5 by (auto simp: not_less)
    ultimately show ?thesis unfolding C Let_def using 5 sp
      by (intro exI [of _ l] exI [of _ k'] exI [of _ UShrink]) (simp add: not_le [symmetric])
  qed
qed

theorem area_mapped_witness:
  "\<exists>v' st' h. map_self_all demo_vma boot_st = Some (v', st') \<and> page_at v' 2 = Some h \<and>
     view st' 2 = Some (pte_new h (PTE_R OR PTE_W OR PTE_U OR PTE_A OR PTE_D OR PTE_V)) \<and> view st' 3 = None"
proof -
  have ok: "vpn_ok 1" "vpn_ok 2" "vpn_ok 3"
    by (simp_all add: vpn_ok_def user_va_def mm_consts push_bit_eq_mult drop_bit_eq_div)
  have fl: "pte_flags_of_map (map_permission demo_vma) = PTE_R OR PTE_W OR PTE_U" by code_simp
  have "\<exists>v' st'. map_self_all demo_vma boot_st = Some (v', st') \<and>
    (\<forall>vpn \<in> set [1, 2]. \<exists>h. page_at v' vpn = Some h \<and>
       view st' vpn = Some (pte_new h (pte_flags_of_map (map_permission demo_vma) OR PTE_A OR PTE_D OR PTE_V))) \<and>
    (\<forall>w. vpn_ok w \<longrightarrow> w \<notin> set [1, 2] \<longrightarrow> view st' w = view boot_st w)"
    using area_mapped [OF boot_st_wf(1) _ _ demo_range] boot_st_wf(2,3) ok by (fastforce simp: demo_vma_def)
  then show ?thesis unfolding fl using ok boot_st_wf(2) by (auto simp: or.assoc)
qed

theorem unmap_if_overlap_cuts_witness:
  "\<exists>v k pt v' k' ov. st_wf (k, pt) \<and> area_ok v k \<and> unmap_if_overlap 0x1800 0x1900 v (k, pt) = Some (v', (k', pt), ov) \<and>
     pt_view k pt 1 \<noteq> None \<and> pt_view k' pt 1 = None \<and> pt_view k' pt 2 = pt_view k pt 2"
proof -
  obtain v k pt where d: "st_wf (k, pt)" "area_ok v k" "start_vaddr v = 0x1000" "end_vaddr v = 0x3000" "pt_view k pt 1 \<noteq> None"
    by (rule demo_mapped)
  have "align_down 0x1800 = Some 0x1000" "align_up 0x1900 = Some 0x2000"
    by (simp_all add: align_down_def align_up_def check_user_va_def user_va_def mm_consts)
  from unmap_if_overlap_cuts [OF d(1,2) this] obtain v' k' ov where
    "unmap_if_overlap 0x1800 0x1900 v (k, pt) = Some (v', (k', pt), ov)"
    "\<forall>w. vpn_ok w \<longrightarrow> pt_view k' pt w = (if w \<in> {w. vpn_of (start_vaddr v) \<le> w \<and> w < vpn_of (end_vaddr v) \<and>
       vpn_of 0x1000 \<le> w \<and> w < vpn_of 0x2000} then None else pt_view k pt w)" unfolding Let_def by auto
  then show ?thesis using d demo_vpns
    by (intro exI [of _ v] exI [of _ k] exI [of _ pt] exI [of _ v'] exI [of _ k'] exI [of _ ov]) (simp add: drop_bit_eq_div)
qed

end
