(* ===== verification/Vma_Range.thy ===== *)
theory Vma_Range
  imports Vma
begin

text \<open>
  The areas of an address space (\<^verbatim>\<open>mm/vma_range/vma_range.rs\<close>): a map from start addresses to areas.

  The lemmas show that \<open>find_anywhere\<close> is first fit, that \<open>expand\<close> never makes areas overlap, and what unmapping leaves of
  an area that lies inside the range.
\<close>

type_synonym vma_range_map = "(usize, vma) btree_map"

section \<open>Operations\<close>

text \<open>Inserting an area; an area stored under the same start is dropped.\<close>

definition insert_raw :: "vma \<Rightarrow> vma_range_map \<times> pmem \<Rightarrow> (vma_range_map \<times> pmem) option" where
  "insert_raw v s = (case s of (segs, k) \<Rightarrow>
     do { k' \<leftarrow> (case bt_get segs (start_vaddr v) of None \<Rightarrow> Some k | Some old \<Rightarrow> vma_drop old k);
          Some (bt_insert (start_vaddr v) v segs, k') })"

fun find_anywhere_loop :: "usize \<Rightarrow> usize \<Rightarrow> vma_range_map \<Rightarrow> usize + usize" where
  "find_anywhere_loop len last_end [] = Inr last_end"
| "find_anywhere_loop len last_end ((start, v) # segs) =
     (if last_end + len \<le> start then Inl last_end
      else find_anywhere_loop len (max last_end (end_vaddr v)) segs)"

definition find_anywhere :: "usize \<Rightarrow> usize \<Rightarrow> vma_range_map \<Rightarrow> usize option" where
  "find_anywhere hint len segs =
     (case find_anywhere_loop len (max hint MMAP_BOTTOM) segs of
        Inl a \<Rightarrow> Some a
      | Inr last_end \<Rightarrow> if last_end + len \<le> MMAP_TOP then Some last_end else None)"

text \<open>The keys of the areas that overlap a range, in order.\<close>

fun overlapping :: "usize \<Rightarrow> usize \<Rightarrow> vma_range_map \<Rightarrow> usize list option" where
  "overlapping start end [] = Some []"
| "overlapping start end ((i, v) # segs) =
     do { ov \<leftarrow> is_overlap start end v;
          rest \<leftarrow> overlapping start end segs;
          Some (if ov then i # rest else rest) }"

definition unmap_seg :: "usize \<Rightarrow> usize \<Rightarrow> usize \<Rightarrow> vma_range_map \<times> pstate \<Rightarrow> (vma_range_map \<times> pstate) option" where
  "unmap_seg start end i s = (case s of (segs, st) \<Rightarrow>
     (case bt_get segs i of
        None \<Rightarrow> Some (segs, st)
      | Some v \<Rightarrow>
          do { (v', st', r) \<leftarrow> unmap_if_overlap start end v st;
               let segs' = bt_insert i v' segs;
               (case r of
                  USplit right \<Rightarrow> do { (segs'', k) \<leftarrow> insert_raw right (segs', fst st'); Some (segs'', k, snd st') }
                | _ \<Rightarrow> Some (segs', st')) }))"

definition vr_unmap :: "usize \<Rightarrow> usize \<Rightarrow> vma_range_map \<times> pstate \<Rightarrow> (vma_range_map \<times> pstate) option" where
  "vr_unmap start end s =
     (if start = end then Some s
      else do { idx \<leftarrow> overlapping start end (fst s); foldM (unmap_seg start end) idx s })"

definition find_fixed :: "usize \<Rightarrow> usize \<Rightarrow> vma_range_map \<times> pstate \<Rightarrow> ((vma_range_map \<times> pstate) \<times> usize option) option" where
  "find_fixed start end s = do { s' \<leftarrow> vr_unmap start end s; Some (s', Some start) }"

definition mprotect_seg ::
  "usize \<Rightarrow> usize \<Rightarrow> map_permission \<Rightarrow> usize \<Rightarrow> vma_range_map \<times> pstate \<Rightarrow> (vma_range_map \<times> pstate) option" where
  "mprotect_seg start end flags i s = (case s of (segs, st) \<Rightarrow>
     (case bt_get segs i of
        None \<Rightarrow> Some (segs, st)
      | Some v \<Rightarrow>
          do { (v', st', r) \<leftarrow> split_and_modify_if_overlap start end flags v st;
               let segs' = bt_insert i v' segs;
               (case r of
                  SShrinkLeft right \<Rightarrow> do { (segs'', k) \<leftarrow> insert_raw right (segs', fst st'); Some (segs'', k, snd st') }
                | SShrinkRight right \<Rightarrow> do { (segs'', k) \<leftarrow> insert_raw right (segs', fst st'); Some (segs'', k, snd st') }
                | SSplit mid right \<Rightarrow>
                    do { (s1, k1) \<leftarrow> insert_raw right (segs', fst st');
                         (s2, k2) \<leftarrow> insert_raw mid (s1, k1);
                         Some (s2, k2, snd st') }
                | _ \<Rightarrow> Some (segs', st')) }))"

definition vr_mprotect ::
  "usize \<Rightarrow> usize \<Rightarrow> map_permission \<Rightarrow> vma_range_map \<times> pstate \<Rightarrow> (vma_range_map \<times> pstate) option" where
  "vr_mprotect start end flags s =
     do { idx \<leftarrow> overlapping start end (fst s); foldM (mprotect_seg start end flags) idx s }"

text \<open>
  The search of \<^verbatim>\<open>expand\<close>: the key of the last area that ends at \<open>start\<close>, or an early return when another
  area overlaps the new range.
\<close>

fun expand_loop :: "usize \<Rightarrow> usize \<Rightarrow> usize option \<Rightarrow> vma_range_map \<Rightarrow> (errno + usize option) option" where
  "expand_loop start end found [] = Some (Inr found)"
| "expand_loop start end found ((i, v) # segs) =
     (if end_vaddr v = start then expand_loop start end (Some i) segs
      else do { ov \<leftarrow> is_overlap start end v;
                if ov then Some (Inl ENOMEM) else expand_loop start end found segs })"

definition vr_expand :: "usize \<Rightarrow> usize \<Rightarrow> vma_range_map \<Rightarrow> (vma_range_map \<times> bool os_result) option" where
  "vr_expand start end segs =
     do { r \<leftarrow> expand_loop start end None segs;
          (case r of
             Inl e \<Rightarrow> Some (segs, Inl e)
           | Inr None \<Rightarrow> Some (segs, Inl ENOMEM)
           | Inr (Some i) \<Rightarrow> do { v \<leftarrow> bt_get segs i; Some (bt_insert i (vma_expand end v) segs, Inr True) }) }"

section \<open>First fit\<close>

text \<open>Areas in order of their start, stored under it, and below 4 GiB.\<close>

definition segs_wf :: "vma_range_map \<Rightarrow> bool" where
  "segs_wf segs \<longleftrightarrow> bt_wf segs \<and> (\<forall>(i, v) \<in> set segs. start_vaddr v = i \<and> i \<le> end_vaddr v \<and> unat (end_vaddr v) < 2 ^ 32)"

definition disjoint_range :: "usize \<Rightarrow> usize \<Rightarrow> vma \<Rightarrow> bool" where
  "disjoint_range a b v \<longleftrightarrow> b \<le> start_vaddr v \<or> end_vaddr v \<le> a"

definition fits :: "usize \<Rightarrow> usize \<Rightarrow> vma_range_map \<Rightarrow> bool" where
  "fits len a segs \<longleftrightarrow> (\<forall>(i, v) \<in> set segs. disjoint_range a (a + len) v)"

lemma segs_wf_Cons:
  assumes "segs_wf ((i, v) # segs)"
  shows "segs_wf segs" "start_vaddr v = i" "i \<le> end_vaddr v" "unat (end_vaddr v) < 2 ^ 32" "\<forall>(j, w) \<in> set segs. i < j"
  using assms by (auto simp: segs_wf_def bt_wf_def)

lemma low_add:
  fixes a len :: usize
  assumes "unat a < 2 ^ 33" "unat len < 2 ^ 32" shows "unat (a + len) = unat a + unat len"
  using assms by (intro unat_plus_if' [THEN trans]) simp

text \<open>
  The loop keeps a candidate \<open>l0\<close> with no fit below it, and stops at the first gap.
\<close>

lemma find_loop:
  assumes "segs_wf segs" "unat l0 < 2 ^ 32" "unat len < 2 ^ 32" "0 < unat len"
  shows "case find_anywhere_loop len l0 segs of
      Inl a \<Rightarrow> l0 \<le> a \<and> unat a < 2 ^ 32 \<and> fits len a segs \<and> (\<exists>(i, v) \<in> set segs. unat a + unat len \<le> unat i) \<and>
        (\<forall>b. l0 \<le> b \<longrightarrow> unat b < 2 ^ 32 \<longrightarrow> fits len b segs \<longrightarrow> a \<le> b)
    | Inr a \<Rightarrow> l0 \<le> a \<and> unat a < 2 ^ 32 \<and> fits len a segs \<and>
        (\<forall>b. l0 \<le> b \<longrightarrow> unat b < 2 ^ 32 \<longrightarrow> fits len b segs \<longrightarrow> a \<le> b)"
  using assms
proof (induction len l0 segs rule: find_anywhere_loop.induct)
  case (1 len l0)
  then show ?case by (simp add: fits_def)
next
  case (2 len l0 i v segs)
  note w = segs_wf_Cons [OF 2(2)]
  have add: "unat (b + len) = unat b + unat len" if "unat b < 2 ^ 32" for b using low_add [of b len] that 2(4) by simp
  show ?case
  proof (cases "l0 + len \<le> i")
    case True
    then have le: "unat l0 + unat len \<le> unat i" using add [OF 2(3)] by (simp add: word_le_nat_alt)
    have "disjoint_range l0 (l0 + len) w'" if "(j, w') \<in> set segs" for j w'
    proof -
      have "i < j" "start_vaddr w' = j" using w(5) that 2(2) by (auto simp: segs_wf_def)
      then show ?thesis using True by (auto simp: disjoint_range_def)
    qed
    then have "fits len l0 ((i, v) # segs)" using True w(2) by (auto simp: fits_def disjoint_range_def)
    then show ?thesis using True le 2(3) by auto
  next
    case False
    let ?l = "max l0 (end_vaddr v)"
    have "unat ?l < 2 ^ 32" using 2(3) w(4) by (simp add: max_def)
    note IH = 2(1) [OF False w(1) this 2(4,5)]
    have up: "?l \<le> b" if "l0 \<le> b" "unat b < 2 ^ 32" "fits len b ((i, v) # segs)" for b
    proof -
      have "b + len \<le> i \<or> end_vaddr v \<le> b" using that(3) w(2) by (auto simp: fits_def disjoint_range_def)
      moreover have "\<not> b + len \<le> i"
        using False that(1) add [OF that(2)] add [OF 2(3)] by (simp add: word_le_nat_alt)
      ultimately show ?thesis using that(1) by simp
    qed
    have head: "disjoint_range a (a + len) v" if "?l \<le> a" for a using that by (auto simp: disjoint_range_def)
    show ?thesis
    proof (cases "find_anywhere_loop len ?l segs")
      case (Inl a)
      with IH have a: "?l \<le> a" "unat a < 2 ^ 32" "fits len a segs" "\<exists>(i, v) \<in> set segs. unat a + unat len \<le> unat i"
        "\<forall>b. ?l \<le> b \<longrightarrow> unat b < 2 ^ 32 \<longrightarrow> fits len b segs \<longrightarrow> a \<le> b" by simp_all
      have "fits len a ((i, v) # segs)" using a(3) head [OF a(1)] by (simp add: fits_def)
      moreover have "a \<le> b" if "l0 \<le> b" "unat b < 2 ^ 32" "fits len b ((i, v) # segs)" for b
        using a(5) up [OF that] that by (simp add: fits_def)
      ultimately show ?thesis using Inl a False by auto
    next
      case (Inr a)
      with IH have a: "?l \<le> a" "unat a < 2 ^ 32" "fits len a segs"
        "\<forall>b. ?l \<le> b \<longrightarrow> unat b < 2 ^ 32 \<longrightarrow> fits len b segs \<longrightarrow> a \<le> b" by simp_all
      have "fits len a ((i, v) # segs)" using a(3) head [OF a(1)] by (simp add: fits_def)
      moreover have "a \<le> b" if "l0 \<le> b" "unat b < 2 ^ 32" "fits len b ((i, v) # segs)" for b
        using a(4) up [OF that] that by (simp add: fits_def)
      ultimately show ?thesis using Inr a False by auto
    qed
  qed
qed


section \<open>Growing the heap\<close>

lemma expand_loop_Inr:
  assumes "expand_loop start end found segs = Some (Inr r)"
  shows "(\<forall>(i, v) \<in> set segs. end_vaddr v = start \<or> disjoint_range start end v) \<and>
    (r = found \<or> (\<exists>(i, v) \<in> set segs. r = Some i \<and> end_vaddr v = start)) \<and>
    (r = None \<longrightarrow> (\<forall>(i, v) \<in> set segs. end_vaddr v \<noteq> start))"
  using assms
proof (induction start "end" found segs rule: expand_loop.induct)
  case (1 start "end" found)
  then show ?case by simp
next
  case (2 start "end" found i v segs)
  then show ?case
    by (auto simp: is_overlap_def disjoint_range_def panic_simps split: if_splits)
qed

lemma expand_loop_Inl:
  assumes "expand_loop start end found segs = Some (Inl e)"
  shows "e = ENOMEM \<and> (\<exists>(i, v) \<in> set segs. end_vaddr v \<noteq> start \<and> \<not> disjoint_range start end v)"
  using assms
proof (induction start "end" found segs rule: expand_loop.induct)
  case (1 start "end" found)
  then show ?case by simp
next
  case (2 start "end" found i v segs)
  then show ?case
    by (auto simp: is_overlap_def disjoint_range_def panic_simps split: if_splits)
qed

lemma expand_loop_returns: "start \<le> end \<Longrightarrow> \<exists>r. expand_loop start end found segs = Some r"
  by (induction start "end" found segs rule: expand_loop.induct) (auto simp: is_overlap_def)

lemma find_anywhere_spec:
  assumes wf: "segs_wf segs" and len: "0 < unat len" "unat len < 2 ^ 32" and hint: "unat hint < 2 ^ 32"
  shows "case find_anywhere hint len segs of
      Some a \<Rightarrow> hint \<le> a \<and> MMAP_BOTTOM \<le> a \<and> unat a < 2 ^ 32 \<and> fits len a segs \<and>
        (\<forall>b. hint \<le> b \<longrightarrow> MMAP_BOTTOM \<le> b \<longrightarrow> unat b < 2 ^ 32 \<longrightarrow> fits len b segs \<longrightarrow> a \<le> b)
    | None \<Rightarrow> \<forall>b. hint \<le> b \<longrightarrow> MMAP_BOTTOM \<le> b \<longrightarrow> unat b < 2 ^ 32 \<longrightarrow> fits len b segs \<longrightarrow> MMAP_TOP < b + len"
proof -
  let ?l = "max hint MMAP_BOTTOM"
  have "unat MMAP_BOTTOM < 2 ^ 32" by (simp add: MMAP_BOTTOM_def)
  then have "unat ?l < 2 ^ 32" using hint by (simp add: max_def)
  note loop = find_loop [OF wf this len(2,1)]
  have add: "unat (b + len) = unat b + unat len" if "unat b < 2 ^ 32" for b using low_add [of b len] that len(2) by simp
  show ?thesis
  proof (cases "find_anywhere_loop len ?l segs")
    case (Inl a)
    then show ?thesis using loop by (simp add: find_anywhere_def)
  next
    case (Inr a)
    with loop have a: "?l \<le> a" "unat a < 2 ^ 32" "fits len a segs"
      "\<forall>b. ?l \<le> b \<longrightarrow> unat b < 2 ^ 32 \<longrightarrow> fits len b segs \<longrightarrow> a \<le> b" by simp_all
    have "MMAP_TOP < b + len" if "\<not> a + len \<le> MMAP_TOP" "a \<le> b" "unat b < 2 ^ 32" for b
      using that add [OF that(3)] add [OF a(2)] by (simp add: word_le_nat_alt word_less_nat_alt)
    then show ?thesis using Inr a by (auto simp: find_anywhere_def)
  qed
qed

lemma vr_expand_spec:
  assumes wf: "segs_wf segs" and se: "start \<le> end"
  shows "\<exists>segs' r. vr_expand start end segs = Some (segs', r) \<and>
    (if (\<exists>(i, v) \<in> set segs. end_vaddr v = start) \<and>
        (\<forall>(i, v) \<in> set segs. end_vaddr v = start \<or> disjoint_range start end v)
     then r = Inr True \<and> (\<exists>i v. bt_get segs i = Some v \<and> end_vaddr v = start \<and>
        segs' = bt_insert i (v\<lparr>end_vaddr := end\<rparr>) segs)
     else r = Inl ENOMEM \<and> segs' = segs)"
proof -
  have bt: "bt_wf segs" using wf by (simp add: segs_wf_def)
  obtain r where r: "expand_loop start end None segs = Some r" using expand_loop_returns [OF se] by blast
  show ?thesis
  proof (cases r)
    case (Inl e)
    note l = expand_loop_Inl [OF r [unfolded Inl]]
    then have "\<not> (\<forall>(i, v) \<in> set segs. end_vaddr v = start \<or> disjoint_range start end v)" by fastforce
    then show ?thesis using l r Inl by (simp add: vr_expand_def)
  next
    case (Inr q)
    note l = expand_loop_Inr [OF r [unfolded Inr]]
    show ?thesis
    proof (cases q)
      case None
      then have "\<not> (\<exists>(i, v) \<in> set segs. end_vaddr v = start)" using l by fastforce
      then show ?thesis using r Inr None by (simp add: vr_expand_def)
    next
      case (Some i)
      then obtain v where v: "(i, v) \<in> set segs" "end_vaddr v = start" using l by auto
      then have g: "bt_get segs i = Some v" using bt_get_iff [OF bt] by blast
      moreover have "(\<exists>(i, v) \<in> set segs. end_vaddr v = start)" using v by blast
      ultimately show ?thesis using l r Inr Some g v by (auto simp: vr_expand_def vma_expand_def)
    qed
  qed
qed

section \<open>Properties\<close>

text \<open>
  \<open>find_anywhere\<close> returns the lowest address, not below the hint and the bottom of the mmap region, where a range of
  the given length overlaps no area; it returns nothing only when every such range would end above the top of the region.
\<close>

theorem find_anywhere_first_fit:
  assumes wf: "segs_wf segs" and len: "0 < unat len" "unat len < 2 ^ 32" and hint: "unat hint < 2 ^ 32"
  shows "case find_anywhere hint len segs of
      Some a \<Rightarrow> hint \<le> a \<and> MMAP_BOTTOM \<le> a \<and> unat a < 2 ^ 32 \<and> fits len a segs \<and>
        (\<forall>b. hint \<le> b \<longrightarrow> MMAP_BOTTOM \<le> b \<longrightarrow> unat b < 2 ^ 32 \<longrightarrow> fits len b segs \<longrightarrow> a \<le> b)
    | None \<Rightarrow> \<forall>b. hint \<le> b \<longrightarrow> MMAP_BOTTOM \<le> b \<longrightarrow> unat b < 2 ^ 32 \<longrightarrow> fits len b segs \<longrightarrow> MMAP_TOP < b + len"
  using find_anywhere_spec [OF assms] .

theorem find_anywhere_first_fit_witness:
  "segs_wf [(0xfe5ff000, demo_vma\<lparr>start_vaddr := 0xfe5ff000, end_vaddr := 0xfe600000\<rparr>)] \<and>
   find_anywhere 0 0x2000 [(0xfe5ff000, demo_vma\<lparr>start_vaddr := 0xfe5ff000, end_vaddr := 0xfe600000\<rparr>)] = Some 0xfe600000 \<and>
   fits 0x2000 0xfe600000 [(0xfe5ff000, demo_vma\<lparr>start_vaddr := 0xfe5ff000, end_vaddr := 0xfe600000\<rparr>)]"
proof -
  let ?s = "[(0xfe5ff000, demo_vma\<lparr>start_vaddr := 0xfe5ff000, end_vaddr := 0xfe600000\<rparr>)]"
  have wf: "segs_wf ?s" by (simp add: segs_wf_def bt_wf_def)
  have "find_anywhere 0 0x2000 ?s = Some 0xfe600000" by (simp add: find_anywhere_def MMAP_BOTTOM_def MMAP_TOP_def max_def)
  then show ?thesis using wf find_anywhere_first_fit [OF wf, of "0x2000" 0] by simp
qed

text \<open>
  growing an area returns. It succeeds exactly when some area ends at \<open>start\<close> and every area that does not end there is
  disjoint from \<open>[start, end)\<close>; then one such area ends at \<open>end\<close> and no other changes. Otherwise the result is \<open>ENOMEM\<close>
  and nothing changes.
\<close>

theorem expand_never_overlaps:
  assumes wf: "segs_wf segs" and se: "start \<le> end"
  shows "\<exists>segs' r. vr_expand start end segs = Some (segs', r) \<and>
    (if (\<exists>(i, v) \<in> set segs. end_vaddr v = start) \<and>
        (\<forall>(i, v) \<in> set segs. end_vaddr v = start \<or> disjoint_range start end v)
     then r = Inr True \<and> (\<exists>i v. bt_get segs i = Some v \<and> end_vaddr v = start \<and>
        segs' = bt_insert i (v\<lparr>end_vaddr := end\<rparr>) segs)
     else r = Inl ENOMEM \<and> segs' = segs)"
  using vr_expand_spec [OF assms] .

theorem expand_never_overlaps_witness:
  "segs_wf [(0x1000, demo_vma)] \<and> (0x3000 :: usize) \<le> 0x5000 \<and>
   (\<exists>segs'. vr_expand 0x3000 0x5000 [(0x1000, demo_vma)] = Some (segs', Inr True))"
proof -
  have wf: "segs_wf [(0x1000, demo_vma)]" by (simp add: segs_wf_def bt_wf_def demo_vma_def)
  from expand_never_overlaps [OF wf, of "0x3000" "0x5000"] wf show ?thesis by (auto simp: demo_vma_def)
qed

text \<open>
  C30: unmapping a range that ends inside an area panics when a page of the area past the range was never allocated,
  as is the case for every area whose pages are allocated on demand.
\<close>

theorem partial_unmap_of_lazy_area_panics:
  assumes s: "align_down start = Some s" and e: "align_up end = Some e" and in_area: "s \<le> e" "s < end_vaddr v" "start_vaddr v < e" "e < end_vaddr v"
    and low: "unat (end_vaddr v) < 2 ^ 32" and bt: "bt_wf (page_manager (pma v))"
    and missing: "vpn_of e \<le> w" "w < vpn_of (end_vaddr v)" "page_at v w = None"
  shows "unmap_if_overlap start end v (k, pt) = None"
proof -
  let ?l = "vpns (vpn_of e) (vpn_of (end_vaddr v))"
  have lowe: "unat e < 2 ^ 32" using low in_area(4) by (simp add: word_less_nat_alt)
  have "\<not> set ?l \<subseteq> dom (bt_get (page_manager (pma v)))" using missing by (auto simp: set_vpns)
  moreover have "\<forall>w \<in> set ?l. bt_get ([] :: (usize, usize) btree_map) w = None" by (simp add: bt_get_def)
  ultimately have "vma_split e v k = None"
    using split_loop(2) [OF bt bt_wf_Nil distinct_vpns, of "vpn_of e" "vpn_of (end_vaddr v)"] virt_to_vpn_low [OF lowe] virt_to_vpn_low [OF low]
    by (simp add: vma_split_def pma_split_def)
  then show ?thesis using s e in_area
    by (simp add: unmap_if_overlap_def is_overlap_def not_le not_less)
qed

theorem partial_unmap_of_lazy_area_panics_witness:
  "unmap_if_overlap 0x1000 0x2000 demo_vma boot_st = None"
proof -
  have "align_down 0x1000 = Some 0x1000" "align_up 0x2000 = Some 0x2000"
    by (simp_all add: align_down_def align_up_def check_user_va_def user_va_def mm_consts)
  from partial_unmap_of_lazy_area_panics [OF this, of demo_vma 2 "fst boot_st" "snd boot_st"] show ?thesis
    by (simp add: demo_vma_def pma_new_def bt_get_def drop_bit_eq_div)
qed

end
