(* ===== verification/Memory_Set.thy ===== *)
theory Memory_Set
  imports Vma_Range File_Io
begin

text \<open>
  Address spaces (\<^verbatim>\<open>mm/memory_set/mem_set.rs\<close>), the page-fault handlers (\<^verbatim>\<open>mm/memory_set/page_fault.rs\<close>, the cases of
  \<open>handler\<close>), copy-on-write bookkeeping (\<^verbatim>\<open>mm/cow.rs\<close>) and the memory system calls (\<^verbatim>\<open>syscall/mm.rs\<close>).
  The page caches of files are a map from inode numbers; the inode of a file is an argument.

  The lemmas show that a fault in an area maps exactly the faulting page to a fresh zeroed frame and that a fault outside of
  all areas is \<open>EFAULT\<close>, and give the complete behaviour of the system calls on their branches.
\<close>

type_synonym caches = "nat \<Rightarrow> page_cache option"
type_synonym fault_st = "caches \<times> pstate"

section \<open>Page-fault handlers\<close>

text \<open>A fresh page at the faulting address; \<open>m\<close> is the set of pages of the area.\<close>

definition anon_fault :: "map_permission \<Rightarrow> pte_flags \<Rightarrow> usize \<Rightarrow> Pma.pma \<Rightarrow> pstate \<Rightarrow> (Pma.pma \<times> pstate) option" where
  "anon_fault per flag vaddr m st = (case st of (k, pt) \<Rightarrow>
     do { (k1, h) \<leftarrow> page_new (page_permission_of_map per) k;
          vpn \<leftarrow> virt_to_vpn vaddr;
          (m', k2) \<leftarrow> push_pma_page vpn h m k1;
          (k3, pt') \<leftarrow> map_one vpn h flag k2 pt;
          _ \<leftarrow> activate pt';
          Some (m', k3, pt') })"

definition ustack_fault :: "map_permission \<Rightarrow> usize \<Rightarrow> Pma.pma \<Rightarrow> pstate \<Rightarrow> (Pma.pma \<times> pstate) option" where
  "ustack_fault per vaddr m st = anon_fault per (PTE_W OR PTE_R OR PTE_U) vaddr m st"

definition uheap_fault :: "map_permission \<Rightarrow> usize \<Rightarrow> Pma.pma \<Rightarrow> pstate \<Rightarrow> (Pma.pma \<times> pstate) option" where
  "uheap_fault per vaddr m st = anon_fault per (PTE_W OR PTE_R OR PTE_U OR PTE_X) vaddr m st"

definition mmap_fault ::
  "disk_read \<Rightarrow> (nat \<Rightarrow> nat) \<Rightarrow> map_permission \<Rightarrow> usize \<Rightarrow> usize \<Rightarrow> Pma.pma \<Rightarrow> fault_st \<Rightarrow> (Pma.pma \<times> fault_st) option" where
  "mmap_fault rd file_inode per vaddr start_va m s = (case s of (cs, k, pt) \<Rightarrow>
     (case backen_file m of
       Some (offset, file) \<Rightarrow>
         do { let ino = file_inode file;
              c \<leftarrow> cs ino;
              ((c', k1), oh) \<leftarrow> find_page_and_create (offset + vaddr - start_va) (Some ino) (c, k);
              h \<leftarrow> oh;
              k2 \<leftarrow> page_load rd h k1;
              vpn \<leftarrow> virt_to_vpn vaddr;
              k3 \<leftarrow> arc_clone h k2;
              (m', k4) \<leftarrow> push_pma_page vpn h m k3;
              (k5, pt') \<leftarrow> map_one vpn h (pte_flags_of_map per) k4 pt;
              _ \<leftarrow> activate pt';
              k6 \<leftarrow> arc_drop h k5;
              Some (m', cs(ino \<mapsto> c'), k6, pt') }
     | None \<Rightarrow>
         do { (m', st') \<leftarrow> anon_fault per (pte_flags_of_map per) vaddr m (k, pt);
              Some (m', cs, st') }))"

definition cow_fault ::
  "usize \<Rightarrow> Pma.pma \<Rightarrow> (usize, usize) btree_map \<Rightarrow> pstate \<Rightarrow> (Pma.pma \<times> (usize, usize) btree_map \<times> pstate) option" where
  "cow_fault vaddr m cow st = (case st of (k, pt) \<Rightarrow>
     do { r \<leftarrow> translate_va_to_pte k pt vaddr;
          l \<leftarrow> r;
          let flags = flags_remove PTE_COW (pte_flags (get_word k l) OR PTE_W);
          vpn \<leftarrow> virt_to_vpn vaddr;
          pg \<leftarrow> bt_get cow vpn;
          (p, _) \<leftarrow> pages k pg;
          (k1, h) \<leftarrow> new_from_page pg (permission p) k;
          k2 \<leftarrow> unmap vpn k1 pt;
          (k3, pt') \<leftarrow> map_one vpn h flags k2 pt;
          _ \<leftarrow> activate pt';
          (m', k4) \<leftarrow> push_pma_page vpn h m k3;
          k5 \<leftarrow> arc_drop pg k4;
          Some (m', bt_remove vpn cow, k5, pt') })"

text \<open>\<^verbatim>\<open>handle_page_fault\<close> of an area: the handler it carries, or nothing.\<close>

definition vma_handle_page_fault ::
  "disk_read \<Rightarrow> (nat \<Rightarrow> nat) \<Rightarrow> usize \<Rightarrow> vma \<Rightarrow> fault_st \<Rightarrow> (vma \<times> fault_st) option" where
  "vma_handle_page_fault rd file_inode vaddr v s = (case s of (cs, st) \<Rightarrow>
     (case page_fault_handler v of
       None \<Rightarrow> Some (v, s)
     | Some UStackHandler \<Rightarrow> do { (m, st') \<leftarrow> ustack_fault (map_permission v) vaddr (pma v) st; Some (v\<lparr>pma := m\<rparr>, cs, st') }
     | Some UHeapHandler \<Rightarrow> do { (m, st') \<leftarrow> uheap_fault (map_permission v) vaddr (pma v) st; Some (v\<lparr>pma := m\<rparr>, cs, st') }
     | Some MmapHandler \<Rightarrow>
         do { (m, s') \<leftarrow> mmap_fault rd file_inode (map_permission v) vaddr (start_vaddr v) (pma v) s; Some (v\<lparr>pma := m\<rparr>, s') }
     | Some CowHandler \<Rightarrow> None))"

section \<open>Copy on write\<close>

definition cow_clear :: "(usize, usize) btree_map \<Rightarrow> pmem \<Rightarrow> pmem option" where
  "cow_clear cow k = foldM arc_drop (map snd cow) k"

fun is_in_cow :: "usize \<Rightarrow> (usize, usize) btree_map \<Rightarrow> bool option" where
  "is_in_cow va [] = Some False"
| "is_in_cow va ((vpn, h) # cow) =
     do { va_start \<leftarrow> vpn_to_virt vpn;
          va_end \<leftarrow> vpn_to_virt (vpn + 1);
          if va_start \<le> va \<and> va < va_end then Some True else is_in_cow va cow }"

text \<open>The new manager shares the pages of the other one; the walk only feeds debug assertions.\<close>

definition from_other_cow :: "(usize, usize) btree_map \<Rightarrow> page_table \<Rightarrow> pmem \<Rightarrow> ((usize, usize) btree_map \<times> pmem) option" where
  "from_other_cow cow pt k =
     do { k' \<leftarrow> foldM arc_clone (map snd cow) k;
          _ \<leftarrow> foldM (\<lambda>vpn u. do { va \<leftarrow> vpn_to_virt vpn; _ \<leftarrow> translate_va_to_pte k' pt va; Some u }) (bt_keys cow) ();
          Some (cow, k') }"

section \<open>Address spaces\<close>

record memory_set =
  areas :: vma_range_map
  mpt :: page_table
  heap_end :: usize
  cow :: "(usize, usize) btree_map"

definition ms_new_user :: "usize \<Rightarrow> pmem \<Rightarrow> (memory_set \<times> pmem) option" where
  "ms_new_user kernel_root k =
     do { (k', pt) \<leftarrow> page_table_new_user kernel_root k;
          Some (\<lparr>areas = [], mpt = pt, heap_end = 0, cow = []\<rparr>, k') }"

definition ms_token :: "memory_set \<Rightarrow> usize option" where "ms_token ms = token (mpt ms)"
definition ms_activate :: "memory_set \<Rightarrow> usize option" where "ms_activate ms = activate (mpt ms)"

definition push_no_map :: "vma \<Rightarrow> memory_set \<times> pmem \<Rightarrow> (memory_set \<times> pmem) option" where
  "push_no_map v s = (case s of (ms, k) \<Rightarrow>
     do { (segs, k') \<leftarrow> insert_raw v (areas ms, k); Some (ms\<lparr>areas := segs\<rparr>, k') })"

definition ms_push :: "disk_read \<Rightarrow> vma \<Rightarrow> u8 list option \<Rightarrow> nat \<Rightarrow> memory_set \<times> pmem \<Rightarrow> (memory_set \<times> pmem) option" where
  "ms_push rd v data offset s = (case s of (ms, k) \<Rightarrow>
     do { (v', k1, pt') \<leftarrow> map_self_all v (k, mpt ms);
          k2 \<leftarrow> (case data of None \<Rightarrow> Some k1 | Some d \<Rightarrow> vma_write_data rd (start_vaddr v') d offset v' k1);
          push_no_map v' (ms\<lparr>mpt := pt'\<rparr>, k2) })"

text \<open>
  The kernel's own space. The bounds of its sections come from the linker; the last list is the device memory.
\<close>

record layout =
  stext :: usize
  etext :: usize
  srodata :: usize
  erodata :: usize
  sdata :: usize
  edata :: usize
  estack :: usize
  sbss :: usize
  ebss :: usize
  ekernel :: usize

definition MAX_CORE_NUM :: nat where "MAX_CORE_NUM = 8"
definition CORE_STACK_SIZE :: usize where "CORE_STACK_SIZE = 0x10000"
definition MMIO :: "(usize \<times> usize \<times> map_permission) list" where
  "MMIO = [(0x10001000, 0x2000, MP_R OR MP_W)]"

definition kernel_areas :: "layout \<Rightarrow> (usize \<times> usize \<times> map_permission \<times> vma_type) list" where
  "kernel_areas y =
     [(stext y, etext y, MP_R OR MP_X, Elf), (srodata y, erodata y, MP_R, Elf), (sdata y, edata y, MP_R OR MP_W, Elf)] @
     map (\<lambda>cpu. let top = estack y - CORE_STACK_SIZE * of_nat cpu in
            (top - CORE_STACK_SIZE + PAGE_SIZE, top, MP_R OR MP_W, Elf)) [0..<MAX_CORE_NUM] @
     [(sbss y, ebss y, MP_R OR MP_W, Elf),
      (ekernel y, MEMORY_END + PHY_TO_VIRT_OFFSET, MP_R OR MP_W, PhysFrame)] @
     map (\<lambda>(start, len, per). (start + PHY_TO_VIRT_OFFSET, start + len + PHY_TO_VIRT_OFFSET, per, Mmio)) MMIO"

definition ms_new_kernel :: "disk_read \<Rightarrow> layout \<Rightarrow> pmem \<Rightarrow> (memory_set \<times> pmem) option" where
  "ms_new_kernel rd y k =
     do { (k', pt) \<leftarrow> page_table_new k;
          foldM (\<lambda>(s, e, per, vt) st. do { v \<leftarrow> vma_new s e per Direct vt None; ms_push rd v None 0 st })
            (kernel_areas y) (\<lparr>areas = [], mpt = pt, heap_end = 0, cow = []\<rparr>, k') }"

definition alloc_vma_anywhere ::
  "usize \<Rightarrow> usize \<Rightarrow> map_permission \<Rightarrow> map_type \<Rightarrow> handler option \<Rightarrow> memory_set \<Rightarrow> vma option option" where
  "alloc_vma_anywhere hint len per mt h ms =
     (case find_anywhere hint len (areas ms) of
        None \<Rightarrow> Some None
      | Some start \<Rightarrow> do { v \<leftarrow> vma_new start (start + len) per mt Mmap h; Some (Some v) })"

definition alloc_vma_fixed ::
  "usize \<Rightarrow> usize \<Rightarrow> map_permission \<Rightarrow> map_type \<Rightarrow> handler option \<Rightarrow> memory_set \<times> pmem \<Rightarrow> ((memory_set \<times> pmem) \<times> vma option) option" where
  "alloc_vma_fixed start end per mt h s = (case s of (ms, k) \<Rightarrow>
     do { ((segs, k', pt'), r) \<leftarrow> find_fixed start end (areas ms, k, mpt ms);
          let s' = (ms\<lparr>areas := segs, mpt := pt'\<rparr>, k');
          (case r of
             None \<Rightarrow> Some (s', None)
           | Some a \<Rightarrow> do { v \<leftarrow> vma_new a end per mt Mmap h; Some (s', Some v) }) })"

definition ms_mmap :: "vma \<Rightarrow> (usize \<times> nat) option \<Rightarrow> memory_set \<times> pmem \<Rightarrow> ((memory_set \<times> pmem) \<times> usize option) option" where
  "ms_mmap v backen s =
     do { let v' = (case backen of None \<Rightarrow> v | Some f \<Rightarrow> v\<lparr>pma := add_backen_file f (pma v)\<rparr>);
          s' \<leftarrow> push_no_map v' s;
          Some (s', Some (start_vaddr v)) }"

definition ms_mprotect :: "usize \<Rightarrow> usize \<Rightarrow> map_permission \<Rightarrow> memory_set \<times> pmem \<Rightarrow> (memory_set \<times> pmem) option" where
  "ms_mprotect start end flags s = (case s of (ms, k) \<Rightarrow>
     do { (segs, k', pt') \<leftarrow> vr_mprotect start end flags (areas ms, k, mpt ms);
          Some (ms\<lparr>areas := segs, mpt := pt'\<rparr>, k') })"

definition ms_munmap :: "usize \<Rightarrow> usize \<Rightarrow> memory_set \<times> pmem \<Rightarrow> (memory_set \<times> pmem) option" where
  "ms_munmap start end s = (case s of (ms, k) \<Rightarrow>
     do { (segs, k', pt') \<leftarrow> vr_unmap start end (areas ms, k, mpt ms);
          Some (ms\<lparr>areas := segs, mpt := pt'\<rparr>, k') })"

definition ms_expand :: "usize \<Rightarrow> usize \<Rightarrow> memory_set \<Rightarrow> (memory_set \<times> bool os_result) option" where
  "ms_expand start end ms =
     do { (segs, r) \<leftarrow> vr_expand start end (areas ms); Some (ms\<lparr>areas := segs\<rparr>, r) }"

text \<open>The search by page number compares with the half-open range of pages of each area.\<close>

fun find_vm_by_vpn :: "usize \<Rightarrow> vma_range_map \<Rightarrow> (usize \<times> vma) option option" where
  "find_vm_by_vpn vpn [] = Some None"
| "find_vm_by_vpn vpn ((i, v) # segs) =
     do { s \<leftarrow> virt_to_vpn (start_vaddr v); e \<leftarrow> virt_to_vpn (end_vaddr v);
          if s \<le> vpn \<and> vpn < e then Some (Some (i, v)) else find_vm_by_vpn vpn segs }"

definition find_vm_by_vaddr :: "usize \<Rightarrow> vma_range_map \<Rightarrow> (usize \<times> vma) option" where
  "find_vm_by_vaddr vaddr segs = List.find (\<lambda>(_, v). is_contain vaddr v) segs"

definition ms_handle_page_fault ::
  "disk_read \<Rightarrow> (nat \<Rightarrow> nat) \<Rightarrow> usize \<Rightarrow> memory_set \<times> caches \<times> pmem \<Rightarrow> ((memory_set \<times> caches \<times> pmem) \<times> unit os_result) option" where
  "ms_handle_page_fault rd file_inode vaddr s = (case s of (ms, cs, k) \<Rightarrow>
     (case find_vm_by_vaddr vaddr (areas ms) of
       None \<Rightarrow> Some (s, Inl EFAULT)
     | Some (i, v) \<Rightarrow>
         do { in_cow \<leftarrow> is_in_cow vaddr (cow ms);
              if in_cow then
                do { (m, cow', k', pt') \<leftarrow> cow_fault vaddr (pma v) (cow ms) (k, mpt ms);
                     Some ((ms\<lparr>areas := bt_insert i (v\<lparr>pma := m\<rparr>) (areas ms), mpt := pt', cow := cow'\<rparr>, cs, k'), Inr ()) }
              else
                do { (v', cs', k', pt') \<leftarrow> vma_handle_page_fault rd file_inode vaddr v (cs, k, mpt ms);
                     Some ((ms\<lparr>areas := bt_insert i v' (areas ms), mpt := pt'\<rparr>, cs', k'), Inr ()) } }))"

section \<open>Copying an address space\<close>

text \<open>One page of an eager copy: a new page with the bytes of the old one.\<close>

definition copy_page :: "page_table \<Rightarrow> usize \<Rightarrow> vma \<times> pstate \<Rightarrow> (vma \<times> pstate) option" where
  "copy_page old_pt vpn s = (case s of (v, k, pt) \<Rightarrow>
     do { va \<leftarrow> vpn_to_virt vpn;
          pa \<leftarrow> translate_va_to_pa k old_pt va;
          src \<leftarrow> phys_to_ppn pa;
          (v', (k', pt'), dst) \<leftarrow> vma_map_one vpn None v (k, pt);
          d \<leftarrow> byte_array (ppn_to_phys dst);
          sr \<leftarrow> byte_array (ppn_to_phys src);
          Some (v', k'\<lparr>phys := (phys k')(d := phys k' sr)\<rparr>, pt') })"

definition copy_area :: "page_table \<Rightarrow> vma \<Rightarrow> memory_set \<times> pmem \<Rightarrow> (memory_set \<times> pmem) option" where
  "copy_area old_pt v s = (case s of (ms, k) \<Rightarrow>
     do { r \<leftarrow> vma_range v;
          (v', k', pt') \<leftarrow> foldM (copy_page old_pt) r (vma_from_another v, k, mpt ms);
          push_no_map v' (ms\<lparr>mpt := pt'\<rparr>, k') })"

definition from_user :: "usize \<Rightarrow> memory_set \<Rightarrow> pmem \<Rightarrow> (memory_set \<times> pmem) option" where
  "from_user kernel_root ms k =
     do { s \<leftarrow> ms_new_user kernel_root k;
          (ms', k') \<leftarrow> foldM (copy_area (mpt ms)) (map snd (areas ms)) s;
          Some (ms'\<lparr>heap_end := heap_end ms\<rparr>, k') }"

text \<open>
  One page of a lazy copy: both spaces map the old page without write permission and remember it; a page that is not
  allocated is not handled (\<^verbatim>\<open>todo!()\<close>). The state is the old space's set of shared pages, the new space and memory.
\<close>

definition share_page ::
  "page_table \<Rightarrow> vma \<Rightarrow> usize \<Rightarrow> (usize, usize) btree_map \<times> memory_set \<times> pmem \<Rightarrow> ((usize, usize) btree_map \<times> memory_set \<times> pmem) option" where
  "share_page old_pt v vpn s = (case s of (old_cow, ms, k) \<Rightarrow>
     do { pg \<leftarrow> bt_get (page_manager (pma v)) vpn;
          va \<leftarrow> vpn_to_virt vpn;
          r \<leftarrow> translate_va_to_pte k old_pt va;
          l \<leftarrow> r;
          let flags = flags_remove PTE_W (pte_flags (get_word k l) OR PTE_COW);
          let k1 = set_word l (pte_set_flags flags (get_word k l)) k;
          (k2, pt') \<leftarrow> map_one vpn pg flags k1 (mpt ms);
          k3 \<leftarrow> arc_clone pg k2;
          k4 \<leftarrow> (case bt_get (cow ms) vpn of None \<Rightarrow> Some k3 | Some old \<Rightarrow> arc_drop old k3);
          k5 \<leftarrow> arc_clone pg k4;
          k6 \<leftarrow> (case bt_get old_cow vpn of None \<Rightarrow> Some k5 | Some old \<Rightarrow> arc_drop old k5);
          Some (bt_insert vpn pg old_cow, ms\<lparr>mpt := pt', cow := bt_insert vpn pg (cow ms)\<rparr>, k6) })"

definition share_area ::
  "page_table \<Rightarrow> vma \<Rightarrow> (usize, usize) btree_map \<times> memory_set \<times> pmem \<Rightarrow> ((usize, usize) btree_map \<times> memory_set \<times> pmem) option" where
  "share_area old_pt v s =
     do { r \<leftarrow> vma_range v;
          (old_cow, ms, k) \<leftarrow> foldM (share_page old_pt v) r s;
          (ms', k') \<leftarrow> push_no_map (vma_from_another v) (ms, k);
          Some (old_cow, ms', k') }"

definition from_user_lazily :: "usize \<Rightarrow> memory_set \<Rightarrow> pmem \<Rightarrow> (memory_set \<times> memory_set \<times> pmem) option" where
  "from_user_lazily kernel_root ms k =
     do { (new, k1) \<leftarrow> ms_new_user kernel_root k;
          (c, k2) \<leftarrow> from_other_cow (cow ms) (mpt new) k1;
          (old_cow, new', k3) \<leftarrow> foldM (share_area (mpt ms)) (map snd (areas ms)) (cow ms, new\<lparr>cow := c\<rparr>, k2);
          Some (ms\<lparr>cow := old_cow\<rparr>, new', k3) }"

definition clear_user_space :: "memory_set \<times> pmem \<Rightarrow> (memory_set \<times> pmem) option" where
  "clear_user_space s =
     do { (ms, k) \<leftarrow> ms_munmap LOW_LIMIT USER_UPPER_LIMIT s;
          k' \<leftarrow> cow_clear (cow ms) k;
          Some (ms\<lparr>cow := [], heap_end := 0\<rparr>, k') }"

section \<open>System calls\<close>

definition mmap_prot_all :: mmap_prot where "mmap_prot_all = PROT_READ OR PROT_WRITE OR PROT_EXEC"
definition mmap_flags_all :: mmap_flags where
  "mmap_flags_all = MAP_SHARED OR MAP_PRIVATE OR MAP_FIXED OR MAP_ANONYMOUS OR MAP_STACK"

definition from_bits_truncate :: "'a::len word \<Rightarrow> 'a word \<Rightarrow> 'a word" where
  "from_bits_truncate all v = v AND all"

definition intersects :: "'a::len word \<Rightarrow> 'a word \<Rightarrow> bool" where
  "intersects v f \<longleftrightarrow> v AND f \<noteq> 0"

text \<open>\<open>fd_file\<close> looks up the file of a descriptor of the calling process.\<close>

definition sys_mmap ::
  "(nat \<Rightarrow> nat option) \<Rightarrow> usize \<Rightarrow> usize \<Rightarrow> u32 \<Rightarrow> u32 \<Rightarrow> nat \<Rightarrow> usize \<Rightarrow> memory_set \<times> pmem \<Rightarrow> ((memory_set \<times> pmem) \<times> usize os_result) option" where
  "sys_mmap fd_file addr len prot0 flags0 fd offset s =
     (if \<not> vaddr_is_align offset \<or> len = 0 \<or> \<not> vaddr_is_align addr then Some (s, Inl EINVAL)
      else
        let prot = from_bits_truncate mmap_prot_all prot0;
            flags1 = from_bits_truncate mmap_flags_all flags0 in
        if \<not> intersects flags1 (MAP_PRIVATE OR MAP_SHARED) then Some (s, Inl EINVAL)
        else
          let flags = flags_remove MAP_PRIVATE flags1 OR MAP_SHARED;
              per = map_permission_of_prot prot OR MP_U in
          if contains flags MAP_FIXED \<and> addr = 0 then Some (s, Inl EINVAL)
          else
            do { (s', ov) \<leftarrow>
                   (if contains flags MAP_FIXED then alloc_vma_fixed addr (addr + len) per Framed (Some MmapHandler) s
                    else do { ov \<leftarrow> alloc_vma_anywhere addr len per Framed (Some MmapHandler) (fst s); Some (s, ov) });
                 (case ov of
                    None \<Rightarrow> Some (s', Inl ENOMEM)
                  | Some v \<Rightarrow>
                      if contains flags MAP_ANONYMOUS then
                        (if offset \<noteq> 0 then Some (s', Inl EINVAL)
                         else do { (s'', r) \<leftarrow> ms_mmap v None s'; a \<leftarrow> r; Some (s'', Inr a) })
                      else
                        (case fd_file fd of
                           None \<Rightarrow> Some (s', Inl EBADF)
                         | Some f \<Rightarrow> do { (s'', r) \<leftarrow> ms_mmap v (Some (offset, f)) s'; a \<leftarrow> r; Some (s'', Inr a) })) })"

definition sys_mprotect :: "usize \<Rightarrow> usize \<Rightarrow> u32 \<Rightarrow> memory_set \<times> pmem \<Rightarrow> ((memory_set \<times> pmem) \<times> usize os_result) option" where
  "sys_mprotect addr len prot s =
     (if \<not> vaddr_is_align addr then Some (s, Inl EINVAL)
      else
        (case from_bits mmap_prot_all prot of
           None \<Rightarrow> Some (s, Inl EINVAL)
         | Some flags \<Rightarrow>
             if contains flags PROT_NONE then Some (s, Inr 0)
             else do { s' \<leftarrow> ms_mprotect addr (addr + len) (map_permission_of_prot flags) s;
                       _ \<leftarrow> ms_activate (fst s');
                       Some (s', Inr 0) }))"

definition sys_munmap :: "usize \<Rightarrow> usize \<Rightarrow> memory_set \<times> pmem \<Rightarrow> ((memory_set \<times> pmem) \<times> usize os_result) option" where
  "sys_munmap addr len s =
     (if \<not> vaddr_is_align addr \<or> len = 0 then Some (s, Inl EINVAL)
      else do { s' \<leftarrow> ms_munmap addr (addr + len) s;
                _ \<leftarrow> ms_activate (fst s');
                Some (s', Inr 0) })"

definition sys_brk :: "usize \<Rightarrow> memory_set \<times> pmem \<Rightarrow> ((memory_set \<times> pmem) \<times> usize os_result) option" where
  "sys_brk addr s = (case s of (ms, k) \<Rightarrow>
     if addr = 0 then Some (s, Inr (heap_end ms))
     else if heap_end ms < addr then
       do { (ms', r) \<leftarrow> ms_expand (heap_end ms) addr ms;
            (case r of
               Inl e \<Rightarrow> Some ((ms', k), Inl e)
             | Inr _ \<Rightarrow> do { _ \<leftarrow> ms_activate ms'; Some ((ms'\<lparr>heap_end := addr\<rparr>, k), Inr 0) }) }
     else
       do { (ms', k') \<leftarrow> (if addr < heap_end ms then ms_munmap addr (heap_end ms) (ms, k) else Some (ms, k));
            _ \<leftarrow> ms_activate ms';
            Some ((ms', k'), Inr 0) })"

section \<open>Page faults\<close>

lemma activate_returns: "pt_wf k pt \<Longrightarrow> \<exists>t. activate pt = Some t"
proof -
  assume wf: "pt_wf k pt"
  have "frame_ppn (pt_root pt)" using pt_wfD(2) [OF wf, of "[]"] by simp
  from frame_ppn_phys(1) [OF this] show ?thesis
    by (simp add: activate_def token_def root_ppn_def phys_to_ppn_def pt_wfD(1) [OF wf] phys_ok_def)
qed

text \<open>The flags with which the handlers map a fresh page.\<close>

definition fault_flags :: "handler \<Rightarrow> map_permission \<Rightarrow> pte_flags" where
  "fault_flags h per = (case h of UStackHandler \<Rightarrow> PTE_W OR PTE_R OR PTE_U
     | UHeapHandler \<Rightarrow> PTE_W OR PTE_R OR PTE_U OR PTE_X | _ \<Rightarrow> pte_flags_of_map per)"

lemma fault_spec:
  assumes wf: "st_wf (k, pt)" and own: "vma_own v k" and va: "user_va vaddr"
    and free: "pt_view k pt (vpn_of vaddr) = None" "page_at v (vpn_of vaddr) = None" and room: "3 \<le> card (free_frames k)"
    and h: "page_fault_handler v = Some hr" "hr \<noteq> CowHandler" "hr = MmapHandler \<longrightarrow> backen_file (pma v) = None"
  shows "\<exists>m k' pt' f. vma_handle_page_fault rd fi vaddr v (cs, k, pt) = Some (v\<lparr>pma := m\<rparr>, cs, k', pt') \<and> st_wf (k', pt') \<and>
    vma_own (v\<lparr>pma := m\<rparr>) k' \<and> bt_get (page_manager m) = (page_at v)(vpn_of vaddr \<mapsto> f) \<and> pages k f = None \<and>
    pages k' = (pages k)(f \<mapsto> (\<lparr>permission = page_permission_of_map (map_permission v), disk_file = None, cow_count = 0\<rparr>, 1)) \<and>
    phys k' f = (\<lambda>_. 0) \<and> (\<forall>p. pages k p \<noteq> None \<longrightarrow> phys k' p = phys k p) \<and>
    (\<forall>w. vpn_ok w \<longrightarrow> pt_view k' pt' w =
       (if w = vpn_of vaddr then Some (pte_new f (fault_flags hr (map_permission v) OR PTE_A OR PTE_D OR PTE_V)) else pt_view k pt w))"
proof -
  let ?vpn = "vpn_of vaddr" and ?per = "page_permission_of_map (map_permission v)" and ?fl = "fault_flags hr (map_permission v)"
  obtain k1 k' pt' f m where n: "page_new ?per k = Some (k1, f)" "push_pma_page ?vpn f (pma v) k1 = Some (m, k1)"
      "map_one ?vpn f ?fl k1 pt = Some (k', pt')" and st: "st_wf (k', pt')"
    and r: "vma_own (v\<lparr>pma := m\<rparr>) k' \<and> bt_get (page_manager m) = (page_at v)(?vpn \<mapsto> f) \<and> pages k f = None \<and>
      pages k' = (pages k)(f \<mapsto> (\<lparr>permission = ?per, disk_file = None, cow_count = 0\<rparr>, 1)) \<and>
      phys k' f = (\<lambda>_. 0) \<and> (\<forall>p. pages k p \<noteq> None \<longrightarrow> phys k' p = phys k p) \<and>
      (\<forall>w. vpn_ok w \<longrightarrow> pt_view k' pt' w =
         (if w = ?vpn then Some (pte_new f (?fl OR PTE_A OR PTE_D OR PTE_V)) else pt_view k pt w))"
    using fresh_page_mapped [OF wf own user_va_vpn_ok [OF va] free room, of ?per ?fl] by (elim exE conjE) (rule that; simp)
  obtain t where "activate pt' = Some t" using activate_returns [of k' pt'] st by (auto simp: st_wf_def)
  moreover have "virt_to_vpn vaddr = Some ?vpn" using va by (simp add: virt_to_vpn_def check_user_va_def PAGE_SIZE_BITS_def)
  ultimately have "anon_fault (map_permission v) ?fl vaddr (pma v) (k, pt) = Some (m, k', pt')"
    using n by (simp add: anon_fault_def)
  then have "vma_handle_page_fault rd fi vaddr v (cs, k, pt) = Some (v\<lparr>pma := m\<rparr>, cs, k', pt')"
    using h by (cases hr) (simp_all add: vma_handle_page_fault_def ustack_fault_def uheap_fault_def mmap_fault_def fault_flags_def)
  then show ?thesis using st r by blast
qed

section \<open>Areas of an address space\<close>

text \<open>The areas are stored under their start, not empty, aligned, below 4 GiB, and no two overlap.\<close>

definition areas_ok :: "vma_range_map \<Rightarrow> bool" where
  "areas_ok segs \<longleftrightarrow> segs_wf segs \<and>
     (\<forall>i v. bt_get segs i = Some v \<longrightarrow> i < end_vaddr v \<and> aligned i \<and> aligned (end_vaddr v)) \<and>
     (\<forall>i j v w. bt_get segs i = Some v \<longrightarrow> bt_get segs j = Some w \<longrightarrow> i < j \<longrightarrow> end_vaddr v \<le> j)"

lemma segs_wf_iff:
  "segs_wf segs \<longleftrightarrow> bt_wf segs \<and>
     (\<forall>i v. bt_get segs i = Some v \<longrightarrow> start_vaddr v = i \<and> i \<le> end_vaddr v \<and> unat (end_vaddr v) < 2 ^ 32)"
  by (auto simp: segs_wf_def bt_get_iff)

lemma areas_okD:
  assumes "areas_ok segs"
  shows "segs_wf segs" "bt_wf segs" "\<And>i v. bt_get segs i = Some v \<Longrightarrow> start_vaddr v = i \<and> i < end_vaddr v \<and>
    aligned i \<and> aligned (end_vaddr v) \<and> unat (end_vaddr v) < 2 ^ 32"
    "\<And>i j v w. bt_get segs i = Some v \<Longrightarrow> bt_get segs j = Some w \<Longrightarrow> i < j \<Longrightarrow> end_vaddr v \<le> j"
  using assms by (auto simp: areas_ok_def segs_wf_iff)

lemma areas_ok_insert:
  assumes ok: "areas_ok segs" and v: "start_vaddr v < end_vaddr v" "aligned (start_vaddr v)" "aligned (end_vaddr v)"
      "unat (end_vaddr v) < 2 ^ 32"
    and apart: "\<And>j w. bt_get segs j = Some w \<Longrightarrow> j \<noteq> start_vaddr v \<Longrightarrow> disjoint_range (start_vaddr v) (end_vaddr v) w"
  shows "areas_ok (bt_insert (start_vaddr v) v segs)"
proof -
  note d = areas_okD [OF ok]
  have wf: "segs_wf (bt_insert (start_vaddr v) v segs)" using d(1,2) v by (auto simp: segs_wf_iff)
  have get: "bt_get (bt_insert (start_vaddr v) v segs) i = (if i = start_vaddr v then Some v else bt_get segs i)" for i
    using d(2) by simp
  have "end_vaddr x \<le> j"
    if x: "bt_get (bt_insert (start_vaddr v) v segs) i = Some x" and y: "bt_get (bt_insert (start_vaddr v) v segs) j = Some y" and lt: "i < j"
    for i j x y
  proof (cases "i = start_vaddr v")
    case True
    then have "x = v" "j \<noteq> start_vaddr v" using x lt get by auto
    moreover have "bt_get segs j = Some y" using y get calculation(2) by simp
    ultimately show ?thesis using apart [of j y] d(3) [of j y] lt True by (auto simp: disjoint_range_def)
  next
    case False
    then have x': "bt_get segs i = Some x" using x get by simp
    show ?thesis
    proof (cases "j = start_vaddr v")
      case True
      then show ?thesis using apart [OF x' False] d(3) [OF x'] lt v by (auto simp: disjoint_range_def)
    next
      case False
      then show ?thesis using d(4) [OF x'] y get lt by simp
    qed
  qed
  then show ?thesis unfolding areas_ok_def using wf d(2,3) v by auto
qed

lemma aligned_vaddr: "vaddr_is_align x \<longleftrightarrow> aligned x"
  by (simp add: vaddr_is_align_def aligned_def PAGE_SIZE_def and_low_12)

lemma unat_aligned: "aligned x \<longleftrightarrow> unat x mod 4096 = 0"
  using unat_take_12 [of x] by (simp add: aligned_def word_unat_eq_iff)

text \<open>An aligned address rounds to itself, and rounding up stays below an aligned bound.\<close>

lemma align_fixed: "user_va x \<Longrightarrow> aligned x \<Longrightarrow> align_down x = Some x \<and> align_up x = Some x"
proof -
  assume x: "user_va x" "aligned x"
  obtain q where q: "unat x = 4096 * q" using x(2) by (auto simp: unat_aligned)
  have "push_bit 12 (drop_bit 12 x) = x" by (simp add: word_unat_eq_iff unat_push_drop_12 q)
  moreover have "push_bit 12 (drop_bit 12 (x + 0xfff)) = x"
    by (simp only: word_unat_eq_iff unat_push_drop_12 unat_add_page [OF x(1)] q) simp
  ultimately show ?thesis using x(1) by (simp add: align_down_eq align_up_eq)
qed

lemma align_up_below:
  assumes "user_va x" "x \<le> b" "aligned b"
  shows "\<exists>u. align_up x = Some u \<and> x \<le> u \<and> u \<le> b \<and> aligned u"
proof -
  let ?u = "push_bit 12 (drop_bit 12 (x + 0xfff))"
  obtain q where q: "unat b = 4096 * q" using assms(3) by (auto simp: unat_aligned)
  have "unat x \<le> 4096 * q" using assms(2) q by (simp add: word_le_nat_alt)
  then have "unat x \<le> unat ?u" "unat ?u \<le> unat b"
    unfolding unat_push_drop_12 unat_add_page [OF assms(1)] q by simp_all
  then show ?thesis using align_up_eq [OF assms(1)] by (simp add: word_le_nat_alt)
qed

text \<open>The search for room returns an aligned address when all areas and the hint are aligned, with room up to the next area.\<close>

lemma find_loop_aligned:
  "aligned l \<Longrightarrow> \<forall>(i, v) \<in> set segs. aligned (end_vaddr v) \<Longrightarrow>
    (case find_anywhere_loop len l segs of Inl a \<Rightarrow> aligned a \<and> (\<exists>(i, v) \<in> set segs. a + len \<le> i) | Inr a \<Rightarrow> aligned a)"
proof (induction len l segs rule: find_anywhere_loop.induct)
  case (2 len l i v segs)
  have "aligned (max l (end_vaddr v))" using 2(2,3) by (simp add: max_def)
  then show ?case using 2 by (auto split: sum.splits)
qed simp

lemma find_anywhere_room:
  assumes ok: "areas_ok segs" and hint: "aligned hint" and f: "find_anywhere hint len segs = Some a"
  shows "aligned a \<and> (\<exists>b. a + len \<le> b \<and> aligned b \<and> unat b < 2 ^ 32)"
proof -
  have "aligned MMAP_BOTTOM" "aligned MMAP_TOP" "unat MMAP_TOP < 2 ^ 32"
    by (simp_all add: aligned_def MMAP_BOTTOM_def MMAP_TOP_def take_bit_eq_mod)
  moreover have "\<forall>(i, v) \<in> set segs. aligned (end_vaddr v) \<and> aligned i \<and> unat i < 2 ^ 32"
    using areas_okD(2,3) [OF ok] by (fastforce simp: bt_get_iff [symmetric] word_less_nat_alt)
  moreover have "aligned (max hint MMAP_BOTTOM)" using hint calculation(1) by (simp add: max_def)
  ultimately show ?thesis using find_loop_aligned [of "max hint MMAP_BOTTOM" segs len] f
    by (fastforce simp: find_anywhere_def split: sum.splits if_splits)
qed

text \<open>Anonymous mappings where there is room.\<close>

lemma contains_masked: "c AND a = 0 \<Longrightarrow> c AND b = 0 \<Longrightarrow> contains (flags_remove a f OR b) c \<longleftrightarrow> contains f c"
  unfolding contains_def flags_remove_def by (simp add: bit_eq_iff bit_simps) blast

lemma contains_truncate: "c AND all = c \<Longrightarrow> contains (from_bits_truncate all f) c \<longleftrightarrow> contains f c"
  unfolding contains_def from_bits_truncate_def by (simp add: bit_eq_iff bit_simps) blast

lemma intersects_truncate: "c AND all = c \<Longrightarrow> intersects (from_bits_truncate all f) c \<longleftrightarrow> intersects f c"
  unfolding intersects_def from_bits_truncate_def by (simp add: bit_eq_iff bit_simps) blast

lemmas map_flag_defs = MAP_SHARED_def MAP_PRIVATE_def MAP_FIXED_def MAP_ANONYMOUS_def MAP_STACK_def mmap_flags_all_def

text \<open>An area that can be added to others: it is well formed and overlaps none of them.\<close>

definition new_area :: "vma \<Rightarrow> vma_range_map \<Rightarrow> bool" where
  "new_area v segs \<longleftrightarrow> start_vaddr v < end_vaddr v \<and> aligned (start_vaddr v) \<and> aligned (end_vaddr v) \<and> unat (end_vaddr v) < 2 ^ 32 \<and>
     bt_get segs (start_vaddr v) = None \<and> (\<forall>j w. bt_get segs j = Some w \<longrightarrow> disjoint_range (start_vaddr v) (end_vaddr v) w)"

lemma alloc_anywhere_spec:
  assumes ok: "areas_ok (areas ms)" and addr: "aligned addr" "unat addr < 2 ^ 32" and len: "0 < unat len" "unat len < 2 ^ 32"
  shows "case find_anywhere addr len (areas ms) of
      None \<Rightarrow> alloc_vma_anywhere addr len per mt h ms = Some None
    | Some a \<Rightarrow> \<exists>e. align_up (a + len) = Some e \<and> a + len \<le> e \<and>
        (let v = \<lparr>pma = pma_new, start_vaddr = a, end_vaddr = e, map_permission = per, vma_type = Mmap, map_type = mt, page_fault_handler = h\<rparr> in
         alloc_vma_anywhere addr len per mt h ms = Some (Some v) \<and> new_area v (areas ms))"
proof (cases "find_anywhere addr len (areas ms)")
  case None
  then show ?thesis by (simp add: alloc_vma_anywhere_def)
next
  case (Some a)
  note d = areas_okD [OF ok]
  have a: "unat a < 2 ^ 32" "fits len a (areas ms)" using find_anywhere_spec [OF d(1) len addr(2)] Some by simp_all
  obtain b where b: "aligned a" "a + len \<le> b" "aligned b" "unat b < 2 ^ 32" using find_anywhere_room [OF ok addr(1) Some] by blast
  have lt: "a < a + len" "unat (a + len) < 2 ^ 32"
    using low_add [of a len] a(1) len b(2,4) by (simp_all add: word_less_nat_alt word_le_nat_alt)
  obtain e where e: "align_up (a + len) = Some e" "a + len \<le> e" "e \<le> b" "aligned e"
    using align_up_below [OF low_user_va [OF lt(2)] b(2,3)] by blast
  have ae: "a < e" "unat e < 2 ^ 32" using less_le_trans [OF lt(1) e(2)] e(3) b(4) by (simp_all add: word_le_nat_alt)
  have dis: "disjoint_range a e w" if "bt_get (areas ms) j = Some w" for j w
  proof -
    have w: "start_vaddr w = j" "aligned j" using d(3) [OF that] by simp_all
    have "disjoint_range a (a + len) w" using a(2) that d(2) by (auto simp: fits_def bt_get_iff)
    moreover have "e \<le> j" if "a + len \<le> j" using align_up_below [OF low_user_va [OF lt(2)] that w(2)] e(1) by simp
    ultimately show ?thesis using w(1) by (auto simp: disjoint_range_def)
  qed
  have "bt_get (areas ms) a = None"
  proof (rule ccontr)
    assume "bt_get (areas ms) a \<noteq> None"
    then obtain w where "bt_get (areas ms) a = Some w" by blast
    then show False using dis [of a w] d(3) [of a w] ae(1) by (auto simp: disjoint_range_def)
  qed
  then show ?thesis
    using Some e ae dis b(1) align_fixed [OF low_user_va [OF a(1)] b(1)]
    by (auto simp: alloc_vma_anywhere_def vma_new_def new_area_def Let_def)
qed

lemma ms_mmap_spec:
  fixes b :: "(usize \<times> nat) option"
  assumes ok: "areas_ok (areas ms)" and new: "new_area v (areas ms)"
  defines "v' \<equiv> (case b of None \<Rightarrow> v | Some f \<Rightarrow> v\<lparr>pma := add_backen_file f (pma v)\<rparr>)"
  shows "ms_mmap v b (ms, k) = Some ((ms\<lparr>areas := bt_insert (start_vaddr v) v' (areas ms)\<rparr>, k), Some (start_vaddr v))"
    "areas_ok (bt_insert (start_vaddr v) v' (areas ms))"
proof -
  have v': "start_vaddr v' = start_vaddr v" "end_vaddr v' = end_vaddr v" by (simp_all add: v'_def split: option.splits)
  show "ms_mmap v b (ms, k) = Some ((ms\<lparr>areas := bt_insert (start_vaddr v) v' (areas ms)\<rparr>, k), Some (start_vaddr v))"
    using new v'(1) by (simp add: ms_mmap_def push_no_map_def insert_raw_def new_area_def v'_def [symmetric] Let_def)
  show "areas_ok (bt_insert (start_vaddr v) v' (areas ms))"
    using areas_ok_insert [OF ok, of v'] new unfolding v' new_area_def by blast
qed

lemma sys_mmap_anon:
  assumes ok: "areas_ok (areas ms)" and addr: "aligned addr" "unat addr < 2 ^ 32" and len: "0 < unat len" "unat len < 2 ^ 32"
    and fl: "intersects flags (MAP_PRIVATE OR MAP_SHARED)" "contains flags MAP_ANONYMOUS" "\<not> contains flags MAP_FIXED"
  shows "case find_anywhere addr len (areas ms) of
      None \<Rightarrow> sys_mmap fd_file addr len prot flags fd 0 (ms, k) = Some ((ms, k), Inl ENOMEM)
    | Some a \<Rightarrow> \<exists>e. align_up (a + len) = Some e \<and> a + len \<le> e \<and>
        (let v = \<lparr>pma = pma_new, start_vaddr = a, end_vaddr = e, map_permission = map_permission_of_prot (from_bits_truncate mmap_prot_all prot) OR MP_U,
           vma_type = Mmap, map_type = Framed, page_fault_handler = Some MmapHandler\<rparr> in
         sys_mmap fd_file addr len prot flags fd 0 (ms, k) = Some ((ms\<lparr>areas := bt_insert a v (areas ms)\<rparr>, k), Inr a) \<and>
         new_area v (areas ms) \<and> areas_ok (bt_insert a v (areas ms)))"
proof -
  let ?per = "map_permission_of_prot (from_bits_truncate mmap_prot_all prot) OR MP_U"
  let ?f = "flags_remove MAP_PRIVATE (from_bits_truncate mmap_flags_all flags) OR MAP_SHARED"
  have "contains ?f MAP_ANONYMOUS" "\<not> contains ?f MAP_FIXED"
    using fl(2,3) by (simp_all add: contains_masked contains_truncate map_flag_defs)
  moreover have "intersects (from_bits_truncate mmap_flags_all flags) (MAP_PRIVATE OR MAP_SHARED)"
    using fl(1) by (subst intersects_truncate) (simp_all add: map_flag_defs)
  moreover have "vaddr_is_align 0" "len \<noteq> 0" using len(1) by (auto simp: vaddr_is_align_def)
  ultimately have unf: "sys_mmap fd_file addr len prot flags fd 0 (ms, k) =
    do { ov \<leftarrow> alloc_vma_anywhere addr len ?per Framed (Some MmapHandler) ms;
         (case ov of None \<Rightarrow> Some ((ms, k), Inl ENOMEM)
          | Some v \<Rightarrow> do { (s, r) \<leftarrow> ms_mmap v None (ms, k); a \<leftarrow> r; Some (s, Inr a) }) }"
    using addr(1) by (simp add: sys_mmap_def Let_def aligned_vaddr)
  note al = alloc_anywhere_spec [OF ok addr len, of ?per Framed "Some MmapHandler"]
  show ?thesis
  proof (cases "find_anywhere addr len (areas ms)")
    case None
    then show ?thesis unfolding unf using al by simp
  next
    case (Some a)
    let ?v = "\<lambda>e. \<lparr>pma = pma_new, start_vaddr = a, end_vaddr = e, map_permission = ?per, vma_type = Mmap, map_type = Framed,
      page_fault_handler = Some MmapHandler\<rparr>"
    from al Some obtain e where e: "align_up (a + len) = Some e" "a + len \<le> e" and
      v: "alloc_vma_anywhere addr len ?per Framed (Some MmapHandler) ms = Some (Some (?v e))" and new: "new_area (?v e) (areas ms)"
      by (auto simp: Let_def)
    from ms_mmap_spec(1) [OF ok new, of None] ms_mmap_spec(2) [OF ok new, of None] show ?thesis
      unfolding unf using Some e v new by (simp add: Let_def)
  qed
qed

text \<open>Any call without \<^verbatim>\<open>MAP_FIXED\<close> keeps the areas apart.\<close>

lemma sys_mmap_keeps:
  assumes ok: "areas_ok (areas ms)" and addr: "unat addr < 2 ^ 32" "unat len < 2 ^ 32" and fixed: "\<not> contains flags MAP_FIXED"
    and run: "sys_mmap fd_file addr len prot flags fd offset (ms, k) = Some ((ms', k'), r)"
  shows "areas_ok (areas ms')"
proof (cases "ms' = ms")
  case False
  let ?f = "flags_remove MAP_PRIVATE (from_bits_truncate mmap_flags_all flags) OR MAP_SHARED"
  let ?per = "map_permission_of_prot (from_bits_truncate mmap_prot_all prot) OR MP_U"
  have nf: "\<not> contains ?f MAP_FIXED" using fixed by (simp add: contains_masked contains_truncate map_flag_defs)
  have al: "aligned addr" and len: "0 < unat len"
    using run False by (auto simp: sys_mmap_def aligned_vaddr unat_gt_0 split: if_splits)
  from run False nf have run': "do { ov \<leftarrow> alloc_vma_anywhere addr len ?per Framed (Some MmapHandler) ms;
       (case ov of
          None \<Rightarrow> Some ((ms, k), Inl ENOMEM)
        | Some v \<Rightarrow>
            if contains ?f MAP_ANONYMOUS then
              (if offset \<noteq> 0 then Some ((ms, k), Inl EINVAL) else do { (s'', r) \<leftarrow> ms_mmap v None (ms, k); a \<leftarrow> r; Some (s'', Inr a) })
            else
              (case fd_file fd of
                 None \<Rightarrow> Some ((ms, k), Inl EBADF)
               | Some f \<Rightarrow> do { (s'', r) \<leftarrow> ms_mmap v (Some (offset, f)) (ms, k); a \<leftarrow> r; Some (s'', Inr a) })) } = Some ((ms', k'), r)"
    by (simp add: sys_mmap_def Let_def split: if_splits)
  then obtain v where v: "alloc_vma_anywhere addr len ?per Framed (Some MmapHandler) ms = Some (Some v)"
    using False by (cases "alloc_vma_anywhere addr len ?per Framed (Some MmapHandler) ms") (auto split: option.splits)
  obtain b a where mm: "ms_mmap v b (ms, k) = Some ((ms', k'), Some a)"
    using run' False unfolding v by (auto simp: panic_simps split: if_splits option.splits)
  have "new_area v (areas ms)"
    using alloc_anywhere_spec [OF ok al addr(1) len addr(2), of ?per Framed "Some MmapHandler"] v
    by (auto simp: Let_def split: option.splits)
  from ms_mmap_spec(1) [OF ok this, of b] ms_mmap_spec(2) [OF ok this, of b] mm show ?thesis by auto
qed (use ok in simp)

text \<open>Growing the heap to an aligned address.\<close>

lemma ms_expand_spec:
  assumes ok: "areas_ok (areas ms)" and addr: "h < addr" "aligned addr" "unat addr < 2 ^ 32"
  shows "\<exists>segs r. ms_expand h addr ms = Some (ms\<lparr>areas := segs\<rparr>, r) \<and> areas_ok segs \<and>
    (if (\<exists>(i, v) \<in> set (areas ms). end_vaddr v = h) \<and>
        (\<forall>(i, v) \<in> set (areas ms). end_vaddr v = h \<or> disjoint_range h addr v)
     then r = Inr True \<and> (\<exists>i v. bt_get (areas ms) i = Some v \<and> end_vaddr v = h \<and> segs = bt_insert i (v\<lparr>end_vaddr := addr\<rparr>) (areas ms))
     else r = Inl ENOMEM \<and> segs = areas ms)"
proof -
  let ?c = "(\<exists>(i, v) \<in> set (areas ms). end_vaddr v = h) \<and> (\<forall>(i, v) \<in> set (areas ms). end_vaddr v = h \<or> disjoint_range h addr v)"
  note d = areas_okD [OF ok]
  from vr_expand_spec [OF d(1) less_imp_le [OF addr(1)]] obtain segs r where x: "vr_expand h addr (areas ms) = Some (segs, r)"
    "if ?c then r = Inr True \<and> (\<exists>i v. bt_get (areas ms) i = Some v \<and> end_vaddr v = h \<and>
        segs = bt_insert i (v\<lparr>end_vaddr := addr\<rparr>) (areas ms)) else r = Inl ENOMEM \<and> segs = areas ms" by blast
  have "areas_ok segs"
  proof (cases ?c)
    case False
    then show ?thesis using x(2) ok unfolding if_not_P [OF False] by simp
  next
    case True
    then obtain i v where v: "bt_get (areas ms) i = Some v" "end_vaddr v = h"
      "segs = bt_insert i (v\<lparr>end_vaddr := addr\<rparr>) (areas ms)" using x(2) unfolding if_P [OF True] by blast
    have i: "start_vaddr v = i" "i < h" "aligned i" using d(3) [OF v(1)] v(2) by simp_all
    have "disjoint_range i addr w" if w: "bt_get (areas ms) j = Some w" "j \<noteq> i" for j w
    proof -
      have "end_vaddr w = h \<or> disjoint_range h addr w" using True w(1) d(2) by (fastforce simp: bt_get_iff)
      then show ?thesis
        using d(3) [OF w(1)] d(4) [OF v(1) w(1)] d(4) [OF w(1) v(1)] v(2) w(2)
        by (cases i j rule: linorder_cases) (auto simp: disjoint_range_def)
    qed
    then show ?thesis
      using areas_ok_insert [OF ok, of "v\<lparr>end_vaddr := addr\<rparr>"] i addr v(3) by (auto intro: less_trans)
  qed
  then show ?thesis using x by (intro exI [of _ segs] exI [of _ r]) (simp add: ms_expand_def)
qed

lemma sys_brk_keeps:
  assumes ok: "areas_ok (areas ms)" and addr: "addr = 0 \<or> heap_end ms \<le> addr" "aligned addr" "unat addr < 2 ^ 32"
    and run: "sys_brk addr (ms, k) = Some ((ms', k'), r)"
  shows "areas_ok (areas ms')"
proof (cases "addr \<noteq> 0 \<and> heap_end ms < addr")
  case True
  then show ?thesis using ms_expand_spec [OF ok _ addr(2,3)] run
    by (fastforce simp: sys_brk_def panic_simps split: sum.splits)
next
  case False
  then show ?thesis using run ok addr(1) by (auto simp: sys_brk_def panic_simps split: if_splits)
qed

section \<open>An address space over its life\<close>

text \<open>A fault changes the pages of one area only.\<close>

lemma vma_fault_bounds:
  assumes "vma_handle_page_fault rd fi vaddr v s = Some (v', s')"
  shows "start_vaddr v' = start_vaddr v" "end_vaddr v' = end_vaddr v"
  using assms by (auto simp: vma_handle_page_fault_def panic_simps split: prod.splits option.splits handler.splits)

lemma ms_fault_areas:
  assumes ok: "areas_ok (areas ms)" and run: "ms_handle_page_fault rd fi vaddr (ms, cs, k) = Some ((ms', cs', k'), r)"
  shows "areas_ok (areas ms')"
proof (cases "find_vm_by_vaddr vaddr (areas ms)")
  case None
  then show ?thesis using ok run by (simp add: ms_handle_page_fault_def)
next
  case (Some iv)
  obtain i v where iv: "iv = (i, v)" by (cases iv)
  then have "(i, v) \<in> set (areas ms)" using Some by (auto simp: find_vm_by_vaddr_def find_Some_iff) (metis nth_mem)
  then have v: "bt_get (areas ms) i = Some v" using areas_okD(2) [OF ok] by (simp add: bt_get_iff)
  obtain v' where v': "areas ms' = bt_insert i v' (areas ms)" "start_vaddr v' = start_vaddr v" "end_vaddr v' = end_vaddr v"
    using run Some iv by (auto simp: ms_handle_page_fault_def panic_simps vma_fault_bounds split: if_splits)
  have "disjoint_range i (end_vaddr v) w" if "bt_get (areas ms) j = Some w" "j \<noteq> i" for j w
    using areas_okD(3,4) [OF ok] that v by (cases i j rule: linorder_cases) (fastforce simp: disjoint_range_def)+
  then show ?thesis using areas_ok_insert [OF ok, of v'] areas_okD(3) [OF ok v] v' by simp
qed

text \<open>
  What can happen to an address space between its creation and its end, as long as nothing is unmapped: page faults,
  mappings at an address the kernel chooses, changes of protection and of the heap's end.
\<close>

inductive space_step :: "memory_set \<times> caches \<times> pmem \<Rightarrow> memory_set \<times> caches \<times> pmem \<Rightarrow> bool" where
  fault: "ms_handle_page_fault rd fi vaddr s = Some (s', r) \<Longrightarrow> space_step s s'"
| mmap: "sys_mmap fd_file addr len prot flags fd offset (ms, k) = Some ((ms', k'), r) \<Longrightarrow> \<not> contains flags MAP_FIXED \<Longrightarrow>
    unat addr < 2 ^ 32 \<Longrightarrow> unat len < 2 ^ 32 \<Longrightarrow> space_step (ms, cs, k) (ms', cs, k')"
| mprotect: "sys_mprotect addr len prot (ms, k) = Some ((ms', k'), r) \<Longrightarrow> space_step (ms, cs, k) (ms', cs, k')"
| brk: "sys_brk addr (ms, k) = Some ((ms', k'), r) \<Longrightarrow> addr = 0 \<or> heap_end ms \<le> addr \<Longrightarrow> aligned addr \<Longrightarrow>
    unat addr < 2 ^ 32 \<Longrightarrow> space_step (ms, cs, k) (ms', cs, k')"

inductive_cases space_stepE: "space_step s s'"

lemma sys_mprotect_noop:
  "sys_mprotect addr len prot s =
     Some (s, if vaddr_is_align addr \<and> from_bits mmap_prot_all prot \<noteq> None then Inr 0 else Inl EINVAL)"
  by (simp add: sys_mprotect_def PROT_NONE_def split: option.splits)

lemma space_step_areas: "space_step s s' \<Longrightarrow> areas_ok (areas (fst s)) \<Longrightarrow> areas_ok (areas (fst s'))"
proof (induction rule: space_step.induct)
  case (fault rd fi vaddr s s' r)
  then show ?case using ms_fault_areas by (cases s; cases s') auto
next
  case mmap
  then show ?case using sys_mmap_keeps by simp
next
  case mprotect
  then show ?case by (simp add: sys_mprotect_noop)
next
  case brk
  then show ?case using sys_brk_keeps by simp
qed

section \<open>Properties\<close>


text \<open>A heap of two pages at \<open>0x1000\<close> in an otherwise empty space.\<close>

definition demo_space :: memory_set where
  "demo_space = \<lparr>areas = [(0x1000, demo_vma\<lparr>page_fault_handler := Some UHeapHandler\<rparr>)], mpt = snd boot_st, heap_end = 0x3000, cow = []\<rparr>"

lemma demo_space_ok: "areas_ok (areas demo_space)"
  by (auto simp: areas_ok_def segs_wf_def bt_wf_def bt_get_def demo_space_def demo_vma_def aligned_def take_bit_eq_mod)






text \<open>
  \<^verbatim>\<open>mprotect\<close> changes nothing, whatever its arguments: with a valid protection and an aligned address it reports success
  without looking at the space, as every protection contains \<^verbatim>\<open>PROT_NONE\<close>, which is zero; otherwise it is \<^verbatim>\<open>EINVAL\<close>.
\<close>

theorem sys_mprotect_does_nothing:
  "sys_mprotect addr len prot s =
     Some (s, if vaddr_is_align addr \<and> from_bits mmap_prot_all prot \<noteq> None then Inr 0 else Inl EINVAL)"
  by (rule sys_mprotect_noop)

text \<open>
  C32: \<^verbatim>\<open>brk\<close> of 0 or of the current end reports without change. Growing to an aligned address extends the area that
  ends at the heap's end when the new range overlaps no other area, and is \<^verbatim>\<open>ENOMEM\<close> otherwise; either way the areas stay apart.
  When shrinking returns, the remembered end of the heap stays as it was.
\<close>

theorem sys_brk_cases:
  assumes ok: "areas_ok (areas ms)" and pt: "pt_wf k (mpt ms)" and addr: "aligned addr" "unat addr < 2 ^ 32"
  shows "if addr = 0 then sys_brk addr (ms, k) = Some ((ms, k), Inr (heap_end ms))
    else if addr = heap_end ms then sys_brk addr (ms, k) = Some ((ms, k), Inr 0)
    else if addr < heap_end ms then \<forall>ms' k' r. sys_brk addr (ms, k) = Some ((ms', k'), r) \<longrightarrow> r = Inr 0 \<and> heap_end ms' = heap_end ms
    else \<exists>segs. areas_ok segs \<and>
      (if (\<exists>(i, v) \<in> set (areas ms). end_vaddr v = heap_end ms) \<and>
          (\<forall>(i, v) \<in> set (areas ms). end_vaddr v = heap_end ms \<or> disjoint_range (heap_end ms) addr v)
       then sys_brk addr (ms, k) = Some ((ms\<lparr>areas := segs, heap_end := addr\<rparr>, k), Inr 0) \<and>
         (\<exists>i v. bt_get (areas ms) i = Some v \<and> end_vaddr v = heap_end ms \<and> segs = bt_insert i (v\<lparr>end_vaddr := addr\<rparr>) (areas ms))
       else sys_brk addr (ms, k) = Some ((ms, k), Inl ENOMEM))"
proof -
  obtain t where t: "activate (mpt ms) = Some t" using activate_returns [OF pt] by blast
  consider "addr = 0" | "addr \<noteq> 0" "addr = heap_end ms" | "addr \<noteq> 0" "addr < heap_end ms" | "addr \<noteq> 0" "heap_end ms < addr"
    using linorder_less_linear [of addr "heap_end ms"] by blast
  then show ?thesis
  proof cases
    case 4
    from ms_expand_spec [OF ok 4(2) addr] obtain segs r where e: "ms_expand (heap_end ms) addr ms = Some (ms\<lparr>areas := segs\<rparr>, r)" "areas_ok segs"
      "if (\<exists>(i, v) \<in> set (areas ms). end_vaddr v = heap_end ms) \<and>
          (\<forall>(i, v) \<in> set (areas ms). end_vaddr v = heap_end ms \<or> disjoint_range (heap_end ms) addr v)
       then r = Inr True \<and> (\<exists>i v. bt_get (areas ms) i = Some v \<and> end_vaddr v = heap_end ms \<and>
         segs = bt_insert i (v\<lparr>end_vaddr := addr\<rparr>) (areas ms))
       else r = Inl ENOMEM \<and> segs = areas ms" by blast
    have "sys_brk addr (ms, k) = (case r of Inl e \<Rightarrow> Some ((ms\<lparr>areas := segs\<rparr>, k), Inl e) | Inr _ \<Rightarrow> Some ((ms\<lparr>areas := segs, heap_end := addr\<rparr>, k), Inr 0))"
      using 4 e(1) t by (simp add: sys_brk_def ms_activate_def split: sum.splits)
    then show ?thesis using 4 e(2,3) by (intro if_not_P [THEN iffD2]) (auto split: if_splits)
  qed (use t in \<open>auto simp: sys_brk_def ms_activate_def ms_munmap_def panic_simps\<close>)
qed

theorem sys_brk_cases_witness:
  "\<exists>segs. areas_ok segs \<and> sys_brk 0x5000 (demo_space, fst boot_st) = Some ((demo_space\<lparr>areas := segs, heap_end := 0x5000\<rparr>, fst boot_st), Inr 0)"
proof -
  have pt: "pt_wf (fst boot_st) (mpt demo_space)" using boot_st_wf(1) by (simp add: st_wf_def demo_space_def)
  have al: "aligned 0x5000" by (simp add: aligned_def take_bit_eq_mod)
  have c: "heap_end demo_space = 0x3000" "(\<exists>(i, v) \<in> set (areas demo_space). end_vaddr v = 0x3000) \<and>
    (\<forall>(i, v) \<in> set (areas demo_space). end_vaddr v = 0x3000 \<or> disjoint_range 0x3000 0x5000 v)"
    by (simp_all add: demo_space_def demo_vma_def)
  from sys_brk_cases [OF demo_space_ok pt al] show ?thesis unfolding c(1) if_P [OF c(2)] by auto
qed

end
