(* ===== verification/Process.thy ===== *)
theory Process
  imports Memory_Set Fd_Table
begin

text \<open>
  Processes (\<^verbatim>\<open>process/pid.rs\<close>, \<^verbatim>\<open>process/kstack.rs\<close>, \<^verbatim>\<open>process/context.rs\<close>, \<^verbatim>\<open>process/trap/context.rs\<close>, \<^verbatim>\<open>process/schedule.rs\<close>,
  \<^verbatim>\<open>process/pcb.rs\<close>, \<^verbatim>\<open>process/hart/cpu.rs\<close>, \<^verbatim>\<open>syscall/process.rs\<close>) on one hart. An \<^verbatim>\<open>Arc<PCB>\<close> is the number of the task's object in the
  store \<open>tasks\<close>; a task is dropped when the queue, the hart, the origin task and the lists of children no longer name
  it. Address spaces and descriptor tables, which tasks may share, are objects of their own. The memory the kernel keeps trap contexts in is a map
  from addresses. Between two switches a task runs alone, so that no lock of another task is held.

  The theory \<open>Process_Inv\<close> holds the lemmas.
\<close>

section \<open>Process numbers\<close>

definition pid_level :: nat where "pid_level = 2"
definition MAX_PID :: nat where "MAX_PID = 1024"

definition init_pid_allocator :: "bitalloc option" where
  "init_pid_allocator = ba_insert pid_level (ba_default pid_level) 2 MAX_PID"

definition alloc_pid :: "bitalloc \<Rightarrow> (bitalloc \<times> nat option) option" where
  "alloc_pid a = ba_alloc pid_level a"

definition dealloc_pid :: "nat \<Rightarrow> bitalloc \<Rightarrow> bitalloc option" where
  "dealloc_pid pid a = ba_dealloc pid_level a pid"

section \<open>Contexts\<close>

record task_context =
  tk_ra :: usize
  tk_sp :: usize
  tk_s :: "usize list"

definition task_cx_empty :: task_context where
  "task_cx_empty = \<lparr>tk_ra = 0, tk_sp = 0, tk_s = replicate 12 0\<rparr>"

definition init_task_cx :: "usize \<Rightarrow> usize \<Rightarrow> task_context" where
  "init_task_cx restore kernel_stack = \<lparr>tk_ra = restore, tk_sp = kernel_stack, tk_s = replicate 12 0\<rparr>"

record trap_context =
  tc_x :: "usize list"
  tc_sstatus :: usize
  tc_sepc :: usize
  tc_cpu_id :: usize

datatype register =
    R_zero | R_ra | R_sp | R_gp | R_tp | R_t0 | R_t1 | R_t2 | R_fp | R_s1
  | R_a0 | R_a1 | R_a2 | R_a3 | R_a4 | R_a5 | R_a6 | R_a7
  | R_s2 | R_s3 | R_s4 | R_s5 | R_s6 | R_s7 | R_s8 | R_s9 | R_s10 | R_s11
  | R_t3 | R_t4 | R_t5 | R_t6

fun reg_idx :: "register \<Rightarrow> nat" where
  "reg_idx R_zero = 0" | "reg_idx R_ra = 1" | "reg_idx R_sp = 2" | "reg_idx R_gp = 3" | "reg_idx R_tp = 4"
| "reg_idx R_t0 = 5" | "reg_idx R_t1 = 6" | "reg_idx R_t2 = 7" | "reg_idx R_fp = 8" | "reg_idx R_s1 = 9"
| "reg_idx R_a0 = 10" | "reg_idx R_a1 = 11" | "reg_idx R_a2 = 12" | "reg_idx R_a3 = 13" | "reg_idx R_a4 = 14"
| "reg_idx R_a5 = 15" | "reg_idx R_a6 = 16" | "reg_idx R_a7 = 17" | "reg_idx R_s2 = 18" | "reg_idx R_s3 = 19"
| "reg_idx R_s4 = 20" | "reg_idx R_s5 = 21" | "reg_idx R_s6 = 22" | "reg_idx R_s7 = 23" | "reg_idx R_s8 = 24"
| "reg_idx R_s9 = 25" | "reg_idx R_s10 = 26" | "reg_idx R_s11 = 27" | "reg_idx R_t3 = 28" | "reg_idx R_t4 = 29"
| "reg_idx R_t5 = 30" | "reg_idx R_t6 = 31"

definition trap_cx_empty :: "usize \<Rightarrow> trap_context" where
  "trap_cx_empty sstatus = \<lparr>tc_x = replicate 32 0, tc_sstatus = sstatus, tc_sepc = 0, tc_cpu_id = 0\<rparr>"

definition set_register :: "register \<Rightarrow> usize \<Rightarrow> trap_context \<Rightarrow> trap_context" where
  "set_register r v cx = cx\<lparr>tc_x := (tc_x cx)[reg_idx r := v]\<rparr>"

text \<open>\<^verbatim>\<open>set_spp(SPP::User)\<close> clears bit 8 of the status register.\<close>

definition init_trap_cx :: "usize \<Rightarrow> usize \<Rightarrow> usize \<Rightarrow> usize \<Rightarrow> trap_context" where
  "init_trap_cx sstatus hart entry sp =
     set_register R_sp sp \<lparr>tc_x = replicate 32 0, tc_sstatus = sstatus AND NOT (push_bit 8 1), tc_sepc = entry, tc_cpu_id = hart\<rparr>"

definition cx_from_clone :: "trap_context \<Rightarrow> trap_context \<Rightarrow> trap_context" where
  "cx_from_clone tx self = self\<lparr>tc_x := tc_x tx, tc_sstatus := tc_sstatus tx, tc_sepc := tc_sepc tx, tc_cpu_id := tc_cpu_id tx\<rparr>"

section \<open>Kernel stacks\<close>

definition KERNEL_STACK_SIZE :: usize where "KERNEL_STACK_SIZE = 1024 * 1024"

text \<open>\<open>ks_ptr\<close> is the address of the vector's buffer on the kernel heap, which \<^verbatim>\<open>as_ptr\<close> returns. A trap context has 35 words.\<close>

record kstack =
  ks_frames :: "usize list"
  ks_ptr :: usize

definition trap_cx_size :: usize where "trap_cx_size = 35 * 8"

definition init_kernel_stack :: "usize \<Rightarrow> pmem \<Rightarrow> (pmem \<times> kstack) option" where
  "init_kernel_stack ptr k =
     do { (k', frames) \<leftarrow> alloc_contiguous_frame (unat (KERNEL_STACK_SIZE div PAGE_SIZE)) k;
          Some (k', \<lparr>ks_frames = frames, ks_ptr = ptr\<rparr>) }"

definition kstack_top_ptr :: "kstack \<Rightarrow> usize" where
  "kstack_top_ptr ks = ks_ptr ks + KERNEL_STACK_SIZE"

definition trap_cx_ptr :: "kstack \<Rightarrow> usize" where
  "trap_cx_ptr ks = kstack_top_ptr ks - trap_cx_size"

definition push_trap_cx :: "kstack \<Rightarrow> trap_context \<Rightarrow> (usize \<rightharpoonup> trap_context) \<Rightarrow> (usize \<rightharpoonup> trap_context) \<times> usize" where
  "push_trap_cx ks cx m = (m(trap_cx_ptr ks \<mapsto> cx), trap_cx_ptr ks)"

definition top_trap_cx :: "kstack \<Rightarrow> (usize \<rightharpoonup> trap_context) \<Rightarrow> trap_context option" where
  "top_trap_cx ks m = m (trap_cx_ptr ks)"

section \<open>Tasks\<close>

datatype task_status = Running | Ready | Dead | Interruptible | Exited

type_synonym task = nat

record pcb =
  tgid :: nat
  pid :: nat
  kernel_stack :: kstack
  vm :: nat
  fdt :: nat
  cwd :: string
  ppid :: nat
  exit_code :: u32
  parent :: "task option"
  child :: "task list"
  task_cx :: task_context
  status :: task_status

record 'f kernel =
  mem :: pmem
  pids :: bitalloc
  tasks :: "(task, pcb) btree_map"
  vms :: "(nat, memory_set) btree_map"
  fdts :: "(nat, 'f fd_table) btree_map"
  task_queue :: "task list"
  cur :: "task option"
  origin :: "task option"
  trap_cxs :: "usize \<rightharpoonup> trap_context"
  fresh :: nat

text \<open>
  What a hart provides: the root of the kernel's page table, the address of \<^verbatim>\<open>__restore\<close>, its status register, the addresses the
  heap returns for the vectors of the kernel stacks, and the files of the standard descriptors.
\<close>

record 'f hart =
  kernel_root :: usize
  restore :: usize
  sstatus :: usize
  heap_ptr :: "nat \<Rightarrow> usize"
  stdio :: "'f \<times> 'f \<times> 'f"

definition upd_task :: "task \<Rightarrow> (pcb \<Rightarrow> pcb) \<Rightarrow> 'f kernel \<Rightarrow> 'f kernel option" where
  "upd_task t f s = do { p \<leftarrow> bt_get (tasks s) t; Some (s\<lparr>tasks := bt_insert t (f p) (tasks s)\<rparr>) }"

definition set_status :: "task \<Rightarrow> task_status \<Rightarrow> 'f kernel \<Rightarrow> 'f kernel option" where
  "set_status t st = upd_task t (\<lambda>p. p\<lparr>status := st\<rparr>)"

definition set_exit_code :: "task \<Rightarrow> u32 \<Rightarrow> 'f kernel \<Rightarrow> 'f kernel option" where
  "set_exit_code t c = upd_task t (\<lambda>p. p\<lparr>exit_code := c\<rparr>)"

definition clear_child :: "task \<Rightarrow> 'f kernel \<Rightarrow> 'f kernel option" where
  "clear_child t = upd_task t (\<lambda>p. p\<lparr>child := []\<rparr>)"

definition is_dead :: "pcb \<Rightarrow> bool" where
  "is_dead p \<longleftrightarrow> status p = Dead"

definition pcb_exit_code :: "pcb \<Rightarrow> u32 option" where
  "pcb_exit_code p = (if status p = Dead then Some (exit_code p) else None)"

text \<open>Dropping the last reference to a task: its process number, kernel stack, and its share of address space and descriptors.\<close>

definition referenced :: "task \<Rightarrow> 'f kernel \<Rightarrow> bool" where
  "referenced t s \<longleftrightarrow> t \<in> set (task_queue s) \<or> cur s = Some t \<or> origin s = Some t \<or> list_ex (\<lambda>(_, p). t \<in> set (child p)) (tasks s)"

definition drop_area :: "vma \<Rightarrow> pmem \<Rightarrow> pmem option" where
  "drop_area v k = foldM arc_drop (map snd (page_manager (pma v))) k"

definition drop_memory_set :: "memory_set \<Rightarrow> pmem \<Rightarrow> pmem option" where
  "drop_memory_set ms k =
     do { k1 \<leftarrow> foldM drop_area (map snd (areas ms)) k;
          k2 \<leftarrow> foldM dealloc_frame (frames (mpt ms)) k1;
          cow_clear (cow ms) k2 }"

definition drop_task :: "task \<Rightarrow> 'f kernel \<Rightarrow> 'f kernel option" where
  "drop_task t s =
     (if referenced t s then Some s
      else
        do { p \<leftarrow> bt_get (tasks s) t;
             rassert (child p = []);
             a \<leftarrow> dealloc_pid (pid p) (pids s);
             k1 \<leftarrow> foldM dealloc_frame (ks_frames (kernel_stack p)) (mem s);
             let rest = bt_remove t (tasks s);
             ms \<leftarrow> bt_get (vms s) (vm p);
             (k2, vs) \<leftarrow> (if list_ex (\<lambda>(_, q). vm q = vm p) rest then Some (k1, vms s)
                         else do { k2 \<leftarrow> drop_memory_set ms k1; Some (k2, bt_remove (vm p) (vms s)) });
             Some (s\<lparr>tasks := rest, pids := a, mem := k2, vms := vs,
                     fdts := (if list_ex (\<lambda>(_, q). fdt q = fdt p) rest then fdts s else bt_remove (fdt p) (fdts s))\<rparr>) })"

section \<open>Scheduling\<close>

definition push_task_to_schedule :: "task \<Rightarrow> 'f kernel \<Rightarrow> 'f kernel" where
  "push_task_to_schedule t s = s\<lparr>task_queue := task_queue s @ [t]\<rparr>"

definition pop_task_from_schedule :: "'f kernel \<Rightarrow> 'f kernel \<times> task option" where
  "pop_task_from_schedule s = (case task_queue s of [] \<Rightarrow> (s, None) | t # q \<Rightarrow> (s\<lparr>task_queue := q\<rparr>, Some t))"

text \<open>One turn of the loop of \<^verbatim>\<open>run_task\<close> up to the switch to the task.\<close>

definition run_task_turn :: "'f kernel \<Rightarrow> 'f kernel option" where
  "run_task_turn s = (case pop_task_from_schedule s of
     (s1, None) \<Rightarrow> Some s1
   | (s1, Some t) \<Rightarrow>
       do { s2 \<leftarrow> set_status t Running s1;
            p \<leftarrow> bt_get (tasks s2) t;
            ms \<leftarrow> bt_get (vms s2) (vm p);
            _ \<leftarrow> ms_activate ms;
            Some (s2\<lparr>cur := Some t\<rparr>) })"

definition suspend_current_task :: "'f kernel \<Rightarrow> 'f kernel option" where
  "suspend_current_task s = (case cur s of
     None \<Rightarrow> Some s
   | Some t \<Rightarrow> do { s' \<leftarrow> set_status t Ready (s\<lparr>cur := None\<rparr>); Some (push_task_to_schedule t s') })"

text \<open>
  The children of a task that exits: the loop gives a child to the origin task when it can take both locks, and has no
  exit. \<open>fuel\<close> counts its turns.
\<close>

definition adopt :: "task \<Rightarrow> task \<Rightarrow> 'f kernel \<Rightarrow> 'f kernel option" where
  "adopt t c s =
     do { o_task \<leftarrow> origin s;
          if o_task = t then Some s
          else do { s1 \<leftarrow> upd_task c (\<lambda>p. p\<lparr>parent := Some o_task, ppid := 0\<rparr>) s;
                    upd_task o_task (\<lambda>p. p\<lparr>child := child p @ [c]\<rparr>) s1 } }"

fun adopt_loop :: "nat \<Rightarrow> task \<Rightarrow> task \<Rightarrow> 'f kernel \<Rightarrow> 'f kernel option" where
  "adopt_loop 0 t c s = None"
| "adopt_loop (Suc fuel) t c s = Option.bind (adopt t c s) (adopt_loop fuel t c)"

definition exit_current_task :: "nat \<Rightarrow> u32 \<Rightarrow> 'f kernel \<Rightarrow> 'f kernel option" where
  "exit_current_task fuel code s =
     do { t \<leftarrow> cur s;
          s1 \<leftarrow> set_status t Dead (s\<lparr>cur := None\<rparr>);
          s2 \<leftarrow> set_exit_code t code s1;
          p \<leftarrow> bt_get (tasks s2) t;
          s3 \<leftarrow> foldM (adopt_loop fuel t) (child p) s2;
          s4 \<leftarrow> clear_child t s3;
          drop_task t s4 }"

section \<open>Clone\<close>

definition SIGCHLD :: u32 where "SIGCHLD = push_bit 4 1 OR push_bit 0 1"
definition CLONE_VM :: u32 where "CLONE_VM = push_bit 8 1"
definition CLONE_FS :: u32 where "CLONE_FS = push_bit 9 1"
definition CLONE_FILES :: u32 where "CLONE_FILES = push_bit 10 1"
definition CLONE_SIGHAND :: u32 where "CLONE_SIGHAND = push_bit 11 1"
definition CLONE_PIDFD :: u32 where "CLONE_PIDFD = push_bit 12 1"
definition CLONE_PTRACE :: u32 where "CLONE_PTRACE = push_bit 13 1"
definition CLONE_PARENT :: u32 where "CLONE_PARENT = push_bit 15 1"
definition CLONE_THREAD :: u32 where "CLONE_THREAD = push_bit 16 1"
definition CLONE_SYSVSEM :: u32 where "CLONE_SYSVSEM = push_bit 18 1"
definition CLONE_SETTLS :: u32 where "CLONE_SETTLS = push_bit 19 1"
definition CLONE_PARENT_SETTID :: u32 where "CLONE_PARENT_SETTID = push_bit 20 1"
definition CLONE_CHILD_CLEARTID :: u32 where "CLONE_CHILD_CLEARTID = push_bit 21 1"
definition CLONE_CHILD_SETTID :: u32 where "CLONE_CHILD_SETTID = push_bit 24 1"

definition clone_flags_all :: u32 where
  "clone_flags_all = SIGCHLD OR CLONE_VM OR CLONE_FS OR CLONE_FILES OR CLONE_SIGHAND OR CLONE_PIDFD OR CLONE_PTRACE OR CLONE_PARENT OR
     CLONE_THREAD OR CLONE_SYSVSEM OR CLONE_SETTLS OR CLONE_PARENT_SETTID OR CLONE_CHILD_CLEARTID OR CLONE_CHILD_SETTID"

definition check_clone_flags :: "u32 \<Rightarrow> unit option" where
  "check_clone_flags flags =
     (let valid_flag = SIGCHLD OR CLONE_VM OR CLONE_FILES OR CLONE_PARENT OR CLONE_THREAD OR CLONE_SETTLS OR CLONE_PARENT_SETTID OR
        CLONE_CHILD_CLEARTID OR CLONE_CHILD_SETTID OR CLONE_SIGHAND in
      rassert (flags OR valid_flag = valid_flag))"

definition clone_vm :: "'f hart \<Rightarrow> u32 \<Rightarrow> pcb \<Rightarrow> 'f kernel \<Rightarrow> ('f kernel \<times> nat) option" where
  "clone_vm h flags p s =
     (if contains flags CLONE_VM then Some (s, vm p)
      else do { ms \<leftarrow> bt_get (vms s) (vm p);
                (ms', k') \<leftarrow> from_user (kernel_root h) ms (mem s);
                Some (s\<lparr>mem := k', vms := bt_insert (fresh s) ms' (vms s), fresh := fresh s + 1\<rparr>, fresh s) })"

definition clone_fdt :: "'f hart \<Rightarrow> u32 \<Rightarrow> pcb \<Rightarrow> 'f kernel \<Rightarrow> ('f kernel \<times> nat) option" where
  "clone_fdt h flags p s =
     (if contains flags CLONE_FILES then Some (s, fdt p)
      else do { t \<leftarrow> bt_get (fdts s) (fdt p);
                t' \<leftarrow> (case stdio h of (i, out, err) \<Rightarrow> from_clone_copy i out err t);
                Some (s\<lparr>fdts := bt_insert (fresh s) t' (fdts s), fresh := fresh s + 1\<rparr>, fresh s) })"

definition clone_cx :: "u32 \<Rightarrow> usize option \<Rightarrow> usize \<Rightarrow> trap_context \<Rightarrow> trap_context \<Rightarrow> trap_context" where
  "clone_cx flags user_stack tls cx0 tx =
     (let cx = set_register R_a0 0 (cx_from_clone tx cx0);
          cx = (if contains flags CLONE_SETTLS then set_register R_tp tls cx else cx) in
      case user_stack of Some sp \<Rightarrow> set_register R_sp sp cx | None \<Rightarrow> cx)"

definition from_clone :: "'f hart \<Rightarrow> task \<Rightarrow> u32 \<Rightarrow> usize option \<Rightarrow> usize \<Rightarrow> 'f kernel \<Rightarrow> ('f kernel \<times> nat) option" where
  "from_clone h t flags user_stack tls s =
     do { p \<leftarrow> bt_get (tasks s) t;
          (s1, v) \<leftarrow> clone_vm h flags p s;
          (s2, d) \<leftarrow> clone_fdt h flags p s1;
          (a, r) \<leftarrow> alloc_pid (pids s2);
          n \<leftarrow> r;
          let c = fresh s2;
          (k, ks) \<leftarrow> init_kernel_stack (heap_ptr h c) (mem s2);
          tx \<leftarrow> top_trap_cx (kernel_stack p) (trap_cxs s2);
          let (cxs, stack_top) = push_trap_cx ks (clone_cx flags user_stack tls (trap_cx_empty (sstatus h)) tx) (trap_cxs s2);
          let q = \<lparr>tgid = (if contains flags CLONE_THREAD then tgid p else n), pid = n, kernel_stack = ks, vm = v, fdt = d, cwd = cwd p,
                   ppid = (if contains flags CLONE_PARENT then ppid p else pid p), exit_code = 0,
                   parent = (if contains flags CLONE_PARENT then parent p else Some t), child = [],
                   task_cx = init_task_cx (restore h) stack_top, status = Ready\<rparr>;
          let s3 = s2\<lparr>mem := k, pids := a, trap_cxs := cxs, fresh := c + 1, tasks := bt_insert c q (tasks s2)\<rparr>;
          s4 \<leftarrow> (if contains flags CLONE_PARENT then Some s3 else upd_task t (\<lambda>p. p\<lparr>child := child p @ [c]\<rparr>) s3);
          Some (push_task_to_schedule c s4, n) }"

definition sys_clone :: "'f hart \<Rightarrow> usize \<Rightarrow> usize \<Rightarrow> usize \<Rightarrow> 'f kernel \<Rightarrow> ('f kernel \<times> usize os_result) option" where
  "sys_clone h flags stack tls s =
     do { check_clone_flags (ucast flags);
          t \<leftarrow> cur s;
          (s', n) \<leftarrow> from_clone h t (from_bits_truncate clone_flags_all (ucast flags)) (if stack = 0 then None else Some stack) tls s;
          Some (s', Inr (of_nat n)) }"

section \<open>Wait\<close>

datatype child_status = Success nat | NotZombie | NotFound

fun wait_scan :: "(pcb \<Rightarrow> bool) \<Rightarrow> child_status \<Rightarrow> nat \<Rightarrow> nat \<Rightarrow> task list \<Rightarrow> 'f kernel \<Rightarrow> (child_status \<times> nat) option" where
  "wait_scan m ret final_idx idx [] s = Some (ret, final_idx)"
| "wait_scan m ret final_idx idx (c # cs) s =
     Option.bind (bt_get (tasks s) c) (\<lambda>p.
       if m p then
         if is_dead p then Some (Success (pid p), idx)
         else wait_scan m NotZombie final_idx (idx + 1) cs s
       else wait_scan m ret final_idx (idx + 1) cs s)"

definition wait_match :: "int \<Rightarrow> pcb \<Rightarrow> pcb \<Rightarrow> bool" where
  "wait_match wpid self p \<longleftrightarrow>
     (if wpid < -1 then tgid p = nat (- wpid)
      else if wpid = -1 then True
      else if wpid = 0 then tgid p = tgid self
      else pid p = nat wpid)"

type_synonym umem32 = "usize \<Rightarrow> u32"

text \<open>The 32-bit words of user memory; \<open>waitpid\<close> stores one.\<close>

definition waitpid :: "int \<Rightarrow> usize \<Rightarrow> 'f kernel \<times> umem32 \<Rightarrow> (('f kernel \<times> umem32) \<times> child_status) option" where
  "waitpid wpid wstatus st = (case st of (s, um) \<Rightarrow>
     do { t \<leftarrow> cur s;
          self \<leftarrow> bt_get (tasks s) t;
          (ret, final_idx) \<leftarrow> wait_scan (wait_match wpid self) (if wpid = -1 then NotZombie else NotFound) (length (child self)) 0 (child self) s;
          case ret of
            Success _ \<Rightarrow>
              do { c \<leftarrow> nth_opt (child self) final_idx;
                   p \<leftarrow> bt_get (tasks s) c;
                   let um' = (case pcb_exit_code p of Some code \<Rightarrow> if wstatus \<noteq> 0 then um(wstatus := push_bit 8 code) else um | None \<Rightarrow> um);
                   s1 \<leftarrow> upd_task t (\<lambda>p. p\<lparr>child := take final_idx (child p) @ drop (Suc final_idx) (child p)\<rparr>) s;
                   s2 \<leftarrow> drop_task c s1;
                   Some ((s2, um'), ret) }
          | _ \<Rightarrow> Some (st, ret) })"

definition WNOHANG :: usize where "WNOHANG = 1"
definition wait4_option_all :: usize where "wait4_option_all = 1 OR push_bit 1 1 OR push_bit 3 1"

text \<open>One turn of the loop of \<^verbatim>\<open>sys_wait4\<close>; without a result the task is suspended and runs the next turn when it is resumed.\<close>

definition wait4_turn :: "int \<Rightarrow> usize \<Rightarrow> usize \<Rightarrow> 'f kernel \<times> umem32 \<Rightarrow> (('f kernel \<times> umem32) \<times> usize os_result option) option" where
  "wait4_turn wpid wstatus options st =
     do { opts \<leftarrow> from_bits wait4_option_all options;
          ((s', um'), ret) \<leftarrow> waitpid wpid wstatus st;
          case ret of
            NotZombie \<Rightarrow>
              if contains opts WNOHANG then Some ((s', um'), Some (Inr 0))
              else do { s2 \<leftarrow> suspend_current_task s'; Some ((s2, um'), None) }
          | NotFound \<Rightarrow> Some ((s', um'), Some (Inl EINVAL))
          | Success n \<Rightarrow> Some ((s', um'), Some (Inr (of_nat n))) }"

definition sys_yield :: "'f kernel \<Rightarrow> ('f kernel \<times> usize os_result) option" where
  "sys_yield s = do { s' \<leftarrow> suspend_current_task s; Some (s', Inr 0) }"

definition sys_gettid :: "'f kernel \<Rightarrow> usize os_result option" where
  "sys_gettid s = do { t \<leftarrow> cur s; p \<leftarrow> bt_get (tasks s) t; Some (Inr (of_nat (pid p))) }"

definition sys_getppid :: "'f kernel \<Rightarrow> usize os_result option" where
  "sys_getppid s = do { t \<leftarrow> cur s; p \<leftarrow> bt_get (tasks s) t; Some (Inr (of_nat (ppid p))) }"

definition sys_getpid :: "'f kernel \<Rightarrow> usize os_result option" where
  "sys_getpid s = do { t \<leftarrow> cur s; p \<leftarrow> bt_get (tasks s) t; Some (Inr (of_nat (tgid p))) }"

end
