(* ===== verification/Process_Inv.thy ===== *)
theory Process_Inv
  imports Process
begin

text \<open>
  What the operations of the theory \<open>Process\<close> keep and do: every task is running, waits in the queue once, or is dead and still
  held by its parent; process numbers are unique and return to the allocator; the queue is served in order; and the
  results of clone, wait and exit.
\<close>

section \<open>Where every task is\<close>

text \<open>
  \<open>held\<close>: the origin task or a list of children names the task. \<open>places\<close>: every task runs, is in the queue once, or is dead
  and held; the tasks of \<open>X\<close> are excepted from the last condition.
\<close>

definition held :: "(task \<rightharpoonup> pcb) \<Rightarrow> task option \<Rightarrow> task \<Rightarrow> bool" where
  "held T orig t \<longleftrightarrow> orig = Some t \<or> (\<exists>u q. T u = Some q \<and> t \<in> set (child q))"

definition placed :: "task set \<Rightarrow> (task \<rightharpoonup> pcb) \<Rightarrow> task list \<Rightarrow> task option \<Rightarrow> task option \<Rightarrow> task \<Rightarrow> pcb \<Rightarrow> bool" where
  "placed X T Q C orig t p \<longleftrightarrow>
     status p = Ready \<and> t \<in> set Q \<or> status p = Running \<and> C = Some t \<or>
     status p = Dead \<and> child p = [] \<and> (t \<in> X \<or> held T orig t)"

definition places :: "task set \<Rightarrow> (task \<rightharpoonup> pcb) \<Rightarrow> task list \<Rightarrow> task option \<Rightarrow> task option \<Rightarrow> bool" where
  "places X T Q C orig \<longleftrightarrow>
     distinct Q \<and> (\<forall>t \<in> set Q. \<exists>p. T t = Some p \<and> status p = Ready) \<and>
     (\<forall>t. C = Some t \<longrightarrow> (\<exists>p. T t = Some p \<and> status p = Running)) \<and> (\<forall>t. orig = Some t \<longrightarrow> T t \<noteq> None) \<and>
     (\<forall>t p. T t = Some p \<longrightarrow> placed X T Q C orig t p \<and> set (child p) \<subseteq> dom T)"

text \<open>\<open>numbers\<close>: the tasks have distinct process numbers, and the available ones are those no task has.\<close>

definition pid_of :: "(task \<rightharpoonup> pcb) \<Rightarrow> task \<rightharpoonup> nat" where
  "pid_of T t = map_option pid (T t)"

definition numbers :: "(task \<rightharpoonup> nat) \<Rightarrow> nat set \<Rightarrow> bool" where
  "numbers N A \<longleftrightarrow> ran N \<subseteq> {2..<MAX_PID} \<and> inj_on N (dom N) \<and> A = {2..<MAX_PID} - ran N"

definition proc_inv :: "task set \<Rightarrow> 'f kernel \<Rightarrow> bool" where
  "proc_inv X s \<longleftrightarrow>
     bt_wf (tasks s) \<and> bt_wf (vms s) \<and> ba_wf pid_level (pids s) \<and>
     places X (bt_get (tasks s)) (task_queue s) (cur s) (origin s) \<and> numbers (pid_of (bt_get (tasks s))) (avail pid_level (pids s)) \<and>
     (\<forall>t p. bt_get (tasks s) t = Some p \<longrightarrow> t < fresh s \<and> vm p < fresh s \<and> fdt p < fresh s \<and> bt_get (vms s) (vm p) \<noteq> None)"

lemma held_upd:
  assumes "T t = Some p" "held T orig x" "x \<in> set (child p) \<Longrightarrow> x \<in> set (child p')"
  shows "held (T(t \<mapsto> p')) orig x"
proof (cases "orig = Some x")
  case False
  then obtain u q where "T u = Some q" "x \<in> set (child q)" using assms(2) by (auto simp: held_def)
  then show ?thesis using assms(1,3) by (cases "u = t") (auto simp: held_def)
qed (simp add: held_def)

lemma held_same:
  assumes "T t = Some p" "set (child p') = set (child p)"
  shows "held (T(t \<mapsto> p')) orig x \<longleftrightarrow> held T orig x"
proof
  show "held T orig x" if "held (T(t \<mapsto> p')) orig x"
    using held_upd [of "T(t \<mapsto> p')" t p' orig x p] that assms by (simp add: map_upd_triv)
  show "held (T(t \<mapsto> p')) orig x" if "held T orig x" using held_upd [of T t p orig x p'] that assms by simp
qed

text \<open>A task changes its state and keeps its process number.\<close>

lemma places_switch:
  assumes inv: "places X T Q C orig" and p: "T t = Some p" and ch: "set (child p) - X \<subseteq> set (child p')" "set (child p') \<subseteq> dom T"
    and Q: "distinct Q'" "set Q' - {t} = set Q - {t}" and C: "\<forall>u. u \<noteq> t \<longrightarrow> (C' = Some u) = (C = Some u)"
    and t: "t \<in> set Q' \<longleftrightarrow> status p' = Ready" "C' = Some t \<longleftrightarrow> status p' = Running" "placed X (T(t \<mapsto> p')) Q' C' orig t p'"
  shows "places X (T(t \<mapsto> p')) Q' C' orig"
  unfolding places_def
proof (intro conjI allI impI ballI)
  show "distinct Q'" by (rule Q(1))
  fix u
  show "\<exists>q. (T(t \<mapsto> p')) u = Some q \<and> status q = Ready" if "u \<in> set Q'"
    using that inv t(1) Q(2) by (cases "u = t") (auto simp: places_def)
  show "\<exists>q. (T(t \<mapsto> p')) u = Some q \<and> status q = Running" if "C' = Some u"
    using that inv t(2) C by (cases "u = t") (auto simp: places_def)
  show "(T(t \<mapsto> p')) u \<noteq> None" if "orig = Some u" using that inv by (auto simp: places_def)
  fix q assume q: "(T(t \<mapsto> p')) u = Some q"
  have "set (child r) \<subseteq> dom T" if "T u = Some r" for r using that inv unfolding places_def by blast
  then show "set (child q) \<subseteq> dom (T(t \<mapsto> p'))" using q ch(2) by (cases "u = t") auto
  show "placed X (T(t \<mapsto> p')) Q' C' orig u q"
  proof (cases "u = t")
    case False
    then have "placed X T Q C orig u q" using inv q by (simp add: places_def)
    moreover have "held (T(t \<mapsto> p')) orig u" if "held T orig u" "u \<notin> X" using held_upd [OF p that(1)] ch(1) that(2) by blast
    ultimately show ?thesis using False Q(2) C by (auto simp: placed_def)
  qed (use t(3) q in simp)
qed

lemma pid_of_upd [simp]: "pid_of (T(t \<mapsto> p)) = (pid_of T)(t \<mapsto> pid p)" "pid_of (T(t := None)) = (pid_of T)(t := None)"
  by (auto simp: pid_of_def)

lemma numbers_switch: "T t = Some p \<Longrightarrow> pid p' = pid p \<Longrightarrow> pid_of (T(t \<mapsto> p')) = pid_of T"
  by (auto simp: pid_of_def)

lemma ba_cap_pid [simp]: "ba_cap pid_level = 4096"
  by (simp add: pid_level_def numeral_2_eq_2)

lemma numbers_add:
  assumes "numbers N A" "n \<in> A" "N t = None"
  shows "numbers (N(t \<mapsto> n)) (A - {n})"
proof -
  have "n \<notin> ran N" using assms(1,2) by (auto simp: numbers_def)
  then have "inj_on (N(t \<mapsto> n)) (dom (N(t \<mapsto> n)))" using assms(1,3) by (auto simp: numbers_def inj_on_def ran_def)
  moreover have "ran (N(t \<mapsto> n)) = insert n (ran N)" using assms(3) by simp
  ultimately show ?thesis using assms(1,2) by (auto simp: numbers_def)
qed

lemma numbers_remove:
  assumes "numbers N A" "N t = Some n"
  shows "numbers (N(t := None)) (insert n A)" "n \<notin> A" "2 \<le> n" "n < MAX_PID"
proof -
  have inj: "u = t" if "N u = Some n" for u
    using inj_onD [of N "dom N" u t] assms that by (simp add: numbers_def domI)
  have r: "ran (N(t := None)) = ran N - {n}"
  proof (intro equalityI subsetI)
    fix m assume "m \<in> ran (N(t := None))"
    then obtain u where "u \<noteq> t" "N u = Some m" unfolding ran_def by (auto split: if_splits)
    then show "m \<in> ran N - {n}" using inj [of u] by (cases "m = n") (auto intro: ranI)
  next
    fix m assume "m \<in> ran N - {n}"
    then obtain u where u: "N u = Some m" "m \<noteq> n" unfolding ran_def by blast
    then have "(N(t := None)) u = Some m" using assms(2) by (cases "u = t") simp_all
    then show "m \<in> ran (N(t := None))" by (rule ranI)
  qed
  have n: "n \<in> ran N" using assms(2) by (rule ranI)
  show "n \<notin> A" "2 \<le> n" "n < MAX_PID" using assms(1) n by (auto simp: numbers_def)
  have "inj_on (N(t := None)) (dom (N(t := None)))" using assms(1) unfolding numbers_def inj_on_def dom_def by simp
  then show "numbers (N(t := None)) (insert n A)" using assms(1) n unfolding numbers_def r by blast
qed

lemma upd_task_get: "bt_wf (tasks s) \<Longrightarrow> upd_task t f s = Some s' \<Longrightarrow>
  \<exists>p. bt_get (tasks s) t = Some p \<and> s' = s\<lparr>tasks := bt_insert t (f p) (tasks s)\<rparr> \<and> bt_get (tasks s') = (bt_get (tasks s))(t \<mapsto> f p) \<and> bt_wf (tasks s')"
  by (auto simp: upd_task_def panic_simps fun_eq_iff)

text \<open>The turns of the scheduler.\<close>

lemma proc_inv_switch:
  assumes inv: "proc_inv X s" and p: "bt_get (tasks s) t = Some p" and p': "pid p' = pid p" "vm p' = vm p" "fdt p' = fdt p"
    and ch: "set (child p) - X \<subseteq> set (child p')" "set (child p') \<subseteq> dom (bt_get (tasks s))"
    and s': "bt_get (tasks s') = (bt_get (tasks s))(t \<mapsto> p')" "bt_wf (tasks s')" "vms s' = vms s" "pids s' = pids s" "fresh s' = fresh s" "origin s' = origin s"
    and Q: "distinct (task_queue s')" "set (task_queue s') - {t} = set (task_queue s) - {t}" and C: "\<forall>u. u \<noteq> t \<longrightarrow> (cur s' = Some u) = (cur s = Some u)"
    and t: "t \<in> set (task_queue s') \<longleftrightarrow> status p' = Ready" "cur s' = Some t \<longleftrightarrow> status p' = Running"
      "placed X (bt_get (tasks s')) (task_queue s') (cur s') (origin s') t p'"
  shows "proc_inv X s'"
proof -
  have pl: "places X (bt_get (tasks s)) (task_queue s) (cur s) (origin s)" and nu: "numbers (pid_of (bt_get (tasks s))) (avail pid_level (pids s))"
    using inv by (simp_all add: proc_inv_def)
  have "places X (bt_get (tasks s')) (task_queue s') (cur s') (origin s')"
    using places_switch [OF pl p ch Q C t(1,2)] t(3) unfolding s' by simp
  moreover have "numbers (pid_of (bt_get (tasks s'))) (avail pid_level (pids s'))" using numbers_switch [of "bt_get (tasks s)" t, OF p p'(1)] nu unfolding s' by simp
  ultimately show ?thesis using inv p p' s' by (auto simp: proc_inv_def split: if_splits)
qed

lemma proc_inv_children: "proc_inv X s \<Longrightarrow> bt_get (tasks s) t = Some p \<Longrightarrow> set (child p) \<subseteq> dom (bt_get (tasks s))"
  unfolding proc_inv_def places_def by blast

lemma run_task_turn_spec:
  assumes "proc_inv X s" "cur s = None" "run_task_turn s = Some s'"
  shows "case task_queue s of [] \<Rightarrow> s' = s | t # q \<Rightarrow> proc_inv X s' \<and> cur s' = Some t \<and> task_queue s' = q"
proof (cases "task_queue s")
  case Nil
  then show ?thesis using assms(3) by (simp add: run_task_turn_def pop_task_from_schedule_def)
next
  case (Cons t q)
  have wf: "bt_wf (tasks s)" using assms(1) by (simp add: proc_inv_def)
  obtain s2 where s2: "set_status t Running (s\<lparr>task_queue := q\<rparr>) = Some s2" "s' = s2\<lparr>cur := Some t\<rparr>"
    using assms(3) Cons by (auto simp: run_task_turn_def pop_task_from_schedule_def panic_simps)
  obtain p where p: "bt_get (tasks s) t = Some p" "s2 = s\<lparr>task_queue := q, tasks := bt_insert t (p\<lparr>status := Running\<rparr>) (tasks s)\<rparr>"
    "bt_get (tasks s2) = (bt_get (tasks s))(t \<mapsto> p\<lparr>status := Running\<rparr>)" "bt_wf (tasks s2)"
    using upd_task_get [OF _ s2(1) [unfolded set_status_def]] wf by auto
  have d: "distinct (t # q)" using assms(1) Cons by (simp add: proc_inv_def places_def)
  have "proc_inv X s'"
    by (rule proc_inv_switch [OF assms(1) p(1), of "p\<lparr>status := Running\<rparr>"]) (use s2(2) p d assms(2) Cons proc_inv_children [OF assms(1) p(1)] in \<open>auto simp: placed_def\<close>)
  then show ?thesis using s2(2) p(2) Cons by simp
qed

lemma suspend_spec:
  assumes "proc_inv X s" "suspend_current_task s = Some s'"
  shows "proc_inv X s'" "task_queue s' = task_queue s @ (case cur s of None \<Rightarrow> [] | Some t \<Rightarrow> [t])" "cur s' = None"
proof -
  have wf: "bt_wf (tasks s)" using assms(1) by (simp add: proc_inv_def)
  have "proc_inv X s' \<and> task_queue s' = task_queue s @ (case cur s of None \<Rightarrow> [] | Some t \<Rightarrow> [t]) \<and> cur s' = None"
  proof (cases "cur s")
    case (Some t)
    then obtain s1 where s1: "set_status t Ready (s\<lparr>cur := None\<rparr>) = Some s1" "s' = s1\<lparr>task_queue := task_queue s1 @ [t]\<rparr>"
      using assms(2) by (auto simp: suspend_current_task_def push_task_to_schedule_def panic_simps)
    obtain p where p: "bt_get (tasks s) t = Some p" "s1 = s\<lparr>cur := None, tasks := bt_insert t (p\<lparr>status := Ready\<rparr>) (tasks s)\<rparr>"
      "bt_get (tasks s1) = (bt_get (tasks s))(t \<mapsto> p\<lparr>status := Ready\<rparr>)" "bt_wf (tasks s1)"
      using upd_task_get [OF _ s1(1) [unfolded set_status_def]] wf by auto
    have run: "distinct (task_queue s)" "status p = Running" "t \<notin> set (task_queue s)"
      using assms(1) Some p(1) by (fastforce simp: proc_inv_def places_def)+
    have "proc_inv X s'"
      by (rule proc_inv_switch [OF assms(1) p(1), of "p\<lparr>status := Ready\<rparr>"]) (use s1(2) p run Some proc_inv_children [OF assms(1) p(1)] in \<open>auto simp: placed_def\<close>)
    then show ?thesis using s1(2) p(2) Some by simp
  qed (use assms in \<open>auto simp: suspend_current_task_def\<close>)
  then show "proc_inv X s'" "task_queue s' = task_queue s @ (case cur s of None \<Rightarrow> [] | Some t \<Rightarrow> [t])" "cur s' = None" by blast+
qed

section \<open>The end of a task\<close>

lemma placed_mono: "placed X T Q C orig t p \<Longrightarrow> X \<subseteq> Y \<Longrightarrow> placed Y T Q C orig t p"
  by (auto simp: placed_def)

lemma places_mono: "places X T Q C orig \<Longrightarrow> X \<subseteq> Y \<Longrightarrow> places Y T Q C orig"
  unfolding places_def using placed_mono [of X] by fastforce

lemma proc_inv_mono: "proc_inv X s \<Longrightarrow> X \<subseteq> Y \<Longrightarrow> proc_inv Y s"
  unfolding proc_inv_def using places_mono by blast

lemma placed_held: "placed {c} T Q C orig t p \<Longrightarrow> held T orig c \<Longrightarrow> placed {} T Q C orig t p"
  by (auto simp: placed_def)

lemma places_held: "places {c} T Q C orig \<Longrightarrow> held T orig c \<Longrightarrow> places {} T Q C orig"
  unfolding places_def using placed_held by blast

lemma places_remove:
  assumes inv: "places {c} T Q C orig" and c: "T c = Some p" "status p = Dead" and no: "\<not> held T orig c"
  shows "places {} (T(c := None)) Q C orig"
  unfolding places_def
proof (intro conjI allI impI ballI)
  have pl: "distinct Q" "\<forall>t \<in> set Q. \<exists>p. T t = Some p \<and> status p = Ready" "\<forall>t. C = Some t \<longrightarrow> (\<exists>p. T t = Some p \<and> status p = Running)"
    "\<forall>t. orig = Some t \<longrightarrow> T t \<noteq> None" "\<And>t p. T t = Some p \<Longrightarrow> placed {c} T Q C orig t p" "\<And>t p. T t = Some p \<Longrightarrow> set (child p) \<subseteq> dom T"
    using inv unfolding places_def by blast+
  have ch: "child p = []" using pl(5) [OF c(1)] c(2) by (simp add: placed_def)
  show "distinct Q" by (rule pl(1))
  fix t
  show "\<exists>q. (T(c := None)) t = Some q \<and> status q = Ready" if "t \<in> set Q" using pl(2) that c by force
  show "\<exists>q. (T(c := None)) t = Some q \<and> status q = Running" if "C = Some t" using pl(3) that c by force
  show "(T(c := None)) t \<noteq> None" if "orig = Some t" using pl(4) that no by (auto simp: held_def)
  fix q assume q: "(T(c := None)) t = Some q"
  then have t: "t \<noteq> c" "T t = Some q" by (auto split: if_splits)
  show "set (child q) \<subseteq> dom (T(c := None))" using pl(6) [OF t(2)] no t(2) by (auto simp: held_def)
  have "held (T(c := None)) orig u" if h: "held T orig u" for u
  proof (cases "orig = Some u")
    case False
    then obtain v r where r: "T v = Some r" "u \<in> set (child r)" using h by (auto simp: held_def)
    then have "v \<noteq> c" using c(1) ch by auto
    with r show ?thesis by (auto simp: held_def)
  qed (simp add: held_def)
  then show "placed {} (T(c := None)) Q C orig t q" using pl(5) [OF t(2)] t(1) by (auto simp: placed_def)
qed

lemma referenced_held:
  assumes "proc_inv X s" "bt_get (tasks s) c = Some p" "status p = Dead"
  shows "referenced c s \<longleftrightarrow> held (bt_get (tasks s)) (origin s) c"
proof -
  have "c \<notin> set (task_queue s)" "cur s \<noteq> Some c" using assms by (fastforce simp: proc_inv_def places_def)+
  moreover have "list_ex (\<lambda>(_, p). c \<in> set (child p)) (tasks s) \<longleftrightarrow> (\<exists>u q. bt_get (tasks s) u = Some q \<and> c \<in> set (child q))"
    using assms(1) bt_get_iff [of "tasks s"] by (auto simp: proc_inv_def list_ex_iff)
  ultimately show ?thesis by (auto simp: referenced_def held_def)
qed

text \<open>A dead task that is still held stays. Otherwise it goes, and its process number returns to the allocator.\<close>

lemma drop_task_spec:
  assumes inv: "proc_inv {c} s" and p: "bt_get (tasks s) c = Some p" "status p = Dead" and d: "drop_task c s = Some s'"
  shows "proc_inv {} s'" "task_queue s' = task_queue s" "cur s' = cur s" "origin s' = origin s" "fresh s' = fresh s"
    "held (bt_get (tasks s)) (origin s) c \<Longrightarrow> s' = s"
    "\<not> held (bt_get (tasks s)) (origin s) c \<Longrightarrow>
       bt_get (tasks s') = (bt_get (tasks s))(c := None) \<and> avail pid_level (pids s') = insert (pid p) (avail pid_level (pids s))"
proof -
  note ref = referenced_held [OF inv p]
  have goal: "proc_inv {} s' \<and> task_queue s' = task_queue s \<and> cur s' = cur s \<and> origin s' = origin s \<and> fresh s' = fresh s \<and>
    (if held (bt_get (tasks s)) (origin s) c then s' = s
     else bt_get (tasks s') = (bt_get (tasks s))(c := None) \<and> avail pid_level (pids s') = insert (pid p) (avail pid_level (pids s)))"
  proof (cases "held (bt_get (tasks s)) (origin s) c")
    case True
    then have "s' = s" using d ref by (simp add: drop_task_def)
    with inv True show ?thesis by (auto simp: proc_inv_def intro: places_held)
  next
    case False
    define rest where "rest = bt_remove c (tasks s)"
    have a: "dealloc_pid (pid p) (pids s) = Some (pids s')" and s': "tasks s' = rest" "task_queue s' = task_queue s" "cur s' = cur s" "origin s' = origin s" "fresh s' = fresh s"
      and vs: "vms s' = (if list_ex (\<lambda>(_, q). vm q = vm p) rest then vms s else bt_remove (vm p) (vms s))"
      using d False ref p(1) unfolding drop_task_def Let_def rest_def [symmetric]
      by (cases "list_ex (\<lambda>(_, q). vm q = vm p) rest"; auto simp: panic_simps split: if_splits)+
    have inv': "bt_wf (tasks s)" "bt_wf (vms s)" "ba_wf pid_level (pids s)" "places {c} (bt_get (tasks s)) (task_queue s) (cur s) (origin s)"
      "numbers (pid_of (bt_get (tasks s))) (avail pid_level (pids s))"
      "\<And>t q. bt_get (tasks s) t = Some q \<Longrightarrow> t < fresh s \<and> vm q < fresh s \<and> fdt q < fresh s \<and> bt_get (vms s) (vm q) \<noteq> None"
      using inv unfolding proc_inv_def by blast+
    have T: "bt_get rest = (bt_get (tasks s))(c := None)" "bt_wf rest" using inv'(1) by (auto simp: rest_def)
    have n: "pid_of (bt_get (tasks s)) c = Some (pid p)" using p(1) by (simp add: pid_of_def)
    note rm = numbers_remove [OF inv'(5) n]
    have av: "ba_wf pid_level (pids s')" "avail pid_level (pids s') = insert (pid p) (avail pid_level (pids s))"
      using ba_dealloc_spec [OF inv'(3), of "pid p"] rm(2,4) a by (auto simp: dealloc_pid_def MAX_PID_def)
    have "bt_get (vms s') (vm q) \<noteq> None" if q: "bt_get rest t = Some q" for t q
    proof (cases "vm q = vm p")
      case True
      then have "list_ex (\<lambda>(_, q). vm q = vm p) rest" using q bt_get_iff [OF T(2)] by (auto simp: list_ex_iff)
      then show ?thesis using inv'(6) [of t q] q T(1) vs by (auto split: if_splits)
    qed (use inv'(6) [of t q] q T(1) vs in \<open>auto split: if_splits\<close>)
    then have "proc_inv {} s'" using inv' T av rm(1) places_remove [OF inv'(4) p False] s' vs
      by (auto simp: proc_inv_def split: if_splits)
    then show ?thesis using False s' T(1) av(2) by simp
  qed
  then show "proc_inv {} s'" "task_queue s' = task_queue s" "cur s' = cur s" "origin s' = origin s" "fresh s' = fresh s"
    "held (bt_get (tasks s)) (origin s) c \<Longrightarrow> s' = s"
    "\<not> held (bt_get (tasks s)) (origin s) c \<Longrightarrow>
       bt_get (tasks s') = (bt_get (tasks s))(c := None) \<and> avail pid_level (pids s') = insert (pid p) (avail pid_level (pids s))"
    by (simp_all split: if_splits)
qed

lemma adopt_loop_None: "adopt_loop fuel t c s = None"
  by (induction fuel arbitrary: s) (auto simp: panic_simps)

lemma exit_spec:
  assumes inv: "proc_inv {} s" and t: "cur s = Some t" "bt_get (tasks s) t = Some p" and e: "exit_current_task fuel code s = Some s'"
  shows "child p = []" "proc_inv {} s'" "cur s' = None" "task_queue s' = task_queue s" "origin s' = origin s"
    "held (bt_get (tasks s)) (origin s) t \<Longrightarrow> bt_get (tasks s') = (bt_get (tasks s))(t \<mapsto> p\<lparr>status := Dead, exit_code := code\<rparr>)"
    "\<not> held (bt_get (tasks s)) (origin s) t \<Longrightarrow>
       bt_get (tasks s') = (bt_get (tasks s))(t := None) \<and> avail pid_level (pids s') = insert (pid p) (avail pid_level (pids s))"
proof -
  define q where "q = p\<lparr>status := Dead, exit_code := code\<rparr>"
  have wf: "bt_wf (tasks s)" using inv by (simp add: proc_inv_def)
  obtain s2 s3 where s2: "s2 = s\<lparr>cur := None, tasks := bt_insert t q (bt_insert t (p\<lparr>status := Dead\<rparr>) (tasks s))\<rparr>"
    and s3: "foldM (adopt_loop fuel t) (child p) s2 = Some s3" "Option.bind (clear_child t s3) (drop_task t) = Some s'"
    using e t wf by (auto simp: exit_current_task_def set_status_def set_exit_code_def upd_task_def q_def panic_simps)
  show ch: "child p = []" using s3(1) by (cases "child p") (auto simp: adopt_loop_None)
  define s4 where "s4 = s2\<lparr>tasks := bt_insert t q (tasks s2)\<rparr>"
  have q: "q\<lparr>child := []\<rparr> = q" using ch by (simp add: q_def)
  have "s3 = s2" using s3(1) ch by simp
  moreover have "bt_get (tasks s2) t = Some q" using wf by (simp add: s2)
  ultimately have d: "drop_task t s4 = Some s'" using s3(2) by (simp add: clear_child_def upd_task_def s4_def q)
  have T: "bt_get (tasks s4) = (bt_get (tasks s))(t \<mapsto> q)" "bt_wf (tasks s4)" using wf by (auto simp: s4_def s2)
  have run: "distinct (task_queue s)" "status p = Running" "t \<notin> set (task_queue s)"
    using inv t by (fastforce simp: proc_inv_def places_def)+
  have inv4: "proc_inv {t} s4"
    by (rule proc_inv_switch [OF proc_inv_mono [OF inv] t(2), of _ q])
      (use T run t ch proc_inv_children [OF inv t(2)] in \<open>auto simp: placed_def q_def s4_def s2\<close>)
  have h: "held (bt_get (tasks s4)) (origin s4) t \<longleftrightarrow> held (bt_get (tasks s)) (origin s) t"
    using held_same [of "bt_get (tasks s)" t p q] t(2) unfolding T(1) by (simp add: q_def s4_def s2)
  have q4: "bt_get (tasks s4) t = Some q" "status q = Dead" by (simp_all add: T(1) q_def)
  note dr = drop_task_spec [OF inv4 q4 d]
  show "proc_inv {} s'" "cur s' = None" "task_queue s' = task_queue s" "origin s' = origin s"
    using dr(1-5) by (simp_all add: s4_def s2)
  show "bt_get (tasks s') = (bt_get (tasks s))(t \<mapsto> p\<lparr>status := Dead, exit_code := code\<rparr>)" if "held (bt_get (tasks s)) (origin s) t"
    using dr(6) h that T(1) by (simp add: q_def)
  show "bt_get (tasks s') = (bt_get (tasks s))(t := None) \<and> avail pid_level (pids s') = insert (pid p) (avail pid_level (pids s))"
    if "\<not> held (bt_get (tasks s)) (origin s) t"
    using dr(7) h that unfolding T(1) by (simp add: q_def s4_def s2)
qed

section \<open>Waiting for a child\<close>

text \<open>The scan of the children stops at the first one that matches and is dead.\<close>

definition reaps :: "(pcb \<Rightarrow> bool) \<Rightarrow> (task \<rightharpoonup> pcb) \<Rightarrow> task \<Rightarrow> bool" where
  "reaps m T c \<longleftrightarrow> (\<exists>p. T c = Some p \<and> m p \<and> is_dead p)"

definition matches :: "(pcb \<Rightarrow> bool) \<Rightarrow> (task \<rightharpoonup> pcb) \<Rightarrow> task \<Rightarrow> bool" where
  "matches m T c \<longleftrightarrow> (\<exists>p. T c = Some p \<and> m p)"

lemma wait_scan_found:
  assumes "i < length cs" "reaps m (bt_get (tasks s)) (cs ! i)" "\<forall>j < i. \<not> reaps m (bt_get (tasks s)) (cs ! j)"
    "set cs \<subseteq> dom (bt_get (tasks s))" "bt_get (tasks s) (cs ! i) = Some p"
  shows "wait_scan m ret f idx cs s = Some (Success (pid p), idx + i)"
  using assms
proof (induction cs arbitrary: i ret idx)
  case (Cons c cs)
  obtain q where q: "bt_get (tasks s) c = Some q" using Cons.prems(4) by auto
  show ?case
  proof (cases i)
    case 0
    then show ?thesis using Cons.prems q by (auto simp: reaps_def)
  next
    case (Suc i')
    have "\<not> reaps m (bt_get (tasks s)) c" using Cons.prems(3) Suc by force
    then have "\<not> (m q \<and> is_dead q)" using q by (simp add: reaps_def)
    moreover have "wait_scan m r f (idx + 1) cs s = Some (Success (pid p), idx + 1 + i')" for r
      using Cons.prems Suc by (intro Cons.IH) force+
    ultimately show ?thesis using q Suc by auto
  qed
qed simp

lemma wait_scan_none:
  assumes "\<forall>c \<in> set cs. \<not> reaps m (bt_get (tasks s)) c" "set cs \<subseteq> dom (bt_get (tasks s))"
  shows "wait_scan m ret f idx cs s = Some (if \<exists>c \<in> set cs. matches m (bt_get (tasks s)) c then NotZombie else ret, f)"
  using assms
proof (induction cs arbitrary: ret idx)
  case (Cons c cs)
  obtain q where q: "bt_get (tasks s) c = Some q" using Cons.prems(2) by auto
  then have "\<not> (m q \<and> is_dead q)" using Cons.prems(1) by (auto simp: reaps_def)
  then show ?case using Cons q by (auto simp: matches_def)
qed simp

definition without :: "nat \<Rightarrow> 'a list \<Rightarrow> 'a list" where
  "without i xs = take i xs @ drop (Suc i) xs"

lemma set_without: "i < length xs \<Longrightarrow> set xs - {xs ! i} \<subseteq> set (without i xs)" "set (without i xs) \<subseteq> set xs"
proof -
  show "set xs - {xs ! i} \<subseteq> set (without i xs)" if "i < length xs"
    using id_take_nth_drop [OF that] by (metis Diff_subset_conv insert_is_Un list.simps(15) order_refl set_append Un_insert_right without_def)
  show "set (without i xs) \<subseteq> set xs" by (auto simp: without_def dest: in_set_takeD in_set_dropD)
qed

definition unlink :: "task \<Rightarrow> pcb \<Rightarrow> nat \<Rightarrow> 'f kernel \<Rightarrow> 'f kernel" where
  "unlink t self i s = s\<lparr>tasks := bt_insert t (self\<lparr>child := without i (child self)\<rparr>) (tasks s)\<rparr>"

definition wait_mem :: "usize \<Rightarrow> pcb \<Rightarrow> umem32 \<Rightarrow> umem32" where
  "wait_mem wstatus p um = (if wstatus \<noteq> 0 then um(wstatus := push_bit 8 (exit_code p)) else um)"

lemma waitpid_found:
  assumes inv: "proc_inv {} s" and t: "cur s = Some t" "bt_get (tasks s) t = Some self"
    and i: "i < length (child self)" "reaps (wait_match wpid self) (bt_get (tasks s)) (child self ! i)"
      "\<forall>j < i. \<not> reaps (wait_match wpid self) (bt_get (tasks s)) (child self ! j)"
    and p: "bt_get (tasks s) (child self ! i) = Some p"
  shows "waitpid wpid wstatus (s, um) =
    Option.bind (drop_task (child self ! i) (unlink t self i s)) (\<lambda>s'. Some ((s', wait_mem wstatus p um), Success (pid p)))"
proof -
  have "is_dead p" using i(2) p by (auto simp: reaps_def)
  then show ?thesis
    using wait_scan_found [OF i proc_inv_children [OF inv t(2)] p] t p i(1)
    by (auto simp: waitpid_def upd_task_def pcb_exit_code_def is_dead_def unlink_def without_def wait_mem_def nth_opt_def)
qed

lemma waitpid_none:
  assumes inv: "proc_inv {} s" and t: "cur s = Some t" "bt_get (tasks s) t = Some self"
    and no: "\<forall>c \<in> set (child self). \<not> reaps (wait_match wpid self) (bt_get (tasks s)) c"
  shows "waitpid wpid wstatus (s, um) =
    Some ((s, um), if wpid = -1 \<or> (\<exists>c \<in> set (child self). matches (wait_match wpid self) (bt_get (tasks s)) c) then NotZombie else NotFound)"
  using wait_scan_none [OF no proc_inv_children [OF inv t(2)]] t by (auto simp: waitpid_def)

lemma unlink_spec:
  assumes inv: "proc_inv {} s" and t: "cur s = Some t" "bt_get (tasks s) t = Some self" and i: "i < length (child self)"
    and p: "bt_get (tasks s) (child self ! i) = Some p" "status p = Dead"
  shows "proc_inv {child self ! i} (unlink t self i s)" "bt_get (tasks (unlink t self i s)) (child self ! i) = Some p"
    "bt_get (tasks (unlink t self i s)) = (bt_get (tasks s))(t \<mapsto> self\<lparr>child := without i (child self)\<rparr>)"
proof -
  have wf: "bt_wf (tasks s)" using inv by (simp add: proc_inv_def)
  have run: "distinct (task_queue s)" "status self = Running" "t \<notin> set (task_queue s)"
    using inv t by (fastforce simp: proc_inv_def places_def)+
  show T: "bt_get (tasks (unlink t self i s)) = (bt_get (tasks s))(t \<mapsto> self\<lparr>child := without i (child self)\<rparr>)"
    using wf by (auto simp: unlink_def)
  have "child self ! i \<noteq> t" using run(2) p t(2) by auto
  then show "bt_get (tasks (unlink t self i s)) (child self ! i) = Some p" using p by (simp add: T)
  show "proc_inv {child self ! i} (unlink t self i s)"
    by (rule proc_inv_switch [OF proc_inv_mono [OF inv] t(2), of _ "self\<lparr>child := without i (child self)\<rparr>"])
      (use T wf run t set_without [of i "child self"] i proc_inv_children [OF inv t(2)] in \<open>auto simp: placed_def unlink_def\<close>)
qed

lemma waitpid_inv:
  assumes inv: "proc_inv {} s" and w: "waitpid wpid wstatus (s, um) = Some ((s', um'), r)"
  shows "proc_inv {} s'" "task_queue s' = task_queue s" "cur s' = cur s" "origin s' = origin s"
proof -
  obtain t self where t: "cur s = Some t" "bt_get (tasks s) t = Some self" using w by (auto simp: waitpid_def panic_simps)
  let ?m = "wait_match wpid self"
  have "proc_inv {} s' \<and> task_queue s' = task_queue s \<and> cur s' = cur s \<and> origin s' = origin s"
  proof (cases "\<exists>i < length (child self). reaps ?m (bt_get (tasks s)) (child self ! i)")
    case True
    define i where "i = (LEAST i. i < length (child self) \<and> reaps ?m (bt_get (tasks s)) (child self ! i))"
    have i: "i < length (child self)" "reaps ?m (bt_get (tasks s)) (child self ! i)"
      using LeastI_ex [OF True [unfolded Bex_def]] unfolding i_def by blast+
    have "\<forall>j < i. \<not> reaps ?m (bt_get (tasks s)) (child self ! j)" using not_less_Least i(1) unfolding i_def by (metis (no_types, lifting) order.strict_trans)
    note i' = i this
    obtain p where p: "bt_get (tasks s) (child self ! i) = Some p" "status p = Dead" using i(2) by (auto simp: reaps_def is_dead_def)
    have "drop_task (child self ! i) (unlink t self i s) = Some s'"
      using w waitpid_found [OF inv t i' p(1)] by (auto simp: panic_simps)
    note d = drop_task_spec [OF unlink_spec(1,2) [OF inv t i(1) p] p(2) this]
    show ?thesis using d(1-4) by (simp add: unlink_def)
  next
    case False
    then have "\<forall>c \<in> set (child self). \<not> reaps ?m (bt_get (tasks s)) c" by (auto simp: in_set_conv_nth)
    then show ?thesis using waitpid_none [OF inv t] w inv by auto
  qed
  then show "proc_inv {} s'" "task_queue s' = task_queue s" "cur s' = cur s" "origin s' = origin s" by blast+
qed

section \<open>Clone\<close>

lemma places_add:
  assumes inv: "places {} T Q C orig" and c: "T c = None" and q: "status q = Ready" "child q = []"
  shows "places {} (T(c \<mapsto> q)) (Q @ [c]) C orig"
  unfolding places_def
proof (intro conjI allI impI ballI)
  have pl: "distinct Q" "\<forall>t \<in> set Q. \<exists>p. T t = Some p \<and> status p = Ready" "\<forall>t. C = Some t \<longrightarrow> (\<exists>p. T t = Some p \<and> status p = Running)"
    "\<forall>t. orig = Some t \<longrightarrow> T t \<noteq> None" "\<And>t p. T t = Some p \<Longrightarrow> placed {} T Q C orig t p" "\<And>t p. T t = Some p \<Longrightarrow> set (child p) \<subseteq> dom T"
    using inv unfolding places_def by blast+
  show "distinct (Q @ [c])" using pl(1,2) c by force
  fix t
  show "\<exists>p. (T(c \<mapsto> q)) t = Some p \<and> status p = Ready" if "t \<in> set (Q @ [c])" using pl(2) that q by force
  show "\<exists>p. (T(c \<mapsto> q)) t = Some p \<and> status p = Running" if "C = Some t" using pl(3) that c by force
  show "(T(c \<mapsto> q)) t \<noteq> None" if "orig = Some t" using pl(4) that by auto
  fix p assume p: "(T(c \<mapsto> q)) t = Some p"
  show "set (child p) \<subseteq> dom (T(c \<mapsto> q))" using pl(6) [of t p] p q by (cases "t = c") auto
  have "held (T(c \<mapsto> q)) orig u" if "held T orig u" for u using that c unfolding held_def by (metis fun_upd_apply option.distinct(1))
  then show "placed {} (T(c \<mapsto> q)) (Q @ [c]) C orig t p" using pl(5) [of t p] p q by (cases "t = c") (auto simp: placed_def)
qed

text \<open>The parts of a clone: what each leaves alone.\<close>

lemma clone_vm_spec:
  assumes "clone_vm h flags p s = Some (s', v)" "bt_wf (vms s)" "vm p < fresh s" "bt_get (vms s) (vm p) \<noteq> None"
  shows "tasks s' = tasks s" "pids s' = pids s" "task_queue s' = task_queue s" "cur s' = cur s" "origin s' = origin s" "trap_cxs s' = trap_cxs s" "fdts s' = fdts s"
    "fresh s \<le> fresh s'" "bt_wf (vms s')" "v < fresh s'" "bt_get (vms s') v \<noteq> None" "u < fresh s \<Longrightarrow> bt_get (vms s') u = bt_get (vms s) u"
    "contains flags CLONE_VM \<Longrightarrow> v = vm p \<and> s' = s" "\<not> contains flags CLONE_VM \<Longrightarrow> v = fresh s"
  using assms by (auto simp: clone_vm_def panic_simps split: if_splits)

lemma clone_fdt_spec:
  assumes "clone_fdt h flags p s = Some (s', d)"
  shows "tasks s' = tasks s" "pids s' = pids s" "task_queue s' = task_queue s" "cur s' = cur s" "origin s' = origin s" "trap_cxs s' = trap_cxs s" "vms s' = vms s"
    "fresh s \<le> fresh s'" "contains flags CLONE_FILES \<Longrightarrow> d = fdt p \<and> s' = s" "\<not> contains flags CLONE_FILES \<Longrightarrow> d = fresh s"
  using assms by (auto simp: clone_fdt_def panic_simps split: if_splits)

lemma alloc_pid_spec:
  assumes "ba_wf pid_level b" "alloc_pid b = Some (a, Some n)"
  shows "ba_wf pid_level a" "n \<in> avail pid_level b" "n = Min (avail pid_level b)" "avail pid_level a = avail pid_level b - {n}"
  using ba_alloc_spec [OF assms(1)] assms(2) Min_in [of "avail pid_level b"] finite_subset [OF avail_bound]
  by (auto simp: alloc_pid_def)

text \<open>The task a clone makes.\<close>

definition clone_child :: "'f hart \<Rightarrow> task \<Rightarrow> pcb \<Rightarrow> u32 \<Rightarrow> nat \<Rightarrow> kstack \<Rightarrow> nat \<Rightarrow> nat \<Rightarrow> pcb" where
  "clone_child h t p flags n ks v d =
     \<lparr>tgid = (if contains flags CLONE_THREAD then tgid p else n), pid = n, kernel_stack = ks, vm = v, fdt = d, cwd = cwd p,
      ppid = (if contains flags CLONE_PARENT then ppid p else pid p), exit_code = 0,
      parent = (if contains flags CLONE_PARENT then parent p else Some t), child = [],
      task_cx = init_task_cx (restore h) (trap_cx_ptr ks), status = Ready\<rparr>"

lemma clone_child_simps [simp]:
  "pid (clone_child h t p flags n ks v d) = n" "vm (clone_child h t p flags n ks v d) = v" "status (clone_child h t p flags n ks v d) = Ready"
  "child (clone_child h t p flags n ks v d) = []" "fdt (clone_child h t p flags n ks v d) = d"
  by (simp_all add: clone_child_def)

lemma from_clone_parts:
  assumes "from_clone h t flags user_stack tls s = Some (s', n)"
  obtains p s1 v s2 d a k ks tx s4 where
    "bt_get (tasks s) t = Some p" "clone_vm h flags p s = Some (s1, v)" "clone_fdt h flags p s1 = Some (s2, d)" "alloc_pid (pids s2) = Some (a, Some n)"
    "top_trap_cx (kernel_stack p) (trap_cxs s2) = Some tx"
    "s4 = s2\<lparr>mem := k, pids := a, trap_cxs := (trap_cxs s2)(trap_cx_ptr ks \<mapsto> clone_cx flags user_stack tls (trap_cx_empty (sstatus h)) tx),
             fresh := fresh s2 + 1, tasks := bt_insert (fresh s2) (clone_child h t p flags n ks v d) (tasks s2), task_queue := task_queue s2 @ [fresh s2]\<rparr>"
    "if contains flags CLONE_PARENT then s' = s4 else upd_task t (\<lambda>p. p\<lparr>child := child p @ [fresh s2]\<rparr>) s4 = Some s'"
proof -
  obtain p s1 v s2 d a k ks tx where c: "bt_get (tasks s) t = Some p" "clone_vm h flags p s = Some (s1, v)" "clone_fdt h flags p s1 = Some (s2, d)"
    "alloc_pid (pids s2) = Some (a, Some n)" "init_kernel_stack (heap_ptr h (fresh s2)) (mem s2) = Some (k, ks)"
    "top_trap_cx (kernel_stack p) (trap_cxs s2) = Some tx"
    using assms unfolding from_clone_def Let_def push_trap_cx_def by (auto simp: panic_simps)
  define s4 where "s4 = s2\<lparr>mem := k, pids := a, trap_cxs := (trap_cxs s2)(trap_cx_ptr ks \<mapsto> clone_cx flags user_stack tls (trap_cx_empty (sstatus h)) tx),
             fresh := fresh s2 + 1, tasks := bt_insert (fresh s2) (clone_child h t p flags n ks v d) (tasks s2), task_queue := task_queue s2 @ [fresh s2]\<rparr>"
  have "if contains flags CLONE_PARENT then s' = s4 else upd_task t (\<lambda>p. p\<lparr>child := child p @ [fresh s2]\<rparr>) s4 = Some s'"
    using assms c unfolding from_clone_def Let_def s4_def clone_child_def
    by (auto simp: push_trap_cx_def push_task_to_schedule_def upd_task_def panic_simps split: if_splits)
  then show thesis using that c(1-4,6) s4_def by blast
qed

lemma proc_inv_add:
  assumes inv: "proc_inv {} s" and q: "status q = Ready" "child q = []" "pid q \<in> avail pid_level (pids s)"
    and s': "bt_get (tasks s') = (bt_get (tasks s))(c \<mapsto> q)" "task_queue s' = task_queue s @ [c]" "cur s' = cur s" "origin s' = origin s"
      "avail pid_level (pids s') = avail pid_level (pids s) - {pid q}"
    and wf: "bt_wf (tasks s')" "bt_wf (vms s')" "ba_wf pid_level (pids s')"
    and f: "fresh s \<le> c" "c < fresh s'" "vm q < fresh s'" "fdt q < fresh s'"
    and vms: "bt_get (vms s') (vm q) \<noteq> None" "\<And>u. u < fresh s \<Longrightarrow> bt_get (vms s') u = bt_get (vms s) u"
  shows "proc_inv {} s'" "bt_get (tasks s) c = None"
proof -
  let ?T = "bt_get (tasks s)"
  have i: "places {} ?T (task_queue s) (cur s) (origin s)" "numbers (pid_of ?T) (avail pid_level (pids s))"
    and H: "\<And>u p. ?T u = Some p \<Longrightarrow> u < fresh s \<and> vm p < fresh s \<and> fdt p < fresh s \<and> bt_get (vms s) (vm p) \<noteq> None"
    using inv unfolding proc_inv_def by blast+
  show c: "?T c = None" using H [of c] f(1) by fastforce
  have "u < fresh s' \<and> vm p < fresh s' \<and> fdt p < fresh s' \<and> bt_get (vms s') (vm p) \<noteq> None" if u: "bt_get (tasks s') u = Some p" for u p
  proof (cases "u = c")
    case True
    then show ?thesis using u f vms(1) s'(1) by simp
  next
    case False
    then have "?T u = Some p" using u s'(1) by simp
    then show ?thesis using H [of u p] f(1,2) vms(2) [of "vm p"] by simp
  qed
  moreover have "places {} (bt_get (tasks s')) (task_queue s') (cur s') (origin s')" using places_add [OF i(1) c q(1,2)] s' by simp
  moreover have "numbers (pid_of (bt_get (tasks s'))) (avail pid_level (pids s'))"
    using numbers_add [OF i(2) q(3), of c] c s' by (simp add: pid_of_def)
  ultimately show "proc_inv {} s'" using wf unfolding proc_inv_def by blast
qed

lemma add_child_inv:
  assumes inv: "proc_inv {} s" and t: "cur s = Some t" and c: "bt_get (tasks s) c \<noteq> None"
    and u: "upd_task t (\<lambda>p. p\<lparr>child := child p @ [c]\<rparr>) s = Some s'"
  shows "\<exists>p. bt_get (tasks s) t = Some p \<and> s' = s\<lparr>tasks := bt_insert t (p\<lparr>child := child p @ [c]\<rparr>) (tasks s)\<rparr> \<and>
    bt_get (tasks s') = (bt_get (tasks s))(t \<mapsto> p\<lparr>child := child p @ [c]\<rparr>) \<and> proc_inv {} s'"
proof -
  have "bt_wf (tasks s)" using inv by (simp add: proc_inv_def)
  then obtain p where p: "bt_get (tasks s) t = Some p" "s' = s\<lparr>tasks := bt_insert t (p\<lparr>child := child p @ [c]\<rparr>) (tasks s)\<rparr>"
    "bt_get (tasks s') = (bt_get (tasks s))(t \<mapsto> p\<lparr>child := child p @ [c]\<rparr>)" "bt_wf (tasks s')"
    using upd_task_get [OF _ u] by auto
  have run: "distinct (task_queue s)" "status p = Running" "t \<notin> set (task_queue s)"
    using inv t p(1) by (fastforce simp: proc_inv_def places_def)+
  have "proc_inv {} s'"
    by (rule proc_inv_switch [OF inv p(1), of "p\<lparr>child := child p @ [c]\<rparr>"])
      (use p run t c proc_inv_children [OF inv p(1)] in \<open>auto simp: placed_def\<close>)
  then show ?thesis using p by blast
qed

lemma from_clone_spec:
  assumes inv: "proc_inv {} s" and t: "cur s = Some t" and f: "from_clone h t flags user_stack tls s = Some (s', n)"
  shows "\<exists>p c ks v d tx. bt_get (tasks s) t = Some p \<and> bt_get (tasks s) c = None \<and>
      bt_get (tasks s') = (bt_get (tasks s))(c \<mapsto> clone_child h t p flags n ks v d,
        t \<mapsto> (if contains flags CLONE_PARENT then p else p\<lparr>child := child p @ [c]\<rparr>)) \<and>
      task_queue s' = task_queue s @ [c] \<and> cur s' = cur s \<and> origin s' = origin s \<and>
      n = Min (avail pid_level (pids s)) \<and> n \<in> avail pid_level (pids s) \<and> avail pid_level (pids s') = avail pid_level (pids s) - {n} \<and>
      trap_cxs s (trap_cx_ptr (kernel_stack p)) = Some tx \<and>
      trap_cxs s' = (trap_cxs s)(trap_cx_ptr ks \<mapsto> clone_cx flags user_stack tls (trap_cx_empty (sstatus h)) tx) \<and>
      (if contains flags CLONE_VM then v = vm p else \<forall>u q. bt_get (tasks s) u = Some q \<longrightarrow> vm q \<noteq> v) \<and>
      (if contains flags CLONE_FILES then d = fdt p else \<forall>u q. bt_get (tasks s) u = Some q \<longrightarrow> fdt q \<noteq> d) \<and>
      proc_inv {} s'"
proof -
  obtain p s1 v s2 d a k ks tx s4 where parts:
    "bt_get (tasks s) t = Some p" "clone_vm h flags p s = Some (s1, v)" "clone_fdt h flags p s1 = Some (s2, d)" "alloc_pid (pids s2) = Some (a, Some n)"
    "top_trap_cx (kernel_stack p) (trap_cxs s2) = Some tx"
    "s4 = s2\<lparr>mem := k, pids := a, trap_cxs := (trap_cxs s2)(trap_cx_ptr ks \<mapsto> clone_cx flags user_stack tls (trap_cx_empty (sstatus h)) tx),
             fresh := fresh s2 + 1, tasks := bt_insert (fresh s2) (clone_child h t p flags n ks v d) (tasks s2), task_queue := task_queue s2 @ [fresh s2]\<rparr>"
    "if contains flags CLONE_PARENT then s' = s4 else upd_task t (\<lambda>p. p\<lparr>child := child p @ [fresh s2]\<rparr>) s4 = Some s'"
    using f by (rule from_clone_parts)
  let ?T = "bt_get (tasks s)" and ?c = "fresh s2" and ?q = "clone_child h t p flags n ks v d"
  have i: "bt_wf (tasks s)" "bt_wf (vms s)" "ba_wf pid_level (pids s)" "places {} ?T (task_queue s) (cur s) (origin s)"
    "numbers (pid_of ?T) (avail pid_level (pids s))"
    and H: "\<And>u q. ?T u = Some q \<Longrightarrow> u < fresh s \<and> vm q < fresh s \<and> fdt q < fresh s \<and> bt_get (vms s) (vm q) \<noteq> None"
    using inv unfolding proc_inv_def by blast+
  note v = clone_vm_spec [OF parts(2) i(2)]
  have v: "tasks s1 = tasks s" "pids s1 = pids s" "task_queue s1 = task_queue s" "cur s1 = cur s" "origin s1 = origin s" "trap_cxs s1 = trap_cxs s"
    "fresh s \<le> fresh s1" "bt_wf (vms s1)" "v < fresh s1" "bt_get (vms s1) v \<noteq> None" "\<And>u. u < fresh s \<Longrightarrow> bt_get (vms s1) u = bt_get (vms s) u"
    "contains flags CLONE_VM \<Longrightarrow> v = vm p" "\<not> contains flags CLONE_VM \<Longrightarrow> v = fresh s"
    using v H [OF parts(1)] by simp_all
  note d = clone_fdt_spec [OF parts(3)]
  have d': "d < fresh s4" "fresh s \<le> ?c" "v < fresh s4"
    using d(8-10) v(7,9) H [OF parts(1)] parts(3) by (auto simp: parts(6) clone_fdt_def panic_simps split: if_splits)
  note al = alloc_pid_spec [OF i(3), of a n]
  have al: "ba_wf pid_level a" "n \<in> avail pid_level (pids s)" "n = Min (avail pid_level (pids s))" "avail pid_level a = avail pid_level (pids s) - {n}"
    using al parts(4) d(2) v(2) by simp_all
  have T4: "bt_get (tasks s4) = ?T(?c \<mapsto> ?q)" using i(1) d(1) v(1) by (auto simp: parts(6))
  have inv4: "proc_inv {} s4" and c: "?T ?c = None"
    by (rule proc_inv_add [where q = ?q and s' = s4 and c = ?c, OF inv]; use T4 i(1) al d d' v in \<open>simp add: parts(6)\<close>)+
  have tc: "t \<noteq> ?c" using c parts(1) by auto
  have fin: "bt_get (tasks s') = ?T(?c \<mapsto> ?q, t \<mapsto> (if contains flags CLONE_PARENT then p else p\<lparr>child := child p @ [?c]\<rparr>))"
    "s' = s4\<lparr>tasks := tasks s'\<rparr>" "proc_inv {} s'"
    using parts(1,7) T4 inv4 tc add_child_inv [OF inv4, of t ?c s'] t d(4) v(4)
    by (auto simp: parts(6) fun_upd_twist fun_eq_iff split: if_splits)
  have vd: "if contains flags CLONE_VM then v = vm p else \<forall>u q. ?T u = Some q \<longrightarrow> vm q \<noteq> v"
    "if contains flags CLONE_FILES then d = fdt p else \<forall>u q. ?T u = Some q \<longrightarrow> fdt q \<noteq> d"
    using H v(7,12,13) d(9,10) by (auto dest: H)
  have s': "task_queue s' = task_queue s4" "cur s' = cur s4" "origin s' = origin s4" "pids s' = pids s4" "trap_cxs s' = trap_cxs s4"
    using fin by (metis kernel.select_convs kernel.update_convs kernel.surjective)+
  show ?thesis
    by (rule exI [of _ p], rule exI [of _ ?c], rule exI [of _ ks], rule exI [of _ v], rule exI [of _ d], rule exI [of _ tx])
      (use parts(1,5) c fin vd s' al d v in \<open>simp add: parts(6) top_trap_cx_def\<close>)
qed

section \<open>Runs of the kernel\<close>

text \<open>The steps of the one hart: the idle loop dispatches the first task of the queue, and the running task makes a call.\<close>

inductive proc_step :: "'f hart \<Rightarrow> bool \<Rightarrow> 'f kernel \<Rightarrow> 'f kernel \<Rightarrow> bool" for h where
  dispatch: "cur s = None \<Longrightarrow> task_queue s \<noteq> [] \<Longrightarrow> run_task_turn s = Some s' \<Longrightarrow> proc_step h True s s'"
| yield: "sys_yield s = Some (s', r) \<Longrightarrow> proc_step h False s s'"
| clone: "sys_clone h flags stack tls s = Some (s', r) \<Longrightarrow> proc_step h False s s'"
| wait: "wait4_turn wpid wstatus options (s, um) = Some ((s', um'), r) \<Longrightarrow> proc_step h False s s'"
| exit: "exit_current_task fuel code s = Some s' \<Longrightarrow> proc_step h False s s'"

text \<open>\<open>proc_steps h n\<close>: a run with \<open>n\<close> dispatches.\<close>

inductive proc_steps :: "'f hart \<Rightarrow> nat \<Rightarrow> 'f kernel \<Rightarrow> 'f kernel \<Rightarrow> bool" for h where
  no_step: "proc_steps h 0 s s"
| more: "proc_steps h n s s' \<Longrightarrow> proc_step h b s' s'' \<Longrightarrow> proc_steps h (if b then Suc n else n) s s''"

lemma wait4_inv:
  assumes inv: "proc_inv {} s" and w: "wait4_turn wpid wstatus options (s, um) = Some ((s', um'), r)"
  shows "proc_inv {} s' \<and> (\<exists>app. task_queue s' = task_queue s @ app) \<and> origin s' = origin s"
proof -
  obtain s1 um1 res where 1: "waitpid wpid wstatus (s, um) = Some ((s1, um1), res)"
    using w by (auto simp: wait4_turn_def panic_simps)
  have 2: "s' = s1 \<or> suspend_current_task s1 = Some s'"
    using w 1 by (cases res) (auto simp: wait4_turn_def panic_simps split: if_splits)
  note i = waitpid_inv [OF inv 1]
  show ?thesis using 2
  proof
    assume s: "suspend_current_task s1 = Some s'"
    have "origin s' = origin s1" using s by (auto simp: suspend_current_task_def set_status_def upd_task_def push_task_to_schedule_def panic_simps split: option.splits)
    then show ?thesis using suspend_spec [OF i(1) s] i by simp
  qed (use i in simp)
qed

lemma sys_clone_from:
  assumes "sys_clone h flags stack tls s = Some (s', r)"
  obtains t n where "cur s = Some t" "r = Inr (of_nat n)"
    "from_clone h t (from_bits_truncate clone_flags_all (ucast flags)) (if stack = 0 then None else Some stack) tls s = Some (s', n)"
  using assms by (auto simp: sys_clone_def panic_simps)

lemma proc_step_spec:
  assumes "proc_step h b s s'" and inv: "proc_inv {} s"
  shows "proc_inv {} s' \<and> (if b then cur s' = Some (hd (task_queue s)) \<and> task_queue s' = tl (task_queue s) \<and> task_queue s \<noteq> []
    else \<exists>app. task_queue s' = task_queue s @ app)"
  using assms(1)
proof cases
  case dispatch
  then show ?thesis using run_task_turn_spec [OF inv, of s'] by (auto split: list.splits)
next
  case (yield r)
  then have "suspend_current_task s = Some s'" by (auto simp: sys_yield_def panic_simps)
  then show ?thesis using suspend_spec [OF inv] yield by auto
next
  case (clone flags stack tls r)
  from clone(2) obtain t n where "cur s = Some t"
    "from_clone h t (from_bits_truncate clone_flags_all (ucast flags)) (if stack = 0 then None else Some stack) tls s = Some (s', n)"
    by (rule sys_clone_from)
  from from_clone_spec [OF inv this] show ?thesis using clone by auto
next
  case (wait wpid wstatus options um um' r)
  then show ?thesis using wait4_inv [OF inv] by auto
next
  case (exit fuel code)
  then obtain t p where t: "cur s = Some t" "bt_get (tasks s) t = Some p"
    using inv by (fastforce simp: exit_current_task_def panic_simps proc_inv_def places_def)
  then show ?thesis using exit_spec [OF inv t exit(2)] exit by auto
qed

lemma proc_steps_inv: "proc_steps h n s s' \<Longrightarrow> proc_inv {} s \<Longrightarrow> proc_inv {} s'"
  by (induction rule: proc_steps.induct) (auto dest: proc_step_spec)

lemma proc_steps_queue:
  assumes "proc_steps h n s s'" "proc_inv {} s" "n \<le> length (task_queue s)"
  shows "\<exists>app. task_queue s' = drop n (task_queue s) @ app"
  using assms
proof (induction rule: proc_steps.induct)
  case (no_step s)
  then show ?case by simp
next
  case (more n s s' b s'')
  have q: "n \<le> length (task_queue s)" using more.prems(2) by (auto split: if_splits)
  from more.IH [OF more.prems(1) q] obtain app where app: "task_queue s' = drop n (task_queue s) @ app" ..
  note st = proc_step_spec [OF more.hyps(2) proc_steps_inv [OF more.hyps(1) more.prems(1)]]
  show ?case
  proof (cases b)
    case True
    then have n: "n < length (task_queue s)" using more.prems(2) by simp
    then have "tl (task_queue s') = drop (Suc n) (task_queue s) @ app" using app by (simp add: Cons_nth_drop_Suc [symmetric])
    then show ?thesis using st True by simp
  next
    case False
    then show ?thesis using st app by auto
  qed
qed

lemma distinct_count_list: "distinct xs \<Longrightarrow> t \<in> set xs \<Longrightarrow> count_list xs t = 1"
  by (induction xs) auto

lemma clone_cx_regs:
  assumes "length (tc_x tx) = 32"
  shows "tc_x (clone_cx flags user_stack tls cx tx) ! 10 = 0"
    "tc_x (clone_cx flags user_stack tls cx tx) ! 2 = (case user_stack of Some sp \<Rightarrow> sp | None \<Rightarrow> tc_x tx ! 2)"
    "tc_x (clone_cx flags user_stack tls cx tx) ! 4 = (if contains flags CLONE_SETTLS then tls else tc_x tx ! 4)"
    "i < 32 \<Longrightarrow> i \<notin> {2, 4, 10} \<Longrightarrow> tc_x (clone_cx flags user_stack tls cx tx) ! i = tc_x tx ! i"
    "tc_sepc (clone_cx flags user_stack tls cx tx) = tc_sepc tx" "tc_sstatus (clone_cx flags user_stack tls cx tx) = tc_sstatus tx"
  using assms by (auto simp: clone_cx_def set_register_def cx_from_clone_def Let_def split: option.splits)

section \<open>A small kernel\<close>

text \<open>The origin task runs, and its child waits in the queue or has exited with code 7; they share address space and descriptors.\<close>

definition demo_pcb :: "nat \<Rightarrow> task_status \<Rightarrow> task list \<Rightarrow> pcb" where
  "demo_pcb n st cs = \<lparr>tgid = n, pid = n, kernel_stack = \<lparr>ks_frames = [], ks_ptr = of_nat n * 0x100000\<rparr>, vm = 2, fdt = 3, cwd = ''/'', ppid = 0,
     exit_code = 0, parent = None, child = cs, task_cx = task_cx_empty, status = st\<rparr>"

definition demo_child :: "bool \<Rightarrow> pcb" where
  "demo_child dead = (if dead then (demo_pcb 3 Dead [])\<lparr>exit_code := 7\<rparr> else demo_pcb 3 Ready [])"

definition demo_kernel :: "bitalloc \<Rightarrow> bool \<Rightarrow> nat kernel" where
  "demo_kernel b dead = \<lparr>mem = \<lparr>phys = \<lambda>_ _. 0, falloc = ba_default frame_level, pages = Map.empty\<rparr>, pids = b,
     tasks = [(0, demo_pcb 2 Running [1]), (1, demo_child dead)],
     vms = [(2, \<lparr>areas = [], mpt = \<lparr>root_paddr = 0x80300000, frames = [0x80300]\<rparr>, heap_end = 0, cow = []\<rparr>)], fdts = [], task_queue = (if dead then [] else [1]), cur = Some 0, origin = Some 0,
     trap_cxs = [trap_cx_ptr \<lparr>ks_frames = [], ks_ptr = 0x200000\<rparr> \<mapsto> trap_cx_empty 0], fresh = 4\<rparr>"

definition demo_hart :: "nat hart" where
  "demo_hart = \<lparr>kernel_root = 0, restore = 0x80200000, sstatus = 0, heap_ptr = (\<lambda>n. of_nat n * 0x400000), stdio = (0, 1, 2)\<rparr>"

definition demo_pids :: "bitalloc \<Rightarrow> bool" where
  "demo_pids b \<longleftrightarrow> ba_wf pid_level b \<and> avail pid_level b = {4..<MAX_PID}"

lemma demo_pids_ex: "\<exists>b. demo_pids b"
  using ba.insert_spec [OF ba_default_wf [of pid_level], of 4 MAX_PID] by (auto simp: demo_pids_def MAX_PID_def)

lemma demo_get: "bt_get (tasks (demo_kernel b dead)) = [0 \<mapsto> demo_pcb 2 Running [1], 1 \<mapsto> demo_child dead]"
  by (auto simp: demo_kernel_def bt_get_def)

lemma demo_kernel_inv:
  assumes "demo_pids b"
  shows "proc_inv {} (demo_kernel b dead)"
proof -
  have "pid_of (bt_get (tasks (demo_kernel b dead))) = [0 \<mapsto> 2, 1 \<mapsto> 3]" by (auto simp: pid_of_def demo_get demo_pcb_def demo_child_def)
  then have "numbers (pid_of (bt_get (tasks (demo_kernel b dead)))) (avail pid_level (pids (demo_kernel b dead)))"
    using assms by (auto simp: numbers_def demo_pids_def demo_kernel_def MAX_PID_def inj_on_def)
  moreover have "places {} (bt_get (tasks (demo_kernel b dead))) (task_queue (demo_kernel b dead)) (cur (demo_kernel b dead)) (origin (demo_kernel b dead))"
    unfolding demo_get by (cases dead) (auto simp: held_def places_def placed_def demo_kernel_def demo_pcb_def demo_child_def split: if_splits)
  moreover have "bt_wf (tasks (demo_kernel b dead))" "bt_wf (vms (demo_kernel b dead))" by (simp_all add: demo_kernel_def bt_wf_def)
  moreover have "ba_wf pid_level (pids (demo_kernel b dead))" using assms by (simp add: demo_pids_def demo_kernel_def)
  moreover have "t < fresh (demo_kernel b dead) \<and> vm p < fresh (demo_kernel b dead) \<and> fdt p < fresh (demo_kernel b dead) \<and> bt_get (vms (demo_kernel b dead)) (vm p) \<noteq> None"
    if "bt_get (tasks (demo_kernel b dead)) t = Some p" for t p
    using that unfolding demo_get by (auto simp: demo_kernel_def demo_pcb_def demo_child_def bt_get_def split: if_splits)
  ultimately show ?thesis unfolding proc_inv_def by blast
qed

lemma demo_yield: "\<exists>s'. sys_yield (demo_kernel b False) = Some (s', Inr 0) \<and> task_queue s' = [1, 0] \<and> cur s' = None \<and> vms s' = vms (demo_kernel b False)"
  by (simp add: sys_yield_def suspend_current_task_def set_status_def upd_task_def demo_kernel_def push_task_to_schedule_def bt_get_def)

lemma demo_clone:
  assumes "demo_pids b"
  shows "\<exists>s'. sys_clone demo_hart 0x500 0x9000 0 (demo_kernel b False) = Some (s', Inr 4)"
proof -
  obtain r where r: "find_contiguous frame_level (ba_default frame_level) (ba_cap frame_level) 256 0 = Some r" "first_run {} 0 256 r"
    using find_contiguous_spec [of frame_level "ba_default frame_level" 256 0] by (auto simp: ba_cap_eq)
  have "r = None" using r(2) by (auto simp: first_run_def run_def split: option.splits)
  then have ks: "init_kernel_stack ptr (mem (demo_kernel b False)) = Some (mem (demo_kernel b False), \<lparr>ks_frames = [], ks_ptr = ptr\<rparr>)" for ptr
    using r(1) by (simp add: init_kernel_stack_def alloc_contiguous_frame_def ba_alloc_contiguous_def demo_kernel_def KERNEL_STACK_SIZE_def PAGE_SIZE_def)
  have "Min {4..<MAX_PID} = 4" by (rule Min_eqI) (auto simp: MAX_PID_def)
  then obtain a where a: "alloc_pid b = Some (a, Some 4)"
    using ba_alloc_spec [of pid_level b] assms by (auto simp: alloc_pid_def demo_pids_def MAX_PID_def)
  have fl: "from_bits_truncate clone_flags_all 0x500 = 0x500" "check_clone_flags 0x500 = Some ()"
    "contains (0x500 :: u32) CLONE_VM" "contains (0x500 :: u32) CLONE_FILES" "\<not> contains (0x500 :: u32) CLONE_PARENT" "\<not> contains (0x500 :: u32) CLONE_THREAD"
    by (simp_all add: check_clone_flags_def from_bits_truncate_def contains_def clone_flags_all_def SIGCHLD_def CLONE_VM_def CLONE_FS_def CLONE_FILES_def
      CLONE_SIGHAND_def CLONE_PIDFD_def CLONE_PTRACE_def CLONE_PARENT_def CLONE_THREAD_def CLONE_SYSVSEM_def CLONE_SETTLS_def CLONE_PARENT_SETTID_def
      CLONE_CHILD_CLEARTID_def CLONE_CHILD_SETTID_def)
  have p: "cur (demo_kernel b False) = Some 0" "bt_get (tasks (demo_kernel b False)) 0 = Some (demo_pcb 2 Running [Suc 0])"
    "pids (demo_kernel b False) = b" "top_trap_cx (kernel_stack (demo_pcb 2 Running [Suc 0])) (trap_cxs (demo_kernel b False)) = Some (trap_cx_empty 0)"
    "fresh (demo_kernel b False) = 4" "bt_wf (tasks (demo_kernel b False))"
    by (simp_all add: demo_kernel_def demo_pcb_def top_trap_cx_def bt_get_def bt_wf_def)
  show ?thesis
    by (simp add: sys_clone_def from_clone_def clone_vm_def clone_fdt_def fl p a ks push_trap_cx_def upd_task_def)
qed

section \<open>Properties\<close>

text \<open>
  C6: whatever the tasks do - yield, clone, wait, exit - and however often the hart dispatches, each task is either ready and in the
  queue exactly once, or running on the hart, or dead and held by the task that has yet to wait for it. No process number
  is given twice, and the allocator has exactly the numbers no task has.
\<close>

theorem tasks_accounted:
  assumes "proc_steps h n s s'" "proc_inv {} s"
  shows "(\<forall>t p. bt_get (tasks s') t = Some p \<longrightarrow>
       status p = Ready \<and> count_list (task_queue s') t = 1 \<and> cur s' \<noteq> Some t \<or>
       status p = Running \<and> t \<notin> set (task_queue s') \<and> cur s' = Some t \<or>
       status p = Dead \<and> t \<notin> set (task_queue s') \<and> cur s' \<noteq> Some t \<and>
         (origin s' = Some t \<or> (\<exists>u q. bt_get (tasks s') u = Some q \<and> t \<in> set (child q)))) \<and>
    set (task_queue s') \<subseteq> dom (bt_get (tasks s')) \<and>
    (\<forall>t u p q. bt_get (tasks s') t = Some p \<longrightarrow> bt_get (tasks s') u = Some q \<longrightarrow> pid p = pid q \<longrightarrow> t = u) \<and>
    avail pid_level (pids s') = {2..<MAX_PID} - {pid p |t p. bt_get (tasks s') t = Some p}"
proof (intro conjI allI impI)
  let ?T = "bt_get (tasks s')"
  have "proc_inv {} s'" by (rule proc_steps_inv [OF assms])
  then have pl: "places {} ?T (task_queue s') (cur s') (origin s')" and nu: "numbers (pid_of ?T) (avail pid_level (pids s'))"
    unfolding proc_inv_def by blast+
  have q: "distinct (task_queue s')" "\<And>t. t \<in> set (task_queue s') \<Longrightarrow> \<exists>p. ?T t = Some p \<and> status p = Ready"
    "\<And>t. cur s' = Some t \<Longrightarrow> \<exists>p. ?T t = Some p \<and> status p = Running" "\<And>t p. ?T t = Some p \<Longrightarrow> placed {} ?T (task_queue s') (cur s') (origin s') t p"
    using pl unfolding places_def by blast+
  show "set (task_queue s') \<subseteq> dom ?T" using q(2) by blast
  show "t = u" if "?T t = Some p" "?T u = Some q" "pid p = pid q" for t u p q
    using nu that inj_onD [of "pid_of ?T" "dom (pid_of ?T)" t u] by (simp add: numbers_def pid_of_def dom_def)
  have "ran (pid_of ?T) = {pid p |t p. ?T t = Some p}" by (auto simp: ran_def pid_of_def)
  then show "avail pid_level (pids s') = {2..<MAX_PID} - {pid p |t p. ?T t = Some p}" using nu by (simp add: numbers_def)
  fix t p assume t: "?T t = Some p"
  have 1: "count_list (task_queue s') t = 1" if "t \<in> set (task_queue s')" using that q(1) by (simp add: distinct_count_list)
  show "status p = Ready \<and> count_list (task_queue s') t = 1 \<and> cur s' \<noteq> Some t \<or>
       status p = Running \<and> t \<notin> set (task_queue s') \<and> cur s' = Some t \<or>
       status p = Dead \<and> t \<notin> set (task_queue s') \<and> cur s' \<noteq> Some t \<and>
         (origin s' = Some t \<or> (\<exists>u q. ?T u = Some q \<and> t \<in> set (child q)))"
    using q(4) [OF t] q(2,3) [of t] 1 t by (fastforce simp: placed_def held_def)
qed

theorem tasks_accounted_witness:
  "\<exists>b s'. proc_inv {} (demo_kernel b False) \<and> proc_steps demo_hart 0 (demo_kernel b False) s' \<and> task_queue s' = [1, 0] \<and>
     (\<forall>t u p q. bt_get (tasks s') t = Some p \<longrightarrow> bt_get (tasks s') u = Some q \<longrightarrow> pid p = pid q \<longrightarrow> t = u)"
proof -
  obtain b where b: "demo_pids b" using demo_pids_ex ..
  obtain s' where s': "sys_yield (demo_kernel b False) = Some (s', Inr 0)" "task_queue s' = [1, 0]" using demo_yield by blast
  have run: "proc_steps demo_hart 0 (demo_kernel b False) s'"
    using proc_steps.more [OF proc_steps.no_step proc_step.yield [OF s'(1)]] by simp
  show ?thesis using tasks_accounted [OF run demo_kernel_inv [OF b]] demo_kernel_inv [OF b] run s'(2) by blast
qed

text \<open>
  C7: the queue is served in order. After \<open>n\<close> dispatches, with any calls of the tasks between them, the next one returns and gives the hart to
  the task that was at place \<open>n\<close>, so that no task waits for more dispatches than there were tasks before it.
\<close>

theorem round_robin:
  assumes "proc_steps h n s s'" "proc_inv {} s" "n < length (task_queue s)" "cur s' = None"
    and root: "\<forall>v ms. bt_get (vms s') v = Some ms \<longrightarrow> ms_activate ms \<noteq> None"
  shows "\<exists>s''. run_task_turn s' = Some s'' \<and> proc_step h True s' s'' \<and> cur s'' = Some (task_queue s ! n) \<and>
    bt_get (tasks s'') (task_queue s ! n) = map_option (\<lambda>p. p\<lparr>status := Running\<rparr>) (bt_get (tasks s') (task_queue s ! n))"
proof -
  have inv: "proc_inv {} s'" by (rule proc_steps_inv [OF assms(1,2)])
  obtain app where "task_queue s' = drop n (task_queue s) @ app" using proc_steps_queue [OF assms(1,2)] assms(3) by auto
  then obtain q where q: "task_queue s' = (task_queue s ! n) # q" using assms(3) by (simp add: Cons_nth_drop_Suc [symmetric])
  let ?t = "task_queue s ! n"
  have wf: "bt_wf (tasks s')" using inv by (simp add: proc_inv_def)
  obtain p where p: "bt_get (tasks s') ?t = Some p" using inv q by (fastforce simp: proc_inv_def places_def)
  have "bt_get (vms s') (vm p) \<noteq> None" using inv p unfolding proc_inv_def by blast
  then obtain ms tok where ms: "bt_get (vms s') (vm p) = Some ms" "ms_activate ms = Some tok" using root by blast
  define s'' where "s'' = s'\<lparr>task_queue := q, tasks := bt_insert ?t (p\<lparr>status := Running\<rparr>) (tasks s'), cur := Some ?t\<rparr>"
  have "run_task_turn s' = Some s''"
    using q p ms wf by (simp add: run_task_turn_def pop_task_from_schedule_def set_status_def upd_task_def s''_def)
  moreover from this have "proc_step h True s' s''" using assms(4) q by (auto intro: proc_step.dispatch)
  moreover have "cur s'' = Some ?t" "bt_get (tasks s'') ?t = Some (p\<lparr>status := Running\<rparr>)" using wf by (simp_all add: s''_def)
  ultimately show ?thesis using p by auto
qed

theorem round_robin_witness:
  "\<exists>b s' s''. proc_inv {} (demo_kernel b False) \<and> proc_steps demo_hart 0 (demo_kernel b False) s' \<and> run_task_turn s' = Some s'' \<and> cur s'' = Some 1"
proof -
  obtain b where b: "demo_pids b" using demo_pids_ex ..
  obtain s' where s': "sys_yield (demo_kernel b False) = Some (s', Inr 0)" "cur s' = None" "vms s' = vms (demo_kernel b False)" using demo_yield by blast
  have run: "proc_steps demo_hart 0 (demo_kernel b False) s'"
    using proc_steps.more [OF proc_steps.no_step proc_step.yield [OF s'(1)]] by simp
  have "\<forall>v ms. bt_get (vms s') v = Some ms \<longrightarrow> ms_activate ms \<noteq> None"
    by (simp add: s'(3) demo_kernel_def bt_get_def ms_activate_def activate_def token_def root_ppn_def phys_to_ppn_def phys_ok_def PADDR_LOW_def PADDR_HIGH_def)
  moreover have "task_queue (demo_kernel b False) = [1]" by (simp add: demo_kernel_def)
  ultimately obtain s'' where "run_task_turn s' = Some s''" "cur s'' = Some 1"
    using round_robin [OF run demo_kernel_inv [OF b] _ s'(2)] by auto
  then show ?thesis using demo_kernel_inv [OF b] run by blast
qed



text \<open>
  C14: one turn of \<open>wait4\<close>. The first child that matches and is dead is taken from the list, its exit code is stored shifted by 8 and its process number is the result;
  when nothing else holds it, it goes and its number is free again. With only live matches (or \<open>-1\<close>) the call returns 0 under \<open>WNOHANG\<close> and else puts the
  caller at the end of the queue; without a match it fails with \<open>EINVAL\<close>.
\<close>

theorem wait4_turn_cases:
  assumes inv: "proc_inv {} s" and t: "cur s = Some t" "bt_get (tasks s) t = Some self"
    and opts: "from_bits wait4_option_all options = Some opts" and m: "m = wait_match wpid self" and T: "T = bt_get (tasks s)"
  shows "(\<forall>i p s'. i < length (child self) \<longrightarrow> reaps m T (child self ! i) \<longrightarrow> (\<forall>j < i. \<not> reaps m T (child self ! j)) \<longrightarrow> T (child self ! i) = Some p \<longrightarrow>
        drop_task (child self ! i) (unlink t self i s) = Some s' \<longrightarrow>
        wait4_turn wpid wstatus options (s, um) = Some ((s', wait_mem wstatus p um), Some (Inr (of_nat (pid p)))) \<and>
        (\<not> held (bt_get (tasks (unlink t self i s))) (origin s) (child self ! i) \<longrightarrow>
           bt_get (tasks s') = T(t \<mapsto> self\<lparr>child := without i (child self)\<rparr>, child self ! i := None) \<and>
           avail pid_level (pids s') = insert (pid p) (avail pid_level (pids s)))) \<and>
    ((\<forall>c \<in> set (child self). \<not> reaps m T c) \<longrightarrow>
       (if wpid = -1 \<or> (\<exists>c \<in> set (child self). matches m T c) then
          (if contains opts WNOHANG then wait4_turn wpid wstatus options (s, um) = Some ((s, um), Some (Inr 0))
           else \<exists>s'. wait4_turn wpid wstatus options (s, um) = Some ((s', um), None) \<and> cur s' = None \<and> task_queue s' = task_queue s @ [t])
        else wait4_turn wpid wstatus options (s, um) = Some ((s, um), Some (Inl EINVAL))))"
proof (intro conjI allI impI)
  fix i p s' assume i: "i < length (child self)" "reaps m T (child self ! i)" "\<forall>j < i. \<not> reaps m T (child self ! j)" and p: "T (child self ! i) = Some p"
    and d: "drop_task (child self ! i) (unlink t self i s) = Some s'"
  have dead: "status p = Dead" using i(2) p by (simp add: reaps_def is_dead_def)
  show "wait4_turn wpid wstatus options (s, um) = Some ((s', wait_mem wstatus p um), Some (Inr (of_nat (pid p))))"
    using waitpid_found [OF inv t i [unfolded m T] p [unfolded T]] d opts by (simp add: wait4_turn_def)
  note u = unlink_spec [OF inv t i(1) p [unfolded T] dead]
  assume no: "\<not> held (bt_get (tasks (unlink t self i s))) (origin s) (child self ! i)"
  have o: "origin (unlink t self i s) = origin s" "pids (unlink t self i s) = pids s" by (simp_all add: unlink_def)
  show "bt_get (tasks s') = T(t \<mapsto> self\<lparr>child := without i (child self)\<rparr>, child self ! i := None)"
    "avail pid_level (pids s') = insert (pid p) (avail pid_level (pids s))"
    using drop_task_spec(7) [OF u(1,2) dead d, unfolded o, OF no] u(3) T by simp_all
next
  assume no: "\<forall>c \<in> set (child self). \<not> reaps m T c"
  note w = waitpid_none [OF inv t no [unfolded m T]]
  have sus: "\<exists>s'. suspend_current_task s = Some s' \<and> cur s' = None \<and> task_queue s' = task_queue s @ [t]"
    using t by (simp add: suspend_current_task_def set_status_def upd_task_def push_task_to_schedule_def)
  show "if wpid = -1 \<or> (\<exists>c \<in> set (child self). matches m T c) then
          (if contains opts WNOHANG then wait4_turn wpid wstatus options (s, um) = Some ((s, um), Some (Inr 0))
           else \<exists>s'. wait4_turn wpid wstatus options (s, um) = Some ((s', um), None) \<and> cur s' = None \<and> task_queue s' = task_queue s @ [t])
        else wait4_turn wpid wstatus options (s, um) = Some ((s, um), Some (Inl EINVAL))"
    using w sus opts unfolding m T by (auto simp: wait4_turn_def)
qed

theorem wait4_turn_cases_witness:
  "\<exists>b s'. proc_inv {} (demo_kernel b True) \<and>
     wait4_turn (-1) 0x100 0 (demo_kernel b True, \<lambda>_. 0) = Some ((s', (\<lambda>_. 0)(0x100 := 0x700)), Some (Inr 3)) \<and> 3 \<in> avail pid_level (pids s')"
proof -
  obtain b where b: "demo_pids b" using demo_pids_ex ..
  let ?s = "demo_kernel b True" and ?p = "demo_pcb 2 Running [1]"
  have c: "cur ?s = Some 0" "bt_get (tasks ?s) 0 = Some ?p" "from_bits wait4_option_all 0 = Some 0" "child ?p = [1]" "child ?p ! 0 = 1" "bt_get (tasks ?s) 1 = Some (demo_child True)" "origin ?s = Some 0"
    by (simp_all add: demo_kernel_def demo_pcb_def from_bits_def bt_get_def)
  have r: "0 < length (child ?p)" "reaps (wait_match (-1) ?p) (bt_get (tasks ?s)) (child ?p ! 0)" "bt_get (tasks ?s) (child ?p ! 0) = Some (demo_child True)"
    using c(4-6) by (simp_all add: reaps_def wait_match_def is_dead_def demo_child_def demo_pcb_def)
  let ?u = "unlink 0 ?p 0 ?s"
  have u: "tasks ?u = [(0, demo_pcb 2 Running []), (1, demo_child True)]" by (simp add: unlink_def demo_kernel_def without_def demo_pcb_def)
  have no: "\<not> held (bt_get (tasks ?u)) (origin ?s) (child ?p ! 0)"
    unfolding u c(5,7) by (auto simp: held_def bt_get_def demo_child_def demo_pcb_def split: if_splits)
  obtain a where a: "dealloc_pid 3 b = Some a"
    using ba_dealloc_spec [of pid_level b 3] b by (auto simp: dealloc_pid_def demo_pids_def)
  have "\<exists>s'. drop_task (child ?p ! 0) ?u = Some s'"
    using a by (simp add: drop_task_def referenced_def u c(5) bt_get_def bt_remove_def) (simp add: unlink_def demo_kernel_def demo_child_def demo_pcb_def bt_get_def)
  then obtain s' where d: "drop_task (child ?p ! 0) ?u = Some s'" ..
  have m: "wait_mem 0x100 (demo_child True) (\<lambda>_. 0) = (\<lambda>_. 0)(0x100 := 0x700)" "pid (demo_child True) = 3"
    by (simp_all add: wait_mem_def demo_child_def demo_pcb_def)
  have "wait4_turn (-1) 0x100 0 (?s, \<lambda>_. 0) = Some ((s', wait_mem 0x100 (demo_child True) (\<lambda>_. 0)), Some (Inr (of_nat (pid (demo_child True)))))"
    "avail pid_level (pids s') = insert (pid (demo_child True)) (avail pid_level (pids ?s))"
    using wait4_turn_cases [OF demo_kernel_inv [OF b, of True] c(1-3) refl refl] r d no by blast+
  then show ?thesis using demo_kernel_inv [OF b, of True] unfolding m by auto
qed

text \<open>
  C38: a task without children that its parent holds exits in one turn: it stays as a dead task with its exit code, and the hart is free. A task with
  children never returns from its exit: no number of turns of the loop over the children is enough.
\<close>

theorem exit_current_task_cases:
  assumes inv: "proc_inv {} s" and t: "cur s = Some t" "bt_get (tasks s) t = Some p"
  shows "(child p \<noteq> [] \<longrightarrow> (\<forall>fuel. exit_current_task fuel code s = None)) \<and>
    (child p = [] \<longrightarrow> held (bt_get (tasks s)) (origin s) t \<longrightarrow>
      (\<exists>s'. exit_current_task fuel code s = Some s' \<and> bt_get (tasks s') = (bt_get (tasks s))(t \<mapsto> p\<lparr>status := Dead, exit_code := code\<rparr>) \<and>
         cur s' = None \<and> task_queue s' = task_queue s))"
proof (intro conjI impI allI)
  fix f assume "child p \<noteq> []"
  then show "exit_current_task f code s = None" using exit_spec(1) [OF inv t] by (cases "exit_current_task f code s") auto
next
  assume ch: "child p = []" and h: "held (bt_get (tasks s)) (origin s) t"
  define q where "q = p\<lparr>status := Dead, exit_code := code\<rparr>"
  define s4 where "s4 = s\<lparr>cur := None, tasks := bt_insert t q (bt_insert t q (bt_insert t (p\<lparr>status := Dead\<rparr>) (tasks s)))\<rparr>"
  have wf: "bt_wf (tasks s)" using inv by (simp add: proc_inv_def)
  have q: "q\<lparr>child := []\<rparr> = q" "child q = child p" using ch by (simp_all add: q_def)
  have e: "exit_current_task fuel code s = drop_task t s4"
    using t wf ch q(2) by (simp add: exit_current_task_def set_status_def set_exit_code_def clear_child_def upd_task_def q_def [symmetric] s4_def q(1))
  have T: "bt_get (tasks s4) = (bt_get (tasks s))(t \<mapsto> q)" "bt_wf (tasks s4)" using wf by (auto simp: s4_def)
  have "held (bt_get (tasks s4)) (origin s4) t" using held_same [of "bt_get (tasks s)" t p q] t(2) h q(2) unfolding T(1) by (simp add: s4_def)
  then have "referenced t s4" using bt_get_iff [OF T(2)] by (auto simp: referenced_def held_def list_ex_iff)
  then have "exit_current_task fuel code s = Some s4" using e by (simp add: drop_task_def)
  then show "\<exists>s'. exit_current_task fuel code s = Some s' \<and> bt_get (tasks s') = (bt_get (tasks s))(t \<mapsto> p\<lparr>status := Dead, exit_code := code\<rparr>) \<and>
         cur s' = None \<and> task_queue s' = task_queue s"
    using T(1) by (auto simp: q_def s4_def)
qed

theorem exit_current_task_cases_witness:
  "\<exists>b. proc_inv {} (demo_kernel b False) \<and> cur (demo_kernel b False) = Some 0 \<and> child (demo_pcb 2 Running [1]) \<noteq> [] \<and>
     (\<forall>fuel. exit_current_task fuel 7 (demo_kernel b False) = None)"
proof -
  obtain b where b: "demo_pids b" using demo_pids_ex ..
  have c: "cur (demo_kernel b False) = Some 0" "bt_get (tasks (demo_kernel b False)) 0 = Some (demo_pcb 2 Running [1])"
    by (simp add: demo_kernel_def) (simp add: demo_get)
  have ch: "child (demo_pcb 2 Running [1]) \<noteq> []" by (simp add: demo_pcb_def)
  show ?thesis using exit_current_task_cases [OF demo_kernel_inv [OF b] c, of 7 0] ch demo_kernel_inv [OF b] c(1) by blast
qed

end
