(* ===== verification/Random_Gen.thy ===== *)
theory Random_Gen
  imports Duck_Prelude
begin

text \<open>
  The random generator (\<^verbatim>\<open>utils/random.rs\<close>), which fills the reads of \<^verbatim>\<open>/dev/urandom\<close> and the random bytes of a new
  program's stack. An index out of the range of the state is a panic.

  The lemmas show how many words the generator gives before its index leaves the state, and what reaches a buffer.
\<close>

definition RAND_N :: nat where "RAND_N = 624"
definition RAND_M :: nat where "RAND_M = 397"
definition MATRIX_A :: usize where "MATRIX_A = 0x9908b0df"
definition UPPER_MASK :: usize where "UPPER_MASK = 0x80000000"
definition LOWER_MASK :: usize where "LOWER_MASK = 0x7fffffff"

record random_generator =
  mt :: "usize list"
  mti :: nat

definition rng_new :: random_generator where
  "rng_new = \<lparr>mt = replicate RAND_N 0, mti = RAND_N + 1\<rparr>"

definition set_at :: "nat \<Rightarrow> 'a \<Rightarrow> 'a list \<Rightarrow> 'a list option" where
  "set_at i v xs = do { rassert (i < length xs); Some (xs[i := v]) }"

definition init_genrand :: "usize \<Rightarrow> random_generator \<Rightarrow> random_generator option" where
  "init_genrand s r =
     do { xs \<leftarrow> set_at 0 (s AND 0xffffffff) (mt r);
          xs' \<leftarrow> foldM (\<lambda>i xs. do { p \<leftarrow> nth_opt xs (i - 1);
                   set_at i ((1812433253 * (p XOR drop_bit 30 p) + of_nat i) AND 0xffffffff) xs }) [1..<RAND_N] xs;
          Some (r\<lparr>mt := xs'\<rparr>) }"

text \<open>One word of the next block: \<open>nxt\<close> is the index behind \<open>kk\<close> and \<open>src\<close> the one \<open>M\<close> places on.\<close>

definition twist_one :: "nat \<Rightarrow> nat \<Rightarrow> nat \<Rightarrow> usize list \<Rightarrow> usize list option" where
  "twist_one kk nxt src xs =
     do { a \<leftarrow> nth_opt xs kk;
          b \<leftarrow> nth_opt xs nxt;
          let y = (a AND UPPER_MASK) OR (b AND LOWER_MASK);
          c \<leftarrow> nth_opt xs src;
          g \<leftarrow> nth_opt [0, MATRIX_A] (unat (y AND 1));
          set_at kk (c XOR drop_bit 1 y XOR g) xs }"

definition twist :: "usize list \<Rightarrow> usize list option" where
  "twist xs =
     do { xs1 \<leftarrow> foldM (\<lambda>kk. twist_one kk (kk + 1) (kk + RAND_M)) [0..<RAND_N - RAND_M] xs;
          xs2 \<leftarrow> foldM (\<lambda>kk. twist_one kk (kk + 1) (kk + RAND_M - RAND_N)) [RAND_N - RAND_M..<RAND_N - 1] xs1;
          twist_one (RAND_N - 1) 0 (RAND_M - 1) xs2 }"

definition temper :: "usize \<Rightarrow> usize" where
  "temper y0 =
     (let y1 = y0 XOR drop_bit 1 y0;
          y2 = y1 XOR (push_bit 7 y1 AND 0x9d2c5680);
          y3 = y2 XOR (push_bit 15 y2 AND 0xefc60000) in
      y3 XOR drop_bit 18 y3)"

definition genrand_u32 :: "random_generator \<Rightarrow> (random_generator \<times> usize) option" where
  "genrand_u32 r =
     do { r1 \<leftarrow> (if RAND_N \<le> mti r then
                  do { r0 \<leftarrow> (if mti r = RAND_N + 1 then init_genrand 5489 r else Some r);
                       xs \<leftarrow> twist (mt r0);
                       Some (r0\<lparr>mt := xs, mti := 0\<rparr>) }
                else Some r);
          let i = mti r1 + 1;
          y \<leftarrow> nth_opt (mt r1) i;
          Some (r1\<lparr>mti := i\<rparr>, temper y) }"

definition to_be_bytes :: "usize \<Rightarrow> u8 list" where
  "to_be_bytes w = rev (le_bytes 8 (unat w))"

lemma length_to_be_bytes [simp]: "length (to_be_bytes w) = 8"
  by (simp add: to_be_bytes_def)

text \<open>The loops that fill a buffer by four bytes at a time, for the two ways to take the bytes of a word.\<close>

function fill_loop :: "(usize \<Rightarrow> u8 list) \<Rightarrow> nat \<Rightarrow> u8 list \<Rightarrow> random_generator \<Rightarrow> (random_generator \<times> u8 list) option" where
  "fill_loop bytes off buf r =
     (if off < length buf then
        Option.bind (genrand_u32 r) (\<lambda>(r', y).
          let k = min (length buf - off) 4 in
          fill_loop bytes (off + k) (take off buf @ take k (bytes y) @ drop (off + k) buf) r')
      else Some (r, buf))"
  by auto
termination by (relation "measure (\<lambda>(bytes, off, buf, r). length buf - off)") auto

declare fill_loop.simps [simp del]

definition write_to_buf :: "u8 list \<Rightarrow> random_generator \<Rightarrow> (random_generator \<times> u8 list) option" where
  "write_to_buf buf r = fill_loop to_be_bytes 0 buf r"

definition urandom_read :: "u8 list \<Rightarrow> random_generator \<Rightarrow> ((random_generator \<times> u8 list) \<times> nat os_result) option" where
  "urandom_read buf r = do { s \<leftarrow> fill_loop (\<lambda>y. le_bytes 4 (unat (ucast y :: u32))) 0 buf r; Some (s, Inr (length buf)) }"

definition sys_getrandom :: "u8 list \<Rightarrow> random_generator \<Rightarrow> ((random_generator \<times> u8 list) \<times> nat os_result) option" where
  "sys_getrandom buf r = do { (r', buf') \<leftarrow> write_to_buf buf r; Some ((r', buf'), Inr (length buf')) }"

section \<open>Words of 32 bits\<close>

definition narrow :: "usize \<Rightarrow> bool" where
  "narrow w \<longleftrightarrow> (\<forall>n \<ge> 32. \<not> bit w n)"

lemma narrow_simps: "narrow a \<Longrightarrow> narrow b \<Longrightarrow> narrow (a XOR b)" "narrow a \<Longrightarrow> narrow b \<Longrightarrow> narrow (a OR b)"
  "narrow b \<Longrightarrow> narrow (a AND b)" "narrow a \<Longrightarrow> narrow (drop_bit n a)"
  by (auto simp: narrow_def bit_simps)

lemma narrow_less: "narrow a \<longleftrightarrow> unat a < 2 ^ 32"
proof -
  have "narrow a \<longleftrightarrow> take_bit 32 a = a" unfolding narrow_def bit_eq_iff bit_take_bit_iff by (meson bit_imp_possible_bit linorder_not_le)
  also have "\<dots> \<longleftrightarrow> unat a < 2 ^ 32"
    by (simp add: take_bit_eq_mod word_unat_eq_iff unat_mod_distrib mod_eq_self_iff_div_eq_0 div_eq_0_iff)
  finally show ?thesis .
qed

lemma narrow_numerals: "narrow 0" "narrow 0xffffffff" "narrow MATRIX_A" "narrow UPPER_MASK" "narrow LOWER_MASK" "narrow 0x9d2c5680" "narrow 0xefc60000"
  by (simp_all add: narrow_less MATRIX_A_def UPPER_MASK_def LOWER_MASK_def)

lemma narrow_temper: "narrow y \<Longrightarrow> narrow (temper y)"
  unfolding temper_def Let_def by (intro narrow_simps narrow_numerals)

lemma le_bytes_zero: "le_bytes n 0 = replicate n 0"
  by (induction n) simp_all

lemma le_bytes_add: "le_bytes (m + n) v = le_bytes m v @ le_bytes n (v div 256 ^ m)"
  by (induction m arbitrary: v) (simp_all add: div_mult2_eq)

lemma le_bytes_narrow: "v < 2 ^ 32 \<Longrightarrow> le_bytes 8 v = le_bytes 4 v @ replicate 4 0"
  using le_bytes_add [of 4 4 v] le_bytes_zero [of 4] by simp

lemma be_bytes_narrow: "narrow y \<Longrightarrow> k \<le> 4 \<Longrightarrow> take k (to_be_bytes y) = replicate k 0"
  by (simp add: narrow_less to_be_bytes_def le_bytes_narrow min_absorb1 del: le_bytes.simps)

definition words_ok :: "usize list \<Rightarrow> bool" where
  "words_ok xs \<longleftrightarrow> length xs = RAND_N \<and> (\<forall>x \<in> set xs. narrow x)"

lemma set_at_ok: "words_ok xs \<Longrightarrow> i < RAND_N \<Longrightarrow> narrow v \<Longrightarrow> \<exists>ys. set_at i v xs = Some ys \<and> words_ok ys"
  using set_update_subset_insert [of xs i v] by (fastforce simp: set_at_def words_ok_def)

lemma twist_one_ok:
  assumes "words_ok xs" "kk < RAND_N" "nxt < RAND_N" "src < RAND_N"
  shows "\<exists>ys. twist_one kk nxt src xs = Some ys \<and> words_ok ys"
proof -
  let ?y = "(xs ! kk AND UPPER_MASK) OR (xs ! nxt AND LOWER_MASK)"
  have n: "narrow (xs ! src)" "narrow ?y" using assms by (simp_all add: words_ok_def narrow_simps narrow_numerals)
  have "unat (?y AND 1) < 2" by (simp add: and_one_eq unat_mod_distrib mod_2_eq_odd)
  then have g: "nth_opt [0, MATRIX_A] (unat (?y AND 1)) = Some ([0, MATRIX_A] ! unat (?y AND 1))" by simp
  moreover have "narrow ([0, MATRIX_A] ! unat (?y AND 1))" using \<open>unat (?y AND 1) < 2\<close> by (auto simp: less_2_cases_iff narrow_numerals)
  ultimately have v: "narrow (xs ! src XOR drop_bit 1 ?y XOR [0, MATRIX_A] ! unat (?y AND 1))" using n by (intro narrow_simps narrow_numerals)
  have "twist_one kk nxt src xs = set_at kk (xs ! src XOR drop_bit 1 ?y XOR [0, MATRIX_A] ! unat (?y AND 1)) xs"
    using g assms unfolding twist_one_def Let_def by (simp only: words_ok_def nth_opt_nth Option.bind.bind_lunit)
  then show ?thesis using set_at_ok [OF assms(1,2) v] by simp
qed

lemma twist_ok: "words_ok xs \<Longrightarrow> \<exists>ys. twist xs = Some ys \<and> words_ok ys"
proof -
  assume xs: "words_ok xs"
  have "\<exists>ys. foldM (\<lambda>kk. twist_one kk (kk + 1) (kk + RAND_M)) [0..<RAND_N - RAND_M] xs = Some ys \<and> words_ok ys"
    by (rule foldM_upt [where P = "\<lambda>_. words_ok"]) (use xs twist_one_ok in \<open>auto simp: RAND_N_def RAND_M_def\<close>)
  then obtain ys where ys: "foldM (\<lambda>kk. twist_one kk (kk + 1) (kk + RAND_M)) [0..<RAND_N - RAND_M] xs = Some ys" "words_ok ys" by blast
  have "\<exists>zs. foldM (\<lambda>kk. twist_one kk (kk + 1) (kk + RAND_M - RAND_N)) [RAND_N - RAND_M..<RAND_N - 1] ys = Some zs \<and> words_ok zs"
    by (rule foldM_upt [where P = "\<lambda>_. words_ok"]) (use ys twist_one_ok in \<open>auto simp: RAND_N_def RAND_M_def\<close>)
  then obtain zs where zs: "foldM (\<lambda>kk. twist_one kk (kk + 1) (kk + RAND_M - RAND_N)) [RAND_N - RAND_M..<RAND_N - 1] ys = Some zs" "words_ok zs" by blast
  have "RAND_N - 1 < RAND_N" "0 < RAND_N" "RAND_M - 1 < RAND_N" by (simp_all add: RAND_N_def RAND_M_def)
  from twist_one_ok [OF zs(2) this] ys(1) zs(1) show ?thesis by (simp add: twist_def)
qed

lemma init_genrand_ok:
  assumes "words_ok (mt r)"
  shows "\<exists>r'. init_genrand s r = Some r' \<and> words_ok (mt r') \<and> mti r' = mti r"
proof -
  obtain xs where xs: "set_at 0 (s AND 0xffffffff) (mt r) = Some xs" "words_ok xs"
    using set_at_ok [OF assms, of 0 "s AND 0xffffffff"] by (auto simp: RAND_N_def narrow_simps narrow_numerals)
  have "\<exists>ys. foldM (\<lambda>i xs. do { p \<leftarrow> nth_opt xs (i - 1);
      set_at i ((1812433253 * (p XOR drop_bit 30 p) + of_nat i) AND 0xffffffff) xs }) [1..<RAND_N] xs = Some ys \<and> words_ok ys"
  proof (rule foldM_upt [where P = "\<lambda>_. words_ok"])
    fix i xs assume i: "1 \<le> i" "i < RAND_N" "words_ok xs"
    then have "nth_opt xs (i - 1) = Some (xs ! (i - 1))" by (simp add: words_ok_def)
    then show "\<exists>t. (do { p \<leftarrow> nth_opt xs (i - 1);
        set_at i ((1812433253 * (p XOR drop_bit 30 p) + of_nat i) AND 0xffffffff) xs }) = Some t \<and> words_ok t"
      using set_at_ok [OF i(3,2)] by (simp add: narrow_simps narrow_numerals)
  qed (use xs(2) in \<open>simp_all add: RAND_N_def\<close>)
  then show ?thesis using xs(1) by (auto simp: init_genrand_def)
qed

section \<open>The index\<close>

definition rng_inv :: "random_generator \<Rightarrow> bool" where
  "rng_inv r \<longleftrightarrow> words_ok (mt r) \<and> (mti r < RAND_N \<or> mti r = RAND_N + 1)"

text \<open>How many words are left before the index leaves the state.\<close>

definition words_left :: "random_generator \<Rightarrow> nat" where
  "words_left r = (if mti r = RAND_N + 1 then RAND_N - 1 else RAND_N - 1 - mti r)"

lemma rng_new_inv: "rng_inv rng_new" "words_left rng_new = 623"
  by (simp_all add: rng_inv_def rng_new_def words_ok_def narrow_numerals words_left_def RAND_N_def)

lemma genrand_spec:
  assumes "rng_inv r"
  shows "if words_left r = 0 then genrand_u32 r = None
    else \<exists>r' y. genrand_u32 r = Some (r', y) \<and> narrow y \<and> rng_inv r' \<and> words_left r' = words_left r - 1"
proof -
  have w: "words_ok (mt r)" using assms by (simp add: rng_inv_def)
  show ?thesis
  proof (cases "mti r = RAND_N + 1")
    case True
    obtain r0 where r0: "init_genrand 5489 r = Some r0" "words_ok (mt r0)" using init_genrand_ok [OF w] by blast
    obtain xs where xs: "twist (mt r0) = Some xs" "words_ok xs" using twist_ok [OF r0(2)] by blast
    have "narrow (xs ! 1)" using xs(2) by (simp add: words_ok_def RAND_N_def)
    then show ?thesis using True r0 xs
      by (simp add: genrand_u32_def words_left_def rng_inv_def words_ok_def RAND_N_def narrow_temper)
  next
    case False
    then have i: "mti r < RAND_N" using assms by (simp add: rng_inv_def)
    then show ?thesis using False w
      by (cases "mti r = RAND_N - 1") (auto simp: genrand_u32_def words_left_def rng_inv_def words_ok_def nth_opt_def narrow_temper)
  qed
qed

section \<open>Buffers\<close>

text \<open>\<open>words_for n\<close> words fill a buffer of \<open>n\<close> bytes.\<close>

definition words_for :: "nat \<Rightarrow> nat" where
  "words_for n = (n + 3) div 4"

lemma words_for_step: "0 < n \<Longrightarrow> words_for n = Suc (words_for (n - min n 4))"
  by (cases "n < 4") (auto simp: words_for_def min_def not_less le_Suc_ex dest!: le_Suc_ex)

lemma fill_loop_spec:
  assumes "rng_inv r" "off \<le> length buf" "\<forall>y. 4 \<le> length (bytes y)" "\<forall>y k. narrow y \<longrightarrow> k \<le> 4 \<longrightarrow> P (take k (bytes y))"
    "P []" "\<forall>xs ys. P xs \<longrightarrow> P ys \<longrightarrow> P (xs @ ys)"
  shows "if words_for (length buf - off) \<le> words_left r
    then \<exists>r' new. fill_loop bytes off buf r = Some (r', take off buf @ new) \<and> length new = length buf - off \<and> P new \<and>
      rng_inv r' \<and> words_left r' = words_left r - words_for (length buf - off)
    else fill_loop bytes off buf r = None"
  using assms(1,2)
proof (induction "length buf - off" arbitrary: off buf r rule: less_induct)
  case less
  show ?case
  proof (cases "off < length buf")
    case False
    then show ?thesis using less.prems assms(5) by (subst (1 2) fill_loop.simps) (simp add: words_for_def)
  next
    case True
    let ?k = "min (length buf - off) 4"
    have wf: "words_for (length buf - off) = Suc (words_for (length buf - off - ?k))" using words_for_step [of "length buf - off"] True by simp
    show ?thesis
    proof (cases "words_left r = 0")
      case True
      then have "genrand_u32 r = None" using genrand_spec [OF less.prems(1)] by simp
      then show ?thesis using \<open>off < length buf\<close> wf True by (subst (1 2) fill_loop.simps) simp
    next
      case False
      then obtain r1 y where g: "genrand_u32 r = Some (r1, y)" "narrow y" "rng_inv r1" "words_left r1 = words_left r - 1"
        using genrand_spec [OF less.prems(1)] by auto
      let ?buf = "take off buf @ take ?k (bytes y) @ drop (off + ?k) buf"
      have k: "length (take ?k (bytes y)) = ?k" "?k \<le> 4" using assms(3) [rule_format, of y] by simp_all
      have len: "length ?buf = length buf" "off + ?k \<le> length buf" using k True by auto
      have run: "fill_loop bytes off buf r = fill_loop bytes (off + ?k) ?buf r1" using True g(1) by (subst fill_loop.simps) (simp add: Let_def)
      have pre: "take (off + ?k) ?buf = take off buf @ take ?k (bytes y)" using k(1) True by simp
      have "length ?buf - (off + ?k) < length buf - off" "off + ?k \<le> length ?buf" unfolding len(1) using len(2) True by simp_all
      note IH = less.hyps [OF this(1) g(3) this(2), unfolded len(1) diff_diff_left [symmetric]]
      show ?thesis
      proof (cases "words_for (length buf - off) \<le> words_left r")
        case True
        then have "words_for (length buf - off - ?k) \<le> words_left r1" using wf g(4) by linarith
        then obtain r' new where n: "fill_loop bytes (off + ?k) ?buf r1 = Some (r', (take off buf @ take ?k (bytes y)) @ new)"
          "length new = length buf - off - ?k" "P new" "rng_inv r'" "words_left r' = words_left r1 - words_for (length buf - off - ?k)"
          using IH unfolding pre by (simp only: if_True) blast
        let ?new = "take ?k (bytes y) @ new"
        have "fill_loop bytes off buf r = Some (r', take off buf @ ?new)" unfolding run n(1) by simp
        moreover have "length ?new = length buf - off" using n(2) k(1) len(2) by (simp only: length_append) arith
        moreover have "P ?new" using assms(4,6) n(3) g(2) k(2) by blast
        moreover have "words_left r' = words_left r - words_for (length buf - off)" using n(5) wf g(4) by linarith
        ultimately have "\<exists>r' new. fill_loop bytes off buf r = Some (r', take off buf @ new) \<and> length new = length buf - off \<and> P new \<and>
            rng_inv r' \<and> words_left r' = words_left r - words_for (length buf - off)" using n(4) by blast
        then show ?thesis unfolding if_P [OF True] .
      next
        case False
        then have "\<not> words_for (length buf - off - ?k) \<le> words_left r1" using wf g(4) \<open>words_left r \<noteq> 0\<close> by linarith
        then have "fill_loop bytes off buf r = None" using IH run by (simp only: if_False)
        then show ?thesis using False by simp
      qed
    qed
  qed
qed

section \<open>Properties\<close>

text \<open>
  C36: \<^verbatim>\<open>getrandom\<close> fills the buffer with zeros only, since it takes the four upper bytes of a 64-bit number that has 32 random
  bits. After 623 words in all, the next one indexes past the generator's state and the kernel panics.
\<close>

theorem getrandom_gives_zeros:
  assumes "rng_inv r"
  shows "if words_for (length buf) \<le> words_left r
    then \<exists>r'. sys_getrandom buf r = Some ((r', replicate (length buf) 0), Inr (length buf)) \<and> rng_inv r' \<and>
      words_left r' = words_left r - words_for (length buf)
    else sys_getrandom buf r = None"
proof -
  have "if words_for (length buf - 0) \<le> words_left r
    then \<exists>r' new. fill_loop to_be_bytes 0 buf r = Some (r', take 0 buf @ new) \<and> length new = length buf - 0 \<and> new = replicate (length new) 0 \<and>
      rng_inv r' \<and> words_left r' = words_left r - words_for (length buf - 0)
    else fill_loop to_be_bytes 0 buf r = None"
    by (rule fill_loop_spec [OF assms, where P = "\<lambda>xs. xs = replicate (length xs) 0"]) (auto simp: be_bytes_narrow replicate_add [symmetric], metis replicate_add)
  then show ?thesis by (auto simp: sys_getrandom_def write_to_buf_def split: if_splits)
qed

theorem getrandom_gives_zeros_witness:
  "(\<exists>r'. sys_getrandom [1, 2, 3, 4, 5] rng_new = Some ((r', [0, 0, 0, 0, 0]), Inr 5)) \<and> sys_getrandom (replicate 2493 0) rng_new = None"
  using getrandom_gives_zeros [OF rng_new_inv(1), of "[1, 2, 3, 4, 5]"] getrandom_gives_zeros [OF rng_new_inv(1), of "replicate 2493 0"]
  by (auto simp: words_for_def rng_new_inv(2))

end
