(* ===== verification/User_Stack.thy ===== *)
theory User_Stack
  imports Random_Gen Address
begin

text \<open>
  The initial stack of a program (\<^verbatim>\<open>process/loader/stack.rs\<close>). User memory is a function from addresses to bytes; the stack area is
  mapped in full before it is filled. A Rust string is the list of its bytes. The program headers come from the ELF library as
  a record of what the code reads of them.

  The lemmas show the layout that a program of the System V ABI finds above its stack pointer: the count and the pointers of the
  arguments, of the environment and of the auxiliary vector, each pointer to a string that ends with a zero byte.
\<close>

type_synonym umem = "usize \<Rightarrow> u8"

section \<open>Definitions\<close>

record stack_info =
  auxv :: "(usize \<times> usize) list"
  args :: "u8 list list"
  envs :: "u8 list list"

definition stack_info_empty :: stack_info where
  "stack_info_empty = \<lparr>auxv = [], args = [], envs = []\<rparr>"

definition init_arg :: "u8 list list \<Rightarrow> u8 list list \<Rightarrow> stack_info \<Rightarrow> stack_info" where
  "init_arg a e i = i\<lparr>args := a, envs := e\<rparr>"

definition AT_NULL :: usize where "AT_NULL = 0"
definition AT_IGNORE :: usize where "AT_IGNORE = 1"
definition AT_PHDR :: usize where "AT_PHDR = 3"
definition AT_PHENT :: usize where "AT_PHENT = 4"
definition AT_PHNUM :: usize where "AT_PHNUM = 5"
definition AT_PAGESZ :: usize where "AT_PAGESZ = 6"
definition AT_BASE :: usize where "AT_BASE = 7"
definition AT_FLAGS :: usize where "AT_FLAGS = 8"
definition AT_ENTRY :: usize where "AT_ENTRY = 9"
definition AT_UID :: usize where "AT_UID = 11"
definition AT_GID :: usize where "AT_GID = 13"
definition AT_EGID :: usize where "AT_EGID = 14"
definition AT_PLATFORM :: usize where "AT_PLATFORM = 15"
definition AT_HWCAP :: usize where "AT_HWCAP = 16"
definition AT_CLKTCK :: usize where "AT_CLKTCK = 17"
definition AT_SECURE :: usize where "AT_SECURE = 23"
definition AT_RANDOM :: usize where "AT_RANDOM = 25"
definition AT_EXECFN :: usize where "AT_EXECFN = 31"

text \<open>What the kernel reads of an ELF file: the file header, and for each program header its type and fields.\<close>

datatype ph_type = PtLoad | PtInterp | PtOther | PtErr

record program_header =
  ph_type :: ph_type
  ph_vaddr :: usize
  ph_offset :: usize
  ph_file_size :: usize
  ph_mem_size :: usize
  ph_read :: bool
  ph_write :: bool
  ph_exec :: bool

record elf_file =
  magic :: "u8 list"
  entry :: usize
  phs :: "program_header list"
  ph_table_offset :: usize
  ph_entry_size :: usize
  elf_input :: "u8 list"

definition init_auxv :: "elf_file \<Rightarrow> stack_info \<Rightarrow> stack_info" where
  "init_auxv elf i =
     (let elf_head_addr = (case List.find (\<lambda>p. ph_type p = PtLoad) (phs elf) of None \<Rightarrow> 0 | Some p \<Rightarrow> ph_vaddr p) in
      i\<lparr>auxv := auxv i @
         [(AT_IGNORE, 0), (AT_PHDR, elf_head_addr + ph_table_offset elf), (AT_PHENT, ph_entry_size elf),
          (AT_PHNUM, of_nat (length (phs elf))), (AT_PAGESZ, PAGE_SIZE), (AT_FLAGS, 0), (AT_ENTRY, entry elf), (AT_UID, 0),
          (AT_GID, 0), (AT_EGID, 0), (AT_HWCAP, 0), (AT_CLKTCK, 100), (AT_SECURE, 0)]\<rparr>)"

definition push_auxv :: "usize \<Rightarrow> usize \<Rightarrow> stack_info \<Rightarrow> stack_info" where
  "push_auxv key v i = i\<lparr>auxv := auxv i @ [(key, v)]\<rparr>"

definition set_auxv_at_base :: "usize \<Rightarrow> stack_info \<Rightarrow> stack_info" where "set_auxv_at_base = push_auxv AT_BASE"
definition set_auxv_at_random :: "usize \<Rightarrow> stack_info \<Rightarrow> stack_info" where "set_auxv_at_random = push_auxv AT_RANDOM"
definition set_auxv_at_null :: "usize \<Rightarrow> stack_info \<Rightarrow> stack_info" where "set_auxv_at_null = push_auxv AT_NULL"
definition set_auxv_at_execfn :: "usize \<Rightarrow> stack_info \<Rightarrow> stack_info" where "set_auxv_at_execfn = push_auxv AT_EXECFN"
definition set_auxv_at_platform :: "usize \<Rightarrow> stack_info \<Rightarrow> stack_info" where "set_auxv_at_platform = push_auxv AT_PLATFORM"

text \<open>Stores to user memory.\<close>

definition write_bytes :: "usize \<Rightarrow> u8 list \<Rightarrow> umem \<Rightarrow> umem" where
  "write_bytes a bs mem = (\<lambda>x. if unat (x - a) < length bs then bs ! unat (x - a) else mem x)"

definition write_word :: "usize \<Rightarrow> usize \<Rightarrow> umem \<Rightarrow> umem" where
  "write_word a w = write_bytes a (le_bytes 8 (unat w))"

definition write_words :: "usize \<Rightarrow> usize list \<Rightarrow> umem \<Rightarrow> umem" where
  "write_words a ws mem = fold (\<lambda>i. write_word (a + of_nat (8 * i)) (ws ! i)) [0..<length ws] mem"

definition write_pairs :: "usize \<Rightarrow> (usize \<times> usize) list \<Rightarrow> umem \<Rightarrow> umem" where
  "write_pairs a ps mem =
     fold (\<lambda>i mem. write_word (a + of_nat (16 * i) + 8) (snd (ps ! i)) (write_word (a + of_nat (16 * i)) (fst (ps ! i)) mem))
       [0..<length ps] mem"

text \<open>The strings of a list, each below the one before and with a zero byte at its end.\<close>

definition push_str :: "u8 list \<Rightarrow> usize \<times> usize list \<times> umem \<Rightarrow> usize \<times> usize list \<times> umem" where
  "push_str s st = (case st of (sp, addrs, mem) \<Rightarrow>
     let end_ptr = sp - 1; sp' = end_ptr - of_nat (length s) in
     (sp', addrs @ [sp'], (write_bytes sp' s mem)(end_ptr := 0)))"

definition push_strs :: "u8 list list \<Rightarrow> usize \<Rightarrow> umem \<Rightarrow> usize \<times> usize list \<times> umem" where
  "push_strs ss sp mem = fold push_str ss (sp, [], mem)"

definition align16 :: "usize \<Rightarrow> usize" where
  "align16 sp = sp AND NOT (8 * 2 - 1)"

definition random_word :: "random_generator \<Rightarrow> (random_generator \<times> u8 list) option" where
  "random_word r = do { (r', y) \<leftarrow> genrand_u32 r; Some (r', rev (le_bytes 4 (unat (ucast y :: u32)))) }"

definition random_bytes :: "random_generator \<Rightarrow> (random_generator \<times> u8 list) option" where
  "random_bytes r = foldM (\<lambda>_ (r, bs). do { (r', w) \<leftarrow> random_word r; Some (r', bs @ w) }) [0..<4] (r, [])"

record stack_layout =
  argc_0 :: usize
  argv_0 :: usize
  envp_0 :: usize
  auxv_0 :: usize

definition platform :: "u8 list" where
  "platform = [0x72, 0x69, 0x73, 0x63, 0x76, 0x36, 0x34, 0]"

text \<open>A vector of pointers below \<open>sp\<close>, with a null pointer behind it.\<close>

definition push_ptrs :: "usize list \<Rightarrow> usize \<times> umem \<Rightarrow> usize \<times> umem" where
  "push_ptrs ws st = (case st of (sp, mem) \<Rightarrow>
     let sp1 = sp - 8; mem1 = write_word sp1 0 mem; sp2 = sp1 - of_nat (length ws) * 8 in
     (sp2, write_words sp2 ws mem1))"

definition build_stack ::
  "stack_info \<Rightarrow> usize \<Rightarrow> random_generator \<times> umem \<Rightarrow> ((stack_info \<times> usize \<times> stack_layout) \<times> random_generator \<times> umem) option" where
  "build_stack i ustack_sp s = (case s of (r, mem) \<Rightarrow>
     case push_strs (envs i) ustack_sp mem of (sp1, envp_addr, mem1) \<Rightarrow>
     case push_strs (args i) (align16 sp1) mem1 of (sp2, argv_addr, mem2) \<Rightarrow>
     do { let sp3 = align16 sp2 - of_nat (length platform);
          let i1 = set_auxv_at_platform sp3 i;
          let mem3 = write_bytes sp3 platform mem2;
          let sp4 = sp3 - 8 * 2;
          let i2 = set_auxv_at_random sp4 i1;
          (r', rnd) \<leftarrow> random_bytes r;
          let mem4 = write_bytes sp4 rnd mem3;
          let i3 = set_auxv_at_null 0 (set_auxv_at_execfn (case argv_addr of [] \<Rightarrow> 0 | a # _ \<Rightarrow> a) i2);
          let sp5 = align16 sp4 - of_nat (length (auxv i3)) * 16;
          let mem5 = write_pairs sp5 (auxv i3) mem4;
          let (sp6, mem6) = push_ptrs envp_addr (sp5, mem5);
          let (sp7, mem7) = push_ptrs argv_addr (sp6, mem6);
          let sp8 = sp7 - 8;
          let mem8 = write_word sp8 (of_nat (length (args i))) mem7;
          Some ((i3, sp8, \<lparr>argc_0 = sp8, argv_0 = sp7, envp_0 = sp6, auxv_0 = sp5\<rparr>), r', mem8) })"

section \<open>Stores\<close>

definition bytes_at :: "umem \<Rightarrow> usize \<Rightarrow> u8 list \<Rightarrow> bool" where
  "bytes_at mem a bs \<longleftrightarrow> unat a + length bs < 2 ^ 64 \<and> (\<forall>i < length bs. mem (a + of_nat i) = bs ! i)"

definition same_above :: "nat \<Rightarrow> umem \<Rightarrow> umem \<Rightarrow> bool" where
  "same_above n mem mem' \<longleftrightarrow> (\<forall>x. n \<le> unat x \<longrightarrow> mem' x = mem x)"

lemma same_above_refl [simp]: "same_above n mem mem"
  by (simp add: same_above_def)

lemma same_above_trans: "same_above n mem mem1 \<Longrightarrow> same_above n' mem1 mem2 \<Longrightarrow> n' \<le> n \<Longrightarrow> same_above n mem mem2"
  by (simp add: same_above_def)

lemma same_above_mono: "same_above n mem mem' \<Longrightarrow> n \<le> n' \<Longrightarrow> same_above n' mem mem'"
  by (simp add: same_above_def)

lemma unat_plus: "unat a + n < 2 ^ 64 \<Longrightarrow> unat (a + of_nat n) = unat a + n" for a :: usize
  by (simp add: unat_word_ariths unat_of_nat)

lemma unat_minus: "n \<le> unat a \<Longrightarrow> unat (a - of_nat n) = unat a - n" for a :: usize
proof -
  assume n: "n \<le> unat a"
  have "n < 2 ^ 64" using n unat_u64 [of a] by linarith
  then have "unat (of_nat n :: usize) = n" by (simp add: unat_of_nat)
  then show ?thesis using n by (simp add: unat_sub word_le_nat_alt)
qed

lemma bytes_at_frame: "bytes_at mem a bs \<Longrightarrow> same_above n mem mem' \<Longrightarrow> n \<le> unat a \<Longrightarrow> bytes_at mem' a bs"
  by (auto simp: bytes_at_def same_above_def unat_plus)

lemma bytes_at_append: "bytes_at mem a (xs @ ys) \<longleftrightarrow> unat a + length (xs @ ys) < 2 ^ 64 \<and> bytes_at mem a xs \<and> bytes_at mem (a + of_nat (length xs)) ys"
proof
  assume h: "bytes_at mem a (xs @ ys)"
  have "mem (a + of_nat (length xs) + of_nat i) = ys ! i" if "i < length ys" for i
    using h that unfolding bytes_at_def by (auto dest!: spec [of _ "length xs + i"] simp: add.assoc)
  then show "unat a + length (xs @ ys) < 2 ^ 64 \<and> bytes_at mem a xs \<and> bytes_at mem (a + of_nat (length xs)) ys"
    using h by (auto simp: bytes_at_def nth_append unat_plus)
next
  assume h: "unat a + length (xs @ ys) < 2 ^ 64 \<and> bytes_at mem a xs \<and> bytes_at mem (a + of_nat (length xs)) ys"
  have "mem (a + of_nat i) = (xs @ ys) ! i" if i: "i < length (xs @ ys)" for i
  proof (cases "i < length xs")
    case False
    then have "i - length xs < length ys" using i by simp
    then have "mem (a + of_nat (length xs) + of_nat (i - length xs)) = ys ! (i - length xs)" using h unfolding bytes_at_def by blast
    moreover have "a + of_nat (length xs) + of_nat (i - length xs) = a + of_nat i" using False by (simp add: add.assoc flip: of_nat_add)
    ultimately show ?thesis using False by (simp only: nth_append if_False)
  qed (use h in \<open>simp add: bytes_at_def nth_append\<close>)
  then show "bytes_at mem a (xs @ ys)" using h by (simp add: bytes_at_def)
qed

lemma write_bytes_at: "unat a + length bs < 2 ^ 64 \<Longrightarrow> bytes_at (write_bytes a bs mem) a bs"
  by (auto simp: bytes_at_def write_bytes_def unat_of_nat)

lemma write_bytes_above: "unat a + length bs < 2 ^ 64 \<Longrightarrow> same_above (unat a + length bs) mem (write_bytes a bs mem)"
  by (auto simp: same_above_def write_bytes_def unat_sub word_le_nat_alt)

lemma write_bytes_below: "unat a + length bs < 2 ^ 64 \<Longrightarrow> unat x < unat a \<Longrightarrow> write_bytes a bs mem x = mem x"
proof -
  assume h: "unat a + length bs < 2 ^ 64" "unat x < unat a"
  have "unat (x - a) = 2 ^ 64 - unat a + unat x" using h(2) unat_u64 [of a] by (simp only: unat_sub_if_size if_not_P [OF leD]) (simp add: word_size)
  then have "\<not> unat (x - a) < length bs" using h by linarith
  then show ?thesis by (simp only: write_bytes_def if_False)
qed

lemma unat_align16: "unat (align16 sp) = unat sp - unat sp mod 16" "unat (align16 sp) \<le> unat sp" "unat sp \<le> unat (align16 sp) + 15"
proof -
  have "(NOT (8 * 2 - 1) :: usize) = NOT (mask 4)" by (simp add: mask_eq_exp_minus_1)
  then have "align16 sp = sp AND NOT (mask 4)" by (simp only: align16_def)
  also have "\<dots> = push_bit 4 (drop_bit 4 sp)" by (rule bit_word_eqI) (auto simp: bit_simps)
  finally have "align16 sp = push_bit 4 (drop_bit 4 sp)" .
  moreover have "unat sp div 16 * 16 < 2 ^ 64" "unat sp div 16 < 2 ^ 64"
    using unat_u64 [of sp] div_times_less_eq_dividend [of "unat sp" 16] div_le_dividend [of "unat sp" 16] by linarith+
  ultimately have "unat (align16 sp) = unat sp div 16 * 16"
    by (simp add: unat_drop_bit_eq push_bit_eq_mult unat_word_ariths drop_bit_eq_div)
  then show "unat (align16 sp) = unat sp - unat sp mod 16" "unat (align16 sp) \<le> unat sp" "unat sp \<le> unat (align16 sp) + 15"
    by (simp_all add: minus_mod_eq_div_mult)
qed

text \<open>Words and pairs of words.\<close>

definition word_bytes :: "usize \<Rightarrow> u8 list" where
  "word_bytes w = le_bytes 8 (unat w)"

lemma length_word_bytes [simp]: "length (word_bytes w) = 8"
  by (simp add: word_bytes_def)

lemma write_words_snoc: "write_words a (ws @ [w]) mem = write_word (a + of_nat (8 * length ws)) w (write_words a ws mem)"
proof -
  have "fold (\<lambda>i. write_word (a + of_nat (8 * i)) ((ws @ [w]) ! i)) [0..<length ws] mem = fold (\<lambda>i. write_word (a + of_nat (8 * i)) (ws ! i)) [0..<length ws] mem"
    by (rule fold_cong) (auto simp: nth_append)
  then show ?thesis by (simp add: write_words_def)
qed

lemma bytes_at_frame_below:
  assumes "bytes_at mem a bs" "unat a + length bs \<le> unat b" "unat b + length cs < 2 ^ 64"
  shows "bytes_at (write_bytes b cs mem) a bs"
  using assms write_bytes_below [OF assms(3)] by (auto simp: bytes_at_def unat_plus)

lemma write_words_spec:
  assumes "unat a + 8 * length ws < 2 ^ 64"
  shows "bytes_at (write_words a ws mem) a (concat (map word_bytes ws)) \<and> same_above (unat a + 8 * length ws) mem (write_words a ws mem)"
  using assms
proof (induction ws rule: rev_induct)
  case Nil
  then show ?case by (simp add: write_words_def bytes_at_def)
next
  case (snoc w ws)
  let ?m = "write_words a ws mem" and ?b = "a + of_nat (8 * length ws)"
  have b: "unat ?b = unat a + 8 * length ws" "unat ?b + length (word_bytes w) < 2 ^ 64" using snoc.prems unat_plus [of a "8 * length ws"] by simp_all
  have len: "length (concat (map word_bytes ws)) = 8 * length ws" by (induction ws) simp_all
  have IH: "bytes_at ?m a (concat (map word_bytes ws))" "same_above (unat a + 8 * length ws) mem ?m" using snoc by simp_all
  have "bytes_at (write_bytes ?b (word_bytes w) ?m) a (concat (map word_bytes ws))"
    by (rule bytes_at_frame_below [OF IH(1)]) (use b len in simp_all)
  moreover have "same_above (unat ?b + 8) ?m (write_bytes ?b (word_bytes w) ?m)" using write_bytes_above [OF b(2)] by simp
  ultimately have "bytes_at (write_bytes ?b (word_bytes w) ?m) a (concat (map word_bytes (ws @ [w])))"
    using write_bytes_at [OF b(2), of ?m] len snoc.prems by (simp add: bytes_at_append)
  moreover have "same_above (unat a + 8 * length (ws @ [w])) mem (write_bytes ?b (word_bytes w) ?m)"
    using same_above_mono [OF IH(2), of "unat ?b + 8"] write_bytes_above [OF b(2), of ?m] b(1) by (simp add: same_above_def)
  ultimately show ?case unfolding write_words_snoc write_word_def word_bytes_def [symmetric] by blast
qed

lemma write_pairs_words: "write_pairs a ps mem = write_words a (concat (map (\<lambda>(k, v). [k, v]) ps)) mem"
proof (induction ps rule: rev_induct)
  case Nil
  then show ?case by (simp add: write_pairs_def write_words_def)
next
  case (snoc p ps)
  let ?ws = "concat (map (\<lambda>(k, v). [k, v]) ps)"
  have len: "length ?ws = 2 * length ps" by (induction ps) auto
  have "write_pairs a (ps @ [p]) mem = write_word (a + of_nat (16 * length ps) + 8) (snd p) (write_word (a + of_nat (16 * length ps)) (fst p) (write_pairs a ps mem))"
  proof -
    have "fold (\<lambda>i mem. write_word (a + of_nat (16 * i) + 8) (snd ((ps @ [p]) ! i)) (write_word (a + of_nat (16 * i)) (fst ((ps @ [p]) ! i)) mem)) [0..<length ps] mem = write_pairs a ps mem"
      unfolding write_pairs_def by (rule fold_cong) (auto simp: nth_append)
    then show ?thesis by (simp add: write_pairs_def)
  qed
  also have "\<dots> = write_words a ((?ws @ [fst p]) @ [snd p]) mem"
    unfolding write_words_snoc snoc by (simp add: len ac_simps)
  finally show ?case by (simp add: case_prod_unfold)
qed

definition read_word :: "umem \<Rightarrow> usize \<Rightarrow> usize" where
  "read_word mem a = le_word (map (\<lambda>i. mem (a + of_nat i)) [0..<8])"

lemma read_word_at: "bytes_at mem a (word_bytes w) \<Longrightarrow> read_word mem a = w"
proof -
  assume "bytes_at mem a (word_bytes w)"
  then have "map (\<lambda>i. mem (a + of_nat i)) [0..<8] = word_bytes w" by (intro nth_equalityI) (auto simp: bytes_at_def)
  moreover have "le_word (word_bytes w) = w" using unat_u64 [of w] by (simp add: le_word_def word_bytes_def)
  ultimately show ?thesis by (simp add: read_word_def)
qed

lemma bytes_at_words:
  "bytes_at mem a (concat (map word_bytes ws)) \<Longrightarrow> i < length ws \<Longrightarrow> bytes_at mem (a + of_nat (8 * i)) (word_bytes (ws ! i))"
proof (induction ws arbitrary: a i)
  case (Cons w ws)
  have h: "bytes_at mem a (word_bytes w)" "bytes_at mem (a + 8) (concat (map word_bytes ws))" using Cons.prems(1) by (simp_all add: bytes_at_append)
  show ?case
  proof (cases i)
    case (Suc j)
    then have "bytes_at mem (a + 8 + of_nat (8 * j)) (word_bytes (ws ! j))" using Cons.IH [OF h(2)] Cons.prems(2) by simp
    then show ?thesis using Suc by (simp add: ac_simps)
  qed (use h in simp)
qed simp

lemma read_word_words: "bytes_at mem a (concat (map word_bytes ws)) \<Longrightarrow> i < length ws \<Longrightarrow> read_word mem (a + of_nat (8 * i)) = ws ! i"
  using bytes_at_words read_word_at by blast

section \<open>The parts of the stack\<close>

text \<open>A string of C at an address, and the bytes that a list of strings takes.\<close>

abbreviation cstr_at :: "umem \<Rightarrow> usize \<Rightarrow> u8 list \<Rightarrow> bool" where
  "cstr_at mem a s \<equiv> bytes_at mem a (s @ [0])"

definition strs_size :: "u8 list list \<Rightarrow> nat" where
  "strs_size ss = sum_list (map (\<lambda>s. length s + 1) ss)"

text \<open>\<open>stored ss addrs mem n\<close>: the strings are at the addresses, all of them at \<open>n\<close> or above.\<close>

definition stored :: "u8 list list \<Rightarrow> usize list \<Rightarrow> umem \<Rightarrow> nat \<Rightarrow> bool" where
  "stored ss addrs mem n \<longleftrightarrow> list_all2 (\<lambda>s a. cstr_at mem a s \<and> n \<le> unat a) ss addrs"

lemma stored_frame: "stored ss addrs mem n \<Longrightarrow> same_above n mem mem' \<Longrightarrow> m \<le> n \<Longrightarrow> stored ss addrs mem' m"
  unfolding stored_def by (erule list_all2_mono) (auto intro: bytes_at_frame)

lemma push_str_eq:
  assumes "length s + 1 \<le> unat sp"
  shows "push_str s (sp, addrs, mem) =
    (sp - of_nat (length s + 1), addrs @ [sp - of_nat (length s + 1)], write_bytes (sp - of_nat (length s + 1)) (s @ [0]) mem)"
proof -
  let ?a = "sp - 1 - of_nat (length s)"
  have a: "?a = sp - of_nat (length s + 1)" by simp
  have u: "unat ?a = unat sp - (length s + 1)" unfolding a by (rule unat_minus [OF assms])
  have fits: "unat ?a + length (s @ [0 :: u8]) < 2 ^ 64" using u assms unat_u64 [of sp] by simp
  have "(write_bytes ?a s mem)(sp - 1 := 0) = write_bytes ?a (s @ [0]) mem"
  proof
    fix x
    have "sp - 1 = ?a + of_nat (length s)" by simp
    moreover have "x = ?a + of_nat (length s) \<longleftrightarrow> unat (x - ?a) = length s"
    proof
      assume "unat (x - ?a) = length s"
      then have "x - ?a = of_nat (length s)" by (metis unat_eq_nat_uint word_of_nat_eq_iff of_nat_unat ucast_id)
      then show "x = ?a + of_nat (length s)" by (simp add: algebra_simps)
    next
      assume x: "x = ?a + of_nat (length s)"
      have "length s < 2 ^ 64" using fits by simp
      then show "unat (x - ?a) = length s" unfolding x by (simp only: add_diff_cancel_left') (simp add: unat_of_nat)
    qed
    ultimately show "((write_bytes ?a s mem)(sp - 1 := 0)) x = write_bytes ?a (s @ [0]) mem x"
      by (auto simp: write_bytes_def nth_append)
  qed
  then show ?thesis unfolding push_str_def prod.case Let_def a by simp
qed

lemma push_strs_from:
  assumes "strs_size ss \<le> unat sp" "stored done_s addrs mem (unat sp)"
  shows "\<exists>sp' addrs' mem'. fold push_str ss (sp, addrs, mem) = (sp', addrs', mem') \<and> unat sp' = unat sp - strs_size ss \<and>
    same_above (unat sp) mem mem' \<and> stored (done_s @ ss) addrs' mem' (unat sp')"
  using assms
proof (induction ss arbitrary: sp addrs mem done_s)
  case Nil
  then show ?case by (simp add: strs_size_def)
next
  case (Cons s ss)
  let ?a = "sp - of_nat (length s + 1)" and ?m = "write_bytes (sp - of_nat (length s + 1)) (s @ [0]) mem"
  have le: "length s + 1 \<le> unat sp" "strs_size ss \<le> unat sp - (length s + 1)" using Cons.prems(1) by (simp_all add: strs_size_def)
  have u: "unat ?a = unat sp - (length s + 1)" by (rule unat_minus [OF le(1)])
  have fits: "unat ?a + length (s @ [0 :: u8]) < 2 ^ 64" "unat ?a + length (s @ [0 :: u8]) = unat sp" using u le(1) unat_u64 [of sp] by simp_all
  have at: "cstr_at ?m ?a s" "same_above (unat sp) mem ?m" using write_bytes_at [OF fits(1)] write_bytes_above [OF fits(1)] fits(2) by auto
  have st: "stored (done_s @ [s]) (addrs @ [?a]) ?m (unat ?a)"
    using stored_frame [OF Cons.prems(2) at(2), of "unat ?a"] at(1) u by (simp add: stored_def list_all2_appendI)
  obtain sp' addrs' mem' where f: "fold push_str ss (?a, addrs @ [?a], ?m) = (sp', addrs', mem')" "unat sp' = unat ?a - strs_size ss"
    "same_above (unat ?a) ?m mem'" "stored ((done_s @ [s]) @ ss) addrs' mem' (unat sp')"
    using Cons.IH [OF _ st] le(2) u by auto
  have "same_above (unat sp) mem mem'" using same_above_trans [OF at(2) f(3)] u by simp
  then show ?case using f u le(2) push_str_eq [OF le(1)] by (simp add: strs_size_def)
qed

lemma push_strs_spec:
  assumes "strs_size ss \<le> unat sp"
  shows "\<exists>sp' addrs mem'. push_strs ss sp mem = (sp', addrs, mem') \<and> unat sp' = unat sp - strs_size ss \<and>
    same_above (unat sp) mem mem' \<and> stored ss addrs mem' (unat sp')"
  using push_strs_from [OF assms, of "[]" "[]" mem] by (simp add: push_strs_def stored_def)

lemma push_ptrs_spec:
  assumes "8 * (length ws + 1) \<le> unat sp"
  shows "\<exists>sp' mem'. push_ptrs ws (sp, mem) = (sp', mem') \<and> unat sp' = unat sp - 8 * (length ws + 1) \<and> same_above (unat sp) mem mem' \<and>
    bytes_at mem' sp' (concat (map word_bytes (ws @ [0])))"
proof -
  let ?sp1 = "sp - 8" and ?sp2 = "sp - 8 - of_nat (length ws) * 8"
  have u1: "unat ?sp1 = unat sp - 8" using unat_minus [of 8 sp] assms by simp
  have "?sp2 = sp - of_nat (8 * (length ws + 1))" by (simp add: algebra_simps)
  then have u2: "unat ?sp2 = unat sp - 8 * (length ws + 1)" using unat_minus [OF assms] by (simp only:)
  have fits: "unat ?sp1 + length (word_bytes 0) < 2 ^ 64" "unat ?sp2 + 8 * length ws < 2 ^ 64" using u1 u2 assms unat_u64 [of sp] by simp_all
  let ?m1 = "write_bytes ?sp1 (word_bytes 0) mem" and ?m2 = "write_words ?sp2 ws (write_bytes ?sp1 (word_bytes 0) mem)"
  have m1: "bytes_at ?m1 ?sp1 (word_bytes 0)" "same_above (unat sp) mem ?m1"
    using write_bytes_at [OF fits(1)] write_bytes_above [OF fits(1), of mem] u1 assms by auto
  have m2: "bytes_at ?m2 ?sp2 (concat (map word_bytes ws))" "same_above (unat ?sp1) ?m1 ?m2"
    using write_words_spec [OF fits(2), of ?m1] u1 u2 assms by auto
  have z: "bytes_at ?m2 ?sp1 (word_bytes 0)" by (rule bytes_at_frame [OF m1(1) m2(2)]) simp
  have len: "length (concat (map word_bytes ws)) = 8 * length ws" by (induction ws) simp_all
  have "?sp1 = ?sp2 + of_nat (8 * length ws)" by simp
  then have "bytes_at ?m2 ?sp2 (concat (map word_bytes (ws @ [0])))"
    using m2(1) z u2 assms unat_u64 [of sp] by (simp add: bytes_at_append len)
  moreover have "same_above (unat sp) mem ?m2" using same_above_trans [OF m1(2) m2(2)] u1 by simp
  ultimately show ?thesis using u2 by (simp add: push_ptrs_def Let_def write_word_def word_bytes_def)
qed

lemma random_bytes_spec:
  assumes "rng_inv r" "4 \<le> words_left r"
  shows "\<exists>r' bs. random_bytes r = Some (r', bs) \<and> length bs = 16 \<and> rng_inv r' \<and> words_left r' = words_left r - 4"
proof -
  define P where "P i s \<longleftrightarrow> (\<exists>q bs. s = (q, bs) \<and> length bs = 4 * i \<and> rng_inv q \<and> words_left q = words_left r - i)" for i :: nat and s :: "random_generator \<times> u8 list"
  have "\<exists>t. foldM (\<lambda>_ (r, bs). do { (r', w) \<leftarrow> random_word r; Some (r', bs @ w) }) [0..<4] (r, []) = Some t \<and> P 4 t"
  proof (rule foldM_upt [where P = P])
    fix i s assume i: "i < 4" "P i s"
    then obtain q bs where q: "s = (q, bs)" "length bs = 4 * i" "rng_inv q" "words_left q = words_left r - i" by (auto simp: P_def)
    have "words_left q \<noteq> 0" using q(4) i(1) assms(2) by simp
    then obtain q' y where "genrand_u32 q = Some (q', y)" "rng_inv q'" "words_left q' = words_left q - 1" using genrand_spec [OF q(3)] by auto
    then show "\<exists>t. (case s of (r, bs) \<Rightarrow> do { (r', w) \<leftarrow> random_word r; Some (r', bs @ w) }) = Some t \<and> P (Suc i) t"
      using q by (simp add: random_word_def P_def)
  qed (use assms in \<open>simp_all add: P_def\<close>)
  then show ?thesis by (auto simp: random_bytes_def P_def)
qed

lemma push_block_spec:
  assumes "length bs \<le> unat sp"
  shows "unat (sp - of_nat (length bs)) = unat sp - length bs" "bytes_at (write_bytes (sp - of_nat (length bs)) bs mem) (sp - of_nat (length bs)) bs"
    "same_above (unat sp) mem (write_bytes (sp - of_nat (length bs)) bs mem)"
proof -
  show u: "unat (sp - of_nat (length bs)) = unat sp - length bs" by (rule unat_minus [OF assms])
  have "unat (sp - of_nat (length bs)) + length bs < 2 ^ 64" "unat (sp - of_nat (length bs)) + length bs = unat sp" using u assms unat_u64 [of sp] by simp_all
  then show "bytes_at (write_bytes (sp - of_nat (length bs)) bs mem) (sp - of_nat (length bs)) bs" "same_above (unat sp) mem (write_bytes (sp - of_nat (length bs)) bs mem)"
    using write_bytes_at write_bytes_above by (blast, metis)
qed

lemma push_pairs_spec:
  assumes "16 * length ps \<le> unat sp"
  shows "unat (sp - of_nat (length ps) * 16) = unat sp - 16 * length ps"
    "bytes_at (write_pairs (sp - of_nat (length ps) * 16) ps mem) (sp - of_nat (length ps) * 16) (concat (map word_bytes (concat (map (\<lambda>(k, v). [k, v]) ps))))"
    "same_above (unat sp) mem (write_pairs (sp - of_nat (length ps) * 16) ps mem)"
proof -
  let ?ws = "concat (map (\<lambda>(k, v). [k, v]) ps)"
  have len: "length ?ws = 2 * length ps" by (induction ps) auto
  have "sp - of_nat (length ps) * 16 = sp - of_nat (16 * length ps)" by (simp add: mult.commute)
  then show u: "unat (sp - of_nat (length ps) * 16) = unat sp - 16 * length ps" using unat_minus [OF assms] by (simp only:)
  have "unat (sp - of_nat (length ps) * 16) + 8 * length ?ws < 2 ^ 64" "unat (sp - of_nat (length ps) * 16) + 8 * length ?ws = unat sp"
    using u assms len unat_u64 [of sp] by simp_all
  then show "bytes_at (write_pairs (sp - of_nat (length ps) * 16) ps mem) (sp - of_nat (length ps) * 16) (concat (map word_bytes ?ws))"
    "same_above (unat sp) mem (write_pairs (sp - of_nat (length ps) * 16) ps mem)"
    using write_words_spec [of "sp - of_nat (length ps) * 16" ?ws mem] by (simp_all add: write_pairs_words)
qed

text \<open>The strings of environment and arguments.\<close>

definition strs_need :: "stack_info \<Rightarrow> nat" where
  "strs_need i = strs_size (envs i) + strs_size (args i) + 30"

lemma strings_spec:
  assumes "strs_need i \<le> unat tos"
  shows "\<exists>sp1 sp2 ea aa mem1 mem2. push_strs (envs i) tos mem = (sp1, ea, mem1) \<and> push_strs (args i) (align16 sp1) mem1 = (sp2, aa, mem2) \<and>
    unat tos - strs_need i + 15 \<le> unat sp2 \<and> unat sp2 \<le> unat tos \<and> same_above (unat tos) mem mem2 \<and>
    stored (envs i) ea mem2 (unat sp2) \<and> stored (args i) aa mem2 (unat sp2)"
proof -
  obtain sp1 ea mem1 where e: "push_strs (envs i) tos mem = (sp1, ea, mem1)" "unat sp1 = unat tos - strs_size (envs i)"
    "same_above (unat tos) mem mem1" "stored (envs i) ea mem1 (unat sp1)" using push_strs_spec [of "envs i" tos mem] assms by (auto simp: strs_need_def)
  note al = unat_align16(2,3) [of sp1]
  have need: "strs_size (args i) \<le> unat (align16 sp1)" using assms e(2) al by (simp add: strs_need_def)
  obtain sp2 aa mem2 where a: "push_strs (args i) (align16 sp1) mem1 = (sp2, aa, mem2)" "unat sp2 = unat (align16 sp1) - strs_size (args i)"
    "same_above (unat (align16 sp1)) mem1 mem2" "stored (args i) aa mem2 (unat sp2)" using push_strs_spec [OF need, of mem1] by blast
  have b: "unat sp2 \<le> unat (align16 sp1)" "unat (align16 sp1) \<le> unat tos" "unat tos - strs_need i + 15 \<le> unat sp2"
    using a(2) e(2) al need assms by (simp_all add: strs_need_def)
  have "stored (envs i) ea mem2 (unat (align16 sp1))" using stored_frame [OF e(4) same_above_mono [OF a(3) al(1)] al(1)] .
  then have "stored (envs i) ea mem2 (unat sp2)" using stored_frame [of _ _ mem2 "unat (align16 sp1)" mem2 "unat sp2"] b(1) by simp
  moreover have "same_above (unat tos) mem mem2" by (rule same_above_trans [OF e(3) a(3) b(2)])
  ultimately show ?thesis using e(1) a(1,4) b by auto
qed

text \<open>What a program finds above its stack pointer.\<close>

definition pointers_to :: "umem \<Rightarrow> usize \<Rightarrow> u8 list list \<Rightarrow> bool" where
  "pointers_to mem v ss \<longleftrightarrow> (\<forall>i < length ss. cstr_at mem (read_word mem (v + of_nat (8 * i))) (ss ! i)) \<and> read_word mem (v + of_nat (8 * length ss)) = 0"

definition pairs_at :: "umem \<Rightarrow> usize \<Rightarrow> (usize \<times> usize) list \<Rightarrow> bool" where
  "pairs_at mem v ps \<longleftrightarrow> (\<forall>i < length ps. read_word mem (v + of_nat (16 * i)) = fst (ps ! i) \<and> read_word mem (v + of_nat (16 * i) + 8) = snd (ps ! i))"

lemma pointers_toI:
  assumes "stored ss addrs mem n" "bytes_at mem v (concat (map word_bytes (addrs @ [0])))"
  shows "pointers_to mem v ss" "ss \<noteq> [] \<Longrightarrow> read_word mem v = hd addrs"
proof -
  have len: "length ss = length addrs" using assms(1) by (auto simp: stored_def dest: list_all2_lengthD)
  have r: "read_word mem (v + of_nat (8 * i)) = (addrs @ [0]) ! i" if "i < length (addrs @ [0])" for i by (rule read_word_words [OF assms(2) that])
  show "pointers_to mem v ss" unfolding pointers_to_def
  proof (intro conjI allI impI)
    fix i assume i: "i < length ss"
    then have "read_word mem (v + of_nat (8 * i)) = addrs ! i" using r [of i] len by (simp add: nth_append)
    then show "cstr_at mem (read_word mem (v + of_nat (8 * i))) (ss ! i)" using list_all2_nthD [OF assms(1) [unfolded stored_def] i] by simp
  next
    show "read_word mem (v + of_nat (8 * length ss)) = 0" using r [of "length ss"] len by simp
  qed
  show "read_word mem v = hd addrs" if "ss \<noteq> []" using r [of 0] that len by (cases addrs) auto
qed

lemma concat_pairs_nth: "i < length ps \<Longrightarrow> concat (map (\<lambda>(k, v). [k, v]) ps) ! (2 * i) = fst (ps ! i) \<and> concat (map (\<lambda>(k, v). [k, v]) ps) ! Suc (2 * i) = snd (ps ! i)"
proof (induction ps arbitrary: i)
  case (Cons p ps)
  then show ?case by (cases i) (auto simp: case_prod_unfold)
qed simp

lemma pairs_atI:
  assumes "bytes_at mem v (concat (map word_bytes (concat (map (\<lambda>(k, v). [k, v]) ps))))"
  shows "pairs_at mem v ps"
  unfolding pairs_at_def
proof (intro allI impI)
  fix i assume i: "i < length ps"
  have len: "length (concat (map (\<lambda>(k, v). [k, v]) ps)) = 2 * length ps" by (induction ps) auto
  have "v + of_nat (8 * (2 * i)) = v + of_nat (16 * i)" "v + of_nat (8 * Suc (2 * i)) = v + of_nat (16 * i) + 8" by (simp_all add: algebra_simps)
  moreover have "2 * i < length (concat (map (\<lambda>(k, v). [k, v]) ps))" "Suc (2 * i) < length (concat (map (\<lambda>(k, v). [k, v]) ps))" using i len by simp_all
  ultimately show "read_word mem (v + of_nat (16 * i)) = fst (ps ! i) \<and> read_word mem (v + of_nat (16 * i) + 8) = snd (ps ! i)"
    using read_word_words [OF assms, of "2 * i"] read_word_words [OF assms, of "Suc (2 * i)"] concat_pairs_nth [OF i] by (simp only: conj_absorb simp_thms)
qed

lemma pairs_at_frame:
  assumes "bytes_at mem v (concat (map word_bytes (concat (map (\<lambda>(k, v). [k, v]) ps))))" "same_above n mem mem'" "n \<le> unat v"
  shows "pairs_at mem' v ps"
  by (rule pairs_atI [OF bytes_at_frame [OF assms]])

text \<open>The vectors and the count below \<open>sp\<close>.\<close>

lemma vectors_spec:
  assumes st: "stored es ea mem n" "stored ass aa mem n" and sp: "unat sp \<le> n" "16 * length ps + 8 * (length ea + 1) + 8 * (length aa + 1) + 8 \<le> unat sp"
  defines "sp5 \<equiv> sp - of_nat (length ps) * 16"
  shows "\<exists>sp6 mem6 sp7 mem7. push_ptrs ea (sp5, write_pairs sp5 ps mem) = (sp6, mem6) \<and> push_ptrs aa (sp6, mem6) = (sp7, mem7) \<and>
    unat sp7 = unat sp - (16 * length ps + 8 * (length ea + 1) + 8 * (length aa + 1)) \<and>
    unat sp6 = unat sp7 + 8 * (length aa + 1) \<and> unat sp5 = unat sp6 + 8 * (length ea + 1) \<and>
    (let mem8 = write_word (sp7 - 8) (of_nat (length ass)) mem7 in
     same_above (unat sp) mem mem8 \<and> read_word mem8 (sp7 - 8) = of_nat (length ass) \<and> pointers_to mem8 sp7 ass \<and>
     (ass \<noteq> [] \<longrightarrow> read_word mem8 sp7 = hd aa) \<and> pointers_to mem8 sp6 es \<and> pairs_at mem8 sp5 ps)"
proof -
  note p = push_pairs_spec [of ps sp, folded sp5_def]
  have le5: "16 * length ps \<le> unat sp" and u5: "unat sp5 = unat sp - 16 * length ps" using p(1) sp(2) by simp_all
  let ?m5 = "write_pairs sp5 ps mem"
  have r6: "8 * (length ea + 1) \<le> unat sp5" using u5 sp(2) by linarith
  obtain sp6 mem6 where s6: "push_ptrs ea (sp5, ?m5) = (sp6, mem6)" "unat sp6 = unat sp5 - 8 * (length ea + 1)" "same_above (unat sp5) ?m5 mem6"
    "bytes_at mem6 sp6 (concat (map word_bytes (ea @ [0])))" using push_ptrs_spec [OF r6, of ?m5] by blast
  have r7: "8 * (length aa + 1) \<le> unat sp6" using u5 s6(2) sp(2) by linarith
  obtain sp7 mem7 where s7: "push_ptrs aa (sp6, mem6) = (sp7, mem7)" "unat sp7 = unat sp6 - 8 * (length aa + 1)" "same_above (unat sp6) mem6 mem7"
    "bytes_at mem7 sp7 (concat (map word_bytes (aa @ [0])))" using push_ptrs_spec [OF r7, of mem6] by blast
  let ?m8 = "write_word (sp7 - 8) (of_nat (length ass)) mem7"
  have u: "unat sp7 = unat sp - (16 * length ps + 8 * (length ea + 1) + 8 * (length aa + 1))" "unat sp6 = unat sp7 + 8 * (length aa + 1)"
    "unat sp5 = unat sp6 + 8 * (length ea + 1)" "8 \<le> unat sp7" using u5 s6(2) s7(2) sp(2) by linarith+
  have w: "bytes_at ?m8 (sp7 - 8) (word_bytes (of_nat (length ass)))" "same_above (unat sp7) mem7 ?m8"
    using push_block_spec(2,3) [of "word_bytes (of_nat (length ass))" sp7 mem7] u(4) by (simp_all add: write_word_def word_bytes_def)
  have f7: "same_above (unat sp6) mem6 ?m8" by (rule same_above_trans [OF s7(3) w(2)]) (use u in simp)
  have f6: "same_above (unat sp5) ?m5 ?m8" by (rule same_above_trans [OF s6(3) f7]) (use u in simp)
  have f5: "same_above (unat sp) mem ?m8" by (rule same_above_trans [OF p(3) [OF le5, of mem] f6]) (use u5 in simp)
  have "stored ass aa ?m8 (unat sp)" "stored es ea ?m8 (unat sp)" using stored_frame [OF _ same_above_mono [OF f5 sp(1)] sp(1)] st by blast+
  note q = pointers_toI [OF this(1) bytes_at_frame [OF s7(4) w(2)]] pointers_toI(1) [OF this(2) bytes_at_frame [OF s6(4) f7]]
  have "pairs_at ?m8 sp5 ps" by (rule pairs_at_frame [OF p(2) [OF le5] f6]) simp
  then show ?thesis using s6(1) s7(1) u(1-3) q f5 read_word_at [OF w(1)] by (simp add: Let_def)
qed

text \<open>The platform string and the random bytes.\<close>

lemma blocks_spec:
  assumes st: "stored es ea mem n" "stored ass aa mem n" and sp: "unat sp \<le> n" "24 \<le> unat sp" and rnd: "length rnd = 16"
  defines "m4 \<equiv> write_bytes (sp - 8 - 16) rnd (write_bytes (sp - 8) platform mem)"
  shows "unat (sp - 8 - 16) = unat sp - 24" "unat (sp - 8) = unat sp - 8" "bytes_at m4 (sp - 8) platform" "bytes_at m4 (sp - 8 - 16) rnd"
    "same_above (unat sp) mem m4" "stored es ea m4 (unat sp)" "stored ass aa m4 (unat sp)"
proof -
  let ?m3 = "write_bytes (sp - 8) platform mem"
  have p3: "unat (sp - 8) = unat sp - 8" "bytes_at ?m3 (sp - 8) platform" "same_above (unat sp) mem ?m3"
    using push_block_spec(1) [of platform sp] push_block_spec(2,3) [of platform sp mem] sp(2) by (simp_all add: platform_def)
  have p4: "unat (sp - 8 - 16) = unat (sp - 8) - 16" "bytes_at m4 (sp - 8 - 16) rnd" "same_above (unat (sp - 8)) ?m3 m4"
    using push_block_spec(1) [of rnd "sp - 8"] push_block_spec(2,3) [of rnd "sp - 8" ?m3] p3(1) sp(2) rnd by (simp_all add: m4_def)
  show "unat (sp - 8 - 16) = unat sp - 24" "unat (sp - 8) = unat sp - 8" using p3(1) p4(1) sp(2) by linarith+
  show "bytes_at m4 (sp - 8 - 16) rnd" by (rule p4(2))
  show "bytes_at m4 (sp - 8) platform" by (rule bytes_at_frame [OF p3(2) p4(3)]) simp
  show m4: "same_above (unat sp) mem m4" by (rule same_above_trans [OF p3(3) p4(3)]) (use p3(1) in simp)
  show "stored es ea m4 (unat sp)" "stored ass aa m4 (unat sp)"
    using stored_frame [OF st(1) same_above_mono [OF m4 sp(1)] sp(1)] stored_frame [OF st(2) same_above_mono [OF m4 sp(1)] sp(1)] .
qed

lemma unat_eq_plus: "unat a = unat b + n \<Longrightarrow> a = b + of_nat n" for a b :: usize
proof -
  assume "unat a = unat b + n"
  then have "(of_nat (unat a) :: usize) = of_nat (unat b + n)" by simp
  then show ?thesis by simp
qed

section \<open>Properties\<close>

definition stack_need :: "stack_info \<Rightarrow> nat" where
  "stack_need i = strs_need i + 24 + 15 + 16 * (length (auxv i) + 4) + 8 * (length (envs i) + 1) + 8 * (length (args i) + 1) + 8"

lemma build_stack_spec:
  assumes rng: "rng_inv r" "4 \<le> words_left r" and room: "stack_need i \<le> unat tos"
  shows "\<exists>i' sp l r' mem' p q rnd. build_stack i tos (r, mem) = Some ((i', sp, l), r', mem') \<and> unat tos - stack_need i \<le> unat sp \<and>
    argc_0 l = sp \<and> argv_0 l = sp + 8 \<and> envp_0 l = argv_0 l + of_nat (8 * (length (args i) + 1)) \<and>
    auxv_0 l = envp_0 l + of_nat (8 * (length (envs i) + 1)) \<and> same_above (unat tos) mem mem' \<and>
    read_word mem' sp = of_nat (length (args i)) \<and> pointers_to mem' (argv_0 l) (args i) \<and> pointers_to mem' (envp_0 l) (envs i) \<and>
    pairs_at mem' (auxv_0 l) (auxv i @ [(AT_PLATFORM, p), (AT_RANDOM, q), (AT_EXECFN, if args i = [] then 0 else read_word mem' (argv_0 l)), (AT_NULL, 0)]) \<and>
    bytes_at mem' p platform \<and> bytes_at mem' q rnd \<and> length rnd = 16"
proof -
  have sn: "strs_need i \<le> unat tos" using room by (simp add: stack_need_def)
  obtain sp1 sp2 ea aa mem1 mem2 where s: "push_strs (envs i) tos mem = (sp1, ea, mem1)" "push_strs (args i) (align16 sp1) mem1 = (sp2, aa, mem2)"
    "unat tos - strs_need i + 15 \<le> unat sp2" "unat sp2 \<le> unat tos" "same_above (unat tos) mem mem2"
    "stored (envs i) ea mem2 (unat sp2)" "stored (args i) aa mem2 (unat sp2)" using strings_spec [OF sn, of mem] by blast
  obtain r' rnd where rb: "random_bytes r = Some (r', rnd)" "length rnd = 16" using random_bytes_spec [OF rng] by blast
  let ?sp = "align16 sp2" and ?sp3 = "align16 sp2 - 8" and ?sp4 = "align16 sp2 - 8 - 16"
  let ?m4 = "write_bytes ?sp4 rnd (write_bytes ?sp3 platform mem2)"
  let ?aux = "auxv i @ [(AT_PLATFORM, ?sp3), (AT_RANDOM, ?sp4), (AT_EXECFN, case aa of [] \<Rightarrow> 0 | a # _ \<Rightarrow> a), (AT_NULL, 0)]"
  note al = unat_align16(2,3) [of sp2]
  have b: "unat tos - strs_need i \<le> unat ?sp" "24 + 15 + 16 * (length (auxv i) + 4) + 8 * (length (envs i) + 1) + 8 * (length (args i) + 1) + 8 \<le> unat ?sp"
    using s(3) al(2) room sn by (simp_all add: stack_need_def strs_need_def)
  have len: "length ea = length (envs i)" "length aa = length (args i)" using s(6,7) by (auto simp: stored_def dest: list_all2_lengthD)
  have "24 \<le> unat ?sp" using b(2) by linarith
  note bl = blocks_spec [OF s(6,7) al(1) this rb(2)] and al4 = unat_align16(2,3) [of ?sp4]
  have v: "unat (align16 ?sp4) \<le> unat ?sp" "16 * length ?aux + 8 * (length ea + 1) + 8 * (length aa + 1) + 8 \<le> unat (align16 ?sp4)"
    using al4 bl(1) b(2) len by simp_all
  obtain sp6 mem6 sp7 mem7 where g: "push_ptrs ea (align16 ?sp4 - of_nat (length ?aux) * 16, write_pairs (align16 ?sp4 - of_nat (length ?aux) * 16) ?aux ?m4) = (sp6, mem6)"
    "push_ptrs aa (sp6, mem6) = (sp7, mem7)" "unat sp7 = unat (align16 ?sp4) - (16 * length ?aux + 8 * (length ea + 1) + 8 * (length aa + 1))"
    "unat sp6 = unat sp7 + 8 * (length aa + 1)" "unat (align16 ?sp4 - of_nat (length ?aux) * 16) = unat sp6 + 8 * (length ea + 1)"
    "let mem8 = write_word (sp7 - 8) (of_nat (length (args i))) mem7 in
     same_above (unat (align16 ?sp4)) ?m4 mem8 \<and> read_word mem8 (sp7 - 8) = of_nat (length (args i)) \<and> pointers_to mem8 sp7 (args i) \<and>
     (args i \<noteq> [] \<longrightarrow> read_word mem8 sp7 = hd aa) \<and> pointers_to mem8 sp6 (envs i) \<and> pairs_at mem8 (align16 ?sp4 - of_nat (length ?aux) * 16) ?aux"
    using vectors_spec [OF bl(6,7) v] by blast
  let ?sp5 = "align16 ?sp4 - of_nat (length ?aux) * 16" and ?m8 = "write_word (sp7 - 8) (of_nat (length (args i))) mem7"
  let ?i = "i\<lparr>auxv := ?aux\<rparr>" and ?l = "\<lparr>argc_0 = sp7 - 8, argv_0 = sp7, envp_0 = sp6, auxv_0 = align16 ?sp4 - of_nat (length ?aux) * 16\<rparr>"
  note m8 = g(6) [unfolded Let_def]
  have run: "build_stack i tos (r, mem) = Some ((?i, sp7 - 8, ?l), r', ?m8)"
    using s(1,2) rb(1) g(1,2) by (simp add: build_stack_def Let_def set_auxv_at_platform_def set_auxv_at_random_def set_auxv_at_execfn_def set_auxv_at_null_def push_auxv_def platform_def)
  have addrs: "sp6 = sp7 + of_nat (8 * (length (args i) + 1))" "?sp5 = sp6 + of_nat (8 * (length (envs i) + 1))"
    using unat_eq_plus [OF g(4)] unat_eq_plus [OF g(5)] by (simp_all only: len)
  have low: "unat tos - stack_need i \<le> unat (sp7 - 8)"
    using unat_minus [of 8 sp7] g(3) v(2) al4 bl(1) b len room by (simp add: stack_need_def)
  have blocks: "bytes_at ?m8 ?sp3 platform" "bytes_at ?m8 ?sp4 rnd"
    using bytes_at_frame [OF bl(3) m8 [THEN conjunct1]] bytes_at_frame [OF bl(4) m8 [THEN conjunct1]] al4(1) bl(1,2) by simp_all
  have above: "same_above (unat tos) mem ?m8"
    using same_above_trans [OF same_above_trans [OF s(5) bl(5)] m8 [THEN conjunct1]] al(1) s(4) v(1) by simp
  have ex: "(case aa of [] \<Rightarrow> 0 | a # _ \<Rightarrow> a) = (if args i = [] then 0 else read_word ?m8 (argv_0 ?l))"
    using m8 len(2) by (cases aa) auto
  show ?thesis
  proof (intro exI conjI)
    show "build_stack i tos (r, mem) = Some ((?i, sp7 - 8, ?l), r', ?m8)" by (rule run)
    show "envp_0 ?l = argv_0 ?l + of_nat (8 * (length (args i) + 1))" "auxv_0 ?l = envp_0 ?l + of_nat (8 * (length (envs i) + 1))"
      using addrs by (simp_all only: stack_layout.select_convs)
    show "pairs_at ?m8 (auxv_0 ?l) (auxv i @ [(AT_PLATFORM, ?sp3), (AT_RANDOM, ?sp4), (AT_EXECFN, if args i = [] then 0 else read_word ?m8 (argv_0 ?l)), (AT_NULL, 0)])"
      unfolding ex [symmetric] unfolding stack_layout.select_convs using m8 by blast
  qed (use low blocks above m8 rb(2) in \<open>simp_all only: stack_layout.select_convs diff_add_cancel\<close>)
qed

text \<open>
  C15: the stack that a new program gets has the layout of the System V ABI: at the stack pointer the number of arguments, then the
  pointers to the arguments, a null pointer, the pointers to the environment, a null pointer, and the auxiliary vector with
  its last entry \<^verbatim>\<open>AT_NULL\<close>; every pointer leads to the bytes of its string and a zero byte, and memory above the stack is untouched.
\<close>

theorem build_stack_layout:
  assumes rng: "rng_inv r" "4 \<le> words_left r" and room: "stack_need i \<le> unat tos"
  shows "\<exists>i' sp l r' mem' p q rnd. build_stack i tos (r, mem) = Some ((i', sp, l), r', mem') \<and> unat tos - stack_need i \<le> unat sp \<and>
    argc_0 l = sp \<and> argv_0 l = sp + 8 \<and> envp_0 l = argv_0 l + of_nat (8 * (length (args i) + 1)) \<and>
    auxv_0 l = envp_0 l + of_nat (8 * (length (envs i) + 1)) \<and> same_above (unat tos) mem mem' \<and>
    read_word mem' sp = of_nat (length (args i)) \<and> pointers_to mem' (argv_0 l) (args i) \<and> pointers_to mem' (envp_0 l) (envs i) \<and>
    pairs_at mem' (auxv_0 l) (auxv i @ [(AT_PLATFORM, p), (AT_RANDOM, q), (AT_EXECFN, if args i = [] then 0 else read_word mem' (argv_0 l)), (AT_NULL, 0)]) \<and>
    bytes_at mem' p platform \<and> bytes_at mem' q rnd \<and> length rnd = 16"
  by (rule build_stack_spec [OF assms])

text \<open>A program with one argument and one environment string.\<close>

definition demo_args :: stack_info where
  "demo_args = \<lparr>auxv = [(AT_PAGESZ, 4096)], args = [[0x6C, 0x73]], envs = [[0x41, 0x3D, 0x62]]\<rparr>"

theorem build_stack_layout_witness:
  "\<exists>i' sp l r' mem'. build_stack demo_args 0x10000 (rng_new, \<lambda>_. 0) = Some ((i', sp, l), r', mem') \<and> read_word mem' sp = 1 \<and>
     pointers_to mem' (sp + 8) [[0x6C, 0x73]] \<and> pointers_to mem' (sp + 24) [[0x41, 0x3D, 0x62]]"
proof -
  have "stack_need demo_args \<le> unat (0x10000 :: usize)" by (simp add: stack_need_def strs_need_def strs_size_def demo_args_def)
  from build_stack_layout [OF rng_new_inv(1) _ this, of "\<lambda>_. 0"] rng_new_inv(2) obtain i' sp l r' mem' where
    h: "build_stack demo_args 0x10000 (rng_new, \<lambda>_. 0) = Some ((i', sp, l), r', mem')" "argv_0 l = sp + 8" "envp_0 l = argv_0 l + 16"
      "read_word mem' sp = 1" "pointers_to mem' (argv_0 l) [[0x6C, 0x73]]" "pointers_to mem' (envp_0 l) [[0x41, 0x3D, 0x62]]"
    by (auto simp: demo_args_def)
  have "sp + 8 + 16 = sp + 24" by simp
  then show ?thesis using h by (metis)
qed

end
