(* ===== verification/Loader.thy ===== *)
theory Loader
  imports Process_Inv User_Stack Sys_Fs_Inv
begin

text \<open>
  Loading a program: \<^verbatim>\<open>process/loader/mod.rs\<close>, \<^verbatim>\<open>PCB::elf_data_to_pcb\<close> and \<^verbatim>\<open>PCB::from_exec\<close> of \<^verbatim>\<open>process/pcb.rs\<close>, the first tasks
  (\<^verbatim>\<open>process/mod.rs\<close>), and \<^verbatim>\<open>sys_execve\<close>.

  The parser of ELF files is the package \<^verbatim>\<open>xmas_elf\<close>: an argument \<open>parse\<close> that gives what the kernel reads of a file, the record
  \<open>elf_file\<close> of \<open>User_Stack\<close>. The file systems are those of the theory \<open>Sys_Fs\<close>, whose field \<open>pm\<close> is the physical memory.

  The lemmas show that a segment is found in memory byte for byte where its header says, what registers and stack a new program
  starts with, and that \<open>execve\<close> leaves the other tasks alone.
\<close>

section \<open>Bytes of the file\<close>

definition magic_num :: "u8 list" where "magic_num = [0x7F, 0x45, 0x4C, 0x46]"

definition check_magic :: "elf_file \<Rightarrow> bool" where
  "check_magic elf = foldl (\<lambda>ans i. if magic_num ! i \<noteq> magic elf ! i then False else ans) True [0..<length magic_num]"

text \<open>A slice of a vector, which panics out of range.\<close>

definition slice :: "nat \<Rightarrow> nat \<Rightarrow> 'a list \<Rightarrow> 'a list option" where
  "slice a b bs = (if a \<le> b \<and> b \<le> length bs then Some (take (b - a) (drop a bs)) else None)"

text \<open>What \<^verbatim>\<open>from_utf8\<close> accepts: no lone, overlong or surrogate sequence.\<close>

definition utf8_tail :: "u8 \<Rightarrow> bool" where "utf8_tail b \<longleftrightarrow> 0x80 \<le> b \<and> b < 0xC0"

fun utf8_ok :: "u8 list \<Rightarrow> bool" where
  "utf8_ok [] = True"
| "utf8_ok (a # bs) =
     (if a < 0x80 then utf8_ok bs
      else case bs of
        [] \<Rightarrow> False
      | b # cs \<Rightarrow>
          if 0xC2 \<le> a \<and> a < 0xE0 then utf8_tail b \<and> utf8_ok cs
          else (case cs of
            [] \<Rightarrow> False
          | c # ds \<Rightarrow>
              if 0xE0 \<le> a \<and> a < 0xF0
              then utf8_tail b \<and> utf8_tail c \<and> (a = 0xE0 \<longrightarrow> 0xA0 \<le> b) \<and> (a = 0xED \<longrightarrow> b < 0xA0) \<and> utf8_ok ds
              else (case ds of
                [] \<Rightarrow> False
              | d # es \<Rightarrow>
                  0xF0 \<le> a \<and> a < 0xF5 \<and> utf8_tail b \<and> utf8_tail c \<and> utf8_tail d \<and> (a = 0xF0 \<longrightarrow> 0x90 \<le> b) \<and> (a = 0xF4 \<longrightarrow> b < 0x90) \<and>
                  utf8_ok es)))"

definition bytes_string :: "u8 list \<Rightarrow> string" where
  "bytes_string bs = map (\<lambda>b. char_of (unat b)) bs"

section \<open>Segments\<close>

definition ph_permission :: "program_header \<Rightarrow> map_permission" where
  "ph_permission ph = MP_U OR (if ph_read ph then MP_R else 0) OR (if ph_write ph then MP_W else 0) OR (if ph_exec ph then MP_X else 0)"

text \<open>A segment whose pages are those that the file has in memory; a page that is not there is a fresh one.\<close>

definition map_cached :: "page_cache \<Rightarrow> usize \<Rightarrow> vma \<Rightarrow> memory_set \<times> pmem \<Rightarrow> (memory_set \<times> pmem) option" where
  "map_cached c off v s = (case s of (ms, k) \<Rightarrow>
     do { r \<leftarrow> vma_range v;
          (_, v', k', pt') \<leftarrow> foldM (\<lambda>vpn (off, v, k, pt).
              do { (k1, page) \<leftarrow> find_page off c k;
                   (v', (k2, pt'), _) \<leftarrow> vma_map_one vpn page v (k1, pt);
                   Some (off + PAGE_SIZE, v', k2, pt') }) r (off, v, k, mpt ms);
          push_no_map v' (ms\<lparr>mpt := pt'\<rparr>, k') })"

text \<open>A segment that gets fresh pages with the bytes of the file.\<close>

definition map_data :: "disk_read \<Rightarrow> elf_file \<Rightarrow> program_header \<Rightarrow> usize \<Rightarrow> vma \<Rightarrow> memory_set \<times> pmem \<Rightarrow> (memory_set \<times> pmem) option" where
  "map_data rd elf ph start_va v s =
     do { data \<leftarrow> slice (unat (ph_offset ph)) (unat (ph_offset ph + ph_file_size ph)) (elf_input elf);
          off \<leftarrow> vaddr_offset start_va;
          ms_push rd v (Some data) (unat off) s }"

definition map_segment ::
  "disk_read \<Rightarrow> elf_file \<Rightarrow> page_cache option \<Rightarrow> usize \<Rightarrow> program_header \<Rightarrow> usize \<times> memory_set \<times> pmem \<Rightarrow> (usize \<times> memory_set \<times> pmem) option" where
  "map_segment rd elf file base ph s = (case s of (max_end, ms, k) \<Rightarrow>
     do { rassert (ph_type ph \<noteq> PtErr);
          if ph_type ph \<noteq> PtLoad then Some s
          else
            do { let start_va = ph_vaddr ph + base;
                 let end_va = start_va + ph_mem_size ph;
                 let per = ph_permission ph;
                 v \<leftarrow> vma_new start_va end_va per Framed Elf None;
                 s' \<leftarrow> (case file of
                          Some c \<Rightarrow> if \<not> contains per MP_W then map_cached c (ph_offset ph) v (ms, k) else map_data rd elf ph start_va v (ms, k)
                        | None \<Rightarrow> map_data rd elf ph start_va v (ms, k));
                 u \<leftarrow> align_up end_va;
                 Some (max max_end u, s') } })"

text \<open>The end of the highest segment, rounded up to a page.\<close>

definition map_elf_at ::
  "disk_read \<Rightarrow> elf_file \<Rightarrow> page_cache option \<Rightarrow> usize \<Rightarrow> memory_set \<times> pmem \<Rightarrow> ((memory_set \<times> pmem) \<times> usize) option" where
  "map_elf_at rd elf file base s =
     do { (max_end, s') \<leftarrow> foldM (map_segment rd elf file base) (phs elf) (0, s); Some (s', max_end) }"

section \<open>The dynamic linker\<close>

definition interp_path :: "elf_file \<Rightarrow> string option option" where
  "interp_path elf = (case List.find (\<lambda>p. ph_type p = PtInterp) (phs elf) of
     None \<Rightarrow> Some None
   | Some ph \<Rightarrow>
       do { raw \<leftarrow> slice (unat (ph_offset ph)) (unat (ph_offset ph + ph_file_size ph)) (elf_input elf);
            rassert (utf8_ok raw);
            Some (Some (trim_end (\<lambda>c. c = CHR 0x00) (bytes_string raw))) })"

definition interp_candidates :: "string \<Rightarrow> string list" where
  "interp_candidates p =
     p # (if p = ''/lib/ld-musl-riscv64.so.1'' \<or> p = ''/lib/ld-musl-riscv64-sf.so.1'' then [''/libc.so'', ''/lib/libc.so''] else [])"

text \<open>The first candidate that exists is opened; a failure to open it is no file. \<open>locked\<close> is the entry whose lock the caller holds.\<close>

fun open_candidate :: "'d ext4_lib \<Rightarrow> time_spec \<Rightarrow> did option \<Rightarrow> string list \<Rightarrow> 'd task_fs \<Rightarrow> ('d task_fs \<times> nat option) option" where
  "open_candidate x now locked [] s = Some (s, None)"
| "open_candidate x now locked (p # ps) s =
     do { (v, r) \<leftarrow> path_to_dentry x now p (vf s);
          let s = s\<lparr>vf := v\<rparr>;
          (case r of
             None \<Rightarrow> open_candidate x now locked ps s
           | Some d \<Rightarrow>
               do { rassert (locked \<noteq> Some d);
                    (v, h) \<leftarrow> dopen d O_RDONLY (vf s);
                    Some (s\<lparr>vf := v\<rparr>, case h of Inl _ \<Rightarrow> None | Inr h \<Rightarrow> Some h) }) }"

text \<open>Only the files of ext4 have a \<^verbatim>\<open>read_all\<close>; the others are \<^verbatim>\<open>todo!()\<close>.\<close>

definition read_all_ofile :: "disk_read \<Rightarrow> nat \<Rightarrow> 'd task_fs \<Rightarrow> ('d task_fs \<times> u8 list) option" where
  "read_all_ofile rd h s =
     do { (k, ck, f, i) \<leftarrow> get_file h s;
          rassert (k = Ext4Dentry);
          ((ck', i'), bs, _) \<leftarrow> file_read_all rd O_RDONLY [] (ck, i);
          s' \<leftarrow> put_file h (ck', f, i') s;
          Some (s', bs) }"

text \<open>A file that no table has goes away at the end of the function, its pages stay where they are mapped.\<close>

definition close_temp :: "nat \<Rightarrow> 'd task_fs \<Rightarrow> 'd task_fs option" where
  "close_temp h s =
     do { k \<leftarrow> foldM arc_drop (map snd (caches s h)) (pm s);
          Some (s\<lparr>vf := (vf s)\<lparr>files := (files (vf s))(h := None)\<rparr>, caches := (caches s)(h := []), pm := k\<rparr>) }"

type_synonym elf_parser = "u8 list \<Rightarrow> elf_file option"

definition load_dl_interp ::
  "elf_parser \<Rightarrow> 'd ext4_lib \<Rightarrow> disk_read \<Rightarrow> time_spec \<Rightarrow> did option \<Rightarrow> elf_file \<Rightarrow> 'd task_fs \<times> memory_set \<Rightarrow>
   (('d task_fs \<times> memory_set) \<times> (usize \<times> usize) option) option" where
  "load_dl_interp parse x rd now locked elf s = (case s of (f, ms) \<Rightarrow>
     do { ip \<leftarrow> interp_path elf;
          (case ip of
             None \<Rightarrow> Some (s, None)
           | Some p \<Rightarrow>
               do { (f, oh) \<leftarrow> open_candidate x now locked (interp_candidates p) f;
                    (case oh of
                       None \<Rightarrow> Some ((f, ms), None)
                     | Some h \<Rightarrow>
                         do { (f, data) \<leftarrow> read_all_ofile rd h f;
                              (case parse data of
                                 None \<Rightarrow> do { f \<leftarrow> close_temp h f; Some ((f, ms), None) }
                               | Some interp \<Rightarrow>
                                   do { ((ms, k), _) \<leftarrow> map_elf_at rd interp (Some (caches f h)) DL_INTERP_OFFSET (ms, pm f);
                                        f \<leftarrow> close_temp h (f\<lparr>pm := k\<rparr>);
                                        Some ((f, ms), Some (entry interp + DL_INTERP_OFFSET, DL_INTERP_OFFSET)) }) }) }) })"

section \<open>The whole program\<close>

definition stack_vma :: "vma option" where
  "stack_vma = vma_new (USER_STACK_TOP - USER_STACK_SIZE) USER_STACK_TOP (MP_U OR MP_R OR MP_W) Framed UserStack (Some UStackHandler)"

definition heap_vma :: "usize \<Rightarrow> vma option" where
  "heap_vma a = vma_new a a (MP_U OR MP_R OR MP_W) Framed UserHeap (Some UHeapHandler)"

definition load_elf ::
  "elf_parser \<Rightarrow> 'd ext4_lib \<Rightarrow> disk_read \<Rightarrow> time_spec \<Rightarrow> did option \<Rightarrow> u8 list \<Rightarrow> u8 list list \<Rightarrow> u8 list list \<Rightarrow> 'd task_fs \<times> memory_set \<Rightarrow>
   (('d task_fs \<times> memory_set) \<times> usize \<times> usize \<times> stack_info) option" where
  "load_elf parse x rd now locked data argv envv s =
     do { elf \<leftarrow> parse data;
          rassert (check_magic elf);
          ((f, ms), dl_value) \<leftarrow> load_dl_interp parse x rd now locked elf s;
          (mk, heap_start) \<leftarrow> map_elf_at rd elf None 0 (ms, pm f);
          sv \<leftarrow> stack_vma;
          mk \<leftarrow> ms_push rd sv None 0 mk;
          hv \<leftarrow> heap_vma heap_start;
          (ms, k) \<leftarrow> ms_push rd hv None 0 mk;
          let info = init_auxv elf (init_arg argv envv stack_info_empty);
          let (info, entry_point) = (case dl_value of Some (en, base) \<Rightarrow> (set_auxv_at_base base info, en) | None \<Rightarrow> (set_auxv_at_base 0 info, entry elf));
          Some ((f\<lparr>pm := k\<rparr>, ms\<lparr>heap_end := heap_start\<rparr>), entry_point, USER_STACK_TOP, info) }"

section \<open>Tasks from programs\<close>

definition exec_trap_cx :: "usize \<Rightarrow> usize \<Rightarrow> usize \<Rightarrow> usize \<Rightarrow> stack_layout \<Rightarrow> trap_context" where
  "exec_trap_cx sst cpu en sp l =
     set_register R_a3 (auxv_0 l) (set_register R_a2 (envp_0 l) (set_register R_a1 (argv_0 l) (set_register R_a0 (argc_0 l) (init_trap_cx sst cpu en sp))))"

text \<open>What the calls below take from outside: the parser, the ext4 library, the reads of inodes and the clock.\<close>

record 'd outside =
  parser :: elf_parser
  ext4 :: "'d ext4_lib"
  rd_sector :: disk_read
  clock :: time_spec
  rd_inode :: "nat \<Rightarrow> nat \<Rightarrow> u8 list os_result"
  hart_id :: usize

text \<open>
  The state: the tasks, the file systems, and the random generator. The physical memory is \<open>mem\<close> of the first; the file systems
  work on it through their field \<open>pm\<close>.
\<close>

definition elf_data_to_pcb ::
  "ofile hart \<Rightarrow> 'd outside \<Rightarrow> string \<Rightarrow> u8 list \<Rightarrow> ofile kernel \<times> 'd task_fs \<Rightarrow> ((ofile kernel \<times> 'd task_fs) \<times> task) option" where
  "elf_data_to_pcb h x dir data st = (case st of (s, f) \<Rightarrow>
     do { (ms, k) \<leftarrow> ms_new_user (kernel_root h) (mem s);
          ((f, ms), en, user_stack, _) \<leftarrow> load_elf (parser x) (ext4 x) (rd_sector x) (clock x) None data [] [] (f\<lparr>pm := k\<rparr>, ms);
          let c = kernel.fresh s;
          (k, ks) \<leftarrow> init_kernel_stack (heap_ptr h c) (pm f);
          let (cxs, ks_top) = push_trap_cx ks (init_trap_cx (sstatus h) (hart_id x) en user_stack) (trap_cxs s);
          (a, r) \<leftarrow> alloc_pid (pids s);
          n \<leftarrow> r;
          t \<leftarrow> (case stdio h of (i, out, err) \<Rightarrow> init_fdtable i out err);
          let p = \<lparr>tgid = n, pid = n, kernel_stack = ks, vm = c + 1, fdt = c + 2, cwd = dir, ppid = 1, exit_code = 0, parent = None, child = [],
                   task_cx = init_task_cx (restore h) ks_top, status = Ready\<rparr>;
          Some ((s\<lparr>mem := k, pids := a, tasks := bt_insert c p (tasks s), vms := bt_insert (c + 1) ms (vms s), fdts := bt_insert (c + 2) t (fdts s),
                   trap_cxs := cxs, fresh := c + 3\<rparr>, f\<lparr>pm := k\<rparr>), c) })"

text \<open>The descriptors closed by \<open>execve\<close>; a file that no table has any more goes away.\<close>

definition in_tables :: "ofile kernel \<Rightarrow> ofile \<Rightarrow> bool" where
  "in_tables s f \<longleftrightarrow> (\<exists>(_, t) \<in> set (fdts s). f \<in> (fd_file \<circ> snd) ` set (fds t))"

definition drop_closed :: "ofile kernel \<Rightarrow> ofile list \<Rightarrow> 'd task_fs \<Rightarrow> 'd task_fs option" where
  "drop_closed s = foldM (\<lambda>g f. case g of OFile h \<Rightarrow> if in_tables s g \<or> files (vf f) h = None then Some f else close_temp h f | _ \<Rightarrow> Some f)"

definition from_exec ::
  "ofile hart \<Rightarrow> 'd outside \<Rightarrow> did option \<Rightarrow> task \<Rightarrow> u8 list \<Rightarrow> u8 list list \<Rightarrow> u8 list list \<Rightarrow> ofile kernel \<times> 'd task_fs \<times> random_generator \<Rightarrow>
   (ofile kernel \<times> 'd task_fs \<times> random_generator) option" where
  "from_exec h x locked t data argv envv st = (case st of (s, f, r) \<Rightarrow>
     do { p \<leftarrow> bt_get (tasks s) t;
          ms \<leftarrow> bt_get (vms s) (vm p);
          tb \<leftarrow> bt_get (fdts s) (fdt p);
          (ms, k) \<leftarrow> clear_user_space (ms, mem s);
          tb' \<leftarrow> close_exec tb;
          let s1 = s\<lparr>fdts := bt_insert (fdt p) tb' (fdts s)\<rparr>;
          f \<leftarrow> drop_closed s1 (map (fd_file \<circ> snd) (fds tb)) (f\<lparr>pm := k\<rparr>);
          ((f, ms), en, user_stack_top, info) \<leftarrow> load_elf (parser x) (ext4 x) (rd_sector x) (clock x) locked data argv envv (f, ms);
          _ \<leftarrow> ms_activate ms;
          ((_, _, lay), r, m) \<leftarrow> build_stack info user_stack_top (r, um f);
          let (cxs, kst) = push_trap_cx (kernel_stack p) (exec_trap_cx (sstatus h) (hart_id x) en user_stack_top lay) (trap_cxs s1);
          s2 \<leftarrow> upd_task t (\<lambda>p. p\<lparr>task_cx := init_task_cx (restore h) kst\<rparr>) (s1\<lparr>mem := pm f, vms := bt_insert (vm p) ms (vms s1), trap_cxs := cxs\<rparr>);
          Some (s2, f\<lparr>um := m\<rparr>, r) })"

section \<open>Execve\<close>

text \<open>The vectors of pointers in user memory end with a null pointer.\<close>

partial_function (option) c_strings :: "(usize \<Rightarrow> u8) \<Rightarrow> usize \<Rightarrow> u8 list list option" where
  "c_strings m a =
     (if read_word m a = 0 then Some []
      else do { s \<leftarrow> c_ptr_to_string m (read_word m a); ss \<leftarrow> c_strings m (a + 8); Some (string_bytes s # ss) })"

text \<open>
  \<^verbatim>\<open>read_all\<close> of an inode. \<open>rd_inode i n\<close> is the package's read of \<open>n\<close> bytes from the start of the file of inode \<open>i\<close>; what it does not fill of the
  buffer is zero. The inodes of the other file systems have none, nor has an ext4 inode that is not a regular file.
\<close>

definition inode_read_all :: "'d outside \<Rightarrow> did \<Rightarrow> 'd task_fs \<Rightarrow> u8 list os_result option" where
  "inode_read_all x d f =
     do { e \<leftarrow> dentries (vf f) d;
          i \<leftarrow> inodes (vf f) (d_inode e);
          rassert (d_kind e = Ext4Dentry \<and> i_mode i = Regular);
          let n = unat (i_size i);
          Some (case rd_inode x (i_ino i) n of Inl er \<Rightarrow> Inl er | Inr bs \<Rightarrow> Inr (resize n bs)) }"

definition ends_with :: "string \<Rightarrow> string \<Rightarrow> bool" where
  "ends_with suf s \<longleftrightarrow> length suf \<le> length s \<and> drop (length s - length suf) s = suf"

text \<open>The view of the running process: its descriptors, its working directory and the physical memory.\<close>

definition enter :: "ofile kernel \<Rightarrow> 'd task_fs \<Rightarrow> (task \<times> pcb \<times> 'd task_fs) option" where
  "enter s f =
     do { t \<leftarrow> cur s; p \<leftarrow> bt_get (tasks s) t; tb \<leftarrow> bt_get (fdts s) (fdt p);
          Some (t, p, f\<lparr>tbl := tb, task_fs.cwd := pcb.cwd p, pm := mem s\<rparr>) }"

definition sys_execve ::
  "ofile hart \<Rightarrow> 'd outside \<Rightarrow> usize \<Rightarrow> usize \<Rightarrow> usize \<Rightarrow> ofile kernel \<times> 'd task_fs \<times> random_generator \<Rightarrow>
   ((ofile kernel \<times> 'd task_fs \<times> random_generator) \<times> usize os_result) option" where
  "sys_execve h x path_ptr args_ptr envs_ptr st = (case st of (s, f, r) \<Rightarrow>
     do { (t, p, f) \<leftarrow> enter s f;
          (f, rp) \<leftarrow> user_path AT_FDCWD path_ptr f;
          (case rp of
             Inl er \<Rightarrow> Some ((s, f, r), Inl er)
           | Inr path \<Rightarrow>
               do { rassert (\<not> ends_with ''.sh'' path);
                    (f, rd) \<leftarrow> find_entry (ext4 x) (clock x) path f;
                    (case rd of
                       Inl er \<Rightarrow> Some ((s, f, r), Inl er)
                     | Inr d \<Rightarrow>
                         do { mode \<leftarrow> mode_of d f;
                              if mode \<noteq> Regular then Some ((s, f, r), Inl EACCES)
                              else
                                do { data \<leftarrow> inode_read_all x d f;
                                     argv \<leftarrow> c_strings (um f) args_ptr;
                                     envv \<leftarrow> c_strings (um f) envs_ptr;
                                     bs \<leftarrow> (case data of Inl _ \<Rightarrow> None | Inr bs \<Rightarrow> Some bs);
                                     st' \<leftarrow> from_exec h x (Some d) t bs argv envv (s, f, r);
                                     Some (st', Inr 0) } }) }) })"

section \<open>The first tasks\<close>

definition task_data :: "'d outside \<Rightarrow> string \<Rightarrow> 'd task_fs \<Rightarrow> ('d task_fs \<times> u8 list) option" where
  "task_data x path f =
     do { (v, r) \<leftarrow> path_to_dentry (ext4 x) (clock x) path (vf f);
          d \<leftarrow> r;
          let f = f\<lparr>vf := v\<rparr>;
          data \<leftarrow> inode_read_all x d f;
          (case data of Inl _ \<Rightarrow> None | Inr bs \<Rightarrow> Some (f, bs)) }"

definition init_origin_task :: "ofile hart \<Rightarrow> 'd outside \<Rightarrow> ofile kernel \<times> 'd task_fs \<Rightarrow> (ofile kernel \<times> 'd task_fs) option" where
  "init_origin_task h x st = (case st of (s, f) \<Rightarrow>
     do { (f, bs) \<leftarrow> task_data x ''/brk'' f;
          a \<leftarrow> init_pid_allocator;
          ((s, f), t) \<leftarrow> elf_data_to_pcb h x (parent_path ''/brk'') bs (s\<lparr>pids := a\<rparr>, f);
          Some (s\<lparr>origin := Some t, task_queue := task_queue s @ [t]\<rparr>, f) })"

definition init_task_and_push :: "ofile hart \<Rightarrow> 'd outside \<Rightarrow> string \<Rightarrow> ofile kernel \<times> 'd task_fs \<Rightarrow> (ofile kernel \<times> 'd task_fs) option" where
  "init_task_and_push h x elf_name st = (case st of (s, f) \<Rightarrow>
     do { let path = ''/'' @ elf_name;
          (f, bs) \<leftarrow> task_data x path f;
          ((s, f), t) \<leftarrow> elf_data_to_pcb h x (parent_path path) bs (s, f);
          Some (s\<lparr>task_queue := task_queue s @ [t]\<rparr>, f) })"

definition PRELIMINARY_TESTCASES :: "string list" where
  "PRELIMINARY_TESTCASES = [''brk'', ''umount'', ''mount'', ''mmap'', ''openat'', ''chdir'', ''clone'', ''close'', ''dup'', ''dup2'', ''execve'', ''exit'',
     ''fork'', ''fstat'', ''getcwd'', ''getdents'', ''getpid'', ''getppid'', ''gettimeofday'', ''mkdir_'', ''munmap'', ''open'', ''pipe'', ''read'', ''sleep'',
     ''times'', ''uname'', ''unlink'', ''wait'', ''waitpid'', ''write'', ''yield'']"

definition init_testcase :: "string list" where
  "init_testcase = map (\<lambda>i. PRELIMINARY_TESTCASES ! i) [1..<length PRELIMINARY_TESTCASES]"

text \<open>
  The end of a turn of \<^verbatim>\<open>run_task\<close>, in the build for the tests: an empty queue gets the last program of the list, and an empty list
  stops the machine (\<^term>\<open>Inl ()\<close>).
\<close>

definition next_testcase ::
  "ofile hart \<Rightarrow> 'd outside \<Rightarrow> string list \<times> ofile kernel \<times> 'd task_fs \<Rightarrow> (unit + string list \<times> ofile kernel \<times> 'd task_fs) option" where
  "next_testcase h x st = (case st of (tests, s, f) \<Rightarrow>
     if task_queue s \<noteq> [] then Some (Inr st)
     else if tests = [] then Some (Inl ())
     else do { (s, f) \<leftarrow> init_task_and_push h x (List.last tests) (s, f); Some (Inr (butlast tests, s, f)) })"

end
