(* ===== verification/Loader_Image.thy ===== *)
theory Loader_Image
  imports Loader
begin

text \<open>
  The image of a loaded program: the bytes that user addresses lead to through the page table are those of the file, zero behind
  them, and the segments loaded before keep theirs.
\<close>

section \<open>Writing to the pages of an area\<close>

lemma page_write_anon:
  assumes "store_wf k" "pages k h = Some (p, n)" "disk_file p = None" "off < PAGE_BYTES" "off + length bs \<le> PAGE_BYTES"
  shows "page_write rd h off bs k = Some (k\<lparr>phys := (phys k)(h := set_bytes off bs (phys k h))\<rparr>)"
proof -
  have "byte_array (ppn_to_phys h) = Some h" using store_wfD(2) [OF assms(1,2)] by (rule byte_array_ppn)
  then show ?thesis using assms(2-5) by (simp add: page_write_def min_absorb1)
qed

text \<open>The pages of an area that come from no file.\<close>

definition anon_pages :: "vma \<Rightarrow> pmem \<Rightarrow> bool" where
  "anon_pages v k \<longleftrightarrow> (\<forall>w h. page_at v w = Some h \<longrightarrow> (\<exists>p n. pages k h = Some (p, n) \<and> disk_file p = None))"

text \<open>\<open>wrote v A bs f g\<close>: in the pages of the area the bytes from address \<open>A\<close> on are \<open>bs\<close> and the others are those of \<open>f\<close>.\<close>

definition wrote :: "vma \<Rightarrow> nat \<Rightarrow> u8 list \<Rightarrow> (usize \<Rightarrow> page_idx \<Rightarrow> u64) \<Rightarrow> (usize \<Rightarrow> page_idx \<Rightarrow> u64) \<Rightarrow> bool" where
  "wrote v A bs f g \<longleftrightarrow>
     (\<forall>h. h \<notin> ran (page_at v) \<longrightarrow> g h = f h) \<and>
     (\<forall>w h m. page_at v w = Some h \<longrightarrow> m < 4096 \<longrightarrow>
        get_byte (g h) m =
          (let a = 4096 * unat w + m in if A \<le> a \<and> a < A + length bs then bs ! (a - A) else get_byte (f h) m))"

lemma store_wf_phys [simp]: "store_wf (k\<lparr>phys := f\<rparr>) = store_wf k"
  by (simp add: store_wf_def frames_wf_def free_frames_def)

lemma wrote_step:
  assumes own: "vma_own v k" and w: "page_at v w = Some h" and off: "off < 4096" "off + length bs \<le> 4096"
  shows "wrote v (4096 * unat w + off) bs f (f(h := set_bytes off bs (f h)))"
  unfolding wrote_def
proof (intro conjI allI impI)
  fix h' assume "h' \<notin> ran (page_at v)"
  then have "h' \<noteq> h" using w by (auto simp: ran_def)
  then show "(f(h := set_bytes off bs (f h))) h' = f h'" by simp
next
  fix w' h' m assume w': "page_at v w' = Some h'" and m: "m < (4096 :: nat)"
  show "get_byte ((f(h := set_bytes off bs (f h))) h') m =
    (let a = 4096 * unat w' + m in if 4096 * unat w + off \<le> a \<and> a < 4096 * unat w + off + length bs then bs ! (a - (4096 * unat w + off)) else get_byte (f h') m)"
  proof (cases "w' = w")
    case True
    then have "h' = h" using w w' by simp
    then show ?thesis using get_set_bytes [of off bs m "f h"] off m True by (auto simp: PAGE_BYTES_def Let_def)
  next
    case False
    then have "h' \<noteq> h" using vma_ownD(3) [OF own, of w h w'] w w' by auto
    have "unat w' \<noteq> unat w" using False by (simp add: word_unat_eq_iff)
    then have "unat w' < unat w \<or> unat w < unat w'" by linarith
    then have "\<not> (4096 * unat w + off \<le> 4096 * unat w' + m \<and> 4096 * unat w' + m < 4096 * unat w + off + length bs)" using off m by linarith
    then show ?thesis using \<open>h' \<noteq> h\<close> by (auto simp: Let_def)
  qed
qed

lemma wrote_trans:
  assumes "wrote v A bs f g" "wrote v (A + length bs) cs g h"
  shows "wrote v A (bs @ cs) f h"
  unfolding wrote_def
proof (intro conjI allI impI)
  fix x assume "x \<notin> ran (page_at v)"
  then show "h x = f x" using assms unfolding wrote_def by metis
next
  fix w x m assume "page_at v w = Some x" "m < (4096 :: nat)"
  then have "get_byte (g x) m = (let a = 4096 * unat w + m in if A \<le> a \<and> a < A + length bs then bs ! (a - A) else get_byte (f x) m)"
    "get_byte (h x) m = (let a = 4096 * unat w + m in if A + length bs \<le> a \<and> a < A + length bs + length cs then cs ! (a - (A + length bs)) else get_byte (g x) m)"
    using assms unfolding wrote_def by blast+
  then show "get_byte (h x) m = (let a = 4096 * unat w + m in if A \<le> a \<and> a < A + length (bs @ cs) then (bs @ cs) ! (a - A) else get_byte (f x) m)"
    by (auto simp: Let_def nth_append)
qed

lemma vma_write_loop_spec:
  assumes "store_wf k" "vma_own v k" "anon_pages v k" "unat va = 4096 * W" "off < 4096" "4096 * W + off + length data - start \<le> 0xfffff000"
    "start \<le> length data" "length data - start < fuel"
    "\<forall>w. W \<le> unat w \<and> (unat w = W \<or> 4096 * unat w < 4096 * W + off + (length data - start)) \<longrightarrow> page_at v w \<noteq> None"
  shows "\<exists>g. vma_write_loop fuel rd v data start va off k = Some (k\<lparr>phys := g\<rparr>) \<and> wrote v (4096 * W + off) (drop start data) (phys k) g"
  using assms
proof (induction fuel arbitrary: k start va off W)
  case 0
  then show ?case by simp
next
  case (Suc fuel)
  let ?e = "min (length data) (start + PAGE_BYTES - off)" and ?s = "start + (PAGE_BYTES - off)"
  let ?bs = "take (?e - start) (drop start data)"
  have low: "unat va < 2 ^ 32" using Suc.prems(4,6,7) by simp
  have vpn: "virt_to_vpn va = Some (vpn_of va)" "unat (vpn_of va) = W" using virt_to_vpn_low [OF low] Suc.prems(4) by (simp_all add: unat_drop_12)
  obtain h where h: "page_at v (vpn_of va) = Some h" using Suc.prems(9) vpn(2) by auto
  obtain p n where p: "pages k h = Some (p, n)" "disk_file p = None" using Suc.prems(3) h unfolding anon_pages_def by blast
  have len: "length ?bs = min (length data - start) (4096 - off)" using Suc.prems(5,7) by (auto simp: PAGE_BYTES_def min_def)
  then have bs: "off + length ?bs \<le> 4096" using Suc.prems(5) by simp
  let ?f = "(phys k)(h := set_bytes off ?bs (phys k h))"
  have wr: "pma_write_data rd (vpn_of va) ?bs off (pma v) k = Some (k\<lparr>phys := ?f\<rparr>)"
    using page_write_anon [OF Suc.prems(1) p, of off ?bs rd] bs Suc.prems(5) h by (simp add: pma_write_data_def PAGE_BYTES_def add.commute)
  have w1: "wrote v (4096 * W + off) ?bs (phys k) ?f" using wrote_step [OF Suc.prems(2) h Suc.prems(5) bs, of "phys k"] vpn(2) by simp
  have step: "vma_write_loop (Suc fuel) rd v data start va off k =
      (if length data \<le> ?s then Some (k\<lparr>phys := ?f\<rparr>) else vma_write_loop fuel rd v data ?s (va + PAGE_SIZE) 0 (k\<lparr>phys := ?f\<rparr>))"
    using wr vpn(1) Suc.prems(5) by (simp add: PAGE_BYTES_def Let_def)
  show ?case
  proof (cases "length data \<le> ?s")
    case True
    then have "?bs = drop start data" using Suc.prems(5) by (simp add: PAGE_BYTES_def)
    then show ?thesis using step True w1 by auto
  next
    case False
    have lb: "length ?bs = 4096 - off" using False len by (simp add: PAGE_BYTES_def)
    have uva: "unat (va + PAGE_SIZE) = 4096 * (W + 1)"
      using Suc.prems(4) low by (simp add: unat_plus_if' PAGE_SIZE_def)
    have own: "vma_own v (k\<lparr>phys := ?f\<rparr>)" "anon_pages v (k\<lparr>phys := ?f\<rparr>)" using Suc.prems(2,3) by (simp_all add: vma_own_def anon_pages_def)
    have pg: "\<forall>w. W + 1 \<le> unat w \<and> (unat w = W + 1 \<or> 4096 * unat w < 4096 * (W + 1) + 0 + (length data - ?s)) \<longrightarrow> page_at v w \<noteq> None"
    proof (intro allI impI)
      fix w :: usize assume w: "W + 1 \<le> unat w \<and> (unat w = W + 1 \<or> 4096 * unat w < 4096 * (W + 1) + 0 + (length data - ?s))"
      have "4096 * unat w < 4096 * W + off + (length data - start)" using w False Suc.prems(5) by (auto simp: PAGE_BYTES_def)
      then show "page_at v w \<noteq> None" using Suc.prems(9) w by simp
    qed
    have b: "4096 * (W + 1) + 0 + length data - ?s \<le> 0xfffff000" "?s \<le> length data" "length data - ?s < fuel"
      using Suc.prems(5,6,7,8) False by (auto simp: PAGE_BYTES_def)
    have swf: "store_wf (k\<lparr>phys := ?f\<rparr>)" using Suc.prems(1) by simp
    have z: "(0 :: nat) < 4096" by simp
    obtain g where g0: "vma_write_loop fuel rd v data ?s (va + PAGE_SIZE) 0 (k\<lparr>phys := ?f\<rparr>) = Some (k\<lparr>phys := ?f\<rparr>\<lparr>phys := g\<rparr>)"
      "wrote v (4096 * (W + 1) + 0) (drop ?s data) (phys (k\<lparr>phys := ?f\<rparr>)) g"
      using Suc.IH [OF swf own uva z b pg] by blast
    have ph: "phys (k\<lparr>phys := ?f\<rparr>) = ?f" "k\<lparr>phys := ?f\<rparr>\<lparr>phys := g\<rparr> = k\<lparr>phys := g\<rparr>" by simp_all
    note g = g0 [unfolded ph]
    have A: "4096 * (W + 1) + 0 = 4096 * W + off + length ?bs" using lb Suc.prems(5) by simp
    have "?bs @ drop ?s data = drop start data"
    proof -
      have "?e - start = 4096 - off" using False by (simp add: PAGE_BYTES_def)
      moreover have "drop ?s data = drop (4096 - off) (drop start data)" by (simp add: PAGE_BYTES_def add.commute)
      ultimately show ?thesis by (metis append_take_drop_id)
    qed
    then have "wrote v (4096 * W + off) (drop start data) (phys k) g" using wrote_trans [OF w1, of "drop ?s data" g] g(2) unfolding A by simp
    then show ?thesis using step False g(1) by auto
  qed
qed

section \<open>What a user address leads to\<close>

definition user_byte :: "pmem \<Rightarrow> page_table \<Rightarrow> usize \<Rightarrow> u8 option" where
  "user_byte k pt a =
     do { pte \<leftarrow> pt_view k pt (vpn_of a); _ \<leftarrow> pages k (pte_ppn pte); Some (get_byte (phys k (pte_ppn pte)) (unat a mod 4096)) }"

lemma get_byte_zero [simp]: "get_byte (\<lambda>_. 0) m = 0"
  by (rule bit_word_eqI) (simp add: bit_get_byte)

lemma pte_flags_ok_map: "pte_flags_ok (pte_flags_of_map p OR PTE_A OR PTE_D OR PTE_V)"
  by (intro pte_flags_ok_or) (simp_all add: pte_flags_of_map_def pte_flags_ok_def pte_flag_defs add_if_def)

lemma pte_ppn_mapped: "frame_ppn h \<Longrightarrow> pte_ppn (pte_new h (pte_flags_of_map p OR PTE_A OR PTE_D OR PTE_V)) = h"
  by (rule pte_ppn_new) (simp_all add: frame_ppn_def pte_flags_ok_map)

text \<open>Writing to pages changes no table.\<close>

lemma st_wf_phys:
  assumes "st_wf (k, pt)" "\<forall>h. pages k h = None \<longrightarrow> g h = phys k h"
  shows "st_wf (k\<lparr>phys := g\<rparr>, pt)" "pt_view (k\<lparr>phys := g\<rparr>) pt = pt_view k pt"
proof -
  note w = st_wfD [OF assms(1)]
  have same: "phys (k\<lparr>phys := g\<rparr>) p = phys k p" if "p \<in> pt_tables k pt" for p
    using assms(2) w(4) [of p] that by (cases "pages k p") auto
  note c = pt_cong [of k pt "k\<lparr>phys := g\<rparr>", OF same]
  show "pt_view (k\<lparr>phys := g\<rparr>) pt = pt_view k pt" by (rule c(1))
  have "free_frames (k\<lparr>phys := g\<rparr>) = free_frames k" by (simp add: free_frames_def)
  moreover have "free_frames k \<inter> (pt_tables k pt \<union> set (frames pt)) = {}" using tables_in_use [OF w(3)] pt_wfD(7) [OF w(3)] by blast
  ultimately have "pt_wf (k\<lparr>phys := g\<rparr>) pt" using c(3) w(3) by simp
  then show "st_wf (k\<lparr>phys := g\<rparr>, pt)" using w(1,4,5) c(2) unfolding st_wf_def by auto
qed

lemma user_byte_mapped:
  assumes "pt_view k pt (vpn_of a) = Some (pte_new h (pte_flags_of_map p OR PTE_A OR PTE_D OR PTE_V))" "store_wf k" "pages k h \<noteq> None"
  shows "user_byte k pt a = Some (get_byte (phys k h) (unat a mod 4096))"
proof -
  have "frame_ppn h" using store_wfD(2) [OF assms(2)] assms(3) by blast
  then show ?thesis using assms(1,3) by (auto simp: user_byte_def pte_ppn_mapped)
qed

lemma user_byte_kept:
  assumes b: "user_byte k pt a = Some b" and view: "pt_view k' pt' (vpn_of a) = pt_view k pt (vpn_of a)"
    and keep: "\<forall>p. pages k p \<noteq> None \<longrightarrow> pages k' p = pages k p \<and> phys k' p = phys k p"
  shows "user_byte k' pt' a = Some b"
proof -
  obtain pte where pte: "pt_view k pt (vpn_of a) = Some pte" "pages k (pte_ppn pte) \<noteq> None" "b = get_byte (phys k (pte_ppn pte)) (unat a mod 4096)"
    using b by (auto simp: user_byte_def split: bind_splits)
  have "pages k' (pte_ppn pte) = pages k (pte_ppn pte)" "phys k' (pte_ppn pte) = phys k (pte_ppn pte)" using keep pte(2) by blast+
  then show ?thesis using pte view by (auto simp: user_byte_def)
qed

section \<open>Pushing an area with data\<close>

text \<open>An area that is not empty, below 4 GiB, with pages none of which is mapped, and room for them.\<close>

definition new_pages :: "vma \<Rightarrow> usize list" where
  "new_pages v = vpns (vpn_of (start_vaddr v)) (vpn_of (end_vaddr v))"

definition push_ok :: "vma \<Rightarrow> memory_set \<times> pmem \<Rightarrow> bool" where
  "push_ok v s \<longleftrightarrow> map_type v = Framed \<and> pma v = pma_new \<and> aligned (start_vaddr v) \<and> aligned (end_vaddr v) \<and>
     start_vaddr v < end_vaddr v \<and> unat (end_vaddr v) \<le> 0xfffff000 \<and>
     (\<forall>w \<in> set (new_pages v). pt_view (snd s) (mpt (fst s)) w = None) \<and> 3 * length (new_pages v) \<le> card (free_frames (snd s)) \<and>
     bt_get (areas (fst s)) (start_vaddr v) = None"

text \<open>What the push leaves: the new area with its bytes, and everything else as it was.\<close>

definition pushed :: "vma \<Rightarrow> nat \<Rightarrow> u8 list \<Rightarrow> memory_set \<times> pmem \<Rightarrow> memory_set \<times> pmem \<Rightarrow> bool" where
  "pushed v off d s s' \<longleftrightarrow> st_wf (snd s', mpt (fst s')) \<and> heap_end (fst s') = heap_end (fst s) \<and> cow (fst s') = cow (fst s) \<and>
     (\<exists>v'. same_area v v' \<and> areas (fst s') = bt_insert (start_vaddr v) v' (areas (fst s))) \<and>
     card (free_frames (snd s)) \<le> card (free_frames (snd s')) + 3 * length (new_pages v) \<and>
     (\<forall>w. vpn_ok w \<longrightarrow> w \<notin> set (new_pages v) \<longrightarrow> pt_view (snd s') (mpt (fst s')) w = pt_view (snd s) (mpt (fst s)) w) \<and>
     (\<forall>a b. unat a < 2 ^ 32 \<longrightarrow> user_byte (snd s) (mpt (fst s)) a = Some b \<longrightarrow> user_byte (snd s') (mpt (fst s')) a = Some b) \<and>
     (\<forall>a. start_vaddr v \<le> a \<and> a < end_vaddr v \<longrightarrow> user_byte (snd s') (mpt (fst s')) a =
        Some (let i = unat a - unat (start_vaddr v) in if off \<le> i \<and> i < off + length d then d ! (i - off) else 0))"

lemma in_new_pages:
  assumes "aligned (start_vaddr v)" "aligned (end_vaddr v)"
  shows "vpn_of a \<in> set (new_pages v) \<longleftrightarrow> start_vaddr v \<le> a \<and> a < end_vaddr v"
proof -
  obtain p q where pq: "unat (start_vaddr v) = 4096 * p" "unat (end_vaddr v) = 4096 * q" using assms unfolding unat_aligned by (metis mod_0_imp_dvd dvdE)
  have "p \<le> unat a div 4096 \<longleftrightarrow> 4096 * p \<le> unat a" "unat a div 4096 < q \<longleftrightarrow> unat a < 4096 * q" by linarith+
  then show ?thesis by (simp add: new_pages_def set_vpns word_le_nat_alt word_less_nat_alt unat_drop_12 pq)
qed

lemma new_pages_ok:
  assumes "push_ok v s" "w \<in> set (new_pages v)"
  shows "vpn_ok w"
proof -
  have "unat (end_vaddr v) < 2 ^ 32" using assms(1) by (simp add: push_ok_def)
  then show ?thesis using vpns_ok assms(2) unfolding new_pages_def by blast
qed

lemma push_range:
  assumes "push_ok v s"
  shows "vma_range v = Some (new_pages v)"
proof -
  have "unat (start_vaddr v) < 2 ^ 32" "unat (end_vaddr v) < 2 ^ 32"
    using assms by (simp_all add: push_ok_def word_less_nat_alt)
  then show ?thesis unfolding vma_range_def new_pages_def using virt_to_vpn_low by simp
qed

text \<open>The pages of the area after it is mapped: fresh, anonymous and zero.\<close>

lemma mapped_pages:
  assumes u: "mapped_upto v (k, mpt ms) (new_pages v) (v1, k1, pt1)"
  shows "w \<in> set (new_pages v) \<Longrightarrow> \<exists>h. page_at v1 w = Some h \<and> pages k h = None \<and> phys k1 h = (\<lambda>_. 0) \<and>
      (\<exists>p. pages k1 h = Some (p, 1) \<and> disk_file p = None) \<and>
      pt_view k1 pt1 w = Some (pte_new h (pte_flags_of_map (map_permission v) OR PTE_A OR PTE_D OR PTE_V))"
    and "h \<in> ran (page_at v1) \<Longrightarrow> pages k h = None" and "anon_pages v1 k1"
proof -
  note u' = u [unfolded mapped_upto_def prod.case fst_conv snd_conv]
  have dom: "dom (page_at v1) = set (new_pages v)" using u' by blast
  have pg: "\<exists>h. page_at v1 w = Some h \<and> pages k h = None \<and> phys k1 h = (\<lambda>_. 0) \<and>
      (\<exists>p. pages k1 h = Some (p, 1) \<and> disk_file p = None) \<and>
      pt_view k1 pt1 w = Some (pte_new h (pte_flags_of_map (map_permission v) OR PTE_A OR PTE_D OR PTE_V))" if w: "w \<in> set (new_pages v)" for w
  proof -
    obtain h where "page_at v1 w = Some h" "pages k h = None" "phys k1 h = (\<lambda>_. 0)"
      "pages k1 h = Some (\<lparr>permission = page_permission_of_map (map_permission v), disk_file = None, cow_count = 0\<rparr>, 1)"
      "pt_view k1 pt1 w = Some (pte_new h (pte_flags_of_map (map_permission v) OR PTE_A OR PTE_D OR PTE_V))" using u' w by blast
    then show ?thesis by (intro exI [of _ h] conjI exI) (assumption | simp)+
  qed
  then show "w \<in> set (new_pages v) \<Longrightarrow> \<exists>h. page_at v1 w = Some h \<and> pages k h = None \<and> phys k1 h = (\<lambda>_. 0) \<and>
      (\<exists>p. pages k1 h = Some (p, 1) \<and> disk_file p = None) \<and>
      pt_view k1 pt1 w = Some (pte_new h (pte_flags_of_map (map_permission v) OR PTE_A OR PTE_D OR PTE_V))" .
  show "pages k h = None" if h: "h \<in> ran (page_at v1)"
  proof -
    obtain w where w: "page_at v1 w = Some h" using h by (auto simp: ran_def)
    then have "w \<in> set (new_pages v)" using dom by blast
    then show ?thesis using pg w by fastforce
  qed
  show "anon_pages v1 k1" unfolding anon_pages_def
  proof (intro allI impI)
    fix w h assume w: "page_at v1 w = Some h"
    then have "w \<in> set (new_pages v)" using dom by blast
    then show "\<exists>p n. pages k1 h = Some (p, n) \<and> disk_file p = None" using pg [of w] w by auto
  qed
qed

lemma pushed_intro:
  assumes ok: "push_ok v (ms, k)" and u: "mapped_upto v (k, mpt ms) (new_pages v) (v1, k1, pt1)"
    and g: "wrote v1 (unat (start_vaddr v) + off) d (phys k1) g"
  shows "pushed v off d (ms, k) (ms\<lparr>mpt := pt1, areas := bt_insert (start_vaddr v) v1 (areas ms)\<rparr>, k1\<lparr>phys := g\<rparr>)"
proof -
  let ?k = "k1\<lparr>phys := g\<rparr>" and ?ms = "ms\<lparr>mpt := pt1, areas := bt_insert (start_vaddr v) v1 (areas ms)\<rparr>"
  note o = ok [unfolded push_ok_def fst_conv snd_conv] and u' = u [unfolded mapped_upto_def prod.case fst_conv snd_conv] and mp = mapped_pages [OF u]
  have wf1: "st_wf (k1, pt1)" and own: "vma_own v1 k1" and sa: "same_area v v1" using u' by blast+
  have out: "\<forall>h. pages k1 h = None \<longrightarrow> g h = phys k1 h"
    using g vma_ownD(2) [OF own] unfolding wrote_def ran_def by blast
  note ph = st_wf_phys [OF wf1 out]
  have keep: "\<forall>p. pages k p \<noteq> None \<longrightarrow> pages ?k p = pages k p \<and> phys ?k p = phys k p"
  proof (intro allI impI)
    fix p assume p: "pages k p \<noteq> None"
    then have "p \<notin> ran (page_at v1)" using mp(2) [of p] by auto
    then have "g p = phys k1 p" using g unfolding wrote_def by blast
    moreover have "pages k1 p = pages k p" "phys k1 p = phys k p" using u' p by blast+
    ultimately show "pages ?k p = pages k p \<and> phys ?k p = phys k p" by simp
  qed
  have view: "pt_view ?k pt1 w = pt_view k (mpt ms) w" if "vpn_ok w" "w \<notin> set (new_pages v)" for w using u' that ph(2) by simp
  have old: "user_byte ?k pt1 a = Some b" if a: "unat a < 2 ^ 32" "user_byte k (mpt ms) a = Some b" for a b
  proof (rule user_byte_kept [OF a(2) view keep])
    show "vpn_ok (vpn_of a)" by (rule user_va_vpn_ok [OF low_user_va [OF a(1)]])
    show "vpn_of a \<notin> set (new_pages v)" using o a(2) by (auto simp: user_byte_def)
  qed
  have new: "user_byte ?k pt1 a = Some (let i = unat a - unat (start_vaddr v) in if off \<le> i \<and> i < off + length d then d ! (i - off) else 0)"
    if a: "start_vaddr v \<le> a \<and> a < end_vaddr v" for a
  proof -
    have w: "vpn_of a \<in> set (new_pages v)" using in_new_pages [of v a] o a by blast
    obtain h where h: "page_at v1 (vpn_of a) = Some h" "phys k1 h = (\<lambda>_. 0)" "pages k1 h \<noteq> None"
      "pt_view k1 pt1 (vpn_of a) = Some (pte_new h (pte_flags_of_map (map_permission v) OR PTE_A OR PTE_D OR PTE_V))" using mp(1) [OF w] by auto
    have "user_byte ?k pt1 a = Some (get_byte (phys ?k h) (unat a mod 4096))"
      using h ph st_wfD(1) [OF wf1] by (intro user_byte_mapped) simp_all
    moreover have "4096 * unat (vpn_of a) + unat a mod 4096 = unat a" by (simp add: unat_drop_12)
    then have "get_byte (g h) (unat a mod 4096) =
        (if unat (start_vaddr v) + off \<le> unat a \<and> unat a < unat (start_vaddr v) + off + length d then d ! (unat a - (unat (start_vaddr v) + off)) else 0)"
      using g h(1,2) unfolding wrote_def by (simp add: Let_def)
    ultimately show ?thesis using a by (auto simp: Let_def word_le_nat_alt)
  qed
  show ?thesis unfolding pushed_def fst_conv snd_conv using ph(1) sa u' view old new by (auto simp: free_frames_def)
qed

lemma ms_push_mapped:
  assumes wf: "st_wf (k, mpt ms)" and ok: "push_ok v (ms, k)"
  shows "\<exists>v1 k1 pt1. map_self_all v (k, mpt ms) = Some (v1, k1, pt1) \<and> mapped_upto v (k, mpt ms) (new_pages v) (v1, k1, pt1)"
proof -
  note o = ok [unfolded push_ok_def fst_conv snd_conv]
  have free: "\<forall>w \<in> set (new_pages v). vpn_ok w \<and> view (k, mpt ms) w = None" using new_pages_ok [OF ok] o by simp
  have room: "3 * length (new_pages v) \<le> card (free_frames (fst (k, mpt ms)))" using o by simp
  show ?thesis using map_self_all_upto [OF wf _ _ push_range [OF ok] free room] o by auto
qed

lemma push_inserts:
  assumes ok: "push_ok v (ms, k)" and u: "mapped_upto v (k, mpt ms) (new_pages v) (v1, k1, pt1)"
  shows "push_no_map v1 (ms\<lparr>mpt := pt1\<rparr>, k2) = Some (ms\<lparr>mpt := pt1, areas := bt_insert (start_vaddr v) v1 (areas ms)\<rparr>, k2)"
proof -
  have sa: "same_area v v1" using u by (simp add: mapped_upto_def)
  have "bt_get (areas ms) (start_vaddr v1) = None" using ok same_areaD(1) [OF sa] by (simp add: push_ok_def)
  then show ?thesis using same_areaD(1) [OF sa] by (simp add: push_no_map_def insert_raw_def)
qed

lemma ms_push_data:
  assumes wf: "st_wf (k, mpt ms)" and ok: "push_ok v (ms, k)" and off: "off < 4096" "off + length d \<le> unat (end_vaddr v) - unat (start_vaddr v)"
  shows "\<exists>s'. ms_push rd v (Some d) off (ms, k) = Some s' \<and> pushed v off d (ms, k) s'"
proof -
  note o = ok [unfolded push_ok_def fst_conv snd_conv]
  obtain v1 k1 pt1 where m: "map_self_all v (k, mpt ms) = Some (v1, k1, pt1)" and u: "mapped_upto v (k, mpt ms) (new_pages v) (v1, k1, pt1)"
    using ms_push_mapped [OF wf ok] by blast
  note u' = u [unfolded mapped_upto_def prod.case fst_conv snd_conv]
  have wf1: "st_wf (k1, pt1)" and own: "vma_own v1 k1" and sa: "same_area v v1" and dom: "dom (page_at v1) = set (new_pages v)" using u' by blast+
  obtain W where W: "unat (start_vaddr v) = 4096 * W" using o by (auto simp: unat_aligned)
  have e: "4096 * W < unat (end_vaddr v)" "unat (end_vaddr v) \<le> 0xfffff000" using o W by (simp_all add: word_less_nat_alt)
  have bound: "4096 * W + off + length d - 0 \<le> 0xfffff000" using off(2) W e by linarith
  have need: "\<forall>w. W \<le> unat w \<and> (unat w = W \<or> 4096 * unat w < 4096 * W + off + (length d - 0)) \<longrightarrow> page_at v1 w \<noteq> None"
  proof (intro allI impI)
    fix w :: usize assume w: "W \<le> unat w \<and> (unat w = W \<or> 4096 * unat w < 4096 * W + off + (length d - 0))"
    have "4096 * unat w < unat (end_vaddr v)" using w W off(2) o by (auto simp: word_less_nat_alt)
    moreover obtain q where "unat (end_vaddr v) = 4096 * q" using o unfolding unat_aligned by (metis mod_0_imp_dvd dvdE)
    ultimately have "unat w < unat (end_vaddr v) div 4096" by simp
    then have "w \<in> set (new_pages v)" using w W by (simp add: new_pages_def set_vpns word_le_nat_alt word_less_nat_alt unat_drop_12)
    then show "page_at v1 w \<noteq> None" using dom by blast
  qed
  have sv1: "unat (start_vaddr v1) = 4096 * W" using same_areaD(1) [OF sa] W by simp
  obtain g where g: "vma_write_data rd (start_vaddr v1) d off v1 k1 = Some (k1\<lparr>phys := g\<rparr>)" "wrote v1 (unat (start_vaddr v) + off) d (phys k1) g"
    using vma_write_loop_spec [OF st_wfD(1) [OF wf1] own mapped_pages(3) [OF u] sv1 off(1) bound _ _ need, of "length d + 2" rd]
    by (auto simp: vma_write_data_def W)
  have "ms_push rd v (Some d) off (ms, k) = push_no_map v1 (ms\<lparr>mpt := pt1\<rparr>, k1\<lparr>phys := g\<rparr>)"
    unfolding ms_push_def prod.case m option.case Option.bind.bind_lunit g(1) by simp
  then show ?thesis using pushed_intro [OF ok u g(2)] push_inserts [OF ok u] by simp
qed

lemma ms_push_empty:
  assumes wf: "st_wf (k, mpt ms)" and ok: "push_ok v (ms, k)"
  shows "\<exists>s'. ms_push rd v None off (ms, k) = Some s' \<and> pushed v 0 [] (ms, k) s'"
proof -
  obtain v1 k1 pt1 where m: "map_self_all v (k, mpt ms) = Some (v1, k1, pt1)" and u: "mapped_upto v (k, mpt ms) (new_pages v) (v1, k1, pt1)"
    using ms_push_mapped [OF wf ok] by blast
  have "wrote v1 (unat (start_vaddr v) + 0) [] (phys k1) (phys k1)" by (auto simp: wrote_def Let_def)
  note p = pushed_intro [OF ok u this]
  have "k1\<lparr>phys := phys k1\<rparr> = k1" by simp
  moreover have "ms_push rd v None off (ms, k) = push_no_map v1 (ms\<lparr>mpt := pt1\<rparr>, k1)"
    unfolding ms_push_def prod.case m option.case Option.bind.bind_lunit by simp
  ultimately show ?thesis using p push_inserts [OF ok u] by simp
qed

section \<open>Segments\<close>

abbreviation is_load :: "program_header \<Rightarrow> bool" where "is_load ph \<equiv> ph_type ph = PtLoad"

text \<open>A segment that is not empty, below the stack, and whose bytes are in the file.\<close>

definition seg_ok :: "elf_file \<Rightarrow> program_header \<Rightarrow> bool" where
  "seg_ok elf ph \<longleftrightarrow> 0 < unat (ph_mem_size ph) \<and> unat (ph_file_size ph) \<le> unat (ph_mem_size ph) \<and>
     unat (ph_vaddr ph) + unat (ph_mem_size ph) \<le> 0xff7fe000 \<and>
     unat (ph_offset ph) + unat (ph_file_size ph) \<le> length (elf_input elf) \<and> length (elf_input elf) < 2 ^ 64"

definition seg_vma :: "program_header \<Rightarrow> vma" where
  "seg_vma ph = \<lparr>pma = pma_new, start_vaddr = push_bit 12 (drop_bit 12 (ph_vaddr ph)),
     end_vaddr = push_bit 12 (drop_bit 12 (ph_vaddr ph + ph_mem_size ph + 0xfff)), map_permission = ph_permission ph, vma_type = Elf, map_type = Framed,
     page_fault_handler = None\<rparr>"

definition seg_data :: "elf_file \<Rightarrow> program_header \<Rightarrow> u8 list" where
  "seg_data elf ph = take (unat (ph_file_size ph)) (drop (unat (ph_offset ph)) (elf_input elf))"

lemma seg_bounds:
  assumes "seg_ok elf ph"
  shows "user_va (ph_vaddr ph)" "user_va (ph_vaddr ph + ph_mem_size ph)"
    "unat (start_vaddr (seg_vma ph)) = unat (ph_vaddr ph) div 4096 * 4096"
    "unat (end_vaddr (seg_vma ph)) = (unat (ph_vaddr ph) + unat (ph_mem_size ph) + 4095) div 4096 * 4096"
    "unat (ph_vaddr ph + ph_mem_size ph) = unat (ph_vaddr ph) + unat (ph_mem_size ph)"
    "unat (ph_offset ph + ph_file_size ph) = unat (ph_offset ph) + unat (ph_file_size ph)"
proof -
  note o = assms [unfolded seg_ok_def]
  show e: "unat (ph_vaddr ph + ph_mem_size ph) = unat (ph_vaddr ph) + unat (ph_mem_size ph)" using o by (simp add: unat_plus_if')
  show "unat (ph_offset ph + ph_file_size ph) = unat (ph_offset ph) + unat (ph_file_size ph)" using o by (simp add: unat_plus_if')
  show "user_va (ph_vaddr ph)" using o by (intro low_user_va) simp
  show u: "user_va (ph_vaddr ph + ph_mem_size ph)" using o e by (intro low_user_va) simp
  show "unat (start_vaddr (seg_vma ph)) = unat (ph_vaddr ph) div 4096 * 4096" by (simp add: seg_vma_def unat_push_drop_12)
  show "unat (end_vaddr (seg_vma ph)) = (unat (ph_vaddr ph) + unat (ph_mem_size ph) + 4095) div 4096 * 4096"
    unfolding seg_vma_def using unat_push_drop_12 [of "ph_vaddr ph + ph_mem_size ph + 0xfff"] unat_add_page [OF u] e by simp
qed

lemma seg_order:
  assumes "seg_ok elf ph"
  shows "start_vaddr (seg_vma ph) \<le> ph_vaddr ph" "unat (ph_vaddr ph) - unat (start_vaddr (seg_vma ph)) = unat (ph_vaddr ph) mod 4096"
    "unat (ph_vaddr ph) + unat (ph_mem_size ph) \<le> unat (end_vaddr (seg_vma ph))" "unat (end_vaddr (seg_vma ph)) < 0xff7ff000"
    "start_vaddr (seg_vma ph) < end_vaddr (seg_vma ph)"
proof -
  note o = assms [unfolded seg_ok_def] and b = seg_bounds [OF assms]
  have m: "unat (ph_vaddr ph) div 4096 * 4096 + unat (ph_vaddr ph) mod 4096 = unat (ph_vaddr ph)" by simp
  then show s: "start_vaddr (seg_vma ph) \<le> ph_vaddr ph" unfolding word_le_nat_alt b(3) by linarith
  show "unat (ph_vaddr ph) - unat (start_vaddr (seg_vma ph)) = unat (ph_vaddr ph) mod 4096" unfolding b(3) using m by linarith
  let ?n = "unat (ph_vaddr ph) + unat (ph_mem_size ph)"
  have "(?n + 4095) div 4096 * 4096 + (?n + 4095) mod 4096 = ?n + 4095" "(?n + 4095) mod 4096 < 4096" by simp_all
  then have e: "?n \<le> (?n + 4095) div 4096 * 4096" "(?n + 4095) div 4096 * 4096 < ?n + 4096" by linarith+
  show "?n \<le> unat (end_vaddr (seg_vma ph))" using e b(4) by simp
  show "unat (end_vaddr (seg_vma ph)) < 0xff7ff000" using e b(4) o by simp
  show "start_vaddr (seg_vma ph) < end_vaddr (seg_vma ph)" unfolding word_less_nat_alt b(3,4) using e m o by linarith
qed

lemma vma_new_seg: "seg_ok elf ph \<Longrightarrow> vma_new (ph_vaddr ph) (ph_vaddr ph + ph_mem_size ph) (ph_permission ph) Framed Elf None = Some (seg_vma ph)"
  using seg_bounds(1,2) by (simp add: vma_new_def seg_vma_def align_down_eq align_up_eq)

lemma map_segment_spec:
  assumes wf: "st_wf (k, mpt ms)" and seg: "is_load ph" "seg_ok elf ph" and ok: "push_ok (seg_vma ph) (ms, k)"
  shows "\<exists>s'. map_segment rd elf None 0 ph (max_end, ms, k) = Some (max max_end (end_vaddr (seg_vma ph)), s') \<and>
    pushed (seg_vma ph) (unat (ph_vaddr ph) mod 4096) (seg_data elf ph) (ms, k) s'"
proof -
  note o = seg(2) [unfolded seg_ok_def] and b = seg_bounds [OF seg(2)] and ord = seg_order [OF seg(2)]
  have sl: "slice (unat (ph_offset ph)) (unat (ph_offset ph + ph_file_size ph)) (elf_input elf) = Some (seg_data elf ph)"
    using o unfolding b(6) by (simp add: slice_def seg_data_def)
  have off: "vaddr_offset (ph_vaddr ph) = Some (take_bit 12 (ph_vaddr ph))" "unat (take_bit 12 (ph_vaddr ph)) = unat (ph_vaddr ph) mod 4096"
    using b(1) by (simp_all add: vaddr_offset_def check_user_va_def PAGE_SIZE_def and_low_12 unat_take_12)
  have up: "align_up (ph_vaddr ph + ph_mem_size ph) = Some (end_vaddr (seg_vma ph))" using align_up_eq [OF b(2)] by (simp add: seg_vma_def)
  have "length (seg_data elf ph) = unat (ph_file_size ph)" using o by (auto simp: seg_data_def min_def)
  then have len: "unat (ph_vaddr ph) mod 4096 + length (seg_data elf ph) \<le> unat (end_vaddr (seg_vma ph)) - unat (start_vaddr (seg_vma ph))"
    using ord(1-3) o unfolding word_le_nat_alt by linarith
  have lt: "unat (ph_vaddr ph) mod 4096 < 4096" by simp
  obtain s' where p: "ms_push rd (seg_vma ph) (Some (seg_data elf ph)) (unat (ph_vaddr ph) mod 4096) (ms, k) = Some s'"
    "pushed (seg_vma ph) (unat (ph_vaddr ph) mod 4096) (seg_data elf ph) (ms, k) s'" using ms_push_data [OF wf ok lt len, of rd] by blast
  have "map_data rd elf ph (ph_vaddr ph) (seg_vma ph) (ms, k) = Some s'" using sl off p(1) by (simp add: map_data_def)
  then have "map_segment rd elf None 0 ph (max_end, ms, k) = Some (max max_end (end_vaddr (seg_vma ph)), s')"
    using seg(1) vma_new_seg [OF seg(2)] up by (simp add: map_segment_def Let_def)
  then show ?thesis using p(2) by blast
qed

text \<open>The bytes of a segment in memory: those of the file, then zeros.\<close>

definition seg_image :: "elf_file \<Rightarrow> program_header \<Rightarrow> memory_set \<times> pmem \<Rightarrow> bool" where
  "seg_image elf ph s \<longleftrightarrow> (\<forall>i < unat (ph_mem_size ph). user_byte (snd s) (mpt (fst s)) (ph_vaddr ph + of_nat i) =
     Some (if i < unat (ph_file_size ph) then elf_input elf ! (unat (ph_offset ph) + i) else 0))"

lemma seg_address:
  assumes "seg_ok elf ph" "i < unat (ph_mem_size ph)"
  shows "unat (ph_vaddr ph + of_nat i) = unat (ph_vaddr ph) + i" "unat (ph_vaddr ph) + i < 0xff7fe000"
proof -
  show *: "unat (ph_vaddr ph) + i < 0xff7fe000" using assms by (simp add: seg_ok_def)
  then have "unat (of_nat i :: usize) = i" by (simp add: unat_of_nat take_bit_nat_eq_self)
  then show "unat (ph_vaddr ph + of_nat i) = unat (ph_vaddr ph) + i" using * by (simp add: unat_plus_if')
qed

lemma pushed_image:
  assumes seg: "seg_ok elf ph" and p: "pushed (seg_vma ph) (unat (ph_vaddr ph) mod 4096) (seg_data elf ph) s s'"
  shows "seg_image elf ph s'"
  unfolding seg_image_def
proof (intro allI impI)
  fix i assume i: "i < unat (ph_mem_size ph)"
  note a = seg_address [OF seg i] and o = seg [unfolded seg_ok_def] and ord = seg_order [OF seg]
  let ?a = "ph_vaddr ph + of_nat i" and ?m = "unat (ph_vaddr ph) mod 4096"
  have "start_vaddr (seg_vma ph) \<le> ?a" "?a < end_vaddr (seg_vma ph)"
    using ord(1,3) a(1) i by (simp_all add: word_le_nat_alt word_less_nat_alt)
  then have ub: "user_byte (snd s') (mpt (fst s')) ?a = Some (let j = unat ?a - unat (start_vaddr (seg_vma ph)) in
      if ?m \<le> j \<and> j < ?m + length (seg_data elf ph) then seg_data elf ph ! (j - ?m) else 0)" using p unfolding pushed_def by blast
  have j: "unat ?a - unat (start_vaddr (seg_vma ph)) = ?m + i" using ord(1,2) a(1) unfolding word_le_nat_alt by linarith
  have len: "length (seg_data elf ph) = unat (ph_file_size ph)" using o by (auto simp: seg_data_def min_def)
  have "seg_data elf ph ! i = elf_input elf ! (unat (ph_offset ph) + i)" if "i < unat (ph_file_size ph)"
    using that o by (simp add: seg_data_def)
  then show "user_byte (snd s') (mpt (fst s')) ?a = Some (if i < unat (ph_file_size ph) then elf_input elf ! (unat (ph_offset ph) + i) else 0)"
    unfolding ub j len by (simp add: Let_def)
qed

definition bytes_kept :: "memory_set \<times> pmem \<Rightarrow> memory_set \<times> pmem \<Rightarrow> bool" where
  "bytes_kept s s' \<longleftrightarrow>
     (\<forall>a b. unat a < 2 ^ 32 \<longrightarrow> user_byte (snd s) (mpt (fst s)) a = Some b \<longrightarrow> user_byte (snd s') (mpt (fst s')) a = Some b)"

lemma image_kept: "seg_ok elf ph \<Longrightarrow> seg_image elf ph s \<Longrightarrow> bytes_kept s s' \<Longrightarrow> seg_image elf ph s'"
  unfolding seg_image_def bytes_kept_def using seg_address [of elf ph] by fastforce

text \<open>The segments still to be loaded: on pages of their own, none of them mapped, with room for all.\<close>

definition page_count :: "program_header list \<Rightarrow> nat" where
  "page_count ps = sum_list (map (\<lambda>p. if is_load p then length (new_pages (seg_vma p)) else 0) ps)"

definition apart :: "program_header \<Rightarrow> program_header \<Rightarrow> bool" where
  "apart p q \<longleftrightarrow> (is_load p \<longrightarrow> is_load q \<longrightarrow> set (new_pages (seg_vma p)) \<inter> set (new_pages (seg_vma q)) = {})"

definition segs_ready :: "elf_file \<Rightarrow> program_header list \<Rightarrow> nat \<Rightarrow> memory_set \<times> pmem \<Rightarrow> bool" where
  "segs_ready elf ps n s \<longleftrightarrow> st_wf (snd s, mpt (fst s)) \<and> bt_wf (areas (fst s)) \<and> 3 * (page_count ps + n) \<le> card (free_frames (snd s)) \<and>
     sorted_wrt apart ps \<and> (\<forall>ph \<in> set ps. ph_type ph \<noteq> PtErr) \<and>
     (\<forall>ph \<in> set ps. is_load ph \<longrightarrow> seg_ok elf ph \<and> bt_get (areas (fst s)) (start_vaddr (seg_vma ph)) = None \<and>
        (\<forall>w \<in> set (new_pages (seg_vma ph)). pt_view (snd s) (mpt (fst s)) w = None))"

lemma seg_vma_simps [simp]: "map_type (seg_vma ph) = Framed" "pma (seg_vma ph) = pma_new" "aligned (start_vaddr (seg_vma ph))" "aligned (end_vaddr (seg_vma ph))"
  by (simp_all add: seg_vma_def)

lemma segs_ready_push:
  assumes "segs_ready elf (ph # ps) n (ms, k)" "is_load ph"
  shows "push_ok (seg_vma ph) (ms, k)"
proof -
  have "seg_ok elf ph" using assms by (simp add: segs_ready_def)
  then show ?thesis using assms seg_order(4,5) [of elf ph] by (auto simp: push_ok_def segs_ready_def page_count_def)
qed

lemma seg_start_page: "seg_ok elf ph \<Longrightarrow> vpn_of (start_vaddr (seg_vma ph)) \<in> set (new_pages (seg_vma ph))"
  using in_new_pages [of "seg_vma ph"] seg_order(5) [of elf ph] by simp

lemma segs_ready_step:
  assumes r: "segs_ready elf (ph # ps) n s" and l: "is_load ph" and p: "pushed (seg_vma ph) off d s s'"
  shows "segs_ready elf ps n s'"
proof -
  note r' = r [unfolded segs_ready_def] and p' = p [unfolded pushed_def]
  have seg: "seg_ok elf ph" using r' l by simp
  obtain v' where v': "areas (fst s') = bt_insert (start_vaddr (seg_vma ph)) v' (areas (fst s))" using p' by blast
  have "seg_ok elf q \<and> bt_get (areas (fst s')) (start_vaddr (seg_vma q)) = None \<and> (\<forall>w \<in> set (new_pages (seg_vma q)). pt_view (snd s') (mpt (fst s')) w = None)"
    if q: "q \<in> set ps" "is_load q" for q
  proof -
    have sq: "seg_ok elf q" and old: "bt_get (areas (fst s)) (start_vaddr (seg_vma q)) = None" "\<forall>w \<in> set (new_pages (seg_vma q)). pt_view (snd s) (mpt (fst s)) w = None"
      using r' q by auto
    have dis: "set (new_pages (seg_vma ph)) \<inter> set (new_pages (seg_vma q)) = {}" using r' q l by (simp add: apart_def)
    then have "start_vaddr (seg_vma q) \<noteq> start_vaddr (seg_vma ph)" using seg_start_page [OF seg] seg_start_page [OF sq] by auto
    then have key: "bt_get (areas (fst s')) (start_vaddr (seg_vma q)) = None" using v' old(1) r' by simp
    have "vpn_ok w" if "w \<in> set (new_pages (seg_vma q))" for w
      using vpns_ok [of "end_vaddr (seg_vma q)" w] seg_order(4) [OF sq] that by (simp add: new_pages_def)
    then have "\<forall>w \<in> set (new_pages (seg_vma q)). pt_view (snd s') (mpt (fst s')) w = None" using p' dis old(2) by (metis disjoint_iff)
    then show ?thesis using sq key by blast
  qed
  moreover have "3 * (page_count ps + n) \<le> card (free_frames (snd s'))" using r' p' l by (simp add: page_count_def)
  ultimately show ?thesis unfolding segs_ready_def using r' p' v' by simp
qed

definition top_of :: "usize \<Rightarrow> program_header list \<Rightarrow> usize" where
  "top_of e ps = fold (\<lambda>ph e. max e (end_vaddr (seg_vma ph))) (filter is_load ps) e"

lemma pushed_kept: "pushed v off d s s' \<Longrightarrow> bytes_kept s s'"
  by (simp add: pushed_def bytes_kept_def)

text \<open>
  Loading all segments. \<open>n\<close> pages more than those of the segments are free before, and stay free; what else the page table maps and
  which other areas there are does not change.
\<close>

lemma map_segments_spec:
  assumes "segs_ready elf ps n (ms, k)"
  shows "\<exists>s'. foldM (map_segment rd elf None 0) ps (e, ms, k) = Some (top_of e ps, s') \<and> segs_ready elf [] n s' \<and>
    (\<forall>ph \<in> set ps. is_load ph \<longrightarrow> seg_image elf ph s') \<and> bytes_kept (ms, k) s' \<and>
    (\<forall>w. vpn_ok w \<longrightarrow> (\<forall>ph \<in> set ps. is_load ph \<longrightarrow> w \<notin> set (new_pages (seg_vma ph))) \<longrightarrow> pt_view (snd s') (mpt (fst s')) w = pt_view k (mpt ms) w) \<and>
    (\<forall>i. (\<forall>ph \<in> set ps. is_load ph \<longrightarrow> i \<noteq> start_vaddr (seg_vma ph)) \<longrightarrow> bt_get (areas (fst s')) i = bt_get (areas ms) i)"
  using assms
proof (induction ps arbitrary: ms k e)
  case Nil
  then show ?case by (auto simp: top_of_def bytes_kept_def)
next
  case (Cons ph ps)
  show ?case
  proof (cases "is_load ph")
    case False
    have "ph_type ph \<noteq> PtErr" "segs_ready elf ps n (ms, k)" using Cons.prems False by (simp_all add: segs_ready_def page_count_def)
    then show ?thesis using Cons.IH [of ms k e] False by (simp add: map_segment_def top_of_def)
  next
    case True
    have wf: "st_wf (k, mpt ms)" and seg: "seg_ok elf ph" and awf: "bt_wf (areas ms)" using Cons.prems True by (simp_all add: segs_ready_def)
    obtain ms1 k1 where m: "map_segment rd elf None 0 ph (e, ms, k) = Some (max e (end_vaddr (seg_vma ph)), ms1, k1)"
      and p: "pushed (seg_vma ph) (unat (ph_vaddr ph) mod 4096) (seg_data elf ph) (ms, k) (ms1, k1)"
      using map_segment_spec [OF wf True seg segs_ready_push [OF Cons.prems True], of rd e] by (metis surj_pair)
    from Cons.IH [OF segs_ready_step [OF Cons.prems True p], of "max e (end_vaddr (seg_vma ph))"]
    obtain s' where s': "foldM (map_segment rd elf None 0) ps (max e (end_vaddr (seg_vma ph)), ms1, k1) = Some (top_of (max e (end_vaddr (seg_vma ph))) ps, s')"
      "segs_ready elf [] n s'" "\<forall>q \<in> set ps. is_load q \<longrightarrow> seg_image elf q s'" "bytes_kept (ms1, k1) s'"
      "\<forall>w. vpn_ok w \<longrightarrow> (\<forall>q \<in> set ps. is_load q \<longrightarrow> w \<notin> set (new_pages (seg_vma q))) \<longrightarrow> pt_view (snd s') (mpt (fst s')) w = pt_view k1 (mpt ms1) w"
      "\<forall>i. (\<forall>q \<in> set ps. is_load q \<longrightarrow> i \<noteq> start_vaddr (seg_vma q)) \<longrightarrow> bt_get (areas (fst s')) i = bt_get (areas ms1) i" by blast
    have im: "seg_image elf ph s'" by (rule image_kept [OF seg pushed_image [OF seg p] s'(4)])
    have kept: "bytes_kept (ms, k) s'" using pushed_kept [OF p] s'(4) unfolding bytes_kept_def by blast
    have view: "pt_view k1 (mpt ms1) w = pt_view k (mpt ms) w" if "vpn_ok w" "w \<notin> set (new_pages (seg_vma ph))" for w
      using p that unfolding pushed_def by simp
    have key: "bt_get (areas ms1) i = bt_get (areas ms) i" if "i \<noteq> start_vaddr (seg_vma ph)" for i
      using p that awf unfolding pushed_def by auto
    have "foldM (map_segment rd elf None 0) (ph # ps) (e, ms, k) = Some (top_of e (ph # ps), s')" using m s'(1) True by (simp add: top_of_def)
    moreover have "\<forall>q \<in> set (ph # ps). is_load q \<longrightarrow> seg_image elf q s'" using im s'(3) by simp
    moreover have "\<forall>w. vpn_ok w \<longrightarrow> (\<forall>q \<in> set (ph # ps). is_load q \<longrightarrow> w \<notin> set (new_pages (seg_vma q))) \<longrightarrow> pt_view (snd s') (mpt (fst s')) w = pt_view k (mpt ms) w"
      using s'(5) view True by simp
    moreover have "\<forall>i. (\<forall>q \<in> set (ph # ps). is_load q \<longrightarrow> i \<noteq> start_vaddr (seg_vma q)) \<longrightarrow> bt_get (areas (fst s')) i = bt_get (areas ms) i"
      using s'(6) key True by simp
    ultimately show ?thesis using s'(2) kept by blast
  qed
qed

end
