(* ===== verification/Loader_Exec.thy ===== *)
theory Loader_Exec
  imports Loader_Image
begin

text \<open>
  Whole programs: what \<open>load_elf\<close> makes of a program without a dynamic linker in a fresh address space, and what a task is after \<open>execve\<close>.
\<close>

section \<open>A program in a fresh address space\<close>

definition loadable :: "elf_file \<Rightarrow> bool" where
  "loadable elf \<longleftrightarrow> check_magic elf \<and> sorted_wrt apart (phs elf) \<and>
     (\<forall>ph \<in> set (phs elf). ph_type ph \<noteq> PtErr \<and> ph_type ph \<noteq> PtInterp \<and> (is_load ph \<longrightarrow> seg_ok elf ph))"

definition fresh_space :: "memory_set \<times> pmem \<Rightarrow> bool" where
  "fresh_space s \<longleftrightarrow> st_wf (snd s, mpt (fst s)) \<and> areas (fst s) = [] \<and> (\<forall>w. unat w < 2 ^ 20 \<longrightarrow> pt_view (snd s) (mpt (fst s)) w = None)"

lemma low_page: "unat a < 2 ^ 32 \<Longrightarrow> unat (vpn_of a) < 2 ^ 20"
  by (simp add: unat_drop_12 less_mult_imp_div_less)

lemma new_pages_low:
  assumes "unat (end_vaddr v) < 2 ^ 32" "w \<in> set (new_pages v)"
  shows "unat w < 2 ^ 20"
proof -
  have "w < vpn_of (end_vaddr v)" using assms(2) by (simp add: new_pages_def set_vpns)
  then show ?thesis using low_page [OF assms(1)] by (simp add: word_less_nat_alt)
qed

lemma loadable_ready:
  assumes "loadable elf" "fresh_space s" "3 * (page_count (phs elf) + n) \<le> card (free_frames (snd s))"
  shows "segs_ready elf (phs elf) n s"
proof -
  have "pt_view (snd s) (mpt (fst s)) w = None" if ph: "ph \<in> set (phs elf)" "is_load ph" and w: "w \<in> set (new_pages (seg_vma ph))" for ph w
  proof -
    have seg: "seg_ok elf ph" using assms(1) ph by (simp add: loadable_def)
    have "unat (end_vaddr (seg_vma ph)) < 2 ^ 32" using seg_order(4) [OF seg] by simp
    then show ?thesis using new_pages_low [OF _ w] assms(2) by (simp add: fresh_space_def)
  qed
  then show ?thesis unfolding segs_ready_def using assms by (simp add: loadable_def fresh_space_def bt_get_def bt_wf_def)
qed

text \<open>The area of the stack and the empty area of the heap.\<close>

lemma stack_vma_eq:
  "stack_vma = Some \<lparr>pma = pma_new, start_vaddr = 0xff7ff000, end_vaddr = 0xfffff000, map_permission = MP_U OR MP_R OR MP_W, vma_type = UserStack,
     map_type = Framed, page_fault_handler = Some UStackHandler\<rparr>"
proof -
  have "user_va (0xff7ff000 :: usize)" "user_va (0xfffff000 :: usize)" by (simp_all add: low_user_va)
  moreover have "aligned (0xff7ff000 :: usize)" "aligned (0xfffff000 :: usize)" by (simp_all add: unat_aligned)
  ultimately show ?thesis using align_fixed by (simp add: stack_vma_def vma_new_def USER_STACK_TOP_def USER_STACK_SIZE_def)
qed

lemma heap_push:
  assumes "unat a < 2 ^ 32" "aligned a" "bt_get (areas ms) a = None"
  shows "\<exists>v. heap_vma a = Some v \<and> ms_push rd v None 0 (ms, k) = Some (ms\<lparr>areas := bt_insert a v (areas ms)\<rparr>, k)"
proof -
  let ?v = "\<lparr>pma = pma_new, start_vaddr = a, end_vaddr = a, map_permission = MP_U OR MP_R OR MP_W, vma_type = UserHeap, map_type = Framed,
    page_fault_handler = Some UHeapHandler\<rparr>"
  have "heap_vma a = Some ?v" using align_fixed [OF low_user_va [OF assms(1)] assms(2)] by (simp add: heap_vma_def vma_new_def)
  moreover have "map_self_all ?v (k, mpt ms) = Some (?v, k, mpt ms)"
    using virt_to_vpn_low [OF assms(1)] by (simp add: map_self_all_def vma_range_def vpns_def)
  ultimately show ?thesis using assms(3) by (simp add: ms_push_def push_no_map_def insert_raw_def)
qed

lemma top_of_bounds:
  assumes "\<forall>ph \<in> set ps. is_load ph \<longrightarrow> seg_ok elf ph" "unat e < 0xff7ff000" "aligned e"
  shows "unat (top_of e ps) < 0xff7ff000" "aligned (top_of e ps)" "e \<le> top_of e ps"
    "\<forall>ph \<in> set ps. is_load ph \<longrightarrow> end_vaddr (seg_vma ph) \<le> top_of e ps"
proof -
  have "unat (top_of e ps) < 0xff7ff000 \<and> aligned (top_of e ps) \<and> e \<le> top_of e ps \<and> (\<forall>ph \<in> set ps. is_load ph \<longrightarrow> end_vaddr (seg_vma ph) \<le> top_of e ps)"
    using assms
  proof (induction ps arbitrary: e)
    case (Cons ph ps)
    show ?case
    proof (cases "is_load ph")
      case True
      then have seg: "seg_ok elf ph" using Cons.prems(1) by simp
      let ?e = "max e (end_vaddr (seg_vma ph))"
      have "unat ?e < 0xff7ff000" "aligned ?e" using Cons.prems(2,3) seg_order(4) [OF seg] by (auto simp: max_def)
      then have "unat (top_of ?e ps) < 0xff7ff000 \<and> aligned (top_of ?e ps) \<and> ?e \<le> top_of ?e ps \<and>
          (\<forall>ph \<in> set ps. is_load ph \<longrightarrow> end_vaddr (seg_vma ph) \<le> top_of ?e ps)" using Cons.IH [of ?e] Cons.prems(1) by simp
      moreover have "top_of e (ph # ps) = top_of ?e ps" using True by (simp add: top_of_def)
      moreover have "e \<le> ?e" "end_vaddr (seg_vma ph) \<le> ?e" by simp_all
      ultimately show ?thesis using order_trans by auto
    next
      case False
      then show ?thesis using Cons.IH [of e] Cons.prems by (simp add: top_of_def)
    qed
  qed (simp add: top_of_def)
  then show "unat (top_of e ps) < 0xff7ff000" "aligned (top_of e ps)" "e \<le> top_of e ps"
    "\<forall>ph \<in> set ps. is_load ph \<longrightarrow> end_vaddr (seg_vma ph) \<le> top_of e ps" by blast+
qed

lemma length_vpns: "length (vpns a b) = unat b - unat a"
  by (simp add: vpns_def)

definition the_stack :: vma where
  "the_stack = the stack_vma"

lemma the_stack: "stack_vma = Some the_stack" "start_vaddr the_stack = 0xff7ff000" "end_vaddr the_stack = 0xfffff000" "length (new_pages the_stack) = 2048"
  "map_type the_stack = Framed" "pma the_stack = pma_new"
  by (simp_all add: stack_vma_eq the_stack_def new_pages_def length_vpns unat_drop_12)

text \<open>After the segments the pages of the stack are free, and its area is none of theirs.\<close>

lemma stack_push:
  assumes l: "loadable elf" and f: "fresh_space (ms, k)" and r: "segs_ready elf [] 2048 (ms1, k1)"
    and view: "\<forall>w. vpn_ok w \<longrightarrow> (\<forall>ph \<in> set (phs elf). is_load ph \<longrightarrow> w \<notin> set (new_pages (seg_vma ph))) \<longrightarrow> pt_view k1 (mpt ms1) w = pt_view k (mpt ms) w"
    and key: "\<forall>i. (\<forall>ph \<in> set (phs elf). is_load ph \<longrightarrow> i \<noteq> start_vaddr (seg_vma ph)) \<longrightarrow> bt_get (areas ms1) i = bt_get (areas ms) i"
  shows "push_ok the_stack (ms1, k1)"
proof -
  have segs: "seg_ok elf ph" if "ph \<in> set (phs elf)" "is_load ph" for ph using l that by (simp add: loadable_def)
  have ends: "unat (end_vaddr (seg_vma ph)) < 0xff7ff000" "start_vaddr (seg_vma ph) < end_vaddr (seg_vma ph)" if "ph \<in> set (phs elf)" "is_load ph" for ph
    using seg_order(4,5) [OF segs [OF that]] by simp_all
  have "start_vaddr (seg_vma ph) \<noteq> 0xff7ff000" if "ph \<in> set (phs elf)" "is_load ph" for ph
    using ends [OF that] by (auto simp: word_less_nat_alt)
  then have k0: "bt_get (areas ms1) 0xff7ff000 = None" using key f by (simp add: fresh_space_def bt_get_def)
  have "pt_view k1 (mpt ms1) w = None" if w: "w \<in> set (new_pages the_stack)" for w
  proof -
    have lw: "unat w < 2 ^ 20" by (rule new_pages_low [OF _ w]) (simp add: the_stack)
    have ok: "vpn_ok w" using vpns_ok [of "end_vaddr the_stack" w] w by (simp add: new_pages_def the_stack)
    have "0xff7ff \<le> unat w" using w by (simp add: new_pages_def set_vpns the_stack word_le_nat_alt unat_drop_12)
    then have "w \<notin> set (new_pages (seg_vma ph))" if "ph \<in> set (phs elf)" "is_load ph" for ph
      using ends(1) [OF that] by (auto simp: new_pages_def set_vpns word_less_nat_alt unat_drop_12)
    then show ?thesis using view ok f lw by (simp add: fresh_space_def)
  qed
  moreover have "3 * length (new_pages the_stack) \<le> card (free_frames k1)" using r by (simp add: segs_ready_def the_stack page_count_def)
  ultimately show ?thesis using k0 by (simp add: push_ok_def the_stack unat_aligned)
qed

lemma load_dl_interp_none: "loadable elf \<Longrightarrow> load_dl_interp parse x rd now lk elf (f, ms) = Some ((f, ms), None)"
proof -
  assume l: "loadable elf"
  have "List.find (\<lambda>p. ph_type p = PtInterp) (phs elf) = None" using l by (auto simp: find_None_iff loadable_def)
  then show ?thesis by (simp add: load_dl_interp_def interp_path_def)
qed

definition start_info :: "elf_file \<Rightarrow> u8 list list \<Rightarrow> u8 list list \<Rightarrow> stack_info" where
  "start_info elf argv envv = set_auxv_at_base 0 (init_auxv elf (init_arg argv envv stack_info_empty))"

lemma load_elf_spec:
  assumes parse: "parse data = Some elf" and l: "loadable elf" and fr: "fresh_space (ms, pm f)"
    and room: "3 * (page_count (phs elf) + 2048) \<le> card (free_frames (pm f))"
  shows "\<exists>k' ms'. load_elf parse x rd now lk data argv envv (f, ms) = Some ((f\<lparr>pm := k'\<rparr>, ms'), entry elf, USER_STACK_TOP, start_info elf argv envv) \<and>
    st_wf (k', mpt ms') \<and> (\<forall>ph \<in> set (phs elf). is_load ph \<longrightarrow> seg_image elf ph (ms', k')) \<and>
    (\<forall>a. USER_STACK_TOP - USER_STACK_SIZE \<le> a \<and> a < USER_STACK_TOP \<longrightarrow> user_byte k' (mpt ms') a = Some 0) \<and> heap_end ms' = top_of 0 (phs elf)"
proof -
  have rd: "segs_ready elf (phs elf) 2048 (ms, pm f)" using loadable_ready [OF l fr] room by simp
  obtain ms1 k1 where m: "foldM (map_segment rd elf None 0) (phs elf) (0, ms, pm f) = Some (top_of 0 (phs elf), ms1, k1)"
    and r1: "segs_ready elf [] 2048 (ms1, k1)" and im: "\<forall>ph \<in> set (phs elf). is_load ph \<longrightarrow> seg_image elf ph (ms1, k1)"
    and view: "\<forall>w. vpn_ok w \<longrightarrow> (\<forall>ph \<in> set (phs elf). is_load ph \<longrightarrow> w \<notin> set (new_pages (seg_vma ph))) \<longrightarrow> pt_view k1 (mpt ms1) w = pt_view (pm f) (mpt ms) w"
    and key: "\<forall>i. (\<forall>ph \<in> set (phs elf). is_load ph \<longrightarrow> i \<noteq> start_vaddr (seg_vma ph)) \<longrightarrow> bt_get (areas ms1) i = bt_get (areas ms) i"
    using map_segments_spec [OF rd, of rd 0] by auto
  have wf1: "st_wf (k1, mpt ms1)" "bt_wf (areas ms1)" using r1 by (simp_all add: segs_ready_def)
  obtain ms2 k2 where p: "ms_push rd the_stack None 0 (ms1, k1) = Some (ms2, k2)" "pushed the_stack 0 [] (ms1, k1) (ms2, k2)"
    using ms_push_empty [OF wf1(1) stack_push [OF l fr r1 view key], of rd 0] by (metis surj_pair)
  obtain v' where v': "areas ms2 = bt_insert 0xff7ff000 v' (areas ms1)" using p(2) by (auto simp: pushed_def the_stack)
  have segs: "\<forall>ph \<in> set (phs elf). is_load ph \<longrightarrow> seg_ok elf ph" using l by (simp add: loadable_def)
  note top = top_of_bounds [OF segs, of 0]
  have t: "unat (top_of 0 (phs elf)) < 0xff7ff000" "aligned (top_of 0 (phs elf))" using top(1,2) by (simp_all add: unat_aligned)
  have "top_of 0 (phs elf) \<noteq> start_vaddr (seg_vma ph)" if "ph \<in> set (phs elf)" "is_load ph" for ph
    using top(4) that seg_order(5) [of elf ph] segs by (force simp: unat_aligned)
  moreover have "top_of 0 (phs elf) \<noteq> 0xff7ff000" using t(1) by auto
  ultimately have free: "bt_get (areas ms2) (top_of 0 (phs elf)) = None" using v' key fr wf1(2) by (simp add: fresh_space_def bt_get_def [of "[]"])
  have low: "unat (top_of 0 (phs elf)) < 2 ^ 32" using t(1) by simp
  obtain hv where h: "heap_vma (top_of 0 (phs elf)) = Some hv"
    "ms_push rd hv None 0 (ms2, k2) = Some (ms2\<lparr>areas := bt_insert (top_of 0 (phs elf)) hv (areas ms2)\<rparr>, k2)"
    using heap_push [OF low t(2) free, of rd k2] by blast
  let ?ms = "ms2\<lparr>areas := bt_insert (top_of 0 (phs elf)) hv (areas ms2), heap_end := top_of 0 (phs elf)\<rparr>"
  have "load_elf parse x rd now lk data argv envv (f, ms) = Some ((f\<lparr>pm := k2\<rparr>, ?ms), entry elf, USER_STACK_TOP, start_info elf argv envv)"
    using parse l m p(1) h by (simp add: load_dl_interp_none [OF l] the_stack(1) load_elf_def map_elf_at_def loadable_def start_info_def)
  moreover have "st_wf (k2, mpt ?ms)" using p(2) by (simp add: pushed_def)
  moreover have "seg_image elf ph (?ms, k2)" if "ph \<in> set (phs elf)" "is_load ph" for ph
    using image_kept [OF _ _ pushed_kept [OF p(2)], of elf ph] im segs that by (simp add: seg_image_def)
  moreover have "user_byte k2 (mpt ?ms) a = Some 0" if "USER_STACK_TOP - USER_STACK_SIZE \<le> a \<and> a < USER_STACK_TOP" for a
    using p(2) that by (simp add: pushed_def the_stack USER_STACK_TOP_def USER_STACK_SIZE_def)
  ultimately show ?thesis by (intro exI [of _ k2] exI [of _ ?ms]) simp
qed

section \<open>Programs in memory\<close>

text \<open>
  C16: a program for which there is room, whose segments lie below the stack on pages of their own and which needs no dynamic linker, is loaded into a fresh address
  space, and every address of every segment then leads through the page table to the byte of the file that the program header names,
  or to zero behind the bytes of the file; the 8 MiB of the stack are zero, and the heap starts, empty, at the first page above the segments.
\<close>

theorem program_loaded:
  assumes parse: "parse data = Some elf" and l: "loadable elf" and fr: "fresh_space (ms, pm f)"
    and room: "3 * (page_count (phs elf) + 2048) \<le> card (free_frames (pm f))"
  shows "\<exists>k' ms' info. load_elf parse x rd now lk data argv envv (f, ms) = Some ((f\<lparr>pm := k'\<rparr>, ms'), entry elf, USER_STACK_TOP, info) \<and>
    args info = argv \<and> envs info = envv \<and>
    (\<forall>ph \<in> set (phs elf). is_load ph \<longrightarrow> (\<forall>i < unat (ph_mem_size ph). user_byte k' (mpt ms') (ph_vaddr ph + of_nat i) =
       Some (if i < unat (ph_file_size ph) then elf_input elf ! (unat (ph_offset ph) + i) else 0)) \<and>
       unat (ph_vaddr ph) + unat (ph_mem_size ph) \<le> unat (heap_end ms')) \<and>
    (\<forall>a. USER_STACK_TOP - USER_STACK_SIZE \<le> a \<and> a < USER_STACK_TOP \<longrightarrow> user_byte k' (mpt ms') a = Some 0)"
proof -
  obtain k' ms' where s: "load_elf parse x rd now lk data argv envv (f, ms) = Some ((f\<lparr>pm := k'\<rparr>, ms'), entry elf, USER_STACK_TOP, start_info elf argv envv)"
    "\<forall>ph \<in> set (phs elf). is_load ph \<longrightarrow> seg_image elf ph (ms', k')"
    "\<forall>a. USER_STACK_TOP - USER_STACK_SIZE \<le> a \<and> a < USER_STACK_TOP \<longrightarrow> user_byte k' (mpt ms') a = Some 0" "heap_end ms' = top_of 0 (phs elf)"
    using load_elf_spec [of parse data elf ms f x rd now lk argv envv, OF assms] by blast
  have segs: "\<forall>ph \<in> set (phs elf). is_load ph \<longrightarrow> seg_ok elf ph" using l by (simp add: loadable_def)
  have "unat (ph_vaddr ph) + unat (ph_mem_size ph) \<le> unat (heap_end ms')" if ph: "ph \<in> set (phs elf)" "is_load ph" for ph
  proof -
    have "end_vaddr (seg_vma ph) \<le> top_of 0 (phs elf)" using top_of_bounds(4) [OF segs, of 0] ph by (simp add: unat_aligned)
    then show ?thesis using seg_order(3) [of elf ph] segs ph s(4) by (fastforce simp: word_le_nat_alt)
  qed
  moreover have "args (start_info elf argv envv) = argv" "envs (start_info elf argv envv) = envv"
    by (simp_all add: start_info_def set_auxv_at_base_def push_auxv_def init_auxv_def init_arg_def Let_def)
  ultimately show ?thesis using s by (intro exI [of _ k'] exI [of _ ms'] exI [of _ "start_info elf argv envv"]) (simp add: seg_image_def)
qed

text \<open>A program of one segment of eight bytes, three of them in the file, and a machine just after boot.\<close>

definition demo_segment :: program_header where
  "demo_segment = \<lparr>ph_type = PtLoad, ph_vaddr = 0x10010, ph_offset = 1, ph_file_size = 3, ph_mem_size = 8, ph_read = True, ph_write = False, ph_exec = True\<rparr>"

definition demo_elf :: elf_file where
  "demo_elf = \<lparr>magic = [0x7F, 0x45, 0x4C, 0x46], entry = 0x10010, phs = [demo_segment], ph_table_offset = 64, ph_entry_size = 56, elf_input = [9, 1, 2, 3]\<rparr>"

definition demo_user :: memory_set where
  "demo_user = \<lparr>areas = [], mpt = snd boot_st, heap_end = 0, cow = []\<rparr>"

definition demo_files :: "(string \<times> nat) list task_fs" where
  "demo_files = \<lparr>vf = vfs_empty demo_disk, tbl = \<lparr>fds = [], fd_alloc = ba_default fd_level, rlimit_curr = 0, rlimit_max = 0\<rparr>, cwd = ''/'', um = (\<lambda>_. 0),
     rings = Map.empty, next_ring = 0, caches = (\<lambda>_. []), pm = fst boot_st\<rparr>"

lemma boot_room: "31999 \<le> card (free_frames (fst boot_st))"
proof -
  note fw = store_wfD(1) [OF boot_store_wf(1)]
  have "0x80300 \<in> free_frames boot_store" by (simp add: boot_store_wf boot_mem_wf)
  then have ne: "free_frames boot_store \<noteq> {}" by blast
  obtain k pt where n: "page_table_new boot_store = Some (k, pt)" "free_frames k = free_frames boot_store - {pt_root pt}"
    using page_table_new_spec [OF fw ne] by blast
  have "card (free_frames boot_mem) = 32000" unfolding boot_mem_wf(2) using card_unat_between [of "0x88000" "0x802ff"] by simp
  then show ?thesis using diff_card_le_card_Diff [of "{pt_root pt}" "free_frames boot_mem"] n by (simp add: boot_st_def boot_store_wf)
qed

lemma demo_loadable: "loadable demo_elf" "fresh_space (demo_user, fst boot_st)" "page_count (phs demo_elf) = 1"
proof -
  have "seg_ok demo_elf demo_segment" by (simp add: seg_ok_def demo_segment_def demo_elf_def)
  then show "loadable demo_elf" by (simp add: loadable_def demo_elf_def demo_segment_def check_magic_def magic_num_def numeral_eq_Suc)
  show "fresh_space (demo_user, fst boot_st)" using boot_st_wf(1,2) by (simp add: fresh_space_def demo_user_def)
  show "page_count (phs demo_elf) = 1"
    by (simp add: page_count_def demo_elf_def demo_segment_def new_pages_def length_vpns seg_vma_def unat_drop_12 unat_push_drop_12)
qed

theorem program_loaded_witness:
  "\<exists>k' ms' info. load_elf (\<lambda>_. Some demo_elf) demo_ext4 (\<lambda>_ _. None) demo_time None [] [[1]] [] (demo_files, demo_user) =
       Some ((demo_files\<lparr>pm := k'\<rparr>, ms'), 0x10010, USER_STACK_TOP, info) \<and> args info = [[1]] \<and>
     user_byte k' (mpt ms') 0x10010 = Some 1 \<and> user_byte k' (mpt ms') 0x10012 = Some 3 \<and> user_byte k' (mpt ms') 0x10013 = Some 0"
proof -
  have fr: "fresh_space (demo_user, pm demo_files)" and room: "3 * (page_count (phs demo_elf) + 2048) \<le> card (free_frames (pm demo_files))"
    using demo_loadable(2,3) boot_room by (simp_all add: demo_files_def)
  have mem: "demo_segment \<in> set (phs demo_elf)" "is_load demo_segment" by (simp_all add: demo_elf_def demo_segment_def)
  obtain k' ms' info where r: "load_elf (\<lambda>_. Some demo_elf) demo_ext4 (\<lambda>_ _. None) demo_time None [] [[1]] [] (demo_files, demo_user) =
       Some ((demo_files\<lparr>pm := k'\<rparr>, ms'), entry demo_elf, USER_STACK_TOP, info)" "args info = [[1]]"
    "\<forall>i < unat (ph_mem_size demo_segment). user_byte k' (mpt ms') (ph_vaddr demo_segment + of_nat i) =
       Some (if i < unat (ph_file_size demo_segment) then elf_input demo_elf ! (unat (ph_offset demo_segment) + i) else 0)"
    using program_loaded [of "\<lambda>_. Some demo_elf" "[]" demo_elf demo_user demo_files demo_ext4 "\<lambda>_ _. None" demo_time None "[[1]]" "[]", OF refl demo_loadable(1) fr room] mem by blast
  have b: "user_byte k' (mpt ms') (0x10010 + of_nat i) = Some (if i < 3 then [9, 1, 2, 3] ! (1 + i) else 0)" if "i < 8" for i
    using r(3) that by (simp add: demo_segment_def demo_elf_def)
  show ?thesis using r(1,2) b [of 0] b [of 2] b [of 3] by (intro exI [of _ k'] exI [of _ ms'] exI [of _ info]) (simp add: demo_elf_def)
qed

section \<open>Execve\<close>

lemma load_elf_info:
  assumes "load_elf parse x rd now lk data argv envv st = Some ((f', ms'), en, sp, info)"
  shows "args info = argv" "envs info = envv" "length (auxv info) = 14" "sp = USER_STACK_TOP" "um f' = um (fst st)"
proof -
  have um_open: "um s' = um s" if "open_candidate x now lk ps s = Some (s', r)" for ps and s s' :: "'a task_fs" and r
    using that by (induction ps arbitrary: s) (auto simp: panic_simps Let_def split: option.splits prod.splits)
  have um_read: "um s' = um s" if "read_all_ofile rd h s = Some (s', bs)" for h bs and s s' :: "'a task_fs"
    using that by (auto simp: read_all_ofile_def put_file_def panic_simps split: prod.splits)
  have um_close: "um s' = um s" if "close_temp h s = Some s'" for h and s s' :: "'a task_fs"
    using that by (auto simp: close_temp_def panic_simps)
  have um_dl: "um (fst s') = um (fst st)" if "load_dl_interp parse x rd now lk elf st = Some (s', dl)" for elf s' dl
    using that by (cases st) (auto simp: load_dl_interp_def panic_simps dest!: um_open um_read um_close split: option.splits prod.splits)
  obtain elf f ms dl where dl: "load_dl_interp parse x rd now lk elf st = Some ((f, ms), dl)"
    and info: "info = (case dl of Some (en, base) \<Rightarrow> set_auxv_at_base base (init_auxv elf (init_arg argv envv stack_info_empty))
       | None \<Rightarrow> set_auxv_at_base 0 (init_auxv elf (init_arg argv envv stack_info_empty)))" and "sp = USER_STACK_TOP" "um f' = um f"
    using assms by (auto simp: load_elf_def panic_simps Let_def split: prod.splits option.splits)
  then show "sp = USER_STACK_TOP" "um f' = um (fst st)" using um_dl [OF dl] by simp_all
  show "args info = argv" "envs info = envv" "length (auxv info) = 14"
    by (auto simp: info set_auxv_at_base_def push_auxv_def init_auxv_def init_arg_def stack_info_empty_def Let_def split: option.splits)
qed

lemma drop_closed_um: "drop_closed s gs f = Some f' \<Longrightarrow> um f' = um f"
  unfolding drop_closed_def
proof (induction gs arbitrary: f)
  case (Cons g gs)
  then show ?case by (fastforce simp: panic_simps close_temp_def split: ofile.splits if_splits)
qed simp

text \<open>The parts of a successful \<open>from_exec\<close>.\<close>

lemma from_execE:
  assumes "from_exec h x lk t data argv envv (s, f, r) = Some (s', f', r')" "bt_get (tasks s) t = Some p"
  obtains info tb ms k f1 en lay i sp m where
    "args info = argv" "envs info = envv" "length (auxv info) = 14" "build_stack info USER_STACK_TOP (r, um f) = Some ((i, sp, lay), r', m)"
    "um f' = m" "f' = f1\<lparr>um := m\<rparr>"
    "s' = s\<lparr>fdts := bt_insert (fdt p) tb (fdts s), mem := k, vms := bt_insert (vm p) ms (vms s),
       trap_cxs := (trap_cxs s)(trap_cx_ptr (kernel_stack p) \<mapsto> exec_trap_cx (sstatus h) (hart_id x) en USER_STACK_TOP lay),
       tasks := bt_insert t (p\<lparr>task_cx := init_task_cx (restore h) (trap_cx_ptr (kernel_stack p))\<rparr>) (tasks s)\<rparr>"
    "bt_get (vms s) (vm p) \<noteq> None"
proof -
  obtain ms0 tb0 ms1 k1 tb f1 f2 ms2 en sp0 info tok i sp lay m where
    a: "bt_get (vms s) (vm p) = Some ms0" "bt_get (fdts s) (fdt p) = Some tb0" "clear_user_space (ms0, mem s) = Some (ms1, k1)" "close_exec tb0 = Some tb"
      "drop_closed (s\<lparr>fdts := bt_insert (fdt p) tb (fdts s)\<rparr>) (map (fd_file \<circ> snd) (fds tb0)) (f\<lparr>pm := k1\<rparr>) = Some f1"
      "load_elf (parser x) (ext4 x) (rd_sector x) (clock x) lk data argv envv (f1, ms1) = Some ((f2, ms2), en, sp0, info)"
      "ms_activate ms2 = Some tok" "build_stack info sp0 (r, um f2) = Some ((i, sp, lay), r', m)" "f' = f2\<lparr>um := m\<rparr>"
    and s': "upd_task t (\<lambda>p. p\<lparr>task_cx := init_task_cx (restore h) (snd (push_trap_cx (kernel_stack p) (exec_trap_cx (sstatus h) (hart_id x) en sp0 lay) (trap_cxs s)))\<rparr>)
       (s\<lparr>fdts := bt_insert (fdt p) tb (fdts s), mem := pm f2, vms := bt_insert (vm p) ms2 (vms s),
          trap_cxs := fst (push_trap_cx (kernel_stack p) (exec_trap_cx (sstatus h) (hart_id x) en sp0 lay) (trap_cxs s))\<rparr>) = Some s'"
    using assms by (auto simp: from_exec_def push_trap_cx_def panic_simps Let_def upd_task_def split: prod.splits)
  note i = load_elf_info [OF a(6)]
  have um: "um f2 = um f" using i(5) drop_closed_um [OF a(5)] by simp
  show ?thesis
  proof (rule that)
    show "args info = argv" "envs info = envv" "length (auxv info) = 14" by (rule i)+
    show "build_stack info USER_STACK_TOP (r, um f) = Some ((i, sp, lay), r', m)" using a(8) i(4) um by simp
    show "um f' = m" "f' = f2\<lparr>um := m\<rparr>" using a(9) by simp_all
    show "s' = s\<lparr>fdts := bt_insert (fdt p) tb (fdts s), mem := pm f2, vms := bt_insert (vm p) ms2 (vms s),
       trap_cxs := (trap_cxs s)(trap_cx_ptr (kernel_stack p) \<mapsto> exec_trap_cx (sstatus h) (hart_id x) en USER_STACK_TOP lay),
       tasks := bt_insert t (p\<lparr>task_cx := init_task_cx (restore h) (trap_cx_ptr (kernel_stack p))\<rparr>) (tasks s)\<rparr>"
      using s' assms(2) i(4) by (simp add: upd_task_def push_trap_cx_def)
    show "bt_get (vms s) (vm p) \<noteq> None" using a(1) by simp
  qed
qed

lemma exec_keeps_inv:
  assumes inv: "proc_inv X s" and p: "bt_get (tasks s) t = Some p" "bt_get (vms s) (vm p) \<noteq> None"
  shows "proc_inv X (s\<lparr>fdts := d, mem := k, vms := bt_insert (vm p) ms (vms s), trap_cxs := c, tasks := bt_insert t (p\<lparr>task_cx := cx\<rparr>) (tasks s)\<rparr>)"
proof -
  let ?s1 = "s\<lparr>fdts := d, mem := k, vms := bt_insert (vm p) ms (vms s), trap_cxs := c\<rparr>"
  let ?p = "p\<lparr>task_cx := cx\<rparr>" and ?s2 = "?s1\<lparr>tasks := bt_insert t (p\<lparr>task_cx := cx\<rparr>) (tasks s)\<rparr>"
  have wf: "bt_wf (tasks s)" and pl: "places X (bt_get (tasks s)) (task_queue s) (cur s) (origin s)" using inv by (simp_all add: proc_inv_def)
  have i1: "proc_inv X ?s1" using inv by (auto simp: proc_inv_def)
  have ready: "u \<in> set (task_queue s) \<longleftrightarrow> pcb.status q = Ready" "cur s = Some u \<longleftrightarrow> pcb.status q = Running" if "bt_get (tasks s) u = Some q" for u q
    using pl that unfolding places_def placed_def by fastforce+
  have get: "bt_get (tasks ?s2) = (bt_get (tasks s))(t \<mapsto> ?p)" using wf by auto
  have held: "held (bt_get (tasks ?s2)) (origin s) u = held (bt_get (tasks s)) (origin s) u" for u
    unfolding get using held_same [of "bt_get (tasks s)" t p ?p] p(1) by simp
  have "placed X (bt_get (tasks ?s2)) (task_queue s) (cur s) (origin s) t ?p"
    using pl p(1) held unfolding places_def placed_def by (auto simp: get)
  moreover have "set (child p) \<subseteq> dom (bt_get (tasks s))" using proc_inv_children [OF inv p(1)] .
  moreover have "distinct (task_queue s)" using pl by (simp add: places_def)
  ultimately have "proc_inv X ?s2"
    using proc_inv_switch [OF i1, of t p ?p ?s2] p(1) wf get ready [OF p(1)] by simp
  then show ?thesis by simp
qed

text \<open>The bytes that the arguments, the environment and 18 pairs of the auxiliary vector take.\<close>

definition exec_need :: "u8 list list \<Rightarrow> u8 list list \<Rightarrow> nat" where
  "exec_need argv envv = stack_need \<lparr>auxv = replicate 14 (0, 0), args = argv, envs = envv\<rparr>"


text \<open>The kernel of \<open>Process_Inv\<close> with the empty address space and an empty table of descriptors.\<close>

definition demo_exec :: "bitalloc \<Rightarrow> ofile kernel" where
  "demo_exec b = \<lparr>mem = fst boot_st, pids = b, tasks = tasks (demo_kernel b False), vms = [(2, demo_user)], fdts = [(3, tbl demo_files)], task_queue = [1],
     cur = Some 0, origin = Some 0, trap_cxs = Map.empty, fresh = 4\<rparr>"

definition exec_hart :: "ofile hart" where
  "exec_hart = \<lparr>kernel_root = 0, restore = 0x80200000, sstatus = 0, heap_ptr = (\<lambda>n. of_nat n * 0x400000), stdio = (Stdin, Stdout, Stderr)\<rparr>"

definition exec_outside :: "(string \<times> nat) list outside" where
  "exec_outside = \<lparr>parser = (\<lambda>_. Some demo_elf), ext4 = demo_ext4, rd_sector = (\<lambda>_ _. None), clock = demo_time, rd_inode = (\<lambda>_ _. Inl ENOENT), hart_id = 0\<rparr>"

lemma demo_exec_inv: "demo_pids b \<Longrightarrow> proc_inv {} (demo_exec b)"
proof -
  assume "demo_pids b"
  note d = demo_kernel_inv [OF this, of False, unfolded proc_inv_def]
  have same: "tasks (demo_exec b) = tasks (demo_kernel b False)" "pids (demo_exec b) = pids (demo_kernel b False)"
    "task_queue (demo_exec b) = task_queue (demo_kernel b False)" "cur (demo_exec b) = cur (demo_kernel b False)"
    "origin (demo_exec b) = origin (demo_kernel b False)" "kernel.fresh (demo_exec b) = kernel.fresh (demo_kernel b False)"
    "bt_wf (vms (demo_exec b))" "bt_get (vms (demo_exec b)) n = None \<longleftrightarrow> bt_get (vms (demo_kernel b False)) n = None" for n
    by (simp_all add: demo_exec_def demo_kernel_def bt_wf_def bt_get_def)
  then show ?thesis using d unfolding proc_inv_def same by (metis option.distinct(1))
qed

lemma demo_exec_runs:
  "\<exists>st'. from_exec exec_hart exec_outside None 0 [] [[1]] [] (demo_exec b, demo_files, rng_new) = Some st'"
proof -
  have fr: "fresh_space (demo_user, pm demo_files)" and room: "3 * (page_count (phs demo_elf) + 2048) \<le> card (free_frames (pm demo_files))"
    using demo_loadable(2,3) boot_room by (simp_all add: demo_files_def)
  obtain k' ms' where l: "load_elf (\<lambda>_. Some demo_elf) demo_ext4 (\<lambda>_ _. None) demo_time None [] [[1]] [] (demo_files, demo_user) =
      Some ((demo_files\<lparr>pm := k'\<rparr>, ms'), entry demo_elf, USER_STACK_TOP, start_info demo_elf [[1]] [])" "st_wf (k', mpt ms')"
    using load_elf_spec [of "\<lambda>_. Some demo_elf" "[]" demo_elf demo_user demo_files demo_ext4 "\<lambda>_ _. None" demo_time None "[[1]]" "[]", OF refl demo_loadable(1) fr room] by blast
  obtain tok where tok: "ms_activate ms' = Some tok" using activate_returns [OF st_wfD(3) [OF l(2)]] by (auto simp: ms_activate_def)
  have info: "args (start_info demo_elf [[1]] []) = [[1]]" "envs (start_info demo_elf [[1]] []) = []" "length (auxv (start_info demo_elf [[1]] [])) = 14"
    by (simp_all add: start_info_def set_auxv_at_base_def push_auxv_def init_auxv_def init_arg_def stack_info_empty_def Let_def)
  have "stack_need (start_info demo_elf [[1]] []) \<le> unat USER_STACK_TOP"
    using info by (simp add: stack_need_def strs_need_def strs_size_def USER_STACK_TOP_def)
  from build_stack_spec [OF rng_new_inv(1) _ this, of "um demo_files"] rng_new_inv(2)
  obtain i sp lay r' m where bs: "build_stack (start_info demo_elf [[1]] []) USER_STACK_TOP (rng_new, um demo_files) = Some ((i, sp, lay), r', m)" by auto
  have cl: "clear_user_space (demo_user, fst boot_st) = Some (demo_user, fst boot_st)"
    by (simp add: clear_user_space_def ms_munmap_def vr_unmap_def demo_user_def cow_clear_def LOW_LIMIT_def USER_UPPER_LIMIT_def)
  have tb: "close_exec (tbl demo_files) = Some (tbl demo_files)" "fds (tbl demo_files) = []" by (simp_all add: close_exec_def demo_files_def)
  have f: "demo_files\<lparr>pm := fst boot_st\<rparr> = demo_files" by (simp add: demo_files_def)
  have get: "bt_get (tasks (demo_exec b)) 0 = Some (demo_pcb 2 Running [1])" "bt_get (vms (demo_exec b)) 2 = Some demo_user" "bt_get (fdts (demo_exec b)) 3 = Some (tbl demo_files)"
    "mem (demo_exec b) = fst boot_st" "vm (demo_pcb n st c) = 2" "fdt (demo_pcb n st c) = 3" for n st c
    by (simp_all add: demo_exec_def demo_get demo_pcb_def bt_get_def demo_kernel_def)
  show ?thesis unfolding from_exec_def prod.case
    by (simp add: get cl tb drop_closed_def f exec_outside_def l(1) tok bs upd_task_def push_trap_cx_def Let_def)
qed


end
