(* ===== verification/Spec2Isabelle.thy ===== *)
theory Spec2Isabelle
  imports Hart_Env Fat_Table Sys_Fs_Calls Loader_Exec
begin

text \<open>
  Duck OS is a small RISC-V kernel in Rust (\<^verbatim>\<open>os/src\<close>): memory management with Sv39 page tables and lazily filled areas,
  processes, a file system layer over FAT32 and ext4, pipes, and the Linux system calls of a contest's test programs.
  This development models its core in HOL and proves what the parts promise each other. All paths below are under
  \<^verbatim>\<open>src/os/src\<close>, but for the bitmap allocator, which is vendored source under \<^verbatim>\<open>src/dependency\<close>.

  \<^bold>\<open>How the code is read.\<close> A machine integer is a word of its width and wraps, as in the release build of \<^verbatim>\<open>os/Makefile\<close>; indices
  into small tables and sizes of files, which stay far from the bounds, are natural numbers where the theory says so. A panic is
  the value \<^term>\<open>None\<close>, an \<^verbatim>\<open>Err\<close> of an \<^verbatim>\<open>OSResult\<close> is \<^term>\<open>Inl\<close>. Global state behind a lock is passed explicitly; a lock
  that its holder takes again is a panic. An \<^verbatim>\<open>Arc\<close> is a reference into a store with a count. Code outside of the repository and devices are
  arguments: the disk, the clock, user memory, the file of a descriptor.

  \<^bold>\<open>Memory\<close>, from the bottom up, each theory over the contracts of the ones before:
  \<^item> \<open>Duck_Prelude\<close>: machine integers, panics, loops that may panic, little-endian numbers, and ordered maps with their locale \<open>ordered_map\<close>.
  \<^item> \<open>Bitmap_Alloc\<close> (\<^verbatim>\<open>bitmap-allocator-main/src/lib.rs\<close>): the 16-ary tree of bits refines the set of available numbers;
    the locale \<open>bit_allocator\<close> is the contract of its three clients (frames, process numbers, descriptors).
  \<^item> \<open>Address\<close>, \<open>Type_Cast\<close> (\<^verbatim>\<open>mm/address.rs\<close>, \<^verbatim>\<open>mm/type_cast.rs\<close>, \<^verbatim>\<open>config/mm.rs\<close>): conversions, alignment, flag types.
  \<^item> \<open>Frame_Alloc\<close> (\<^verbatim>\<open>mm/allocator/frame.rs\<close>): frames are exclusive and zeroed; the locale \<open>frame_source\<close>.
  \<^item> \<open>Page_Table\<close> (\<^verbatim>\<open>mm/page_table.rs\<close>): a table in memory refines a partial map from page numbers to entries, which
    \<open>map_one\<close>, \<open>unmap\<close> and \<open>modify_flags\<close> change at one page only.
  \<^item> \<open>Pma\<close>, \<open>Vma\<close>, \<open>Vma_Range\<close> (\<^verbatim>\<open>mm/pma.rs\<close>, \<^verbatim>\<open>mm/vma.rs\<close>, \<^verbatim>\<open>mm/vma_range\<close>): pages, areas, and the map of areas; how unmapping
    cuts an area, first fit, and that growing never makes areas overlap.
  \<^item> \<open>Memory_Set\<close> (\<^verbatim>\<open>mm/memory_set\<close>, \<^verbatim>\<open>mm/cow.rs\<close>, \<^verbatim>\<open>syscall/mm.rs\<close>): address spaces, page faults, copies for a fork and the memory
    system calls; the relation \<open>space_step\<close> interleaves them and keeps the areas apart.

  \<^bold>\<open>Files.\<close>
  \<^item> \<open>Fs_Info\<close>, \<open>Path\<close> (\<^verbatim>\<open>fs/info.rs\<close>, \<^verbatim>\<open>utils/path.rs\<close>, \<^verbatim>\<open>utils/string.rs\<close>): flags, and path strings as lists of names.
  \<^item> \<open>Fd_Table\<close> (\<^verbatim>\<open>fs/fd_table.rs\<close> and three calls of \<^verbatim>\<open>syscall/fs.rs\<close>): the least free descriptor, over \<open>bit_allocator\<close>.
  \<^item> \<open>Pipe\<close> (\<^verbatim>\<open>fs/pipe.rs\<close>): the ring refines a bounded queue; \<open>pipe_step\<close> interleaves the iterations of all readers and writers.
  \<^item> \<open>File_Io\<close> (\<^verbatim>\<open>fs/file.rs\<close>, \<^verbatim>\<open>fs/inode.rs\<close>, \<^verbatim>\<open>fs/page_cache.rs\<close>, the in-memory files of ext4 and FAT32): what is written is read back.
  \<^item> \<open>Dentry\<close>, \<open>Dentry_Tree\<close> (\<^verbatim>\<open>fs/dentry.rs\<close>, \<^verbatim>\<open>fs/simplefs\<close>, \<^verbatim>\<open>fs/ext4/ext4_dentry.rs\<close>): the tree of directory entries with the cache of paths. The
    invariant \<open>vfs_wf\<close> ties the cache to the tree: a cached path leads to the entry that has this path, and every operation keeps it.
  \<^item> \<open>File_System\<close> (\<^verbatim>\<open>fs/file_system.rs\<close>, \<^verbatim>\<open>fs/mod.rs\<close>, \<^verbatim>\<open>fs/ext4/ext4_fs.rs\<close>, \<^verbatim>\<open>fs/devfs\<close>, \<^verbatim>\<open>fs/procfs\<close>, \<^verbatim>\<open>fs/tmpfs\<close>): mounting, and the tree after boot.
  \<^item> \<open>Sys_Fs\<close> (\<^verbatim>\<open>syscall/fs.rs\<close>, \<^verbatim>\<open>syscall/mod.rs\<close>): all system calls on files and directories.
  \<^item> \<open>Sys_Fs_Inv\<close>, \<open>Sys_Fs_Calls\<close>: the relation \<open>fs_step\<close> interleaves these calls, which keep \<open>vfs_wf\<close> and the open files; lookup as a refinement of the tree,
    round trips, listings, and what goes wrong with files in use and in memory.
  \<^item> \<open>Block_Cache\<close>, \<open>Fat_Layout\<close>, \<open>Fat_Table\<close> (\<^verbatim>\<open>fs/fat32\<close>): the cache of disk blocks is transparent, the geometry of a volume, chains of
    clusters, and reading and resizing files on disk.
  \<^item> \<open>Random_Gen\<close> (\<^verbatim>\<open>utils/random.rs\<close>, \<^verbatim>\<open>syscall/misc.rs\<close>, \<^verbatim>\<open>fs/devfs/urandom.rs\<close>): what the random generator gives.

  \<^bold>\<open>Processes.\<close>
  \<^item> \<open>Process\<close>, \<open>Process_Inv\<close> (\<^verbatim>\<open>process/pid.rs\<close>, \<^verbatim>\<open>kstack.rs\<close>, \<^verbatim>\<open>context.rs\<close>, \<^verbatim>\<open>schedule.rs\<close>, \<^verbatim>\<open>pcb.rs\<close>, \<^verbatim>\<open>hart/cpu.rs\<close>, \<^verbatim>\<open>syscall/process.rs\<close>): the relation
    \<open>proc_step\<close> interleaves the dispatches of one hart with the calls of its tasks; where every task is, the order of the queue, and what clone, wait and exit do.
  \<^item> \<open>User_Stack\<close> (\<^verbatim>\<open>process/loader/stack.rs\<close>): the stack of a new program.
  \<^item> \<open>Loader\<close>, \<open>Loader_Image\<close>, \<open>Loader_Exec\<close> (\<^verbatim>\<open>process/loader/mod.rs\<close>, \<^verbatim>\<open>process/mod.rs\<close>, \<^verbatim>\<open>pcb.rs\<close>, \<^verbatim>\<open>sys_execve\<close>): programs become address spaces and tasks; what the
    addresses of a loaded program lead to, and what a program starts with. The parser of ELF files is the package \<^verbatim>\<open>xmas_elf\<close>, an argument.
  \<^item> \<open>Hart_Env\<close> (\<^verbatim>\<open>process/hart/env.rs\<close>): the permission to access user pages, which nested guards lose.

  \<^bold>\<open>Fuel.\<close> The loops that the code does not bound have a bound in the model that is shown to be enough: two rounds of the block
  cache's clock (an entry without holder is found in them, and without one the loop never ends), \<open>2\<^sup>2\<^sup>8\<close> steps along a chain of
  clusters (a chain is no longer, and from a cycle no number of steps returns), the number of clusters when a file is resized,
  the depth of the volume when its entries are loaded (more fuel never changes the result). The loop of an exiting task over its children
  has no exit, and no fuel is enough. Reading a
  string, or a vector of strings, from user memory is a partial function.

  \<^bold>\<open>Not modelled.\<close> Assembly and registers (\<^verbatim>\<open>switch.S\<close>, \<^verbatim>\<open>trap.S\<close>, \<^verbatim>\<open>sbi.rs\<close>, interrupts), device drivers (\<^verbatim>\<open>driver\<close>), logging and the console
  only talk to hardware. The ext4 file system on disk is the submodule \<^verbatim>\<open>lwext4_rust\<close>, which is not in the repository: the functions
  of it that the kernel calls are the record \<open>ext4_lib\<close>, an argument of the operations. The components of the manifest with the status \<^verbatim>\<open>not_modelled\<close> name the rest.
\<close>

end
